(* ===== verification/Prelude.thy ===== *)
theory Prelude
  imports Complex_Main "HOL-Library.State_Monad"
begin

text \<open>
  What every component shares: the integer conversions of C written out, C strings, path
  components, the weakest-precondition calculus for the state monad of
  HOL-Library.State_Monad in which the operations are written, and the locale of a transition
  system with an invariant.
\<close>

named_theorems wp_simps \<open>weakest preconditions of the building blocks, as rewrite rules\<close>
named_theorems preserves_intros \<open>composition rules for preserved state predicates\<close>
named_theorems cast_simps \<open>facts about the C integer conversions\<close>

section \<open>C integer conversions\<close>

text \<open>
  The values are unbounded integers; each conversion of the source to a type of fewer bits is
  one of these functions, with the wrap-around written out. An \<open>int\<close> has 32 bits, a
  \<open>zend_long\<close> 64.
\<close>

definition as_int :: "int \<Rightarrow> int" where
  "as_int x = (x + 2 ^ 31) mod 2 ^ 32 - 2 ^ 31"

definition as_long :: "int \<Rightarrow> int" where
  "as_long x = (x + 2 ^ 63) mod 2 ^ 64 - 2 ^ 63"

definition as_i16 :: "int \<Rightarrow> int" where
  "as_i16 x = (x + 2 ^ 15) mod 2 ^ 16 - 2 ^ 15"

definition as_u64 :: "int \<Rightarrow> int" where "as_u64 x = x mod 2 ^ 64"
definition as_u32 :: "int \<Rightarrow> int" where "as_u32 x = x mod 2 ^ 32"
definition as_u16 :: "int \<Rightarrow> int" where "as_u16 x = x mod 2 ^ 16"
definition as_u8 :: "int \<Rightarrow> int" where "as_u8 x = x mod 2 ^ 8"

lemmas cast_defs = as_int_def as_long_def as_i16_def as_u64_def as_u32_def as_u16_def as_u8_def

lemma as_int_range [cast_simps]: "- (2 ^ 31) \<le> as_int x \<and> as_int x < 2 ^ 31"
  by (simp add: as_int_def)

lemma as_int_id [cast_simps]: "- (2 ^ 31) \<le> x \<Longrightarrow> x < 2 ^ 31 \<Longrightarrow> as_int x = x"
  by (simp add: as_int_def)

lemma as_int_wraps [cast_simps]: "as_int (x + 2 ^ 32) = as_int x"
proof -
  have "(x + 2 ^ 32 + 2 ^ 31) mod 2 ^ 32 = ((x + 2 ^ 31) + 2 ^ 32) mod (2 ^ 32 :: int)"
    by (simp add: algebra_simps)
  also have "\<dots> = (x + 2 ^ 31) mod 2 ^ 32" by (rule mod_add_self2)
  finally show ?thesis by (simp add: as_int_def)
qed

lemma as_int_high_bit [cast_simps]:
  "2 ^ 31 \<le> x \<Longrightarrow> x < 2 ^ 32 \<Longrightarrow> as_int x = x - 2 ^ 32"
proof -
  assume x: "2 ^ 31 \<le> x" "x < 2 ^ 32"
  then have "(x + 2 ^ 31) mod 2 ^ 32 = (x + 2 ^ 31 - 2 ^ 32) mod (2 ^ 32 :: int)"
    by (metis mod_diff_right_eq mod_self diff_zero)
  also have "\<dots> = x + 2 ^ 31 - 2 ^ 32" using x by simp
  finally show ?thesis by (simp add: as_int_def)
qed

lemma as_long_id [cast_simps]: "- (2 ^ 63) \<le> x \<Longrightarrow> x < 2 ^ 63 \<Longrightarrow> as_long x = x"
  by (simp add: as_long_def)

lemma as_u64_id [cast_simps]: "0 \<le> x \<Longrightarrow> x < 2 ^ 64 \<Longrightarrow> as_u64 x = x"
  by (simp add: as_u64_def)

lemma as_u16_id [cast_simps]: "0 \<le> x \<Longrightarrow> x < 2 ^ 16 \<Longrightarrow> as_u16 x = x"
  by (simp add: as_u16_def)

section \<open>C strings\<close>

text \<open>
  A \<open>zend_string\<close> is a byte list of any content. Where the code passes it as a
  \<open>const char *\<close> without its length the callee sees the bytes before the first NUL.
\<close>

definition cstr :: "string \<Rightarrow> string" where
  "cstr s = takeWhile (\<lambda>c. c \<noteq> CHR 0x00) s"

text \<open>Reading \<open>p[i]\<close> of a NUL-terminated buffer, for \<open>i\<close> up to and including the length.\<close>

definition char_at :: "string \<Rightarrow> nat \<Rightarrow> char" where
  "char_at p i = (if i < length p then p ! i else CHR 0x00)"

text \<open>An optional argument with its default value.\<close>

definition dflt :: "'a \<Rightarrow> 'a option \<Rightarrow> 'a" where
  "dflt d x = (case x of None \<Rightarrow> d | Some v \<Rightarrow> v)"

lemma dflt_simps [simp]: "dflt d None = d" "dflt d (Some v) = v"
  by (simp_all add: dflt_def)

text \<open>\<open>strchr\<close>: the suffix from the first occurrence, or NULL.\<close>

fun strchr :: "string \<Rightarrow> char \<Rightarrow> string option" where
  "strchr [] c = None"
| "strchr (x # xs) c = (if x = c then Some (x # xs) else strchr xs c)"

lemma strchr_None_iff: "strchr s c = None \<longleftrightarrow> c \<notin> set s"
  by (induction s) auto

lemma strchr_Some: "strchr s c = Some f \<Longrightarrow>
  \<exists>a b. s = a @ c # b \<and> f = c # b \<and> c \<notin> set a"
proof (induction s)
  case (Cons x s)
  show ?case
  proof (cases "x = c")
    case True
    with Cons.prems have "x # s = [] @ c # s \<and> f = c # s \<and> c \<notin> set []" by auto
    then show ?thesis by blast
  next
    case False
    with Cons.prems Cons.IH obtain a b where "s = a @ c # b" "f = c # b" "c \<notin> set a" by auto
    with False have "x # s = (x # a) @ c # b \<and> f = c # b \<and> c \<notin> set (x # a)" by auto
    then show ?thesis by blast
  qed
qed simp

lemma strchr_append [simp]: "c \<notin> set a \<Longrightarrow> strchr (a @ c # b) c = Some (c # b)"
  by (induction a) auto

lemma strchr_append_notin [simp]: "c \<notin> set a \<Longrightarrow> strchr (a @ b) c = strchr b c"
  by (induction a) auto

text \<open>\<open>strstr\<close> only tests for the presence of a substring where the code uses it.\<close>

fun strstr_found :: "string \<Rightarrow> string \<Rightarrow> bool" where
  "strstr_found [] n = (n = [])"
| "strstr_found (x # xs) n = (take (length n) (x # xs) = n \<or> strstr_found xs n)"

lemma strstr_found_prefix: "strstr_found (n @ s) n"
  by (cases n; cases s) auto

lemma strstr_found_infix: "strstr_found (a @ n @ s) n"
  by (induction a) (auto simp: strstr_found_prefix)

section \<open>Lists\<close>

lemma sorted_le_last: "sorted xs \<Longrightarrow> x \<in> set xs \<Longrightarrow> x \<le> last xs"
  by (induction xs) (auto simp: last_in_set)

lemma filter_upt_skip:
  assumes "j \<le> i" and "\<And>k. j < k \<Longrightarrow> k \<le> i \<Longrightarrow> \<not> P k"
  shows "filter P [0..<Suc i] = filter P [0..<Suc j]"
proof -
  have "[0..<Suc i] = [0..<Suc j] @ [Suc j..<Suc i]"
    using upt_add_eq_append [of 0 "Suc j" "i - j"] assms(1) by simp
  moreover have "filter P [Suc j..<Suc i] = []"
    using assms(2) by (auto simp: filter_empty_conv)
  ultimately show ?thesis by (simp del: upt_Suc)
qed

section \<open>Path components\<close>

text \<open>The components of a path between its separators (empty components included).\<close>

fun components :: "(char \<Rightarrow> bool) \<Rightarrow> string \<Rightarrow> string list" where
  "components sl [] = [[]]"
| "components sl (c # cs) =
     (if sl c then [] # components sl cs
      else (case components sl cs of [] \<Rightarrow> [[c]] | x # xs \<Rightarrow> (c # x) # xs))"

lemma components_nonempty [simp]: "components sl s \<noteq> []"
  by (induction s) (auto split: list.splits)

lemma components_append_sep:
  "sl c \<Longrightarrow> components sl (a @ c # b) = components sl a @ components sl b"
  by (induction a) (auto split: list.splits)

lemma components_no_sep: "\<forall>c \<in> set s. \<not> sl c \<Longrightarrow> components sl s = [s]"
  by (induction s) auto

section \<open>Weakest preconditions in the state monad\<close>

abbreviation ret :: "'a \<Rightarrow> ('s, 'a) state" where
  "ret \<equiv> State_Monad.return"

definition wp :: "('s, 'a) state \<Rightarrow> ('a \<Rightarrow> 's \<Rightarrow> bool) \<Rightarrow> 's \<Rightarrow> bool" where
  "wp m Q s = (case run_state m s of (a, s') \<Rightarrow> Q a s')"

lemma wp_return [wp_simps]: "wp (State_Monad.return x) Q = Q x"
  by (rule ext) (simp add: wp_def)

lemma wp_bind [wp_simps]:
  "wp (State_Monad.bind m f) Q s = wp m (\<lambda>a. wp (f a) Q) s"
  by (simp add: wp_def split: prod.split)

lemma wp_if [wp_simps]:
  "wp (if b then m else n) Q s = ((b \<longrightarrow> wp m Q s) \<and> (\<not> b \<longrightarrow> wp n Q s))"
  by simp

lemma wp_option [wp_simps]:
  "wp (case x of None \<Rightarrow> m | Some a \<Rightarrow> f a) Q s =
     ((x = None \<longrightarrow> wp m Q s) \<and> (\<forall>a. x = Some a \<longrightarrow> wp (f a) Q s))"
  by (cases x) auto

lemma wp_prod [wp_simps]:
  "wp (case x of (a, b) \<Rightarrow> f a b) Q s = (\<forall>a b. x = (a, b) \<longrightarrow> wp (f a b) Q s)"
  by (cases x) auto

lemma wp_let [wp_simps]: "wp (let x = a in f x) Q s = wp (f a) Q s"
  by simp

lemma wp_State [wp_simps]: "wp (State f) Q s = (case f s of (a, s') \<Rightarrow> Q a s')"
  by (simp add: wp_def)

lemma wp_mono: "wp m Q s \<Longrightarrow> (\<And>a s'. Q a s' \<Longrightarrow> R a s') \<Longrightarrow> wp m R s"
  by (auto simp: wp_def split: prod.splits)

lemma wp_conj: "wp m Q s \<Longrightarrow> wp m R s \<Longrightarrow> wp m (\<lambda>a s'. Q a s' \<and> R a s') s"
  by (auto simp: wp_def split: prod.splits)

lemma wp_run: "wp m Q s \<Longrightarrow> run_state m s = (a, s') \<Longrightarrow> Q a s'"
  by (simp add: wp_def)

lemma wp_runI: "(\<And>a s'. run_state m s = (a, s') \<Longrightarrow> Q a s') \<Longrightarrow> wp m Q s"
  by (simp add: wp_def split: prod.split)

lemma run_state_if:
  "run_state (if b then m else n) s = (if b then run_state m s else run_state n s)"
  by simp

text \<open>A predicate on states that a computation keeps, whatever it returns.\<close>

definition preserves :: "('s \<Rightarrow> bool) \<Rightarrow> ('s, 'a) state \<Rightarrow> bool" where
  "preserves P m \<longleftrightarrow> (\<forall>s. P s \<longrightarrow> wp m (\<lambda>_. P) s)"

lemma preservesI: "(\<And>s. P s \<Longrightarrow> wp m (\<lambda>_. P) s) \<Longrightarrow> preserves P m"
  by (simp add: preserves_def)

lemma preservesD: "preserves P m \<Longrightarrow> P s \<Longrightarrow> wp m (\<lambda>_. P) s"
  by (simp add: preserves_def)

lemma preserves_run: "preserves P m \<Longrightarrow> P s \<Longrightarrow> P (snd (run_state m s))"
  by (cases "run_state m s") (auto simp: preserves_def wp_def)

lemma preserves_return [preserves_intros]: "preserves P (State_Monad.return x)"
  by (simp add: preserves_def wp_simps)

lemma preserves_bind [preserves_intros]:
  "preserves P m \<Longrightarrow> (\<And>a. preserves P (f a)) \<Longrightarrow> preserves P (State_Monad.bind m f)"
  by (auto simp: preserves_def wp_simps intro: wp_mono)

lemma preserves_return_bind: "preserves P (f x) \<Longrightarrow> preserves P (State_Monad.bind (ret x) f)"
  by (simp add: preserves_def wp_simps)

lemma preserves_if [preserves_intros]:
  "(b \<Longrightarrow> preserves P m) \<Longrightarrow> (\<not> b \<Longrightarrow> preserves P n) \<Longrightarrow> preserves P (if b then m else n)"
  by simp

lemma preserves_option [preserves_intros]:
  "preserves P m \<Longrightarrow> (\<And>a. x = Some a \<Longrightarrow> preserves P (f a)) \<Longrightarrow>
   preserves P (case x of None \<Rightarrow> m | Some a \<Rightarrow> f a)"
  by (cases x) auto

lemma preserves_prod [preserves_intros]:
  "(\<And>a b. x = (a, b) \<Longrightarrow> preserves P (f a b)) \<Longrightarrow> preserves P (case x of (a, b) \<Rightarrow> f a b)"
  by (cases x) auto

lemma preserves_let [preserves_intros]:
  "(\<And>x. x = a \<Longrightarrow> preserves P (f x)) \<Longrightarrow> preserves P (let x = a in f x)"
  by simp

text \<open>A counted loop whose body is run for its effects.\<close>

fun for_each :: "'a list \<Rightarrow> ('a \<Rightarrow> ('s, unit) state) \<Rightarrow> ('s, unit) state" where
  "for_each [] f = ret ()"
| "for_each (x # xs) f = do { _ \<leftarrow> f x; for_each xs f }"

lemma preserves_for_each [preserves_intros]:
  "(\<And>x. x \<in> set xs \<Longrightarrow> preserves P (f x)) \<Longrightarrow> preserves P (for_each xs f)"
  by (induction xs) (auto intro!: preserves_intros)

section \<open>Transition systems\<close>

text \<open>
  The contract of a stateful component: its initial states and its steps keep an invariant;
  so every state the component can reach satisfies it.
\<close>

inductive reach :: "('s \<Rightarrow> bool) \<Rightarrow> ('s \<Rightarrow> 's \<Rightarrow> bool) \<Rightarrow> 's \<Rightarrow> bool"
  for init :: "'s \<Rightarrow> bool" and step :: "'s \<Rightarrow> 's \<Rightarrow> bool" where
  reach_init: "init s \<Longrightarrow> reach init step s"
| reach_step: "reach init step s \<Longrightarrow> step s t \<Longrightarrow> reach init step t"

locale transition_system =
  fixes init :: "'s \<Rightarrow> bool"
    and step :: "'s \<Rightarrow> 's \<Rightarrow> bool"
    and inv :: "'s \<Rightarrow> bool"
  assumes init_inv: "init s \<Longrightarrow> inv s"
    and step_inv: "inv s \<Longrightarrow> step s t \<Longrightarrow> inv t"
begin

lemma reach_inv: "reach init step s \<Longrightarrow> inv s"
  by (induction rule: reach.induct) (auto intro: init_inv step_inv)

lemma inv_steps: "step\<^sup>*\<^sup>* s t \<Longrightarrow> inv s \<Longrightarrow> inv t"
  by (induction rule: rtranclp_induct) (auto intro: step_inv)

end

section \<open>Data refinement\<close>

text \<open>
  The contract between a representation and what it stands for: every operation in its domain
  succeeds, keeps the invariant and does to the abstract value what its specification says. The
  same then holds of every sequence of operations.
\<close>

primrec run_ops :: "('op \<Rightarrow> 'c \<Rightarrow> 'c option) \<Rightarrow> 'op list \<Rightarrow> 'c \<Rightarrow> 'c option" where
  "run_ops exec [] c = Some c"
| "run_ops exec (op # ops) c = (case exec op c of None \<Rightarrow> None | Some c' \<Rightarrow> run_ops exec ops c')"

locale data_refinement =
  fixes exec :: "'op \<Rightarrow> 'c \<Rightarrow> 'c option"
    and spec :: "'op \<Rightarrow> 'a \<Rightarrow> 'a"
    and inv :: "'c \<Rightarrow> bool"
    and abs :: "'c \<Rightarrow> 'a"
    and ok :: "'op \<Rightarrow> bool"
  assumes exec_step: "inv c \<Longrightarrow> ok op \<Longrightarrow> \<exists>c'. exec op c = Some c' \<and> inv c' \<and> abs c' = spec op (abs c)"
begin

lemma run_refines:
  "inv c \<Longrightarrow> list_all ok ops \<Longrightarrow>
   \<exists>c'. run_ops exec ops c = Some c' \<and> inv c' \<and> abs c' = fold spec ops (abs c)"
proof (induction ops arbitrary: c)
  case (Cons op ops)
  from Cons.prems exec_step [of c op] obtain c'
    where "exec op c = Some c'" "inv c'" "abs c' = spec op (abs c)" by auto
  with Cons.IH [of c'] Cons.prems show ?case by simp
qed simp

end

end
