(* ===== verification/Zip_Env.thy ===== *)
theory Zip_Env
  imports Prelude
begin

text \<open>
  The boundary of the zip extension: the PHP values it is given and returns, and everything it
  calls that is not under src/ (libzip, the Zend and stream layers of PHP, the platform). A call
  is a value of one of the request types below, grouped by what it answers; an environment
  gives the answers. The model never assumes how an environment answers: what a property
  relies on is a hypothesis of that property. Every call, its answer where it decides
  anything later, every diagnostic and every release of memory is appended to the trace of the
  state, in the order the code makes them.
\<close>

section \<open>PHP values and diagnostics\<close>

datatype hkey = HIdx int | HStr string

text \<open>\<open>IS_OTHER\<close> stands for the types the extension never inspects (doubles, objects).\<close>

datatype zval =
    IS_NULL | IS_FALSE | IS_TRUE
  | IS_LONG int
  | IS_STRING string
  | IS_ARRAY "(hkey \<times> zval) list"
  | IS_RESOURCE nat
  | IS_OTHER nat

type_synonym hash_table = "(hkey \<times> zval) list"

definition RETURN_BOOL :: "bool \<Rightarrow> zval" where
  "RETURN_BOOL b = (if b then IS_TRUE else IS_FALSE)"

text \<open>\<open>zend_hash_str_find\<close>, \<open>zend_hash_index_find\<close> and \<open>add_next_index_string\<close>.\<close>

definition zend_hash_str_find :: "hash_table \<Rightarrow> string \<Rightarrow> zval option" where
  "zend_hash_str_find ht k = map_of ht (HStr k)"

definition zend_hash_index_find :: "hash_table \<Rightarrow> int \<Rightarrow> zval option" where
  "zend_hash_index_find ht i = map_of ht (HIdx i)"

definition packed_array :: "zval list \<Rightarrow> hash_table" where
  "packed_array xs = zip (map HIdx (map int [0..<length xs])) xs"

datatype darg = DS string | DN int

datatype level = E_WARNING | E_DEPRECATED

text \<open>Thrown exceptions: argument parsing, and the throws of the extension with the format and
  its arguments.\<close>

datatype zexn =
    Zpp_failure
  | Argument_value_error nat string
  | Value_error string "darg list"
  | Type_error string "darg list"
  | Error string "darg list"
  | Resource_type_error string

section \<open>Requests to libzip\<close>

type_synonym zip_t = nat
type_synonym zip_file_t = nat
type_synonym zip_source_t = nat
type_synonym php_stream_t = nat

record zip_stat =
  sb_name :: string
  sb_index :: int
  sb_crc :: int
  sb_size :: int
  sb_mtime :: int
  sb_comp_size :: int
  sb_comp_method :: int
  sb_encryption_method :: int

text \<open>Calls that answer an integer (the answer of a \<open>void\<close> function is ignored).\<close>

datatype icall =
    Zip_close zip_t
  | Zip_discard zip_t
  | Zip_set_default_password zip_t string
  | Zip_get_num_entries zip_t int
  | Zip_error_clear "zip_t option"
  | Zip_error_code_zip zip_t
  | Zip_error_code_system zip_t
  | Zip_dir_add zip_t string int
  | Zip_file_add "zip_t option" string zip_source_t int
  | Zip_file_replace "zip_t option" int zip_source_t int
  | Zip_source_free zip_source_t
  | Zip_name_locate zip_t string int
  | Zip_set_archive_comment zip_t string int
  | Zip_file_set_comment zip_t int "string option" int int
  | Zip_file_set_external_attributes zip_t int int int int
  | Zip_set_file_compression "zip_t option" int int int
  | Zip_file_set_encryption "zip_t option" int int "string option"
  | Zip_file_set_mtime zip_t int int int
  | Zip_delete zip_t int
  | Zip_file_rename zip_t int string int
  | Zip_unchange zip_t int
  | Zip_unchange_all zip_t
  | Zip_unchange_archive zip_t
  | Zip_fclose zip_file_t
  | Zip_register_progress_callback_with_state zip_t real
  | Zip_register_cancel_callback_with_state zip_t
  | Zip_compression_method_supported int bool
  | Zip_encryption_method_supported int bool

text \<open>Calls that answer a pointer; \<open>zip_open\<close> also writes an error code.\<close>

datatype pcall =
    Zip_open string int
  | Zip_fopen zip_t string int
  | Zip_fopen_index zip_t int int
  | Zip_source_file "zip_t option" string int int
  | Zip_source_buffer zip_t nat string int
  | Php_stream_open_wrapper string string
  | Pcre_get_compiled_regex string
  | Php_pcre_create_match_data nat

datatype scall = Zip_stat zip_t string int | Zip_stat_index zip_t int int

datatype tcall =
    Zip_get_name zip_t int int
  | Zip_get_archive_comment zip_t int
  | Zip_file_get_comment zip_t int int
  | Zip_strerror zip_t
  | Zip_error_strerror zip_t
  | Zip_error_strerror_of int int
  | Zip_file_error_strerror zip_file_t
  | Zip_libzip_version
  | Expand_filepath string
  | Virtual_file_ex string
  | Vcwd_getcwd

section \<open>Requests to PHP and the platform\<close>

record fstat =
  st_size :: int
  st_isdir :: bool

datatype fcall =
    Php_check_open_basedir string
  | Php_stream_mkdir string int bool
  | Php_stream_write php_stream_t string
  | Php_stream_close php_stream_t
  | Has_stream_metadata php_stream_t
  | Stream_metadata_touch string int
  | Pcre2_match nat string

datatype qcall = Php_stream_stat_path_ex string | Vcwd_stat string

datatype lcall = Glob string int | Php_stream_scandir string

section \<open>Environments\<close>

text \<open>
  The pure parameters: what the headers of PHP, the C library and libzip define as macros, and
  pure functions of PHP. \<open>zc\<close> gives the value of a named constant of zip.h and glob.h.
\<close>

record plat =
  is_slash :: "char \<Rightarrow> bool"
  default_slash :: char
  maxpathlen :: nat
  zts :: bool
  win32 :: bool
  is_absolute_path :: "string \<Rightarrow> bool"
  php_dirname :: "string \<Rightarrow> string"
  php_basename :: "string \<Rightarrow> string"
  zend_zval_type_name :: "zval \<Rightarrow> string"
  zval_get_long :: "zval \<Rightarrow> int"
  zend_is_true :: "zval \<Rightarrow> bool"
  zc :: "string \<Rightarrow> int"
  libzip_version :: string

record 'w env = plat +
  sys_i :: "icall \<Rightarrow> 'w \<Rightarrow> int \<times> 'w"
  sys_p :: "pcall \<Rightarrow> 'w \<Rightarrow> (nat option \<times> int) \<times> 'w"
  sys_s :: "scall \<Rightarrow> 'w \<Rightarrow> (int \<times> zip_stat) \<times> 'w"
  sys_t :: "tcall \<Rightarrow> 'w \<Rightarrow> string option \<times> 'w"
  sys_fread :: "zip_file_t \<Rightarrow> int \<Rightarrow> 'w \<Rightarrow> (int \<times> string) \<times> 'w"
  sys_attr :: "zip_t \<Rightarrow> int \<Rightarrow> int \<Rightarrow> 'w \<Rightarrow> (int \<times> int \<times> int) \<times> 'w"
  sys_f :: "fcall \<Rightarrow> 'w \<Rightarrow> int \<times> 'w"
  sys_q :: "qcall \<Rightarrow> 'w \<Rightarrow> (int \<times> fstat) \<times> 'w"
  sys_l :: "lcall \<Rightarrow> 'w \<Rightarrow> (int \<times> string list) \<times> 'w"
  sys_user :: "nat \<Rightarrow> real option \<Rightarrow> 'w \<Rightarrow> zval option \<times> 'w"

section \<open>The trace and the state\<close>

datatype block = B_buffer nat | B_buffers | B_filename | B_struct

datatype event =
    Ev_i icall int
  | Ev_p pcall "nat option"
  | Ev_s scall int
  | Ev_t tcall
  | Ev_fread zip_file_t int int
  | Ev_attr zip_t int int int
  | Ev_f fcall int
  | Ev_q qcall int
  | Ev_l lcall int
  | Ev_user nat
  | Ev_diag level string "darg list"
  | Ev_efree block
  | Ev_zval_copy nat
  | Ev_zval_dtor nat
  | Ev_assign_ref nat int

text \<open>\<open>self\<close> is the state of the component that runs: an archive object, a resource table, a
  stream.\<close>

record ('w, 'o) st =
  world :: 'w
  trace :: "event list"
  exn :: "zexn option"
  self :: 'o

type_synonym ('w, 'o, 'a) act = "(('w, 'o) st, 'a) state"

definition perform :: "('w \<Rightarrow> 'r \<times> 'w) \<Rightarrow> ('r \<Rightarrow> event) \<Rightarrow> ('w, 'o, 'r) act" where
  "perform f ev = State (\<lambda>s. case f (world s) of (r, w) \<Rightarrow>
     (r, s\<lparr>world := w, trace := trace s @ [ev r]\<rparr>))"

definition icall :: "'w env \<Rightarrow> icall \<Rightarrow> ('w, 'o, int) act" where
  "icall E c = perform (sys_i E c) (Ev_i c)"

definition pcall :: "'w env \<Rightarrow> pcall \<Rightarrow> ('w, 'o, nat option \<times> int) act" where
  "pcall E c = perform (sys_p E c) (\<lambda>r. Ev_p c (fst r))"

definition ptrcall :: "'w env \<Rightarrow> pcall \<Rightarrow> ('w, 'o, nat option) act" where
  "ptrcall E c = do { r \<leftarrow> pcall E c; ret (fst r) }"

definition scall :: "'w env \<Rightarrow> scall \<Rightarrow> ('w, 'o, int \<times> zip_stat) act" where
  "scall E c = perform (sys_s E c) (\<lambda>r. Ev_s c (fst r))"

definition tcall :: "'w env \<Rightarrow> tcall \<Rightarrow> ('w, 'o, string option) act" where
  "tcall E c = perform (sys_t E c) (\<lambda>_. Ev_t c)"

definition fcall :: "'w env \<Rightarrow> fcall \<Rightarrow> ('w, 'o, int) act" where
  "fcall E c = perform (sys_f E c) (Ev_f c)"

definition qcall :: "'w env \<Rightarrow> qcall \<Rightarrow> ('w, 'o, int \<times> fstat) act" where
  "qcall E c = perform (sys_q E c) (\<lambda>r. Ev_q c (fst r))"

definition lcall :: "'w env \<Rightarrow> lcall \<Rightarrow> ('w, 'o, int \<times> string list) act" where
  "lcall E c = perform (sys_l E c) (\<lambda>r. Ev_l c (fst r))"

definition zip_fread :: "'w env \<Rightarrow> zip_file_t \<Rightarrow> int \<Rightarrow> ('w, 'o, int \<times> string) act" where
  "zip_fread E zf n = perform (sys_fread E zf n) (\<lambda>r. Ev_fread zf n (fst r))"

definition zip_file_get_external_attributes ::
  "'w env \<Rightarrow> zip_t \<Rightarrow> int \<Rightarrow> int \<Rightarrow> ('w, 'o, int \<times> int \<times> int) act" where
  "zip_file_get_external_attributes E za i fl =
     perform (sys_attr E za i fl) (\<lambda>r. Ev_attr za i fl (fst r))"

definition call_user_function ::
  "'w env \<Rightarrow> nat \<Rightarrow> real option \<Rightarrow> ('w, 'o, zval option) act" where
  "call_user_function E cb a = perform (sys_user E cb a) (\<lambda>_. Ev_user cb)"

definition emit :: "event \<Rightarrow> ('w, 'o, unit) act" where
  "emit e = State (\<lambda>s. ((), s\<lparr>trace := trace s @ [e]\<rparr>))"

definition php_error_docref :: "level \<Rightarrow> string \<Rightarrow> darg list \<Rightarrow> ('w, 'o, unit) act" where
  "php_error_docref l m args = emit (Ev_diag l m args)"

definition zend_throw :: "zexn \<Rightarrow> ('w, 'o, unit) act" where
  "zend_throw e = State (\<lambda>s. ((), s\<lparr>exn := Some e\<rparr>))"

definition throws :: "zexn \<Rightarrow> ('w, 'o, zval) act" where
  "throws e = do { zend_throw e; ret IS_NULL }"

definition get_self :: "('w, 'o, 'o) act" where
  "get_self = State (\<lambda>s. (self s, s))"

definition set_self :: "'o \<Rightarrow> ('w, 'o, unit) act" where
  "set_self x = State (\<lambda>s. ((), s\<lparr>self := x\<rparr>))"

definition modify_self :: "('o \<Rightarrow> 'o) \<Rightarrow> ('w, 'o, unit) act" where
  "modify_self f = State (\<lambda>s. ((), s\<lparr>self := f (self s)\<rparr>))"

text \<open>Argument parsing is Zend's: either it fails, having thrown, or gives the arguments.\<close>

definition zpp :: "'a option \<Rightarrow> ('a \<Rightarrow> ('w, 'o, zval) act) \<Rightarrow> ('w, 'o, zval) act" where
  "zpp args k = (case args of None \<Rightarrow> throws Zpp_failure | Some a \<Rightarrow> k a)"

text \<open>\<open>ZIP_OPENBASEDIR_CHECKPATH\<close>: non-zero when the path is not allowed.\<close>

definition ZIP_OPENBASEDIR_CHECKPATH :: "'w env \<Rightarrow> string \<Rightarrow> ('w, 'o, bool) act" where
  "ZIP_OPENBASEDIR_CHECKPATH E p = do { r \<leftarrow> fcall E (Php_check_open_basedir p); ret (r \<noteq> 0) }"

section \<open>Weakest preconditions of the calls\<close>

text \<open>
  The rules quantify over every answer: what they prove holds whatever the environment does.
  The exact values are in the \<open>run\<close> equations, used to evaluate an operation in a given
  environment.
\<close>

lemma wp_perform [wp_simps]:
  "wp (perform f ev) Q s = (case f (world s) of (r, w) \<Rightarrow>
     Q r (s\<lparr>world := w, trace := trace s @ [ev r]\<rparr>))"
  by (simp add: perform_def wp_def split: prod.split)

lemmas call_defs = icall_def pcall_def ptrcall_def scall_def tcall_def fcall_def qcall_def
  lcall_def zip_fread_def zip_file_get_external_attributes_def call_user_function_def

lemma wp_emit [wp_simps]: "wp (emit e) Q s = Q () (s\<lparr>trace := trace s @ [e]\<rparr>)"
  by (simp add: emit_def wp_def)

lemma wp_php_error_docref [wp_simps]:
  "wp (php_error_docref l m a) Q s = Q () (s\<lparr>trace := trace s @ [Ev_diag l m a]\<rparr>)"
  by (simp add: php_error_docref_def wp_simps)

lemma wp_zend_throw [wp_simps]: "wp (zend_throw e) Q s = Q () (s\<lparr>exn := Some e\<rparr>)"
  by (simp add: zend_throw_def wp_def)

lemma wp_throws [wp_simps]: "wp (throws e) Q s = Q IS_NULL (s\<lparr>exn := Some e\<rparr>)"
  by (simp add: throws_def wp_simps)

lemma wp_get_self [wp_simps]: "wp get_self Q s = Q (self s) s"
  by (simp add: get_self_def wp_def)

lemma wp_set_self [wp_simps]: "wp (set_self x) Q s = Q () (s\<lparr>self := x\<rparr>)"
  by (simp add: set_self_def wp_def)

lemma wp_modify_self [wp_simps]: "wp (modify_self f) Q s = Q () (s\<lparr>self := f (self s)\<rparr>)"
  by (simp add: modify_self_def wp_def)

lemma wp_zpp [wp_simps]:
  "wp (zpp args k) Q s =
     ((args = None \<longrightarrow> Q IS_NULL (s\<lparr>exn := Some Zpp_failure\<rparr>)) \<and>
      (\<forall>a. args = Some a \<longrightarrow> wp (k a) Q s))"
  by (cases args) (auto simp: zpp_def wp_simps)

lemma wp_ZIP_OPENBASEDIR_CHECKPATH [wp_simps]:
  "wp (ZIP_OPENBASEDIR_CHECKPATH E p) Q s =
     wp (fcall E (Php_check_open_basedir p)) (\<lambda>r. Q (r \<noteq> 0)) s"
  by (simp add: ZIP_OPENBASEDIR_CHECKPATH_def wp_simps)

lemma wp_all_answers:
  "(\<And>r w. Q r (s\<lparr>world := w, trace := trace s @ [ev r]\<rparr>)) \<Longrightarrow> wp (perform f ev) Q s"
  by (simp add: wp_simps split: prod.split)

lemma packed_array_index:
  "zend_hash_index_find (packed_array xs) (int i) = (if i < length xs then Some (xs ! i) else None)"
proof (induction xs rule: rev_induct)
  case (snoc x xs)
  have "packed_array (xs @ [x]) = packed_array xs @ [(HIdx (int (length xs)), x)]"
    by (simp add: packed_array_def)
  then show ?case
    using snoc by (auto simp: zend_hash_index_find_def map_add_def nth_append split: if_splits option.splits)
qed (simp add: packed_array_def zend_hash_index_find_def)

section \<open>A concrete environment\<close>

text \<open>
  An environment in which every call succeeds, for the examples that show that the hypotheses
  of the properties can hold: slashes separate, a path has less than 260 characters, every open
  answers handle 7, every other pointer is 5. The examples change the answers they need.
\<close>

definition demo_stat :: zip_stat where
  "demo_stat = \<lparr>sb_name = ''a'', sb_index = 0, sb_crc = 0, sb_size = 3, sb_mtime = 9,
     sb_comp_size = 3, sb_comp_method = 0, sb_encryption_method = 0\<rparr>"

definition demo_env :: "unit env" where
  "demo_env = \<lparr>is_slash = (\<lambda>c. c = CHR ''/''), default_slash = CHR ''/'', maxpathlen = 260,
     zts = False, win32 = False,
     is_absolute_path = (\<lambda>p. p \<noteq> [] \<and> hd p = CHR ''/''),
     php_dirname = (\<lambda>p. rev (drop 1 (dropWhile (\<lambda>c. c \<noteq> CHR ''/'') (rev p)))),
     php_basename = (\<lambda>p. rev (takeWhile (\<lambda>c. c \<noteq> CHR ''/'') (rev p))),
     zend_zval_type_name = (\<lambda>_. ''x''), zval_get_long = (\<lambda>v. case v of IS_LONG n \<Rightarrow> n | _ \<Rightarrow> 0),
     zend_is_true = (\<lambda>v. v = IS_TRUE), zc = (\<lambda>_. 0), libzip_version = ''1'',
     sys_i = (\<lambda>c w. (0, w)),
     sys_p = (\<lambda>c w. (case c of Zip_open _ _ \<Rightarrow> (Some 7, 0) | _ \<Rightarrow> (Some 5, 0), w)),
     sys_s = (\<lambda>c w. ((0, demo_stat), w)),
     sys_t = (\<lambda>c w. (case c of Expand_filepath p \<Rightarrow> Some p | Virtual_file_ex p \<Rightarrow> Some p
                      | _ \<Rightarrow> Some ''m'', w)),
     sys_fread = (\<lambda>zf n w. ((0, []), w)),
     sys_attr = (\<lambda>h i f w. ((0, 0, 0), w)),
     sys_f = (\<lambda>c w. (0, w)),
     sys_q = (\<lambda>c w. ((0, \<lparr>st_size = 1, st_isdir = False\<rparr>), w)),
     sys_l = (\<lambda>c w. ((0, []), w)),
     sys_user = (\<lambda>cb a w. (None, w))\<rparr>"

definition start_state :: "'o \<Rightarrow> (unit, 'o) st" where
  "start_state x = \<lparr>world = (), trace = [], exn = None, self = x\<rparr>"

named_theorems run_simps \<open>evaluation of an operation in a given environment and state\<close>

lemma run_perform [run_simps]:
  "run_state (perform f ev) s = (case f (world s) of (r, w) \<Rightarrow>
     (r, s\<lparr>world := w, trace := trace s @ [ev r]\<rparr>))"
  by (simp add: perform_def)

lemma run_emit [run_simps]: "run_state (emit e) s = ((), s\<lparr>trace := trace s @ [e]\<rparr>)"
  by (simp add: emit_def)

lemma run_throw [run_simps]: "run_state (zend_throw e) s = ((), s\<lparr>exn := Some e\<rparr>)"
  by (simp add: zend_throw_def)

lemma run_get_self [run_simps]: "run_state get_self s = (self s, s)"
  by (simp add: get_self_def)

lemma run_set_self [run_simps]: "run_state (set_self x) s = ((), s\<lparr>self := x\<rparr>)"
  by (simp add: set_self_def)

lemma run_modify_self [run_simps]: "run_state (modify_self f) s = ((), s\<lparr>self := f (self s)\<rparr>)"
  by (simp add: modify_self_def)

lemmas run_defs = run_simps call_defs throws_def zpp_def ZIP_OPENBASEDIR_CHECKPATH_def
  php_error_docref_def demo_env_def start_state_def

end
