(* ===== verification/Zip_Path.thy ===== *)
theory Zip_Path
  imports Zip_Env
begin

text \<open>
  \<open>php_zip_make_relative_path\<close> (ext/php_zip.c): cutting the prefix of an entry's path that
  would lead out of the extraction directory. The pointer the code returns points into its
  argument; the model returns the string that starts there.
\<close>

section \<open>The scan\<close>

text \<open>The inner loop: the greatest position at most \<open>i\<close> that holds a separator, or 0.\<close>

fun scan_slash :: "(char \<Rightarrow> bool) \<Rightarrow> string \<Rightarrow> nat \<Rightarrow> nat" where
  "scan_slash sl p 0 = 0"
| "scan_slash sl p (Suc i) = (if \<not> sl (char_at p (Suc i)) then scan_slash sl p i else Suc i)"

lemma scan_slash_le: "scan_slash sl p i \<le> i"
  by (induction i) auto

text \<open>The outer loop, from \<open>i\<close>: the offset of the returned pointer.\<close>

function relative_offset :: "(char \<Rightarrow> bool) \<Rightarrow> string \<Rightarrow> nat \<Rightarrow> nat" where
  "relative_offset sl p i =
     (let j = scan_slash sl p i in
      if j = 0 then 0
      else if j \<ge> 2 \<and> (char_at p (j - 1) = CHR ''.'' \<or> char_at p (j - 1) = CHR '':'') then j + 1
      else relative_offset sl p (j - 1))"
  by pat_completeness auto
termination
proof (relation "measure (\<lambda>(sl, p, i). i)")
  show "wf (measure (\<lambda>(sl, p, i). i))" by simp
  fix sl p i x
  assume "x = scan_slash sl p i" "x \<noteq> 0"
  then show "((sl, p, x - 1), sl, p, i) \<in> measure (\<lambda>(sl, p, i). i)"
    using scan_slash_le [of sl p i] by auto
qed

declare relative_offset.simps [simp del]

definition php_zip_make_relative_path :: "(char \<Rightarrow> bool) \<Rightarrow> string \<Rightarrow> string option" where
  "php_zip_make_relative_path sl path =
     (if length path < 1 then None
      else if sl (char_at path 0) then Some (drop 1 path)
      else Some (drop (relative_offset sl path (length path)) path))"

section \<open>The positions it cuts after\<close>

definition cut_point :: "(char \<Rightarrow> bool) \<Rightarrow> string \<Rightarrow> nat \<Rightarrow> bool" where
  "cut_point sl p i \<longleftrightarrow>
     2 \<le> i \<and> sl (char_at p i) \<and> (char_at p (i - 1) = CHR ''.'' \<or> char_at p (i - 1) = CHR '':'')"

text \<open>The reference: the last cut point, searched over all positions.\<close>

definition cut_points :: "(char \<Rightarrow> bool) \<Rightarrow> string \<Rightarrow> nat list" where
  "cut_points sl p = filter (cut_point sl p) [0..<length p]"

definition relative_path_spec :: "(char \<Rightarrow> bool) \<Rightarrow> string \<Rightarrow> string" where
  "relative_path_spec sl p =
     (if cut_points sl p = [] then p else drop (last (cut_points sl p) + 1) p)"

lemma scan_slash_hit: "scan_slash sl p i \<noteq> 0 \<Longrightarrow> sl (char_at p (scan_slash sl p i))"
  by (induction i) auto

lemma scan_slash_skips: "scan_slash sl p i < k \<Longrightarrow> k \<le> i \<Longrightarrow> \<not> sl (char_at p k)"
  by (induction i) (auto split: if_splits simp: le_Suc_eq)

lemma relative_offset_cut:
  "relative_offset sl p i =
     (let cs = filter (cut_point sl p) [0..<Suc i] in if cs = [] then 0 else last cs + 1)"
proof (induction sl p i rule: relative_offset.induct)
  case (1 sl p i)
  define j where "j = scan_slash sl p i"
  have skip: "filter (cut_point sl p) [0..<Suc i] = filter (cut_point sl p) [0..<Suc j]"
    using scan_slash_le [of sl p i] scan_slash_skips [of sl p i]
    by (intro filter_upt_skip) (auto simp: j_def cut_point_def)
  show ?case
  proof (cases "j = 0")
    case True
    have "filter (cut_point sl p) [0..<Suc 0] = []" by (simp add: cut_point_def)
    with True skip show ?thesis
      by (simp add: relative_offset.simps [of sl p i] j_def [symmetric] del: upt_Suc)
  next
    case False
    then have slj: "sl (char_at p j)" using scan_slash_hit [of sl p i] by (simp add: j_def)
    show ?thesis
    proof (cases "cut_point sl p j")
      case True
      then have "relative_offset sl p i = j + 1"
        by (auto simp: relative_offset.simps [of sl p i] j_def [symmetric] cut_point_def)
      moreover have "filter (cut_point sl p) [0..<Suc j] = filter (cut_point sl p) [0..<j] @ [j]"
        using True by simp
      ultimately show ?thesis using skip by simp
    next
      case nocut: False
      with slj False have rec: "relative_offset sl p i = relative_offset sl p (j - 1)"
        by (auto simp: relative_offset.simps [of sl p i] j_def [symmetric] cut_point_def)
      have "filter (cut_point sl p) [0..<Suc j] = filter (cut_point sl p) [0..<Suc (j - 1)]"
        using nocut False by simp
      moreover from nocut slj False have
        "relative_offset sl p (j - 1) =
          (let cs = filter (cut_point sl p) [0..<Suc (j - 1)] in if cs = [] then 0 else last cs + 1)"
        using "1.IH" [OF j_def] by (simp add: cut_point_def [of sl p j])
      ultimately show ?thesis using rec skip by (simp del: upt_Suc)
    qed
  qed
qed

lemma cut_point_bound:
  "\<not> sl (CHR 0x00) \<Longrightarrow> cut_point sl p i \<Longrightarrow> i < length p"
  by (auto simp: cut_point_def char_at_def split: if_splits)

lemma relative_offset_full:
  assumes "\<not> sl (CHR 0x00)"
  shows "relative_offset sl p (length p) =
    (if cut_points sl p = [] then 0 else last (cut_points sl p) + 1)"
proof -
  have "filter (cut_point sl p) [0..<Suc (length p)] = cut_points sl p"
    using cut_point_bound [where sl = sl and p = p and i = "length p"] assms
    by (auto simp: cut_points_def)
  then show ?thesis by (simp add: relative_offset_cut Let_def)
qed

lemma make_relative_path_value:
  assumes "\<not> sl (CHR 0x00)" and "p \<noteq> []"
  shows "php_zip_make_relative_path sl p =
    Some (if sl (hd p) then tl p else relative_path_spec sl p)"
proof -
  have "char_at p 0 = hd p" using assms(2) by (simp add: char_at_def hd_conv_nth)
  with assms show ?thesis
    by (auto simp: php_zip_make_relative_path_def relative_path_spec_def relative_offset_full
        drop_Suc Suc_le_eq)
qed

text \<open>C3. The scan from the end computes the reference: of a path that does not start with a
  separator, what follows the last separator that is preceded by a dot or a colon (at position
  two or later), and the whole path when there is none; of a path that starts with a separator,
  what follows it.\<close>

theorem make_relative_path_spec:
  assumes "\<not> sl (CHR 0x00)" and "p \<noteq> []"
  shows "php_zip_make_relative_path sl p =
    Some (if sl (hd p) then tl p else relative_path_spec sl p)"
  using assms by (rule make_relative_path_value)

theorem make_relative_path_spec_witness:
  "php_zip_make_relative_path (\<lambda>c. c = CHR ''/'') ''a/../../etc/passwd'' = Some ''etc/passwd''"
proof -
  have "relative_path_spec (\<lambda>c. c = CHR ''/'') ''a/../../etc/passwd'' = ''etc/passwd''"
    by code_simp
  then show ?thesis
    using make_relative_path_spec [of "\<lambda>c. c = CHR ''/''" "''a/../../etc/passwd''"] by simp
qed

section \<open>What is left cannot climb\<close>

lemma butlast_component_split:
  "x \<in> set (butlast (components sl s)) \<Longrightarrow> \<exists>a c b. s = a @ x @ c # b \<and> sl c"
proof (induction s arbitrary: x)
  case (Cons d s)
  show ?case
  proof (cases "sl d")
    case True
    with Cons.prems consider "x = []" | "x \<in> set (butlast (components sl s))"
      by (auto split: if_splits)
    then show ?thesis
    proof cases
      case 1
      with True show ?thesis by (intro exI [of _ "[]"] exI [of _ d] exI [of _ s]) simp
    next
      case 2
      with Cons.IH obtain a c b where "s = a @ x @ c # b" "sl c" by blast
      then show ?thesis by (intro exI [of _ "d # a"]) auto
    qed
  next
    case False
    obtain y ys where ys: "components sl s = y # ys"
      by (cases "components sl s") auto
    with False Cons.prems have "ys \<noteq> []" by (auto split: if_splits)
    with False ys Cons.prems consider "x = d # y" | "x \<in> set (butlast ys)"
      by (auto split: if_splits)
    then show ?thesis
    proof cases
      case 1
      from ys \<open>ys \<noteq> []\<close> have "s = y @ drop (length y) s \<and> drop (length y) s \<noteq> [] \<and>
          sl (hd (drop (length y) s))"
        by (induction s arbitrary: y ys) (auto split: if_splits list.splits)
      with 1 show ?thesis
        by (intro exI [of _ "[]"] exI [of _ "hd (drop (length y) s)"]
            exI [of _ "tl (drop (length y) s)"]) auto
    next
      case 2
      with ys have "x \<in> set (butlast (components sl s))" using \<open>ys \<noteq> []\<close> by simp
      with Cons.IH obtain a c b where "s = a @ x @ c # b" "sl c" by blast
      then show ?thesis by (intro exI [of _ "d # a"]) auto
    qed
  qed
qed simp

lemma cut_points_max:
  "\<not> sl (CHR 0x00) \<Longrightarrow> cut_point sl p i \<Longrightarrow> cut_points sl p \<noteq> [] \<and> i \<le> last (cut_points sl p)"
proof -
  assume nul: "\<not> sl (CHR 0x00)" and cut: "cut_point sl p i"
  then have i: "i \<in> set (cut_points sl p)"
    using cut_point_bound [where sl = sl, OF nul cut] by (simp add: cut_points_def)
  have "sorted (cut_points sl p)" by (simp add: cut_points_def sorted_wrt_filter)
  with i show ?thesis by (auto simp: sorted_le_last)
qed

lemma relative_path_spec_no_cut:
  assumes "\<not> sl (CHR 0x00)" and "relative_path_spec sl p = a @ x @ c # b" and "sl c"
    and "length x \<ge> 2"
  shows "last x \<noteq> CHR ''.'' \<and> last x \<noteq> CHR '':''"
proof -
  obtain m where m: "relative_path_spec sl p = drop m p"
    and above: "\<And>i. cut_point sl p i \<Longrightarrow> i < m"
  proof (cases "cut_points sl p = []")
    case True
    then show ?thesis
      using cut_points_max [where sl = sl and p = p, OF assms(1)] that [of 0]
      by (auto simp: relative_path_spec_def)
  next
    case False
    then show ?thesis
      using cut_points_max [where sl = sl and p = p, OF assms(1)]
        that [of "last (cut_points sl p) + 1"]
      by (auto simp: relative_path_spec_def less_Suc_eq_le)
  qed
  define k where "k = m + length a + length x"
  have le: "m \<le> length p" using m assms(2) by (cases "m \<le> length p") auto
  define q where "q = take m p"
  have "p = q @ a @ x @ c # b" and lq: "length q = m"
    using m assms(2) le append_take_drop_id [of m p] by (auto simp: q_def)
  moreover have "last x = x ! (length x - 1)" using assms(4) by (intro last_conv_nth) auto
  ultimately have "char_at p k = c" "char_at p (k - 1) = last x" "2 \<le> k" "m \<le> k"
    using assms(4) by (auto simp: k_def char_at_def nth_append)
  with above [of k] assms(3) show ?thesis by (auto simp: cut_point_def)
qed

lemma relative_path_spec_components:
  assumes "\<not> sl (CHR 0x00)" and "x \<in> set (butlast (components sl (relative_path_spec sl p)))"
    and "length x \<ge> 2"
  shows "last x \<noteq> CHR ''.'' \<and> last x \<noteq> CHR '':''"
proof -
  from butlast_component_split [OF assms(2)] obtain a c b
    where "relative_path_spec sl p = a @ x @ c # b" "sl c" by blast
  with relative_path_spec_no_cut [where sl = sl and p = p and a = a and x = x and c = c and b = b]
    assms show ?thesis by blast
qed

text \<open>The cut alone removes every way up: when the cleaned path does not start with a
  separator, no directory component of what is left (a component followed by a separator) of
  two or more characters ends in a dot or a colon, so none is \<open>..\<close> and none is a drive.\<close>

theorem make_relative_path_no_climb:
  assumes "\<not> sl (CHR 0x00)" and "p \<noteq> []" and "\<not> sl (hd p)"
    and "php_zip_make_relative_path sl p = Some r"
    and "x \<in> set (butlast (components sl r))" and "length x \<ge> 2"
  shows "last x \<noteq> CHR ''.'' \<and> last x \<noteq> CHR '':'' \<and> x \<noteq> ''..''"
  using relative_path_spec_components [of sl x p] make_relative_path_value [of sl p] assms by auto

theorem make_relative_path_no_climb_witness:
  "\<exists>r. php_zip_make_relative_path (\<lambda>c. c = CHR ''/'') ''../c:/x.d/y'' = Some r \<and>
     ''x.d'' \<in> set (butlast (components (\<lambda>c. c = CHR ''/'') r)) \<and> last ''x.d'' \<noteq> CHR '':''"
proof -
  have r: "php_zip_make_relative_path (\<lambda>c. c = CHR ''/'') ''../c:/x.d/y'' = Some ''x.d/y''"
    by code_simp
  moreover have x: "''x.d'' \<in> set (butlast (components (\<lambda>c. c = CHR ''/'') ''x.d/y''))" by simp
  ultimately show ?thesis
    using make_relative_path_no_climb [of "\<lambda>c. c = CHR ''/''" "''../c:/x.d/y''" "''x.d/y''" "''x.d''"]
    by simp
qed

text \<open>The same with a path that starts with a separator, for the paths \<open>virtual_file_ex\<close>
  made absolute.\<close>

lemma cleaned_no_climb:
  assumes "\<not> sl (CHR 0x00)" and "php_zip_make_relative_path sl p = Some r"
    and "p \<noteq> [] \<Longrightarrow> sl (hd p) \<Longrightarrow> ''..'' \<notin> set (components sl p)"
  shows "''..'' \<notin> set (butlast (components sl r))"
proof -
  from assms(2) have "p \<noteq> []" by (auto simp: php_zip_make_relative_path_def)
  with assms(1,2) have r: "r = (if sl (hd p) then tl p else relative_path_spec sl p)"
    by (simp add: make_relative_path_value)
  show ?thesis
  proof (cases "sl (hd p)")
    case True
    with \<open>p \<noteq> []\<close> r assms(3) show ?thesis by (cases p) (auto dest: in_set_butlastD)
  next
    case False
    with r relative_path_spec_components [of sl "''..''" p] assms(1) show ?thesis by auto
  qed
qed

end
