(* ===== verification/Zip_Trace.thy ===== *)
theory Zip_Trace
  imports Zip_Env
begin

text \<open>
  The use of libzip archive handles, read off the trace: a handle is live from the
  \<open>zip_open\<close> that answered it to the \<open>zip_close\<close> that succeeded on it or the
  \<open>zip_discard\<close> of it. A trace is disciplined when every call is given live handles only:
  no use after close, no second close. libzip is assumed never to answer a handle that is still
  live (\<open>fresh_opens\<close>).
\<close>

section \<open>Archive handles of a call\<close>

fun icall_archive :: "icall \<Rightarrow> zip_t option" where
  "icall_archive (Zip_close h) = Some h"
| "icall_archive (Zip_discard h) = Some h"
| "icall_archive (Zip_set_default_password h _) = Some h"
| "icall_archive (Zip_get_num_entries h _) = Some h"
| "icall_archive (Zip_error_clear x) = x"
| "icall_archive (Zip_error_code_zip h) = Some h"
| "icall_archive (Zip_error_code_system h) = Some h"
| "icall_archive (Zip_dir_add h _ _) = Some h"
| "icall_archive (Zip_file_add x _ _ _) = x"
| "icall_archive (Zip_file_replace x _ _ _) = x"
| "icall_archive (Zip_source_free _) = None"
| "icall_archive (Zip_name_locate h _ _) = Some h"
| "icall_archive (Zip_set_archive_comment h _ _) = Some h"
| "icall_archive (Zip_file_set_comment h _ _ _ _) = Some h"
| "icall_archive (Zip_file_set_external_attributes h _ _ _ _) = Some h"
| "icall_archive (Zip_set_file_compression x _ _ _) = x"
| "icall_archive (Zip_file_set_encryption x _ _ _) = x"
| "icall_archive (Zip_file_set_mtime h _ _ _) = Some h"
| "icall_archive (Zip_delete h _) = Some h"
| "icall_archive (Zip_file_rename h _ _ _) = Some h"
| "icall_archive (Zip_unchange h _) = Some h"
| "icall_archive (Zip_unchange_all h) = Some h"
| "icall_archive (Zip_unchange_archive h) = Some h"
| "icall_archive (Zip_fclose _) = None"
| "icall_archive (Zip_register_progress_callback_with_state h _) = Some h"
| "icall_archive (Zip_register_cancel_callback_with_state h) = Some h"
| "icall_archive (Zip_compression_method_supported _ _) = None"
| "icall_archive (Zip_encryption_method_supported _ _) = None"

fun pcall_archive :: "pcall \<Rightarrow> zip_t option" where
  "pcall_archive (Zip_fopen h _ _) = Some h"
| "pcall_archive (Zip_fopen_index h _ _) = Some h"
| "pcall_archive (Zip_source_file x _ _ _) = x"
| "pcall_archive (Zip_source_buffer h _ _ _) = Some h"
| "pcall_archive _ = None"

fun scall_archive :: "scall \<Rightarrow> zip_t option" where
  "scall_archive (Zip_stat h _ _) = Some h"
| "scall_archive (Zip_stat_index h _ _) = Some h"

fun tcall_archive :: "tcall \<Rightarrow> zip_t option" where
  "tcall_archive (Zip_get_name h _ _) = Some h"
| "tcall_archive (Zip_get_archive_comment h _) = Some h"
| "tcall_archive (Zip_file_get_comment h _ _) = Some h"
| "tcall_archive (Zip_strerror h) = Some h"
| "tcall_archive (Zip_error_strerror h) = Some h"
| "tcall_archive _ = None"

fun used_archive :: "event \<Rightarrow> zip_t option" where
  "used_archive (Ev_i c _) = icall_archive c"
| "used_archive (Ev_p c _) = pcall_archive c"
| "used_archive (Ev_s c _) = scall_archive c"
| "used_archive (Ev_t c) = tcall_archive c"
| "used_archive (Ev_attr h _ _ _) = Some h"
| "used_archive _ = None"

section \<open>Live handles\<close>

fun opened :: "event \<Rightarrow> zip_t option" where
  "opened (Ev_p (Zip_open _ _) r) = r"
| "opened _ = None"

fun closed :: "event \<Rightarrow> zip_t option" where
  "closed (Ev_i (Zip_close h) r) = (if r = 0 then Some h else None)"
| "closed (Ev_i (Zip_discard h) r) = Some h"
| "closed _ = None"

definition live_step :: "zip_t set \<Rightarrow> event \<Rightarrow> zip_t set" where
  "live_step L e = (L - set_option (closed e)) \<union> set_option (opened e)"

definition live :: "zip_t set \<Rightarrow> event list \<Rightarrow> zip_t set" where
  "live L tr = foldl live_step L tr"

fun disciplined :: "zip_t set \<Rightarrow> event list \<Rightarrow> bool" where
  "disciplined L [] = True"
| "disciplined L (e # tr) = (set_option (used_archive e) \<subseteq> L \<and> disciplined (live_step L e) tr)"

fun fresh_opens :: "zip_t set \<Rightarrow> event list \<Rightarrow> bool" where
  "fresh_opens L [] = True"
| "fresh_opens L (e # tr) = (set_option (opened e) \<inter> L = {} \<and> fresh_opens (live_step L e) tr)"

lemma live_simps [simp]: "live L [] = L" "live L (e # tr) = live (live_step L e) tr"
  by (simp_all add: live_def)

lemma live_append [simp]: "live L (a @ b) = live (live L a) b"
  by (simp add: live_def)

lemma disciplined_append [simp]:
  "disciplined L (a @ b) = (disciplined L a \<and> disciplined (live L a) b)"
  by (induction a arbitrary: L) auto

lemma fresh_opens_append [simp]:
  "fresh_opens L (a @ b) = (fresh_opens L a \<and> fresh_opens (live L a) b)"
  by (induction a arbitrary: L) auto

text \<open>The handles a state may use: those live after its trace, with the trace disciplined.\<close>

definition well_used :: "('w, 'o) st \<Rightarrow> bool" where
  "well_used s \<longleftrightarrow> (fresh_opens {} (trace s) \<longrightarrow> disciplined {} (trace s))"

definition holds_handle :: "zip_t \<Rightarrow> ('w, 'o) st \<Rightarrow> bool" where
  "holds_handle h s \<longleftrightarrow> (fresh_opens {} (trace s) \<longrightarrow> h \<in> live {} (trace s))"

section \<open>What an operation appends\<close>

text \<open>\<open>logs P t0 s\<close>: the trace of \<open>s\<close> is \<open>t0\<close> and events that satisfy \<open>P\<close>.\<close>

definition logs :: "(event \<Rightarrow> bool) \<Rightarrow> event list \<Rightarrow> ('w, 'o) st \<Rightarrow> bool" where
  "logs P t0 s \<longleftrightarrow> (\<exists>tr. trace s = t0 @ tr \<and> (\<forall>e \<in> set tr. P e))"

named_theorems logs_rules \<open>operations all of whose events satisfy a predicate\<close>

lemma logs_refl [simp]: "logs P (trace s) s"
  by (simp add: logs_def)

lemma logs_snoc: "logs P t0 s \<Longrightarrow> P e \<Longrightarrow> logs P t0 (s\<lparr>world := w, trace := trace s @ [e]\<rparr>)"
  unfolding logs_def
proof (elim exE conjE)
  fix tr assume "P e" "trace s = t0 @ tr" "\<forall>e\<in>set tr. P e"
  then show "\<exists>tr'. trace (s\<lparr>world := w, trace := trace s @ [e]\<rparr>) = t0 @ tr' \<and> (\<forall>e\<in>set tr'. P e)"
    by (intro exI [of _ "tr @ [e]"]) auto
qed

lemma logs_perform [logs_rules]: "(\<And>r. P (ev r)) \<Longrightarrow> preserves (logs P t0) (perform f ev)"
  by (auto simp: preserves_def wp_simps logs_snoc split: prod.split)

lemma logs_snoc_trace: "logs P t0 s \<Longrightarrow> P e \<Longrightarrow> logs P t0 (s\<lparr>trace := trace s @ [e]\<rparr>)"
  using logs_snoc [of P t0 s e "world s"] by simp

lemma logs_emit [logs_rules]: "P e \<Longrightarrow> preserves (logs P t0) (emit e)"
  by (simp add: preserves_def wp_simps logs_snoc_trace)

lemma logs_zend_throw [logs_rules]: "preserves (logs P t0) (zend_throw x)"
  by (simp add: preserves_def wp_simps logs_def)

lemma logs_throws [logs_rules]: "preserves (logs P t0) (throws x)"
  by (simp add: preserves_def wp_simps logs_def)

lemma logs_get_self [logs_rules]: "preserves (logs P t0) get_self"
  by (simp add: preserves_def wp_simps)

lemma logs_modify_self [logs_rules]: "preserves (logs P t0) (modify_self f)"
  by (simp add: preserves_def wp_simps logs_def)

lemma logs_calls [logs_rules]:
  "(\<And>r. P (Ev_i c r)) \<Longrightarrow> preserves (logs P t0) (icall E c)"
  "(\<And>r. P (Ev_p pc r)) \<Longrightarrow> preserves (logs P t0) (pcall E pc)"
  "(\<And>r. P (Ev_p pc r)) \<Longrightarrow> preserves (logs P t0) (ptrcall E pc)"
  "(\<And>r. P (Ev_s sc r)) \<Longrightarrow> preserves (logs P t0) (scall E sc)"
  "P (Ev_t tc) \<Longrightarrow> preserves (logs P t0) (tcall E tc)"
  "(\<And>r. P (Ev_f fc r)) \<Longrightarrow> preserves (logs P t0) (fcall E fc)"
  "(\<And>r. P (Ev_q qc r)) \<Longrightarrow> preserves (logs P t0) (qcall E qc)"
  "(\<And>r. P (Ev_fread zf n r)) \<Longrightarrow> preserves (logs P t0) (zip_fread E zf n)"
  "P (Ev_diag l m a) \<Longrightarrow> preserves (logs P t0) (php_error_docref l m a)"
  "(\<And>r. P (Ev_f (Php_check_open_basedir p) r)) \<Longrightarrow>
     preserves (logs P t0) (ZIP_OPENBASEDIR_CHECKPATH E p)"
  by (auto simp: call_defs php_error_docref_def ZIP_OPENBASEDIR_CHECKPATH_def
      intro!: logs_rules preserves_intros)

section \<open>Open files and streams\<close>

text \<open>Entries opened for reading minus entries closed, and the same for the PHP streams that
  extraction writes to.\<close>

fun zfile_opened :: "event \<Rightarrow> zip_file_t option" where
  "zfile_opened (Ev_p (Zip_fopen _ _ _) r) = r"
| "zfile_opened (Ev_p (Zip_fopen_index _ _ _) r) = r"
| "zfile_opened _ = None"

fun zfile_closed :: "event \<Rightarrow> zip_file_t option" where
  "zfile_closed (Ev_i (Zip_fclose zf) _) = Some zf"
| "zfile_closed _ = None"

fun stream_opened :: "event \<Rightarrow> php_stream_t option" where
  "stream_opened (Ev_p (Php_stream_open_wrapper _ _) r) = r"
| "stream_opened _ = None"

fun stream_closed :: "event \<Rightarrow> php_stream_t option" where
  "stream_closed (Ev_f (Php_stream_close st) _) = Some st"
| "stream_closed _ = None"

definition file_weight :: "zip_file_t \<Rightarrow> event \<Rightarrow> int" where
  "file_weight zf e =
     (if zfile_opened e = Some zf then 1 else 0) - (if zfile_closed e = Some zf then 1 else 0)"

definition stream_weight :: "php_stream_t \<Rightarrow> event \<Rightarrow> int" where
  "stream_weight st e =
     (if stream_opened e = Some st then 1 else 0) - (if stream_closed e = Some st then 1 else 0)"

definition file_balance :: "event list \<Rightarrow> zip_file_t \<Rightarrow> int" where
  "file_balance tr zf = sum_list (map (file_weight zf) tr)"

definition stream_balance :: "event list \<Rightarrow> php_stream_t \<Rightarrow> int" where
  "stream_balance tr st = sum_list (map (stream_weight st) tr)"

text \<open>The balances of the trace of a state are the given ones.\<close>

definition balances :: "(zip_file_t \<Rightarrow> int) \<Rightarrow> (php_stream_t \<Rightarrow> int) \<Rightarrow> ('w, 'o) st \<Rightarrow> bool" where
  "balances f g s \<longleftrightarrow> file_balance (trace s) = f \<and> stream_balance (trace s) = g"

definition neutral :: "event \<Rightarrow> bool" where
  "neutral e \<longleftrightarrow> zfile_opened e = None \<and> zfile_closed e = None \<and>
     stream_opened e = None \<and> stream_closed e = None"

lemma balance_append [simp]:
  "file_balance (a @ b) zf = file_balance a zf + file_balance b zf"
  "stream_balance (a @ b) st = stream_balance a st + stream_balance b st"
  by (simp_all add: file_balance_def stream_balance_def)

lemma balance_Cons [simp]:
  "file_balance [] zf = 0" "file_balance (e # b) zf = file_weight zf e + file_balance b zf"
  "stream_balance [] st = 0" "stream_balance (e # b) st = stream_weight st e + stream_balance b st"
  by (simp_all add: file_balance_def stream_balance_def)

lemma neutral_weight: "neutral e \<Longrightarrow> file_weight zf e = 0" "neutral e \<Longrightarrow> stream_weight st e = 0"
  by (simp_all add: neutral_def file_weight_def stream_weight_def)

lemma neutral_balance:
  "\<forall>e \<in> set tr. neutral e \<Longrightarrow> file_balance tr zf = 0"
  "\<forall>e \<in> set tr. neutral e \<Longrightarrow> stream_balance tr st = 0"
  by (induction tr) (simp_all add: neutral_weight)

lemma logs_neutral_balances:
  assumes "logs neutral t0 s"
  shows "file_balance (trace s) = file_balance t0" "stream_balance (trace s) = stream_balance t0"
proof -
  from assms obtain tr where tr: "trace s = t0 @ tr" "\<forall>e\<in>set tr. neutral e" by (auto simp: logs_def)
  then show "file_balance (trace s) = file_balance t0" "stream_balance (trace s) = stream_balance t0"
    by (simp_all add: tr fun_eq_iff neutral_balance)
qed

lemma neutral_preserves_balances:
  fixes m :: "('w, 'o, 'a) act"
  assumes "\<And>t0. preserves (logs neutral t0) m"
  shows "preserves (balances f g) m"
proof (rule preservesI)
  fix s :: "('w, 'o) st" assume b: "balances f g s"
  have "wp m (\<lambda>_. logs neutral (trace s)) s"
    by (rule preservesD [OF assms]) simp
  then show "wp m (\<lambda>_. balances f g) s"
    by (rule wp_mono) (use b in \<open>auto simp: balances_def dest: logs_neutral_balances\<close>)
qed

section \<open>Selections of a trace\<close>

definition picks :: "(event \<Rightarrow> 'a option) \<Rightarrow> event list \<Rightarrow> 'a list" where
  "picks f tr = concat (map (\<lambda>e. case f e of None \<Rightarrow> [] | Some x \<Rightarrow> [x]) tr)"

lemma picks_simps [simp]:
  "picks f [] = []" "picks f (a @ b) = picks f a @ picks f b"
  "picks f (e # tr) = (case f e of None \<Rightarrow> [] | Some x \<Rightarrow> [x]) @ picks f tr"
  by (simp_all add: picks_def)

section \<open>Reads\<close>

text \<open>\<open>zip_fread\<close> gives at most the bytes asked for.\<close>

definition reads_at_most :: "'w env \<Rightarrow> bool" where
  "reads_at_most E \<longleftrightarrow> (\<forall>zf n w r b w'. sys_fread E zf n w = ((r, b), w') \<longrightarrow>
     -1 \<le> r \<and> r \<le> max 0 n \<and> (0 \<le> r \<longrightarrow> int (length b) = r))"


end
