(* ===== verification/Zip_Object.thy ===== *)
theory Zip_Object
  imports Zip_Trace
begin

unbundle bit_operations_syntax

text \<open>
  The ZipArchive object (ext/php_zip.h, ext/php_zip.c): its fields, its creation and
  destruction, opening and closing of the archive it holds, the error it remembers after a close,
  and the callbacks registered with libzip. The build modelled has libzip 1.x with all its
  optional interfaces (encryption, progress and cancel callbacks, mtime, external attributes).
\<close>

section \<open>The object\<close>

text \<open>The readers a property handler points to, and the handler.\<close>

datatype read_int_func =
  Php_zip_last_id | Php_zip_status | Php_zip_status_sys | Php_zip_get_num_files

datatype read_char_func = Php_zipobj_get_filename | Php_zipobj_get_zip_comment

datatype zend_type = T_STRING | T_LONG | T_OTHER

record zip_prop_handler =
  hnd_read_int_func :: "read_int_func option"
  hnd_read_const_char_func :: "read_char_func option"
  hnd_type :: zend_type

type_synonym prop_table = "(string \<times> zip_prop_handler) list"

text \<open>
  \<open>ze_zip_object\<close>. \<open>buffers\<close> is the malloc'ed array of pointers to copies (an entry
  that was never written is None); a callback zval that is UNDEF is None. \<open>buffers_cnt\<close> is
  an \<open>int\<close> whose overflow C leaves undefined; it is unbounded here.
\<close>

record ze_zip_object =
  za :: "zip_t option"
  buffers :: "string option list"
  prop_handler :: "prop_table option"
  filename :: "string option"
  filename_len :: int
  buffers_cnt :: int
  last_id :: int
  err_zip :: int
  err_sys :: int
  progress_callback :: "nat option"
  cancel_callback :: "nat option"

type_synonym ('w, 'a) meth = "('w, ze_zip_object, 'a) act"

text \<open>\<open>zend_object_alloc\<close> clears the structure.\<close>

definition php_zip_object_new :: "prop_table \<Rightarrow> ze_zip_object" where
  "php_zip_object_new handlers =
     \<lparr>za = None, buffers = [], prop_handler = Some handlers, filename = None, filename_len = 0,
      buffers_cnt = 0, last_id = -1, err_zip = 0, err_sys = 0,
      progress_callback = None, cancel_callback = None\<rparr>"

text \<open>\<open>ZIP_FROM_OBJECT\<close>: the guard of the methods that need an open archive.\<close>

definition invalid_zip_object :: zexn where
  "invalid_zip_object = Value_error ''Invalid or uninitialized Zip object'' []"

definition ZIP_FROM_OBJECT :: "(zip_t \<Rightarrow> ('w, zval) meth) \<Rightarrow> ('w, zval) meth" where
  "ZIP_FROM_OBJECT k = do {
     obj \<leftarrow> get_self;
     case za obj of None \<Rightarrow> throws invalid_zip_object | Some intern \<Rightarrow> k intern }"

lemma wp_ZIP_FROM_OBJECT [wp_simps]:
  "wp (ZIP_FROM_OBJECT k) Q s =
     ((za (self s) = None \<longrightarrow> Q IS_NULL (s\<lparr>exn := Some invalid_zip_object\<rparr>)) \<and>
      (\<forall>h. za (self s) = Some h \<longrightarrow> wp (k h) Q s))"
  by (simp add: ZIP_FROM_OBJECT_def wp_simps)

section \<open>Status readers\<close>

text \<open>\<open>zip_get_error\<close>, \<open>zip_error_code_*\<close> and \<open>zip_error_fini\<close> are one request.\<close>

definition php_zip_status :: "'w env \<Rightarrow> ('w, int) meth" where
  "php_zip_status E = do {
     obj \<leftarrow> get_self;
     case za obj of None \<Rightarrow> ret (err_zip obj) | Some h \<Rightarrow> icall E (Zip_error_code_zip h) }"

definition php_zip_last_id :: "'w env \<Rightarrow> ('w, int) meth" where
  "php_zip_last_id E = do { obj \<leftarrow> get_self; ret (last_id obj) }"

definition php_zip_status_sys :: "'w env \<Rightarrow> ('w, int) meth" where
  "php_zip_status_sys E = do {
     obj \<leftarrow> get_self;
     case za obj of None \<Rightarrow> ret (err_sys obj) | Some h \<Rightarrow> icall E (Zip_error_code_system h) }"

definition ZEND_LONG_MAX :: int where "ZEND_LONG_MAX = 2 ^ 63 - 1"

definition php_zip_get_num_files :: "'w env \<Rightarrow> ('w, int) meth" where
  "php_zip_get_num_files E = do {
     obj \<leftarrow> get_self;
     case za obj of None \<Rightarrow> ret 0
     | Some h \<Rightarrow> do {
         num \<leftarrow> icall E (Zip_get_num_entries h 0);
         ret (min num ZEND_LONG_MAX) } }"

definition php_zipobj_get_filename :: "'w env \<Rightarrow> ('w, string option) meth" where
  "php_zipobj_get_filename E = do { obj \<leftarrow> get_self; ret (map_option cstr (filename obj)) }"

definition php_zipobj_get_zip_comment :: "'w env \<Rightarrow> ('w, string option) meth" where
  "php_zipobj_get_zip_comment E = do {
     obj \<leftarrow> get_self;
     case za obj of None \<Rightarrow> ret None | Some h \<Rightarrow> tcall E (Zip_get_archive_comment h 0) }"

section \<open>Opening and closing\<close>

definition ZipArchive_open :: "'w env \<Rightarrow> (string \<times> int option) option \<Rightarrow> ('w, zval) meth" where
  "ZipArchive_open E args = zpp args (\<lambda>(fname, flags_opt).
     let flags = dflt 0 flags_opt in
     if length fname = 0 then throws (Argument_value_error 1 ''cannot be empty'')
     else do {
       denied \<leftarrow> ZIP_OPENBASEDIR_CHECKPATH E (cstr fname);
       if denied then ret IS_FALSE
       else do {
         resolved \<leftarrow> tcall E (Expand_filepath (cstr fname));
         case resolved of
           None \<Rightarrow> do { php_error_docref E_WARNING ''No such file or directory'' []; ret IS_FALSE }
         | Some resolved_path \<Rightarrow> do {
             obj \<leftarrow> get_self;
             err \<leftarrow> (case za obj of
                None \<Rightarrow> ret 0
              | Some h \<Rightarrow> icall E (Zip_close h));
             if err \<noteq> 0 then do {
               php_error_docref E_WARNING ''Empty string as source'' [];
               ret IS_FALSE }
             else do {
               modify_self (za_update (\<lambda>_. None));
               (case filename obj of
                  None \<Rightarrow> ret ()
                | Some f \<Rightarrow> do {
                    emit (Ev_efree B_filename);
                    modify_self (filename_update (\<lambda>_. None)) });
               flags' \<leftarrow>
                 (if flags AND (zc E ''ZIP_TRUNCATE'' OR zc E ''ZIP_RDONLY'') = 0 then do {
                    (r, st) \<leftarrow> qcall E (Vcwd_stat resolved_path);
                    if r = 0 \<and> st_size st = 0 then do {
                      php_error_docref E_DEPRECATED
                        ''Using empty file as ZipArchive is deprecated'' [];
                      ret (flags OR zc E ''ZIP_TRUNCATE'') }
                    else ret flags }
                  else ret flags);
               (intern, err) \<leftarrow> pcall E (Zip_open resolved_path (as_int flags'));
               case intern of
                 None \<Rightarrow> ret (IS_LONG err)
               | Some h \<Rightarrow>
                   if err \<noteq> 0 then ret (IS_LONG err)
                   else do {
                     modify_self (\<lambda>ob. ob\<lparr>filename := Some resolved_path,
                       filename_len := as_int (int (length resolved_path)), za := Some h\<rparr>);
                     ret IS_TRUE } } } } })"

definition ZipArchive_setPassword :: "'w env \<Rightarrow> string option \<Rightarrow> ('w, zval) meth" where
  "ZipArchive_setPassword E args = zpp args (\<lambda>password.
     ZIP_FROM_OBJECT (\<lambda>intern.
       if length password < 1 then ret IS_FALSE
       else do {
         res \<leftarrow> icall E (Zip_set_default_password intern (cstr password));
         ret (RETURN_BOOL (res = 0)) }))"

definition ZipArchive_close :: "'w env \<Rightarrow> unit option \<Rightarrow> ('w, zval) meth" where
  "ZipArchive_close E args = zpp args (\<lambda>_.
     ZIP_FROM_OBJECT (\<lambda>intern. do {
       err \<leftarrow> icall E (Zip_close intern);
       (if err \<noteq> 0 then do {
          msg \<leftarrow> tcall E (Zip_strerror intern);
          php_error_docref E_WARNING ''%s'' [DS (dflt [] msg)];
          ez \<leftarrow> icall E (Zip_error_code_zip intern);
          es \<leftarrow> icall E (Zip_error_code_system intern);
          modify_self (\<lambda>ob. ob\<lparr>err_zip := ez, err_sys := es\<rparr>);
          _ \<leftarrow> icall E (Zip_discard intern);
          ret () }
        else modify_self (\<lambda>ob. ob\<lparr>err_zip := 0, err_sys := 0\<rparr>));
       emit (Ev_efree B_filename);
       modify_self (\<lambda>ob. ob\<lparr>filename := None, filename_len := 0, za := None\<rparr>);
       ret (RETURN_BOOL (err = 0)) }))"

definition ZipArchive_count :: "'w env \<Rightarrow> unit option \<Rightarrow> ('w, zval) meth" where
  "ZipArchive_count E args = zpp args (\<lambda>_.
     ZIP_FROM_OBJECT (\<lambda>intern. do {
       num \<leftarrow> icall E (Zip_get_num_entries intern 0);
       ret (IS_LONG (min num ZEND_LONG_MAX)) }))"

definition ZipArchive_getStatusString :: "'w env \<Rightarrow> unit option \<Rightarrow> ('w, zval) meth" where
  "ZipArchive_getStatusString E args = zpp args (\<lambda>_. do {
     obj \<leftarrow> get_self;
     case za obj of
       Some h \<Rightarrow> do { m \<leftarrow> tcall E (Zip_error_strerror h); ret (IS_STRING (cstr (dflt [] m))) }
     | None \<Rightarrow> do {
         m \<leftarrow> tcall E (Zip_error_strerror_of (err_zip obj) (err_sys obj));
         ret (IS_STRING (cstr (dflt [] m))) } })"

section \<open>Callbacks\<close>

definition php_zip_progress_callback_free :: "('w, unit) meth" where
  "php_zip_progress_callback_free = do {
     obj \<leftarrow> get_self;
     case progress_callback obj of
       None \<Rightarrow> ret ()
     | Some cb \<Rightarrow> do {
         emit (Ev_zval_dtor cb);
         modify_self (progress_callback_update (\<lambda>_. None)) } }"

definition php_zip_cancel_callback_free :: "('w, unit) meth" where
  "php_zip_cancel_callback_free = do {
     obj \<leftarrow> get_self;
     case cancel_callback obj of
       None \<Rightarrow> ret ()
     | Some cb \<Rightarrow> do {
         emit (Ev_zval_dtor cb);
         modify_self (cancel_callback_update (\<lambda>_. None)) } }"

text \<open>What libzip calls while it closes an archive. The value a callback returned is given back
  as a PHP value; the cancel callback converts it to an \<open>int\<close>.\<close>

definition php_zip_progress_callback :: "'w env \<Rightarrow> real \<Rightarrow> ('w, unit) meth" where
  "php_zip_progress_callback E state = do {
     obj \<leftarrow> get_self;
     case progress_callback obj of
       None \<Rightarrow> ret ()
     | Some cb \<Rightarrow> do { _ \<leftarrow> call_user_function E cb (Some state); ret () } }"

definition php_zip_cancel_callback :: "'w env \<Rightarrow> ('w, int) meth" where
  "php_zip_cancel_callback E = do {
     obj \<leftarrow> get_self;
     case cancel_callback obj of
       None \<Rightarrow> ret 0
     | Some cb \<Rightarrow> do {
         r \<leftarrow> call_user_function E cb None;
         case r of None \<Rightarrow> ret 0 | Some v \<Rightarrow> ret (as_int (zval_get_long E v)) } }"

definition ZipArchive_registerProgressCallback ::
  "'w env \<Rightarrow> (real \<times> nat) option \<Rightarrow> ('w, zval) meth" where
  "ZipArchive_registerProgressCallback E args = zpp args (\<lambda>(rate, cb).
     ZIP_FROM_OBJECT (\<lambda>intern. do {
       php_zip_progress_callback_free;
       emit (Ev_zval_copy cb);
       modify_self (progress_callback_update (\<lambda>_. Some cb));
       r \<leftarrow> icall E (Zip_register_progress_callback_with_state intern rate);
       ret (RETURN_BOOL (r = 0)) }))"

definition ZipArchive_registerCancelCallback :: "'w env \<Rightarrow> nat option \<Rightarrow> ('w, zval) meth" where
  "ZipArchive_registerCancelCallback E args = zpp args (\<lambda>cb.
     ZIP_FROM_OBJECT (\<lambda>intern. do {
       php_zip_cancel_callback_free;
       emit (Ev_zval_copy cb);
       modify_self (cancel_callback_update (\<lambda>_. Some cb));
       r \<leftarrow> icall E (Zip_register_cancel_callback_with_state intern);
       ret (RETURN_BOOL (r = 0)) }))"

section \<open>Destruction\<close>

definition php_zip_object_free_storage :: "'w env \<Rightarrow> ('w, unit) meth" where
  "php_zip_object_free_storage E = do {
     intern \<leftarrow> get_self;
     (case za intern of
        None \<Rightarrow> ret ()
      | Some h \<Rightarrow> do {
          r \<leftarrow> icall E (Zip_close h);
          if r \<noteq> 0 then do {
            msg \<leftarrow> tcall E (Zip_strerror h);
            php_error_docref E_WARNING ''Cannot destroy the zip context: %s'' [DS (dflt [] msg)];
            _ \<leftarrow> icall E (Zip_discard h);
            ret () }
          else ret () });
     (if buffers_cnt intern > 0 then do {
        for_each [0..<nat (buffers_cnt intern)] (\<lambda>i. emit (Ev_efree (B_buffer i)));
        emit (Ev_efree B_buffers) }
      else ret ());
     php_zip_progress_callback_free;
     php_zip_cancel_callback_free;
     modify_self (za_update (\<lambda>_. None));
     (case filename intern of None \<Rightarrow> ret () | Some f \<Rightarrow> emit (Ev_efree B_filename)) }"

section \<open>Opening\<close>

text \<open>The outcomes of open, whatever libzip and the platform answer. TRUE: the object holds the
  archive just opened and its resolved name. Otherwise, either nothing of the object changed
  (the arguments, the path or the close of the archive held before were refused), or the
  archive held before is closed and gone with its name and the answer is libzip's error code. In
  every case the copies kept, the callbacks and the last entry's index stay as they are.\<close>

theorem open_outcomes:
  "wp (ZipArchive_open E (Some (fname, fl))) (\<lambda>r s'.
     (if r = IS_TRUE then
        \<exists>h path g. za (self s') = Some h \<and> filename (self s') = Some path \<and>
          filename_len (self s') = as_int (int (length path)) \<and>
          last (trace s') = Ev_p (Zip_open path g) (Some h)
      else self s' = self s \<and> (r = IS_FALSE \<or> r = IS_NULL \<and> exn s' \<noteq> None) \<or>
        za (self s') = None \<and> filename (self s') = None \<and> (\<exists>e. r = IS_LONG e) \<and>
        (case za (self s) of None \<Rightarrow> True | Some h \<Rightarrow> Ev_i (Zip_close h) 0 \<in> set (trace s'))) \<and>
     buffers (self s') = buffers (self s) \<and> buffers_cnt (self s') = buffers_cnt (self s) \<and>
     progress_callback (self s') = progress_callback (self s) \<and>
     cancel_callback (self s') = cancel_callback (self s) \<and> last_id (self s') = last_id (self s)) s"
  by (cases "za (self s)"; cases "filename (self s)")
     (auto simp: ZipArchive_open_def wp_simps call_defs Let_def split: prod.split)

text \<open>The cancel callback answers 0, which goes on with the close, when there is none or the call
  failed, and otherwise the callback's result as an \<open>int\<close>: a PHP integer that is a multiple
  of \<open>2 ^ 32\<close> does not cancel.\<close>

theorem cancel_callback_answer:
  "wp (php_zip_cancel_callback E) (\<lambda>r s'.
     (case cancel_callback (self s) of None \<Rightarrow> r = 0 \<and> s' = s
      | Some cb \<Rightarrow> trace s' = trace s @ [Ev_user cb] \<and> self s' = self s \<and>
          r = (case fst (sys_user E cb None (world s)) of None \<Rightarrow> 0
               | Some v \<Rightarrow> as_int (zval_get_long E v)))) s"
  by (cases "cancel_callback (self s)")
     (auto simp: php_zip_cancel_callback_def wp_simps call_defs split: prod.split option.split)

end
