(* ===== verification/Zip_Extract.thy ===== *)
theory Zip_Extract
  imports Zip_Path Zip_Object
begin

text \<open>
  Extraction (ext/php_zip.c): \<open>php_zip_extract_file\<close> and the method \<open>extractTo\<close>. The
  loop that copies an entry into a file ends when libzip answers no more data; it is given
  fuel, one unit per turn, and the answer None means that the fuel ran out in it.
\<close>

section \<open>Extracting one entry\<close>

text \<open>\<open>while ((n=zip_fread(zf, b, sizeof(b))) > 0) php_stream_write(stream, b, n);\<close>\<close>

fun copy_loop :: "'w env \<Rightarrow> nat \<Rightarrow> zip_file_t \<Rightarrow> php_stream_t \<Rightarrow> ('w, 'o, int option) act" where
  "copy_loop E 0 zf stream = ret None"
| "copy_loop E (Suc fuel) zf stream = do {
     (r, b) \<leftarrow> zip_fread E zf 8192;
     let n = as_int r in
     if n > 0 then do {
       _ \<leftarrow> fcall E (Php_stream_write stream (take (nat n) b));
       copy_loop E fuel zf stream }
     else ret (Some n) }"

text \<open>The file branch after the target directory exists: from the full path to the close.\<close>

definition extract_contents ::
  "'w env \<Rightarrow> nat \<Rightarrow> zip_t \<Rightarrow> string \<Rightarrow> string \<Rightarrow> int \<Rightarrow> ('w, 'o, int option) act" where
  "extract_contents E fuel h file fullpath mtime = do {
     zf \<leftarrow> ptrcall E (Zip_fopen h (cstr file) 0);
     case zf of
       None \<Rightarrow> ret (Some 0)
     | Some zf \<Rightarrow> do {
         stream \<leftarrow> ptrcall E (Php_stream_open_wrapper fullpath ''w+b'');
         case stream of
           None \<Rightarrow> do { _ \<leftarrow> icall E (Zip_fclose zf); ret (Some 0) }
         | Some stream \<Rightarrow> do {
             done \<leftarrow> copy_loop E fuel zf stream;
             case done of
               None \<Rightarrow> ret None
             | Some _ \<Rightarrow> do {
                 meta \<leftarrow> fcall E (Has_stream_metadata stream);
                 (if meta \<noteq> 0 then do {
                    _ \<leftarrow> fcall E (Stream_metadata_touch fullpath mtime); ret () }
                  else ret ());
                 _ \<leftarrow> fcall E (Php_stream_close stream);
                 n \<leftarrow> icall E (Zip_fclose zf);
                 ret (Some (if n < 0 then 0 else 1)) } } } }"

text \<open>Creating the directory an entry goes to: False when the function returns 0.\<close>

definition ensure_directory :: "'w env \<Rightarrow> string \<Rightarrow> bool \<Rightarrow> ('w, 'o, bool) act" where
  "ensure_directory E d report = do {
     (r, ssb) \<leftarrow> qcall E (Php_stream_stat_path_ex d);
     if r < 0 then do {
       r \<leftarrow> fcall E (Php_stream_mkdir d 511 report);
       ret (r \<noteq> 0) }
     else ret True }"

text \<open>The file branch: where the file goes, and its checks.\<close>

definition extract_to_file ::
  "'w env \<Rightarrow> nat \<Rightarrow> zip_t \<Rightarrow> string \<Rightarrow> string \<Rightarrow> string \<Rightarrow> int \<Rightarrow> ('w, 'o, int option) act" where
  "extract_to_file E fuel h dest file path_cleaned mtime = do {
     file_dirname \<leftarrow> ret (php_dirname E path_cleaned);
     file_dirname_fullpath \<leftarrow> ret (
       if length file_dirname = 0 \<or> (length file_dirname = 1 \<and> hd file_dirname = CHR ''.'')
       then dest else dest @ ''/'' @ file_dirname);
     file_basename \<leftarrow> ret (php_basename E path_cleaned);
     denied \<leftarrow> ZIP_OPENBASEDIR_CHECKPATH E file_dirname_fullpath;
     if denied then ret (Some 0)
     else do {
       ok \<leftarrow> ensure_directory E file_dirname_fullpath True;
       if \<not> ok then ret (Some 0)
       else do {
         fullpath \<leftarrow> ret (file_dirname_fullpath @ ''/'' @ cstr file_basename);
         if length fullpath = 0 then ret (Some 0)
         else if length fullpath > maxpathlen E then do {
           php_error_docref E_WARNING ''Full extraction path exceed MAXPATHLEN (%i)''
             [DN (int (maxpathlen E))];
           ret (Some 0) }
         else do {
           denied \<leftarrow> ZIP_OPENBASEDIR_CHECKPATH E fullpath;
           if denied then ret (Some 0)
           else extract_contents E fuel h file fullpath mtime } } } }"

definition php_zip_extract_file ::
  "'w env \<Rightarrow> nat \<Rightarrow> zip_t \<Rightarrow> string \<Rightarrow> string \<Rightarrow> ('w, 'o, int option) act" where
  "php_zip_extract_file E fuel h dest file = do {
     cwd \<leftarrow> tcall E (Virtual_file_ex (cstr file));
     case php_zip_make_relative_path (is_slash E) (cstr (dflt [] cwd)) of
       None \<Rightarrow> ret (Some 0)
     | Some path_cleaned \<Rightarrow>
         if length path_cleaned \<ge> maxpathlen E then ret (Some 0)
         else do {
           (r, sb) \<leftarrow> scall E (Zip_stat h (cstr file) 0);
           if r \<noteq> 0 then ret (Some 0)
           else if length path_cleaned > 1 \<and> is_slash E (last path_cleaned) then do {
             ok \<leftarrow> ensure_directory E (dest @ ''/'' @ path_cleaned) True;
             ret (Some (if ok then 1 else 0)) }
           else extract_to_file E fuel h dest file path_cleaned (sb_mtime sb) } }"

section \<open>extractTo\<close>

datatype file_selection = F_NONE | F_STR string | F_ARR hash_table

text \<open>The loops over the array and over the archive: the answer is None when the fuel ran out,
  otherwise whether all went well.\<close>

fun extract_array :: "'w env \<Rightarrow> nat \<Rightarrow> zip_t \<Rightarrow> string \<Rightarrow> hash_table \<Rightarrow> int list \<Rightarrow> ('w, 'o, bool option) act" where
  "extract_array E fuel h dest ht [] = ret (Some True)"
| "extract_array E fuel h dest ht (i # js) =
     (case zend_hash_index_find ht i of
        Some (IS_STRING file) \<Rightarrow> do {
          r \<leftarrow> php_zip_extract_file E fuel h dest file;
          case r of
            None \<Rightarrow> ret None
          | Some n \<Rightarrow> if n = 0 then ret (Some False) else extract_array E fuel h dest ht js }
      | _ \<Rightarrow> extract_array E fuel h dest ht js)"

fun extract_all :: "'w env \<Rightarrow> nat \<Rightarrow> zip_t \<Rightarrow> string \<Rightarrow> int list \<Rightarrow> ('w, 'o, bool option) act" where
  "extract_all E fuel h dest [] = ret (Some True)"
| "extract_all E fuel h dest (i # js) = do {
     file \<leftarrow> tcall E (Zip_get_name h (as_u64 i) (as_u32 (zc E ''ZIP_FL_UNCHANGED'')));
     case file of
       None \<Rightarrow> ret (Some False)
     | Some file \<Rightarrow> do {
         r \<leftarrow> php_zip_extract_file E fuel h dest (cstr file);
         case r of
           None \<Rightarrow> ret None
         | Some n \<Rightarrow> if n = 0 then ret (Some False) else extract_all E fuel h dest js } }"

definition extract_result :: "bool option \<Rightarrow> zval option" where
  "extract_result r = map_option RETURN_BOOL r"

text \<open>The answer None: the fuel ran out. An exception is still \<open>Some IS_NULL\<close>.\<close>

definition ZipArchive_extractTo ::
  "'w env \<Rightarrow> nat \<Rightarrow> (string \<times> file_selection) option \<Rightarrow> ('w, zval option) meth" where
  "ZipArchive_extractTo E fuel args =
     (case args of
        None \<Rightarrow> do { r \<leftarrow> throws Zpp_failure; ret (Some r) }
      | Some (pathto, files) \<Rightarrow> do {
          obj \<leftarrow> get_self;
          case za obj of
            None \<Rightarrow> do { r \<leftarrow> throws invalid_zip_object; ret (Some r) }
          | Some intern \<Rightarrow>
              if length pathto < 1 then ret (Some IS_FALSE)
              else do {
                ok \<leftarrow> ensure_directory E pathto False;
                if \<not> ok then ret (Some IS_FALSE)
                else (case files of
                    F_STR file \<Rightarrow> do {
                      r \<leftarrow> php_zip_extract_file E fuel intern pathto file;
                      ret (extract_result (map_option (\<lambda>n. n \<noteq> 0) r)) }
                  | F_ARR ht \<Rightarrow>
                      if length ht = 0 then ret (Some IS_FALSE)
                      else do {
                        r \<leftarrow> extract_array E fuel intern pathto ht (map int [0..<length ht]);
                        ret (extract_result r) }
                  | F_NONE \<Rightarrow> do {
                      filecount \<leftarrow> icall E (Zip_get_num_entries intern 0);
                      if filecount = -1 then do {
                        php_error_docref E_WARNING ''Illegal archive'' [];
                        ret (Some IS_FALSE) }
                      else do {
                        r \<leftarrow> extract_all E fuel intern pathto (map int [0..<nat filecount]);
                        ret (extract_result r) } }) } })"

section \<open>Where extraction writes\<close>

text \<open>The path an event creates or changes on the disk.\<close>

fun written_path :: "event \<Rightarrow> string option" where
  "written_path (Ev_f (Php_stream_mkdir p _ _) _) = Some p"
| "written_path (Ev_f (Stream_metadata_touch p _) _) = Some p"
| "written_path (Ev_p (Php_stream_open_wrapper p _) _) = Some p"
| "written_path _ = None"

text \<open>Below the target: no directory on the way from the target is \<open>..\<close>.\<close>

definition below :: "(char \<Rightarrow> bool) \<Rightarrow> string \<Rightarrow> string \<Rightarrow> bool" where
  "below sl dest p \<longleftrightarrow>
     p = dest \<or> (\<exists>q. p = dest @ ''/'' @ q \<and> ''..'' \<notin> set (butlast (components sl q)))"

definition confined :: "(char \<Rightarrow> bool) \<Rightarrow> string \<Rightarrow> event \<Rightarrow> bool" where
  "confined sl dest e \<longleftrightarrow> (\<forall>p. written_path e = Some p \<longrightarrow> below sl dest p)"

text \<open>What the property relies on: \<open>virtual_file_ex\<close> resolves the \<open>..\<close> of a path
  it makes absolute; \<open>php_dirname\<close> answers a leading part of the path, a dot, a separator or
  nothing; \<open>php_basename\<close> answers no separator.\<close>

definition resolves_dots :: "'w env \<Rightarrow> bool" where
  "resolves_dots E \<longleftrightarrow> (\<forall>f w r. fst (sys_t E (Virtual_file_ex f) w) = Some r \<longrightarrow> cstr r \<noteq> [] \<longrightarrow>
     is_slash E (hd (cstr r)) \<longrightarrow> ''..'' \<notin> set (components (is_slash E) (cstr r)))"

definition splits_paths :: "'w env \<Rightarrow> bool" where
  "splits_paths E \<longleftrightarrow>
     (\<forall>p. php_dirname E p = [] \<or> php_dirname E p = ''.'' \<or>
          (\<exists>c. is_slash E c \<and> php_dirname E p = [c]) \<or>
          (\<exists>c r. is_slash E c \<and> p = php_dirname E p @ c # r)) \<and>
     (\<forall>p. \<forall>c \<in> set (php_basename E p). \<not> is_slash E c)"


lemma belowI: "''..'' \<notin> set (butlast (components sl q)) \<Longrightarrow> below sl dest (dest @ ''/'' @ q)"
  by (auto simp: below_def)

lemma below_dirname:
  assumes "splits_paths E" and "''..'' \<notin> set (butlast (components (is_slash E) q))"
    and "d = php_dirname E q"
    and "dir = (if length d = 0 \<or> (length d = 1 \<and> hd d = CHR ''.'') then dest else dest @ ''/'' @ d)"
    and "b = [] \<or> (\<forall>c \<in> set b. \<not> is_slash E c)"
  shows "below (is_slash E) dest dir" "is_slash E (CHR ''/'') \<Longrightarrow> below (is_slash E) dest (dir @ ''/'' @ b)"
proof -
  let ?sl = "is_slash E"
  consider "d = []" | "d = ''.''" | c where "?sl c" "d = [c]" | c r where "?sl c" "q = d @ c # r"
    using assms(1) [unfolded splits_paths_def, THEN conjunct1, THEN spec, of q] assms(3) by metis
  then have all: "''..'' \<notin> set (components ?sl d)"
  proof cases
    case 4
    then have "components ?sl q = components ?sl d @ components ?sl r"
      by (simp add: components_append_sep)
    with assms(2) show ?thesis by (simp add: butlast_append)
  qed (auto simp: components_no_sep)
  then show "below ?sl dest dir"
    by (auto simp: assms(4) below_def dest: in_set_butlastD)
  have b: "components ?sl b = [b]" using assms(5) by (auto simp: components_no_sep)
  assume sep: "?sl (CHR ''/'')"
  show "below ?sl dest (dir @ ''/'' @ b)"
  proof (cases "dir = dest")
    case True
    with b show ?thesis by (auto simp: below_def)
  next
    case False
    with assms(4) have "dir @ ''/'' @ b = dest @ ''/'' @ (d @ CHR ''/'' # b)" by (auto split: if_splits)
    moreover have "''..'' \<notin> set (butlast (components ?sl (d @ CHR ''/'' # b)))"
      using all b sep by (simp add: components_append_sep butlast_append)
    ultimately show ?thesis unfolding below_def by blast
  qed
qed

lemma confined_other [simp]: "written_path e = None \<Longrightarrow> confined sl dest e"
  by (simp add: confined_def)

lemma confined_written [simp]:
  "confined sl dest (Ev_f (Php_stream_mkdir p m b) r) = below sl dest p"
  "confined sl dest (Ev_f (Stream_metadata_touch p t) r) = below sl dest p"
  "confined sl dest (Ev_p (Php_stream_open_wrapper p ms) r') = below sl dest p"
  by (auto simp: confined_def)

lemma logs_copy_loop: "preserves (logs (confined sl dest) t0) (copy_loop E fuel zf stream)"
  by (induction fuel) (auto intro!: preserves_intros logs_rules)

lemma logs_extract_contents:
  "below sl dest p \<Longrightarrow> preserves (logs (confined sl dest) t0) (extract_contents E fuel h f p m)"
  unfolding extract_contents_def by (intro preserves_intros logs_rules logs_copy_loop) auto

lemma logs_ensure_directory:
  "below sl dest d \<Longrightarrow> preserves (logs (confined sl dest) t0) (ensure_directory E d r)"
  unfolding ensure_directory_def by (intro preserves_intros logs_rules) auto

lemma logs_extract_to_file:
  assumes "splits_paths E" "is_slash E (CHR ''/'')"
    and "''..'' \<notin> set (butlast (components (is_slash E) q))"
  shows "preserves (logs (confined (is_slash E) dest) t0) (extract_to_file E fuel h dest file q m)"
proof -
  have "\<forall>c \<in> set (cstr (php_basename E q)). \<not> is_slash E c"
    using assms(1) by (auto simp: splits_paths_def cstr_def dest: set_takeWhileD)
  note bl = below_dirname [OF assms(1,3) refl refl, of "cstr (php_basename E q)" dest] this assms(2)
  show ?thesis
    unfolding extract_to_file_def
    by (rule preserves_return_bind)+
       (intro preserves_bind preserves_if preserves_return logs_rules logs_ensure_directory
          logs_extract_contents preserves_return_bind; use bl in auto)
qed

lemma logs_extract_file:
  fixes E :: "'w env"
  assumes "resolves_dots E" "splits_paths E" "is_slash E (CHR ''/'')" "\<not> is_slash E (CHR 0x00)"
  shows "preserves (logs (confined (is_slash E) dest) t0) (php_zip_extract_file E fuel h dest file :: ('w, 'o, int option) act)"
proof (rule preservesI)
  fix s :: "('w, 'o) st"
  assume s: "logs (confined (is_slash E) dest) t0 s"
  let ?P = "logs (confined (is_slash E) dest) t0 :: ('w, 'o) st \<Rightarrow> bool"
  obtain r w where r: "sys_t E (Virtual_file_ex (cstr file)) (world s) = (r, w)"
    by (cases "sys_t E (Virtual_file_ex (cstr file)) (world s)")
  let ?p = "cstr (dflt [] r)"
  have q: "''..'' \<notin> set (butlast (components (is_slash E) q))"
    if "php_zip_make_relative_path (is_slash E) ?p = Some q" for q
  proof (rule cleaned_no_climb [where sl = "is_slash E" and p = ?p])
    assume "?p \<noteq> []" "is_slash E (hd ?p)"
    with r assms(1) [unfolded resolves_dots_def, THEN spec, THEN spec, of "cstr file" "world s"]
    show "''..'' \<notin> set (components (is_slash E) ?p)" by (cases r) (auto simp: cstr_def)
  qed (use that assms(4) in auto)
  have "preserves ?P (case php_zip_make_relative_path (is_slash E) ?p of
       None \<Rightarrow> ret (Some 0)
     | Some path_cleaned \<Rightarrow>
         if length path_cleaned \<ge> maxpathlen E then ret (Some 0)
         else do {
           (r, sb) \<leftarrow> scall E (Zip_stat h (cstr file) 0);
           if r \<noteq> 0 then ret (Some 0)
           else if length path_cleaned > 1 \<and> is_slash E (last path_cleaned) then do {
             ok \<leftarrow> ensure_directory E (dest @ ''/'' @ path_cleaned) True;
             ret (Some (if ok then 1 else 0)) }
           else extract_to_file E fuel h dest file path_cleaned (sb_mtime sb) })"
    by (intro preserves_intros logs_rules logs_ensure_directory logs_extract_to_file)
       (use q assms in \<open>auto simp: below_def\<close>)
  moreover have "?P (s\<lparr>world := w, trace := trace s @ [Ev_t (Virtual_file_ex (cstr file))]\<rparr>)"
    using s by (intro logs_snoc) auto
  ultimately show "wp (php_zip_extract_file E fuel h dest file) (\<lambda>_. ?P) s"
    by (simp add: php_zip_extract_file_def wp_bind wp_perform tcall_def r preserves_def)
qed

lemma logs_extract_array:
  assumes "resolves_dots E" "splits_paths E" "is_slash E (CHR ''/'')" "\<not> is_slash E (CHR 0x00)"
  shows "preserves (logs (confined (is_slash E) dest) t0) (extract_array E fuel h dest ht js)"
  by (induction js)
     (auto intro!: preserves_intros logs_extract_file [OF assms] split: option.split zval.split)

lemma logs_extract_all:
  assumes "resolves_dots E" "splits_paths E" "is_slash E (CHR ''/'')" "\<not> is_slash E (CHR 0x00)"
  shows "preserves (logs (confined (is_slash E) dest) t0) (extract_all E fuel h dest js)"
  by (induction js) (auto intro!: preserves_intros logs_rules logs_extract_file [OF assms])


text \<open>An environment that resolves the dots of absolute paths by dropping them.\<close>

definition slash :: "char \<Rightarrow> bool" where "slash c = (c = CHR ''/'')"

definition drop_dots :: "string \<Rightarrow> string" where
  "drop_dots p = concat (map (\<lambda>c. CHR ''/'' # c)
     (filter (\<lambda>c. c \<noteq> [] \<and> c \<noteq> ''.'' \<and> c \<noteq> ''..'') (components slash p)))"

definition resolving_env :: "unit env" where
  "resolving_env = demo_env\<lparr>is_slash := slash,
     sys_t := (\<lambda>c w. (case c of
         Virtual_file_ex p \<Rightarrow> Some (if p \<noteq> [] \<and> hd p = CHR ''/'' then drop_dots (cstr p) else p)
       | Expand_filepath p \<Rightarrow> Some p
       | _ \<Rightarrow> Some ''m'', w))\<rparr>"

lemma slash_slash [simp]: "slash (CHR ''/'')" by (simp add: slash_def)

lemma components_no_slash: "\<forall>x \<in> set (components slash p). \<forall>c \<in> set x. \<not> slash c"
  by (induction p) (auto split: list.splits)

lemma components_join:
  "\<forall>x \<in> set cs. \<forall>c \<in> set x. \<not> slash c \<Longrightarrow>
   components slash (concat (map (\<lambda>c. CHR ''/'' # c) cs)) = [] # cs"
proof (induction cs)
  case (Cons x cs)
  then have ih: "components slash (concat (map (\<lambda>c. CHR ''/'' # c) cs)) = [] # cs"
    and x: "components slash x = [x]" by (auto simp: components_no_sep)
  show ?case
  proof (cases cs)
    case Nil
    with x show ?thesis by simp
  next
    case (Cons y ys)
    with ih have "components slash (y @ concat (map (\<lambda>c. CHR ''/'' # c) ys)) = cs"
      by simp
    with Cons x show ?thesis by (simp add: components_append_sep)
  qed
qed simp


lemma drop_dots_components:
  "components slash (drop_dots p) = [] # filter (\<lambda>c. c \<noteq> [] \<and> c \<noteq> ''.'' \<and> c \<noteq> ''..'') (components slash p)"
  unfolding drop_dots_def using components_no_slash [of p] by (intro components_join) auto

lemma drop_dots_nul: "CHR 0x00 \<notin> set p \<Longrightarrow> cstr (drop_dots p) = drop_dots p"
proof -
  assume nul: "CHR 0x00 \<notin> set p"
  have "CHR 0x00 \<notin> set x" if "x \<in> set (components slash p)" for x
    using nul that by (induction p arbitrary: x) (auto split: if_splits list.splits)
  then show ?thesis unfolding cstr_def drop_dots_def by (intro takeWhile_eq_all_conv [THEN iffD2]) auto
qed

lemma hd_cstr: "cstr f \<noteq> [] \<Longrightarrow> hd (cstr f) = hd f"
  by (cases f) (auto simp: cstr_def split: if_splits)

lemma nul_cstr: "CHR 0x00 \<notin> set (cstr p)"
  by (auto simp: cstr_def dest: set_takeWhileD)

lemma resolving_env_ok: "resolves_dots resolving_env" "splits_paths resolving_env"
proof -
  let ?n = "\<lambda>c. c \<noteq> CHR ''/''"
  show "resolves_dots resolving_env"
    unfolding resolves_dots_def
    by (auto simp: resolving_env_def demo_env_def drop_dots_nul [OF nul_cstr]
        drop_dots_components hd_cstr slash_def [symmetric] cstr_def [of "[]"] split: if_splits)
  have "rev (drop 1 (dropWhile ?n (rev p))) = [] \<or>
      (\<exists>c r. slash c \<and> p = rev (drop 1 (dropWhile ?n (rev p))) @ c # r)" for p
  proof (cases "dropWhile ?n (rev p)")
    case (Cons x xs)
    then have "x = CHR ''/''" using hd_dropWhile [of ?n "rev p"] by auto
    moreover have "rev p = takeWhile ?n (rev p) @ x # xs" using Cons takeWhile_dropWhile_id [of ?n "rev p"] by simp
    then have "p = rev xs @ x # rev (takeWhile ?n (rev p))" by (metis rev_append rev.simps(2) rev_rev_ident append_assoc append_Cons append_Nil)
    ultimately show ?thesis using Cons by (auto simp: slash_def)
  next
    case Nil
    show ?thesis unfolding Nil by simp
  qed
  then show "splits_paths resolving_env"
    unfolding splits_paths_def
    by (auto simp: resolving_env_def demo_env_def slash_def dest: set_takeWhileD)
qed

definition extracting_state :: "(unit, ze_zip_object) st" where
  "extracting_state = start_state ((php_zip_object_new [])\<lparr>za := Some 7\<rparr>)"

lemma extracting_run:
  "wp (ZipArchive_extractTo resolving_env (Suc fuel) (Some (''out'', F_STR ''../../etc/passwd'')))
    (\<lambda>r s'. r = Some IS_TRUE \<and>
       Ev_p (Php_stream_open_wrapper ''out/etc/passwd'' ''w+b'') (Some 5) \<in> set (trace s'))
    extracting_state"
proof -
  have rel: "php_zip_make_relative_path slash ''../../etc/passwd'' = Some ''etc/passwd''" by code_simp
  show ?thesis
    by (simp add: wp_def ZipArchive_extractTo_def ensure_directory_def php_zip_extract_file_def
        extract_to_file_def extract_contents_def extracting_state_def php_zip_object_new_def
        resolving_env_def run_defs rel cstr_def slash_def as_int_def Let_def
        extract_result_def RETURN_BOOL_def demo_stat_def)
qed


section \<open>What is extracted\<close>

text \<open>\<open>delivers E zf st w cs w'\<close>: from the world \<open>w\<close>, reading \<open>zf\<close> and writing to \<open>st\<close>
  what was read, in turn, until a read gives nothing or fails, reads the chunks \<open>cs\<close>.\<close>

inductive delivers :: "'w env \<Rightarrow> zip_file_t \<Rightarrow> php_stream_t \<Rightarrow> 'w \<Rightarrow> string list \<Rightarrow> int \<Rightarrow> 'w \<Rightarrow> bool"
  for E zf st where
  delivers_end: "sys_fread E zf 8192 w = ((r, b), w') \<Longrightarrow> as_int r \<le> 0 \<Longrightarrow>
    delivers E zf st w [] (as_int r) w'"
| delivers_more: "sys_fread E zf 8192 w = ((r, b), w1) \<Longrightarrow> as_int r > 0 \<Longrightarrow>
    c = take (nat (as_int r)) b \<Longrightarrow>
    sys_f E (Php_stream_write st c) w1 = (x, w2) \<Longrightarrow> delivers E zf st w2 cs n w' \<Longrightarrow>
    delivers E zf st w (c # cs) n w'"

inductive_cases delivers_NilE: "delivers E zf st w [] n w'"
inductive_cases delivers_ConsE: "delivers E zf st w (c # cs) n w'"

text \<open>The bytes a trace writes to a stream.\<close>

fun written_to :: "php_stream_t \<Rightarrow> event list \<Rightarrow> string" where
  "written_to st [] = []"
| "written_to st (Ev_f (Php_stream_write st' b) _ # tr) = (if st' = st then b else []) @ written_to st tr"
| "written_to st (_ # tr) = written_to st tr"

lemma written_to_append [simp]: "written_to st (a @ b) = written_to st a @ written_to st b"
  by (induction st a rule: written_to.induct) auto

lemma copy_loop_delivers:
  assumes "delivers E zf st w cs n w'" and "world s = w" and "length cs < fuel"
  shows "\<exists>tr. run_state (copy_loop E fuel zf st) s =
      (Some n, s\<lparr>world := w', trace := trace s @ tr\<rparr>) \<and> written_to st tr = concat cs"
  using assms
proof (induction w cs n w' arbitrary: s fuel rule: delivers.induct)
  case (delivers_end w r b w')
  then obtain k where "fuel = Suc k" by (cases fuel) auto
  with delivers_end show ?case
    by (intro exI [of _ "[Ev_fread zf 8192 r]"]) (simp add: zip_fread_def run_perform Let_def)
next
  case (delivers_more w r b w1 c x w2 cs n w')
  then obtain k where k: "fuel = Suc k" "length cs < k" by (cases fuel) auto
  let ?s = "s\<lparr>world := w2, trace := trace s @ [Ev_fread zf 8192 r, Ev_f (Php_stream_write st c) x]\<rparr>"
  from delivers_more.IH [of ?s k] k(2) obtain tr
    where "run_state (copy_loop E k zf st) ?s = (Some n, ?s\<lparr>world := w', trace := trace ?s @ tr\<rparr>)"
      and "written_to st tr = concat cs" by auto
  with delivers_more.hyps delivers_more.prems(1) k show ?case
    by (intro exI [of _ "Ev_fread zf 8192 r # Ev_f (Php_stream_write st c) x # tr"])
       (simp add: zip_fread_def fcall_def run_perform Let_def)
qed


text \<open>C4. An entry is copied whole: when the entry and the target file could be opened, one unit
  of fuel more than there are chunks is enough; the target receives the bytes read, in order
  and nothing else; then the stream is closed and after it the entry, once each; and the answer is
  1 exactly when closing the entry succeeds. It does not depend on \<open>n\<close>: a read error in
  the middle of the entry leaves a truncated file and the answer 1.\<close>

theorem extract_contents_copies:
  assumes "sys_p E (Zip_fopen h (cstr file) 0) (world s) = ((Some zf, e1), w1)"
    and "sys_p E (Php_stream_open_wrapper p ''w+b'') w1 = ((Some st, e2), w2)"
    and "delivers E zf st w2 cs n w3" and "length cs < fuel"
  shows "wp (extract_contents E fuel h file p m) (\<lambda>r s'. \<exists>tr c1 c2.
      trace s' = trace s @ tr @ [Ev_f (Php_stream_close st) c1, Ev_i (Zip_fclose zf) c2] \<and>
      written_to st tr = concat cs \<and>
      r = Some (if c2 < 0 then 0 else 1)) s"
proof -
  let ?s = "s\<lparr>world := w2, trace := trace s @ [Ev_p (Zip_fopen h (cstr file) 0) (Some zf),
     Ev_p (Php_stream_open_wrapper p ''w+b'') (Some st)]\<rparr>"
  from copy_loop_delivers [OF assms(3) _ assms(4), of ?s] obtain tr
    where "run_state (copy_loop E fuel zf st) ?s = (Some n, ?s\<lparr>world := w3, trace := trace ?s @ tr\<rparr>)"
      and "written_to st tr = concat cs" by auto
  note loop = this
  obtain meta w4 where m: "sys_f E (Has_stream_metadata st) w3 = (meta, w4)"
    by (cases "sys_f E (Has_stream_metadata st) w3")
  obtain t w5 where t: "sys_f E (Stream_metadata_touch p m) w4 = (t, w5)"
    by (cases "sys_f E (Stream_metadata_touch p m) w4")
  define w6 where "w6 = (if meta \<noteq> 0 then w5 else w4)"
  obtain c1 w7 where c1: "sys_f E (Php_stream_close st) w6 = (c1, w7)"
    by (cases "sys_f E (Php_stream_close st) w6")
  obtain c2 w8 where c2: "sys_i E (Zip_fclose zf) w7 = (c2, w8)"
    by (cases "sys_i E (Zip_fclose zf) w7")
  let ?tr = "[Ev_p (Zip_fopen h (cstr file) 0) (Some zf),
    Ev_p (Php_stream_open_wrapper p ''w+b'') (Some st)] @ tr @ [Ev_f (Has_stream_metadata st) meta] @
    (if meta \<noteq> 0 then [Ev_f (Stream_metadata_touch p m) t] else [])"
  have "run_state (extract_contents E fuel h file p m) s = (Some (if c2 < 0 then 0 else 1),
    s\<lparr>world := w8, trace := trace s @ ?tr @ [Ev_f (Php_stream_close st) c1, Ev_i (Zip_fclose zf) c2]\<rparr>)"
    using assms(1,2) loop m t c1 c2
    by (cases "meta = 0") (simp_all add: extract_contents_def ptrcall_def pcall_def fcall_def
        icall_def run_perform w6_def)
  moreover have "written_to st ?tr = concat cs" using loop by simp
  ultimately show ?thesis unfolding wp_def by fastforce
qed

text \<open>An archive whose entry is read in two chunks, the second read failing.\<close>

definition failing_env :: "nat env" where
  "failing_env = \<lparr>is_slash = slash, default_slash = CHR ''/'', maxpathlen = 260, zts = False,
     win32 = False, is_absolute_path = (\<lambda>p. False), php_dirname = (\<lambda>p. []), php_basename = (\<lambda>p. p),
     zend_zval_type_name = (\<lambda>_. []), zval_get_long = (\<lambda>v. 0), zend_is_true = (\<lambda>v. False),
     zc = (\<lambda>_. 0), libzip_version = [],
     sys_i = (\<lambda>c w. (0, w)), sys_p = (\<lambda>c w. ((Some 5, 0), w)), sys_s = (\<lambda>c w. ((0, demo_stat), w)),
     sys_t = (\<lambda>c w. (Some ''m'', w)),
     sys_fread = (\<lambda>zf n w. (if w = 0 then (3, ''abc'') else (-1, []), w + 1)),
     sys_attr = (\<lambda>h i f w. ((0, 0, 0), w)), sys_f = (\<lambda>c w. (0, w)),
     sys_q = (\<lambda>c w. ((0, \<lparr>st_size = 1, st_isdir = False\<rparr>), w)),
     sys_l = (\<lambda>c w. ((0, []), w)), sys_user = (\<lambda>cb a w. (None, w))\<rparr>"

lemma failing_env_delivers: "delivers failing_env 5 5 0 [''abc''] (-1) 2"
  by (rule delivers_more [where r = 3 and b = "''abc''" and ?w1.0 = 1 and x = 0 and ?w2.0 = 1])
     (auto simp: failing_env_def as_int_def
       intro: delivers_end [where r = "-1" and b = "[]", simplified as_int_def, simplified])

theorem extract_contents_copies_witness:
  "wp (extract_contents failing_env 2 7 ''f'' ''out/f'' 0) (\<lambda>r s'. r = Some 1 \<and>
     (\<exists>tr c1 c2. trace s' = tr @ [Ev_f (Php_stream_close 5) c1, Ev_i (Zip_fclose 5) c2] \<and>
       written_to 5 tr = ''abc'')) \<lparr>world = 0, trace = [], exn = None, self = ()\<rparr>"
proof -
  let ?s = "\<lparr>world = 0, trace = [], exn = None, self = ()\<rparr>"
  have "wp (extract_contents failing_env 2 7 ''f'' ''out/f'' 0) (\<lambda>r s'. r = Some 1) ?s"
    by (simp add: wp_def extract_contents_def failing_env_def run_simps call_defs eval_nat_numeral
        as_int_def cstr_def)
  from wp_conj [OF this extract_contents_copies [OF _ _ failing_env_delivers, of 7 "''f''" ?s 0 0 "''out/f''" 0 2 0]]
  show ?thesis by (rule wp_mono) (auto simp: failing_env_def)
qed

section \<open>What extraction leaves open\<close>

text \<open>An operation that answers None only when it ran out of fuel, and otherwise has closed what
  it opened.\<close>

definition tidy :: "('w, 'o, 'a option) act \<Rightarrow> bool" where
  "tidy m \<longleftrightarrow> (\<forall>f g s. balances f g s \<longrightarrow> wp m (\<lambda>r s'. r \<noteq> None \<longrightarrow> balances f g s') s)"

named_theorems tidy_rules

lemma tidyD: "tidy m \<Longrightarrow> balances f g s \<Longrightarrow> wp m (\<lambda>r s'. r \<noteq> None \<longrightarrow> balances f g s') s"
  by (simp add: tidy_def)

lemma tidy_return [tidy_rules]: "tidy (ret x)"
  by (simp add: tidy_def wp_return)

lemma tidy_preserves: "(\<And>f g. preserves (balances f g) m) \<Longrightarrow> tidy m"
  by (auto simp: tidy_def preserves_def intro: wp_mono)

abbreviation tidy_post :: "(zip_file_t \<Rightarrow> int) \<Rightarrow> (php_stream_t \<Rightarrow> int) \<Rightarrow> 'a option \<Rightarrow> ('w, 'o) st \<Rightarrow> bool" where
  "tidy_post f g r s \<equiv> r \<noteq> None \<longrightarrow> balances f g s"

lemma tidyI: "(\<And>f g s. balances f g s \<Longrightarrow> wp m (tidy_post f g) s) \<Longrightarrow> tidy m"
  by (simp add: tidy_def)

lemma tidy_bind [tidy_rules]:
  fixes m :: "('w, 'o, 'b) act" and k :: "'b \<Rightarrow> ('w, 'o, 'a option) act"
  assumes "\<And>t0. preserves (logs neutral t0) m" and "\<And>a. tidy (k a)"
  shows "tidy (State_Monad.bind m k)"
proof (rule tidyI)
  fix f g and s :: "('w, 'o) st" assume "balances f g s"
  with neutral_preserves_balances [OF assms(1)] have "wp m (\<lambda>_. balances f g) s"
    by (rule preservesD)
  then show "wp (State_Monad.bind m k) (tidy_post f g) s"
    unfolding wp_bind by (rule wp_mono) (rule tidyD [OF assms(2)])
qed

lemma tidy_then [tidy_rules]:
  fixes m :: "('w, 'o, 'b option) act" and k :: "'b option \<Rightarrow> ('w, 'o, 'a option) act"
  assumes "tidy m" and "k None = ret None" and "\<And>a. tidy (k (Some a))"
  shows "tidy (State_Monad.bind m k)"
proof (rule tidyI)
  fix f g and s :: "('w, 'o) st" assume "balances f g s"
  with assms(1) have "wp m (tidy_post f g) s" by (rule tidyD)
  then show "wp (State_Monad.bind m k) (tidy_post f g) s"
    unfolding wp_bind
  proof (rule wp_mono)
    fix a :: "'b option" and s' :: "('w, 'o) st" assume "tidy_post f g a s'"
    then show "wp (k a) (tidy_post f g) s'"
      using assms(2) tidyD [OF assms(3)] by (cases a) (simp_all add: wp_return)
  qed
qed

lemma tidy_cases [tidy_rules]:
  "(b \<Longrightarrow> tidy m) \<Longrightarrow> (\<not> b \<Longrightarrow> tidy n) \<Longrightarrow> tidy (if b then m else n)"
  "tidy m \<Longrightarrow> (\<And>a. x = Some a \<Longrightarrow> tidy (k a)) \<Longrightarrow> tidy (case x of None \<Rightarrow> m | Some a \<Rightarrow> k a)"
  "(\<And>a b. p = (a, b) \<Longrightarrow> tidy (kk a b)) \<Longrightarrow> tidy (case p of (a, b) \<Rightarrow> kk a b)"
  by (cases x; cases p; simp)+

lemma neutral_simps [simp]:
  "neutral (Ev_t c)" "neutral (Ev_s sc r)" "neutral (Ev_q qc r)" "neutral (Ev_fread zf n r)"
  "neutral (Ev_diag l ms a)" "neutral (Ev_f (Php_check_open_basedir pa) r)"
  "neutral (Ev_f (Php_stream_mkdir pa md b) r)" "neutral (Ev_f (Php_stream_write st bs) r)"
  "neutral (Ev_f (Has_stream_metadata st) r)" "neutral (Ev_f (Stream_metadata_touch pa t) r)"
  "neutral (Ev_i (Zip_get_num_entries h fl) r)"
  by (simp_all add: neutral_def)

lemma neutral_copy_loop: "preserves (logs neutral t0) (copy_loop E fuel zf stream)"
  by (induction fuel) (auto intro!: preserves_intros logs_rules)

lemma neutral_ensure_directory: "preserves (logs neutral t0) (ensure_directory E d r)"
  unfolding ensure_directory_def by (intro preserves_intros logs_rules) auto

lemma tidy_finish:
  assumes "balances (f(zf := f zf + 1)) (g(st := g st + 1)) s"
  shows "wp (do { meta \<leftarrow> fcall E (Has_stream_metadata st);
                 (if meta \<noteq> 0 then do {
                    _ \<leftarrow> fcall E (Stream_metadata_touch p m); ret () }
                  else ret ());
                 _ \<leftarrow> fcall E (Php_stream_close st);
                 n \<leftarrow> icall E (Zip_fclose zf);
                 ret (Some (if n < 0 then 0 else 1)) }) (\<lambda>r. balances f g) s"
  using assms
  by (auto simp: wp_simps call_defs balances_def fun_eq_iff file_weight_def stream_weight_def
      split: prod.split)

lemma tidy_extract_contents: "tidy (extract_contents E fuel h file p m)"
proof (rule tidyI)
  fix f g and s :: "('a, 'b) st" assume b: "balances f g s"
  obtain zf e1 w1 where zf: "sys_p E (Zip_fopen h (cstr file) 0) (world s) = ((zf, e1), w1)"
    by (metis prod.exhaust)
  obtain st e2 w2 where st: "sys_p E (Php_stream_open_wrapper p ''w+b'') w1 = ((st, e2), w2)"
    by (metis prod.exhaust)
  let ?t = "trace s @ [Ev_p (Zip_fopen h (cstr file) 0) zf, Ev_p (Php_stream_open_wrapper p ''w+b'') st]"
  let ?s = "s\<lparr>world := w2, trace := ?t\<rparr>"
  show "wp (extract_contents E fuel h file p m) (tidy_post f g) s"
  proof (cases "zf = None \<or> st = None")
    case True
    with b zf st show ?thesis
      by (cases zf; cases st) (auto simp: extract_contents_def wp_simps call_defs balances_def
          fun_eq_iff file_weight_def stream_weight_def split: prod.split)
  next
    case False
    then obtain z t where zt: "zf = Some z" "st = Some t" by auto
    have "balances (f(z := f z + 1)) (g(t := g t + 1)) ?s"
      using b zt by (auto simp: balances_def fun_eq_iff file_weight_def stream_weight_def)
    then have "wp (copy_loop E fuel z t) (\<lambda>_. balances (f(z := f z + 1)) (g(t := g t + 1))) ?s"
      by (rule preservesD [OF neutral_preserves_balances [OF neutral_copy_loop]])
    then have "wp (copy_loop E fuel z t) (\<lambda>r s'. wp (case r of None \<Rightarrow> ret None
        | Some _ \<Rightarrow> do { meta \<leftarrow> fcall E (Has_stream_metadata t);
                 (if meta \<noteq> 0 then do {
                    _ \<leftarrow> fcall E (Stream_metadata_touch p m); ret () }
                  else ret ());
                 _ \<leftarrow> fcall E (Php_stream_close t);
                 n \<leftarrow> icall E (Zip_fclose z);
                 ret (Some (if n < 0 then 0 else 1)) }) (tidy_post f g) s') ?s"
      by (rule wp_mono) (auto simp: wp_return split: option.split intro!: wp_mono [OF tidy_finish])
    with zf st zt show ?thesis
      by (simp add: extract_contents_def ptrcall_def pcall_def wp_perform wp_bind wp_return)
  qed
qed

lemma tidy_extract_file: "tidy (php_zip_extract_file E fuel h dest file)"
proof -
  have "tidy (extract_to_file E fuel h dest file q m)" for q m
    unfolding extract_to_file_def
    by (intro tidy_bind tidy_cases tidy_return tidy_extract_contents preserves_return logs_rules
        neutral_ensure_directory) auto
  then show ?thesis
    unfolding php_zip_extract_file_def
    by (intro tidy_bind tidy_cases tidy_return preserves_return logs_rules neutral_ensure_directory)
       auto
qed

lemma tidy_extract_array: "tidy (extract_array E fuel h dest ht js)"
  by (induction js) (auto intro!: tidy_return tidy_then tidy_extract_file split: option.split zval.split)

lemma tidy_extract_all:
  fixes E :: "'w env"
  shows "tidy (extract_all E fuel h dest js :: ('w, 'o, bool option) act)"
proof (induction js)
  case (Cons i js)
  have "tidy (do { r \<leftarrow> php_zip_extract_file E fuel h dest (cstr f);
         case r of
           None \<Rightarrow> ret None
         | Some n \<Rightarrow> if n = 0 then ret (Some False) else extract_all E fuel h dest js }
         :: ('w, 'o, bool option) act)" for f
    using Cons by (intro tidy_then tidy_extract_file) (auto intro: tidy_return)
  then show ?case
    by (simp, intro tidy_bind logs_rules) (auto intro: tidy_return split: option.split)
qed (simp add: tidy_return)

lemma extract_result_None: "extract_result None = None" "extract_result (Some b) = Some (RETURN_BOOL b)"
  by (simp_all add: extract_result_def)



end
