(* ===== verification/Zip_Add.thy ===== *)
theory Zip_Add
  imports Zip_Object "HOL-Library.Sublist"
begin

text \<open>
  Adding entries (ext/php_zip.c): the options array of addGlob and addPattern, the listing of the
  files to add, the name an added file gets, and the methods that add a file, a directory or a
  string.
\<close>

text \<open>\<open>snprintf\<close> into a buffer of \<open>n\<close> bytes keeps at most \<open>n - 1\<close> characters.\<close>

definition snprintf_trunc :: "nat \<Rightarrow> string \<Rightarrow> string" where
  "snprintf_trunc n s = take (n - 1) s"

section \<open>Options\<close>

record zip_options =
  remove_all_path :: int
  remove_path :: "string option"
  remove_path_len :: nat
  add_path :: "string option"
  add_path_len :: nat
  opt_flags :: int
  comp_method :: int
  comp_flags :: int
  enc_method :: int
  enc_password :: "string option"

definition default_options :: "'w env \<Rightarrow> zip_options" where
  "default_options E =
     \<lparr>remove_all_path = 0, remove_path = None, remove_path_len = 0, add_path = None,
      add_path_len = 0, opt_flags = as_u32 (zc E ''ZIP_FL_OVERWRITE''), comp_method = -1,
      comp_flags = 0, enc_method = -1, enc_password = None\<rparr>"

text \<open>The two path options are checked alike: None after a throw, otherwise the value if any.\<close>

definition zip_path_option ::
  "'w env \<Rightarrow> hash_table \<Rightarrow> string \<Rightarrow> ('w, 'o, string option option) act" where
  \<open>zip_path_option E options key =
     (case zend_hash_str_find options key of
        None \<Rightarrow> ret (Some None)
      | Some (IS_STRING v) \<Rightarrow>
          if length v = 0 then do {
            zend_throw (Value_error (''Option "'' @ key @ ''" cannot be empty'') []);
            ret None }
          else if length v \<ge> maxpathlen E then do {
            zend_throw (Value_error (''Option "'' @ key @ ''" must be less than %d bytes'')
              [DN (int (maxpathlen E) - 1)]);
            ret None }
          else ret (Some (Some v))
      | Some v \<Rightarrow> do {
          zend_throw (Type_error (''Option "'' @ key @ ''" must be of type string, %s given'')
            [DS (zend_zval_type_name E v)]);
          ret None })\<close>

definition option_warning :: "'w env \<Rightarrow> string \<Rightarrow> string \<Rightarrow> zval \<Rightarrow> ('w, 'o, unit) act" where
  \<open>option_warning E key type v =
     php_error_docref E_WARNING (''Option "'' @ key @ ''" must be of type '' @ type @ '', %s given'')
       [DS (zend_zval_type_name E v)]\<close>

fun is_long :: "zval \<Rightarrow> bool" where
  "is_long (IS_LONG _) = True"
| "is_long _ = False"

fun is_bool :: "zval \<Rightarrow> bool" where
  "is_bool IS_TRUE = True"
| "is_bool IS_FALSE = True"
| "is_bool _ = False"

text \<open>The groups of options, in the order they are read. A failed group has thrown.\<close>

definition parse_compression_options ::
  "'w env \<Rightarrow> hash_table \<Rightarrow> zip_options \<Rightarrow> ('w, 'o, zip_options) act" where
  \<open>parse_compression_options E options opts =
     (case zend_hash_str_find options ''comp_method'' of
        None \<Rightarrow> ret opts
      | Some v \<Rightarrow> do {
          (if \<not> is_long v then option_warning E ''comp_method'' ''int'' v else ret ());
          opts \<leftarrow> ret (opts\<lparr>comp_method := as_int (zval_get_long E v)\<rparr>);
          case zend_hash_str_find options ''comp_flags'' of
            None \<Rightarrow> ret opts
          | Some f \<Rightarrow> do {
              (if \<not> is_long f then option_warning E ''comp_flags'' ''int'' f else ret ());
              ret (opts\<lparr>comp_flags := as_u32 (zval_get_long E f)\<rparr>) } })\<close>

definition parse_encryption_options ::
  "'w env \<Rightarrow> hash_table \<Rightarrow> zip_options \<Rightarrow> ('w, 'o, bool \<times> zip_options) act" where
  \<open>parse_encryption_options E options opts =
     (case zend_hash_str_find options ''enc_method'' of
        None \<Rightarrow> ret (True, opts)
      | Some v \<Rightarrow> do {
          (if \<not> is_long v then option_warning E ''enc_method'' ''int'' v else ret ());
          opts \<leftarrow> ret (opts\<lparr>enc_method := as_i16 (zval_get_long E v)\<rparr>);
          case zend_hash_str_find options ''enc_password'' of
            None \<Rightarrow> ret (True, opts)
          | Some (IS_STRING p) \<Rightarrow> ret (True, opts\<lparr>enc_password := Some p\<rparr>)
          | Some p \<Rightarrow> do {
              zend_throw (Type_error ''Option "enc_password" must be of type string, %s given''
                [DS (zend_zval_type_name E p)]);
              ret (False, opts) } })\<close>

definition parse_flags_option ::
  "'w env \<Rightarrow> hash_table \<Rightarrow> zip_options \<Rightarrow> ('w, 'o, int \<times> zip_options) act" where
  \<open>parse_flags_option E options opts =
     (case zend_hash_str_find options ''flags'' of
        None \<Rightarrow> ret (1, opts)
      | Some (IS_LONG f) \<Rightarrow> ret (1, opts\<lparr>opt_flags := as_u32 f\<rparr>)
      | Some v \<Rightarrow> do {
          zend_throw (Type_error ''Option "flags" must be of type int, %s given''
            [DS (zend_zval_type_name E v)]);
          ret (-1, opts) })\<close>

text \<open>The answer is the return value of the C function and the structure it filled.\<close>

definition php_zip_parse_options ::
  "'w env \<Rightarrow> hash_table \<Rightarrow> ('w, 'o, int \<times> zip_options) act" where
  \<open>php_zip_parse_options E options = do {
     opts \<leftarrow> (case zend_hash_str_find options ''remove_all_path'' of
        None \<Rightarrow> ret (default_options E)
      | Some v \<Rightarrow> do {
          (if \<not> is_bool v then option_warning E ''remove_all_path'' ''bool'' v else ret ());
          ret ((default_options E)\<lparr>remove_all_path := zval_get_long E v\<rparr>) });
     opts \<leftarrow> parse_compression_options E options opts;
     (ok, opts) \<leftarrow> parse_encryption_options E options opts;
     if \<not> ok then ret (-1, opts)
     else do {
       rp \<leftarrow> zip_path_option E options ''remove_path'';
       case rp of
         None \<Rightarrow> ret (-1, opts)
       | Some rv \<Rightarrow> do {
           opts \<leftarrow> ret (case rv of None \<Rightarrow> opts
             | Some v \<Rightarrow> opts\<lparr>remove_path_len := length v, remove_path := Some v\<rparr>);
           ap \<leftarrow> zip_path_option E options ''add_path'';
           case ap of
             None \<Rightarrow> ret (-1, opts)
           | Some av \<Rightarrow> do {
               opts \<leftarrow> ret (case av of None \<Rightarrow> opts
                 | Some v \<Rightarrow> opts\<lparr>add_path_len := length v, add_path := Some v\<rparr>);
               parse_flags_option E options opts } } } }\<close>

section \<open>Listing the files\<close>

definition GLOB_AVAILABLE_FLAGS :: "'w env \<Rightarrow> int" where
  "GLOB_AVAILABLE_FLAGS E =
     (((((zc E ''GLOB_BRACE'' OR zc E ''GLOB_MARK'') OR zc E ''GLOB_NOSORT'') OR
       zc E ''GLOB_NOCHECK'') OR zc E ''GLOB_NOESCAPE'') OR zc E ''GLOB_ERR'') OR
       zc E ''GLOB_ONLYDIR''"

text \<open>With thread safety the current directory is per request: the code prefixes it itself.\<close>

definition prefix_cwd :: "'w env \<Rightarrow> string \<Rightarrow> ('w, 'o, string \<times> string) act" where
  "prefix_cwd E p = do {
     result \<leftarrow> tcall E Vcwd_getcwd;
     let cwd = dflt [] result;
         cwd = (if win32 E \<and> is_slash E (char_at p 0) then take 2 cwd else cwd) in
     ret (cwd, snprintf_trunc (maxpathlen E) (cwd @ default_slash E # p)) }"

fun glob_loop :: "'w env \<Rightarrow> int \<Rightarrow> nat \<Rightarrow> string list \<Rightarrow> ('w, 'o, zval list) act" where
  "glob_loop E flags cwd_skip [] = ret []"
| "glob_loop E flags cwd_skip (p # ps) = do {
     keep \<leftarrow> (if flags AND zc E ''GLOB_ONLYDIR'' \<noteq> 0 then do {
                (r, s) \<leftarrow> qcall E (Vcwd_stat p);
                ret (r = 0 \<and> st_isdir s) }
              else ret True);
     rest \<leftarrow> glob_loop E flags cwd_skip ps;
     ret (if keep then IS_STRING (drop cwd_skip p) # rest else rest) }"

text \<open>The answer is the return value and what \<open>return_value\<close> was set to (NULL: untouched).\<close>

definition php_zip_glob :: "'w env \<Rightarrow> string \<Rightarrow> int \<Rightarrow> ('w, 'o, int \<times> zval) act" where
  "php_zip_glob E pattern flags =
     (if length pattern \<ge> maxpathlen E then do {
        php_error_docref E_WARNING
          ''Pattern exceeds the maximum allowed length of %d characters'' [DN (int (maxpathlen E))];
        ret (-1, IS_NULL) }
      else if GLOB_AVAILABLE_FLAGS E AND flags \<noteq> flags then do {
        php_error_docref E_WARNING
          ''At least one of the passed flags is invalid or not supported on this platform'' [];
        ret (-1, IS_NULL) }
      else do {
        (cwd_skip, pattern) \<leftarrow>
          (if zts E \<and> \<not> is_absolute_path E pattern then do {
             (cwd, work_pattern) \<leftarrow> prefix_cwd E pattern;
             ret (length cwd + 1, work_pattern) }
           else ret (0, pattern));
        (r, gl_pathv) \<leftarrow> lcall E (Glob pattern (as_int (flags AND zc E ''GLOB_FLAGMASK'')));
        if r \<noteq> 0 then
          (if r = zc E ''GLOB_NOMATCH'' then ret (0, IS_ARRAY []) else ret (0, IS_NULL))
        else (case gl_pathv of
            [] \<Rightarrow> ret (0, IS_ARRAY [])
          | first # _ \<Rightarrow> do {
              denied \<leftarrow> ZIP_OPENBASEDIR_CHECKPATH E first;
              if denied then ret (-1, IS_NULL)
              else do {
                xs \<leftarrow> glob_loop E flags cwd_skip gl_pathv;
                ret (as_int (int (length gl_pathv)), IS_ARRAY (packed_array xs)) } }) })"

fun pcre_loop :: "'w env \<Rightarrow> nat \<Rightarrow> string \<Rightarrow> nat \<Rightarrow> string list \<Rightarrow> ('w, 'o, zval list) act" where
  "pcre_loop E re path path_len [] = ret []"
| "pcre_loop E re path path_len (n # ns) =
     (if n = ''.'' \<or> n = ''..'' then pcre_loop E re path path_len ns
      else if path_len + length n + 1 \<ge> maxpathlen E then do {
        php_error_docref E_WARNING ''add_path string too long (max: %u, %zu given)''
          [DN (int (maxpathlen E) - 1), DN (int (path_len + length n + 1))];
        ret [] }
      else do {
        match_data \<leftarrow> ptrcall E (Php_pcre_create_match_data re);
        case match_data of
          None \<Rightarrow> pcre_loop E re path path_len ns
        | Some md \<Rightarrow> do {
            rc \<leftarrow> fcall E (Pcre2_match re n);
            if rc < 0 then pcre_loop E re path path_len ns
            else do {
              fullpath \<leftarrow> ret (snprintf_trunc (maxpathlen E) (path @ default_slash E # n));
              (r, s) \<leftarrow> qcall E (Vcwd_stat fullpath);
              if r \<noteq> 0 then do {
                php_error_docref E_WARNING ''Cannot read <%s>'' [DS fullpath];
                pcre_loop E re path path_len ns }
              else if st_isdir s then pcre_loop E re path path_len ns
              else do {
                rest \<leftarrow> pcre_loop E re path path_len ns;
                ret (IS_STRING fullpath # rest) } } } })"

definition php_zip_pcre :: "'w env \<Rightarrow> string \<Rightarrow> string \<Rightarrow> ('w, 'o, int \<times> zval) act" where
  "php_zip_pcre E regexp path0 = do {
     path \<leftarrow> (if zts E \<and> \<not> is_absolute_path E path0 then do {
                (cwd, work_path) \<leftarrow> prefix_cwd E (cstr path0);
                ret work_path }
              else ret (cstr path0));
     denied \<leftarrow> ZIP_OPENBASEDIR_CHECKPATH E path;
     if denied then ret (-1, IS_NULL)
     else do {
       (files_cnt, namelist) \<leftarrow> lcall E (Php_stream_scandir path);
       if files_cnt > 0 then do {
         re \<leftarrow> ptrcall E (Pcre_get_compiled_regex regexp);
         case re of
           None \<Rightarrow> do {
             php_error_docref E_WARNING ''Invalid expression'' [];
             ret (-1, IS_NULL) }
         | Some re \<Rightarrow> do {
             xs \<leftarrow> pcre_loop E re path (length path0) (take (nat files_cnt) namelist);
             ret (files_cnt, IS_ARRAY (packed_array xs)) } }
       else ret (files_cnt, IS_NULL) } }"

section \<open>Adding one file\<close>

definition php_zip_add_file ::
  "'w env \<Rightarrow> string \<Rightarrow> string \<Rightarrow> int \<Rightarrow> int \<Rightarrow> int \<Rightarrow> int \<Rightarrow> ('w, int) meth" where
  "php_zip_add_file E fname entry_name offset_start offset_len replace flags = do {
     denied \<leftarrow> ZIP_OPENBASEDIR_CHECKPATH E (cstr fname);
     if denied then ret (-1)
     else do {
       resolved \<leftarrow> tcall E (Expand_filepath (cstr fname));
       case resolved of
         None \<Rightarrow> do { php_error_docref E_WARNING ''No such file or directory'' []; ret (-1) }
       | Some resolved_path \<Rightarrow> do {
           (r, ssb) \<leftarrow> qcall E (Php_stream_stat_path_ex resolved_path);
           if r \<noteq> 0 then do {
             php_error_docref E_WARNING ''No such file or directory'' []; ret (-1) }
           else do {
             obj \<leftarrow> get_self;
             zs \<leftarrow> ptrcall E (Zip_source_file (za obj) resolved_path (as_u64 offset_start)
                     (as_long offset_len));
             case zs of
               None \<Rightarrow> ret (-1)
             | Some zs \<Rightarrow>
                 if replace \<ge> 0 then do {
                   r \<leftarrow> icall E (Zip_file_replace (za obj) (as_u64 replace) zs flags);
                   if r < 0 then do { _ \<leftarrow> icall E (Zip_source_free zs); ret (-1) }
                   else do { _ \<leftarrow> icall E (Zip_error_clear (za obj)); ret 1 } }
                 else do {
                   id \<leftarrow> icall E (Zip_file_add (za obj) (cstr entry_name) zs flags);
                   modify_self (last_id_update (\<lambda>_. id));
                   if id < 0 then do { _ \<leftarrow> icall E (Zip_source_free zs); ret (-1) }
                   else do { _ \<leftarrow> icall E (Zip_error_clear (za obj)); ret 1 } } } } } }"

section \<open>Adding the files of a pattern\<close>

text \<open>The part of the file's path that goes into the name of the entry.\<close>

definition file_stripped :: "'w env \<Rightarrow> zip_options \<Rightarrow> string \<Rightarrow> string" where
  "file_stripped E opts file =
     (if remove_all_path opts \<noteq> 0 then php_basename E file
      else (case remove_path opts of
          None \<Rightarrow> file
        | Some rp \<Rightarrow>
            if strstr_found (cstr file) (cstr rp) then
              (if is_slash E (char_at file (remove_path_len opts))
               then drop (remove_path_len opts + 1) file
               else drop (remove_path_len opts) file)
            else file))"

text \<open>The name of the entry; None when it is rejected as too long.\<close>

definition entry_name_of :: "'w env \<Rightarrow> zip_options \<Rightarrow> string \<Rightarrow> string option" where
  "entry_name_of E opts file =
     (let stripped = file_stripped E opts file in
      case add_path opts of
        Some ap \<Rightarrow>
          if add_path_len opts + length stripped > maxpathlen E then None
          else Some (snprintf_trunc (maxpathlen E) (cstr ap @ cstr stripped))
      | None \<Rightarrow> Some (snprintf_trunc (maxpathlen E) (cstr stripped)))"

text \<open>One turn of the loop: False when the method returns FALSE from it.\<close>

definition add_found_file :: "'w env \<Rightarrow> zip_options \<Rightarrow> string \<Rightarrow> ('w, bool) meth" where
  "add_found_file E opts file =
     (case entry_name_of E opts file of
        None \<Rightarrow> do {
          php_error_docref E_WARNING ''Entry name too long (max: %d, %zd given)''
            [DN (int (maxpathlen E) - 1),
             DN (int (add_path_len opts + length (file_stripped E opts file)))];
          ret False }
      | Some entry_name \<Rightarrow> do {
          r \<leftarrow> php_zip_add_file E file entry_name 0 0 (-1) (opt_flags opts);
          if r < 0 then ret False
          else do {
            obj \<leftarrow> get_self;
            r \<leftarrow> (if comp_method opts \<ge> 0
                  then icall E (Zip_set_file_compression (za obj) (as_u64 (last_id obj))
                         (comp_method opts) (comp_flags opts))
                  else ret 0);
            if r \<noteq> 0 then ret False
            else do {
              r \<leftarrow> (if enc_method opts \<ge> 0
                    then icall E (Zip_file_set_encryption (za obj) (as_u64 (last_id obj))
                           (as_u16 (enc_method opts)) (map_option cstr (enc_password opts)))
                    else ret 0);
              ret (r = 0) } } })"

fun add_loop :: "'w env \<Rightarrow> zip_options \<Rightarrow> hash_table \<Rightarrow> int list \<Rightarrow> ('w, bool) meth" where
  "add_loop E opts arr [] = ret True"
| "add_loop E opts arr (i # js) =
     (case zend_hash_index_find arr i of
        Some (IS_STRING file) \<Rightarrow> do {
          ok \<leftarrow> add_found_file E opts file;
          if ok then add_loop E opts arr js else ret False }
      | _ \<Rightarrow> add_loop E opts arr js)"

text \<open>
  The local \<open>opts\<close> is not initialised: \<open>stack\<close> is what the stack holds there, and stays
  in it when no option is given. \<open>list_files\<close> is the listing chosen by the \<open>type\<close>
  argument.
\<close>

definition php_zip_add_from_pattern ::
  "'w env \<Rightarrow> zip_options \<Rightarrow> string \<Rightarrow> hash_table option \<Rightarrow> ('w, int \<times> zval) meth \<Rightarrow> ('w, zval) meth" where
  "php_zip_add_from_pattern E stack pattern options list_files =
     (if length pattern = 0 then throws (Argument_value_error 1 ''cannot be empty'')
      else do {
        (r, opts) \<leftarrow> (case options of
            None \<Rightarrow> ret (1, stack)
          | Some ht \<Rightarrow> if length ht > 0 then php_zip_parse_options E ht else ret (1, stack));
        if r < 0 then ret IS_NULL
        else do {
          (found, return_value) \<leftarrow> list_files;
          if found > 0 then (case return_value of
              IS_ARRAY arr \<Rightarrow> do {
                ok \<leftarrow> add_loop E opts arr (map int [0..<nat found]);
                ret (if ok then return_value else IS_FALSE) }
            | _ \<Rightarrow> ret return_value)
          else ret return_value } })"

definition ZipArchive_addGlob ::
  "'w env \<Rightarrow> zip_options \<Rightarrow> (string \<times> int option \<times> hash_table option) option \<Rightarrow> ('w, zval) meth" where
  "ZipArchive_addGlob E stack args = zpp args (\<lambda>(pattern, glob_flags, options).
     php_zip_add_from_pattern E stack pattern options
       (php_zip_glob E pattern (dflt 0 glob_flags)))"

definition ZipArchive_addPattern ::
  "'w env \<Rightarrow> zip_options \<Rightarrow> (string \<times> string option \<times> hash_table option) option \<Rightarrow> ('w, zval) meth" where
  "ZipArchive_addPattern E stack args = zpp args (\<lambda>(pattern, path, options).
     php_zip_add_from_pattern E stack pattern options
       (php_zip_pcre E pattern (dflt ''.'' path)))"

section \<open>The other adding methods\<close>

definition ZipArchive_addFile ::
  "'w env \<Rightarrow> (string \<times> string option \<times> int option \<times> int option \<times> int option) option \<Rightarrow>
   ('w, zval) meth" where
  "ZipArchive_addFile E args = zpp args (\<lambda>(fname, entry_opt, start_opt, len_opt, flags_opt).
     if length fname = 0 then throws (Argument_value_error 1 ''cannot be empty'')
     else do {
       let entry = dflt [] entry_opt;
           entry_name = (if length entry = 0 then fname else entry) in do {
       r \<leftarrow> php_zip_add_file E fname entry_name (dflt 0 start_opt) (dflt 0 len_opt) (-1)
              (as_u32 (dflt (zc E ''ZIP_FL_OVERWRITE'') flags_opt));
       if r < 0 then ret IS_FALSE else ret IS_TRUE } })"

definition ZipArchive_replaceFile ::
  "'w env \<Rightarrow> (string \<times> int \<times> int option \<times> int option \<times> int option) option \<Rightarrow> ('w, zval) meth" where
  "ZipArchive_replaceFile E args = zpp args (\<lambda>(fname, index, start_opt, len_opt, flags_opt).
     if length fname = 0 then throws (Argument_value_error 1 ''cannot be empty'')
     else if index < 0
     then throws (Argument_value_error 2 ''must be greater than or equal to 0'')
     else do {
       r \<leftarrow> php_zip_add_file E fname [] (dflt 0 start_opt) (dflt 0 len_opt) index
              (as_u32 (dflt 0 flags_opt));
       if r < 0 then ret IS_FALSE else ret IS_TRUE })"

text \<open>\<open>safe_erealloc\<close> to \<open>n\<close> pointers: the old ones are kept, a new one is not set.\<close>

definition erealloc :: "'a option list \<Rightarrow> nat \<Rightarrow> 'a option list" where
  "erealloc xs n = take n xs @ replicate (n - length xs) None"

lemma erealloc_append:
  "(erealloc xs (Suc (length xs)))[length xs := Some b] = xs @ [Some b]"
  by (simp add: erealloc_def list_update_append)

lemma length_erealloc [simp]: "length (erealloc xs n) = n"
  by (simp add: erealloc_def)

text \<open>The object keeps a copy of the content, which libzip reads when the archive is closed: the
  copy goes to a new position at the end of \<open>buffers\<close>, which is the answer.\<close>

definition keep_buffer :: "string \<Rightarrow> ('w, nat) meth" where
  "keep_buffer buffer = do {
     obj \<leftarrow> get_self;
     let pos = (if buffers_cnt obj \<noteq> 0 then nat (buffers_cnt obj) else 0);
         old = (if buffers_cnt obj \<noteq> 0 then buffers obj else []) in do {
     modify_self (\<lambda>ob. ob\<lparr>buffers := (erealloc old (pos + 1))[pos := Some buffer],
                             buffers_cnt := buffers_cnt ob + 1\<rparr>);
     ret pos } }"

definition ZipArchive_addFromString ::
  "'w env \<Rightarrow> (string \<times> string \<times> int option) option \<Rightarrow> ('w, zval) meth" where
  "ZipArchive_addFromString E args = zpp args (\<lambda>(name, buffer, flags_opt).
     ZIP_FROM_OBJECT (\<lambda>intern. do {
       pos \<leftarrow> keep_buffer buffer;
       zs \<leftarrow> ptrcall E (Zip_source_buffer intern pos buffer 0);
       case zs of
         None \<Rightarrow> ret IS_FALSE
       | Some zs \<Rightarrow> do {
           id \<leftarrow> icall E (Zip_file_add (Some intern) (cstr name) zs
                   (as_u32 (dflt (zc E ''ZIP_FL_OVERWRITE'') flags_opt)));
           modify_self (last_id_update (\<lambda>_. id));
           if id = -1 then do { _ \<leftarrow> icall E (Zip_source_free zs); ret IS_FALSE }
           else do { _ \<leftarrow> icall E (Zip_error_clear (Some intern)); ret IS_TRUE } } }))"

definition ZipArchive_addEmptyDir :: "'w env \<Rightarrow> (string \<times> int option) option \<Rightarrow> ('w, zval) meth" where
  "ZipArchive_addEmptyDir E args = zpp args (\<lambda>(dirname, flags_opt).
     ZIP_FROM_OBJECT (\<lambda>intern.
       if length dirname < 1 then ret IS_FALSE
       else do {
         s \<leftarrow> ret (if dirname ! (length dirname - 1) \<noteq> CHR ''/'' then dirname @ ''/'' else dirname);
         id \<leftarrow> icall E (Zip_dir_add intern (cstr s) (as_u32 (dflt 0 flags_opt)));
         modify_self (last_id_update (\<lambda>_. id));
         if id = -1 then ret IS_FALSE
         else do { _ \<leftarrow> icall E (Zip_error_clear (Some intern)); ret IS_TRUE } }))"

section \<open>The options array\<close>

text \<open>The tables \<open>php_zip_parse_options\<close> accepts.\<close>

definition path_option_ok :: "'w env \<Rightarrow> hash_table \<Rightarrow> string \<Rightarrow> bool" where
  "path_option_ok E ht key = (case zend_hash_str_find ht key of
     None \<Rightarrow> True
   | Some (IS_STRING v) \<Rightarrow> v \<noteq> [] \<and> length v < maxpathlen E
   | Some _ \<Rightarrow> False)"

definition encryption_ok :: "hash_table \<Rightarrow> bool" where
  "encryption_ok ht \<longleftrightarrow> zend_hash_str_find ht ''enc_method'' = None \<or>
     (case zend_hash_str_find ht ''enc_password'' of
        None \<Rightarrow> True | Some (IS_STRING _) \<Rightarrow> True | Some _ \<Rightarrow> False)"

definition flags_ok :: "hash_table \<Rightarrow> bool" where
  "flags_ok ht = (case zend_hash_str_find ht ''flags'' of
     None \<Rightarrow> True | Some (IS_LONG _) \<Rightarrow> True | Some _ \<Rightarrow> False)"

definition options_ok :: "'w env \<Rightarrow> hash_table \<Rightarrow> bool" where
  "options_ok E ht \<longleftrightarrow> encryption_ok ht \<and> path_option_ok E ht ''remove_path'' \<and>
     path_option_ok E ht ''add_path'' \<and> flags_ok ht"

text \<open>What holds of the structure it fills, accepted or not: lengths match the paths, and a path
  is neither empty nor too long for a buffer.\<close>

definition path_field_ok :: "'w env \<Rightarrow> string option \<Rightarrow> nat \<Rightarrow> bool" where
  "path_field_ok E p n =
     (case p of None \<Rightarrow> n = 0 | Some v \<Rightarrow> n = length v \<and> v \<noteq> [] \<and> n < maxpathlen E)"

definition wf_options :: "'w env \<Rightarrow> zip_options \<Rightarrow> bool" where
  "wf_options E opts \<longleftrightarrow>
     path_field_ok E (remove_path opts) (remove_path_len opts) \<and>
     path_field_ok E (add_path opts) (add_path_len opts)"

lemma zip_path_option_cases:
  assumes "\<not> path_option_ok E ht key \<Longrightarrow> \<forall>e. Q None (s\<lparr>exn := Some e\<rparr>)"
    and "zend_hash_str_find ht key = None \<Longrightarrow> Q (Some None) s"
    and "\<And>v. zend_hash_str_find ht key = Some (IS_STRING v) \<Longrightarrow> path_option_ok E ht key \<Longrightarrow>
      v \<noteq> [] \<Longrightarrow> length v < maxpathlen E \<Longrightarrow> Q (Some (Some v)) s"
  shows "wp (zip_path_option E ht key) Q s"
proof (cases "zend_hash_str_find ht key")
  case None
  with assms(2) show ?thesis by (simp add: zip_path_option_def wp_return)
next
  case (Some x)
  show ?thesis
  proof (cases "\<exists>v. x = IS_STRING v \<and> v \<noteq> [] \<and> length v < maxpathlen E")
    case True
    then obtain v where "x = IS_STRING v" "v \<noteq> []" "length v < maxpathlen E" by blast
    with Some assms(3) [of v] show ?thesis
      by (simp add: zip_path_option_def path_option_ok_def wp_return)
  next
    case False
    with Some have "\<not> path_option_ok E ht key"
      by (auto simp: path_option_ok_def split: zval.split)
    with assms(1) have "\<forall>e. Q None (s\<lparr>exn := Some e\<rparr>)" by simp
    with Some False show ?thesis
      by (cases x) (auto simp: zip_path_option_def wp_simps)
  qed
qed

text \<open>The values of the options.\<close>

definition string_value :: "zval option \<Rightarrow> string option" where
  "string_value v = (case v of Some (IS_STRING p) \<Rightarrow> Some p | _ \<Rightarrow> None)"

definition options_of :: "'w env \<Rightarrow> hash_table \<Rightarrow> zip_options" where
  "options_of E ht =
     (let opt = zend_hash_str_find ht; long = (\<lambda>k d f. case opt k of None \<Rightarrow> d | Some v \<Rightarrow> f (zval_get_long E v)) in
      \<lparr>remove_all_path = long ''remove_all_path'' 0 (\<lambda>n. n),
       remove_path = string_value (opt ''remove_path''),
       remove_path_len = length (dflt [] (string_value (opt ''remove_path''))),
       add_path = string_value (opt ''add_path''),
       add_path_len = length (dflt [] (string_value (opt ''add_path''))),
       opt_flags = (case opt ''flags'' of Some (IS_LONG f) \<Rightarrow> as_u32 f | _ \<Rightarrow> as_u32 (zc E ''ZIP_FL_OVERWRITE'')),
       comp_method = long ''comp_method'' (-1) as_int,
       comp_flags = (if opt ''comp_method'' = None then 0 else long ''comp_flags'' 0 as_u32),
       enc_method = long ''enc_method'' (-1) as_i16,
       enc_password = (if opt ''enc_method'' = None then None else string_value (opt ''enc_password''))\<rparr>)"

abbreviation "only_trace t s \<equiv> world t = world s \<and> self t = self s \<and> exn t = exn s"

lemma wp_option_warning:
  assumes "\<And>tr. Q () (s\<lparr>trace := tr\<rparr>)"
  shows "wp (if b then option_warning E k ty v else ret ()) Q s"
  using assms [of "trace s"] assms by (auto simp: option_warning_def wp_simps)

lemma wp_bind_fun: "wp (State_Monad.bind m f) Q = wp m (\<lambda>a. wp (f a) Q)"
  by (rule ext) (rule wp_bind)

lemma parse_remove_all_stage:
  assumes "\<And>tr. Q ((default_options E)\<lparr>remove_all_path := remove_all_path (options_of E ht)\<rparr>)
    (s\<lparr>trace := tr\<rparr>)"
  shows "wp (case zend_hash_str_find ht ''remove_all_path'' of
        None \<Rightarrow> ret (default_options E)
      | Some v \<Rightarrow> do {
          (if \<not> is_bool v then option_warning E ''remove_all_path'' ''bool'' v else ret ());
          ret ((default_options E)\<lparr>remove_all_path := zval_get_long E v\<rparr>) }) Q s"
  using assms assms [of "trace s"]
  by (cases "zend_hash_str_find ht ''remove_all_path''")
     (simp_all add: wp_simps option_warning_def options_of_def Let_def default_options_def)

lemma parse_compression_stage:
  assumes "\<And>tr. Q (opts\<lparr>comp_method := comp_method (options_of E ht),
      comp_flags := comp_flags (options_of E ht)\<rparr>) (s\<lparr>trace := tr\<rparr>)"
    and "comp_method opts = -1" "comp_flags opts = 0"
  shows "wp (parse_compression_options E ht opts) Q s"
proof -
  show ?thesis
  proof (cases "zend_hash_str_find ht ''comp_method''")
    case None
    with assms(1) [of "trace s"] assms(2,3) show ?thesis
      by (cases opts) (simp add: parse_compression_options_def options_of_def Let_def wp_return)
  next
    case (Some v)
    with assms assms(1) [of "trace s"] show ?thesis
      by (cases "zend_hash_str_find ht ''comp_flags''"; cases opts)
         (auto simp: parse_compression_options_def options_of_def Let_def option_warning_def
           wp_simps)
  qed
qed

lemma parse_encryption_stage:
  fixes Q :: "bool \<times> zip_options \<Rightarrow> ('w, 'o) st \<Rightarrow> bool"
  assumes "\<And>tr. encryption_ok ht \<Longrightarrow> Q (True, opts\<lparr>enc_method := enc_method (options_of E ht),
      enc_password := enc_password (options_of E ht)\<rparr>) (s\<lparr>trace := tr\<rparr>)"
    and "\<And>tr e n. \<not> encryption_ok ht \<Longrightarrow> Q (False, opts\<lparr>enc_method := n\<rparr>) (s\<lparr>trace := tr, exn := Some e\<rparr>)"
    and "enc_method opts = -1" "enc_password opts = None"
  shows "wp (parse_encryption_options E ht opts) Q s"
proof (cases "zend_hash_str_find ht ''enc_method''")
  case None
  with assms(1) [of "trace s"] assms(3,4) show ?thesis
    by (cases opts) (simp add: parse_encryption_options_def options_of_def Let_def wp_return encryption_ok_def)
next
  case (Some v)
  show ?thesis
  proof (cases "zend_hash_str_find ht ''enc_password''")
    case None
    with Some assms assms(1) [of "trace s"] show ?thesis
      by (cases opts) (auto simp: parse_encryption_options_def options_of_def Let_def option_warning_def wp_simps
          string_value_def encryption_ok_def)
  next
    case p: (Some p)
    with Some assms assms(1) [of "trace s"] assms(2) [where tr = "trace s"] show ?thesis
      by (cases p) (auto simp: parse_encryption_options_def options_of_def Let_def option_warning_def wp_simps
          string_value_def encryption_ok_def)
  qed
qed

lemma parse_flags_stage:
  assumes "flags_ok ht \<Longrightarrow> Q (1, opts\<lparr>opt_flags := opt_flags (options_of E ht)\<rparr>) s"
    and "\<And>e. \<not> flags_ok ht \<Longrightarrow> Q (-1, opts) (s\<lparr>exn := Some e\<rparr>)"
    and "opt_flags opts = as_u32 (zc E ''ZIP_FL_OVERWRITE'')"
  shows "wp (parse_flags_option E ht opts) Q s"
proof (cases "zend_hash_str_find ht ''flags''")
  case None
  with assms show ?thesis
    by (cases opts) (simp add: parse_flags_option_def options_of_def Let_def flags_ok_def wp_return)
next
  case (Some v)
  with assms show ?thesis
    by (cases v) (auto simp: parse_flags_option_def options_of_def Let_def flags_ok_def wp_simps)
qed

lemma wf_options_of: "path_option_ok E ht ''remove_path'' \<Longrightarrow> path_option_ok E ht ''add_path'' \<Longrightarrow>
    wf_options E (options_of E ht)"
  by (auto simp: wf_options_def options_of_def path_field_ok_def path_option_ok_def string_value_def
      Let_def split: option.splits zval.splits)

definition parsed :: "'w env \<Rightarrow> hash_table \<Rightarrow> ('w, 'o) st \<Rightarrow> int \<times> zip_options \<Rightarrow> ('w, 'o) st \<Rightarrow> bool" where
  "parsed E ht s = (\<lambda>(r, opts) s'.
     world s' = world s \<and> self s' = self s \<and> wf_options E opts \<and>
     (if options_ok E ht then r = 1 \<and> exn s' = exn s \<and> opts = options_of E ht
      else r = -1 \<and> exn s' \<noteq> None))"

lemmas option_record_defs = options_of_def string_value_def default_options_def Let_def

lemma parse_flags_rest:
  assumes "opts = (options_of E ht)\<lparr>opt_flags := as_u32 (zc E ''ZIP_FL_OVERWRITE'')\<rparr>" "encryption_ok ht"
    "path_option_ok E ht ''remove_path''" "path_option_ok E ht ''add_path''"
    "t = s\<lparr>trace := tr\<rparr>"
  shows "wp (parse_flags_option E ht opts) (parsed E ht s) t"
  using assms wf_options_of [OF assms(3,4)]
  by (intro parse_flags_stage) (auto simp: parsed_def options_ok_def wf_options_def)

lemma parse_add_rest:
  assumes "opts = (options_of E ht)\<lparr>opt_flags := as_u32 (zc E ''ZIP_FL_OVERWRITE''), add_path := None, add_path_len := 0\<rparr>"
    "encryption_ok ht" "path_option_ok E ht ''remove_path''" "t = s\<lparr>trace := tr\<rparr>"
  shows "wp (do { ap \<leftarrow> zip_path_option E ht ''add_path'';
     case ap of
       None \<Rightarrow> ret (-1, opts)
     | Some av \<Rightarrow> do {
         opts \<leftarrow> ret (case av of None \<Rightarrow> opts
           | Some v \<Rightarrow> opts\<lparr>add_path_len := length v, add_path := Some v\<rparr>);
         parse_flags_option E ht opts } }) (parsed E ht s) t"
  unfolding wp_bind
proof (rule zip_path_option_cases, goal_cases)
  case 1
  have "path_field_ok E (remove_path (options_of E ht)) (remove_path_len (options_of E ht))"
    using assms(3) by (auto simp: option_record_defs path_field_ok_def path_option_ok_def split: option.splits zval.splits)
  with 1 assms show ?case
    by (auto simp: parsed_def wp_return options_ok_def wf_options_def path_field_ok_def split: option.splits)
next
  case 2
  then have "opts = (options_of E ht)\<lparr>opt_flags := as_u32 (zc E ''ZIP_FL_OVERWRITE'')\<rparr>"
    using assms(1) by (cases "options_of E ht") (simp add: option_record_defs)
  with 2 assms show ?case
    by (simp only: option.case wp_return wp_bind) (rule parse_flags_rest, auto simp: path_option_ok_def)
next
  case (3 v)
  then have "opts\<lparr>add_path_len := length v, add_path := Some v\<rparr> =
      (options_of E ht)\<lparr>opt_flags := as_u32 (zc E ''ZIP_FL_OVERWRITE'')\<rparr>"
    using assms(1) by (cases "options_of E ht") (simp add: option_record_defs)
  with 3 assms show ?case
    by (simp only: option.case wp_return wp_bind) (rule parse_flags_rest, auto simp: path_option_ok_def)
qed

lemma parse_remove_rest:
  assumes "opts = ((default_options E)\<lparr>remove_all_path := remove_all_path (options_of E ht),
    comp_method := comp_method (options_of E ht), comp_flags := comp_flags (options_of E ht),
    enc_method := enc_method (options_of E ht), enc_password := enc_password (options_of E ht)\<rparr>)" "encryption_ok ht" "t = s\<lparr>trace := tr\<rparr>"
  shows "wp (do { rp \<leftarrow> zip_path_option E ht ''remove_path'';
     case rp of
       None \<Rightarrow> ret (-1, opts)
     | Some rv \<Rightarrow> do {
         opts \<leftarrow> ret (case rv of None \<Rightarrow> opts
           | Some v \<Rightarrow> opts\<lparr>remove_path_len := length v, remove_path := Some v\<rparr>);
         ap \<leftarrow> zip_path_option E ht ''add_path'';
         case ap of
           None \<Rightarrow> ret (-1, opts)
         | Some av \<Rightarrow> do {
             opts \<leftarrow> ret (case av of None \<Rightarrow> opts
               | Some v \<Rightarrow> opts\<lparr>add_path_len := length v, add_path := Some v\<rparr>);
             parse_flags_option E ht opts } } }) (parsed E ht s) t"
  unfolding wp_bind [of "zip_path_option E ht ''remove_path''"]
proof (rule zip_path_option_cases, goal_cases)
  case 1
  with assms show ?case
    by (auto simp: parsed_def wp_return options_ok_def wf_options_def path_field_ok_def default_options_def)
next
  case 2
  then have "opts = (options_of E ht)\<lparr>opt_flags := as_u32 (zc E ''ZIP_FL_OVERWRITE''), add_path := None, add_path_len := 0\<rparr>"
    using assms(1) by (cases "options_of E ht") (simp add: option_record_defs)
  with 2 assms show ?case
    by (simp only: option.case wp_return wp_bind [of "ret _"]) (rule parse_add_rest, auto simp: path_option_ok_def)
next
  case (3 v)
  then have "opts\<lparr>remove_path_len := length v, remove_path := Some v\<rparr> =
      (options_of E ht)\<lparr>opt_flags := as_u32 (zc E ''ZIP_FL_OVERWRITE''), add_path := None, add_path_len := 0\<rparr>"
    using assms(1) by (cases "options_of E ht") (simp add: option_record_defs)
  with 3 assms show ?case
    by (simp only: option.case wp_return wp_bind [of "ret _"]) (rule parse_add_rest, auto simp: path_option_ok_def)
qed


section \<open>Names of added entries\<close>

text \<open>The name an added file gets with an \<open>add_path\<close>: the path and what is left of the
  file's name, rejected when they have more than MAXPATHLEN characters together and complete when
  they have fewer. With exactly MAXPATHLEN characters the check passes and \<open>snprintf\<close>
  cuts the last character off: the warning's own limit is MAXPATHLEN - 1.\<close>

theorem entry_name_of_add_path:
  assumes "add_path opts = Some ap" and "add_path_len opts = length ap"
    and "CHR 0x00 \<notin> set ap" and "CHR 0x00 \<notin> set (file_stripped E opts file)"
  shows "entry_name_of E opts file =
    (let name = ap @ file_stripped E opts file in
     if length name > maxpathlen E then None
     else if length name = maxpathlen E then Some (butlast name)
     else Some name)"
proof -
  have nul: "cstr s = s" if "CHR 0x00 \<notin> set s" for s
    using that unfolding cstr_def by (intro takeWhile_eq_all_conv [THEN iffD2]) auto
  show ?thesis
    using assms by (auto simp: entry_name_of_def Let_def snprintf_trunc_def nul butlast_conv_take)
qed

definition adding_options :: zip_options where
  "adding_options = \<lparr>remove_all_path = 0, remove_path = Some ''/srv/www'', remove_path_len = 8,
     add_path = Some ''backup/'', add_path_len = 7, opt_flags = 0, comp_method = -1,
     comp_flags = 0, enc_method = -1, enc_password = None\<rparr>"

theorem entry_name_of_add_path_witness:
  "entry_name_of (demo_env\<lparr>maxpathlen := 14\<rparr>) adding_options ''/srv/www/page.md'' = Some ''backup/page.m''"
proof -
  let ?E = "demo_env\<lparr>maxpathlen := 14\<rparr>"
  have st: "file_stripped ?E adding_options ''/srv/www/page.md'' = ''page.md''"
    by (simp add: file_stripped_def adding_options_def cstr_def demo_env_def char_at_def)
  show ?thesis
    using entry_name_of_add_path [of adding_options "''backup/''" ?E "''/srv/www/page.md''"]
    by (simp add: st) (simp add: adding_options_def demo_env_def)
qed

text \<open>A file below the directory given as \<open>remove_path\<close> is added under its name from
  there: for a file \<open>dir/rest\<close> the part left is \<open>rest\<close>.\<close>

theorem file_stripped_below:
  assumes "remove_all_path opts = 0" and "remove_path opts = Some dir"
    and "remove_path_len opts = length dir" and "CHR 0x00 \<notin> set dir"
    and "is_slash E sl" and "file = dir @ sl # rest"
  shows "file_stripped E opts file = rest"
proof -
  have "cstr (dir @ sl # rest) = dir @ cstr (sl # rest)" and "cstr dir = dir"
    using assms(4) unfolding cstr_def by (auto simp: takeWhile_append takeWhile_eq_all_conv)
  then have "strstr_found (cstr file) (cstr dir)"
    by (simp add: assms(6) strstr_found_prefix)
  with assms show ?thesis by (simp add: file_stripped_def char_at_def)
qed

theorem file_stripped_below_witness:
  "file_stripped demo_env adding_options ''/srv/www/page.md'' = ''page.md''"
  using file_stripped_below [of adding_options "''/srv/www''" demo_env "CHR ''/''"
      "''/srv/www/page.md''" "''page.md''"]
  by (simp add: adding_options_def demo_env_def)

text \<open>The match is looked for anywhere in the name, while the characters are cut from its
  start: a file that has the path in its middle loses as many leading characters.\<close>

theorem file_stripped_infix:
  assumes "remove_all_path opts = 0" and "remove_path opts = Some dir"
    and "remove_path_len opts = length dir"
    and "file = pre @ dir @ rest" and "CHR 0x00 \<notin> set (pre @ dir)"
    and "\<not> is_slash E (char_at file (length dir))"
  shows "file_stripped E opts file = drop (length dir) file"
proof -
  have "cstr file = pre @ dir @ cstr rest" and "cstr dir = dir"
    using assms(4,5) unfolding cstr_def by (auto simp: takeWhile_append takeWhile_eq_all_conv)
  then have "strstr_found (cstr file) (cstr dir)" by (simp add: strstr_found_infix)
  with assms show ?thesis by (simp add: file_stripped_def)
qed

theorem file_stripped_infix_witness:
  "file_stripped demo_env adding_options ''/var/x/srv/www/page.md'' = ''rv/www/page.md''"
  using file_stripped_infix [of adding_options "''/srv/www''" "''/var/x/srv/www/page.md''"
      "''/var/x''" "''/page.md''" demo_env]
  by (simp add: adding_options_def demo_env_def char_at_def)

section \<open>Listing\<close>

lemma wp_glob_loop:
  fixes E :: "'w env" and s :: "('w, 'o) st"
  shows "wp (glob_loop E f k ps) (\<lambda>xs s'. subseq xs (map (\<lambda>p. IS_STRING (drop k p)) ps) \<and>
     (f AND zc E ''GLOB_ONLYDIR'' = 0 \<longrightarrow> xs = map (\<lambda>p. IS_STRING (drop k p)) ps)) s"
proof (induction ps arbitrary: s)
  case (Cons p ps)
  have rest: "wp (do { rest \<leftarrow> glob_loop E f k ps;
       ret (if keep then IS_STRING (drop k p) # rest else rest) })
     (\<lambda>xs s'. subseq xs (map (\<lambda>p. IS_STRING (drop k p)) (p # ps)) \<and>
       (f AND zc E ''GLOB_ONLYDIR'' = 0 \<longrightarrow> xs = map (\<lambda>p. IS_STRING (drop k p)) (p # ps))) s"
    if "f AND zc E ''GLOB_ONLYDIR'' = 0 \<longrightarrow> keep"
    for keep and s :: "('w, 'o) st"
    unfolding wp_bind by (rule wp_mono [OF Cons.IH]) (use that in \<open>auto simp: wp_return\<close>)
  show ?case
  proof (cases "f AND zc E ''GLOB_ONLYDIR'' = 0")
    case True
    with rest [of True] show ?thesis by (simp add: wp_bind wp_return)
  next
    case False
    obtain r st w where q: "sys_q E (Vcwd_stat p) (world s) = ((r, st), w)" by (metis prod.exhaust)
    show ?thesis
      using rest [of "r = 0 \<and> st_isdir st" "s\<lparr>world := w, trace := trace s @ [Ev_q (Vcwd_stat p) r]\<rparr>"] False q
      by (simp add: wp_bind wp_return qcall_def wp_perform)
  qed
qed (simp add: wp_return)

text \<open>The answers of a listing: nothing, or the array of the paths.\<close>

definition lists_paths :: "'w env \<Rightarrow> int \<Rightarrow> int \<times> zval \<Rightarrow> bool" where
  "lists_paths E flags = (\<lambda>(n, v). v = IS_NULL \<and> n \<le> 0 \<or>
     (\<exists>paths k xs. v = IS_ARRAY (packed_array xs) \<and> n = as_int (int (length paths)) \<and>
        subseq xs (map (\<lambda>p. IS_STRING (drop k p)) paths) \<and>
        (flags AND zc E ''GLOB_ONLYDIR'' = 0 \<longrightarrow> xs = map (\<lambda>p. IS_STRING (drop k p)) paths) \<and>
        (\<not> zts E \<longrightarrow> k = 0)))"

lemma lists_pathsI:
  "subseq xs (map (\<lambda>p. IS_STRING (drop k p)) ps) \<Longrightarrow>
   (flags AND zc E ''GLOB_ONLYDIR'' = 0 \<longrightarrow> xs = map (\<lambda>p. IS_STRING (drop k p)) ps) \<Longrightarrow>
   (\<not> zts E \<longrightarrow> k = 0) \<Longrightarrow>
   lists_paths E flags (as_int (int (length ps)), IS_ARRAY (packed_array xs))"
  unfolding lists_paths_def by blast

lemma lists_paths_none: "n \<le> 0 \<Longrightarrow> lists_paths E flags (n, IS_NULL)"
  "lists_paths E flags (0, IS_ARRAY [])"
  using lists_pathsI [of "[]" 0 "[]" flags E]
  by (simp_all add: lists_paths_def as_int_def packed_array_def)

lemma glob_listing_tail:
  assumes "\<not> zts E \<longrightarrow> k = 0"
  shows "wp (do { (r, gl_pathv) \<leftarrow> lcall E c;
        if r \<noteq> 0 then
          (if r = zc E ''GLOB_NOMATCH'' then ret (0, IS_ARRAY []) else ret (0, IS_NULL))
        else (case gl_pathv of
            [] \<Rightarrow> ret (0, IS_ARRAY [])
          | first # _ \<Rightarrow> do {
              denied \<leftarrow> ZIP_OPENBASEDIR_CHECKPATH E first;
              if denied then ret (-1, IS_NULL)
              else do {
                xs \<leftarrow> glob_loop E flags k gl_pathv;
                ret (as_int (int (length gl_pathv)), IS_ARRAY (packed_array xs)) } }) })
     (\<lambda>a s'. lists_paths E flags a) t"
proof -
  obtain r ps w where l: "sys_l E c (world t) = ((r, ps), w)" by (metis prod.exhaust)
  have loop: "wp (glob_loop E flags k ps) (\<lambda>xs. wp (ret (as_int (int (length ps)),
      IS_ARRAY (packed_array xs))) (\<lambda>a s'. lists_paths E flags a)) t" for ps t
    by (rule wp_mono [OF wp_glob_loop]) (use assms in \<open>auto simp: wp_return intro: lists_pathsI\<close>)
  from l show ?thesis
  proof (cases ps)
    case (Cons p qs)
    with l loop [of "p # qs"] show ?thesis
      by (auto simp: wp_bind wp_perform lcall_def fcall_def ZIP_OPENBASEDIR_CHECKPATH_def wp_return
          lists_paths_none simp del: glob_loop.simps split: prod.split)
  qed (simp add: wp_bind wp_return wp_perform lcall_def lists_paths_none)
qed

text \<open>What the listing of addGlob gives: nothing, or an array of the paths that
  \<open>glob\<close> answered, in its order, without the current directory in front where the code put
  it, and all of them unless only directories were asked for; the count is that of \<open>glob\<close>.\<close>

theorem php_zip_glob_lists:
  "wp (php_zip_glob E pattern flags) (\<lambda>(n, v) s'.
     v = IS_NULL \<and> n \<le> 0 \<or>
     (\<exists>paths k xs. v = IS_ARRAY (packed_array xs) \<and> n = as_int (int (length paths)) \<and>
        (if flags AND zc E ''GLOB_ONLYDIR'' = 0 then xs = map (\<lambda>p. IS_STRING (drop k p)) paths
         else subseq xs (map (\<lambda>p. IS_STRING (drop k p)) paths)) \<and>
        (zts E \<or> k = 0))) s"
proof -
  have "wp (php_zip_glob E pattern flags) (\<lambda>a s'. lists_paths E flags a) s"
    unfolding php_zip_glob_def prefix_cwd_def Let_def
    by (cases "zts E \<and> \<not> is_absolute_path E pattern")
       (auto simp: wp_bind [of "ret _"] wp_bind [of "php_error_docref _ _ _"] wp_return
         wp_php_error_docref lists_paths_none glob_listing_tail wp_bind [of "State_Monad.bind _ _"]
         wp_bind [of "perform _ _"] tcall_def wp_perform split: prod.split)
  then show ?thesis by (rule wp_mono) (auto simp: lists_paths_def)
qed

section \<open>What is given to libzip\<close>

text \<open>The sources made and the sources freed, and the names of the entries that were added.\<close>

fun source_made :: "event \<Rightarrow> zip_source_t option" where
  "source_made (Ev_p (Zip_source_file _ _ _ _) r) = r"
| "source_made (Ev_p (Zip_source_buffer _ _ _ _) r) = r"
| "source_made _ = None"

fun source_freed :: "event \<Rightarrow> zip_source_t option" where
  "source_freed (Ev_i (Zip_source_free zs) _) = Some zs"
| "source_freed _ = None"

text \<open>libzip takes over the source of an entry it added or replaced.\<close>

fun source_taken :: "event \<Rightarrow> zip_source_t option" where
  "source_taken (Ev_i (Zip_file_add _ _ zs _) r) = (if r \<ge> 0 then Some zs else None)"
| "source_taken (Ev_i (Zip_file_replace _ _ zs _) r) = (if r \<ge> 0 then Some zs else None)"
| "source_taken _ = None"

fun added_name :: "event \<Rightarrow> string option" where
  "added_name (Ev_i (Zip_file_add _ n _ _) r) = (if r \<ge> 0 then Some n else None)"
| "added_name _ = None"

text \<open>\<open>php_zip_add_file\<close> never loses a source: each one it makes is either taken over by
  libzip, in which case it answers 1, or freed once, in which case it answers -1; and an entry is
  added under the name given exactly when the answer is 1 and no index to replace was given.\<close>

theorem add_file_source_ownership:
  "wp (php_zip_add_file E fname entry_name start len replace flags) (\<lambda>r s'. \<exists>tr.
     trace s' = trace s @ tr \<and> (r = 1 \<or> r = -1) \<and>
     picks source_made tr = picks source_taken tr @ picks source_freed tr \<and>
     (r = 1 \<longleftrightarrow> picks source_taken tr \<noteq> []) \<and>
     picks added_name tr = (if r = 1 \<and> replace < 0 then [cstr entry_name] else [])) s"
  by (auto simp: php_zip_add_file_def wp_simps call_defs split: prod.split)

lemma wp_add_file_names:
  "wp (php_zip_add_file E fname entry_name start len (-1) flags) (\<lambda>r s'.
     picks added_name (trace s') = picks added_name (trace s) @ (if r \<ge> 0 then [cstr entry_name] else [])) s"
  by (auto simp: php_zip_add_file_def wp_simps call_defs split: prod.split)

lemma wp_add_found_file_names:
  "wp (add_found_file E opts file) (\<lambda>ok s'.
     \<not> ok \<and> picks added_name (trace s') = picks added_name (trace s) \<or>
     (\<exists>n. entry_name_of E opts file = Some n \<and>
       picks added_name (trace s') = picks added_name (trace s) @ [cstr n])) s"
proof (cases "entry_name_of E opts file")
  case None
  then show ?thesis by (simp add: add_found_file_def wp_simps)
next
  case (Some n)
  show ?thesis
    unfolding add_found_file_def Some option.case wp_bind
    by (rule wp_mono [OF wp_add_file_names])
       (auto simp: wp_simps call_defs split: prod.split)
qed

fun files_at :: "hash_table \<Rightarrow> int list \<Rightarrow> string list" where
  "files_at arr [] = []"
| "files_at arr (i # js) = (case zend_hash_index_find arr i of
     Some (IS_STRING f) \<Rightarrow> f # files_at arr js | _ \<Rightarrow> files_at arr js)"

text \<open>addGlob and addPattern add the files they found, in order and under the names the
  options give them, one successful \<open>zip_file_add\<close> per file: all of them when the loop over the
  files ends well, otherwise those before the file that failed (and this one, when it was added and
  its compression or encryption was refused).\<close>

theorem add_loop_adds_all:
  "wp (add_loop E opts arr js) (\<lambda>ok s'. \<exists>names k. k \<le> length (files_at arr js) \<and>
     map (entry_name_of E opts) (take k (files_at arr js)) = map Some names \<and>
     picks added_name (trace s') = picks added_name (trace s) @ map cstr names \<and>
     (if ok then k = length (files_at arr js) else True)) s"
proof (induction js arbitrary: s)
  case (Cons i js)
  let ?post = "\<lambda>fs t ok s'. \<exists>names k. k \<le> length fs \<and>
     map (entry_name_of E opts) (take k fs) = map Some names \<and>
     picks added_name (trace s') = picks added_name (trace t) @ map cstr names \<and>
     (if ok then k = length fs else True)"
  show ?case
  proof (cases "\<exists>f. zend_hash_index_find arr i = Some (IS_STRING f)")
    case True
    then obtain f where f: "zend_hash_index_find arr i = Some (IS_STRING f)" by blast
    have more: "?post (f # files_at arr js) s ok s'"
      if "entry_name_of E opts f = Some n" "?post (files_at arr js) t ok s'"
        "picks added_name (trace t) = picks added_name (trace s) @ [cstr n]" for n t ok s'
    proof -
      from that(2) obtain names k where "k \<le> length (files_at arr js)"
        "map (entry_name_of E opts) (take k (files_at arr js)) = map Some names"
        "picks added_name (trace s') = picks added_name (trace t) @ map cstr names"
        "if ok then k = length (files_at arr js) else True" by blast
      with that(1,3) show ?thesis
        by (intro exI [of _ "n # names"] exI [of _ "Suc k"]) (simp split: if_splits)
    qed
    have stop: "?post (f # fs) s False t" if "picks added_name (trace t) = picks added_name (trace s)" for fs t
      using that by (intro exI [of _ "[]"] exI [of _ 0]) simp
    have one: "?post (f # fs) s False t" if "entry_name_of E opts f = Some n"
      "picks added_name (trace t) = picks added_name (trace s) @ [cstr n]" for fs n t
      using that by (intro exI [of _ "[n]"] exI [of _ 1]) simp
    have rest: "wp (add_loop E opts arr js) (\<lambda>ok s'. ?post (f # files_at arr js) s ok s') t"
      if "entry_name_of E opts f = Some n"
        "picks added_name (trace t) = picks added_name (trace s) @ [cstr n]" for n t
      by (rule wp_mono [OF Cons.IH [of t]]) (rule more [OF that(1) _ that(2)])
    have step: "wp (if ok then add_loop E opts arr js else ret False)
        (\<lambda>ok s'. ?post (f # files_at arr js) s ok s') t"
      if "\<not> ok \<and> picks added_name (trace t) = picks added_name (trace s) \<or>
        (\<exists>n. entry_name_of E opts f = Some n \<and>
          picks added_name (trace t) = picks added_name (trace s) @ [cstr n])" for ok t
    proof (cases ok)
      case False
      from that show ?thesis
      proof (elim disjE exE conjE)
        assume "picks added_name (trace t) = picks added_name (trace s)"
        from stop [OF this] False show ?thesis by (simp only: wp_return if_False)
      next
        fix n assume "entry_name_of E opts f = Some n"
          "picks added_name (trace t) = picks added_name (trace s) @ [cstr n]"
        from one [OF this] False show ?thesis by (simp only: wp_return if_False)
      qed
    next
      case True
      with that obtain n where "entry_name_of E opts f = Some n"
        "picks added_name (trace t) = picks added_name (trace s) @ [cstr n]" by blast
      from rest [OF this] True show ?thesis by (simp only: if_True)
    qed
    show ?thesis
      unfolding add_loop.simps files_at.simps f option.case zval.case wp_bind
      by (rule wp_mono [OF wp_add_found_file_names], rule step)
  next
    case False
    then have "add_loop E opts arr (i # js) = add_loop E opts arr js"
      "files_at arr (i # js) = files_at arr js" by (auto split: option.split zval.split)
    with Cons.IH [of s] show ?thesis by (simp only:)
  qed
qed (simp add: wp_return)

section \<open>Copies kept for libzip\<close>

lemma wp_keep_buffer:
  assumes "buffers_cnt (self s) = int (length (buffers (self s)))"
  shows "wp (keep_buffer b) Q s =
     Q (length (buffers (self s)))
       (s\<lparr>self := (self s)\<lparr>buffers := buffers (self s) @ [Some b],
          buffers_cnt := int (length (buffers (self s))) + 1\<rparr>\<rparr>)"
  using erealloc_append [of "buffers (self s)" b] assms
  by (auto simp: keep_buffer_def wp_simps)

text \<open>addFromString gives libzip a copy that stays: the copy goes behind those of the earlier
  calls, which stay where they are, and the source is made over this position; the answer is TRUE
  exactly when libzip made the source and added the entry, and a source whose entry was refused
  is freed, while the copy is kept in any case until the object goes.\<close>

theorem addFromString_keeps_copy:
  assumes "za (self s) = Some h" and "buffers_cnt (self s) = int (length (buffers (self s)))"
  shows "wp (ZipArchive_addFromString E (Some (name, content, fl))) (\<lambda>r s'. \<exists>tr.
     trace s' = trace s @ tr \<and>
     buffers (self s') = buffers (self s) @ [Some content] \<and>
     buffers_cnt (self s') = int (length (buffers (self s'))) \<and>
     (\<exists>zs. Ev_p (Zip_source_buffer h (length (buffers (self s))) content 0) zs \<in> set tr) \<and>
     (r = IS_TRUE \<and> (\<exists>zs i fg. i \<noteq> -1 \<and> Ev_i (Zip_file_add (Some h) (cstr name) zs fg) i \<in> set tr) \<or>
      r = IS_FALSE \<and> picks source_freed tr = picks source_made tr)) s"
  using assms
  by (auto simp: ZipArchive_addFromString_def wp_simps wp_keep_buffer call_defs split: prod.split)

theorem addFromString_keeps_copy_witness:
  "wp (ZipArchive_addFromString demo_env (Some (''n'', ''xyz'', None)))
    (\<lambda>r s'. buffers (self s') = [Some ''abc'', Some ''xyz''] \<and> buffers_cnt (self s') = 2)
    (start_state ((php_zip_object_new [])\<lparr>za := Some 7, buffers := [Some ''abc''], buffers_cnt := 1\<rparr>))"
  (is "wp _ _ ?s")
proof -
  have "za (self ?s) = Some 7" "buffers_cnt (self ?s) = int (length (buffers (self ?s)))"
    by (simp_all add: start_state_def)
  from addFromString_keeps_copy [OF this, of demo_env "''n''" "''xyz''" None] show ?thesis
    by (rule wp_mono) (auto simp: start_state_def)
qed

text \<open>addEmptyDir adds a name that ends in one slash: the name given when it does, else the name
  with a slash.\<close>

theorem addEmptyDir_adds_slash:
  assumes "za (self s) = Some h" and "CHR 0x00 \<notin> set dir" and "dir \<noteq> []"
  shows "wp (ZipArchive_addEmptyDir E (Some (dir, fl))) (\<lambda>r s'. \<exists>i.
     Ev_i (Zip_dir_add h (if last dir = CHR ''/'' then dir else dir @ ''/'') (as_u32 (dflt 0 fl))) i
       \<in> set (trace s') \<and>
     last_id (self s') = i \<and> r = RETURN_BOOL (i \<noteq> -1)) s"
proof -
  have nul: "cstr s = s" if "CHR 0x00 \<notin> set s" for s
    using that unfolding cstr_def by (intro takeWhile_eq_all_conv [THEN iffD2]) auto
  have "cstr dir = dir" "cstr (dir @ ''/'') = dir @ ''/''"
    using assms(2) by (simp_all add: nul)
  then show ?thesis
    using assms by (auto simp: ZipArchive_addEmptyDir_def wp_simps call_defs last_conv_nth RETURN_BOOL_def
        split: prod.split)
qed

theorem addEmptyDir_adds_slash_witness:
  "wp (ZipArchive_addEmptyDir demo_env (Some (''sub'', None)))
    (\<lambda>r s'. r = IS_TRUE \<and> Ev_i (Zip_dir_add 7 ''sub/'' 0) 0 \<in> set (trace s'))
    (start_state ((php_zip_object_new [])\<lparr>za := Some 7\<rparr>))" (is "wp _ _ ?s")
proof -
  have "za (self ?s) = Some 7" by (simp add: start_state_def)
  from addEmptyDir_adds_slash [OF this, of "''sub''" demo_env None]
  have "wp (ZipArchive_addEmptyDir demo_env (Some (''sub'', None))) (\<lambda>r s'. \<exists>i.
     Ev_i (Zip_dir_add 7 ''sub/'' 0) i \<in> set (trace s') \<and>
     last_id (self s') = i \<and> r = RETURN_BOOL (i \<noteq> -1)) ?s" by (simp add: as_u32_def)
  moreover have "wp (ZipArchive_addEmptyDir demo_env (Some (''sub'', None)))
     (\<lambda>r s'. last_id (self s') = 0) ?s"
    by (simp add: wp_def ZipArchive_addEmptyDir_def ZIP_FROM_OBJECT_def run_defs)
  ultimately show ?thesis
    by (rule wp_mono [OF wp_conj]) (auto simp: RETURN_BOOL_def)
qed

end
