(* ===== verification/Zip_Entry.thy ===== *)
theory Zip_Entry
  imports Zip_Object
begin

text \<open>
  The ZipArchive methods that look up, describe, change, rename, delete and revert the entries
  of an open archive (ext/php_zip.c). A \<open>zend_long\<close> argument goes through the conversion
  of the parameter type in libzip's prototype: \<open>zip_uint64_t\<close> for an index,
  \<open>zip_uint32_t\<close> for flags, and so on.
\<close>

section \<open>The lookup macros\<close>

definition PHP_ZIP_STAT_INDEX ::
  "'w env \<Rightarrow> zip_t \<Rightarrow> int \<Rightarrow> int \<Rightarrow> (zip_stat \<Rightarrow> ('w, zval) meth) \<Rightarrow> ('w, zval) meth" where
  "PHP_ZIP_STAT_INDEX E h index flags k = do {
     (r, sb) \<leftarrow> scall E (Zip_stat_index h (as_u64 index) (as_u32 flags));
     if r \<noteq> 0 then ret IS_FALSE else k sb }"

definition PHP_ZIP_STAT_PATH ::
  "'w env \<Rightarrow> zip_t \<Rightarrow> string \<Rightarrow> int \<Rightarrow> (zip_stat \<Rightarrow> ('w, zval) meth) \<Rightarrow> ('w, zval) meth" where
  "PHP_ZIP_STAT_PATH E h path flags k =
     (if length path = 0 then throws (Argument_value_error 1 ''cannot be empty'')
      else do {
        (r, sb) \<leftarrow> scall E (Zip_stat h (cstr path) (as_u32 flags));
        if r \<noteq> 0 then ret IS_FALSE else k sb })"

definition PHP_ZIP_SET_FILE_COMMENT ::
  "'w env \<Rightarrow> zip_t \<Rightarrow> int \<Rightarrow> string \<Rightarrow> ('w, zval) meth" where
  "PHP_ZIP_SET_FILE_COMMENT E h index comment =
     (if length comment = 0 then do {
        r \<leftarrow> icall E (Zip_file_set_comment h (as_u64 index) None 0 0);
        if r < 0 then ret IS_FALSE else ret IS_TRUE }
      else do {
        r \<leftarrow> icall E (Zip_file_set_comment h (as_u64 index) (Some comment)
               (as_u16 (int (length comment))) 0);
        if r < 0 then ret IS_FALSE else ret IS_TRUE })"

definition RETURN_SB :: "zip_stat \<Rightarrow> zval" where
  "RETURN_SB sb = IS_ARRAY
     [(HStr ''name'', IS_STRING (cstr (sb_name sb))),
      (HStr ''index'', IS_LONG (as_long (sb_index sb))),
      (HStr ''crc'', IS_LONG (as_long (sb_crc sb))),
      (HStr ''size'', IS_LONG (as_long (sb_size sb))),
      (HStr ''mtime'', IS_LONG (as_long (sb_mtime sb))),
      (HStr ''comp_size'', IS_LONG (as_long (sb_comp_size sb))),
      (HStr ''comp_method'', IS_LONG (as_long (sb_comp_method sb))),
      (HStr ''encryption_method'', IS_LONG (as_long (sb_encryption_method sb)))]"

section \<open>Describing and locating\<close>

definition ZipArchive_statName :: "'w env \<Rightarrow> (string \<times> int option) option \<Rightarrow> ('w, zval) meth" where
  "ZipArchive_statName E args = zpp args (\<lambda>(name, flags_opt).
     ZIP_FROM_OBJECT (\<lambda>intern.
       PHP_ZIP_STAT_PATH E intern name (dflt 0 flags_opt) (\<lambda>sb. ret (RETURN_SB sb))))"

definition ZipArchive_statIndex :: "'w env \<Rightarrow> (int \<times> int option) option \<Rightarrow> ('w, zval) meth" where
  "ZipArchive_statIndex E args = zpp args (\<lambda>(index, flags_opt).
     ZIP_FROM_OBJECT (\<lambda>intern. do {
       (r, sb) \<leftarrow> scall E (Zip_stat_index intern (as_u64 index) (as_u32 (dflt 0 flags_opt)));
       if r \<noteq> 0 then ret IS_FALSE else ret (RETURN_SB sb) }))"

definition ZipArchive_locateName :: "'w env \<Rightarrow> (string \<times> int option) option \<Rightarrow> ('w, zval) meth" where
  "ZipArchive_locateName E args = zpp args (\<lambda>(name, flags_opt).
     ZIP_FROM_OBJECT (\<lambda>intern.
       if length name < 1 then ret IS_FALSE
       else do {
         r \<leftarrow> icall E (Zip_name_locate intern (cstr name) (as_u32 (dflt 0 flags_opt)));
         let idx = as_long r in
         if idx \<ge> 0 then ret (IS_LONG idx) else ret IS_FALSE }))"

definition ZipArchive_getNameIndex :: "'w env \<Rightarrow> (int \<times> int option) option \<Rightarrow> ('w, zval) meth" where
  "ZipArchive_getNameIndex E args = zpp args (\<lambda>(index, flags_opt).
     ZIP_FROM_OBJECT (\<lambda>intern. do {
       name \<leftarrow> tcall E (Zip_get_name intern (as_u64 (as_int index)) (as_u32 (dflt 0 flags_opt)));
       case name of Some n \<Rightarrow> ret (IS_STRING (cstr n)) | None \<Rightarrow> ret IS_FALSE }))"

section \<open>Comments\<close>

definition ZipArchive_setArchiveComment :: "'w env \<Rightarrow> string option \<Rightarrow> ('w, zval) meth" where
  "ZipArchive_setArchiveComment E args = zpp args (\<lambda>comment.
     ZIP_FROM_OBJECT (\<lambda>intern.
       if length comment > 0xffff
       then throws (Argument_value_error 1 ''must be less than 65535 bytes'')
       else do {
         r \<leftarrow> icall E (Zip_set_archive_comment intern comment (as_u16 (int (length comment))));
         if r \<noteq> 0 then ret IS_FALSE else ret IS_TRUE }))"

definition ZipArchive_getArchiveComment :: "'w env \<Rightarrow> int option option \<Rightarrow> ('w, zval) meth" where
  "ZipArchive_getArchiveComment E args = zpp args (\<lambda>flags_opt.
     ZIP_FROM_OBJECT (\<lambda>intern. do {
       comment \<leftarrow> tcall E (Zip_get_archive_comment intern (as_u32 (as_int (dflt 0 flags_opt))));
       case comment of None \<Rightarrow> ret IS_FALSE | Some c \<Rightarrow> ret (IS_STRING c) }))"

definition ZipArchive_setCommentName :: "'w env \<Rightarrow> (string \<times> string) option \<Rightarrow> ('w, zval) meth" where
  "ZipArchive_setCommentName E args = zpp args (\<lambda>(name, comment).
     if length name = 0 then throws (Argument_value_error 1 ''cannot be empty'')
     else ZIP_FROM_OBJECT (\<lambda>intern.
       if length comment > 0xffff
       then throws (Argument_value_error 2 ''must be less than 65535 bytes'')
       else do {
         r \<leftarrow> icall E (Zip_name_locate intern (cstr name) 0);
         let idx = as_int r in
         if idx < 0 then ret IS_FALSE
         else PHP_ZIP_SET_FILE_COMMENT E intern idx comment }))"

definition ZipArchive_setCommentIndex :: "'w env \<Rightarrow> (int \<times> string) option \<Rightarrow> ('w, zval) meth" where
  "ZipArchive_setCommentIndex E args = zpp args (\<lambda>(index, comment).
     ZIP_FROM_OBJECT (\<lambda>intern.
       if length comment > 0xffff
       then throws (Argument_value_error 2 ''must be less than 65535 bytes'')
       else PHP_ZIP_STAT_INDEX E intern index 0 (\<lambda>sb.
         PHP_ZIP_SET_FILE_COMMENT E intern index comment)))"

text \<open>A NULL comment has length 0: the empty string is returned.\<close>

definition ZipArchive_getCommentName :: "'w env \<Rightarrow> (string \<times> int option) option \<Rightarrow> ('w, zval) meth" where
  "ZipArchive_getCommentName E args = zpp args (\<lambda>(name, flags_opt).
     ZIP_FROM_OBJECT (\<lambda>intern.
       if length name = 0 then throws (Argument_value_error 1 ''cannot be empty'')
       else do {
         r \<leftarrow> icall E (Zip_name_locate intern (cstr name) 0);
         let idx = as_int r in
         if idx < 0 then ret IS_FALSE
         else do {
           c \<leftarrow> tcall E (Zip_file_get_comment intern (as_u64 idx) (as_u32 (dflt 0 flags_opt)));
           ret (IS_STRING (dflt [] c)) } }))"

definition ZipArchive_getCommentIndex :: "'w env \<Rightarrow> (int \<times> int option) option \<Rightarrow> ('w, zval) meth" where
  "ZipArchive_getCommentIndex E args = zpp args (\<lambda>(index, flags_opt).
     ZIP_FROM_OBJECT (\<lambda>intern.
       PHP_ZIP_STAT_INDEX E intern index 0 (\<lambda>sb. do {
         c \<leftarrow> tcall E (Zip_file_get_comment intern (as_u64 index) (as_u32 (dflt 0 flags_opt)));
         ret (IS_STRING (dflt [] c)) })))"

section \<open>External attributes\<close>

definition ZipArchive_setExternalAttributesName ::
  "'w env \<Rightarrow> (string \<times> int \<times> int \<times> int option) option \<Rightarrow> ('w, zval) meth" where
  "ZipArchive_setExternalAttributesName E args = zpp args (\<lambda>(name, opsys, attr, flags_opt).
     ZIP_FROM_OBJECT (\<lambda>intern.
       if length name = 0 then throws (Argument_value_error 1 ''cannot be empty'')
       else do {
         idx \<leftarrow> icall E (Zip_name_locate intern (cstr name) 0);
         if idx < 0 then ret IS_FALSE
         else do {
           r \<leftarrow> icall E (Zip_file_set_external_attributes intern (as_u64 idx)
                  (as_u32 (dflt 0 flags_opt)) (as_u8 opsys) (as_u32 attr));
           if r < 0 then ret IS_FALSE else ret IS_TRUE } }))"

definition ZipArchive_setExternalAttributesIndex ::
  "'w env \<Rightarrow> (int \<times> int \<times> int \<times> int option) option \<Rightarrow> ('w, zval) meth" where
  "ZipArchive_setExternalAttributesIndex E args = zpp args (\<lambda>(index, opsys, attr, flags_opt).
     ZIP_FROM_OBJECT (\<lambda>intern.
       PHP_ZIP_STAT_INDEX E intern index 0 (\<lambda>sb. do {
         r \<leftarrow> icall E (Zip_file_set_external_attributes intern (as_u64 index)
                (as_u32 (dflt 0 flags_opt)) (as_u8 opsys) (as_u32 attr));
         if r < 0 then ret IS_FALSE else ret IS_TRUE })))"

text \<open>The by-reference results are assigned to arguments 2 and 3.\<close>

definition ZipArchive_getExternalAttributesName ::
  "'w env \<Rightarrow> (string \<times> int option) option \<Rightarrow> ('w, zval) meth" where
  "ZipArchive_getExternalAttributesName E args = zpp args (\<lambda>(name, flags_opt).
     ZIP_FROM_OBJECT (\<lambda>intern.
       if length name = 0 then throws (Argument_value_error 1 ''cannot be empty'')
       else do {
         idx \<leftarrow> icall E (Zip_name_locate intern (cstr name) 0);
         if idx < 0 then ret IS_FALSE
         else do {
           (r, opsys, attr) \<leftarrow> zip_file_get_external_attributes E intern (as_u64 idx)
              (as_u32 (dflt 0 flags_opt));
           if r < 0 then ret IS_FALSE
           else do {
             emit (Ev_assign_ref 2 opsys);
             emit (Ev_assign_ref 3 attr);
             ret IS_TRUE } } }))"

definition ZipArchive_getExternalAttributesIndex ::
  "'w env \<Rightarrow> (int \<times> int option) option \<Rightarrow> ('w, zval) meth" where
  "ZipArchive_getExternalAttributesIndex E args = zpp args (\<lambda>(index, flags_opt).
     ZIP_FROM_OBJECT (\<lambda>intern.
       PHP_ZIP_STAT_INDEX E intern index 0 (\<lambda>sb. do {
         (r, opsys, attr) \<leftarrow> zip_file_get_external_attributes E intern (as_u64 index)
            (as_u32 (dflt 0 flags_opt));
         if r < 0 then ret IS_FALSE
         else do {
           emit (Ev_assign_ref 2 opsys);
           emit (Ev_assign_ref 3 attr);
           ret IS_TRUE } })))"

section \<open>Encryption, compression, modification time\<close>

definition ZipArchive_setEncryptionName ::
  "'w env \<Rightarrow> (string \<times> int \<times> string option) option \<Rightarrow> ('w, zval) meth" where
  "ZipArchive_setEncryptionName E args = zpp args (\<lambda>(name, method, password).
     ZIP_FROM_OBJECT (\<lambda>intern.
       if length name = 0 then throws (Argument_value_error 1 ''cannot be empty'')
       else do {
         idx \<leftarrow> icall E (Zip_name_locate intern (cstr name) 0);
         if idx < 0 then ret IS_FALSE
         else do {
           r \<leftarrow> icall E (Zip_file_set_encryption (Some intern) (as_u64 idx) (as_u16 method)
                  (map_option cstr password));
           if r \<noteq> 0 then ret IS_FALSE else ret IS_TRUE } }))"

definition ZipArchive_setEncryptionIndex ::
  "'w env \<Rightarrow> (int \<times> int \<times> string option) option \<Rightarrow> ('w, zval) meth" where
  "ZipArchive_setEncryptionIndex E args = zpp args (\<lambda>(index, method, password).
     ZIP_FROM_OBJECT (\<lambda>intern. do {
       r \<leftarrow> icall E (Zip_file_set_encryption (Some intern) (as_u64 index) (as_u16 method)
              (map_option cstr password));
       if r \<noteq> 0 then ret IS_FALSE else ret IS_TRUE }))"

definition ZipArchive_setCompressionName ::
  "'w env \<Rightarrow> (string \<times> int \<times> int option) option \<Rightarrow> ('w, zval) meth" where
  "ZipArchive_setCompressionName E args = zpp args (\<lambda>(name, comp_method, comp_flags).
     ZIP_FROM_OBJECT (\<lambda>intern.
       if length name = 0 then throws (Argument_value_error 1 ''cannot be empty'')
       else do {
         idx \<leftarrow> icall E (Zip_name_locate intern (cstr name) 0);
         if idx < 0 then ret IS_FALSE
         else do {
           r \<leftarrow> icall E (Zip_set_file_compression (Some intern) (as_u64 idx) (as_int comp_method)
                  (as_u32 (dflt 0 comp_flags)));
           if r \<noteq> 0 then ret IS_FALSE else ret IS_TRUE } }))"

definition ZipArchive_setCompressionIndex ::
  "'w env \<Rightarrow> (int \<times> int \<times> int option) option \<Rightarrow> ('w, zval) meth" where
  "ZipArchive_setCompressionIndex E args = zpp args (\<lambda>(index, comp_method, comp_flags).
     ZIP_FROM_OBJECT (\<lambda>intern. do {
       r \<leftarrow> icall E (Zip_set_file_compression (Some intern) (as_u64 index) (as_int comp_method)
              (as_u32 (dflt 0 comp_flags)));
       if r \<noteq> 0 then ret IS_FALSE else ret IS_TRUE }))"

definition ZipArchive_setMtimeName ::
  "'w env \<Rightarrow> (string \<times> int \<times> int option) option \<Rightarrow> ('w, zval) meth" where
  "ZipArchive_setMtimeName E args = zpp args (\<lambda>(name, mtime, flags_opt).
     ZIP_FROM_OBJECT (\<lambda>intern.
       if length name = 0 then throws (Argument_value_error 1 ''cannot be empty'')
       else do {
         idx \<leftarrow> icall E (Zip_name_locate intern (cstr name) 0);
         if idx < 0 then ret IS_FALSE
         else do {
           r \<leftarrow> icall E (Zip_file_set_mtime intern (as_u64 idx) (as_long mtime)
                  (as_u32 (dflt 0 flags_opt)));
           if r \<noteq> 0 then ret IS_FALSE else ret IS_TRUE } }))"

definition ZipArchive_setMtimeIndex ::
  "'w env \<Rightarrow> (int \<times> int \<times> int option) option \<Rightarrow> ('w, zval) meth" where
  "ZipArchive_setMtimeIndex E args = zpp args (\<lambda>(index, mtime, flags_opt).
     ZIP_FROM_OBJECT (\<lambda>intern. do {
       r \<leftarrow> icall E (Zip_file_set_mtime intern (as_u64 index) (as_long mtime)
              (as_u32 (dflt 0 flags_opt)));
       if r \<noteq> 0 then ret IS_FALSE else ret IS_TRUE }))"

section \<open>Deleting, renaming, reverting\<close>

definition ZipArchive_deleteIndex :: "'w env \<Rightarrow> int option \<Rightarrow> ('w, zval) meth" where
  "ZipArchive_deleteIndex E args = zpp args (\<lambda>index.
     ZIP_FROM_OBJECT (\<lambda>intern.
       if index < 0 then ret IS_FALSE
       else do {
         r \<leftarrow> icall E (Zip_delete intern (as_u64 index));
         if r < 0 then ret IS_FALSE else ret IS_TRUE }))"

definition ZipArchive_deleteName :: "'w env \<Rightarrow> string option \<Rightarrow> ('w, zval) meth" where
  "ZipArchive_deleteName E args = zpp args (\<lambda>name.
     ZIP_FROM_OBJECT (\<lambda>intern.
       if length name < 1 then ret IS_FALSE
       else PHP_ZIP_STAT_PATH E intern name 0 (\<lambda>sb. do {
         r \<leftarrow> icall E (Zip_delete intern (sb_index sb));
         if r \<noteq> 0 then ret IS_FALSE else ret IS_TRUE })))"

definition ZipArchive_renameIndex :: "'w env \<Rightarrow> (int \<times> string) option \<Rightarrow> ('w, zval) meth" where
  "ZipArchive_renameIndex E args = zpp args (\<lambda>(index, new_name).
     if index < 0 then ret IS_FALSE
     else ZIP_FROM_OBJECT (\<lambda>intern.
       if length new_name = 0 then throws (Argument_value_error 2 ''cannot be empty'')
       else do {
         r \<leftarrow> icall E (Zip_file_rename intern (as_u64 index) (cstr new_name) 0);
         if r \<noteq> 0 then ret IS_FALSE else ret IS_TRUE }))"

definition ZipArchive_renameName :: "'w env \<Rightarrow> (string \<times> string) option \<Rightarrow> ('w, zval) meth" where
  "ZipArchive_renameName E args = zpp args (\<lambda>(name, new_name).
     ZIP_FROM_OBJECT (\<lambda>intern.
       if length new_name = 0 then throws (Argument_value_error 2 ''cannot be empty'')
       else PHP_ZIP_STAT_PATH E intern name 0 (\<lambda>sb. do {
         r \<leftarrow> icall E (Zip_file_rename intern (sb_index sb) (cstr new_name) 0);
         if r \<noteq> 0 then ret IS_FALSE else ret IS_TRUE })))"

definition ZipArchive_unchangeIndex :: "'w env \<Rightarrow> int option \<Rightarrow> ('w, zval) meth" where
  "ZipArchive_unchangeIndex E args = zpp args (\<lambda>index.
     ZIP_FROM_OBJECT (\<lambda>intern.
       if index < 0 then ret IS_FALSE
       else do {
         r \<leftarrow> icall E (Zip_unchange intern (as_u64 index));
         if r \<noteq> 0 then ret IS_FALSE else ret IS_TRUE }))"

definition ZipArchive_unchangeName :: "'w env \<Rightarrow> string option \<Rightarrow> ('w, zval) meth" where
  "ZipArchive_unchangeName E args = zpp args (\<lambda>name.
     ZIP_FROM_OBJECT (\<lambda>intern.
       if length name < 1 then ret IS_FALSE
       else PHP_ZIP_STAT_PATH E intern name 0 (\<lambda>sb. do {
         r \<leftarrow> icall E (Zip_unchange intern (sb_index sb));
         if r \<noteq> 0 then ret IS_FALSE else ret IS_TRUE })))"

definition ZipArchive_unchangeAll :: "'w env \<Rightarrow> unit option \<Rightarrow> ('w, zval) meth" where
  "ZipArchive_unchangeAll E args = zpp args (\<lambda>_.
     ZIP_FROM_OBJECT (\<lambda>intern. do {
       r \<leftarrow> icall E (Zip_unchange_all intern);
       if r \<noteq> 0 then ret IS_FALSE else ret IS_TRUE }))"

definition ZipArchive_unchangeArchive :: "'w env \<Rightarrow> unit option \<Rightarrow> ('w, zval) meth" where
  "ZipArchive_unchangeArchive E args = zpp args (\<lambda>_.
     ZIP_FROM_OBJECT (\<lambda>intern. do {
       r \<leftarrow> icall E (Zip_unchange_archive intern);
       if r \<noteq> 0 then ret IS_FALSE else ret IS_TRUE }))"

section \<open>Supported methods\<close>

definition ZipArchive_isCompressionMethodSupported ::
  "'w env \<Rightarrow> (int \<times> bool option) option \<Rightarrow> ('w, zval) meth" where
  "ZipArchive_isCompressionMethodSupported E args = zpp args (\<lambda>(method, enc_opt). do {
     r \<leftarrow> icall E (Zip_compression_method_supported (as_int method) (dflt True enc_opt));
     ret (RETURN_BOOL (r \<noteq> 0)) })"

definition ZipArchive_isEncryptionMethodSupported ::
  "'w env \<Rightarrow> (int \<times> bool option) option \<Rightarrow> ('w, zval) meth" where
  "ZipArchive_isEncryptionMethodSupported E args = zpp args (\<lambda>(method, enc_opt). do {
     r \<leftarrow> icall E (Zip_encryption_method_supported (as_u16 method) (dflt True enc_opt));
     ret (RETURN_BOOL (r \<noteq> 0)) })"

section \<open>Methods by name and by index\<close>

text \<open>
  The contract of a method that exists by name and by index: by name it looks the entry up and
  then does what the method by index does with the index found. \<open>guard\<close> is what the method
  by name does first when it does not accept its arguments.
\<close>

locale name_index_pair =
  fixes lookup :: "zip_t \<Rightarrow> string \<Rightarrow> ('w, int option) meth"
    and guard :: "string \<Rightarrow> 'a \<Rightarrow> ('w, zval) meth option"
    and body :: "zip_t \<Rightarrow> int \<Rightarrow> 'a \<Rightarrow> ('w, zval) meth"
    and by_name :: "string \<Rightarrow> 'a \<Rightarrow> ('w, zval) meth"
    and by_index :: "int \<Rightarrow> 'a \<Rightarrow> ('w, zval) meth"
  assumes by_name_eq: "by_name n x = ZIP_FROM_OBJECT (\<lambda>h. case guard n x of
      Some m \<Rightarrow> m
    | None \<Rightarrow> do { i \<leftarrow> lookup h n; case i of None \<Rightarrow> ret IS_FALSE | Some idx \<Rightarrow> body h idx x })"
    and by_index_eq: "guard n x = None \<Longrightarrow> 0 \<le> i \<Longrightarrow> i < 2 ^ 64 \<Longrightarrow>
      by_index i x = ZIP_FROM_OBJECT (\<lambda>h. body h i x)"
begin

lemma found:
  assumes "za (self s) = Some h" "guard n x = None" "0 \<le> i" "i < 2 ^ 64"
    and "run_state (lookup h n) s = (Some i, t)" "self t = self s"
  shows "run_state (by_name n x) s = run_state (by_index i x) t"
  using assms by (simp add: by_name_eq by_index_eq ZIP_FROM_OBJECT_def run_simps)

lemma missing:
  assumes "za (self s) = Some h" "guard n x = None"
    and "run_state (lookup h n) s = (None, t)"
  shows "run_state (by_name n x) s = (IS_FALSE, t)"
  using assms by (simp add: by_name_eq ZIP_FROM_OBJECT_def run_simps)

lemma refused:
  assumes "za (self s) = Some h" "guard n x = Some m"
  shows "run_state (by_name n x) s = run_state m s"
  using assms by (simp add: by_name_eq ZIP_FROM_OBJECT_def run_simps)

end

definition locate_lookup :: "'w env \<Rightarrow> zip_t \<Rightarrow> string \<Rightarrow> ('w, int option) meth" where
  "locate_lookup E h n = do {
     idx \<leftarrow> icall E (Zip_name_locate h (cstr n) 0);
     ret (if idx < 0 then None else Some idx) }"

definition stat_lookup :: "'w env \<Rightarrow> zip_t \<Rightarrow> string \<Rightarrow> ('w, int option) meth" where
  "stat_lookup E h n = do {
     (r, sb) \<leftarrow> scall E (Zip_stat h (cstr n) 0);
     ret (if r \<noteq> 0 then None else Some (sb_index sb)) }"

definition empty_name_throws :: "string \<Rightarrow> 'a \<Rightarrow> ('w, zval) meth option" where
  "empty_name_throws n x =
     (if n = [] then Some (throws (Argument_value_error 1 ''cannot be empty'')) else None)"

definition empty_name_false :: "string \<Rightarrow> 'a \<Rightarrow> ('w, zval) meth option" where
  "empty_name_false n x = (if n = [] then Some (ret IS_FALSE) else None)"

definition rename_guard :: "string \<Rightarrow> string \<Rightarrow> ('w, zval) meth option" where
  "rename_guard n new_name =
     (if new_name = [] then Some (throws (Argument_value_error 2 ''cannot be empty''))
      else if n = [] then Some (throws (Argument_value_error 1 ''cannot be empty'')) else None)"

lemma as_u32_0 [simp]: "as_u32 0 = 0" by (simp add: as_u32_def)

lemmas pair_defs = locate_lookup_def stat_lookup_def empty_name_throws_def empty_name_false_def
  rename_guard_def zpp_def as_u64_id

interpretation compression: name_index_pair "locate_lookup E" empty_name_throws
  "\<lambda>h i (m, f). do {
     r \<leftarrow> icall E (Zip_set_file_compression (Some h) (as_u64 i) (as_int m) (as_u32 (dflt 0 f)));
     if r \<noteq> 0 then ret IS_FALSE else ret IS_TRUE }"
  "\<lambda>n (m, f). ZipArchive_setCompressionName E (Some (n, m, f))"
  "\<lambda>i (m, f). ZipArchive_setCompressionIndex E (Some (i, m, f))" for E
  by unfold_locales
     (auto simp: ZipArchive_setCompressionName_def ZipArchive_setCompressionIndex_def pair_defs
       intro!: arg_cong [where f = ZIP_FROM_OBJECT] arg_cong2 [where f = State_Monad.bind] ext)

interpretation encryption: name_index_pair "locate_lookup E" empty_name_throws
  "\<lambda>h i (m, p). do {
     r \<leftarrow> icall E (Zip_file_set_encryption (Some h) (as_u64 i) (as_u16 m) (map_option cstr p));
     if r \<noteq> 0 then ret IS_FALSE else ret IS_TRUE }"
  "\<lambda>n (m, p). ZipArchive_setEncryptionName E (Some (n, m, p))"
  "\<lambda>i (m, p). ZipArchive_setEncryptionIndex E (Some (i, m, p))" for E
  by unfold_locales
     (auto simp: ZipArchive_setEncryptionName_def ZipArchive_setEncryptionIndex_def pair_defs
       intro!: arg_cong [where f = ZIP_FROM_OBJECT] arg_cong2 [where f = State_Monad.bind] ext)

interpretation mtime: name_index_pair "locate_lookup E" empty_name_throws
  "\<lambda>h i (m, f). do {
     r \<leftarrow> icall E (Zip_file_set_mtime h (as_u64 i) (as_long m) (as_u32 (dflt 0 f)));
     if r \<noteq> 0 then ret IS_FALSE else ret IS_TRUE }"
  "\<lambda>n (m, f). ZipArchive_setMtimeName E (Some (n, m, f))"
  "\<lambda>i (m, f). ZipArchive_setMtimeIndex E (Some (i, m, f))" for E
  by unfold_locales
     (auto simp: ZipArchive_setMtimeName_def ZipArchive_setMtimeIndex_def pair_defs
       intro!: arg_cong [where f = ZIP_FROM_OBJECT] arg_cong2 [where f = State_Monad.bind] ext)

interpretation rename: name_index_pair "stat_lookup E" rename_guard
  "\<lambda>h i new_name. do {
     r \<leftarrow> icall E (Zip_file_rename h i (cstr new_name) 0);
     if r \<noteq> 0 then ret IS_FALSE else ret IS_TRUE }"
  "\<lambda>n new_name. ZipArchive_renameName E (Some (n, new_name))"
  "\<lambda>i new_name. ZipArchive_renameIndex E (Some (i, new_name))" for E
  by unfold_locales
     (auto simp: ZipArchive_renameName_def ZipArchive_renameIndex_def PHP_ZIP_STAT_PATH_def pair_defs
       intro!: arg_cong [where f = ZIP_FROM_OBJECT] arg_cong2 [where f = State_Monad.bind] ext)

interpretation unchange: name_index_pair "stat_lookup E" empty_name_false
  "\<lambda>h i (_ :: unit). do {
     r \<leftarrow> icall E (Zip_unchange h i);
     if r \<noteq> 0 then ret IS_FALSE else ret IS_TRUE }"
  "\<lambda>n _. ZipArchive_unchangeName E (Some n)"
  "\<lambda>i _. ZipArchive_unchangeIndex E (Some i)" for E
  by unfold_locales
     (auto simp: ZipArchive_unchangeName_def ZipArchive_unchangeIndex_def PHP_ZIP_STAT_PATH_def pair_defs
       intro!: arg_cong [where f = ZIP_FROM_OBJECT] arg_cong2 [where f = State_Monad.bind] ext)


text \<open>The setters by name do what the setters by index do with the index that
  \<open>zip_name_locate\<close> found, from the state after that lookup: the same result, the same calls
  and the same change of the object, for compression, encryption and modification time.\<close>

theorem located_setters_agree:
  assumes "za (self s) = Some h" and "n \<noteq> []"
    and "sys_i E (Zip_name_locate h (cstr n) 0) (world s) = (i, w)" and "0 \<le> i" and "i < 2 ^ 64"
    and "t = s\<lparr>world := w, trace := trace s @ [Ev_i (Zip_name_locate h (cstr n) 0) i]\<rparr>"
  shows "run_state (ZipArchive_setCompressionName E (Some (n, m, f))) s =
      run_state (ZipArchive_setCompressionIndex E (Some (i, m, f))) t \<and>
    run_state (ZipArchive_setEncryptionName E (Some (n, m, p))) s =
      run_state (ZipArchive_setEncryptionIndex E (Some (i, m, p))) t \<and>
    run_state (ZipArchive_setMtimeName E (Some (n, m, f))) s =
      run_state (ZipArchive_setMtimeIndex E (Some (i, m, f))) t"
proof -
  have l: "run_state (locate_lookup E h n) s = (Some i, t)" and st: "self t = self s"
    using assms by (simp_all add: locate_lookup_def run_simps call_defs)
  show ?thesis
    using compression.found [OF assms(1) _ assms(4,5) l st, of "(m, f)"]
      encryption.found [OF assms(1) _ assms(4,5) l st, of "(m, p)"]
      mtime.found [OF assms(1) _ assms(4,5) l st, of "(m, f)"] assms(2)
    by (simp add: empty_name_throws_def)
qed

definition open_state :: "(unit, ze_zip_object) st" where
  "open_state = start_state ((php_zip_object_new [])\<lparr>za := Some 7\<rparr>)"

lemma open_state_za: "za (self open_state) = Some 7"
  by (simp add: open_state_def start_state_def)

theorem located_setters_agree_witness:
  "run_state (ZipArchive_setMtimeName demo_env (Some (''n'', 12, None))) open_state =
   run_state (ZipArchive_setMtimeIndex demo_env (Some (0, 12, None)))
     (open_state\<lparr>trace := [Ev_i (Zip_name_locate 7 ''n'' 0) 0]\<rparr>)"
  using located_setters_agree [OF open_state_za, of "''n''" demo_env 0 "()" _ 12 None]
  by (simp add: demo_env_def cstr_def) (simp add: open_state_def start_state_def)

text \<open>Renaming and reverting by name act on the entry that \<open>zip_stat\<close> found, as the methods by
  index do; an entry that is not found is left alone: FALSE and no other call.\<close>

theorem stat_methods_agree:
  assumes "za (self s) = Some h" and "n \<noteq> []" and "new_name \<noteq> []"
    and "sys_s E (Zip_stat h (cstr n) 0) (world s) = ((r, sb), w)"
    and "0 \<le> sb_index sb" and "sb_index sb < 2 ^ 64"
    and "t = s\<lparr>world := w, trace := trace s @ [Ev_s (Zip_stat h (cstr n) 0) r]\<rparr>"
  shows "run_state (ZipArchive_renameName E (Some (n, new_name))) s =
      (if r = 0 then run_state (ZipArchive_renameIndex E (Some (sb_index sb, new_name))) t
       else (IS_FALSE, t)) \<and>
    run_state (ZipArchive_unchangeName E (Some n)) s =
      (if r = 0 then run_state (ZipArchive_unchangeIndex E (Some (sb_index sb))) t
       else (IS_FALSE, t))"
proof -
  have l: "run_state (stat_lookup E h n) s = (if r = 0 then Some (sb_index sb) else None, t)"
    and st: "self t = self s"
    using assms by (simp_all add: stat_lookup_def run_simps call_defs)
  show ?thesis
  proof (cases "r = 0")
    case True
    with l have "run_state (stat_lookup E h n) s = (Some (sb_index sb), t)" by simp
    note found = rename.found [OF assms(1) _ assms(5,6) this st]
      unchange.found [OF assms(1) _ assms(5,6) this st]
    show ?thesis
      using found(1) [of new_name] found(2) [of "()"] assms(2,3) True
      by (simp add: rename_guard_def empty_name_false_def)
  next
    case False
    with l have "run_state (stat_lookup E h n) s = (None, t)" by simp
    note missing = rename.missing [OF assms(1) _ this] unchange.missing [OF assms(1) _ this]
    show ?thesis
      using missing(1) [of new_name] missing(2) [of "()"] assms(2,3) False
      by (simp add: rename_guard_def empty_name_false_def)
  qed
qed

theorem stat_methods_agree_witness:
  "run_state (ZipArchive_renameName demo_env (Some (''n'', ''m''))) open_state =
   run_state (ZipArchive_renameIndex demo_env (Some (0, ''m'')))
     (open_state\<lparr>trace := [Ev_s (Zip_stat 7 ''n'' 0) 0]\<rparr>)"
  using stat_methods_agree [OF open_state_za, of "''n''" "''m''" demo_env 0 demo_stat "()"]
  by (simp add: demo_env_def cstr_def demo_stat_def) (simp add: open_state_def start_state_def)

section \<open>Limits\<close>

text \<open>A comment reaches libzip whole or not at all: up to 65535 bytes with its exact length (the
  conversion to 16 bits loses nothing), and a longer one is refused with an exception before any
  call. The message of the refusal asks for less than 65535 bytes, which are accepted.\<close>

theorem comment_length_limit:
  assumes "za (self s) = Some h"
  shows "wp (ZipArchive_setArchiveComment E (Some comment)) (\<lambda>r s'.
    if length comment > 65535
    then trace s' = trace s \<and> r = IS_NULL \<and>
      exn s' = Some (Argument_value_error 1 ''must be less than 65535 bytes'')
    else \<exists>i. trace s' = trace s @ [Ev_i (Zip_set_archive_comment h comment (int (length comment))) i] \<and>
      r = RETURN_BOOL (i = 0) \<and> exn s' = exn s) s"
  using assms
  by (auto simp: ZipArchive_setArchiveComment_def wp_simps call_defs as_u16_def RETURN_BOOL_def
      split: prod.split)

theorem comment_length_limit_witness:
  "wp (ZipArchive_setArchiveComment demo_env (Some (replicate 65535 (CHR ''c'')))) (\<lambda>r s'.
     exn s' = None \<and> (\<exists>i c. trace s' = [Ev_i (Zip_set_archive_comment 7 c 65535) i])) open_state"
proof -
  have s: "trace open_state = []" "exn open_state = None"
    by (simp_all add: open_state_def start_state_def)
  show ?thesis
    by (rule wp_mono [OF comment_length_limit [OF open_state_za, of demo_env
          "replicate 65535 (CHR ''c'')"]]) (auto simp: s)
qed

text \<open>getNameIndex converts its index to an \<open>int\<close> first: indices that differ by
  \<open>2 ^ 32\<close> name the same entry, while statIndex passes the whole index on.\<close>

theorem getNameIndex_truncates:
  "run_state (ZipArchive_getNameIndex E (Some (i + 2 ^ 32, fl))) s =
   run_state (ZipArchive_getNameIndex E (Some (i, fl))) s"
  by (simp only: ZipArchive_getNameIndex_def zpp_def option.case prod.case as_int_wraps)

end
