(* ===== verification/Zip_Stream.thy ===== *)
theory Zip_Stream
  imports Zip_Trace
begin

text \<open>
  The zip:// streams (ext/zip_stream.c): opening an entry of an archive as a stream, from a URL
  or from an open archive object, and the operations of such a stream. The operations run with
  the stream as their state.
\<close>

section \<open>The stream\<close>

record zip_stream_data =
  sd_za :: "zip_t option"
  sd_zf :: "zip_file_t option"
  cursor :: int

record php_stream =
  abstract :: "zip_stream_data option"
  eof :: bool
  orig_path :: "string option"
  stream_mode :: string

text \<open>\<open>php_stream_alloc\<close> on the structure both openers fill.\<close>

definition new_zip_stream :: "zip_t \<Rightarrow> zip_file_t \<Rightarrow> string \<Rightarrow> string option \<Rightarrow> php_stream" where
  "new_zip_stream h zf mode path =
     \<lparr>abstract = Some \<lparr>sd_za = Some h, sd_zf = Some zf, cursor = 0\<rparr>, eof = False,
      orig_path = path, stream_mode = mode\<rparr>"

section \<open>Operations\<close>

text \<open>The answer of a read: the count and the bytes in the buffer. The streams layer never calls
  an operation on a stream it closed.\<close>

definition php_zip_ops_read :: "'w env \<Rightarrow> int \<Rightarrow> ('w, php_stream, int \<times> string) act" where
  "php_zip_ops_read E count = do {
     stream \<leftarrow> get_self;
     case abstract stream of
       None \<Rightarrow> ret (0, [])
     | Some sd \<Rightarrow> (case (sd_za sd, sd_zf sd) of
         (Some h, Some zf) \<Rightarrow> do {
           (n, b) \<leftarrow> zip_fread E zf count;
           if n < 0 then do {
             modify_self (eof_update (\<lambda>_. True));
             m \<leftarrow> tcall E (Zip_file_error_strerror zf);
             php_error_docref E_WARNING ''Zip stream error: %s'' [DS (dflt [] m)];
             ret (-1, []) }
           else do {
             (if n = 0 \<or> n < as_long count then modify_self (eof_update (\<lambda>_. True))
              else modify_self (abstract_update (\<lambda>_. Some (sd\<lparr>cursor := as_u64 (cursor sd + n)\<rparr>))));
             ret (n, take (nat n) b) } }
       | _ \<Rightarrow> ret (0, [])) }"

definition php_zip_ops_write :: "php_stream option \<Rightarrow> string \<Rightarrow> int" where
  "php_zip_ops_write stream buf =
     (case stream of None \<Rightarrow> -1 | Some _ \<Rightarrow> int (length buf))"

definition EOF :: int where "EOF = -1"

definition php_zip_ops_close :: "'w env \<Rightarrow> bool \<Rightarrow> ('w, php_stream, int) act" where
  "php_zip_ops_close E close_handle = do {
     stream \<leftarrow> get_self;
     case abstract stream of
       None \<Rightarrow> ret EOF
     | Some sd \<Rightarrow> do {
         (if close_handle then do {
            (case sd_zf sd of None \<Rightarrow> ret () | Some zf \<Rightarrow> do { _ \<leftarrow> icall E (Zip_fclose zf); ret () });
            (case sd_za sd of None \<Rightarrow> ret () | Some h \<Rightarrow> do { _ \<leftarrow> icall E (Zip_close h); ret () }) }
          else ret ());
         emit (Ev_efree B_struct);
         modify_self (abstract_update (\<lambda>_. None));
         ret EOF } }"

definition php_zip_ops_flush :: "php_stream option \<Rightarrow> int" where
  "php_zip_ops_flush stream = 0"

section \<open>URLs\<close>

text \<open>\<open>strncasecmp(s, t, n) == 0\<close> in the C locale, for an \<open>s\<close> of \<open>n\<close> characters.\<close>

definition to_lower :: "char \<Rightarrow> char" where
  "to_lower c = (if 65 \<le> (of_char c :: nat) \<and> (of_char c :: nat) \<le> 90
                 then char_of ((of_char c :: nat) + 32) else c)"

definition has_scheme :: "string \<Rightarrow> bool" where
  "has_scheme path \<longleftrightarrow> map to_lower (take 6 path) = ''zip://''"

text \<open>The common start of both parsers: None without a fragment, otherwise the path after the
  scheme and the fragment with its \<open>#\<close>.\<close>

definition zip_url :: "string \<Rightarrow> (string \<times> string) option" where
  "zip_url path =
     (case strchr path (CHR ''#'') of
        None \<Rightarrow> None
      | Some fragment \<Rightarrow>
          let path = (if has_scheme path then drop 6 path else path) in
          if length fragment < 1 then None else Some (path, fragment))"

definition archive_part :: "string \<Rightarrow> string \<Rightarrow> string" where
  "archive_part path fragment = take (length path - length fragment) path"

section \<open>stat\<close>

datatype file_mode = M_NONE | S_IFREG | S_IFDIR

record statbuf =
  ssb_size :: int
  ssb_mode :: file_mode
  ssb_mtime :: int
  ssb_atime :: int
  ssb_ctime :: int
  ssb_nlink :: int
  ssb_rdev :: int
  ssb_blksize :: int
  ssb_blocks :: int
  ssb_ino :: int

definition fill_stat :: "'w env \<Rightarrow> string \<Rightarrow> zip_stat \<Rightarrow> statbuf" where
  "fill_stat E path sb =
     (let dir = (last path = CHR ''/'') in
      \<lparr>ssb_size = (if dir then 0 else sb_size sb),
       ssb_mode = (if dir then S_IFDIR else S_IFREG),
       ssb_mtime = sb_mtime sb, ssb_atime = sb_mtime sb, ssb_ctime = sb_mtime sb,
       ssb_nlink = 1, ssb_rdev = -1,
       ssb_blksize = (if win32 E then 0 else -1), ssb_blocks = (if win32 E then 0 else -1),
       ssb_ino = -1\<rparr>)"

text \<open>The answer: the return value and the buffer, given what the caller left in it. The
  streams layer gives every stream an \<open>orig_path\<close> before it is used.\<close>

definition php_zip_ops_stat ::
  "'w env \<Rightarrow> statbuf \<Rightarrow> ('w, php_stream, int \<times> statbuf) act" where
  "php_zip_ops_stat E ssb = do {
     stream \<leftarrow> get_self;
     case zip_url (cstr (dflt [] (orig_path stream))) of
       None \<Rightarrow> ret (-1, ssb)
     | Some (path, fragment) \<Rightarrow>
         if length path \<ge> maxpathlen E then ret (-1, ssb)
         else do {
           file_dirname \<leftarrow> ret (archive_part path fragment);
           denied \<leftarrow> ZIP_OPENBASEDIR_CHECKPATH E file_dirname;
           if denied then ret (-1, ssb)
           else do {
             h \<leftarrow> ptrcall E (Zip_open file_dirname (as_int (zc E ''ZIP_CREATE'')));
             case h of
               None \<Rightarrow> ret (0, ssb)
             | Some h \<Rightarrow> do {
                 (r, sb) \<leftarrow> scall E (Zip_stat h (drop 1 fragment) (as_u32 (zc E ''ZIP_FL_NOCASE'')));
                 _ \<leftarrow> icall E (Zip_close h);
                 if r \<noteq> 0 then ret (-1, \<lparr>ssb_size = 0, ssb_mode = M_NONE, ssb_mtime = 0,
                   ssb_atime = 0, ssb_ctime = 0, ssb_nlink = 0, ssb_rdev = 0, ssb_blksize = 0,
                   ssb_blocks = 0, ssb_ino = 0\<rparr>)
                 else ret (0, fill_stat E path sb) } } } }"

section \<open>Opening\<close>

definition php_stream_zip_open ::
  "'w env \<Rightarrow> string option \<Rightarrow> string \<Rightarrow> string \<Rightarrow> ('w, 'o, php_stream option) act" where
  "php_stream_zip_open E fname path mode =
     (if take 1 mode \<noteq> ''r'' then ret None
      else (case fname of
          None \<Rightarrow> ret None
        | Some fname \<Rightarrow> do {
            denied \<leftarrow> ZIP_OPENBASEDIR_CHECKPATH E fname;
            if denied then ret None
            else do {
              stream_za \<leftarrow> ptrcall E (Zip_open fname (as_int (zc E ''ZIP_CREATE'')));
              case stream_za of
                None \<Rightarrow> ret None
              | Some h \<Rightarrow> do {
                  zf \<leftarrow> ptrcall E (Zip_fopen h (cstr path) 0);
                  case zf of
                    Some zf \<Rightarrow> ret (Some (new_zip_stream h zf mode (Some (cstr path))))
                  | None \<Rightarrow> do { _ \<leftarrow> icall E (Zip_close h); ret None } } } }))"

text \<open>\<open>password\<close> is the option of the stream context, when there is one. The answer: the
  stream, and what is stored in \<open>opened_path\<close>.\<close>

definition php_stream_zip_opener ::
  "'w env \<Rightarrow> string \<Rightarrow> string \<Rightarrow> zval option \<Rightarrow> ('w, 'o, (php_stream \<times> string) option) act" where
  "php_stream_zip_opener E url mode password =
     (case zip_url url of
        None \<Rightarrow> ret None
      | Some (path, fragment) \<Rightarrow>
          if length path \<ge> maxpathlen E \<or> char_at mode 0 \<noteq> CHR ''r'' then ret None
          else do {
            file_dirname \<leftarrow> ret (archive_part path fragment);
            denied \<leftarrow> ZIP_OPENBASEDIR_CHECKPATH E file_dirname;
            if denied then ret None
            else do {
              h \<leftarrow> ptrcall E (Zip_open file_dirname (as_int (zc E ''ZIP_CREATE'')));
              case h of
                None \<Rightarrow> ret None
              | Some h \<Rightarrow> do {
                  bad \<leftarrow> (case password of
                      None \<Rightarrow> ret False
                    | Some (IS_STRING p) \<Rightarrow> do {
                        r \<leftarrow> icall E (Zip_set_default_password h (cstr p)); ret (r \<noteq> 0) }
                    | Some _ \<Rightarrow> ret True);
                  (if bad then php_error_docref E_WARNING ''Can't set zip password'' [] else ret ());
                  zf \<leftarrow> ptrcall E (Zip_fopen h (drop 1 fragment) 0);
                  case zf of
                    Some zf \<Rightarrow> ret (Some (new_zip_stream h zf mode None, path))
                  | None \<Rightarrow> do { _ \<leftarrow> icall E (Zip_close h); ret None } } } })"

section \<open>URLs: properties\<close>

lemma scheme_chars:
  assumes "has_scheme p"
  shows "CHR ''#'' \<notin> set (take 6 p)" "length (take 6 p) = 6"
proof -
  from assms have m: "map to_lower (take 6 p) = ''zip://''" by (simp add: has_scheme_def)
  then have "length (map to_lower (take 6 p)) = length ''zip://''" by simp
  then show "length (take 6 p) = 6" by simp
  have "to_lower (CHR ''#'') = CHR ''#''" by code_simp
  then have "CHR ''#'' \<in> set (take 6 p) \<Longrightarrow> CHR ''#'' \<in> set (map to_lower (take 6 p))"
    by (metis image_eqI list.set_map)
  then show "CHR ''#'' \<notin> set (take 6 p)" unfolding m by auto
qed

lemma zip_url_split:
  assumes "zip_url url = Some (path, fragment)"
  shows "\<exists>scheme archive name. url = scheme @ archive @ CHR ''#'' # name \<and>
    fragment = CHR ''#'' # name \<and> path = archive @ fragment \<and> CHR ''#'' \<notin> set archive \<and>
    (scheme = [] \<or> has_scheme scheme)"
proof -
  from assms obtain f where f: "strchr url (CHR ''#'') = Some f" "f = fragment"
    and p: "path = (if has_scheme url then drop 6 url else url)"
    by (auto simp: zip_url_def Let_def split: option.splits if_splits)
  from strchr_Some [OF f(1)] obtain a b where url: "url = a @ CHR ''#'' # b"
    and fr: "f = CHR ''#'' # b" and a: "CHR ''#'' \<notin> set a" by blast
  show ?thesis
  proof (cases "has_scheme url")
    case False
    with url fr a p f(2) show ?thesis by (intro exI [of _ "[]"] exI [of _ a] exI [of _ b]) auto
  next
    case True
    note sc = scheme_chars [OF True]
    have "6 \<le> length a"
    proof (rule ccontr)
      assume "\<not> 6 \<le> length a"
      then have "take 6 url = a @ take (6 - length a) (CHR ''#'' # b)" by (simp add: url)
      moreover from \<open>\<not> 6 \<le> length a\<close> obtain k where "6 - length a = Suc k" by (cases "6 - length a") auto
      ultimately have "CHR ''#'' \<in> set (take 6 url)" by simp
      with sc(1) show False by simp
    qed
    then have "url = take 6 a @ drop 6 a @ CHR ''#'' # b" "path = drop 6 a @ CHR ''#'' # b"
      "take 6 url = take 6 a"
      using p True by (simp_all add: url)
    moreover have "has_scheme (take 6 a)" using True \<open>take 6 url = take 6 a\<close> by (simp add: has_scheme_def)
    moreover have "CHR ''#'' \<notin> set (drop 6 a)" using a by (auto dest: in_set_dropD)
    ultimately show ?thesis using fr f(2) by blast
  qed
qed

text \<open>The two parts of a URL cover it: the fragment starts at the first \<open>#\<close>, the path
  without the scheme is the archive's name and the fragment, so \<open>path_len - fragment_len\<close> never
  goes below zero, and the archive's name has no \<open>#\<close>.\<close>

theorem zip_url_parts:
  assumes "zip_url url = Some (path, fragment)"
  shows "length fragment \<le> length path \<and> path = archive_part path fragment @ fragment \<and>
    CHR ''#'' \<notin> set (archive_part path fragment) \<and> hd fragment = CHR ''#'' \<and> fragment \<noteq> []"
  using zip_url_split [OF assms] by (auto simp: archive_part_def)

theorem zip_url_parts_witness:
  "archive_part ''a.zip#b'' ''#b'' = ''a.zip'' \<and> length ''#b'' \<le> length ''a.zip#b''"
proof -
  have "zip_url ''zip://a.zip#b'' = Some (''a.zip#b'', ''#b'')" by code_simp
  from zip_url_parts [OF this] show ?thesis by (simp add: archive_part_def)
qed

text \<open>Round trip: the URL made of the scheme in any case of its letters, an archive's name
  without \<open>#\<close> and an entry's name is taken apart into this archive and this entry.\<close>

theorem zip_url_roundtrip:
  assumes "has_scheme scheme" and "length scheme = 6" and "CHR ''#'' \<notin> set archive"
  shows "zip_url (scheme @ archive @ ''#'' @ name) = Some (archive @ ''#'' @ name, ''#'' @ name) \<and>
    archive_part (archive @ ''#'' @ name) (''#'' @ name) = archive \<and> drop 1 (''#'' @ name) = name"
proof -
  have sc: "CHR ''#'' \<notin> set scheme" using scheme_chars [OF assms(1)] assms(2) by simp
  have "strchr ((scheme @ archive) @ CHR ''#'' # name) (CHR ''#'') = Some (CHR ''#'' # name)"
    by (rule strchr_append) (use sc assms(3) in auto)
  moreover have "has_scheme (scheme @ archive @ CHR ''#'' # name)"
    using assms(1,2) by (simp add: has_scheme_def)
  ultimately show ?thesis using assms(2) by (simp add: zip_url_def archive_part_def)
qed

theorem zip_url_roundtrip_witness:
  "zip_url ''ZIP://d/a.zip#x/y'' = Some (''d/a.zip#x/y'', ''#x/y'')"
proof -
  have "has_scheme ''ZIP://''" by code_simp
  from zip_url_roundtrip [OF this, of "''d/a.zip''" "''x/y''"] show ?thesis by simp
qed

section \<open>Operations: properties\<close>

text \<open>A read of a stream: at most the bytes asked for, with their count; a short or empty read
  and an error set the end of file, an error answers -1 with a warning; the position moves by the
  count of a full read only (a short read is the last one).\<close>

theorem ops_read_contract:
  assumes "reads_at_most E" and "abstract (self s) = Some sd" and "sd_za sd = Some h"
    and "sd_zf sd = Some zf" and "0 \<le> count" and "count < 2 ^ 63"
  shows "wp (php_zip_ops_read E count) (\<lambda>(n, b) s'.
     n \<le> count \<and> (n \<ge> 0 \<longrightarrow> int (length b) = n) \<and> (n < 0 \<longrightarrow> n = -1 \<and> b = []) \<and>
     (eof (self s') \<longleftrightarrow> eof (self s) \<or> n < count \<or> n = 0) \<and>
     abstract (self s') = Some (if n = count \<and> 0 < n
       then sd\<lparr>cursor := as_u64 (cursor sd + n)\<rparr> else sd)) s"
proof -
  obtain n b w where r: "sys_fread E zf count (world s) = ((n, b), w)" by (metis prod.exhaust)
  with assms(1,5) have n: "-1 \<le> n" "n \<le> count" "0 \<le> n \<longrightarrow> int (length b) = n"
    unfolding reads_at_most_def by fastforce+
  show ?thesis
    using assms(2-6) n r
    by (auto simp: php_zip_ops_read_def wp_simps call_defs as_long_id split: prod.split)
qed

theorem ops_read_contract_witness:
  "wp (php_zip_ops_read demo_env 5) (\<lambda>(n, b) s'. n \<le> 5 \<and> (n \<ge> 0 \<longrightarrow> int (length b) = n))
    (start_state (new_zip_stream 7 5 ''rb'' None))"
proof -
  have "reads_at_most demo_env" by (simp add: reads_at_most_def demo_env_def)
  from ops_read_contract [OF this, of "start_state (new_zip_stream 7 5 ''rb'' None)"
      "\<lparr>sd_za = Some 7, sd_zf = Some 5, cursor = 0\<rparr>" 7 5 5]
  show ?thesis by (simp add: start_state_def new_zip_stream_def wp_def split: prod.splits)
qed

text \<open>stat answers 0 without filling the buffer when the archive cannot be opened: the caller is
  told of success and reads what the buffer held before.\<close>

theorem ops_stat_unopened:
  assumes "orig_path (self s) = Some url" and "zip_url (cstr url) = Some (path, fragment)"
    and "length path < maxpathlen E"
    and "sys_f E (Php_check_open_basedir (archive_part path fragment)) (world s) = (0, w1)"
    and "sys_p E (Zip_open (archive_part path fragment) (as_int (zc E ''ZIP_CREATE''))) w1 = ((None, e), w2)"
  shows "\<exists>s'. run_state (php_zip_ops_stat E ssb) s = ((0, ssb), s')"
  using assms
  by (simp add: php_zip_ops_stat_def run_simps call_defs ZIP_OPENBASEDIR_CHECKPATH_def)

definition missing_env :: "unit env" where
  "missing_env = demo_env\<lparr>sys_p := (\<lambda>c w. ((None, 9), w))\<rparr>"

theorem ops_stat_unopened_witness:
  "\<forall>ssb. \<exists>s'. run_state (php_zip_ops_stat missing_env ssb)
     (start_state ((new_zip_stream 7 5 ''rb'' (Some ''zip://a.zip#b'')))) = ((0, ssb), s')"
proof
  fix ssb
  have "zip_url (cstr ''zip://a.zip#b'') = Some (''a.zip#b'', ''#b'')" by code_simp
  then show "\<exists>s'. run_state (php_zip_ops_stat missing_env ssb)
     (start_state ((new_zip_stream 7 5 ''rb'' (Some ''zip://a.zip#b'')))) = ((0, ssb), s')"
    by (intro ops_stat_unopened [where url = "''zip://a.zip#b''" and path = "''a.zip#b''"
          and fragment = "''#b''" and ?w1.0 = "()" and e = 9 and ?w2.0 = "()"])
       (simp_all add: start_state_def new_zip_stream_def missing_env_def demo_env_def archive_part_def)
qed

section \<open>The life of a stream\<close>

text \<open>What a stream owes: its archive and its file, each closed once, and its structure, freed
  once. The streams layer closes a stream once and does not use it afterwards.\<close>

fun zip_closed :: "event \<Rightarrow> zip_t option" where
  "zip_closed (Ev_i (Zip_close h) _) = Some h"
| "zip_closed _ = None"

definition stream_init :: "zip_t \<Rightarrow> zip_file_t \<Rightarrow> ('w, php_stream) st \<Rightarrow> bool" where
  "stream_init h zf s \<longleftrightarrow> trace s = [] \<and> (\<exists>mode path. self s = new_zip_stream h zf mode path)"

inductive stream_step :: "'w env \<Rightarrow> ('w, php_stream) st \<Rightarrow> ('w, php_stream) st \<Rightarrow> bool" for E where
  stream_read: "abstract (self s) \<noteq> None \<Longrightarrow> stream_step E s (snd (run_state (php_zip_ops_read E n) s))"
| stream_close: "abstract (self s) \<noteq> None \<Longrightarrow> stream_step E s (snd (run_state (php_zip_ops_close E True) s))"
| stream_world: "stream_step E s (s\<lparr>world := w\<rparr>)"

definition stream_inv :: "zip_t \<Rightarrow> zip_file_t \<Rightarrow> ('w, php_stream) st \<Rightarrow> bool" where
  "stream_inv h zf s \<longleftrightarrow>
     (case abstract (self s) of
        Some sd \<Rightarrow> sd_za sd = Some h \<and> sd_zf sd = Some zf
      | None \<Rightarrow> True) \<and>
     (let k = (if abstract (self s) = None then 1 else 0) in
      count_list (map zfile_closed (trace s)) (Some zf) = k \<and>
      count_list (map zip_closed (trace s)) (Some h) = k \<and>
      count_list (trace s) (Ev_efree B_struct) = k \<and>
      (\<forall>e \<in> set (trace s). zfile_closed e \<in> {None, Some zf} \<and> zip_closed e \<in> {None, Some h}))"

lemma stream_read_inv: "preserves (stream_inv h zf) (php_zip_ops_read E n)"
  by (auto simp: preserves_def php_zip_ops_read_def wp_simps call_defs stream_inv_def Let_def
      count_list_append split: prod.split option.splits)

lemma stream_close_inv:
  "stream_inv h zf s \<Longrightarrow> abstract (self s) \<noteq> None \<Longrightarrow>
   wp (php_zip_ops_close E True) (\<lambda>_. stream_inv h zf) s"
  by (auto simp: php_zip_ops_close_def wp_simps call_defs stream_inv_def Let_def count_list_append
      split: prod.split option.splits)

lemma stream_step_inv: "stream_step E s t \<Longrightarrow> stream_inv h zf s \<Longrightarrow> stream_inv h zf t"
proof (induction rule: stream_step.induct)
  case (stream_read s n)
  with stream_read_inv show ?case by (blast intro: preserves_run)
next
  case (stream_close s)
  from stream_close_inv [OF stream_close(2,1), of E] show ?case
    by (cases "run_state (php_zip_ops_close E True) s") (simp add: wp_def)
qed (simp add: stream_inv_def)

lemma stream_init_inv: "stream_init h zf s \<Longrightarrow> stream_inv h zf s"
  by (auto simp: stream_init_def stream_inv_def new_zip_stream_def)

interpretation zip_stream: transition_system "stream_init h zf" "stream_step E" "stream_inv h zf"
  for h zf E
  by unfold_locales (blast intro: stream_step_inv stream_init_inv)+



text \<open>Opening a stream, from a URL or from an archive object, never loses an archive: either a
  stream is answered that holds the one archive and the one file that were opened, or no file
  is open and every archive that was opened has been closed again.\<close>

theorem open_owns_or_closes:
  "wp (php_stream_zip_opener E url mode password) (\<lambda>r s'. \<exists>tr. trace s' = trace s @ tr \<and>
     (case r of
        None \<Rightarrow> picks opened tr = picks zip_closed tr \<and> picks zfile_opened tr = []
      | Some (st, _) \<Rightarrow> \<exists>h zf. st = new_zip_stream h zf mode None \<and> picks opened tr = [h] \<and>
          picks zip_closed tr = [] \<and> picks zfile_opened tr = [zf])) s \<and>
   wp (php_stream_zip_open E fname path mode) (\<lambda>r s'. \<exists>tr. trace s' = trace s @ tr \<and>
     (case r of
        None \<Rightarrow> picks opened tr = picks zip_closed tr \<and> picks zfile_opened tr = []
      | Some st \<Rightarrow> \<exists>h zf. st = new_zip_stream h zf mode (Some (cstr path)) \<and>
          picks opened tr = [h] \<and> picks zip_closed tr = [] \<and> picks zfile_opened tr = [zf])) s"
proof (intro conjI)
  show "wp (php_stream_zip_open E fname path mode) (\<lambda>r s'. \<exists>tr. trace s' = trace s @ tr \<and>
     (case r of
        None \<Rightarrow> picks opened tr = picks zip_closed tr \<and> picks zfile_opened tr = []
      | Some st \<Rightarrow> \<exists>h zf. st = new_zip_stream h zf mode (Some (cstr path)) \<and>
          picks opened tr = [h] \<and> picks zip_closed tr = [] \<and> picks zfile_opened tr = [zf])) s"
    by (auto simp: php_stream_zip_open_def wp_simps call_defs split: prod.split)
  show "wp (php_stream_zip_opener E url mode password) (\<lambda>r s'. \<exists>tr. trace s' = trace s @ tr \<and>
     (case r of
        None \<Rightarrow> picks opened tr = picks zip_closed tr \<and> picks zfile_opened tr = []
      | Some (st, _) \<Rightarrow> \<exists>h zf. st = new_zip_stream h zf mode None \<and> picks opened tr = [h] \<and>
          picks zip_closed tr = [] \<and> picks zfile_opened tr = [zf])) s"
  proof (cases password)
    case None
    then show ?thesis
      by (auto simp: php_stream_zip_opener_def wp_simps call_defs split: prod.split)
  next
    case (Some v)
    then show ?thesis
      by (cases v) (auto simp: php_stream_zip_opener_def wp_simps call_defs split: prod.split)
  qed
qed

end
