(* ===== verification/Zip_Read.thy ===== *)
theory Zip_Read
  imports Zip_Entry Zip_Stream
begin

text \<open>Reading entries through the archive object (ext/php_zip.c): getFromName, getFromIndex and
  getStream.\<close>

text \<open>
  \<open>php_zip_get_from\<close> after the entry was found: the open is by index when the index is not
  negative, else by name. \<open>n\<close> is an \<open>int\<close> in the code, whatever libzip answers.
\<close>

definition get_from_entry ::
  "'w env \<Rightarrow> zip_t \<Rightarrow> zip_stat \<Rightarrow> int \<Rightarrow> string \<Rightarrow> int \<Rightarrow> int \<Rightarrow> ('w, zval) meth" where
  "get_from_entry E intern sb index fname len flags =
     (if sb_size sb < 1 then ret (IS_STRING [])
      else do {
        len \<leftarrow> ret (if len < 1 then as_long (sb_size sb) else len);
        zf \<leftarrow> (if index \<ge> 0 then ptrcall E (Zip_fopen_index intern (as_u64 index) (as_u32 flags))
              else ptrcall E (Zip_fopen intern (cstr fname) (as_u32 flags)));
        case zf of
          None \<Rightarrow> ret IS_FALSE
        | Some zf \<Rightarrow> do {
            (r, buffer) \<leftarrow> zip_fread E zf len;
            let n = as_int r in
            if n < 1 then ret (IS_STRING [])
            else do {
              _ \<leftarrow> icall E (Zip_fclose zf);
              ret (IS_STRING (take (nat n) buffer)) } } })"

definition ZipArchive_getFromName ::
  "'w env \<Rightarrow> (string \<times> int option \<times> int option) option \<Rightarrow> ('w, zval) meth" where
  "ZipArchive_getFromName E args = zpp args (\<lambda>(fname, len_opt, flags_opt).
     ZIP_FROM_OBJECT (\<lambda>intern.
       PHP_ZIP_STAT_PATH E intern fname (dflt 0 flags_opt) (\<lambda>sb.
         get_from_entry E intern sb (-1) fname (dflt 0 len_opt) (dflt 0 flags_opt))))"

text \<open>By index the local \<open>filename\<close> is not initialised: \<open>stack\<close> is what it holds.\<close>

definition ZipArchive_getFromIndex ::
  "'w env \<Rightarrow> string \<Rightarrow> (int \<times> int option \<times> int option) option \<Rightarrow> ('w, zval) meth" where
  "ZipArchive_getFromIndex E stack args = zpp args (\<lambda>(index, len_opt, flags_opt).
     ZIP_FROM_OBJECT (\<lambda>intern.
       PHP_ZIP_STAT_INDEX E intern index 0 (\<lambda>sb.
         get_from_entry E intern sb index stack (dflt 0 len_opt) (dflt 0 flags_opt))))"

text \<open>The answer: the stream when there is one, and the value returned otherwise.\<close>

definition ZipArchive_getStream :: "'w env \<Rightarrow> string option \<Rightarrow> ('w, zval + php_stream) meth" where
  "ZipArchive_getStream E args =
     (case args of
        None \<Rightarrow> do { r \<leftarrow> throws Zpp_failure; ret (Inl r) }
      | Some fname \<Rightarrow> do {
          obj \<leftarrow> get_self;
          case za obj of
            None \<Rightarrow> do { r \<leftarrow> throws invalid_zip_object; ret (Inl r) }
          | Some intern \<Rightarrow> do {
              (r, sb) \<leftarrow> scall E (Zip_stat intern (cstr fname) 0);
              if r \<noteq> 0 then ret (Inl IS_FALSE)
              else do {
                stream \<leftarrow> php_stream_zip_open E (filename obj) fname ''rb'';
                ret (case stream of Some s \<Rightarrow> Inr s | None \<Rightarrow> Inl IS_FALSE) } } })"

section \<open>What a read gives\<close>

text \<open>C11. Reading an entry that was found and opened: the bytes libzip read, when the count it
  answered is positive as an \<open>int\<close>, and the entry is closed; otherwise the empty string, and
  the entry stays open. A count from \<open>2 ^ 31\<close> on is negative as an \<open>int\<close>: so large an
  entry is read as the empty string, and its handle is lost.\<close>

theorem get_from_entry_result:
  assumes "sb_size sb \<ge> 1" and "n = (if len < 1 then as_long (sb_size sb) else len)"
    and "c = (if i \<ge> 0 then Zip_fopen_index h (as_u64 i) (as_u32 fl)
              else Zip_fopen h (cstr fname) (as_u32 fl))"
    and "sys_p E c (world s) = ((Some zf, e), w1)" and "sys_fread E zf n w1 = ((r, b), w2)"
  shows "wp (get_from_entry E h sb i fname len fl) (\<lambda>v s'.
    v = IS_STRING (if as_int r < 1 then [] else take (nat (as_int r)) b) \<and>
    file_balance (trace s') zf = file_balance (trace s) zf + (if as_int r < 1 then 1 else 0)) s"
  using assms
  by (auto simp: get_from_entry_def wp_simps call_defs Let_def file_weight_def split: prod.split)

definition big_env :: "unit env" where
  "big_env = demo_env\<lparr>sys_fread := (\<lambda>zf n w. ((2 ^ 31, ''big''), w))\<rparr>"

theorem get_from_entry_result_witness:
  "wp (get_from_entry big_env 7 (demo_stat\<lparr>sb_size := 2 ^ 31\<rparr>) 0 [] 0 0) (\<lambda>v s'.
     v = IS_STRING [] \<and> file_balance (trace s') 5 = 1) (start_state (php_zip_object_new []))"
proof -
  have "sys_p big_env (Zip_fopen_index 7 (as_u64 0) (as_u32 0)) () = ((Some 5, 0), ())"
    "sys_fread big_env 5 (2 ^ 31) () = ((2 ^ 31, ''big''), ())"
    by (simp_all add: big_env_def demo_env_def)
  then show ?thesis
    using get_from_entry_result [of "demo_stat\<lparr>sb_size := 2 ^ 31\<rparr>" "2 ^ 31" 0
        "Zip_fopen_index 7 (as_u64 0) (as_u32 0)" 0 7 0 "[]" big_env
        "start_state (php_zip_object_new [])" 5 0 "()" "2 ^ 31" "''big''" "()"]
    by (simp add: as_long_def as_int_def start_state_def)
qed

lemma as_int_positive: "-1 \<le> r \<Longrightarrow> \<not> as_int r < 1 \<Longrightarrow> 0 \<le> r"
proof (rule ccontr)
  assume "-1 \<le> r" "\<not> as_int r < 1" "\<not> 0 \<le> r"
  moreover from this have "r = -1" by simp
  ultimately show False by (simp add: as_int_def)
qed

lemma get_from_entry_length:
  assumes "reads_at_most E" and "sb_size sb < 2 ^ 63"
  shows "wp (get_from_entry E h sb i fname len fl) (\<lambda>v s'. v = IS_FALSE \<or>
     (\<exists>b. v = IS_STRING b \<and> int (length b) \<le> (if len < 1 then max 0 (sb_size sb) else len))) s"
proof -
  have b: "int (length b) \<le> max 0 n"
    if "sys_fread E zf n w = ((r, b), w')" "\<not> as_int r < 1" for zf n w r b w'
    using assms(1) that as_int_positive [of r] unfolding reads_at_most_def by fastforce
  have "as_long (sb_size sb) = sb_size sb" if "\<not> sb_size sb < 1"
    using that assms(2) by (intro as_long_id) auto
  then show ?thesis
    by (auto simp: get_from_entry_def wp_simps call_defs Let_def min_def split: prod.split dest!: b)
qed

text \<open>getFromName answers FALSE, throws, or answers a string of at most the length asked for,
  and of at most the size of the entry where no positive length was given.\<close>

theorem getFromName_length:
  assumes "reads_at_most E" and "\<forall>c w. sb_size (snd (fst (sys_s E c w))) \<le> limit"
    and "0 \<le> limit" and "limit < 2 ^ 63"
  shows "wp (ZipArchive_getFromName E (Some (n, len, fl))) (\<lambda>v s'.
     v = IS_FALSE \<or> v = IS_NULL \<and> exn s' \<noteq> None \<or>
     (\<exists>b. v = IS_STRING b \<and> int (length b) \<le> (if dflt 0 len < 1 then limit else dflt 0 len))) s"
proof -
  define P where "P = (\<lambda>v (s' :: ('a, ze_zip_object) st). v = IS_FALSE \<or> v = IS_NULL \<and> exn s' \<noteq> None \<or>
     (\<exists>b. v = IS_STRING b \<and> int (length b) \<le> (if dflt 0 len < 1 then limit else dflt 0 len)))"
  have entry: "wp (get_from_entry E h sb (-1) n (dflt 0 len) (dflt 0 fl)) P t"
    if "sys_s E c w = ((r, sb), w')" for c w r sb w' h t
  proof -
    have "sb_size sb \<le> limit" using assms(2) that by (metis fst_conv snd_conv)
    then show ?thesis
      using assms by (intro wp_mono [OF get_from_entry_length [OF assms(1)]]) (auto simp: P_def split: if_splits)
  qed
  have "P IS_NULL (t\<lparr>exn := Some e\<rparr>)" "P IS_FALSE t" for t e by (simp_all add: P_def)
  then have "wp (ZipArchive_getFromName E (Some (n, len, fl))) P s"
    by (auto simp: ZipArchive_getFromName_def PHP_ZIP_STAT_PATH_def wp_simps scall_def
        intro: entry split: prod.split)
  then show ?thesis by (simp add: P_def)
qed

theorem getFromName_length_witness:
  "wp (ZipArchive_getFromName demo_env (Some (''n'', Some 2, None))) (\<lambda>v s'.
     v = IS_FALSE \<or> v = IS_NULL \<and> exn s' \<noteq> None \<or> (\<exists>b. v = IS_STRING b \<and> length b \<le> 2)) open_state"
proof -
  have "reads_at_most demo_env" "\<forall>c w. sb_size (snd (fst (sys_s demo_env c w))) \<le> 3"
    by (simp_all add: reads_at_most_def demo_env_def demo_stat_def)
  then show ?thesis
    by (intro wp_mono [OF getFromName_length [of demo_env 3 "''n''" "Some 2" None open_state]]) auto
qed

end
