(* ===== verification/Zip_Props.thy ===== *)
theory Zip_Props
  imports Zip_Object
begin

text \<open>
  The virtual properties of a ZipArchive object (ext/php_zip.c): the table of property handlers
  and the object handlers that read, test and refuse to write them. Where the name has no
  handler the code calls the standard handler of Zend: the answer is then \<open>Std\<close>.
\<close>

datatype 'a prop_access = Own 'a | Std

section \<open>The table\<close>

text \<open>\<open>zend_hash_add_mem\<close> adds a key only when it is absent, at the end.\<close>

definition php_zip_register_prop_handler ::
  "prop_table \<Rightarrow> string \<Rightarrow> read_int_func option \<Rightarrow> read_char_func option \<Rightarrow> zend_type \<Rightarrow> prop_table" where
  "php_zip_register_prop_handler t name ri rc rettype =
     (case map_of t name of
        None \<Rightarrow> t @ [(name, \<lparr>hnd_read_int_func = ri, hnd_read_const_char_func = rc,
                           hnd_type = rettype\<rparr>)]
      | Some _ \<Rightarrow> t)"

definition zip_prop_handlers :: prop_table where
  "zip_prop_handlers =
     (let t0 = [];
          t1 = php_zip_register_prop_handler t0 ''lastId'' (Some Php_zip_last_id) None T_LONG;
          t2 = php_zip_register_prop_handler t1 ''status'' (Some Php_zip_status) None T_LONG;
          t3 = php_zip_register_prop_handler t2 ''statusSys'' (Some Php_zip_status_sys) None T_LONG;
          t4 = php_zip_register_prop_handler t3 ''numFiles'' (Some Php_zip_get_num_files) None T_LONG;
          t5 = php_zip_register_prop_handler t4 ''filename'' None (Some Php_zipobj_get_filename) T_STRING;
          t6 = php_zip_register_prop_handler t5 ''comment'' None (Some Php_zipobj_get_zip_comment) T_STRING
      in t6)"

section \<open>Reading through a handler\<close>

fun run_int_func :: "'w env \<Rightarrow> read_int_func \<Rightarrow> ('w, int) meth" where
  "run_int_func E Php_zip_last_id = php_zip_last_id E"
| "run_int_func E Php_zip_status = php_zip_status E"
| "run_int_func E Php_zip_status_sys = php_zip_status_sys E"
| "run_int_func E Php_zip_get_num_files = php_zip_get_num_files E"

fun run_char_func :: "'w env \<Rightarrow> read_char_func \<Rightarrow> ('w, string option) meth" where
  "run_char_func E Php_zipobj_get_filename = php_zipobj_get_filename E"
| "run_char_func E Php_zipobj_get_zip_comment = php_zipobj_get_zip_comment E"

definition php_zip_property_reader :: "'w env \<Rightarrow> zip_prop_handler \<Rightarrow> ('w, zval) meth" where
  "php_zip_property_reader E hnd = do {
     (retchar, retint) \<leftarrow> (case hnd_read_const_char_func hnd of
        Some f \<Rightarrow> do { c \<leftarrow> run_char_func E f; ret (c, 0) }
      | None \<Rightarrow> (case hnd_read_int_func hnd of
          Some f \<Rightarrow> do { i \<leftarrow> run_int_func E f; ret (None, i) }
        | None \<Rightarrow> ret (None, 0)));
     ret (case hnd_type hnd of
        T_STRING \<Rightarrow> IS_STRING (dflt [] retchar)
      | T_LONG \<Rightarrow> IS_LONG retint
      | T_OTHER \<Rightarrow> IS_NULL) }"

definition find_handler :: "ze_zip_object \<Rightarrow> string \<Rightarrow> zip_prop_handler option" where
  "find_handler obj name =
     (case prop_handler obj of None \<Rightarrow> None | Some t \<Rightarrow> map_of t name)"

definition php_zip_get_property_ptr_ptr :: "string \<Rightarrow> ('w, unit prop_access) meth" where
  "php_zip_get_property_ptr_ptr name = do {
     obj \<leftarrow> get_self;
     ret (case find_handler obj name of None \<Rightarrow> Std | Some _ \<Rightarrow> Own ()) }"

definition php_zip_write_property :: "string \<Rightarrow> zval \<Rightarrow> ('w, unit prop_access) meth" where
  "php_zip_write_property name value = do {
     obj \<leftarrow> get_self;
     case find_handler obj name of
       Some _ \<Rightarrow> do {
         zend_throw (Error ''Cannot write read-only property %s::$%s'' [DS ''ZipArchive'', DS name]);
         ret (Own ()) }
     | None \<Rightarrow> ret Std }"

definition php_zip_read_property :: "'w env \<Rightarrow> string \<Rightarrow> ('w, zval prop_access) meth" where
  "php_zip_read_property E name = do {
     obj \<leftarrow> get_self;
     case find_handler obj name of
       Some hnd \<Rightarrow> do { v \<leftarrow> php_zip_property_reader E hnd; ret (Own v) }
     | None \<Rightarrow> ret Std }"

text \<open>\<open>type\<close>: 0 asks for "exists and is not NULL", 1 for "exists and is true", 2 for
  "exists".\<close>

definition php_zip_has_property :: "'w env \<Rightarrow> string \<Rightarrow> int \<Rightarrow> ('w, bool prop_access) meth" where
  "php_zip_has_property E name type = do {
     obj \<leftarrow> get_self;
     case find_handler obj name of
       Some hnd \<Rightarrow>
         if type = 2 then ret (Own True)
         else do {
           tmp \<leftarrow> php_zip_property_reader E hnd;
           ret (Own (if type = 1 then zend_is_true E tmp
                     else if type = 0 then tmp \<noteq> IS_NULL else False)) }
     | None \<Rightarrow> ret Std }"

text \<open>The loop over the table stores every virtual property into the standard ones.\<close>

definition zend_hash_update :: "(string \<times> zval) list \<Rightarrow> string \<Rightarrow> zval \<Rightarrow> (string \<times> zval) list" where
  "zend_hash_update props k v =
     (if map_of props k = None then props @ [(k, v)]
      else map (\<lambda>(k', v'). (k', if k' = k then v else v')) props)"

fun store_properties ::
  "'w env \<Rightarrow> prop_table \<Rightarrow> (string \<times> zval) list \<Rightarrow> ('w, (string \<times> zval) list) meth" where
  "store_properties E [] props = ret props"
| "store_properties E ((key, hnd) # t) props = do {
     v \<leftarrow> php_zip_property_reader E hnd;
     store_properties E t (zend_hash_update props key v) }"

definition php_zip_get_properties ::
  "'w env \<Rightarrow> (string \<times> zval) list \<Rightarrow> ('w, (string \<times> zval) list option) meth" where
  "php_zip_get_properties E std_props = do {
     obj \<leftarrow> get_self;
     case prop_handler obj of
       None \<Rightarrow> ret None
     | Some t \<Rightarrow> do { props \<leftarrow> store_properties E t std_props; ret (Some props) } }"

section \<open>Properties of the property handlers\<close>

text \<open>
  The contract of the table the handlers look names up in: a registered name is found with its
  handler, registering it again changes nothing, other names are not affected.
\<close>

locale handler_table =
  fixes find :: "'t \<Rightarrow> string \<Rightarrow> 'h option"
    and register :: "'t \<Rightarrow> string \<Rightarrow> 'h \<Rightarrow> 't"
  assumes find_register: "find t n = None \<Longrightarrow> find (register t n h) m = (if m = n then Some h else find t m)"
    and register_again: "find t n = Some h' \<Longrightarrow> register t n h = t"
begin

lemma find_mono: "find t m = Some h' \<Longrightarrow> find (register t n h) m = Some h'"
  by (cases "find t n") (auto simp: find_register register_again)

lemma find_registered: "find (register t n h) n = Some (case find t n of None \<Rightarrow> h | Some h' \<Rightarrow> h')"
  by (cases "find t n") (auto simp: find_register register_again)

lemma find_fold:
  "distinct (map fst hs) \<Longrightarrow> find (foldl (\<lambda>t (n, h). register t n h) t hs) m =
     (case find t m of Some h \<Rightarrow> Some h | None \<Rightarrow> map_of hs m)"
proof (induction hs arbitrary: t)
  case (Cons nh hs)
  obtain n h where nh: "nh = (n, h)" by (cases nh)
  have "map_of hs n = None" using Cons.prems nh by (simp add: map_of_eq_None_iff)
  with Cons nh show ?case
    by (cases "find t n") (auto simp: find_register register_again split: option.splits)
qed (auto split: option.split)

end

definition register_handler :: "prop_table \<Rightarrow> string \<Rightarrow> zip_prop_handler \<Rightarrow> prop_table" where
  "register_handler t n h =
     php_zip_register_prop_handler t n (hnd_read_int_func h) (hnd_read_const_char_func h) (hnd_type h)"

interpretation prop_handlers: handler_table map_of register_handler
  by unfold_locales
     (auto simp: register_handler_def php_zip_register_prop_handler_def map_add_def split: option.split)

definition handler_list :: "(string \<times> zip_prop_handler) list" where
  "handler_list =
     [(''lastId'', \<lparr>hnd_read_int_func = Some Php_zip_last_id, hnd_read_const_char_func = None, hnd_type = T_LONG\<rparr>),
      (''status'', \<lparr>hnd_read_int_func = Some Php_zip_status, hnd_read_const_char_func = None, hnd_type = T_LONG\<rparr>),
      (''statusSys'', \<lparr>hnd_read_int_func = Some Php_zip_status_sys, hnd_read_const_char_func = None, hnd_type = T_LONG\<rparr>),
      (''numFiles'', \<lparr>hnd_read_int_func = Some Php_zip_get_num_files, hnd_read_const_char_func = None, hnd_type = T_LONG\<rparr>),
      (''filename'', \<lparr>hnd_read_int_func = None, hnd_read_const_char_func = Some Php_zipobj_get_filename, hnd_type = T_STRING\<rparr>),
      (''comment'', \<lparr>hnd_read_int_func = None, hnd_read_const_char_func = Some Php_zipobj_get_zip_comment, hnd_type = T_STRING\<rparr>)]"

lemma zip_prop_handlers_fold:
  "zip_prop_handlers = foldl (\<lambda>t (n, h). register_handler t n h) [] handler_list"
  by (simp add: zip_prop_handlers_def handler_list_def register_handler_def Let_def)

lemma find_zip_prop_handlers: "map_of zip_prop_handlers n = map_of handler_list n"
  unfolding zip_prop_handlers_fold
  by (subst prop_handlers.find_fold) (simp_all add: handler_list_def)

lemma wp_reader_type:
  "hnd_type h = T_STRING \<Longrightarrow> (\<And>t s'. Q (IS_STRING t) s') \<Longrightarrow> wp (php_zip_property_reader E h) Q s"
  "hnd_type h = T_LONG \<Longrightarrow> (\<And>i s'. Q (IS_LONG i) s') \<Longrightarrow> wp (php_zip_property_reader E h) Q s"
  by (simp_all add: php_zip_property_reader_def wp_def split: prod.split)

text \<open>C26. The virtual properties are the six of the table and they are read-only: writing one throws
  and changes nothing, it always exists, and reading it answers a value of its own type; for any
  other name the three handlers and the pointer handler all pass to the standard ones.\<close>

theorem virtual_properties:
  assumes "prop_handler (self s) = Some zip_prop_handlers"
  shows "let own = n \<in> {''lastId'', ''status'', ''statusSys'', ''numFiles'', ''filename'', ''comment''} in
    wp (php_zip_write_property n v) (\<lambda>r s'. self s' = self s \<and> trace s' = trace s \<and>
       (if own then r = Own () \<and> exn s' \<noteq> None else r = Std \<and> s' = s)) s \<and>
    wp (php_zip_has_property E n 2) (\<lambda>r s'. s' = s \<and> r = (if own then Own True else Std)) s \<and>
    wp (php_zip_get_property_ptr_ptr n) (\<lambda>r s'. s' = s \<and> r = (if own then Own () else Std)) s \<and>
    wp (php_zip_read_property E n) (\<lambda>r s'. if own
       then (if n = ''filename'' \<or> n = ''comment'' then \<exists>t. r = Own (IS_STRING t) else \<exists>i. r = Own (IS_LONG i))
       else r = Std \<and> s' = s) s"
proof (cases "map_of handler_list n")
  case None
  then have "n \<notin> {''lastId'', ''status'', ''statusSys'', ''numFiles'', ''filename'', ''comment''}"
    unfolding map_of_eq_None_iff by (simp add: handler_list_def)
  with None assms show ?thesis
    by (simp add: php_zip_write_property_def php_zip_has_property_def php_zip_get_property_ptr_ptr_def
        php_zip_read_property_def find_handler_def find_zip_prop_handlers wp_simps)
next
  case (Some h)
  then have "(n, h) \<in> set handler_list" by (rule map_of_SomeD)
  note in_list = this
  then have "n \<in> fst ` set handler_list" by force
  then have own: "n \<in> {''lastId'', ''status'', ''statusSys'', ''numFiles'', ''filename'', ''comment''}"
    by (simp only: handler_list_def list.set image_insert image_empty fst_conv)
  have "\<forall>(n, h) \<in> set handler_list.
      hnd_type h = (if n = ''filename'' \<or> n = ''comment'' then T_STRING else T_LONG)"
    by (simp add: handler_list_def)
  with in_list have ty: "hnd_type h = (if n = ''filename'' \<or> n = ''comment'' then T_STRING else T_LONG)"
    by blast
  have f: "find_handler (self s) n = Some h"
    using assms Some by (simp add: find_handler_def find_zip_prop_handlers)
  have rd: "wp (php_zip_read_property E n) (\<lambda>r s'. if n = ''filename'' \<or> n = ''comment''
      then \<exists>t. r = Own (IS_STRING t) else \<exists>i. r = Own (IS_LONG i)) s"
    unfolding php_zip_read_property_def wp_bind wp_get_self f option.case
    by (cases "n = ''filename'' \<or> n = ''comment''", rule wp_reader_type(1), use ty in simp,
        simp only: wp_return if_True, blast,
        rule wp_reader_type(2), use ty in simp, simp only: wp_return if_False, blast)
  have "wp (php_zip_write_property n v) (\<lambda>r s'. self s' = self s \<and> trace s' = trace s \<and>
       r = Own () \<and> exn s' \<noteq> None) s"
    "wp (php_zip_has_property E n 2) (\<lambda>r s'. s' = s \<and> r = Own True) s"
    "wp (php_zip_get_property_ptr_ptr n) (\<lambda>r s'. s' = s \<and> r = Own ()) s"
    by (simp_all add: php_zip_write_property_def php_zip_has_property_def
        php_zip_get_property_ptr_ptr_def f wp_bind wp_get_self wp_return wp_zend_throw)
  with own rd show ?thesis by (simp only: Let_def if_True simp_thms)
qed

text \<open>The properties of an object with no open archive are computed from its fields alone, with no
  call to libzip: the remembered error codes, no entries, and empty strings.\<close>

theorem closed_object_properties:
  assumes "prop_handler (self s) = Some zip_prop_handlers" and "za (self s) = None" and "filename (self s) = None"
  shows "run_state (php_zip_get_properties E []) s = (Some
    [(''lastId'', IS_LONG (last_id (self s))), (''status'', IS_LONG (err_zip (self s))),
     (''statusSys'', IS_LONG (err_sys (self s))), (''numFiles'', IS_LONG 0),
     (''filename'', IS_STRING []), (''comment'', IS_STRING [])], s)"
proof -
  have t: "zip_prop_handlers = handler_list" by code_simp
  show ?thesis
    using assms
    by (simp add: php_zip_get_properties_def t handler_list_def php_zip_property_reader_def run_simps
        php_zip_last_id_def php_zip_status_def php_zip_status_sys_def php_zip_get_num_files_def
        php_zipobj_get_filename_def php_zipobj_get_zip_comment_def zend_hash_update_def)
qed

definition fresh_state :: "(unit, ze_zip_object) st" where
  "fresh_state = start_state (php_zip_object_new zip_prop_handlers)"

lemma fresh_state_self: "self fresh_state = php_zip_object_new zip_prop_handlers"
  by (simp add: fresh_state_def start_state_def)

theorem virtual_properties_witness:
  "wp (php_zip_write_property ''numFiles'' IS_NULL) (\<lambda>r s'. exn s' \<noteq> None) fresh_state \<and>
   wp (php_zip_has_property demo_env ''foo'' 2) (\<lambda>r s'. r = Std) fresh_state"
proof -
  have h: "prop_handler (self fresh_state) = Some zip_prop_handlers"
    by (simp add: fresh_state_self php_zip_object_new_def)
  show ?thesis
    using virtual_properties [OF h, of "''numFiles''" IS_NULL demo_env]
      virtual_properties [OF h, of "''foo''" IS_NULL demo_env]
    by (auto simp: Let_def elim!: wp_mono)
qed

theorem closed_object_properties_witness:
  "fst (run_state (php_zip_get_properties demo_env []) fresh_state) =
   Some [(''lastId'', IS_LONG (-1)), (''status'', IS_LONG 0), (''statusSys'', IS_LONG 0),
     (''numFiles'', IS_LONG 0), (''filename'', IS_STRING []), (''comment'', IS_STRING [])]"
  using closed_object_properties [of fresh_state demo_env]
  by (simp add: fresh_state_self php_zip_object_new_def)

end
