(* ===== verification/Zip_Machine.thy ===== *)
theory Zip_Machine
  imports Zip_Extract Zip_Add Zip_Read Zip_Props
begin

text \<open>
  The archive object over its whole life: any sequence of method calls, of callbacks run by
  libzip and of reads of its properties, with any arguments and any answers of the environment.
  The invariant relates the fields of the object, the handle it holds and the references it
  keeps to the trace of what was done.
\<close>

section \<open>The invariant\<close>

definition object_inv :: "ze_zip_object \<Rightarrow> bool" where
  "object_inv ob \<longleftrightarrow>
     (za ob = None \<longleftrightarrow> filename ob = None) \<and>
     (\<forall>f. filename ob = Some f \<longrightarrow> filename_len ob = as_int (int (length f))) \<and>
     buffers_cnt ob = int (length (buffers ob)) \<and> None \<notin> set (buffers ob)"

text \<open>References to a callback value: taken minus released.\<close>

definition callback_balance :: "event list \<Rightarrow> nat \<Rightarrow> int" where
  "callback_balance tr cb =
     int (count_list tr (Ev_zval_copy cb)) - int (count_list tr (Ev_zval_dtor cb))"

definition callbacks_held :: "ze_zip_object \<Rightarrow> nat \<Rightarrow> int" where
  "callbacks_held ob cb =
     (if progress_callback ob = Some cb then 1 else 0) + (if cancel_callback ob = Some cb then 1 else 0)"

definition zip_inv :: "('w, ze_zip_object) st \<Rightarrow> bool" where
  "zip_inv s \<longleftrightarrow>
     object_inv (self s) \<and> well_used s \<and>
     (\<forall>h. za (self s) = Some h \<longrightarrow> holds_handle h s) \<and>
     (\<forall>cb. callback_balance (trace s) cb = callbacks_held (self s) cb)"

text \<open>The invariant with the handle fixed: what the operations keep that do not close it.\<close>

definition inv_za :: "zip_t option \<Rightarrow> ('w, ze_zip_object) st \<Rightarrow> bool" where
  "inv_za x s \<longleftrightarrow> zip_inv s \<and> za (self s) = x"

lemma preserves_zip_inv: "(\<And>x. preserves (inv_za x) m) \<Longrightarrow> preserves zip_inv m"
  unfolding preserves_def inv_za_def by (metis (mono_tags, lifting) wp_mono)

text \<open>Events that neither open nor close an archive, use the held handle only, and leave the
  callbacks alone.\<close>

definition quiet :: "zip_t option \<Rightarrow> event \<Rightarrow> bool" where
  "quiet x e \<longleftrightarrow>
     set_option (used_archive e) \<subseteq> set_option x \<and> opened e = None \<and> closed e = None \<and>
     (\<forall>cb. e \<noteq> Ev_zval_copy cb \<and> e \<noteq> Ev_zval_dtor cb)"

lemma callback_balance_append [simp]:
  "callback_balance (a @ b) cb = callback_balance a cb + callback_balance b cb"
  by (simp add: callback_balance_def)

lemma callback_balance_Nil [simp]: "callback_balance [] cb = 0"
  by (simp add: callback_balance_def)

lemma callback_balance_single:
  "callback_balance [e] cb =
    (if e = Ev_zval_copy cb then 1 else 0) - (if e = Ev_zval_dtor cb then 1 else 0)"
  by (simp add: callback_balance_def)

lemma quiet_live_step: "quiet x e \<Longrightarrow> live_step L e = L"
  by (simp add: quiet_def live_step_def)

lemma inv_za_quiet:
  "inv_za x s \<Longrightarrow> quiet x e \<Longrightarrow> inv_za x (s\<lparr>world := w, trace := trace s @ [e]\<rparr>)"
  by (cases x)
     (auto simp: inv_za_def zip_inv_def well_used_def holds_handle_def quiet_live_step
        callback_balance_single, auto simp: quiet_def)

lemma inv_za_quiet_trace:
  "inv_za x s \<Longrightarrow> quiet x e \<Longrightarrow> inv_za x (s\<lparr>trace := trace s @ [e]\<rparr>)"
  using inv_za_quiet [of x s e "world s"] by simp

named_theorems keeps \<open>operations that keep the invariant with its handle\<close>

lemma keeps_perform: "(\<And>r. quiet x (ev r)) \<Longrightarrow> preserves (inv_za x) (perform f ev)"
  by (auto simp: preserves_def wp_simps inv_za_quiet split: prod.split)

lemma keeps_emit: "quiet x e \<Longrightarrow> preserves (inv_za x) (emit e)"
  by (auto simp: preserves_def wp_simps inv_za_quiet_trace)

lemma keeps_docref [keeps]: "preserves (inv_za x) (php_error_docref l m a)"
  unfolding php_error_docref_def by (rule keeps_emit) (simp add: quiet_def)

lemma keeps_throw [keeps]: "preserves (inv_za x) (zend_throw e)"
  by (simp add: preserves_def wp_simps inv_za_def zip_inv_def well_used_def holds_handle_def)

lemma keeps_throws [keeps]: "preserves (inv_za x) (throws e)"
  unfolding throws_def by (intro preserves_intros keeps)

lemma keeps_icall [keeps]:
  "set_option (icall_archive c) \<subseteq> set_option x \<Longrightarrow> (\<And>h. c \<noteq> Zip_close h \<and> c \<noteq> Zip_discard h) \<Longrightarrow>
   preserves (inv_za x) (icall E c)"
  unfolding icall_def by (rule keeps_perform) (cases c; auto simp: quiet_def)

lemma keeps_pcall [keeps]:
  "set_option (pcall_archive c) \<subseteq> set_option x \<Longrightarrow> (\<And>p f. c \<noteq> Zip_open p f) \<Longrightarrow>
   preserves (inv_za x) (pcall E c)"
  unfolding pcall_def by (rule keeps_perform) (cases c; auto simp: quiet_def)

lemma keeps_ptrcall [keeps]:
  "set_option (pcall_archive c) \<subseteq> set_option x \<Longrightarrow> (\<And>p f. c \<noteq> Zip_open p f) \<Longrightarrow>
   preserves (inv_za x) (ptrcall E c)"
  unfolding ptrcall_def by (intro preserves_intros keeps)

lemma keeps_scall [keeps]:
  "set_option (scall_archive c) \<subseteq> set_option x \<Longrightarrow> preserves (inv_za x) (scall E c)"
  unfolding scall_def by (rule keeps_perform) (auto simp: quiet_def)

lemma keeps_tcall [keeps]:
  "set_option (tcall_archive c) \<subseteq> set_option x \<Longrightarrow> preserves (inv_za x) (tcall E c)"
  unfolding tcall_def by (rule keeps_perform) (auto simp: quiet_def)

lemma keeps_fcall [keeps]: "preserves (inv_za x) (fcall E c)"
  unfolding fcall_def by (rule keeps_perform) (auto simp: quiet_def)

lemma keeps_qcall [keeps]: "preserves (inv_za x) (qcall E c)"
  unfolding qcall_def by (rule keeps_perform) (auto simp: quiet_def)

lemma keeps_lcall [keeps]: "preserves (inv_za x) (lcall E c)"
  unfolding lcall_def by (rule keeps_perform) (auto simp: quiet_def)

lemma keeps_fread [keeps]: "preserves (inv_za x) (zip_fread E zf n)"
  unfolding zip_fread_def by (rule keeps_perform) (auto simp: quiet_def)

lemma keeps_attr [keeps]:
  "x = Some h \<Longrightarrow> preserves (inv_za x) (zip_file_get_external_attributes E h i f)"
  unfolding zip_file_get_external_attributes_def by (rule keeps_perform) (auto simp: quiet_def)

lemma keeps_user [keeps]: "preserves (inv_za x) (call_user_function E cb a)"
  unfolding call_user_function_def by (rule keeps_perform) (auto simp: quiet_def)

lemma keeps_emit_ref [keeps]: "preserves (inv_za x) (emit (Ev_assign_ref i v))"
  by (rule keeps_emit) (simp add: quiet_def)

lemma keeps_basedir [keeps]: "preserves (inv_za x) (ZIP_OPENBASEDIR_CHECKPATH E p)"
  unfolding ZIP_OPENBASEDIR_CHECKPATH_def by (intro preserves_intros keeps)

lemma keeps_zpp [keeps]:
  "(\<And>a. preserves (inv_za x) (k a)) \<Longrightarrow> preserves (inv_za x) (zpp args k)"
  unfolding zpp_def by (intro preserves_intros keeps)

lemma keeps_get_self [keeps]:
  "(\<And>ob. za ob = x \<Longrightarrow> preserves (inv_za x) (f ob)) \<Longrightarrow>
   preserves (inv_za x) (State_Monad.bind get_self f)"
  by (auto simp: preserves_def wp_simps inv_za_def)

lemma keeps_ZIP_FROM_OBJECT [keeps]:
  "(\<And>h. x = Some h \<Longrightarrow> preserves (inv_za x) (k h)) \<Longrightarrow> preserves (inv_za x) (ZIP_FROM_OBJECT k)"
  unfolding ZIP_FROM_OBJECT_def by (intro preserves_intros keeps) auto

lemma keeps_last_id [keeps]: "preserves (inv_za x) (modify_self (last_id_update f))"
  by (auto simp: preserves_def wp_simps inv_za_def zip_inv_def object_inv_def well_used_def
      holds_handle_def callbacks_held_def)

lemmas keep_rules = keeps preserves_intros

section \<open>The methods that work on an open archive\<close>

text \<open>Every method that starts from \<open>ZIP_FROM_OBJECT\<close> and only reads or changes what is in
  the archive, with any arguments.\<close>

inductive entry_method :: "'w env \<Rightarrow> ('w, zval) meth \<Rightarrow> bool" for E where
  "entry_method E (ZipArchive_setPassword E a1)"
| "entry_method E (ZipArchive_count E a2)"
| "entry_method E (ZipArchive_statName E a3)"
| "entry_method E (ZipArchive_statIndex E a4)"
| "entry_method E (ZipArchive_locateName E a5)"
| "entry_method E (ZipArchive_getNameIndex E a6)"
| "entry_method E (ZipArchive_setArchiveComment E a7)"
| "entry_method E (ZipArchive_getArchiveComment E a8)"
| "entry_method E (ZipArchive_setCommentName E a9)"
| "entry_method E (ZipArchive_setCommentIndex E a10)"
| "entry_method E (ZipArchive_getCommentName E a11)"
| "entry_method E (ZipArchive_getCommentIndex E a12)"
| "entry_method E (ZipArchive_setExternalAttributesName E a13)"
| "entry_method E (ZipArchive_setExternalAttributesIndex E a14)"
| "entry_method E (ZipArchive_getExternalAttributesName E a15)"
| "entry_method E (ZipArchive_getExternalAttributesIndex E a16)"
| "entry_method E (ZipArchive_setEncryptionName E a17)"
| "entry_method E (ZipArchive_setEncryptionIndex E a18)"
| "entry_method E (ZipArchive_setCompressionName E a19)"
| "entry_method E (ZipArchive_setCompressionIndex E a20)"
| "entry_method E (ZipArchive_setMtimeName E a21)"
| "entry_method E (ZipArchive_setMtimeIndex E a22)"
| "entry_method E (ZipArchive_deleteIndex E a23)"
| "entry_method E (ZipArchive_deleteName E a24)"
| "entry_method E (ZipArchive_renameIndex E a25)"
| "entry_method E (ZipArchive_renameName E a26)"
| "entry_method E (ZipArchive_unchangeIndex E a27)"
| "entry_method E (ZipArchive_unchangeName E a28)"
| "entry_method E (ZipArchive_unchangeAll E a29)"
| "entry_method E (ZipArchive_unchangeArchive E a30)"
| "entry_method E (ZipArchive_getFromName E a31)"
| "entry_method E (ZipArchive_getFromIndex E st a32)"
| "entry_method E (ZipArchive_addEmptyDir E a33)"

lemmas entry_method_defs =
  ZipArchive_setPassword_def ZipArchive_count_def ZipArchive_statName_def ZipArchive_statIndex_def
  ZipArchive_locateName_def ZipArchive_getNameIndex_def ZipArchive_setArchiveComment_def
  ZipArchive_getArchiveComment_def ZipArchive_setCommentName_def ZipArchive_setCommentIndex_def
  ZipArchive_getCommentName_def ZipArchive_getCommentIndex_def
  ZipArchive_setExternalAttributesName_def ZipArchive_setExternalAttributesIndex_def
  ZipArchive_getExternalAttributesName_def ZipArchive_getExternalAttributesIndex_def
  ZipArchive_setEncryptionName_def ZipArchive_setEncryptionIndex_def
  ZipArchive_setCompressionName_def ZipArchive_setCompressionIndex_def
  ZipArchive_setMtimeName_def ZipArchive_setMtimeIndex_def
  ZipArchive_deleteIndex_def ZipArchive_deleteName_def ZipArchive_renameIndex_def
  ZipArchive_renameName_def ZipArchive_unchangeIndex_def ZipArchive_unchangeName_def
  ZipArchive_unchangeAll_def ZipArchive_unchangeArchive_def
  ZipArchive_getFromName_def ZipArchive_getFromIndex_def ZipArchive_addEmptyDir_def

lemmas macro_defs =
  PHP_ZIP_STAT_INDEX_def PHP_ZIP_STAT_PATH_def PHP_ZIP_SET_FILE_COMMENT_def get_from_entry_def

lemma entry_method_keeps: "entry_method E m \<Longrightarrow> preserves (inv_za x) m"
  by (induction rule: entry_method.induct;
      unfold entry_method_defs macro_defs; intro keep_rules; auto)

section \<open>The other methods\<close>

lemma keeps_add_file: "preserves (inv_za x) (php_zip_add_file E f n os ol r fl)"
  unfolding php_zip_add_file_def by (intro keep_rules; auto)

lemma keeps_add_found_file: "preserves (inv_za x) (add_found_file E opts f)"
  unfolding add_found_file_def by (intro keep_rules keeps_add_file; auto)

lemma keeps_add_loop: "preserves (inv_za x) (add_loop E opts arr js)"
  by (induction js)
     (auto intro!: keep_rules keeps_add_found_file split: option.split zval.split)

lemma keeps_path_option: "preserves (inv_za x) (zip_path_option E ht k)"
  unfolding zip_path_option_def
  by (auto intro!: keep_rules split: option.split zval.split)

lemma keeps_option_warning: "preserves (inv_za x) (option_warning E k t v)"
  unfolding option_warning_def by (rule keeps)

lemma keeps_parse_options: "preserves (inv_za x) (php_zip_parse_options E ht)"
  unfolding php_zip_parse_options_def parse_compression_options_def parse_encryption_options_def
    parse_flags_option_def
  by (intro keep_rules keeps_path_option)
     (auto split: zval.split intro!: keep_rules keeps_option_warning)

lemma keeps_glob_loop: "preserves (inv_za x) (glob_loop E f c ps)"
  by (induction ps) (auto intro!: keep_rules)

lemma keeps_prefix_cwd: "preserves (inv_za x) (prefix_cwd E p)"
  unfolding prefix_cwd_def Let_def by (intro keep_rules) auto

lemma keeps_glob: "preserves (inv_za x) (php_zip_glob E p f)"
  unfolding php_zip_glob_def
  by (intro keep_rules keeps_prefix_cwd)
     (auto split: list.split intro!: keep_rules keeps_glob_loop)

lemma keeps_pcre_loop: "preserves (inv_za x) (pcre_loop E re p l ns)"
  by (induction ns) (auto intro!: keep_rules)

lemma keeps_pcre: "preserves (inv_za x) (php_zip_pcre E r p)"
  unfolding php_zip_pcre_def
  by (intro keep_rules keeps_prefix_cwd keeps_pcre_loop) auto

lemma keeps_add_from_pattern:
  "preserves (inv_za x) lf \<Longrightarrow> preserves (inv_za x) (php_zip_add_from_pattern E st p ops lf)"
  unfolding php_zip_add_from_pattern_def
  by (intro keep_rules keeps_parse_options)
     (auto split: zval.split intro!: keep_rules keeps_add_loop)

lemma keeps_copy_loop: "preserves (inv_za x) (copy_loop E fuel zf st)"
  by (induction fuel) (auto intro!: keep_rules simp: Let_def)

lemma keeps_ensure_directory: "preserves (inv_za x) (ensure_directory E d r)"
  unfolding ensure_directory_def by (intro keep_rules)

lemma keeps_extract_contents: "x = Some h \<Longrightarrow> preserves (inv_za x) (extract_contents E fuel h f p m)"
  unfolding extract_contents_def by (intro keep_rules keeps_copy_loop; auto)

lemma keeps_extract_to_file: "x = Some h \<Longrightarrow> preserves (inv_za x) (extract_to_file E fuel h d f p m)"
  unfolding extract_to_file_def
  by (intro keep_rules keeps_ensure_directory keeps_extract_contents; auto)

lemma keeps_extract_file: "x = Some h \<Longrightarrow> preserves (inv_za x) (php_zip_extract_file E fuel h d f)"
  unfolding php_zip_extract_file_def
  by (intro keep_rules keeps_ensure_directory keeps_extract_to_file; auto)

lemma keeps_extract_array:
  "x = Some h \<Longrightarrow> preserves (inv_za x) (extract_array E fuel h d ht js)"
  by (induction js)
     (auto intro!: keep_rules keeps_extract_file split: option.split zval.split)

lemma keeps_extract_all:
  "x = Some h \<Longrightarrow> preserves (inv_za x) (extract_all E fuel h d js)"
  by (induction js) (auto intro!: keep_rules keeps_extract_file)

lemma keeps_extractTo: "preserves (inv_za x) (ZipArchive_extractTo E fuel args)"
  unfolding ZipArchive_extractTo_def
  by (intro keep_rules keeps_ensure_directory)
     (auto split: file_selection.split intro!: keep_rules keeps_extract_file keeps_extract_array
        keeps_extract_all)

lemma keeps_property_reader: "preserves (inv_za x) (php_zip_property_reader E hnd)"
proof -
  have "preserves (inv_za x) (run_int_func E f)" for f
    by (cases f) (auto simp: php_zip_last_id_def php_zip_status_def php_zip_status_sys_def
        php_zip_get_num_files_def intro!: keep_rules)
  moreover have "preserves (inv_za x) (run_char_func E f)" for f
    by (cases f) (auto simp: php_zipobj_get_filename_def php_zipobj_get_zip_comment_def
        intro!: keep_rules)
  ultimately show ?thesis unfolding php_zip_property_reader_def by (intro preserves_intros)
qed

lemma callback_balance_Cons:
  "callback_balance (e # es) cb =
    (if e = Ev_zval_copy cb then 1 else 0) - (if e = Ev_zval_dtor cb then 1 else 0) +
    callback_balance es cb"
  by (auto simp: callback_balance_def)

lemmas inv_defs = inv_za_def zip_inv_def object_inv_def well_used_def holds_handle_def
  callback_balance_Cons callbacks_held_def live_step_def

lemma keeps_keep_buffer: "preserves (inv_za x) (keep_buffer b)"
  unfolding preserves_def
  by (intro allI impI, subst wp_keep_buffer) (auto simp: inv_defs)

lemma keeps_addFromString: "preserves (inv_za x) (ZipArchive_addFromString E args)"
  unfolding ZipArchive_addFromString_def
  by (intro keep_rules keeps_keep_buffer; auto)

lemma preserves_close: "preserves zip_inv (ZipArchive_close E args)"
  unfolding preserves_def ZipArchive_close_def
  by (simp add: wp_simps call_defs split: prod.split) (auto simp: inv_defs)

lemma preserves_open: "preserves zip_inv (ZipArchive_open E args)"
  unfolding preserves_def ZipArchive_open_def
  by (simp add: wp_simps call_defs Let_def split: prod.split) (auto simp: inv_defs)

lemma keeps_progress_callback_free: "preserves (inv_za x) php_zip_progress_callback_free"
  unfolding preserves_def php_zip_progress_callback_free_def
  by (simp add: wp_simps) (auto simp: inv_defs)

lemma keeps_cancel_callback_free: "preserves (inv_za x) php_zip_cancel_callback_free"
  unfolding preserves_def php_zip_cancel_callback_free_def
  by (simp add: wp_simps) (auto simp: inv_defs)

lemma preserves_registerProgress: "preserves zip_inv (ZipArchive_registerProgressCallback E args)"
  unfolding preserves_def ZipArchive_registerProgressCallback_def php_zip_progress_callback_free_def
  by (simp add: wp_simps call_defs split: prod.split) (auto simp: inv_defs)

lemma preserves_registerCancel: "preserves zip_inv (ZipArchive_registerCancelCallback E args)"
  unfolding preserves_def ZipArchive_registerCancelCallback_def php_zip_cancel_callback_free_def
  by (simp add: wp_simps call_defs split: prod.split) (auto simp: inv_defs)

lemma preserves_getStream: "preserves zip_inv (ZipArchive_getStream E args)"
  unfolding preserves_def ZipArchive_getStream_def php_stream_zip_open_def
  by (simp add: wp_simps call_defs split: prod.split) (auto simp: inv_defs)

section \<open>The machine\<close>

definition zip_init :: "('w, ze_zip_object) st \<Rightarrow> bool" where
  "zip_init s \<longleftrightarrow> (\<exists>handlers. self s = php_zip_object_new handlers) \<and> trace s = []"

text \<open>
  One step: a method call with any arguments, a callback that libzip runs or frees, a read of a
  property, or a change of the world by others.
\<close>

inductive zip_step :: "'w env \<Rightarrow> ('w, ze_zip_object) st \<Rightarrow> ('w, ze_zip_object) st \<Rightarrow> bool"
  for E where
  step_entry: "entry_method E m \<Longrightarrow> zip_step E s (snd (run_state m s))"
| step_open: "zip_step E s (snd (run_state (ZipArchive_open E a1) s))"
| step_close: "zip_step E s (snd (run_state (ZipArchive_close E a2) s))"
| step_status: "zip_step E s (snd (run_state (ZipArchive_getStatusString E a3) s))"
| step_addFile: "zip_step E s (snd (run_state (ZipArchive_addFile E a4) s))"
| step_replaceFile: "zip_step E s (snd (run_state (ZipArchive_replaceFile E a5) s))"
| step_addFromString: "zip_step E s (snd (run_state (ZipArchive_addFromString E a6) s))"
| step_addGlob: "zip_step E s (snd (run_state (ZipArchive_addGlob E st a7) s))"
| step_addPattern: "zip_step E s (snd (run_state (ZipArchive_addPattern E st a8) s))"
| step_extractTo: "zip_step E s (snd (run_state (ZipArchive_extractTo E fuel a9) s))"
| step_getStream: "zip_step E s (snd (run_state (ZipArchive_getStream E a10) s))"
| step_progress: "zip_step E s (snd (run_state (ZipArchive_registerProgressCallback E a11) s))"
| step_cancel: "zip_step E s (snd (run_state (ZipArchive_registerCancelCallback E a12) s))"
| step_comp: "zip_step E s (snd (run_state (ZipArchive_isCompressionMethodSupported E a13) s))"
| step_enc: "zip_step E s (snd (run_state (ZipArchive_isEncryptionMethodSupported E a14) s))"
| step_read: "zip_step E s (snd (run_state (php_zip_read_property E n) s))"
| step_has: "zip_step E s (snd (run_state (php_zip_has_property E n ty) s))"
| step_write: "zip_step E s (snd (run_state (php_zip_write_property n v) s))"
| step_cb_progress: "zip_step E s (snd (run_state (php_zip_progress_callback E rate) s))"
| step_cb_cancel: "zip_step E s (snd (run_state (php_zip_cancel_callback E) s))"
| step_cb_progress_free: "zip_step E s (snd (run_state php_zip_progress_callback_free s))"
| step_cb_cancel_free: "zip_step E s (snd (run_state php_zip_cancel_callback_free s))"
| step_world: "zip_step E s (s\<lparr>world := w, exn := x\<rparr>)"

lemma preserves_other_methods:
  "preserves zip_inv (ZipArchive_getStatusString E a3)"
  "preserves zip_inv (ZipArchive_addFile E a4)"
  "preserves zip_inv (ZipArchive_replaceFile E a5)"
  "preserves zip_inv (ZipArchive_addGlob E st a7)"
  "preserves zip_inv (ZipArchive_addPattern E st a8)"
  "preserves zip_inv (ZipArchive_isCompressionMethodSupported E a13)"
  "preserves zip_inv (ZipArchive_isEncryptionMethodSupported E a14)"
  "preserves zip_inv (php_zip_read_property E n)"
  "preserves zip_inv (php_zip_has_property E n ty)"
  "preserves zip_inv (php_zip_write_property n v)"
  "preserves zip_inv (php_zip_progress_callback E rate)"
  "preserves zip_inv (php_zip_cancel_callback E)"
  unfolding ZipArchive_getStatusString_def ZipArchive_addFile_def ZipArchive_replaceFile_def
    ZipArchive_addGlob_def ZipArchive_addPattern_def ZipArchive_isCompressionMethodSupported_def
    ZipArchive_isEncryptionMethodSupported_def php_zip_read_property_def
    php_zip_has_property_def php_zip_write_property_def php_zip_progress_callback_def
    php_zip_cancel_callback_def
  by (rule preserves_zip_inv,
      intro keep_rules keeps_add_file keeps_add_from_pattern keeps_glob keeps_pcre
        keeps_property_reader; auto)+

lemma zip_step_inv: "zip_step E s t \<Longrightarrow> zip_inv s \<Longrightarrow> zip_inv t"
proof (induction rule: zip_step.induct)
  case (step_world s w x)
  then show ?case by (simp add: zip_inv_def well_used_def holds_handle_def)
qed (blast intro: preserves_run preserves_zip_inv entry_method_keeps preserves_open preserves_close
      preserves_other_methods keeps_addFromString keeps_extractTo preserves_getStream
      preserves_registerProgress preserves_registerCancel keeps_progress_callback_free
      keeps_cancel_callback_free)+

lemma zip_init_inv: "zip_init s \<Longrightarrow> zip_inv s"
  by (auto simp: zip_init_def inv_defs php_zip_object_new_def)

interpretation archive_object: transition_system zip_init "zip_step E" zip_inv for E
  by unfold_locales (auto intro: zip_init_inv zip_step_inv)

end
