(* ===== verification/Zip_Life.thy ===== *)
theory Zip_Life
  imports Zip_Machine
begin

text \<open>
  What the invariant of Zip_Machine gives for the life of an archive object: safety of every
  reachable state, the references to callbacks, the behaviour of a closed object, closing and
  destruction.
\<close>

section \<open>Properties of the machine\<close>

text \<open>C1. In every state an archive object can reach, by any calls with any arguments and any
  answers of the environment: the object has a file name exactly when it holds an archive, its
  \<open>filename_len\<close> and \<open>buffers_cnt\<close> describe the name and the copies it keeps, and, if libzip
  never answers a handle that is still live, no libzip call was ever given a handle that was
  closed or discarded before, and the handle held is live.\<close>

theorem reachable_object_safe:
  assumes "reach zip_init (zip_step E) s"
  shows "object_inv (self s) \<and>
    (fresh_opens {} (trace s) \<longrightarrow>
       disciplined {} (trace s) \<and> (\<forall>h. za (self s) = Some h \<longrightarrow> h \<in> live {} (trace s)))"
  using archive_object.reach_inv [OF assms]
  by (auto simp: zip_inv_def well_used_def holds_handle_def)

lemma zip_reach_step:
  "reach zip_init (zip_step E) s \<Longrightarrow> zip_step E s t \<Longrightarrow> reach zip_init (zip_step E) t"
  by (rule reach.reach_step)

definition opened_state :: "(unit, ze_zip_object) st" where
  "opened_state = snd (run_state (ZipArchive_open demo_env (Some (''a.zip'', None)))
     (start_state (php_zip_object_new zip_prop_handlers)))"

lemma opened_state_reach: "reach zip_init (zip_step demo_env) opened_state"
  unfolding opened_state_def
  by (rule zip_reach_step [OF reach_init step_open]) (auto simp: zip_init_def start_state_def)

lemma opened_state_eval:
  "opened_state = \<lparr>world = (), trace = [Ev_f (Php_check_open_basedir ''a.zip'') 0,
      Ev_t (Expand_filepath ''a.zip''), Ev_q (Vcwd_stat ''a.zip'') 0,
      Ev_p (Zip_open ''a.zip'' 0) (Some 7)], exn = None,
    self = (php_zip_object_new zip_prop_handlers)\<lparr>filename := Some ''a.zip'', filename_len := 5,
      za := Some 7\<rparr>\<rparr>"
  by (simp add: opened_state_def ZipArchive_open_def run_defs cstr_def php_zip_object_new_def
      as_int_def)

theorem reachable_object_safe_witness:
  "za (self opened_state) = Some 7 \<and> disciplined {} (trace opened_state) \<and>
   (7::nat) \<in> live {} (trace opened_state)"
proof -
  have "fresh_opens {} (trace opened_state)" "za (self opened_state) = Some 7"
    by (simp_all add: opened_state_eval live_step_def)
  with reachable_object_safe [OF opened_state_reach] show ?thesis by auto
qed

text \<open>C7. In every reachable state the references taken to each callback value, minus those
  released, are exactly those the object holds: none is leaked and none is released twice,
  however often callbacks are registered, replaced and freed by libzip.\<close>

theorem reachable_callback_references:
  assumes "reach zip_init (zip_step E) s"
  shows "callback_balance (trace s) cb = callbacks_held (self s) cb"
  using archive_object.reach_inv [OF assms] by (simp add: zip_inv_def)

definition two_callbacks_state :: "(unit, ze_zip_object) st" where
  "two_callbacks_state =
     snd (run_state (ZipArchive_registerCancelCallback demo_env (Some 4))
       (snd (run_state (ZipArchive_registerCancelCallback demo_env (Some 3)) opened_state)))"

lemma two_callbacks_reach: "reach zip_init (zip_step demo_env) two_callbacks_state"
  unfolding two_callbacks_state_def by (intro zip_reach_step [OF _ step_cancel] opened_state_reach)

theorem reachable_callback_references_witness:
  "callback_balance (trace two_callbacks_state) 3 = 0 \<and>
   callback_balance (trace two_callbacks_state) 4 = 1"
proof -
  note bal = reachable_callback_references [OF two_callbacks_reach]
  have "cancel_callback (self two_callbacks_state) = Some 4"
    "progress_callback (self two_callbacks_state) = None"
    by (simp_all add: two_callbacks_state_def opened_state_eval ZipArchive_registerCancelCallback_def
        php_zip_cancel_callback_free_def ZIP_FROM_OBJECT_def run_defs php_zip_object_new_def)
  then show ?thesis using bal by (simp add: callbacks_held_def)
qed

text \<open>On an object with no open archive, every method that works on the archive leaves the
  object, the world and the trace of calls as they are: it throws, or (a negative index given
  to renameIndex) returns FALSE.\<close>

theorem closed_object_entry_methods:
  assumes "entry_method E m" and "za (self s) = None"
  shows "wp m (\<lambda>r s'. world s' = world s \<and> trace s' = trace s \<and> self s' = self s \<and>
    (r = IS_NULL \<and> exn s' \<noteq> None \<or> r = IS_FALSE \<and> exn s' = exn s)) s"
  using assms
  by (induction rule: entry_method.induct) (auto simp: entry_method_defs wp_simps)

theorem closed_object_entry_methods_witness:
  "wp (ZipArchive_deleteIndex demo_env (Some 2))
     (\<lambda>r s'. trace s' = [] \<and> (r = IS_NULL \<and> exn s' \<noteq> None \<or> r = IS_FALSE))
     (start_state (php_zip_object_new []))"
proof -
  have "entry_method demo_env (ZipArchive_deleteIndex demo_env (Some 2))" by (rule entry_method.intros)
  from closed_object_entry_methods [OF this, of "start_state (php_zip_object_new [])"]
  show ?thesis by (auto simp: start_state_def php_zip_object_new_def elim!: wp_mono)
qed

text \<open>addFile on an object with no open archive does not throw, unlike the methods above: it
  goes as far as asking libzip for a source with no archive.\<close>

theorem closed_object_addFile_calls_libzip:
  "\<exists>s'. run_state (ZipArchive_addFile demo_env (Some (''f'', None, None, None, None)))
      (start_state (php_zip_object_new [])) = (IS_TRUE, s') \<and> exn s' = None \<and>
    Ev_p (Zip_source_file None ''f'' 0 0) (Some 5) \<in> set (trace s')"
  by (simp add: ZipArchive_addFile_def php_zip_add_file_def run_defs Let_def php_zip_object_new_def
      as_u64_def as_long_def cstr_def as_u32_def)

section \<open>Closing and destroying\<close>

text \<open>Closing an open archive always leaves the object closed, whatever libzip answers: TRUE
  and a status of 0 when the close succeeded; otherwise FALSE, the archive is discarded after
  its error codes were read, and the status properties of the closed object give those codes.\<close>

theorem close_then_status:
  assumes "za (self s) = Some h"
  shows "wp (do { r \<leftarrow> ZipArchive_close E (Some ()); ez \<leftarrow> php_zip_status E;
                  es \<leftarrow> php_zip_status_sys E; ret (r, ez, es) })
    (\<lambda>(r, ez, es) s'. za (self s') = None \<and> filename (self s') = None \<and>
      (\<exists>c m d. r = RETURN_BOOL (c = 0) \<and>
        trace s' = trace s @
          (if c = 0 then [Ev_i (Zip_close h) 0, Ev_efree B_filename]
           else [Ev_i (Zip_close h) c, Ev_t (Zip_strerror h), Ev_diag E_WARNING ''%s'' m,
                 Ev_i (Zip_error_code_zip h) ez, Ev_i (Zip_error_code_system h) es,
                 Ev_i (Zip_discard h) d, Ev_efree B_filename]) \<and>
        (c = 0 \<longrightarrow> ez = 0 \<and> es = 0))) s"
  using assms
  by (simp add: ZipArchive_close_def php_zip_status_def php_zip_status_sys_def wp_simps call_defs
      split: prod.split) (auto simp: RETURN_BOOL_def)

theorem close_then_status_witness:
  "wp (do { r \<leftarrow> ZipArchive_close demo_env (Some ()); ez \<leftarrow> php_zip_status demo_env;
            es \<leftarrow> php_zip_status_sys demo_env; ret (r, ez, es) })
    (\<lambda>(r, ez, es) s'. za (self s') = None) opened_state"
proof -
  have "za (self opened_state) = Some 7" by (simp add: opened_state_eval)
  from close_then_status [OF this, of demo_env] show ?thesis
    by (rule wp_mono) auto
qed

lemma wp_for_each_emit:
  "wp (for_each xs (\<lambda>i. emit (f i))) Q s = Q () (s\<lparr>trace := trace s @ map f xs\<rparr>)"
  by (induction xs arbitrary: s) (simp_all add: wp_simps)

lemma efree_neutral:
  "live L (map (\<lambda>i. Ev_efree (B_buffer i)) xs) = L"
  "disciplined L (map (\<lambda>i. Ev_efree (B_buffer i)) xs)"
  "callback_balance (map (\<lambda>i. Ev_efree (B_buffer i)) xs) cb = 0"
  by (induction xs arbitrary: L) (auto simp: live_step_def callback_balance_Cons)

lemma count_efree_upt:
  "count_list (map (\<lambda>i. Ev_efree (B_buffer i)) [0..<n]) (Ev_efree (B_buffer i)) = (if i < n then 1 else 0)"
  by (induction n) (auto simp: count_list_append)

lemma count_efree_filename:
  "count_list (map (\<lambda>i. Ev_efree (B_buffer i)) xs) (Ev_efree B_filename) = 0"
  by (induction xs) auto

text \<open>What destruction appends to the trace, part by part.\<close>

definition closing_events :: "zip_t option \<Rightarrow> int \<Rightarrow> string \<Rightarrow> int \<Rightarrow> event list" where
  "closing_events x c m d = (case x of None \<Rightarrow> []
     | Some h \<Rightarrow> Ev_i (Zip_close h) c #
         (if c = 0 then [] else
            [Ev_t (Zip_strerror h),
             Ev_diag E_WARNING ''Cannot destroy the zip context: %s'' [DS m],
             Ev_i (Zip_discard h) d]))"

definition release_events :: "ze_zip_object \<Rightarrow> event list" where
  "release_events ob =
     (if buffers_cnt ob > 0
      then map (\<lambda>i. Ev_efree (B_buffer i)) [0..<nat (buffers_cnt ob)] @ [Ev_efree B_buffers] else []) @
     (case progress_callback ob of None \<Rightarrow> [] | Some cb \<Rightarrow> [Ev_zval_dtor cb]) @
     (case cancel_callback ob of None \<Rightarrow> [] | Some cb \<Rightarrow> [Ev_zval_dtor cb]) @
     (case filename ob of None \<Rightarrow> [] | Some _ \<Rightarrow> [Ev_efree B_filename])"

lemma wp_free_callbacks:
  "wp php_zip_progress_callback_free Q s =
     Q () (s\<lparr>trace := trace s @ (case progress_callback (self s) of None \<Rightarrow> [] | Some cb \<Rightarrow> [Ev_zval_dtor cb]),
             self := (self s)\<lparr>progress_callback := None\<rparr>\<rparr>)" (is ?A)
  "wp php_zip_cancel_callback_free Q s =
     Q () (s\<lparr>trace := trace s @ (case cancel_callback (self s) of None \<Rightarrow> [] | Some cb \<Rightarrow> [Ev_zval_dtor cb]),
             self := (self s)\<lparr>cancel_callback := None\<rparr>\<rparr>)" (is ?B)
proof -
  obtain w tr x ob where s: "s = \<lparr>world = w, trace = tr, exn = x, self = ob\<rparr>" by (cases s)
  show "?A" "?B"
    by (cases "progress_callback ob"; cases "cancel_callback ob"; cases ob;
        simp add: s php_zip_progress_callback_free_def php_zip_cancel_callback_free_def wp_simps)+
qed

lemma wp_closing:
  assumes "\<And>w c m d. Q () (s\<lparr>world := w, trace := trace s @ closing_events (Some h) c m d\<rparr>)"
  shows "wp (do { r \<leftarrow> icall E (Zip_close h);
           if r \<noteq> 0 then do {
             msg \<leftarrow> tcall E (Zip_strerror h);
             php_error_docref E_WARNING ''Cannot destroy the zip context: %s'' [DS (dflt [] msg)];
             _ \<leftarrow> icall E (Zip_discard h);
             ret () }
           else ret () }) Q s"
proof -
  obtain c w where c: "sys_i E (Zip_close h) (world s) = (c, w)" by (cases "sys_i E (Zip_close h) (world s)")
  show ?thesis
  proof (cases "c = 0")
    case True
    with c assms [where w = w and c = 0] show ?thesis
      by (simp add: closing_events_def wp_bind wp_return wp_perform call_defs)
  next
    case False
    obtain m w1 where m: "sys_t E (Zip_strerror h) w = (m, w1)" by (cases "sys_t E (Zip_strerror h) w")
    obtain d w2 where d: "sys_i E (Zip_discard h) w1 = (d, w2)" by (cases "sys_i E (Zip_discard h) w1")
    from False c m d assms [where w = w2 and c = c and m = "dflt [] m" and d = d] show ?thesis
      by (simp add: closing_events_def wp_bind wp_return wp_perform wp_php_error_docref call_defs)
  qed
qed

lemma wp_release:
  assumes "self t = intern"
  shows "wp (do {
     (if buffers_cnt intern > 0 then do {
        for_each [0..<nat (buffers_cnt intern)] (\<lambda>i. emit (Ev_efree (B_buffer i)));
        emit (Ev_efree B_buffers) }
      else ret ());
     php_zip_progress_callback_free;
     php_zip_cancel_callback_free;
     modify_self (za_update (\<lambda>_. None));
     (case filename intern of None \<Rightarrow> ret () | Some f \<Rightarrow> emit (Ev_efree B_filename)) }) Q t =
   Q () (t\<lparr>trace := trace t @ release_events intern,
          self := intern\<lparr>progress_callback := None, cancel_callback := None, za := None\<rparr>\<rparr>)"
  by (cases t; cases "filename intern"; cases "0 < buffers_cnt intern")
     (insert assms, simp_all add: wp_bind wp_return wp_emit wp_modify_self wp_for_each_emit wp_free_callbacks
       release_events_def)

lemma free_storage_trace:
  "wp (php_zip_object_free_storage E) (\<lambda>_ s'. za (self s') = None \<and>
     (\<exists>c m d. trace s' = trace s @ closing_events (za (self s)) c m d @ release_events (self s))) s"
proof (cases "za (self s)")
  case None
  then show ?thesis
    unfolding php_zip_object_free_storage_def
    by (subst wp_bind, subst wp_get_self, subst wp_bind, simp only: None option.case wp_return, 
        subst wp_release) (simp_all add: closing_events_def)
next
  case (Some h)
  then show ?thesis
    unfolding php_zip_object_free_storage_def
    by (subst wp_bind, subst wp_get_self, subst wp_bind, simp only: Some option.case)
       (rule wp_closing, subst wp_release, auto)
qed

lemma live_closing:
  "disciplined L (closing_events (Some h) c m d) \<longleftrightarrow> h \<in> L"
  "live L (closing_events (Some h) c m d) = L - {h}"
  "fresh_opens L (closing_events x c m d)"
  "callback_balance (closing_events x c m d) cb = 0"
  "count_list (closing_events x c m d) (Ev_efree b) = 0"
  "closing_events None c m d = []"
  by (auto simp: closing_events_def live_step_def callback_balance_Cons split: option.split)

lemma live_release:
  "disciplined L (release_events ob)"
  "live L (release_events ob) = L"
  "callback_balance (release_events ob) cb = - callbacks_held ob cb"
  "count_list (release_events ob) (Ev_efree B_filename) = (if filename ob = None then 0 else 1)"
  "count_list (release_events ob) (Ev_efree (B_buffer i)) = (if int i < buffers_cnt ob then 1 else 0)"
  by (auto simp: release_events_def efree_neutral count_efree_upt count_efree_filename live_step_def callback_balance_Cons
      callbacks_held_def count_notin split: option.split)

text \<open>C6. Destroying an object in any state the invariant allows releases everything it owns
  exactly once: the archive is closed, or discarded when the close fails, and no call is given
  a dead handle; every copy kept for addFromString is freed once; the callback references
  balance; the file name is freed when there is one.\<close>

theorem free_storage_releases:
  assumes "zip_inv s"
  shows "wp (php_zip_object_free_storage E) (\<lambda>_ s'. za (self s') = None \<and> (\<exists>tr. trace s' = trace s @ tr \<and>
      (\<forall>cb. callback_balance (trace s') cb = 0) \<and>
      (fresh_opens {} (trace s') \<longrightarrow> disciplined {} (trace s') \<and>
         live {} (trace s') = live {} (trace s) - set_option (za (self s))) \<and>
      (\<forall>i. count_list tr (Ev_efree (B_buffer i)) = (if i < length (buffers (self s)) then 1 else 0)) \<and>
      count_list tr (Ev_efree B_filename) = (if filename (self s) = None then 0 else 1))) s"
proof (rule wp_mono [OF free_storage_trace], elim conjE exE, intro conjI exI)
qed (use assms in \<open>auto simp: zip_inv_def object_inv_def well_used_def holds_handle_def
       live_closing live_release\<close>)

theorem free_storage_releases_witness:
  "wp (php_zip_object_free_storage demo_env) (\<lambda>_ s'. za (self s') = None \<and>
     (\<forall>cb. callback_balance (trace s') cb = 0)) two_callbacks_state"
proof -
  have "zip_inv two_callbacks_state" by (rule archive_object.reach_inv [OF two_callbacks_reach])
  from free_storage_releases [OF this, of demo_env] show ?thesis by (rule wp_mono) auto
qed

end
