(* ===== verification/Zip_Procedural.thy ===== *)
theory Zip_Procedural
  imports Zip_Trace
begin

text \<open>
  The procedural interface (ext/php_zip.c): directory and entry resources, their destructors and
  the zip_* functions. The state is Zend's resource list: a resource is its position, and one
  that was closed keeps its position with no type, so fetching it fails.
\<close>

section \<open>Resources\<close>

record zip_rsrc =
  rd_za :: "zip_t option"
  index_current :: int
  num_files :: int

record zip_read_rsrc =
  rr_zf :: "zip_file_t option"
  rr_sb :: zip_stat

datatype rsrc = R_dir zip_rsrc | R_entry zip_read_rsrc | R_closed

type_synonym ('w, 'a) proc = "('w, rsrc list, 'a) act"

definition zend_register_resource :: "rsrc \<Rightarrow> ('w, zval) proc" where
  "zend_register_resource r = do {
     list \<leftarrow> get_self;
     set_self (list @ [r]);
     ret (IS_RESOURCE (length list)) }"

definition rsrc_at :: "rsrc list \<Rightarrow> nat \<Rightarrow> rsrc" where
  "rsrc_at list rid = (if rid < length list then list ! rid else R_closed)"

text \<open>\<open>zend_fetch_resource\<close> throws when the resource is not of the wanted type.\<close>

definition fetch_dir :: "nat \<Rightarrow> (zip_rsrc \<Rightarrow> ('w, zval) proc) \<Rightarrow> ('w, zval) proc" where
  "fetch_dir rid k = do {
     list \<leftarrow> get_self;
     case rsrc_at list rid of
       R_dir d \<Rightarrow> k d
     | _ \<Rightarrow> throws (Resource_type_error ''Zip Directory'') }"

definition fetch_entry :: "nat \<Rightarrow> (zip_read_rsrc \<Rightarrow> ('w, zval) proc) \<Rightarrow> ('w, zval) proc" where
  "fetch_entry rid k = do {
     list \<leftarrow> get_self;
     case rsrc_at list rid of
       R_entry e \<Rightarrow> k e
     | _ \<Rightarrow> throws (Resource_type_error ''Zip Entry'') }"

section \<open>Destructors\<close>

definition php_zip_free_dir :: "'w env \<Rightarrow> zip_rsrc \<Rightarrow> ('w, 'o, unit) act" where
  "php_zip_free_dir E d = do {
     (case rd_za d of
        None \<Rightarrow> ret ()
      | Some h \<Rightarrow> do {
          r \<leftarrow> icall E (Zip_close h);
          if r \<noteq> 0 then php_error_docref E_WARNING ''Cannot destroy the zip context'' []
          else ret () });
     emit (Ev_efree B_struct) }"

definition php_zip_free_entry :: "'w env \<Rightarrow> zip_read_rsrc \<Rightarrow> ('w, 'o, unit) act" where
  "php_zip_free_entry E e = do {
     (case rr_zf e of
        None \<Rightarrow> ret ()
      | Some zf \<Rightarrow> do { _ \<leftarrow> icall E (Zip_fclose zf); ret () });
     emit (Ev_efree B_struct) }"

text \<open>\<open>zend_list_close\<close>: the destructor of the type, then the resource has none.\<close>

definition zend_list_close :: "'w env \<Rightarrow> nat \<Rightarrow> ('w, unit) proc" where
  "zend_list_close E rid = do {
     list \<leftarrow> get_self;
     set_self (list[rid := R_closed]);
     case rsrc_at list rid of
       R_dir d \<Rightarrow> php_zip_free_dir E d
     | R_entry e \<Rightarrow> php_zip_free_entry E e
     | R_closed \<Rightarrow> ret () }"

section \<open>The functions\<close>

definition PHP_zip_open :: "'w env \<Rightarrow> string option \<Rightarrow> ('w, zval) proc" where
  "PHP_zip_open E args = zpp args (\<lambda>fname.
     if length fname = 0 then throws (Argument_value_error 1 ''cannot be empty'')
     else do {
       denied \<leftarrow> ZIP_OPENBASEDIR_CHECKPATH E (cstr fname);
       if denied then ret IS_FALSE
       else do {
         resolved \<leftarrow> tcall E (Expand_filepath (cstr fname));
         case resolved of
           None \<Rightarrow> do { php_error_docref E_WARNING ''No such file or directory'' []; ret IS_FALSE }
         | Some resolved_path \<Rightarrow> do {
             (h, err) \<leftarrow> pcall E (Zip_open resolved_path 0);
             case h of
               None \<Rightarrow> ret (IS_LONG err)
             | Some h \<Rightarrow> do {
                 n \<leftarrow> icall E (Zip_get_num_entries h 0);
                 zend_register_resource
                   (R_dir \<lparr>rd_za = Some h, index_current = 0, num_files = n\<rparr>) } } } })"

definition PHP_zip_close :: "'w env \<Rightarrow> nat option \<Rightarrow> ('w, zval) proc" where
  "PHP_zip_close E args = zpp args (\<lambda>zip.
     fetch_dir zip (\<lambda>_. do { zend_list_close E zip; ret IS_NULL }))"

text \<open>The comparison is unsigned, as \<open>index_current\<close> is.\<close>

definition PHP_zip_read :: "'w env \<Rightarrow> nat option \<Rightarrow> ('w, zval) proc" where
  "PHP_zip_read E args = zpp args (\<lambda>zip_dp.
     fetch_dir zip_dp (\<lambda>rsrc_int.
       case rd_za rsrc_int of
         None \<Rightarrow> ret IS_FALSE
       | Some h \<Rightarrow>
           if index_current rsrc_int \<ge> as_u64 (num_files rsrc_int) then ret IS_FALSE
           else do {
             (r, sb) \<leftarrow> scall E (Zip_stat_index h (index_current rsrc_int) 0);
             if r \<noteq> 0 then ret IS_FALSE
             else do {
               zf \<leftarrow> ptrcall E (Zip_fopen_index h (index_current rsrc_int) 0);
               case zf of
                 Some zf \<Rightarrow> do {
                   modify_self (\<lambda>list. list[zip_dp := R_dir (rsrc_int\<lparr>index_current :=
                     as_u64 (index_current rsrc_int + 1)\<rparr>)]);
                   zend_register_resource (R_entry \<lparr>rr_zf = Some zf, rr_sb = sb\<rparr>) }
               | None \<Rightarrow> ret IS_FALSE } }))"

definition PHP_zip_entry_open ::
  "'w env \<Rightarrow> (nat \<times> nat \<times> string option) option \<Rightarrow> ('w, zval) proc" where
  "PHP_zip_entry_open E args = zpp args (\<lambda>(zip, zip_entry, mode).
     fetch_entry zip_entry (\<lambda>zr_rsrc.
       fetch_dir zip (\<lambda>z_rsrc.
         ret (RETURN_BOOL (rr_zf zr_rsrc \<noteq> None)))))"

definition PHP_zip_entry_close :: "'w env \<Rightarrow> nat option \<Rightarrow> ('w, zval) proc" where
  "PHP_zip_entry_close E args = zpp args (\<lambda>zip_entry.
     fetch_entry zip_entry (\<lambda>_. do { zend_list_close E zip_entry; ret IS_TRUE }))"

definition PHP_zip_entry_read :: "'w env \<Rightarrow> (nat \<times> int option) option \<Rightarrow> ('w, zval) proc" where
  "PHP_zip_entry_read E args = zpp args (\<lambda>(zip_entry, len_opt).
     fetch_entry zip_entry (\<lambda>zr_rsrc.
       let len = dflt 0 len_opt;
           len = (if len \<le> 0 then 1024 else len) in
       case rr_zf zr_rsrc of
         None \<Rightarrow> ret IS_FALSE
       | Some zf \<Rightarrow> do {
           (r, buffer) \<leftarrow> zip_fread E zf len;
           let n = as_int r in
           if n > 0 then ret (IS_STRING (take (nat n) buffer)) else ret (IS_STRING []) }))"

text \<open>The name of a compression method; None where the code returns FALSE.\<close>

definition comp_method_name :: "int \<Rightarrow> string option" where
  "comp_method_name m =
     (if m = 0 then Some ''stored''
      else if m = 1 then Some ''shrunk''
      else if m = 2 \<or> m = 3 \<or> m = 4 \<or> m = 5 then Some ''reduced''
      else if m = 6 then Some ''imploded''
      else if m = 7 then Some ''tokenized''
      else if m = 8 then Some ''deflated''
      else if m = 9 then Some ''deflatedX''
      else if m = 10 then Some ''implodedX''
      else None)"

definition php_zip_entry_get_info :: "'w env \<Rightarrow> nat option \<Rightarrow> nat \<Rightarrow> ('w, zval) proc" where
  "php_zip_entry_get_info E args opt = zpp args (\<lambda>zip_entry.
     fetch_entry zip_entry (\<lambda>zr_rsrc.
       if rr_zf zr_rsrc = None then ret IS_FALSE
       else if opt = 0 then ret (IS_STRING (cstr (sb_name (rr_sb zr_rsrc))))
       else if opt = 1 then ret (IS_LONG (as_long (sb_comp_size (rr_sb zr_rsrc))))
       else if opt = 2 then ret (IS_LONG (as_long (sb_size (rr_sb zr_rsrc))))
       else if opt = 3 then
         ret (case comp_method_name (sb_comp_method (rr_sb zr_rsrc)) of
                Some n \<Rightarrow> IS_STRING n | None \<Rightarrow> IS_FALSE)
       else ret IS_NULL))"

definition PHP_zip_entry_name :: "'w env \<Rightarrow> nat option \<Rightarrow> ('w, zval) proc" where
  "PHP_zip_entry_name E args = php_zip_entry_get_info E args 0"

definition PHP_zip_entry_compressedsize :: "'w env \<Rightarrow> nat option \<Rightarrow> ('w, zval) proc" where
  "PHP_zip_entry_compressedsize E args = php_zip_entry_get_info E args 1"

definition PHP_zip_entry_filesize :: "'w env \<Rightarrow> nat option \<Rightarrow> ('w, zval) proc" where
  "PHP_zip_entry_filesize E args = php_zip_entry_get_info E args 2"

definition PHP_zip_entry_compressionmethod :: "'w env \<Rightarrow> nat option \<Rightarrow> ('w, zval) proc" where
  "PHP_zip_entry_compressionmethod E args = php_zip_entry_get_info E args 3"

section \<open>Reading a directory\<close>

lemma rsrc_at_append [simp]: "rsrc_at (list @ [r]) (length list) = r"
  by (simp add: rsrc_at_def nth_append)

lemma rsrc_at_snoc: "rsrc_at list i \<noteq> R_closed \<Longrightarrow> rsrc_at (list @ [r]) i = rsrc_at list i"
  by (auto simp: rsrc_at_def nth_append)

lemma rsrc_at_update: "rsrc_at (list[i := r]) j = (if i = j \<and> i < length list then r else rsrc_at list j)"
  by (auto simp: rsrc_at_def nth_list_update)

lemma rsrc_at_length: "rsrc_at list i \<noteq> R_closed \<Longrightarrow> i < length list"
  by (simp add: rsrc_at_def split: if_splits)

text \<open>zip_read on a directory that is not at its end: when libzip describes and opens the entry
  at the current index, the answer is a new entry resource, the four functions that describe an
  entry give the fields of what libzip answered, and the directory stands at the next index. All
  other resources stay as they are.\<close>

theorem zip_read_then_info:
  assumes "rsrc_at (self s) rid = R_dir d" and "rd_za d = Some h"
    and "0 \<le> index_current d" and "index_current d < as_u64 (num_files d)"
    and "sys_s E (Zip_stat_index h (index_current d) 0) (world s) = ((0, sb), w1)"
    and "sys_p E (Zip_fopen_index h (index_current d) 0) w1 = ((Some zf, e), w2)"
  shows "wp (do { r \<leftarrow> PHP_zip_read E (Some rid);
             case r of IS_RESOURCE ent \<Rightarrow> do {
                 n \<leftarrow> PHP_zip_entry_name E (Some ent);
                 z \<leftarrow> PHP_zip_entry_filesize E (Some ent);
                 c \<leftarrow> PHP_zip_entry_compressedsize E (Some ent);
                 m \<leftarrow> PHP_zip_entry_compressionmethod E (Some ent);
                 ret [n, z, c, m] }
             | _ \<Rightarrow> ret [] })
    (\<lambda>vs s'. vs = [IS_STRING (cstr (sb_name sb)), IS_LONG (as_long (sb_size sb)),
        IS_LONG (as_long (sb_comp_size sb)),
        (case comp_method_name (sb_comp_method sb) of Some m \<Rightarrow> IS_STRING m | None \<Rightarrow> IS_FALSE)] \<and>
      rsrc_at (self s') rid = R_dir (d\<lparr>index_current := index_current d + 1\<rparr>) \<and>
      (\<forall>i. i \<noteq> rid \<longrightarrow> i < length (self s) \<longrightarrow> rsrc_at (self s') i = rsrc_at (self s) i)) s"
proof -
  have "rid < length (self s)" using assms(1) rsrc_at_length by fastforce
  moreover have "as_u64 (index_current d + 1) = index_current d + 1"
    using assms(3,4) by (simp add: as_u64_def)
  ultimately show ?thesis
    using assms
    by (auto simp: PHP_zip_read_def fetch_dir_def fetch_entry_def PHP_zip_entry_name_def
        PHP_zip_entry_filesize_def PHP_zip_entry_compressedsize_def
        PHP_zip_entry_compressionmethod_def php_zip_entry_get_info_def
        zend_register_resource_def wp_simps call_defs nth_append rsrc_at_def)
qed

text \<open>zip_read moves by one or not at all: at the end, and when libzip cannot describe or open the
  entry, the answer is FALSE and the directory stays where it is; the index never passes the
  number of entries.\<close>

theorem zip_read_moves_by_one:
  assumes "rsrc_at (self s) rid = R_dir d" and "rd_za d = Some h"
    and "0 \<le> index_current d" and "index_current d \<le> as_u64 (num_files d)"
  shows "wp (PHP_zip_read E (Some rid)) (\<lambda>r s'. \<exists>d'. rsrc_at (self s') rid = R_dir d' \<and>
      num_files d' = num_files d \<and> index_current d' \<le> as_u64 (num_files d) \<and>
      (r = IS_FALSE \<and> self s' = self s \<or>
       (\<exists>i. r = IS_RESOURCE i) \<and> index_current d' = index_current d + 1)) s"
proof -
  have "rid < length (self s)" using assms(1) rsrc_at_length by fastforce
  moreover have "index_current d < as_u64 (num_files d) \<Longrightarrow> as_u64 (index_current d + 1) = index_current d + 1"
    using assms(3,4) by (simp add: as_u64_def)
  ultimately show ?thesis
    using assms
    by (auto simp: PHP_zip_read_def fetch_dir_def zend_register_resource_def wp_simps call_defs
        nth_append rsrc_at_def split: prod.split)
qed

definition two_entry_dir :: zip_rsrc where
  "two_entry_dir = \<lparr>rd_za = Some 7, index_current = 0, num_files = 2\<rparr>"

theorem zip_read_then_info_witness:
  "wp (do { r \<leftarrow> PHP_zip_read demo_env (Some 0);
            case r of IS_RESOURCE ent \<Rightarrow> do {
                 n \<leftarrow> PHP_zip_entry_name demo_env (Some ent);
                 z \<leftarrow> PHP_zip_entry_filesize demo_env (Some ent);
                 c \<leftarrow> PHP_zip_entry_compressedsize demo_env (Some ent);
                 m \<leftarrow> PHP_zip_entry_compressionmethod demo_env (Some ent);
                 ret [n, z, c, m] }
            | _ \<Rightarrow> ret [] })
    (\<lambda>vs s'. vs = [IS_STRING ''a'', IS_LONG 3, IS_LONG 3, IS_STRING ''stored''])
    (start_state [R_dir two_entry_dir])"
proof -
  have "rsrc_at (self (start_state [R_dir two_entry_dir])) 0 = R_dir two_entry_dir"
    by (simp add: start_state_def rsrc_at_def)
  from zip_read_then_info [OF this, of 7 demo_env demo_stat "()" 5 0 "()"] show ?thesis
    by (rule wp_mono)
       (auto simp: two_entry_dir_def as_u64_def demo_env_def start_state_def demo_stat_def cstr_def
         as_long_def comp_method_name_def)
qed

theorem zip_read_moves_by_one_witness:
  "wp (PHP_zip_read demo_env (Some 0)) (\<lambda>r s'. \<exists>d'. rsrc_at (self s') 0 = R_dir d' \<and>
     index_current d' \<le> 2) (start_state [R_dir two_entry_dir])"
proof -
  have "rsrc_at (self (start_state [R_dir two_entry_dir])) 0 = R_dir two_entry_dir"
    by (simp add: start_state_def rsrc_at_def)
  from zip_read_moves_by_one [OF this, of 7 demo_env] show ?thesis
    by (rule wp_mono) (auto simp: two_entry_dir_def as_u64_def)
qed

section \<open>The resource list as a machine\<close>

definition dir_handle :: "rsrc list \<Rightarrow> nat \<Rightarrow> zip_t option" where
  "dir_handle list i = (case rsrc_at list i of R_dir d \<Rightarrow> rd_za d | _ \<Rightarrow> None)"

definition proc_init :: "('w, rsrc list) st \<Rightarrow> bool" where
  "proc_init s \<longleftrightarrow> self s = [] \<and> trace s = []"

inductive proc_call :: "'w env \<Rightarrow> ('w, zval) proc \<Rightarrow> bool" for E where
  "proc_call E (PHP_zip_open E a1)"
| "proc_call E (PHP_zip_close E a2)"
| "proc_call E (PHP_zip_read E a3)"
| "proc_call E (PHP_zip_entry_open E a4)"
| "proc_call E (PHP_zip_entry_close E a5)"
| "proc_call E (PHP_zip_entry_read E a6)"
| "proc_call E (php_zip_entry_get_info E a7 opt)"

inductive proc_step :: "'w env \<Rightarrow> ('w, rsrc list) st \<Rightarrow> ('w, rsrc list) st \<Rightarrow> bool" for E where
  proc_call: "proc_call E m \<Longrightarrow> proc_step E s (snd (run_state m s))"
| proc_shutdown: "proc_step E s (snd (run_state (zend_list_close E i) s))"
| proc_world: "proc_step E s (s\<lparr>world := w, exn := x\<rparr>)"

text \<open>Handles are used while they are live, and every directory that is open holds a live handle of
  its own.\<close>

definition handles_ok :: "rsrc list \<Rightarrow> event list \<Rightarrow> bool" where
  "handles_ok list tr \<longleftrightarrow> disciplined {} tr \<and>
     (\<forall>i h. dir_handle list i = Some h \<longrightarrow> h \<in> live {} tr) \<and>
     (\<forall>i j h. dir_handle list i = Some h \<longrightarrow> dir_handle list j = Some h \<longrightarrow> i = j)"

definition proc_inv :: "('w, rsrc list) st \<Rightarrow> bool" where
  "proc_inv s \<longleftrightarrow> (fresh_opens {} (trace s) \<longrightarrow> handles_ok (self s) (trace s))"

lemma dir_handle_append:
  "dir_handle (list @ [r]) i =
     (if i = length list then (case r of R_dir d \<Rightarrow> rd_za d | _ \<Rightarrow> None) else dir_handle list i)"
  by (auto simp: dir_handle_def rsrc_at_def nth_append)

lemma dir_handle_update:
  "i < length list \<Longrightarrow> dir_handle (list[i := r]) j =
     (if j = i then (case r of R_dir d \<Rightarrow> rd_za d | _ \<Rightarrow> None) else dir_handle list j)"
  by (auto simp: dir_handle_def rsrc_at_update)

lemma handles_ok_call:
  "handles_ok list tr \<Longrightarrow> opened e = None \<Longrightarrow> closed e = None \<Longrightarrow>
   (\<forall>h. used_archive e = Some h \<longrightarrow> (\<exists>i. dir_handle list i = Some h)) \<Longrightarrow> handles_ok list (tr @ [e])"
  by (cases "used_archive e") (auto simp: handles_ok_def live_step_def)

lemma handles_ok_open:
  "handles_ok list tr \<Longrightarrow> fresh_opens {} (tr @ [Ev_p (Zip_open p f) (Some h)]) \<Longrightarrow>
   rd_za d = Some h \<Longrightarrow> handles_ok (list @ [R_dir d]) (tr @ [Ev_p (Zip_open p f) (Some h)])"
  by (auto simp: handles_ok_def live_step_def dir_handle_append split: if_splits)

lemma handles_ok_close:
  "handles_ok list tr \<Longrightarrow> dir_handle list i = Some h \<Longrightarrow>
   handles_ok (list[i := R_closed]) (tr @ [Ev_i (Zip_close h) r])"
proof -
  assume ok: "handles_ok list tr" and h: "dir_handle list i = Some h"
  then have "i < length list" by (auto simp: dir_handle_def rsrc_at_def split: if_splits)
  with ok h show ?thesis
    unfolding handles_ok_def
    by (auto simp: live_step_def dir_handle_update split: if_splits)
qed

definition inv_at :: "nat \<Rightarrow> zip_t \<Rightarrow> ('w, rsrc list) st \<Rightarrow> bool" where
  "inv_at rid h s \<longleftrightarrow> proc_inv s \<and> dir_handle (self s) rid = Some h"

definition calm :: "zip_t set \<Rightarrow> event \<Rightarrow> bool" where
  "calm H e \<longleftrightarrow> opened e = None \<and> closed e = None \<and> set_option (used_archive e) \<subseteq> H"

named_theorems proc_rules

lemma fresh_opens_calm: "calm H e \<Longrightarrow> fresh_opens L (tr @ [e]) = fresh_opens L tr"
  by (simp add: calm_def)

lemma inv_perform [proc_rules]:
  "(\<And>r. calm {} (ev r)) \<Longrightarrow> preserves proc_inv (perform f ev)"
  "(\<And>r. calm {h} (ev r)) \<Longrightarrow> preserves (inv_at rid h) (perform f ev)"
  by (auto simp: preserves_def wp_perform inv_at_def proc_inv_def fresh_opens_calm calm_def
      split: prod.split intro!: handles_ok_call)

lemma inv_throws [proc_rules]: "preserves proc_inv (throws x)" "preserves proc_inv (zend_throw x)"
  by (simp_all add: preserves_def wp_simps proc_inv_def)

lemma inv_emit [proc_rules]: "calm {} e \<Longrightarrow> preserves proc_inv (emit e)"
  by (auto simp: preserves_def wp_emit proc_inv_def fresh_opens_calm calm_def intro!: handles_ok_call)

lemma inv_calls [proc_rules]:
  "(\<And>r. calm {} (Ev_i c r)) \<Longrightarrow> preserves proc_inv (icall E c)"
  "(\<And>r. calm {} (Ev_f fc r)) \<Longrightarrow> preserves proc_inv (fcall E fc)"
  "calm {} (Ev_t tc) \<Longrightarrow> preserves proc_inv (tcall E tc)"
  "preserves proc_inv (zip_fread E zf n)"
  "preserves proc_inv (php_error_docref l m a)"
  "preserves proc_inv (ZIP_OPENBASEDIR_CHECKPATH E p)"
  "(\<And>r. calm {h} (Ev_s sc r)) \<Longrightarrow> preserves (inv_at rid h) (scall E sc)"
  "(\<And>r. calm {h} (Ev_p pc r)) \<Longrightarrow> preserves (inv_at rid h) (ptrcall E pc)"
  unfolding call_defs php_error_docref_def ZIP_OPENBASEDIR_CHECKPATH_def
  by (intro preserves_intros proc_rules; simp add: calm_def)+

text \<open>An operation that keeps the invariant when it is given the directory its resource holds.\<close>

lemma fetch_dir_inv:
  assumes "\<And>d s. proc_inv s \<Longrightarrow> rsrc_at (self s) rid = R_dir d \<Longrightarrow> wp (k d) (\<lambda>_. proc_inv) s"
  shows "preserves proc_inv (fetch_dir rid k)"
proof (rule preservesI)
  fix s :: "('a, rsrc list) st"
  assume s: "proc_inv s"
  then have t: "wp (throws x) (\<lambda>_. proc_inv) s" for x by (rule preservesD [OF inv_throws(1)])
  from assms s t show "wp (fetch_dir rid k) (\<lambda>_. proc_inv) s"
    by (cases "rsrc_at (self s) rid") (simp_all add: fetch_dir_def wp_bind wp_get_self)
qed

lemma fetch_entry_inv:
  assumes "\<And>d s. proc_inv s \<Longrightarrow> rsrc_at (self s) rid = R_entry d \<Longrightarrow> wp (k d) (\<lambda>_. proc_inv) s"
  shows "preserves proc_inv (fetch_entry rid k)"
proof (rule preservesI)
  fix s :: "('a, rsrc list) st"
  assume s: "proc_inv s"
  then have t: "wp (throws x) (\<lambda>_. proc_inv) s" for x by (rule preservesD [OF inv_throws(1)])
  from assms s t show "wp (fetch_entry rid k) (\<lambda>_. proc_inv) s"
    by (cases "rsrc_at (self s) rid") (simp_all add: fetch_entry_def wp_bind wp_get_self)
qed

lemma preserves_zpp: "(\<And>a. preserves proc_inv (k a)) \<Longrightarrow> preserves proc_inv (zpp args k)"
  unfolding zpp_def by (intro preserves_intros proc_rules)

lemma list_close_inv: "preserves proc_inv (zend_list_close E rid)"
proof (rule preservesI)
  fix s :: "('a, rsrc list) st"
  assume s: "proc_inv s"
  have keep: "handles_ok ((self s)[rid := R_closed]) (trace s)" if "handles_ok (self s) (trace s)"
    using that by (cases "rid < length (self s)")
      (auto simp: handles_ok_def dir_handle_update list_update_beyond split: if_splits)
  show "wp (zend_list_close E rid) (\<lambda>_. proc_inv) s"
  proof (cases "rsrc_at (self s) rid")
    case (R_dir d)
    then have h: "dir_handle (self s) rid = rd_za d" by (simp add: dir_handle_def)
    obtain r w where r: "sys_i E (Zip_close (the (rd_za d))) (world s) = (r, w)" by (metis prod.exhaust)
    have free: "handles_ok list (tr @ [Ev_i (Zip_close x) q]) \<Longrightarrow>
        handles_ok list (tr @ [Ev_i (Zip_close x) q, Ev_diag l m a, Ev_efree b])"
      "handles_ok list (tr @ [Ev_i (Zip_close x) q]) \<Longrightarrow>
        handles_ok list (tr @ [Ev_i (Zip_close x) q, Ev_efree b])"
      "handles_ok list tr \<Longrightarrow> handles_ok list (tr @ [Ev_efree b])" for list tr x l m a b q
      by (auto simp: handles_ok_def live_step_def)
    show ?thesis
      using s R_dir h r keep handles_ok_close [of "self s" "trace s" rid "the (rd_za d)" r]
      by (cases "rd_za d")
         (auto simp: zend_list_close_def php_zip_free_dir_def wp_simps call_defs proc_inv_def
           intro!: free split: prod.split)
  next
    case (R_entry e)
    have "handles_ok list tr \<Longrightarrow> handles_ok list (tr @ [Ev_efree b])"
      "handles_ok list tr \<Longrightarrow> handles_ok list (tr @ [Ev_i (Zip_fclose z) r, Ev_efree b])" for list tr b z r
      by (auto simp: handles_ok_def live_step_def)
    with s R_entry keep show ?thesis
      by (cases "rr_zf e")
         (auto simp: zend_list_close_def php_zip_free_entry_def wp_simps call_defs proc_inv_def
           split: prod.split)
  next
    case R_closed
    with s keep show ?thesis
      by (auto simp: zend_list_close_def wp_simps proc_inv_def)
  qed
qed

lemma open_archive_inv:
  "preserves proc_inv (do {
     (h, err) \<leftarrow> pcall E (Zip_open path fl);
     case h of
       None \<Rightarrow> ret (IS_LONG err)
     | Some h \<Rightarrow> do {
         n \<leftarrow> icall E (Zip_get_num_entries h 0);
         zend_register_resource (R_dir \<lparr>rd_za = Some h, index_current = 0, num_files = n\<rparr>) } })"
proof (rule preservesI)
  fix s :: "('a, rsrc list) st"
  assume s: "proc_inv s"
  let ?e = "\<lambda>h. Ev_p (Zip_open path fl) h"
  have none: "handles_ok (self s) (trace s @ [?e None])" if "fresh_opens {} (trace s)"
    using s that by (auto simp: proc_inv_def intro!: handles_ok_call)
  have some: "handles_ok (self s @ [R_dir \<lparr>rd_za = Some h, index_current = 0, num_files = n\<rparr>])
      (trace s @ [?e (Some h), Ev_i (Zip_get_num_entries h 0) n])"
    if "fresh_opens {} (trace s @ [?e (Some h)])" for h n
  proof -
    let ?l = "self s @ [R_dir \<lparr>rd_za = Some h, index_current = 0, num_files = n\<rparr>]"
    have "handles_ok (self s) (trace s)" using s that by (simp add: proc_inv_def)
    from handles_ok_open [OF this that] have "handles_ok ?l (trace s @ [?e (Some h)])" by simp
    then have "handles_ok ?l ((trace s @ [?e (Some h)]) @ [Ev_i (Zip_get_num_entries h 0) n])"
      by (rule handles_ok_call) (auto simp: dir_handle_append)
    then show ?thesis by simp
  qed
  show "wp (do {
     (h, err) \<leftarrow> pcall E (Zip_open path fl);
     case h of
       None \<Rightarrow> ret (IS_LONG err)
     | Some h \<Rightarrow> do {
         n \<leftarrow> icall E (Zip_get_num_entries h 0);
         zend_register_resource (R_dir \<lparr>rd_za = Some h, index_current = 0, num_files = n\<rparr>) } })
     (\<lambda>_. proc_inv) s"
    using none some by (auto simp: zend_register_resource_def wp_simps call_defs proc_inv_def split: prod.split)
qed

lemma zip_open_inv: "preserves proc_inv (PHP_zip_open E args)"
  unfolding PHP_zip_open_def
  by (rule preserves_zpp, intro preserves_if preserves_option preserves_prod proc_rules preserves_return
      open_archive_inv preserves_bind; (rule open_archive_inv)?) (simp_all add: calm_def)

lemma inv_at_iff: "proc_inv s \<Longrightarrow> rsrc_at (self s) rid = R_dir d \<Longrightarrow> rd_za d = Some h \<Longrightarrow> inv_at rid h s"
  by (simp add: inv_at_def dir_handle_def)

lemma advance_inv:
  assumes "inv_at rid h s" and "rd_za d = Some h"
  shows "wp (do { modify_self (\<lambda>list. list[rid := R_dir d]);
                  zend_register_resource (R_entry ent) }) (\<lambda>_. proc_inv) s"
proof -
  have "rid < length (self s)"
    using assms(1) by (auto simp: inv_at_def dir_handle_def rsrc_at_def split: if_splits)
  moreover have "dir_handle (self s) (length (self s)) = None"
    by (simp add: dir_handle_def rsrc_at_def)
  ultimately have "dir_handle ((self s)[rid := R_dir d] @ [R_entry ent]) i = dir_handle (self s) i" for i
    using assms by (simp add: dir_handle_append dir_handle_update inv_at_def)
  with assms show ?thesis
    by (simp add: zend_register_resource_def wp_simps inv_at_def proc_inv_def handles_ok_def)
qed

lemma zip_read_inv: "preserves proc_inv (PHP_zip_read E args)"
  unfolding PHP_zip_read_def
proof (rule preserves_zpp, rule fetch_dir_inv)
  fix zip_dp d and s :: "('a, rsrc list) st"
  assume s: "proc_inv s" "rsrc_at (self s) zip_dp = R_dir d"
  show "wp (case rd_za d of
         None \<Rightarrow> ret IS_FALSE
       | Some h \<Rightarrow>
           if index_current d \<ge> as_u64 (num_files d) then ret IS_FALSE
           else do {
             (r, sb) \<leftarrow> scall E (Zip_stat_index h (index_current d) 0);
             if r \<noteq> 0 then ret IS_FALSE
             else do {
               zf \<leftarrow> ptrcall E (Zip_fopen_index h (index_current d) 0);
               case zf of
                 Some zf \<Rightarrow> do {
                   modify_self (\<lambda>list. list[zip_dp := R_dir (d\<lparr>index_current :=
                     as_u64 (index_current d + 1)\<rparr>)]);
                   zend_register_resource (R_entry \<lparr>rr_zf = Some zf, rr_sb = sb\<rparr>) }
               | None \<Rightarrow> ret IS_FALSE } }) (\<lambda>_. proc_inv) s"
  proof (cases "rd_za d")
    case None
    with s show ?thesis by (simp add: wp_return)
  next
    case (Some h)
    with s have at: "inv_at zip_dp h s" by (simp add: inv_at_iff)
    have sc: "wp (scall E (Zip_stat_index h (index_current d) 0)) (\<lambda>_. inv_at zip_dp h) s"
      by (rule preservesD) (intro proc_rules, simp_all add: calm_def at)
    have pc: "inv_at zip_dp h t \<Longrightarrow>
        wp (ptrcall E (Zip_fopen_index h (index_current d) 0)) (\<lambda>_. inv_at zip_dp h) t"
      for t :: "('a, rsrc list) st"
      by (rule preservesD) (intro proc_rules, simp add: calm_def)
    have "inv_at zip_dp h t \<Longrightarrow> proc_inv t" for t :: "('a, rsrc list) st" by (simp add: inv_at_def)
    with Some s show ?thesis
      by (auto simp: wp_bind [of "scall _ _"] wp_bind [of "ptrcall _ _"] wp_return
          intro!: wp_mono [OF sc] wp_mono [OF pc] advance_inv [where h = h] split: option.split)
  qed
qed

lemma fetch_any_inv:
  "(\<And>d. preserves proc_inv (k d)) \<Longrightarrow> preserves proc_inv (fetch_dir rid k)"
  "(\<And>e. preserves proc_inv (ke e)) \<Longrightarrow> preserves proc_inv (fetch_entry rid ke)"
  by (auto intro!: fetch_dir_inv fetch_entry_inv intro: preservesD)

lemma other_calls_inv:
  "preserves proc_inv (PHP_zip_close E a2)"
  "preserves proc_inv (PHP_zip_entry_open E a4)"
  "preserves proc_inv (PHP_zip_entry_close E a5)"
  "preserves proc_inv (PHP_zip_entry_read E a6)"
  "preserves proc_inv (php_zip_entry_get_info E a7 opt)"
  unfolding PHP_zip_close_def PHP_zip_entry_open_def PHP_zip_entry_close_def PHP_zip_entry_read_def
    php_zip_entry_get_info_def Let_def
  by (rule preserves_zpp; intro fetch_any_inv preserves_intros list_close_inv proc_rules)+

lemma proc_step_inv: "proc_step E s t \<Longrightarrow> proc_inv s \<Longrightarrow> proc_inv t"
proof (induction rule: proc_step.induct)
  case (proc_call m s)
  then show ?case
    by (induction rule: proc_call.induct)
       (blast intro: preserves_run zip_open_inv zip_read_inv other_calls_inv)+
next
  case (proc_shutdown s i)
  then show ?case by (blast intro: preserves_run list_close_inv)
next
  case (proc_world s w x)
  then show ?case by (simp add: proc_inv_def)
qed

lemma proc_init_inv: "proc_init s \<Longrightarrow> proc_inv s"
  by (simp add: proc_init_def proc_inv_def handles_ok_def dir_handle_def rsrc_at_def)

interpretation procedural: transition_system proc_init "proc_step E" proc_inv for E
  by unfold_locales (blast intro: proc_init_inv proc_step_inv)+

text \<open>C8. Whatever sequence of the zip_* functions a script calls, with any resources and any answers of
  libzip that are not handles still live: no libzip call is given a handle that was closed
  before, and every open directory holds a live handle of its own.\<close>

theorem procedural_handles_safe:
  assumes "reach proc_init (proc_step E) s" and "fresh_opens {} (trace s)"
  shows "disciplined {} (trace s) \<and>
    (\<forall>i d h. rsrc_at (self s) i = R_dir d \<longrightarrow> rd_za d = Some h \<longrightarrow> h \<in> live {} (trace s)) \<and>
    (\<forall>i j d d' h. rsrc_at (self s) i = R_dir d \<longrightarrow> rsrc_at (self s) j = R_dir d' \<longrightarrow>
       rd_za d = Some h \<longrightarrow> rd_za d' = Some h \<longrightarrow> i = j)"
  using procedural.reach_inv [OF assms(1)] assms(2)
  by (auto simp: proc_inv_def handles_ok_def dir_handle_def split: rsrc.splits)

theorem procedural_handles_safe_witness:
  "disciplined {} (trace (snd (run_state (PHP_zip_close demo_env (Some 0))
     (snd (run_state (PHP_zip_open demo_env (Some ''a.zip'')) (start_state []))))))"
proof -
  let ?s1 = "snd (run_state (PHP_zip_open demo_env (Some ''a.zip'')) (start_state []))"
  let ?s2 = "snd (run_state (PHP_zip_close demo_env (Some 0)) ?s1)"
  have "reach proc_init (proc_step demo_env) (start_state [])"
    by (rule reach.reach_init) (simp add: proc_init_def start_state_def)
  then have "reach proc_init (proc_step demo_env) ?s1"
    by (rule reach.reach_step) (rule proc_step.proc_call, rule proc_call.intros)
  then have "reach proc_init (proc_step demo_env) ?s2"
    by (rule reach.reach_step) (rule proc_step.proc_call, rule proc_call.intros)
  moreover have "fresh_opens {} (trace ?s2)"
    by (simp add: PHP_zip_open_def PHP_zip_close_def run_defs zend_register_resource_def fetch_dir_def
        rsrc_at_def zend_list_close_def php_zip_free_dir_def cstr_def live_step_def)
  ultimately show ?thesis using procedural_handles_safe by blast
qed

text \<open>Closing a directory whose \<open>zip_close\<close> fails warns and forgets it: the resource is
  gone while the archive stays open in libzip, because nothing discards it (an archive object
  does); no later call can reach the handle.\<close>

theorem failed_close_leaks:
  assumes "rsrc_at (self s) i = R_dir d" and "rd_za d = Some h"
    and "sys_i E (Zip_close h) (world s) = (c, w)" and "c \<noteq> 0" and "h \<in> live {} (trace s)"
  shows "wp (zend_list_close E i) (\<lambda>_ s'. rsrc_at (self s') i = R_closed \<and>
     h \<in> live {} (trace s') \<and> Ev_diag E_WARNING ''Cannot destroy the zip context'' [] \<in> set (trace s')) s"
proof -
  have "i < length (self s)" using assms(1) rsrc_at_length by fastforce
  then show ?thesis
    using assms
    by (simp add: zend_list_close_def php_zip_free_dir_def wp_simps call_defs rsrc_at_update live_step_def)
qed

theorem failed_close_leaks_witness:
  "wp (zend_list_close (demo_env\<lparr>sys_i := (\<lambda>c w. (-1, w))\<rparr>) 0) (\<lambda>_ s'. 7 \<in> live {} (trace s'))
    ((start_state [R_dir two_entry_dir])\<lparr>trace := [Ev_p (Zip_open ''a.zip'' 0) (Some 7)]\<rparr>)"
  (is "wp (zend_list_close ?E 0) _ ?s")
proof -
  have "rsrc_at (self ?s) 0 = R_dir two_entry_dir" "rd_za two_entry_dir = Some 7"
    "sys_i ?E (Zip_close 7) (world ?s) = (-1, ())" "7 \<in> live {} (trace ?s)"
    by (simp_all add: start_state_def rsrc_at_def two_entry_dir_def demo_env_def live_step_def)
  from failed_close_leaks [OF this(1-3) _ this(4)] show ?thesis by (rule wp_mono) auto
qed

end
