(* ===== verification/Zip_Module.thy ===== *)
theory Zip_Module
  imports Zip_Procedural Zip_Props
begin

text \<open>
  Module start and information (ext/php_zip.c): the class constants, the object handlers that
  differ from the standard ones, the resource types, and the rows of phpinfo. The values of the
  constants are libzip's; a constant under an \<open>#ifdef\<close> is registered when its macro is
  defined, which \<open>def\<close> decides.
\<close>

section \<open>Class constants\<close>

text \<open>Name, macro that gives the value, and the macro that guards the registration.\<close>

type_synonym class_const = "string \<times> string \<times> string option"

definition open_constants :: "class_const list" where
  "open_constants =
     [(''CREATE'', ''ZIP_CREATE'', None),
      (''EXCL'', ''ZIP_EXCL'', None),
      (''CHECKCONS'', ''ZIP_CHECKCONS'', None),
      (''OVERWRITE'', ''ZIP_OVERWRITE'', None),
      (''RDONLY'', ''ZIP_RDONLY'', Some ''ZIP_RDONLY'')]"

definition fl_constants :: "class_const list" where
  "fl_constants =
     [(''FL_NOCASE'', ''ZIP_FL_NOCASE'', None),
      (''FL_NODIR'', ''ZIP_FL_NODIR'', None),
      (''FL_COMPRESSED'', ''ZIP_FL_COMPRESSED'', None),
      (''FL_UNCHANGED'', ''ZIP_FL_UNCHANGED'', None),
      (''FL_RECOMPRESS'', ''ZIP_FL_RECOMPRESS'', None),
      (''FL_ENCRYPTED'', ''ZIP_FL_ENCRYPTED'', None),
      (''FL_OVERWRITE'', ''ZIP_FL_OVERWRITE'', None),
      (''FL_LOCAL'', ''ZIP_FL_LOCAL'', None),
      (''FL_CENTRAL'', ''ZIP_FL_CENTRAL'', None),
      (''FL_ENC_GUESS'', ''ZIP_FL_ENC_GUESS'', None),
      (''FL_ENC_RAW'', ''ZIP_FL_ENC_RAW'', None),
      (''FL_ENC_STRICT'', ''ZIP_FL_ENC_STRICT'', None),
      (''FL_ENC_UTF_8'', ''ZIP_FL_ENC_UTF_8'', None),
      (''FL_ENC_CP437'', ''ZIP_FL_ENC_CP437'', None)]"

definition cm_constants :: "class_const list" where
  "cm_constants =
     [(''CM_DEFAULT'', ''ZIP_CM_DEFAULT'', None),
      (''CM_STORE'', ''ZIP_CM_STORE'', None),
      (''CM_SHRINK'', ''ZIP_CM_SHRINK'', None),
      (''CM_REDUCE_1'', ''ZIP_CM_REDUCE_1'', None),
      (''CM_REDUCE_2'', ''ZIP_CM_REDUCE_2'', None),
      (''CM_REDUCE_3'', ''ZIP_CM_REDUCE_3'', None),
      (''CM_REDUCE_4'', ''ZIP_CM_REDUCE_4'', None),
      (''CM_IMPLODE'', ''ZIP_CM_IMPLODE'', None),
      (''CM_DEFLATE'', ''ZIP_CM_DEFLATE'', None),
      (''CM_DEFLATE64'', ''ZIP_CM_DEFLATE64'', None),
      (''CM_PKWARE_IMPLODE'', ''ZIP_CM_PKWARE_IMPLODE'', None),
      (''CM_BZIP2'', ''ZIP_CM_BZIP2'', None),
      (''CM_LZMA'', ''ZIP_CM_LZMA'', None),
      (''CM_LZMA2'', ''ZIP_CM_LZMA2'', Some ''ZIP_CM_LZMA2''),
      (''CM_ZSTD'', ''ZIP_CM_ZSTD'', Some ''ZIP_CM_ZSTD''),
      (''CM_XZ'', ''ZIP_CM_XZ'', Some ''ZIP_CM_XZ''),
      (''CM_TERSE'', ''ZIP_CM_TERSE'', None),
      (''CM_LZ77'', ''ZIP_CM_LZ77'', None),
      (''CM_WAVPACK'', ''ZIP_CM_WAVPACK'', None),
      (''CM_PPMD'', ''ZIP_CM_PPMD'', None)]"

definition er_constants :: "class_const list" where
  "er_constants =
     [(''ER_OK'', ''ZIP_ER_OK'', None),
      (''ER_MULTIDISK'', ''ZIP_ER_MULTIDISK'', None),
      (''ER_RENAME'', ''ZIP_ER_RENAME'', None),
      (''ER_CLOSE'', ''ZIP_ER_CLOSE'', None),
      (''ER_SEEK'', ''ZIP_ER_SEEK'', None),
      (''ER_READ'', ''ZIP_ER_READ'', None),
      (''ER_WRITE'', ''ZIP_ER_WRITE'', None),
      (''ER_CRC'', ''ZIP_ER_CRC'', None),
      (''ER_ZIPCLOSED'', ''ZIP_ER_ZIPCLOSED'', None),
      (''ER_NOENT'', ''ZIP_ER_NOENT'', None),
      (''ER_EXISTS'', ''ZIP_ER_EXISTS'', None),
      (''ER_OPEN'', ''ZIP_ER_OPEN'', None),
      (''ER_TMPOPEN'', ''ZIP_ER_TMPOPEN'', None),
      (''ER_ZLIB'', ''ZIP_ER_ZLIB'', None),
      (''ER_MEMORY'', ''ZIP_ER_MEMORY'', None),
      (''ER_CHANGED'', ''ZIP_ER_CHANGED'', None),
      (''ER_COMPNOTSUPP'', ''ZIP_ER_COMPNOTSUPP'', None),
      (''ER_EOF'', ''ZIP_ER_EOF'', None),
      (''ER_INVAL'', ''ZIP_ER_INVAL'', None),
      (''ER_NOZIP'', ''ZIP_ER_NOZIP'', None),
      (''ER_INTERNAL'', ''ZIP_ER_INTERNAL'', None),
      (''ER_INCONS'', ''ZIP_ER_INCONS'', None),
      (''ER_REMOVE'', ''ZIP_ER_REMOVE'', None),
      (''ER_DELETED'', ''ZIP_ER_DELETED'', None),
      (''ER_ENCRNOTSUPP'', ''ZIP_ER_ENCRNOTSUPP'', None),
      (''ER_RDONLY'', ''ZIP_ER_RDONLY'', None),
      (''ER_NOPASSWD'', ''ZIP_ER_NOPASSWD'', None),
      (''ER_WRONGPASSWD'', ''ZIP_ER_WRONGPASSWD'', None),
      (''ER_OPNOTSUPP'', ''ZIP_ER_OPNOTSUPP'', Some ''ZIP_ER_OPNOTSUPP''),
      (''ER_INUSE'', ''ZIP_ER_INUSE'', Some ''ZIP_ER_INUSE''),
      (''ER_TELL'', ''ZIP_ER_TELL'', Some ''ZIP_ER_TELL''),
      (''ER_COMPRESSED_DATA'', ''ZIP_ER_COMPRESSED_DATA'', Some ''ZIP_ER_COMPRESSED_DATA''),
      (''ER_CANCELLED'', ''ZIP_ER_CANCELLED'', Some ''ZIP_ER_CANCELLED'')]"

definition opsys_constants :: "class_const list" where
  "opsys_constants =
     [(''OPSYS_DOS'', ''ZIP_OPSYS_DOS'', Some ''ZIP_OPSYS_DEFAULT''),
      (''OPSYS_AMIGA'', ''ZIP_OPSYS_AMIGA'', Some ''ZIP_OPSYS_DEFAULT''),
      (''OPSYS_OPENVMS'', ''ZIP_OPSYS_OPENVMS'', Some ''ZIP_OPSYS_DEFAULT''),
      (''OPSYS_UNIX'', ''ZIP_OPSYS_UNIX'', Some ''ZIP_OPSYS_DEFAULT''),
      (''OPSYS_VM_CMS'', ''ZIP_OPSYS_VM_CMS'', Some ''ZIP_OPSYS_DEFAULT''),
      (''OPSYS_ATARI_ST'', ''ZIP_OPSYS_ATARI_ST'', Some ''ZIP_OPSYS_DEFAULT''),
      (''OPSYS_OS_2'', ''ZIP_OPSYS_OS_2'', Some ''ZIP_OPSYS_DEFAULT''),
      (''OPSYS_MACINTOSH'', ''ZIP_OPSYS_MACINTOSH'', Some ''ZIP_OPSYS_DEFAULT''),
      (''OPSYS_Z_SYSTEM'', ''ZIP_OPSYS_Z_SYSTEM'', Some ''ZIP_OPSYS_DEFAULT''),
      (''OPSYS_CPM'', ''ZIP_OPSYS_CPM'', Some ''ZIP_OPSYS_DEFAULT''),
      (''OPSYS_WINDOWS_NTFS'', ''ZIP_OPSYS_WINDOWS_NTFS'', Some ''ZIP_OPSYS_DEFAULT''),
      (''OPSYS_MVS'', ''ZIP_OPSYS_MVS'', Some ''ZIP_OPSYS_DEFAULT''),
      (''OPSYS_VSE'', ''ZIP_OPSYS_VSE'', Some ''ZIP_OPSYS_DEFAULT''),
      (''OPSYS_ACORN_RISC'', ''ZIP_OPSYS_ACORN_RISC'', Some ''ZIP_OPSYS_DEFAULT''),
      (''OPSYS_VFAT'', ''ZIP_OPSYS_VFAT'', Some ''ZIP_OPSYS_DEFAULT''),
      (''OPSYS_ALTERNATE_MVS'', ''ZIP_OPSYS_ALTERNATE_MVS'', Some ''ZIP_OPSYS_DEFAULT''),
      (''OPSYS_BEOS'', ''ZIP_OPSYS_BEOS'', Some ''ZIP_OPSYS_DEFAULT''),
      (''OPSYS_TANDEM'', ''ZIP_OPSYS_TANDEM'', Some ''ZIP_OPSYS_DEFAULT''),
      (''OPSYS_OS_400'', ''ZIP_OPSYS_OS_400'', Some ''ZIP_OPSYS_DEFAULT''),
      (''OPSYS_OS_X'', ''ZIP_OPSYS_OS_X'', Some ''ZIP_OPSYS_DEFAULT''),
      (''OPSYS_DEFAULT'', ''ZIP_OPSYS_DEFAULT'', Some ''ZIP_OPSYS_DEFAULT'')]"

definition em_constants :: "class_const list" where
  "em_constants =
     [(''EM_NONE'', ''ZIP_EM_NONE'', None),
      (''EM_TRAD_PKWARE'', ''ZIP_EM_TRAD_PKWARE'', None),
      (''EM_AES_128'', ''ZIP_EM_AES_128'', Some ''HAVE_ENCRYPTION''),
      (''EM_AES_192'', ''ZIP_EM_AES_192'', Some ''HAVE_ENCRYPTION''),
      (''EM_AES_256'', ''ZIP_EM_AES_256'', Some ''HAVE_ENCRYPTION''),
      (''EM_UNKNOWN'', ''ZIP_EM_UNKNOWN'', None)]"

definition zip_class_constants :: "class_const list" where
  "zip_class_constants =
     open_constants @ fl_constants @ cm_constants @ er_constants @ opsys_constants @ em_constants"

definition register_constants ::
  "'w env \<Rightarrow> (string \<Rightarrow> bool) \<Rightarrow> class_const list \<Rightarrow> (string \<times> int) list" where
  "register_constants E def cs =
     map (\<lambda>(name, macro, _). (name, as_long (zc E macro)))
       (filter (\<lambda>(_, _, guard). case guard of None \<Rightarrow> True | Some m \<Rightarrow> def m) cs)"

section \<open>Module start\<close>

datatype object_handler =
    Std_handler
  | No_handler
  | H_free_storage | H_get_property_ptr_ptr | H_get_gc | H_get_properties
  | H_read_property | H_has_property | H_write_property

record module_state =
  m_handlers :: "string \<Rightarrow> object_handler"
  m_prop_handlers :: prop_table
  m_constants :: "(string \<times> int) list"
  m_wrappers :: "string list"
  m_resource_types :: "string list"

definition zip_object_handlers :: "string \<Rightarrow> object_handler" where
  "zip_object_handlers = (\<lambda>_. Std_handler)
     (''free_obj'' := H_free_storage, ''clone_obj'' := No_handler,
      ''get_property_ptr_ptr'' := H_get_property_ptr_ptr, ''get_gc'' := H_get_gc,
      ''get_properties'' := H_get_properties, ''read_property'' := H_read_property,
      ''has_property'' := H_has_property, ''write_property'' := H_write_property)"

definition zip_MINIT :: "'w env \<Rightarrow> (string \<Rightarrow> bool) \<Rightarrow> string list \<Rightarrow> module_state" where
  "zip_MINIT E def wrappers =
     \<lparr>m_handlers = zip_object_handlers, m_prop_handlers = zip_prop_handlers,
      m_constants = register_constants E def zip_class_constants,
      m_wrappers = wrappers @ [''zip''],
      m_resource_types = [''Zip Directory'', ''Zip Entry'']\<rparr>"

definition zip_MSHUTDOWN :: "module_state \<Rightarrow> module_state" where
  "zip_MSHUTDOWN m = m\<lparr>m_prop_handlers := [], m_wrappers := removeAll ''zip'' (m_wrappers m)\<rparr>"

section \<open>Module information\<close>

definition yes_no :: "int \<Rightarrow> string" where
  "yes_no r = (if r \<noteq> 0 then ''Yes'' else ''No'')"

text \<open>The rows of the table, with the version rows given the version of the library in use.\<close>

definition zip_MINFO ::
  "'w env \<Rightarrow> (string \<Rightarrow> bool) \<Rightarrow> ('w, 'o, (string \<times> string) list) act" where
  "zip_MINFO E def = do {
     v \<leftarrow> tcall E Zip_libzip_version;
     version_rows \<leftarrow> ret (if libzip_version E \<noteq> dflt [] v
        then [(''Libzip headers version'', libzip_version E),
              (''Libzip library version'', dflt [] v)]
        else [(''Libzip version'', libzip_version E)]);
     bz \<leftarrow> icall E (Zip_compression_method_supported (as_int (zc E ''ZIP_CM_BZIP2'')) True);
     xz \<leftarrow> icall E (Zip_compression_method_supported (as_int (zc E ''ZIP_CM_XZ'')) True);
     zstd \<leftarrow> (if def ''ZIP_CM_ZSTD''
       then icall E (Zip_compression_method_supported (as_int (zc E ''ZIP_CM_ZSTD'')) True)
       else ret 0);
     a128 \<leftarrow> icall E (Zip_encryption_method_supported (as_u16 (zc E ''ZIP_EM_AES_128'')) True);
     a192 \<leftarrow> icall E (Zip_encryption_method_supported (as_u16 (zc E ''ZIP_EM_AES_128'')) True);
     a256 \<leftarrow> icall E (Zip_encryption_method_supported (as_u16 (zc E ''ZIP_EM_AES_128'')) True);
     ret ([(''Zip'', ''enabled''), (''Zip version'', ''1.19.3'')] @ version_rows @
       [(''BZIP2 compression'', yes_no bz), (''XZ compression'', yes_no xz),
        (''ZSTD compression'', yes_no zstd), (''AES-128 encryption'', yes_no a128),
        (''AES-192 encryption'', yes_no a192), (''AES-256 encryption'', yes_no a256)]) }"

section \<open>Constants\<close>

lemma class_constant_names: "distinct (map fst zip_class_constants)"
  by code_simp

text \<open>After module start every class constant whose macro is defined has the value of its macro,
  under a name of its own, and a constant whose guard is not defined is not registered.\<close>

theorem class_constants_registered:
  "(name, macro, guard) \<in> set zip_class_constants \<Longrightarrow>
   map_of (m_constants (zip_MINIT E def wrappers)) name =
     (if guard = None \<or> (\<exists>g. guard = Some g \<and> def g) then Some (as_long (zc E macro)) else None)"
proof -
  have aux: "map_of (register_constants E def cs) name =
     (if guard = None \<or> (\<exists>g. guard = Some g \<and> def g) then Some (as_long (zc E macro)) else None)"
    if "(name, macro, guard) \<in> set cs" "distinct (map fst cs)" for cs
    using that
  proof (induction cs)
    case (Cons c cs)
    obtain n m g where c: "c = (n, m, g)" by (cases c)
    have notin: "map_of (register_constants E def cs) k = None" if "k \<notin> fst ` set cs" for k
      using that by (force simp: register_constants_def map_of_eq_None_iff)
    show ?case
    proof (cases "n = name")
      case True
      with Cons.prems c have "m = macro" "g = guard" "name \<notin> fst ` set cs" by (force simp: c)+
      with True c notin [of name] show ?thesis
        by (auto simp: register_constants_def split: option.split)
    next
      case False
      with Cons c show ?thesis
        by (auto simp: register_constants_def split: option.split)
    qed
  qed simp
  assume "(name, macro, guard) \<in> set zip_class_constants"
  then show ?thesis using aux [OF _ class_constant_names] by (simp add: zip_MINIT_def)
qed

theorem class_constants_registered_witness:
  "map_of (m_constants (zip_MINIT demo_env (\<lambda>g. g = ''ZIP_CM_ZSTD'') [])) ''CM_ZSTD'' = Some 0 \<and>
   map_of (m_constants (zip_MINIT demo_env (\<lambda>g. g = ''ZIP_CM_ZSTD'') [])) ''CM_XZ'' = None"
proof -
  have "(''CM_ZSTD'', ''ZIP_CM_ZSTD'', Some ''ZIP_CM_ZSTD'') \<in> set zip_class_constants"
    "(''CM_XZ'', ''ZIP_CM_XZ'', Some ''ZIP_CM_XZ'') \<in> set zip_class_constants"
    by (simp_all add: zip_class_constants_def cm_constants_def)
  from this [THEN class_constants_registered, of demo_env "\<lambda>g. g = ''ZIP_CM_ZSTD''" "[]"]
  show ?thesis by (simp add: demo_env_def as_long_def)
qed

section \<open>Module information: properties\<close>

lemma minfo_shape:
  assumes "\<And>c w. sys_i E c w = (answer c, w)"
  shows "wp (zip_MINFO E def) (\<lambda>rows s'. \<exists>version_rows bz xz zstd.
     fst ` set version_rows \<subseteq> {''Libzip headers version'', ''Libzip library version'', ''Libzip version''} \<and>
     rows = [(''Zip'', ''enabled''), (''Zip version'', ''1.19.3'')] @ version_rows @
       [(''BZIP2 compression'', bz), (''XZ compression'', xz), (''ZSTD compression'', zstd)] @
       map (\<lambda>k. (k, yes_no (answer (Zip_encryption_method_supported (as_u16 (zc E ''ZIP_EM_AES_128'')) True))))
         [''AES-128 encryption'', ''AES-192 encryption'', ''AES-256 encryption'']) s"
proof -
  obtain v w where v: "sys_t E Zip_libzip_version (world s) = (v, w)" by (metis prod.exhaust)
  show ?thesis
    by (cases "libzip_version E \<noteq> dflt [] v"; cases "def ''ZIP_CM_ZSTD''")
       (rule wp_runI, simp add: v assms zip_MINFO_def run_perform call_defs, force)+
qed

text \<open>The rows for AES-192 and AES-256 repeat the one for AES-128: libzip is asked three times
  about \<open>ZIP_EM_AES_128\<close>, so, when its answers do not depend on the state, the three rows are
  the same, whatever it supports.\<close>

theorem minfo_aes_rows:
  assumes "\<And>c w. sys_i E c w = (answer c, w)"
  shows "wp (zip_MINFO E def) (\<lambda>rows s'.
     map_of rows ''AES-192 encryption'' = map_of rows ''AES-128 encryption'' \<and>
     map_of rows ''AES-256 encryption'' = map_of rows ''AES-128 encryption'' \<and>
     map_of rows ''AES-128 encryption'' =
       Some (yes_no (answer (Zip_encryption_method_supported (as_u16 (zc E ''ZIP_EM_AES_128'')) True)))) s"
  proof (rule wp_mono [OF minfo_shape [OF assms]], elim exE conjE)
  fix rows vr :: "(string \<times> string) list" and bz xz zstd :: string
  assume "fst ` set vr \<subseteq> {''Libzip headers version'', ''Libzip library version'', ''Libzip version''}"
  then have "map_of vr ''AES-128 encryption'' = None" "map_of vr ''AES-192 encryption'' = None"
    "map_of vr ''AES-256 encryption'' = None" by (auto simp: map_of_eq_None_iff)
  moreover assume "rows = [(''Zip'', ''enabled''), (''Zip version'', ''1.19.3'')] @ vr @
       [(''BZIP2 compression'', bz), (''XZ compression'', xz), (''ZSTD compression'', zstd)] @
       map (\<lambda>k. (k, yes_no (answer (Zip_encryption_method_supported (as_u16 (zc E ''ZIP_EM_AES_128'')) True))))
         [''AES-128 encryption'', ''AES-192 encryption'', ''AES-256 encryption'']"
  ultimately show "map_of rows ''AES-192 encryption'' = map_of rows ''AES-128 encryption'' \<and>
     map_of rows ''AES-256 encryption'' = map_of rows ''AES-128 encryption'' \<and>
     map_of rows ''AES-128 encryption'' =
       Some (yes_no (answer (Zip_encryption_method_supported (as_u16 (zc E ''ZIP_EM_AES_128'')) True)))"
    by (simp add: map_add_def)
qed

definition aes128_env :: "unit env" where
  "aes128_env = demo_env\<lparr>
     zc := (\<lambda>k. if k = ''ZIP_EM_AES_128'' then 257 else if k = ''ZIP_EM_AES_256'' then 259 else 0),
     sys_i := (\<lambda>c w. (case c of Zip_encryption_method_supported m _ \<Rightarrow> (if m = 257 then 1 else 0) | _ \<Rightarrow> 0, w))\<rparr>"

theorem minfo_aes_rows_witness:
  "wp (zip_MINFO aes128_env (\<lambda>_. True)) (\<lambda>rows s'. map_of rows ''AES-256 encryption'' = Some ''Yes'')
    (start_state ())"
proof -
  let ?a = "\<lambda>c. case c of Zip_encryption_method_supported m _ \<Rightarrow> (if m = 257 then 1 else 0) | _ \<Rightarrow> (0::int)"
  have "sys_i aes128_env c w = (?a c, w)" for c w by (simp add: aes128_env_def)
  from minfo_aes_rows [where answer = ?a and E = aes128_env, OF this] show ?thesis
    by (rule wp_mono) (simp add: aes128_env_def as_u16_def yes_no_def)
qed

end
