(* ===== verification/My_Bits.thy ===== *)
theory My_Bits
  imports "HOL-Library.Word"
begin

text \<open>
  The bit functions of the MariaDB server headers, \<open>my_bit.h\<close>: the position of the highest bit,
  the next power of two, clearing the highest bit, masks, the search of the lowest bit (the generic
  loop of the header), reversing and counting bits. Integers have the width of the code; a position
  (\<open>uint\<close>, at most 64) is a natural number. Each function is proved equal to what its comment
  says in terms of the bits of its argument, for every value of the type.
\<close>

unbundle bit_operations_syntax

section \<open>The highest bit\<close>

definition my_bit_log2_hex_digit :: "8 word \<Rightarrow> nat" where
  "my_bit_log2_hex_digit v =
     (if v AND 0x0C \<noteq> 0 then (if v AND 0x08 \<noteq> 0 then 3 else 2)
      else (if v AND 0x02 \<noteq> 0 then 1 else 0))"

definition my_bit_log2_uint8 :: "8 word \<Rightarrow> nat" where
  "my_bit_log2_uint8 v =
     (if v AND 0xF0 \<noteq> 0 then my_bit_log2_hex_digit (drop_bit 4 v) + 4
      else my_bit_log2_hex_digit v)"

definition my_bit_log2_uint16 :: "16 word \<Rightarrow> nat" where
  "my_bit_log2_uint16 v =
     (if v AND 0xFF00 \<noteq> 0 then my_bit_log2_uint8 (ucast (drop_bit 8 v)) + 8
      else my_bit_log2_uint8 (ucast v))"

definition my_bit_log2_uint32 :: "32 word \<Rightarrow> nat" where
  "my_bit_log2_uint32 v =
     (if v AND 0xFFFF0000 \<noteq> 0 then my_bit_log2_uint16 (ucast (drop_bit 16 v)) + 16
      else my_bit_log2_uint16 (ucast v))"

definition my_bit_log2_uint64 :: "64 word \<Rightarrow> nat" where
  "my_bit_log2_uint64 v =
     (if v AND 0xFFFFFFFF00000000 \<noteq> 0 then my_bit_log2_uint32 (ucast (drop_bit 32 v)) + 32
      else my_bit_log2_uint32 (ucast v))"

definition my_bit_log2_size_t :: "64 word \<Rightarrow> nat" where
  "my_bit_log2_size_t v = my_bit_log2_uint64 v"

text \<open>The reference: the exponent of the highest power of two that is not above \<open>n\<close>.\<close>

definition is_log2 :: "nat \<Rightarrow> nat \<Rightarrow> bool" where
  "is_log2 n r \<longleftrightarrow> (if n = 0 then r = 0 else 2 ^ r \<le> n \<and> n < 2 ^ (r + 1))"

lemma is_log2_high:
  assumes "is_log2 (n div 2 ^ k) r" and "n div 2 ^ k \<noteq> 0"
  shows "is_log2 n (r + k)"
proof -
  from assms have r: "2 ^ r \<le> n div 2 ^ k" "n div 2 ^ k < 2 ^ (r + 1)" by (auto simp: is_log2_def)
  have "2 ^ r * 2 ^ k \<le> n" using r(1) by (metis less_eq_div_iff_mult_less_eq zero_less_numeral zero_less_power)
  moreover have "n < 2 ^ (r + 1) * 2 ^ k" using r(2) by (metis div_less_iff_less_mult zero_less_numeral zero_less_power)
  ultimately show ?thesis by (auto simp: is_log2_def power_add algebra_simps)
qed

lemma high_bits:
  fixes v :: "'a::len word"
  shows "v AND NOT (mask k) = 0 \<longleftrightarrow> unat v div 2 ^ k = 0"
proof -
  have "v AND NOT (mask k) = push_bit k (drop_bit k v)"
    by (rule bit_word_eqI) (auto simp: bit_simps)
  moreover have "push_bit k (drop_bit k v) = 0 \<longleftrightarrow> drop_bit k v = 0"
  proof
    assume z: "push_bit k (drop_bit k v) = 0"
    show "drop_bit k v = 0"
    proof (rule bit_word_eqI)
      fix n
      have "\<not> bit (push_bit k (drop_bit k v)) (n + k)" using z by simp
      then show "bit (drop_bit k v) n = bit 0 n"
        by (auto simp: bit_simps dest: bit_imp_le_length)
    qed
  qed simp
  moreover have "drop_bit k v = 0 \<longleftrightarrow> unat v div 2 ^ k = 0"
    by (metis drop_bit_eq_div unat_drop_bit_eq unat_eq_0)
  ultimately show ?thesis by simp
qed

lemma log2_step:
  fixes v :: "'a::len word"
  assumes "m = NOT (mask k)"
    and "unat v div 2 ^ k \<noteq> 0 \<Longrightarrow> is_log2 (unat v div 2 ^ k) hi"
    and "unat v div 2 ^ k = 0 \<Longrightarrow> is_log2 (unat v) lo"
  shows "is_log2 (unat v) (if v AND m \<noteq> 0 then hi + k else lo)"
  using assms high_bits [of v k] is_log2_high [of "unat v" k hi] by auto

lemma hex_digit_log2:
  assumes "unat v < 16"
  shows "is_log2 (unat v) (my_bit_log2_hex_digit v)"
proof -
  have all: "\<forall>n \<in> {0..<16}. is_log2 n (my_bit_log2_hex_digit (of_nat n))" by code_simp
  have "unat v \<in> {0..<16}" using assms by simp
  from bspec [OF all this] show ?thesis by (simp only: of_nat_unat ucast_id)
qed

lemma unat_drop: "unat (drop_bit k v) = unat v div 2 ^ k"
  using unat_drop_bit_eq [of k v] drop_bit_eq_div [of k "unat v"] by simp

lemma unat_low: "unat (ucast v :: 'a::len word) = unat v mod 2 ^ LENGTH('a)"
  by (simp add: unsigned_ucast_eq take_bit_eq_mod)

lemma log2_masks:
  "(0xF0 :: 8 word) = NOT (mask 4)"
  "(0xFF00 :: 16 word) = NOT (mask 8)"
  "(0xFFFF0000 :: 32 word) = NOT (mask 16)"
  "(0xFFFFFFFF00000000 :: 64 word) = NOT (mask 32)"
  by (code_simp)+

lemma uint8_log2: "is_log2 (unat v) (my_bit_log2_uint8 v)"
  unfolding my_bit_log2_uint8_def log2_masks
proof (rule log2_step [OF refl])
  have "unat v < 256" using unsigned_less [of v, where ?'a = nat] by simp
  then have "unat (drop_bit 4 v) < 16" by (simp add: unat_drop)
  from hex_digit_log2 [OF this] show "is_log2 (unat v div 2 ^ 4) (my_bit_log2_hex_digit (drop_bit 4 v))"
    by (simp add: unat_drop)
next
  assume "unat v div 2 ^ 4 = 0"
  then show "is_log2 (unat v) (my_bit_log2_hex_digit v)"
    by (intro hex_digit_log2) (simp add: div_eq_0_iff)
qed

lemma uint16_log2: "is_log2 (unat v) (my_bit_log2_uint16 v)"
  unfolding my_bit_log2_uint16_def log2_masks
proof (rule log2_step [OF refl])
  have "unat v < 65536" using unsigned_less [of v, where ?'a = nat] by simp
  then have hi: "unat (ucast (drop_bit 8 v) :: 8 word) = unat v div 2 ^ 8"
    by (simp add: unat_low unat_drop)
  show "is_log2 (unat v div 2 ^ 8) (my_bit_log2_uint8 (ucast (drop_bit 8 v)))"
    using uint8_log2 [of "ucast (drop_bit 8 v)"] by (simp only: hi)
  assume "unat v div 2 ^ 8 = 0"
  then have "unat (ucast v :: 8 word) = unat v" by (simp add: unat_low)
  then show "is_log2 (unat v) (my_bit_log2_uint8 (ucast v))"
    using uint8_log2 [of "ucast v"] by simp
qed

lemma uint32_log2: "is_log2 (unat v) (my_bit_log2_uint32 v)"
  unfolding my_bit_log2_uint32_def log2_masks
proof (rule log2_step [OF refl])
  have "unat v < 4294967296" using unsigned_less [of v, where ?'a = nat] by simp
  then have hi: "unat (ucast (drop_bit 16 v) :: 16 word) = unat v div 2 ^ 16"
    by (simp add: unat_low unat_drop)
  show "is_log2 (unat v div 2 ^ 16) (my_bit_log2_uint16 (ucast (drop_bit 16 v)))"
    using uint16_log2 [of "ucast (drop_bit 16 v)"] by (simp only: hi)
  assume "unat v div 2 ^ 16 = 0"
  then have "unat (ucast v :: 16 word) = unat v" by (simp add: unat_low)
  then show "is_log2 (unat v) (my_bit_log2_uint16 (ucast v))"
    using uint16_log2 [of "ucast v"] by simp
qed

text \<open>\<open>my_bit_log2_uint64\<close> finds the highest bit: for a value that is not zero the answer
  \<open>r\<close> has \<open>2 ^ r \<le> v < 2 ^ (r + 1)\<close>; for zero it is 0.\<close>

theorem my_bit_log2_correct: "is_log2 (unat v) (my_bit_log2_uint64 v)"
  unfolding my_bit_log2_uint64_def log2_masks
proof (rule log2_step [OF refl])
  have "unat v < 18446744073709551616" using unsigned_less [of v, where ?'a = nat] by simp
  then have hi: "unat (ucast (drop_bit 32 v) :: 32 word) = unat v div 2 ^ 32"
    by (simp add: unat_low unat_drop)
  show "is_log2 (unat v div 2 ^ 32) (my_bit_log2_uint32 (ucast (drop_bit 32 v)))"
    using uint32_log2 [of "ucast (drop_bit 32 v)"] by (simp only: hi)
  assume "unat v div 2 ^ 32 = 0"
  then have "unat (ucast v :: 32 word) = unat v" by (simp add: unat_low)
  then show "is_log2 (unat v) (my_bit_log2_uint32 (ucast v))"
    using uint32_log2 [of "ucast v"] by simp
qed

section \<open>Smearing\<close>

text \<open>\<open>v|= v >> 1; v|= v >> 2; ...; v|= v >> 16;\<close>\<close>

definition smear :: "32 word \<Rightarrow> 32 word" where
  "smear v0 =
     (let v1 = v0 OR drop_bit 1 v0;
          v2 = v1 OR drop_bit 2 v1;
          v3 = v2 OR drop_bit 4 v2;
          v4 = v3 OR drop_bit 8 v3
      in v4 OR drop_bit 16 v4)"

definition my_round_up_to_next_power :: "32 word \<Rightarrow> 32 word" where
  "my_round_up_to_next_power v = smear (v - 1) + 1"

definition my_clear_highest_bit :: "32 word \<Rightarrow> 32 word" where
  "my_clear_highest_bit v = v AND smear (drop_bit 1 v)"

lemma smear_double:
  fixes w v :: "32 word"
  assumes "\<And>n. bit w n \<longleftrightarrow> (\<exists>j<k. bit v (n + j))"
  shows "bit (w OR drop_bit k w) n \<longleftrightarrow> (\<exists>j<k + k. bit v (n + j))"
proof -
  have "bit (w OR drop_bit k w) n \<longleftrightarrow> (\<exists>j<k. bit v (n + j)) \<or> (\<exists>j<k. bit v (n + k + j))"
    by (simp add: bit_simps assms add.commute add.left_commute)
  also have "\<dots> \<longleftrightarrow> (\<exists>j<k + k. bit v (n + j))"
  proof
    assume "\<exists>j<k + k. bit v (n + j)"
    then obtain j where j: "j < k + k" "bit v (n + j)" by blast
    show "(\<exists>j<k. bit v (n + j)) \<or> (\<exists>j<k. bit v (n + k + j))"
    proof (cases "j < k")
      case False
      then have "n + k + (j - k) = n + j" "j - k < k" using j by auto
      with j show ?thesis by (metis)
    qed (use j in blast)
  next
    assume "(\<exists>j<k. bit v (n + j)) \<or> (\<exists>j<k. bit v (n + k + j))"
    then show "\<exists>j<k + k. bit v (n + j)"
    proof (elim disjE exE conjE)
      fix j assume "j < k" "bit v (n + j)"
      then show ?thesis by (intro exI [of _ j]) simp
    next
      fix j assume "j < k" "bit v (n + k + j)"
      then show ?thesis by (intro exI [of _ "k + j"]) (simp add: add.assoc)
    qed
  qed
  finally show ?thesis .
qed

lemma bit_smear: "bit (smear v) n \<longleftrightarrow> (\<exists>j. bit v (n + j))"
proof -
  define v1 where "v1 = v OR drop_bit 1 v"
  define v2 where "v2 = v1 OR drop_bit 2 v1"
  define v3 where "v3 = v2 OR drop_bit 4 v2"
  define v4 where "v4 = v3 OR drop_bit 8 v3"
  have b1: "bit v1 n \<longleftrightarrow> (\<exists>j<2. bit v (n + j))" for n
    using smear_double [of v 1 v n] by (simp add: v1_def numeral_2_eq_2)
  have b2: "bit v2 n \<longleftrightarrow> (\<exists>j<4. bit v (n + j))" for n
    using smear_double [of v1 2 v n] b1 by (simp add: v2_def)
  have b3: "bit v3 n \<longleftrightarrow> (\<exists>j<8. bit v (n + j))" for n
    using smear_double [of v2 4 v n] b2 by (simp add: v3_def)
  have b4: "bit v4 n \<longleftrightarrow> (\<exists>j<16. bit v (n + j))" for n
    using smear_double [of v3 8 v n] b3 by (simp add: v4_def)
  have "bit (smear v) n \<longleftrightarrow> (\<exists>j<32. bit v (n + j))"
    using smear_double [of v4 16 v n] b4
    by (simp add: smear_def Let_def v1_def v2_def v3_def v4_def)
  also have "\<dots> \<longleftrightarrow> (\<exists>j. bit v (n + j))"
  proof
    assume "\<exists>j. bit v (n + j)"
    then obtain j where j: "bit v (n + j)" ..
    have "n + j < 32" using bit_imp_le_length [OF j] by simp
    then have "j < 32" by simp
    with j show "\<exists>j<32. bit v (n + j)" by blast
  qed blast
  finally show ?thesis .
qed

text \<open>A number and its bits: everything up to the highest bit \<open>r\<close>.\<close>

lemma bit_above_log2:
  fixes v :: "32 word"
  assumes "2 ^ r \<le> unat v" and "unat v < 2 ^ (r + 1)"
  shows "bit v r" and "r < n \<Longrightarrow> \<not> bit v n"
proof -
  have "unat v div 2 ^ r = 1" using assms by (simp add: div_nat_eqI)
  then have "bit (unat v) r" by (simp add: bit_iff_odd)
  then show "bit v r" by (simp add: bit_unsigned_iff)
  assume "r < n"
  then have "(2::nat) ^ (r + 1) \<le> 2 ^ n" by (intro power_increasing) auto
  with assms(2) have "unat v div 2 ^ n = 0" by (simp add: div_less)
  then have "\<not> bit (unat v) n" by (simp add: bit_iff_odd)
  then show "\<not> bit v n" by (auto simp: bit_unsigned_iff dest: bit_imp_possible_bit)
qed

lemma smear_mask:
  fixes v :: "32 word"
  assumes "2 ^ r \<le> unat v" and "unat v < 2 ^ (r + 1)"
  shows "smear v = mask (r + 1)"
proof (rule bit_word_eqI)
  fix n assume n: "n < LENGTH(32)"
  show "bit (smear v) n \<longleftrightarrow> bit (mask (r + 1) :: 32 word) n"
  proof (cases "n \<le> r")
    case True
    then have "bit v (n + (r - n))" using bit_above_log2(1) [OF assms] by simp
    then have "bit (smear v) n" unfolding bit_smear by blast
    with True n show ?thesis by (simp add: bit_simps)
  next
    case False
    then have "\<not> bit v (n + j)" for j by (intro bit_above_log2(2) [OF assms]) auto
    with False show ?thesis by (simp add: bit_smear bit_simps)
  qed
qed

lemma unat_pow2:
  assumes "k < 32"
  shows "unat (2 ^ k :: 32 word) = 2 ^ k"
proof -
  have "(2 ^ k :: 32 word) = of_nat (2 ^ k)" by simp
  moreover have "unat (of_nat (2 ^ k) :: 32 word) = take_bit 32 (2 ^ k)" by (simp only: unsigned_of_nat) simp
  moreover have "take_bit 32 (2 ^ k) = (2 ^ k :: nat)"
    by (rule take_bit_nat_eq_self) (use assms in \<open>simp only: power_strict_increasing_iff\<close>)
  ultimately show ?thesis by (simp only:)
qed

lemma unat_is_1: "unat w = Suc 0 \<longleftrightarrow> w = (1 :: 32 word)"
  by (metis of_nat_unat ucast_id of_nat_1 unsigned_1 One_nat_def)

lemma is_log2_exists: "n \<noteq> 0 \<Longrightarrow> \<exists>r. 2 ^ r \<le> n \<and> n < 2 ^ (r + 1)" for n :: nat
  using ex_power_ivl1 [of 2 n] by auto

text \<open>\<open>my_round_up_to_next_power\<close> gives the least power of two that is not below its
  argument, for the arguments that have one in 32 bits; for 0 and for arguments above
  \<open>2 ^ 31\<close> the addition wraps and the answer is 0.\<close>

theorem next_power_least:
  "if v = 0 \<or> 2 ^ 31 < unat v then my_round_up_to_next_power v = 0
   else \<exists>k. unat (my_round_up_to_next_power v) = 2 ^ k \<and> unat v \<le> 2 ^ k \<and> 2 ^ k < 2 * unat v"
proof (cases "v = 1")
  case True
  then show ?thesis by (auto simp: my_round_up_to_next_power_def smear_def intro: exI [of _ 0])
next
  case ne: False
  have eq: "my_round_up_to_next_power v = mask (r + 1) + 1"
    if "2 ^ r \<le> unat (v - 1)" "unat (v - 1) < 2 ^ (r + 1)" for r
    using smear_mask [OF that] by (simp add: my_round_up_to_next_power_def)
  have mask1: "(mask k :: 32 word) + 1 = 2 ^ k" for k by (simp add: mask_eq_exp_minus_1)
  show ?thesis
  proof (cases "v = 0")
    case True
    have "smear (- 1) = (- 1)" by (rule bit_word_eqI) (auto simp: bit_smear intro: exI [of _ 0])
    with True show ?thesis by (simp add: my_round_up_to_next_power_def)
  next
    case False
    then have pos: "unat v \<noteq> 0" "unat v \<noteq> 1" using ne by (auto simp: unat_eq_0 unat_is_1)
    then have sub: "unat (v - 1) = unat v - 1" using False by (simp add: unat_minus_one)
    with pos obtain r where r: "2 ^ r \<le> unat (v - 1)" "unat (v - 1) < 2 ^ (r + 1)"
      using is_log2_exists [of "unat (v - 1)"] by auto
    from eq [OF r] have nx: "my_round_up_to_next_power v = 2 ^ (r + 1)" by (simp only: mask1)
    have "(2::nat) ^ r < 2 ^ 32" using r(1) unsigned_less [of "v - 1", where ?'a = nat] by simp
    then have r32: "r < 32" by (rule power_less_imp_less_exp [rotated]) simp
    show ?thesis
    proof (cases "2 ^ 31 < unat v")
      case True
      then have "(2::nat) ^ 31 < 2 ^ (r + 1)" using r(2) sub pos by linarith
      then have "r = 31" using r32 by (simp only: power_strict_increasing_iff)
      with True nx show ?thesis by simp
    next
      case small: False
      then have "(2::nat) ^ r < 2 ^ 31" using r(1) sub pos by linarith
      then have "r < 31" by (rule power_less_imp_less_exp [rotated]) simp
      then have "unat (2 ^ (r + 1) :: 32 word) = 2 ^ (r + 1)" by (intro unat_pow2) simp
      then show ?thesis using small False nx r sub pos by (auto intro!: exI [of _ "r + 1"])
    qed
  qed
qed

text \<open>\<open>my_clear_highest_bit\<close> removes the highest power of two and nothing else.\<close>

theorem clear_highest_bit_mod: "unat (my_clear_highest_bit v) = unat v mod 2 ^ my_bit_log2_uint32 v"
proof (cases "v = 0")
  case False
  define r where "r = my_bit_log2_uint32 v"
  from uint32_log2 [of v] False have r: "2 ^ r \<le> unat v" "unat v < 2 ^ (r + 1)"
    by (auto simp: is_log2_def r_def unat_eq_0)
  have "smear (drop_bit 1 v) = mask r"
  proof (cases r)
    case 0
    then have "v = 1" using r False by (simp add: unat_is_1 [symmetric])
    then show ?thesis using 0 by (simp add: smear_def)
  next
    case (Suc q)
    have "2 ^ q \<le> unat (drop_bit 1 v)" "unat (drop_bit 1 v) < 2 ^ (q + 1)"
      using r Suc by (auto simp: unat_drop)
    from smear_mask [OF this] Suc show ?thesis by simp
  qed
  then have "my_clear_highest_bit v = take_bit r v"
    by (simp only: my_clear_highest_bit_def take_bit_eq_mask)
  then have "unat (my_clear_highest_bit v) = take_bit r (unat v)" by (simp only: unsigned_take_bit_eq)
  then show ?thesis by (simp only: r_def take_bit_eq_mod)
qed (simp add: my_clear_highest_bit_def)

section \<open>Masks\<close>

definition my_set_bits :: "int \<Rightarrow> 64 word" where
  "my_set_bits n = push_bit 1 (push_bit (nat (n - 1)) 1 - 1) OR 1"

definition last_byte_mask :: "32 word \<Rightarrow> 8 word" where
  "last_byte_mask bits = (let used = (bits - 1) AND 7 in ucast (push_bit (unat used) (2 :: 32 word) - 1))"

lemma my_set_bits_mask:
  assumes "1 \<le> n" and "n \<le> 64"
  shows "my_set_bits n = mask (nat n)"
proof -
  define k where "k = nat (n - 1)"
  then have k: "n = int (Suc k)" using assms by simp
  have "push_bit k 1 - 1 = (mask k :: 64 word)" by (simp add: mask_eq_exp_minus_1 push_bit_eq_mult)
  then have "my_set_bits n = push_bit 1 (mask k) OR 1" by (simp add: my_set_bits_def k)
  also have "\<dots> = mask (Suc k)"
    by (simp add: mask_Suc_double ac_simps)
  finally show ?thesis using assms by (simp add: k nat_add_distrib)
qed

section \<open>The lowest bit\<close>

definition last_bit :: "nat list" where
  "last_bit = [32, 0, 1, 0, 2, 0, 1, 0, 3, 0, 1, 0, 2, 0, 1, 0]"

partial_function (option) find_bit_loop :: "64 word \<Rightarrow> nat \<Rightarrow> nat option" where
  "find_bit_loop n shift =
     (let bit = last_bit ! unat (drop_bit shift n AND 0xF)
      in if bit = 32 then find_bit_loop n (shift + 4) else Some (shift + bit))"

definition my_find_first_bit :: "64 word \<Rightarrow> nat option" where
  "my_find_first_bit n = (if n = 0 then Some 64 else find_bit_loop n 0)"

definition first_bit :: "64 word \<Rightarrow> nat \<Rightarrow> bool" where
  "first_bit n r \<longleftrightarrow> bit n r \<and> (\<forall>j<r. \<not> bit n j)"

lemma last_bit_digit:
  assumes "d < 16"
  shows "if d = 0 then last_bit ! d = 32
         else last_bit ! d < 4 \<and> bit d (last_bit ! d) \<and> (\<forall>j<last_bit ! d. \<not> bit d j)"
proof -
  have all: "\<forall>d \<in> {0..<16}. if d = 0 then last_bit ! d = 32
         else last_bit ! d < 4 \<and> bit d (last_bit ! d) \<and> (\<forall>j \<in> {0..<last_bit ! d}. \<not> bit d j)" by code_simp
  have "d \<in> {0..<16}" using assms by simp
  from bspec [OF all this] show ?thesis by (auto split: if_splits)
qed

lemma find_bit_loop_first:
  assumes "\<forall>j<4 * i. \<not> bit n j" and "n \<noteq> 0"
  shows "\<exists>r. find_bit_loop n (4 * i) = Some r \<and> first_bit n r"
  using assms
proof (induction "16 - i" arbitrary: i rule: less_induct)
  case less
  define d where "d = unat (drop_bit (4 * i) n AND 0xF)"
  have "drop_bit (4 * i) n AND 0xF = take_bit 4 (drop_bit (4 * i) n)"
    by (simp add: take_bit_eq_mask mask_eq_exp_minus_1)
  then have bits: "bit d j \<longleftrightarrow> j < 4 \<and> bit n (4 * i + j)" for j
    by (auto simp: d_def bit_unsigned_iff bit_simps dest: bit_imp_possible_bit)
  have d16: "d < 16"
  proof -
    have "take_bit 4 d = d" by (rule bit_eqI) (auto simp: bit_simps bits)
    then show ?thesis using take_bit_nat_less_exp [of 4 d] by simp
  qed
  note dig = last_bit_digit [OF d16]
  show ?case
  proof (cases "d = 0")
    case True
    then have none: "\<not> bit n (4 * i + j)" if "j < 4" for j using bits [of j] that by simp
    have low: "\<forall>j<4 * Suc i. \<not> bit n j"
    proof (intro allI impI)
      fix j assume j: "j < 4 * Suc i"
      show "\<not> bit n j"
      proof (cases "j < 4 * i")
        case False
        then have "\<not> bit n (4 * i + (j - 4 * i))" using j by (intro none) simp
        with False show ?thesis by simp
      qed (use less.prems in blast)
    qed
    have "i < 16"
    proof (rule ccontr)
      assume "\<not> i < 16"
      then have "n = 0" using less.prems(1) by (intro bit_word_eqI) auto
      with less.prems show False by simp
    qed
    then have "\<exists>r. find_bit_loop n (4 * Suc i) = Some r \<and> first_bit n r"
      by (intro less.hyps low less.prems(2)) simp
    moreover have "find_bit_loop n (4 * i) = find_bit_loop n (4 * Suc i)"
      using dig True by (subst find_bit_loop.simps) (simp add: d_def [symmetric] Let_def add.commute)
    ultimately show ?thesis by simp
  next
    case False
    with dig have b: "last_bit ! d < 4" "bit d (last_bit ! d)" "\<forall>j<last_bit ! d. \<not> bit d j" by auto
    then have "first_bit n (4 * i + last_bit ! d)"
    proof -
      have "\<not> bit n j" if j: "j < 4 * i + last_bit ! d" for j
      proof (cases "j < 4 * i")
        case False
        then have "\<not> bit d (j - 4 * i)" using b j by simp
        with False b j show ?thesis using bits [of "j - 4 * i"] by simp
      qed (use less.prems in blast)
      then show ?thesis using b bits by (simp add: first_bit_def)
    qed
    moreover have "find_bit_loop n (4 * i) = Some (4 * i + last_bit ! d)"
      using b by (subst find_bit_loop.simps) (simp add: d_def [symmetric] Let_def)
    ultimately show ?thesis by simp
  qed
qed

text \<open>The generic search always ends, and \<open>my_find_first_bit\<close> answers the position of
  the lowest bit that is set, or 64 for zero.\<close>

theorem find_first_bit_returns:
  "\<exists>r. my_find_first_bit n = Some r \<and> (if n = 0 then r = 64 else first_bit n r)"
  using find_bit_loop_first [of 0 n] by (auto simp: my_find_first_bit_def)


section \<open>Reversing the bits\<close>

text \<open>The table \<open>_my_bits_reverse_table\<close> is declared in the header and defined in code that is not
  here: it is a parameter.\<close>

definition my_reverse_bits :: "(nat \<Rightarrow> 8 word) \<Rightarrow> 32 word \<Rightarrow> 32 word" where
  "my_reverse_bits tab key =
     push_bit 24 (ucast (tab (unat (key AND 255)))) OR
     push_bit 16 (ucast (tab (unat (drop_bit 8 key AND 255)))) OR
     push_bit 8 (ucast (tab (unat (drop_bit 16 key AND 255)))) OR
     ucast (tab (unat (drop_bit 24 key)))"

lemma byte_of: "drop_bit k key AND 255 = take_bit 8 (drop_bit k key)" for key :: "32 word"
  by (simp add: take_bit_eq_mask mask_eq_exp_minus_1)

lemma byte_range: "unat (take_bit 8 (drop_bit k key)) < 256" for key :: "32 word"
  using take_bit_nat_less_exp [of 8 "unat (drop_bit k key)"] by (simp add: unsigned_take_bit_eq)

lemma byte_bit: "bit (unat (take_bit 8 (drop_bit k key))) i \<longleftrightarrow> i < 8 \<and> bit key (k + i)" for key :: "32 word"
  by (auto simp: unsigned_take_bit_eq unsigned_drop_bit_eq bit_simps dest: bit_imp_possible_bit)

text \<open>With a table that reverses the bits of a byte, \<open>my_reverse_bits\<close> reverses the 32 bits
  of its argument.\<close>

theorem reverse_bits_reverses:
  assumes tab: "\<And>b i. b < 256 \<Longrightarrow> i < 8 \<Longrightarrow> bit (tab b) i = bit b (7 - i)"
    and i: "i < 32"
  shows "bit (my_reverse_bits tab key) i = bit key (31 - i)"
proof -
  have top: "drop_bit 24 key = take_bit 8 (drop_bit 24 key)"
    by (rule bit_word_eqI) (auto simp: bit_simps dest: bit_imp_le_length)
  have byte: "bit (tab (unat (take_bit 8 (drop_bit k key)))) j = bit key (k + (7 - j))" if "j < 8" for k j
    using tab [OF byte_range that] that by (simp only: byte_bit) auto
  have def': "my_reverse_bits tab key =
     push_bit 24 (ucast (tab (unat (take_bit 8 (drop_bit 0 key))))) OR
     push_bit 16 (ucast (tab (unat (take_bit 8 (drop_bit 8 key))))) OR
     push_bit 8 (ucast (tab (unat (take_bit 8 (drop_bit 16 key))))) OR
     ucast (tab (unat (take_bit 8 (drop_bit 24 key))))"
    using byte_of [of 0 key] top
    by (simp only: my_reverse_bits_def byte_of drop_bit_0 id_apply)
  have out: "\<not> bit (w :: 8 word) j" if "8 \<le> j" for w j
    using that by (auto dest: bit_imp_le_length)
  consider "i < 8" | "8 \<le> i" "i < 16" | "16 \<le> i" "i < 24" | "24 \<le> i" using i by linarith
  then show ?thesis
    using i by cases (auto simp: def' bit_simps byte byte [of _ 0, simplified] out)
qed

definition byte_reversal :: "nat \<Rightarrow> 8 word" where
  "byte_reversal b = horner_sum of_bool 2 (map (\<lambda>i. bit b (7 - i)) [0..<8])"

lemma byte_reversal_bit: "i < 8 \<Longrightarrow> bit (byte_reversal b) i = bit b (7 - i)"
  by (simp add: byte_reversal_def bit_horner_sum_bit_iff del: upt.simps upt_conv_Cons)

theorem reverse_bits_reverses_witness:
  "bit (my_reverse_bits byte_reversal 1) 31 = bit (1 :: 32 word) 0"
  using reverse_bits_reverses [of byte_reversal 31 1] by (simp add: byte_reversal_bit)

section \<open>Counting the bits\<close>

definition my_count_bits_uint32 :: "32 word \<Rightarrow> 32 word" where
  "my_count_bits_uint32 v0 =
     (let v1 = v0 - (drop_bit 1 v0 AND 0x55555555);
          v2 = (v1 AND 0x33333333) + (drop_bit 2 v1 AND 0x33333333)
      in drop_bit 24 (((v2 + drop_bit 4 v2) AND 0xF0F0F0F) * 0x1010101))"

definition my_count_bits :: "64 word \<Rightarrow> 32 word" where
  "my_count_bits x = my_count_bits_uint32 (ucast x) + my_count_bits_uint32 (ucast (drop_bit 32 x))"

text \<open>The steps on numbers, with the masks as arguments: they act byte by byte.\<close>

definition pairs :: "nat \<Rightarrow> nat \<Rightarrow> nat" where
  "pairs m v = v - (drop_bit 1 v AND m)"

definition nibbles :: "nat \<Rightarrow> nat \<Rightarrow> nat" where
  "nibbles m v = (drop_bit 0 v AND m) + (drop_bit 2 v AND m)"

definition byte_sums :: "nat \<Rightarrow> nat \<Rightarrow> nat" where
  "byte_sums m v = drop_bit 0 (v + drop_bit 4 v) AND m"

lemma below_iff_bits: "v < 2 ^ k \<longleftrightarrow> (\<forall>n\<ge>k. \<not> bit v n)" for v :: nat
proof -
  have "v < 2 ^ k \<longleftrightarrow> take_bit k v = v" by (simp add: take_bit_nat_eq_self_iff)
  also have "\<dots> \<longleftrightarrow> (\<forall>n. bit v n \<longrightarrow> n < k)"
    by (simp only: bit_eq_iff bit_take_bit_iff possible_bit_nat) blast
  also have "\<dots> \<longleftrightarrow> (\<forall>n\<ge>k. \<not> bit v n)"
    by (meson not_less)
  finally show ?thesis .
qed

lemma byte_no_bit: "a < 256 \<Longrightarrow> 8 \<le> n \<Longrightarrow> \<not> bit (a :: nat) n"
  using below_iff_bits [of a 8] by simp

lemma masked_below: "c < 2 ^ k \<Longrightarrow> a AND c < 2 ^ k" for a c :: nat
  by (auto simp: below_iff_bits bit_simps)

lemma bit_field:
  fixes a m :: nat
  assumes "a < 256"
  shows "bit (a + 256 * m) n \<longleftrightarrow> (if n < 8 then bit a n else bit m (n - 8))"
proof -
  note a = byte_no_bit [OF assms]
  have "a + 256 * m = a + push_bit 8 m" by (simp add: push_bit_eq_mult)
  also have "\<dots> = a OR push_bit 8 m"
    by (rule disjunctive_add) (use a in \<open>auto simp: bit_push_bit_iff not_less\<close>)
  finally show ?thesis using a by (auto simp: bit_or_iff bit_push_bit_iff not_less)
qed

lemma masked_field:
  fixes a m c d :: nat
  assumes a: "a < 256" and c: "c < 2 ^ (8 - k)" and k: "k \<le> 8"
  shows "drop_bit k (a + 256 * m) AND (c + 256 * d) = (drop_bit k a AND c) + 256 * (drop_bit k m AND d)"
proof (rule bit_eqI)
  fix n
  have "(2::nat) ^ (8 - k) \<le> 2 ^ 8" by (rule power_increasing) auto
  then have c8: "c < 256" using c by simp
  then have f: "drop_bit k a AND c < 256" using masked_below [of c 8] by simp
  have cb: "\<not> bit c j" if "8 - k \<le> j" for j using c that by (auto simp: below_iff_bits)
  show "bit (drop_bit k (a + 256 * m) AND (c + 256 * d)) n
      \<longleftrightarrow> bit ((drop_bit k a AND c) + 256 * (drop_bit k m AND d)) n"
  proof (cases "n < 8")
    case True
    then show ?thesis using cb [of n] k
      by (cases "n < 8 - k") (auto simp: bit_field [OF c8] bit_field [OF f] bit_simps bit_field [OF a] add.commute)
  next
    case False
    then show ?thesis
      by (auto simp: bit_field [OF c8] bit_field [OF f] bit_simps bit_field [OF a] add.commute
          Nat.add_diff_assoc)
  qed
qed


lemma and_le1: "a AND c \<le> a" for a c :: nat
  using AND_upper1 [of "int a" "int c"] by (simp add: of_nat_and_eq [symmetric])

lemma half_and_le: "drop_bit 1 v AND m \<le> v" for v m :: nat
  by (rule order_trans [OF and_le1]) (simp add: drop_bit_eq_div)

lemma pairs_field:
  assumes "a < 256"
  shows "pairs (85 + 256 * d) (a + 256 * m) = pairs 85 a + 256 * pairs d m"
  using masked_field [OF assms, of 85 1 m d] half_and_le [of a 85] half_and_le [of m d]
  by (simp add: pairs_def diff_mult_distrib2 del: drop_bit_Suc drop_bit_half)

lemma nibbles_field:
  assumes "a < 256"
  shows "nibbles (51 + 256 * d) (a + 256 * m) = nibbles 51 a + 256 * nibbles d m"
  using masked_field [OF assms, of 51 2 m d] masked_field [OF assms, of 51 0 m d]
  by (simp add: nibbles_def)

lemma byte_sums_field:
  assumes "a \<le> 68" and "m mod 16 \<le> 4"
  shows "byte_sums (15 + 256 * d) (a + 256 * m) = byte_sums 15 a + 256 * byte_sums d m"
proof -
  define b where "b = a + a div 16 + 16 * (m mod 16)"
  have b: "b < 256" using assms unfolding b_def by linarith
  have "(a + 256 * m) div 16 = a div 16 + 16 * m" by linarith
  moreover have "16 * m = 16 * (m mod 16) + 256 * (m div 16)"
    using mod_mult_div_eq [of m 16] by linarith
  ultimately have "(a + 256 * m) + drop_bit 4 (a + 256 * m) = b + 256 * (m + m div 16)"
    by (simp add: drop_bit_eq_div b_def)
  then have "byte_sums (15 + 256 * d) (a + 256 * m) = (b AND 15) + 256 * ((m + m div 16) AND d)"
    using masked_field [OF b, of 15 0 "m + m div 16" d] by (simp only: byte_sums_def) simp
  moreover have "b AND 15 = (a + a div 16) AND 15"
  proof -
    have "x AND 15 = x mod 16" for x :: nat
      using take_bit_eq_mask [of 4 x] by (simp add: mask_eq_exp_minus_1 take_bit_eq_mod)
    then show ?thesis by (simp add: b_def)
  qed
  ultimately show ?thesis by (simp add: byte_sums_def drop_bit_eq_div)
qed

text \<open>One byte.\<close>

definition byte_count :: "nat \<Rightarrow> nat" where
  "byte_count a = byte_sums 15 (nibbles 51 (pairs 85 a))"

definition int_pairs :: "int \<Rightarrow> int" where
  "int_pairs v = v - (drop_bit 1 v AND 85)"

definition int_nibbles :: "int \<Rightarrow> int" where
  "int_nibbles v = (v AND 51) + (drop_bit 2 v AND 51)"

definition int_sums :: "int \<Rightarrow> int" where
  "int_sums v = (v + drop_bit 4 v) AND 15"

lemma int_steps:
  "int (pairs 85 a) = int_pairs (int a)"
  "int (nibbles 51 v) = int_nibbles (int v)"
  "int (byte_sums 15 v) = int_sums (int v)"
  using half_and_le [of a 85]
  by (simp_all add: pairs_def nibbles_def byte_sums_def int_pairs_def int_nibbles_def int_sums_def
      of_nat_diff of_nat_and_eq of_nat_drop_bit del: drop_bit_Suc drop_bit_half)

definition byte_ok :: "int \<Rightarrow> bool" where
  "byte_ok a = (let p = int_pairs a; q = int_nibbles p; c = int_sums q in
     p < 256 \<and> q \<le> 68 \<and> q mod 16 \<le> 4 \<and> c \<le> 8 \<and>
     c = of_bool (bit a 0) + of_bool (bit a 1) + of_bool (bit a 2) + of_bool (bit a 3) +
         of_bool (bit a 4) + of_bool (bit a 5) + of_bool (bit a 6) + of_bool (bit a 7))"

lemma bytes_ok: "list_all byte_ok [0..255]"
  by code_simp

lemma sum8: "(\<Sum>i<8. f i) = f 0 + f 1 + f 2 + f 3 + f 4 + f 5 + f 6 + f 7" for f :: "nat \<Rightarrow> nat"
  by (simp add: lessThan_Suc eval_nat_numeral)

definition bit_sum :: "nat \<Rightarrow> nat" where
  "bit_sum a = (\<Sum>i<8. of_bool (bit a i))"

lemma byte_facts:
  assumes "a < 256"
  shows "pairs 85 a < 256" and "nibbles 51 (pairs 85 a) \<le> 68" and "nibbles 51 (pairs 85 a) mod 16 \<le> 4"
    and "byte_count a = bit_sum a" and "byte_count a \<le> 8"
proof -
  have "byte_ok (int a)" using bytes_ok assms by (simp add: list_all_iff)
  then have all: "int (pairs 85 a) < 256" "int (nibbles 51 (pairs 85 a)) \<le> 68"
    "int (nibbles 51 (pairs 85 a)) mod 16 \<le> 4" "int (byte_count a) \<le> 8" "int (byte_count a) = int (bit_sum a)"
    unfolding byte_ok_def Let_def int_steps [symmetric] byte_count_def bit_sum_def sum8
      of_nat_add of_nat_of_bool bit_of_nat_iff_bit by blast+
  have "int (nibbles 51 (pairs 85 a) mod 16) \<le> int 4" using all(3) by (simp add: zmod_int)
  then show "nibbles 51 (pairs 85 a) mod 16 \<le> 4" by (simp only: of_nat_le_iff)
  show "byte_count a = bit_sum a" using all(5) by (simp only: of_nat_eq_iff)
  show "pairs 85 a < 256" "nibbles 51 (pairs 85 a) \<le> 68" "byte_count a \<le> 8"
    using all by linarith+
qed

text \<open>Four bytes.\<close>

definition word_count :: "nat \<Rightarrow> nat" where
  "word_count v = byte_sums 0xF0F0F0F (nibbles 0x33333333 (pairs 0x55555555 v)) * 0x1010101 mod 2 ^ 32 div 2 ^ 24"

lemma byte_steps:
  assumes "a < 256" and "nibbles e (pairs d m) mod 16 \<le> 4"
  shows "byte_sums (15 + 256 * k) (nibbles (51 + 256 * e) (pairs (85 + 256 * d) (a + 256 * m)))
     = byte_count a + 256 * byte_sums k (nibbles e (pairs d m))"
  using byte_facts [OF assms(1)] assms(2)
  by (simp only: pairs_field [OF assms(1)] nibbles_field byte_sums_field byte_count_def)

lemma word_count_bytes:
  assumes "a < 256" "b < 256" "c < 256" "d < 256"
  shows "word_count (a + 256 * (b + 256 * (c + 256 * d))) = bit_sum a + bit_sum b + bit_sum c + bit_sum d"
proof -
  note f = byte_facts
  have low: "(x + 256 * y) mod 16 \<le> 4" if "x mod 16 \<le> 4" for x y :: nat
  proof -
    have "(x + 256 * y) mod 16 = x mod 16" using mod_mult_self2 [of x 16 "16 * y"] by (simp only: mult.assoc [symmetric]) simp
    with that show ?thesis by simp
  qed
  have m: "nibbles (51 + 256 * e) (pairs (85 + 256 * p) (x + 256 * m)) mod 16 \<le> 4" if "x < 256" for x e p m
    using f [OF that] by (simp only: pairs_field [OF that] nibbles_field low)
  have "byte_sums (15 + 256 * (15 + 256 * (15 + 256 * 15)))
      (nibbles (51 + 256 * (51 + 256 * (51 + 256 * 51)))
        (pairs (85 + 256 * (85 + 256 * (85 + 256 * 85))) (a + 256 * (b + 256 * (c + 256 * d)))))
      = bit_sum a + 256 * (bit_sum b + 256 * (bit_sum c + 256 * bit_sum d))"
    using f(3) [OF assms(4)] f(4) [OF assms(1)] f(4) [OF assms(2)] f(4) [OF assms(3)] f(4) [OF assms(4)]
    by (simp only: byte_steps [OF assms(1) m [OF assms(2)]] byte_steps [OF assms(2) m [OF assms(3)]]
        byte_steps [OF assms(3)] byte_count_def)
  moreover have "(A + 256 * (B + 256 * (C + 256 * D))) * 0x1010101 mod 2 ^ 32 div 2 ^ 24 = A + B + C + D"
    if "A \<le> 8" "B \<le> 8" "C \<le> 8" "D \<le> 8" for A B C D :: nat
  proof -
    have "(A + 256 * (B + 256 * (C + 256 * D))) * 0x1010101 =
      (A + 256 * (A + B) + 65536 * (A + B + C)) + 2 ^ 24 * (A + B + C + D) + 2 ^ 32 * (B + C + D + 256 * (C + D) + 65536 * D)"
      by simp
    also have "\<dots> mod 2 ^ 32 = (A + 256 * (A + B) + 65536 * (A + B + C)) + 2 ^ 24 * (A + B + C + D)"
      using that by (simp only: mod_mult_self2) (simp add: mod_less)
    also have "\<dots> div 2 ^ 24 = A + B + C + D" using that by simp
    finally show ?thesis .
  qed
  ultimately show ?thesis using f(4,5) assms by (simp add: word_count_def)
qed


section \<open>The words\<close>

lemma unat_and: "unat (v AND w) = unat v AND unat w" for v w :: "'a::len word"
  by (rule bit_eqI) (auto simp: bit_simps)

lemma unat_dropped: "unat (drop_bit k v) = drop_bit k (unat v)" for v :: "'a::len word"
  by (rule bit_eqI) (auto simp: bit_simps dest: bit_imp_possible_bit)

lemma and_le2: "a AND c \<le> c" for a c :: nat
  using and_le1 [of c a] by (simp add: and.commute)

lemma unat_sum: "unat v + unat w < 2 ^ 32 \<Longrightarrow> unat (v + w) = unat v + unat w" for v w :: "32 word"
  by (simp add: unat_word_ariths)

lemma count_bits_word_count: "unat (my_count_bits_uint32 v0) = word_count (unat v0)"
proof -
  define w1 where "w1 = drop_bit 1 v0 AND 0x55555555"
  define v1 where "v1 = v0 - w1"
  define v2 where "v2 = (v1 AND 0x33333333) + (drop_bit 2 v1 AND 0x33333333)"
  define v3 where "v3 = (v2 + drop_bit 4 v2) AND 0xF0F0F0F"
  have w1: "unat w1 = drop_bit 1 (unat v0) AND 0x55555555"
    unfolding w1_def unat_and unat_dropped by simp
  then have "w1 \<le> v0" by (simp only: word_le_nat_alt half_and_le)
  then have v1: "unat v1 = pairs 0x55555555 (unat v0)"
    unfolding v1_def pairs_def by (simp only: unat_sub w1)
  have parts: "unat (x AND 0x33333333) = unat x AND 0x33333333" for x :: "32 word"
    unfolding unat_and by simp
  have bound: "x AND 0x33333333 \<le> 0x33333333" for x :: nat by (rule and_le2)
  have v2: "unat v2 = nibbles 0x33333333 (unat v1)"
    unfolding v2_def nibbles_def
    using bound [of "unat v1"] bound [of "drop_bit 2 (unat v1)"]
    by (subst unat_sum) (simp_all add: parts unat_dropped)
  then have small: "unat v2 \<le> 0x66666666"
    using bound [of "unat v1"] bound [of "drop_bit 2 (unat v1)"] by (simp add: nibbles_def)
  have "drop_bit 4 (unat v2) \<le> unat v2" by (simp add: drop_bit_eq_div)
  with small have sum: "unat (v2 + drop_bit 4 v2) = unat v2 + drop_bit 4 (unat v2)"
    by (subst unat_sum) (simp_all add: unat_dropped)
  have v3: "unat v3 = byte_sums 0xF0F0F0F (unat v2)"
    unfolding v3_def unat_and sum by (simp add: byte_sums_def)
  have "my_count_bits_uint32 v0 = drop_bit 24 (v3 * 0x1010101)"
    unfolding my_count_bits_uint32_def Let_def v3_def v2_def v1_def w1_def ..
  then have "unat (my_count_bits_uint32 v0) = unat v3 * 0x1010101 mod 2 ^ 32 div 2 ^ 24"
    by (simp add: unat_dropped unat_word_ariths drop_bit_eq_div)
  then show ?thesis by (simp only: v3 v2 v1 word_count_def)
qed

definition bits_set :: "'a::len word \<Rightarrow> nat" where
  "bits_set v = card {i. bit v i}"

lemma bits_set_sum:
  assumes "LENGTH('a) = n"
  shows "bits_set (v :: 'a::len word) = (\<Sum>i<n. of_bool (bit v i))"
proof -
  have "{i. bit v i} = {..<n} \<inter> {i. bit v i}" using assms by (auto dest: bit_imp_le_length)
  then show ?thesis unfolding bits_set_def by (subst (asm) eq_commute) simp
qed

lemma sum_shift8: "(\<Sum>i<8 + n. f i) = (\<Sum>i<8. f i) + (\<Sum>i<n. f (i + 8))" for f :: "nat \<Rightarrow> nat"
proof (induction n)
  case (Suc n)
  have "(\<Sum>i<8 + Suc n. f i) = (\<Sum>i<8 + n. f i) + f (n + 8)" 
    by (simp only: add_Suc_right sum.lessThan_Suc add.commute [of 8 n])
  with Suc show ?case by simp
qed simp

lemma sum_field:
  assumes "a < 256"
  shows "(\<Sum>i<8 + n. of_bool (bit (a + 256 * m) i)) = bit_sum a + (\<Sum>i<n. of_bool (bit m i))"
proof -
  have "(\<Sum>i<8. of_bool (bit (a + 256 * m) i)) = bit_sum a"
    unfolding bit_sum_def by (rule sum.cong) (auto simp: bit_field [OF assms])
  moreover have "(\<Sum>i<n. of_bool (bit (a + 256 * m) (i + 8))) = (\<Sum>i<n. of_bool (bit m i) :: nat)"
    by (rule sum.cong) (auto simp: bit_field [OF assms])
  ultimately show ?thesis by (simp only: sum_shift8)
qed

lemma count_bits_uint32: "unat (my_count_bits_uint32 v) = bits_set v"
proof -
  define n where "n = unat v"
  define a b c d where abcd: "a = n mod 256" "b = n div 256 mod 256"
    "c = n div 256 div 256 mod 256" "d = n div 256 div 256 div 256"
  have "n < 2 ^ 32" using unsigned_less [of v, where ?'a = nat] by (simp add: n_def)
  then have d: "d < 256" unfolding abcd by (intro less_mult_imp_div_less) simp
  have n: "n = a + 256 * (b + 256 * (c + 256 * d))" unfolding abcd by (simp only: mod_mult_div_eq)
  have lt: "a < 256" "b < 256" "c < 256" by (simp_all add: abcd)
  note field = sum_field [OF lt(1)] sum_field [OF lt(2)] sum_field [OF lt(3)]
  have "bits_set v = (\<Sum>i<8 + (8 + (8 + 8)). of_bool (bit n i))"
    by (subst bits_set_sum [of 32]) (simp_all add: n_def bit_unsigned_iff)
  also have "\<dots> = bit_sum a + (bit_sum b + (bit_sum c + bit_sum d))"
    unfolding n by (simp only: field bit_sum_def [of d])
  also have "\<dots> = word_count n"
    using word_count_bytes [OF lt d] by (simp only: n [symmetric] add.assoc)
  finally show ?thesis by (simp only: count_bits_word_count n_def)
qed


lemma count_bits_card: "unat (my_count_bits x) = card {i. bit x i}"
proof -
  define lo hi where "lo = (ucast x :: 32 word)" and "hi = (ucast (drop_bit 32 x) :: 32 word)"
  have le: "bits_set v \<le> 32" for v :: "32 word"
  proof -
    have "{i. bit v i} \<subseteq> {..<32}" by (auto dest: bit_imp_le_length)
    from card_mono [OF _ this] show ?thesis by (simp add: bits_set_def)
  qed
  have count: "unat (my_count_bits x) = bits_set lo + bits_set hi"
    unfolding my_count_bits_def lo_def [symmetric] hi_def [symmetric]
    using le [of lo] le [of hi] by (subst unat_sum) (simp_all add: count_bits_uint32)
  have "{i. bit x i} = {i. bit lo i} \<union> (\<lambda>i. i + 32) ` {i. bit hi i}"
  proof (rule set_eqI)
    fix i
    show "i \<in> {i. bit x i} \<longleftrightarrow> i \<in> {i. bit lo i} \<union> (\<lambda>i. i + 32) ` {i. bit hi i}"
    proof (cases "i < 32")
      case False
      then have "i = (i - 32) + 32" by simp
      moreover have "bit x i \<Longrightarrow> i < 64" using bit_imp_le_length [of x i] by simp
      ultimately show ?thesis
        using False by (auto simp: lo_def hi_def bit_simps add.commute intro!: image_eqI [of _ _ "i - 32"])
    qed (auto simp: lo_def bit_simps)
  qed
  then have "card {i. bit x i} = card ({i. bit lo i} \<union> (\<lambda>i. i + 32) ` {i. bit hi i})" by simp
  also have "\<dots> = bits_set lo + bits_set hi"
  proof -
    have sub: "{i. bit v i} \<subseteq> {..<32}" for v :: "32 word" by (auto dest: bit_imp_le_length)
    then have fin: "finite {i. bit v i}" for v :: "32 word" by (rule finite_subset) simp
    have "{i. bit lo i} \<inter> (\<lambda>i. i + 32) ` {i. bit hi i} = {}" using sub [of lo] by auto
    then have "card ({i. bit lo i} \<union> (\<lambda>i. i + 32) ` {i. bit hi i}) =
        card {i. bit lo i} + card ((\<lambda>i. i + 32) ` {i. bit hi i})"
      by (intro card_Un_disjoint finite_imageI fin)
    then show ?thesis by (simp add: bits_set_def card_image inj_on_def)
  qed
  finally show ?thesis unfolding count ..
qed

text \<open>\<open>my_count_bits\<close> counts the bits that are set in a 64-bit value.\<close>

theorem count_bits_correct: "unat (my_count_bits x) = card {i. bit x i}"
  by (rule count_bits_card)

end
