(* ===== verification/Lifo_Buffer.thy ===== *)
theory Lifo_Buffer
  imports "HOL-Library.Word"
begin

text \<open>
  The LIFO buffers of the MariaDB server (\<open>private/sql_lifo_buffer.h\<close>): the base class, the two
  concrete buffers and the iterator. Pointers are integer addresses into a memory that the
  buffer shares with its user, NULL is 0. A \<open>DBUG_ASSERT\<close> that fails is the value None.
\<close>

type_synonym byte = "8 word"
type_synonym addr = int
type_synonym memory = "addr \<Rightarrow> byte"

section \<open>Memory\<close>

definition memcpy :: "addr \<Rightarrow> addr \<Rightarrow> nat \<Rightarrow> memory \<Rightarrow> memory" where
  "memcpy dst src n mem = (\<lambda>a. if dst \<le> a \<and> a < dst + int n then mem (src + (a - dst)) else mem a)"

definition memset :: "addr \<Rightarrow> byte \<Rightarrow> int \<Rightarrow> memory \<Rightarrow> memory" where
  "memset p c n mem = (\<lambda>a. if p \<le> a \<and> a < p + n then c else mem a)"

text \<open>\<open>TRASH_ALLOC\<close> fills the memory when the build has \<open>TRASH_FREED_MEMORY\<close>.\<close>

definition TRASH_ALLOC :: "bool \<Rightarrow> addr \<Rightarrow> int \<Rightarrow> memory \<Rightarrow> memory" where
  "TRASH_ALLOC trash p n mem = (if trash then memset p 0xA5 n mem else mem)"

section \<open>The base class\<close>

datatype enum_direction = BACKWARD | FORWARD

record Lifo_buffer =
  size1 :: nat
  size2 :: nat
  write_ptr1 :: addr
  write_ptr2 :: addr
  read_ptr1 :: addr
  read_ptr2 :: addr
  start :: addr
  buf_end :: addr
  pos :: addr

definition setup_writing :: "nat \<Rightarrow> nat \<Rightarrow> Lifo_buffer \<Rightarrow> Lifo_buffer" where
  "setup_writing len1 len2 b = b\<lparr>size1 := len1, size2 := len2\<rparr>"

definition setup_reading :: "nat \<Rightarrow> nat \<Rightarrow> Lifo_buffer \<Rightarrow> Lifo_buffer option" where
  "setup_reading len1 len2 b = (if len1 = size1 b \<and> len2 = size2 b then Some b else None)"

section \<open>The forward buffer\<close>

definition Forward_used_size :: "Lifo_buffer \<Rightarrow> int" where
  "Forward_used_size b = pos b - start b"

definition Forward_reset :: "Lifo_buffer \<Rightarrow> Lifo_buffer" where
  "Forward_reset b = b\<lparr>pos := start b\<rparr>"

definition Forward_end_of_space :: "Lifo_buffer \<Rightarrow> addr" where
  "Forward_end_of_space b = pos b"

definition Forward_have_space_for :: "Lifo_buffer \<Rightarrow> nat \<Rightarrow> bool" where
  "Forward_have_space_for b bytes \<longleftrightarrow> pos b + int bytes < buf_end b"

definition Forward_write_bytes :: "addr \<Rightarrow> nat \<Rightarrow> Lifo_buffer \<times> memory \<Rightarrow> (Lifo_buffer \<times> memory) option" where
  "Forward_write_bytes data bytes = (\<lambda>(b, mem).
     if \<not> Forward_have_space_for b bytes then None
     else Some (b\<lparr>pos := pos b + int bytes\<rparr>, memcpy (pos b) data bytes mem))"

definition Forward_write :: "Lifo_buffer \<times> memory \<Rightarrow> (Lifo_buffer \<times> memory) option" where
  "Forward_write s =
     (case Forward_write_bytes (write_ptr1 (fst s)) (size1 (fst s)) s of
        None \<Rightarrow> None
      | Some s \<Rightarrow> if size2 (fst s) \<noteq> 0
                 then Forward_write_bytes (write_ptr2 (fst s)) (size2 (fst s)) s
                 else Some s)"

definition Forward_have_data :: "Lifo_buffer \<Rightarrow> addr \<Rightarrow> nat \<Rightarrow> bool" where
  "Forward_have_data b position bytes \<longleftrightarrow> position - start b \<ge> int bytes"

definition Forward_read_bytes :: "Lifo_buffer \<Rightarrow> addr \<Rightarrow> nat \<Rightarrow> addr option" where
  "Forward_read_bytes b position bytes =
     (if \<not> Forward_have_data b position bytes then None else Some (position - int bytes))"

text \<open>\<open>read(position, ptr1, ptr2)\<close>: TRUE (nothing to read), or FALSE with the new values of
  \<open>*position\<close>, \<open>*ptr1\<close> and \<open>*ptr2\<close>.\<close>

definition Forward_read_at ::
  "Lifo_buffer \<Rightarrow> addr \<Rightarrow> addr \<Rightarrow> addr \<Rightarrow> (bool \<times> addr \<times> addr \<times> addr) option" where
  "Forward_read_at b position ptr1 ptr2 =
     (if \<not> Forward_have_data b position (size1 b + size2 b) then Some (True, position, ptr1, ptr2)
      else
        (case (if size2 b \<noteq> 0
               then map_option (\<lambda>p. (p, p)) (Forward_read_bytes b position (size2 b))
               else Some (position, ptr2)) of
           None \<Rightarrow> None
         | Some (position, ptr2) \<Rightarrow>
             (case Forward_read_bytes b position (size1 b) of
                None \<Rightarrow> None
              | Some p \<Rightarrow> Some (False, p, p, ptr2))))"

definition Forward_grow ::
  "bool \<Rightarrow> addr \<Rightarrow> addr \<Rightarrow> Lifo_buffer \<times> memory \<Rightarrow> (Lifo_buffer \<times> memory) option" where
  "Forward_grow trash unused_start unused_end = (\<lambda>(b, mem).
     if \<not> unused_end \<ge> unused_start \<or> buf_end b \<noteq> unused_start then None
     else Some (b\<lparr>buf_end := unused_end\<rparr>, TRASH_ALLOC trash unused_start (unused_end - unused_start) mem))"

definition Forward_used_area :: "Lifo_buffer \<Rightarrow> addr" where
  "Forward_used_area b = start b"

section \<open>The backward buffer\<close>

definition Backward_used_size :: "Lifo_buffer \<Rightarrow> int" where
  "Backward_used_size b = buf_end b - pos b"

definition Backward_reset :: "Lifo_buffer \<Rightarrow> Lifo_buffer" where
  "Backward_reset b = b\<lparr>pos := buf_end b\<rparr>"

definition Backward_end_of_space :: "Lifo_buffer \<Rightarrow> addr" where
  "Backward_end_of_space b = buf_end b"

definition Backward_have_space_for :: "Lifo_buffer \<Rightarrow> nat \<Rightarrow> bool" where
  "Backward_have_space_for b bytes \<longleftrightarrow> pos b - int bytes \<ge> start b"

definition Backward_write_bytes :: "addr \<Rightarrow> nat \<Rightarrow> Lifo_buffer \<times> memory \<Rightarrow> (Lifo_buffer \<times> memory) option" where
  "Backward_write_bytes data bytes = (\<lambda>(b, mem).
     if \<not> Backward_have_space_for b bytes then None
     else Some (b\<lparr>pos := pos b - int bytes\<rparr>, memcpy (pos b - int bytes) data bytes mem))"

definition Backward_write :: "Lifo_buffer \<times> memory \<Rightarrow> (Lifo_buffer \<times> memory) option" where
  "Backward_write s =
     (case (if write_ptr2 (fst s) \<noteq> 0
            then Backward_write_bytes (write_ptr2 (fst s)) (size2 (fst s)) s
            else Some s) of
        None \<Rightarrow> None
      | Some s \<Rightarrow> Backward_write_bytes (write_ptr1 (fst s)) (size1 (fst s)) s)"

definition Backward_have_data :: "Lifo_buffer \<Rightarrow> addr \<Rightarrow> nat \<Rightarrow> bool" where
  "Backward_have_data b position bytes \<longleftrightarrow> buf_end b - position \<ge> int bytes"

definition Backward_read_bytes :: "Lifo_buffer \<Rightarrow> addr \<Rightarrow> nat \<Rightarrow> (addr \<times> addr) option" where
  "Backward_read_bytes b position bytes =
     (if \<not> Backward_have_data b position bytes then None else Some (position, position + int bytes))"

definition Backward_read_at ::
  "Lifo_buffer \<Rightarrow> addr \<Rightarrow> addr \<Rightarrow> addr \<Rightarrow> (bool \<times> addr \<times> addr \<times> addr) option" where
  "Backward_read_at b position ptr1 ptr2 =
     (if \<not> Backward_have_data b position (size1 b + size2 b) then Some (True, position, ptr1, ptr2)
      else
        (case Backward_read_bytes b position (size1 b) of
           None \<Rightarrow> None
         | Some (ptr1, position) \<Rightarrow>
             if size2 b \<noteq> 0 then
               (case Backward_read_bytes b position (size2 b) of
                  None \<Rightarrow> None
                | Some (ptr2, position) \<Rightarrow> Some (False, position, ptr1, ptr2))
             else Some (False, position, ptr1, ptr2)))"

text \<open>\<open>remove_unused_space\<close>: the buffer, \<open>*unused_start\<close> and \<open>*unused_end\<close>.\<close>

definition Backward_remove_unused_space :: "Lifo_buffer \<Rightarrow> Lifo_buffer \<times> addr \<times> addr" where
  "Backward_remove_unused_space b = (b\<lparr>start := pos b\<rparr>, start b, pos b)"

definition Backward_used_area :: "Lifo_buffer \<Rightarrow> addr" where
  "Backward_used_area b = pos b"

section \<open>Operations of the base class\<close>

text \<open>The virtual functions are chosen by the direction of the buffer.\<close>

definition Lifo_used_size :: "enum_direction \<Rightarrow> Lifo_buffer \<Rightarrow> int" where
  "Lifo_used_size d b = (case d of FORWARD \<Rightarrow> Forward_used_size b | BACKWARD \<Rightarrow> Backward_used_size b)"

definition Lifo_reset :: "enum_direction \<Rightarrow> Lifo_buffer \<Rightarrow> Lifo_buffer" where
  "Lifo_reset d b = (case d of FORWARD \<Rightarrow> Forward_reset b | BACKWARD \<Rightarrow> Backward_reset b)"

definition Lifo_have_space_for :: "enum_direction \<Rightarrow> Lifo_buffer \<Rightarrow> nat \<Rightarrow> bool" where
  "Lifo_have_space_for d b n = (case d of FORWARD \<Rightarrow> Forward_have_space_for b n
                           | BACKWARD \<Rightarrow> Backward_have_space_for b n)"

definition Lifo_write :: "enum_direction \<Rightarrow> Lifo_buffer \<times> memory \<Rightarrow> (Lifo_buffer \<times> memory) option" where
  "Lifo_write d = (case d of FORWARD \<Rightarrow> Forward_write | BACKWARD \<Rightarrow> Backward_write)"

definition Lifo_read_at ::
  "enum_direction \<Rightarrow> Lifo_buffer \<Rightarrow> addr \<Rightarrow> addr \<Rightarrow> addr \<Rightarrow> (bool \<times> addr \<times> addr \<times> addr) option" where
  "Lifo_read_at d = (case d of FORWARD \<Rightarrow> Forward_read_at | BACKWARD \<Rightarrow> Backward_read_at)"

definition Lifo_used_area :: "enum_direction \<Rightarrow> Lifo_buffer \<Rightarrow> addr" where
  "Lifo_used_area d b = (case d of FORWARD \<Rightarrow> Forward_used_area b | BACKWARD \<Rightarrow> Backward_used_area b)"

definition Lifo_set_buffer_space ::
  "enum_direction \<Rightarrow> bool \<Rightarrow> addr \<Rightarrow> addr \<Rightarrow> Lifo_buffer \<times> memory \<Rightarrow> Lifo_buffer \<times> memory" where
  "Lifo_set_buffer_space d trash start_arg end_arg = (\<lambda>(b, mem).
     (Lifo_reset d (b\<lparr>start := start_arg, buf_end := end_arg\<rparr>),
      if end_arg \<noteq> start_arg then TRASH_ALLOC trash start_arg (end_arg - start_arg) mem else mem))"

definition Lifo_can_write :: "enum_direction \<Rightarrow> Lifo_buffer \<Rightarrow> bool" where
  "Lifo_can_write d b = Lifo_have_space_for d b (size1 b + size2 b)"

definition Lifo_is_empty :: "enum_direction \<Rightarrow> Lifo_buffer \<Rightarrow> bool" where
  "Lifo_is_empty d b \<longleftrightarrow> Lifo_used_size d b = 0"

definition Lifo_read :: "enum_direction \<Rightarrow> Lifo_buffer \<Rightarrow> (bool \<times> Lifo_buffer) option" where
  "Lifo_read d b = map_option (\<lambda>(eof, p, p1, p2). (eof, b\<lparr>pos := p, read_ptr1 := p1, read_ptr2 := p2\<rparr>))
     (Lifo_read_at d b (pos b) (read_ptr1 b) (read_ptr2 b))"

text \<open>\<open>my_qsort2\<close> is not in the header: a parameter, given the area, the number of elements and
  their size.\<close>

definition Lifo_sort :: "(addr \<Rightarrow> nat \<Rightarrow> nat \<Rightarrow> memory \<Rightarrow> memory) \<Rightarrow> enum_direction \<Rightarrow>
  Lifo_buffer \<times> memory \<Rightarrow> Lifo_buffer \<times> memory" where
  "Lifo_sort my_qsort2 d = (\<lambda>(b, mem).
     (let elem_size = size1 b + size2 b;
          n_elements = nat (Lifo_used_size d b) div elem_size
      in (b, my_qsort2 (Lifo_used_area d b) n_elements elem_size mem)))"

section \<open>The iterator\<close>

text \<open>The buffer \<open>buf\<close> points to is the argument \<open>b\<close>.\<close>

record Lifo_buffer_iterator =
  it_pos :: addr
  it_read_ptr1 :: addr
  it_read_ptr2 :: addr

definition iterator_init :: "Lifo_buffer \<Rightarrow> Lifo_buffer_iterator \<Rightarrow> Lifo_buffer_iterator" where
  "iterator_init b it = it\<lparr>it_pos := pos b\<rparr>"

definition iterator_read ::
  "enum_direction \<Rightarrow> Lifo_buffer \<Rightarrow> Lifo_buffer_iterator \<Rightarrow> (bool \<times> Lifo_buffer_iterator) option" where
  "iterator_read d b it =
     map_option (\<lambda>(eof, p, p1, p2). (eof, it\<lparr>it_pos := p, it_read_ptr1 := p1, it_read_ptr2 := p2\<rparr>))
       (Lifo_read_at d b (it_pos it) (it_read_ptr1 it) (it_read_ptr2 it))"

section \<open>Contents\<close>

definition bytes_at :: "memory \<Rightarrow> addr \<Rightarrow> nat \<Rightarrow> byte list" where
  "bytes_at mem p n = map (\<lambda>i. mem (p + int i)) [0..<n]"

definition elem_size :: "Lifo_buffer \<Rightarrow> nat" where
  "elem_size b = size1 b + size2 b"

text \<open>An element: \<open>size1\<close> bytes and the \<open>size2\<close> bytes behind them, in both buffers.\<close>

definition elem_at :: "Lifo_buffer \<Rightarrow> memory \<Rightarrow> addr \<Rightarrow> byte list \<times> byte list" where
  "elem_at b mem p = (bytes_at mem p (size1 b), bytes_at mem (p + int (size1 b)) (size2 b))"

text \<open>The place of the element \<open>k\<close> steps from the one read next, and the place of the next
  write (step -1).\<close>

definition slot :: "enum_direction \<Rightarrow> Lifo_buffer \<Rightarrow> int \<Rightarrow> addr" where
  "slot d b k = (case d of FORWARD \<Rightarrow> pos b - (k + 1) * int (elem_size b)
                 | BACKWARD \<Rightarrow> pos b + k * int (elem_size b))"

definition stored :: "enum_direction \<Rightarrow> Lifo_buffer \<Rightarrow> nat" where
  "stored d b = nat (Lifo_used_size d b) div elem_size b"

definition contents :: "enum_direction \<Rightarrow> Lifo_buffer \<times> memory \<Rightarrow> (byte list \<times> byte list) list" where
  "contents d = (\<lambda>(b, mem). map (\<lambda>k. elem_at b mem (slot d b (int k))) [0..<stored d b])"

definition buffer_ok :: "enum_direction \<Rightarrow> Lifo_buffer \<Rightarrow> bool" where
  "buffer_ok d b \<longleftrightarrow> 0 < elem_size b \<and> start b \<le> pos b \<and> pos b \<le> buf_end b \<and>
     (d = FORWARD \<longrightarrow> pos b < buf_end b \<or> pos b = start b) \<and>
     Lifo_used_size d b = int (stored d b * elem_size b)"

text \<open>How many elements fit: the forward buffer never uses its last byte.\<close>

definition capacity :: "enum_direction \<Rightarrow> Lifo_buffer \<Rightarrow> nat" where
  "capacity d b = nat (buf_end b - start b - (case d of FORWARD \<Rightarrow> 1 | BACKWARD \<Rightarrow> 0)) div elem_size b"

definition moved :: "enum_direction \<Rightarrow> int \<Rightarrow> Lifo_buffer \<Rightarrow> Lifo_buffer" where
  "moved d n b = b\<lparr>pos := (case d of FORWARD \<Rightarrow> pos b + n | BACKWARD \<Rightarrow> pos b - n)\<rparr>"

lemmas virtual_defs = Lifo_used_size_def Lifo_have_space_for_def Lifo_write_def Lifo_read_at_def
  Lifo_used_area_def Lifo_can_write_def Lifo_is_empty_def Lifo_reset_def

lemmas forward_defs = Forward_used_size_def Forward_have_space_for_def Forward_write_bytes_def
  Forward_write_def Forward_have_data_def Forward_read_bytes_def Forward_read_at_def

lemmas backward_defs = Backward_used_size_def Backward_have_space_for_def Backward_write_bytes_def
  Backward_write_def Backward_have_data_def Backward_read_bytes_def Backward_read_at_def

lemma can_write_iff:
  assumes "buffer_ok d b"
  shows "Lifo_can_write d b \<longleftrightarrow> stored d b < capacity d b"
proof -
  define e where "e = elem_size b"
  define n where "n = stored d b"
  have e: "0 < e" using assms by (simp add: buffer_ok_def e_def)
  have le: "int (n * e) + int e \<le> z \<longleftrightarrow> n < nat z div e" for z :: int
  proof -
    have "n < nat z div e \<longleftrightarrow> Suc n * e \<le> nat z"
      using e by (simp add: Suc_le_eq [symmetric] less_eq_div_iff_mult_less_eq)
    also have "\<dots> \<longleftrightarrow> int (Suc n * e) \<le> z"
    proof (cases "0 \<le> z")
      case False
      then have "z < int (Suc n * e)" by (meson less_le_trans not_le of_nat_0_le_iff)
      with False e show ?thesis by simp
    qed (simp only: le_nat_iff)
    finally show ?thesis by (simp add: add.commute)
  qed
  have u: "Lifo_used_size d b = int (n * e)" using assms by (simp add: buffer_ok_def e_def n_def)
  show ?thesis
    using u le [of "buf_end b - start b - 1"] le [of "buf_end b - start b"]
    by (cases d) (simp_all add: virtual_defs Forward_used_size_def Forward_have_space_for_def
        Backward_used_size_def Backward_have_space_for_def capacity_def n_def e_def elem_size_def; linarith)+
qed

text \<open>What a write does, when the data are outside the buffer's space.\<close>

definition outside :: "Lifo_buffer \<Rightarrow> addr \<Rightarrow> nat \<Rightarrow> bool" where
  "outside b p n \<longleftrightarrow> p + int n \<le> start b \<or> buf_end b \<le> p"

definition sources_ok :: "Lifo_buffer \<Rightarrow> bool" where
  "sources_ok b \<longleftrightarrow> outside b (write_ptr1 b) (size1 b) \<and>
     (size2 b \<noteq> 0 \<longrightarrow> outside b (write_ptr2 b) (size2 b) \<and> write_ptr2 b \<noteq> 0)"

definition put_elem :: "Lifo_buffer \<Rightarrow> addr \<Rightarrow> memory \<Rightarrow> memory" where
  "put_elem b p mem = (\<lambda>a.
     if p \<le> a \<and> a < p + int (size1 b) then mem (write_ptr1 b + (a - p))
     else if p + int (size1 b) \<le> a \<and> a < p + int (elem_size b)
     then mem (write_ptr2 b + (a - (p + int (size1 b)))) else mem a)"

lemma write_effect:
  assumes ok: "buffer_ok d b" and src: "sources_ok b" and can: "Lifo_can_write d b"
  shows "Lifo_write d (b, mem) =
    Some (moved d (int (elem_size b)) b, put_elem b (slot d b (-1)) mem)"
proof (cases d)
  case FORWARD
  have room: "start b \<le> pos b" "pos b + int (size1 b + size2 b) < buf_end b"
    using ok can by (simp_all add: FORWARD buffer_ok_def virtual_defs Forward_have_space_for_def)
  have "memcpy (pos b + int (size1 b)) (write_ptr2 b) (size2 b) (memcpy (pos b) (write_ptr1 b) (size1 b) mem)
    = put_elem b (pos b) mem"
    using room src by (fastforce simp: memcpy_def put_elem_def fun_eq_iff elem_size_def sources_ok_def outside_def)
  moreover have "memcpy (pos b) (write_ptr1 b) (size1 b) mem = put_elem b (pos b) mem" if "size2 b = 0"
    using that by (auto simp: memcpy_def put_elem_def fun_eq_iff elem_size_def)
  ultimately show ?thesis
    using room by (auto simp: FORWARD Lifo_write_def forward_defs moved_def slot_def elem_size_def)
next
  case BACKWARD
  have room: "pos b \<le> buf_end b" "start b \<le> pos b - int (size1 b + size2 b)"
    using ok can by (simp_all add: BACKWARD buffer_ok_def virtual_defs Backward_have_space_for_def)
  let ?p = "pos b - int (size2 b) - int (size1 b)"
  have two: "memcpy ?p (write_ptr1 b) (size1 b) (memcpy (pos b - int (size2 b)) (write_ptr2 b) (size2 b) mem)
    = put_elem b ?p mem"
    using room src by (fastforce simp: memcpy_def put_elem_def fun_eq_iff elem_size_def sources_ok_def outside_def)
  have one: "memcpy ?p (write_ptr1 b) (size1 b) mem = put_elem b ?p mem" if "size2 b = 0"
    using that by (auto simp: memcpy_def put_elem_def fun_eq_iff elem_size_def)
  have p: "slot d b (-1) = ?p" by (simp add: BACKWARD slot_def elem_size_def)
  show ?thesis
    using room src one two unfolding p
    by (auto simp: BACKWARD Lifo_write_def backward_defs moved_def elem_size_def sources_ok_def)
qed

text \<open>The buffer after a write and after a read.\<close>

lemma stored_moved:
  assumes ok: "buffer_ok d b" and n: "int (stored d b) + k = int n"
    and room: "start b \<le> pos (moved d (k * int (elem_size b)) b)"
      "pos (moved d (k * int (elem_size b)) b) \<le> buf_end b"
      "d = FORWARD \<longrightarrow> pos (moved d (k * int (elem_size b)) b) < buf_end b \<or> n = 0"
  shows "stored d (moved d (k * int (elem_size b)) b) = n"
    and "buffer_ok d (moved d (k * int (elem_size b)) b)"
proof -
  let ?b = "moved d (k * int (elem_size b)) b"
  have e: "elem_size ?b = elem_size b" by (simp add: moved_def elem_size_def)
  have pos: "0 < elem_size b" using ok by (simp add: buffer_ok_def)
  have "Lifo_used_size d ?b = Lifo_used_size d b + k * int (elem_size b)"
    by (cases d) (simp_all add: moved_def virtual_defs Forward_used_size_def Backward_used_size_def)
  also have "\<dots> = (int (stored d b) + k) * int (elem_size b)"
    using ok by (simp add: buffer_ok_def distrib_right)
  finally have u: "Lifo_used_size d ?b = int (n * elem_size b)" using n by simp
  then show st: "stored d ?b = n" using pos by (simp only: stored_def e nat_int) simp
  have "pos ?b = start b" if "d = FORWARD" "n = 0"
    using u that by (simp add: virtual_defs Forward_used_size_def moved_def)
  then show "buffer_ok d ?b"
    using room u pos unfolding buffer_ok_def e st by (auto simp: moved_def)
qed

lemma slot_moved:
  "slot d (moved d (j * int (elem_size b)) b) k = slot d b (k - j)"
  by (cases d) (simp_all add: slot_def moved_def elem_size_def algebra_simps)

lemma elem_moved: "elem_at (moved d n b) mem p = elem_at b mem p" "elem_size (moved d n b) = elem_size b"
  by (simp_all add: elem_at_def moved_def elem_size_def)

lemma bytes_at_cong: "(\<And>a. p \<le> a \<Longrightarrow> a < p + int n \<Longrightarrow> mem a = mem' a) \<Longrightarrow> bytes_at mem p n = bytes_at mem' p n"
  by (simp add: bytes_at_def)

lemma elem_at_cong:
  "(\<And>a. p \<le> a \<Longrightarrow> a < p + int (elem_size b) \<Longrightarrow> mem a = mem' a) \<Longrightarrow> elem_at b mem p = elem_at b mem' p"
  by (auto simp: elem_at_def elem_size_def intro!: bytes_at_cong)

lemma elem_at_put:
  "elem_at b (put_elem b p mem) p = (bytes_at mem (write_ptr1 b) (size1 b), bytes_at mem (write_ptr2 b) (size2 b))"
  by (simp add: elem_at_def bytes_at_def put_elem_def elem_size_def)

text \<open>The elements lie in the used part, one behind the other, the next write in the free part.\<close>

lemma slot_bounds:
  assumes "buffer_ok d b" and "k < stored d b"
  shows "start b \<le> slot d b (int k)" and "slot d b (int k) + int (elem_size b) \<le> buf_end b"
    and "d = FORWARD \<Longrightarrow> slot d b (int k) + int (elem_size b) \<le> pos b"
    and "d = BACKWARD \<Longrightarrow> pos b \<le> slot d b (int k)"
proof -
  have "(int k + 1) * int (elem_size b) \<le> int (stored d b) * int (elem_size b)"
    using assms(2) by (intro mult_right_mono) auto
  moreover have "0 \<le> int k * int (elem_size b)" by simp
  ultimately show "start b \<le> slot d b (int k)" "slot d b (int k) + int (elem_size b) \<le> buf_end b"
    "d = FORWARD \<Longrightarrow> slot d b (int k) + int (elem_size b) \<le> pos b"
    "d = BACKWARD \<Longrightarrow> pos b \<le> slot d b (int k)"
    using assms(1)
    by (cases d; simp add: buffer_ok_def slot_def virtual_defs Forward_used_size_def
        Backward_used_size_def distrib_right; linarith)+
qed

lemma contents_of:
  assumes "buffer_ok d b"
    and "\<And>a. (if d = FORWARD then start b \<le> a \<and> a < pos b else pos b \<le> a \<and> a < buf_end b) \<Longrightarrow> mem a = mem' a"
  shows "contents d (b, mem) = contents d (b, mem')"
proof -
  have "elem_at b mem (slot d b (int k)) = elem_at b mem' (slot d b (int k))" if "k < stored d b" for k
  proof (rule elem_at_cong)
    fix a assume "slot d b (int k) \<le> a" "a < slot d b (int k) + int (elem_size b)"
    then show "mem a = mem' a"
      using slot_bounds [OF assms(1) that] by (intro assms(2)) (cases d; simp)
  qed
  then show ?thesis by (simp add: contents_def)
qed

lemma write_pushes:
  assumes ok: "buffer_ok d b" and src: "sources_ok b" and can: "Lifo_can_write d b"
  obtains b' mem' where "Lifo_write d (b, mem) = Some (b', mem')"
    and "contents d (b', mem') =
      (bytes_at mem (write_ptr1 b) (size1 b), bytes_at mem (write_ptr2 b) (size2 b)) # contents d (b, mem)"
    and "buffer_ok d b'" and "b' = moved d (int (elem_size b)) b"
    and "mem' = put_elem b (slot d b (-1)) mem"
proof
  let ?b = "moved d (1 * int (elem_size b)) b" and ?m = "put_elem b (slot d b (-1)) mem"
  show "Lifo_write d (b, mem) = Some (moved d (int (elem_size b)) b, ?m)" by (rule write_effect [OF ok src can])
  have "start b \<le> pos ?b" "pos ?b \<le> buf_end b"
    "d = FORWARD \<longrightarrow> pos ?b < buf_end b \<or> Suc (stored d b) = 0"
    using ok can by (cases d; simp add: moved_def buffer_ok_def virtual_defs elem_size_def
        Forward_have_space_for_def Backward_have_space_for_def)+
  note st = stored_moved [OF ok _ this] 
  have n: "stored d ?b = Suc (stored d b)" and ok': "buffer_ok d ?b" using st by simp_all
  then show "buffer_ok d (moved d (int (elem_size b)) b)" by simp
  have old: "elem_at b ?m (slot d b (int k)) = elem_at b mem (slot d b (int k))" if "k < stored d b" for k
  proof (rule elem_at_cong)
    fix a assume a: "slot d b (int k) \<le> a" "a < slot d b (int k) + int (elem_size b)"
    have "slot d b (int k) + int (elem_size b) \<le> slot d b (- 1) \<or>
        slot d b (- 1) + int (elem_size b) \<le> slot d b (int k)"
      using slot_bounds(3,4) [OF ok that] by (cases d) (simp_all add: slot_def)
    with a show "?m a = mem a" by (auto simp: put_elem_def elem_size_def)
  qed
  have "contents d (?b, ?m) = map (\<lambda>k. elem_at b ?m (slot d b (int k - 1))) [0..<Suc (stored d b)]"
    by (simp only: contents_def prod.case n elem_moved slot_moved)
  also have "\<dots> = elem_at b ?m (slot d b (- 1)) # map (\<lambda>k. elem_at b ?m (slot d b (int k))) [0..<stored d b]"
    by (simp only: upt_conv_Cons map_Suc_upt [symmetric] list.map map_map comp_def) simp
  also have "\<dots> = elem_at b ?m (slot d b (- 1)) # contents d (b, mem)"
    using old by (simp add: contents_def)
  finally show "contents d (moved d (int (elem_size b)) b, ?m) =
      (bytes_at mem (write_ptr1 b) (size1 b), bytes_at mem (write_ptr2 b) (size2 b)) # contents d (b, mem)"
    by (simp add: elem_at_put)
qed auto

lemma read_at_effect:
  assumes "buffer_ok d b"
  shows "Lifo_read_at d b (pos b) p1 p2 =
    Some (if stored d b = 0 then (True, pos b, p1, p2)
          else (False, pos (moved d (- int (elem_size b)) b), slot d b 0,
                if size2 b \<noteq> 0 then slot d b 0 + int (size1 b) else p2))"
proof -
  define u where "u = Lifo_used_size d b"
  have e: "0 < size1 b + size2 b" "u = int (stored d b * elem_size b)"
    using assms by (simp_all add: buffer_ok_def u_def elem_size_def)
  have "stored d b = 0 \<and> u = 0 \<or> stored d b \<noteq> 0 \<and> int (size1 b) + int (size2 b) \<le> u"
  proof (cases "stored d b")
    case (Suc n)
    then have "u = int n * int (elem_size b) + int (elem_size b)"
      using e by (simp add: distrib_right add.commute)
    moreover have "0 \<le> int n * int (elem_size b)" by simp
    ultimately show ?thesis using Suc by (simp add: elem_size_def)
  qed (use e in simp)
  then show ?thesis
    using e(1) u_def
    by (cases d; elim disjE conjE)
      (auto simp: virtual_defs forward_defs backward_defs elem_size_def slot_def moved_def)
qed

lemma read_ptrs_irrelevant:
  fixes b p q
  defines "b' \<equiv> b\<lparr>read_ptr1 := p, read_ptr2 := q\<rparr>"
  shows "stored d b' = stored d b" "buffer_ok d b' = buffer_ok d b" "elem_at b' mem a = elem_at b mem a"
    "slot d b' k = slot d b k" "contents d (b', mem) = contents d (b, mem)"
proof -
  show st: "stored d b' = stored d b" "elem_at b' mem a = elem_at b mem a" "slot d b' k = slot d b k" for a k
    by (cases d; simp add: b'_def stored_def virtual_defs Forward_used_size_def Backward_used_size_def
        elem_size_def elem_at_def slot_def)+
  show "buffer_ok d b' = buffer_ok d b"
    unfolding buffer_ok_def st
    by (cases d; simp add: b'_def virtual_defs Forward_used_size_def Backward_used_size_def elem_size_def)
  show "contents d (b', mem) = contents d (b, mem)" by (simp add: contents_def st)
qed

lemma pops:
  assumes ok: "buffer_ok d b" and n: "stored d b = Suc n"
  shows "buffer_ok d (moved d (- int (elem_size b)) b)"
    and "contents d (b, mem) = elem_at b mem (slot d b 0) # contents d (moved d (- int (elem_size b)) b, mem)"
proof -
  let ?m = "moved d (- 1 * int (elem_size b)) b"
  define w e where "w = int (n * elem_size b)" and "e = int (elem_size b)"
  have u: "Lifo_used_size d b = w + e" "0 \<le> w" "0 < e" "start b \<le> pos b" "pos b \<le> buf_end b"
    using ok n by (simp_all add: buffer_ok_def w_def e_def)
  have p: "pos ?m = (case d of FORWARD \<Rightarrow> pos b - e | BACKWARD \<Rightarrow> pos b + e)"
    by (cases d) (simp_all add: moved_def e_def)
  have "start b \<le> pos ?m" "pos ?m \<le> buf_end b" "d = FORWARD \<longrightarrow> pos ?m < buf_end b \<or> n = 0"
    unfolding p using u by (cases d; simp add: virtual_defs Forward_used_size_def Backward_used_size_def)+
  note st = stored_moved [OF ok _ this]
  have st': "stored d ?m = n" "buffer_ok d ?m" using st n by simp_all
  then show "buffer_ok d (moved d (- int (elem_size b)) b)" by simp
  have "contents d (?m, mem) = map (\<lambda>k. elem_at b mem (slot d b (int k + 1))) [0..<n]"
    by (simp only: contents_def prod.case st' elem_moved slot_moved) simp
  moreover have "contents d (b, mem) = elem_at b mem (slot d b 0) # map (\<lambda>k. elem_at b mem (slot d b (int k + 1))) [0..<n]"
    by (simp only: contents_def prod.case n upt_conv_Cons map_Suc_upt [symmetric] list.map map_map comp_def)
      (simp add: add.commute)
  ultimately show "contents d (b, mem) = elem_at b mem (slot d b 0) # contents d (moved d (- int (elem_size b)) b, mem)"
    by simp
qed

lemma read_pops:
  assumes ok: "buffer_ok d b" and c: "contents d (b, mem) = x # xs"
  obtains b' where "Lifo_read d b = Some (False, b')" and "buffer_ok d b'"
    and "contents d (b', mem) = xs"
    and "(bytes_at mem (read_ptr1 b') (size1 b), bytes_at mem (read_ptr2 b') (size2 b)) = x"
    and "b' = (moved d (- int (elem_size b)) b)\<lparr>read_ptr1 := read_ptr1 b', read_ptr2 := read_ptr2 b'\<rparr>"
proof -
  obtain n where n: "stored d b = Suc n" using c by (cases "stored d b") (simp_all add: contents_def)
  let ?m = "moved d (- int (elem_size b)) b"
  let ?q = "if size2 b \<noteq> 0 then slot d b 0 + int (size1 b) else read_ptr2 b"
  let ?b = "?m\<lparr>read_ptr1 := slot d b 0, read_ptr2 := ?q\<rparr>"
  have r: "Lifo_read d b = Some (False, ?b)"
    using n by (simp add: Lifo_read_def read_at_effect [OF ok] moved_def)
  have x: "x = elem_at b mem (slot d b 0)" "xs = contents d (?m, mem)"
    using c pops(2) [OF ok n, of mem] by simp_all
  show thesis
  proof (rule that [of ?b])
    show "(bytes_at mem (read_ptr1 ?b) (size1 b), bytes_at mem (read_ptr2 ?b) (size2 b)) = x"
      by (simp add: x elem_at_def bytes_at_def)
  qed (simp_all add: r x read_ptrs_irrelevant pops(1) [OF ok n])
qed

lemma read_eof:
  assumes "buffer_ok d b" and "contents d (b, mem) = []"
  shows "Lifo_read d b = Some (True, b)"
  using assms read_at_effect [OF assms(1)] by (simp add: Lifo_read_def contents_def)

section \<open>A bounded stack\<close>

text \<open>
  The contract a user relies on: an operation \<open>put\<close> that stores an element unless the buffer is
  full, and an operation \<open>get\<close> that takes the last one stored. The specification is a list of at
  most \<open>cap\<close> elements.
\<close>

datatype 'e lifo_cmd = Put 'e | Get

datatype 'e lifo_ans = Stored | Full | Got 'e | Eof

fun stack_cmd :: "nat \<Rightarrow> 'e lifo_cmd \<Rightarrow> 'e list \<Rightarrow> 'e lifo_ans \<times> 'e list" where
  "stack_cmd cap (Put e) es = (if length es < cap then (Stored, e # es) else (Full, es))"
| "stack_cmd cap Get [] = (Eof, [])"
| "stack_cmd cap Get (e # es) = (Got e, es)"

fun stack_run :: "nat \<Rightarrow> 'e lifo_cmd list \<Rightarrow> 'e list \<Rightarrow> 'e lifo_ans list \<times> 'e list" where
  "stack_run cap [] es = ([], es)"
| "stack_run cap (c # cs) es =
     (let (a, es') = stack_cmd cap c es; (as, es'') = stack_run cap cs es' in (a # as, es''))"

fun lifo_step ::
  "('e \<Rightarrow> 's \<Rightarrow> ('e lifo_ans \<times> 's) option) \<Rightarrow> ('s \<Rightarrow> ('e lifo_ans \<times> 's) option) \<Rightarrow>
   'e lifo_cmd \<Rightarrow> 's \<Rightarrow> ('e lifo_ans \<times> 's) option" where
  "lifo_step put get (Put e) s = put e s"
| "lifo_step put get Get s = get s"

fun lifo_run ::
  "('e \<Rightarrow> 's \<Rightarrow> ('e lifo_ans \<times> 's) option) \<Rightarrow> ('s \<Rightarrow> ('e lifo_ans \<times> 's) option) \<Rightarrow>
   'e lifo_cmd list \<Rightarrow> 's \<Rightarrow> ('e lifo_ans list \<times> 's) option" where
  "lifo_run put get [] s = Some ([], s)"
| "lifo_run put get (c # cs) s =
     (case lifo_step put get c s of
        None \<Rightarrow> None
      | Some (a, s') \<Rightarrow>
          (case lifo_run put get cs s' of
             None \<Rightarrow> None
           | Some (as, s'') \<Rightarrow> Some (a # as, s'')))"

fun cmd_fits :: "('e \<Rightarrow> bool) \<Rightarrow> 'e lifo_cmd \<Rightarrow> bool" where
  "cmd_fits fits (Put e) = fits e"
| "cmd_fits fits Get = True"

locale bounded_stack =
  fixes inv :: "'s \<Rightarrow> bool"
    and cap :: nat
    and fits :: "'e \<Rightarrow> bool"
    and elems :: "'s \<Rightarrow> 'e list"
    and put :: "'e \<Rightarrow> 's \<Rightarrow> ('e lifo_ans \<times> 's) option"
    and get :: "'s \<Rightarrow> ('e lifo_ans \<times> 's) option"
  assumes put_law: "inv s \<Longrightarrow> fits e \<Longrightarrow>
      \<exists>a s'. put e s = Some (a, s') \<and> inv s' \<and> (a, elems s') = stack_cmd cap (Put e) (elems s)"
    and get_law: "inv s \<Longrightarrow>
      \<exists>a s'. get s = Some (a, s') \<and> inv s' \<and> (a, elems s') = stack_cmd cap Get (elems s)"
begin

lemma step_refines:
  assumes "inv s" and "cmd_fits fits c"
  shows "\<exists>a s'. lifo_step put get c s = Some (a, s') \<and> inv s' \<and> (a, elems s') = stack_cmd cap c (elems s)"
  using assms put_law get_law by (cases c) auto

lemma run_refines:
  assumes "inv s" and "list_all (cmd_fits fits) cs"
  shows "\<exists>as s'. lifo_run put get cs s = Some (as, s') \<and> inv s' \<and>
    (as, elems s') = stack_run cap cs (elems s)"
  using assms
proof (induction cs arbitrary: s)
  case (Cons c cs)
  then obtain a s1 where s1: "lifo_step put get c s = Some (a, s1)" "inv s1"
    "(a, elems s1) = stack_cmd cap c (elems s)"
    using step_refines [of s c] by auto
  moreover obtain as s2 where "lifo_run put get cs s1 = Some (as, s2)" "inv s2"
    "(as, elems s2) = stack_run cap cs (elems s1)"
    using Cons.IH [OF s1(2)] Cons.prems by auto
  ultimately show ?case by (auto split: prod.splits)
qed auto

end

text \<open>The user of a buffer: it keeps the element at \<open>src\<close>, points the buffer to it, and writes
  when there is space; it reads by following the pointers it got.\<close>

definition store :: "addr \<Rightarrow> byte list \<Rightarrow> memory \<Rightarrow> memory" where
  "store p bs mem = (\<lambda>a. if p \<le> a \<and> a < p + int (length bs) then bs ! nat (a - p) else mem a)"

definition client_put :: "enum_direction \<Rightarrow> addr \<Rightarrow> byte list \<times> byte list \<Rightarrow> Lifo_buffer \<times> memory \<Rightarrow>
  ((byte list \<times> byte list) lifo_ans \<times> Lifo_buffer \<times> memory) option" where
  "client_put d src e = (\<lambda>(b, mem).
     (let mem' = store src (fst e @ snd e) mem;
          b' = b\<lparr>write_ptr1 := src, write_ptr2 := src + int (size1 b)\<rparr>
      in if Lifo_can_write d b' then map_option (\<lambda>s. (Stored, s)) (Lifo_write d (b', mem'))
         else Some (Full, b', mem')))"

definition client_get :: "enum_direction \<Rightarrow> Lifo_buffer \<times> memory \<Rightarrow>
  ((byte list \<times> byte list) lifo_ans \<times> Lifo_buffer \<times> memory) option" where
  "client_get d = (\<lambda>(b, mem).
     map_option (\<lambda>(eof, b'). (if eof then Eof
        else Got (bytes_at mem (read_ptr1 b') (size1 b'), bytes_at mem (read_ptr2 b') (size2 b')), b', mem))
       (Lifo_read d b))"

definition client_inv :: "enum_direction \<Rightarrow> nat \<Rightarrow> nat \<Rightarrow> addr \<Rightarrow> addr \<Rightarrow> Lifo_buffer \<times> memory \<Rightarrow> bool" where
  "client_inv d n1 n2 lo hi = (\<lambda>(b, mem). buffer_ok d b \<and> size1 b = n1 \<and> size2 b = n2 \<and>
     start b = lo \<and> buf_end b = hi)"

definition sizes_fit :: "nat \<Rightarrow> nat \<Rightarrow> byte list \<times> byte list \<Rightarrow> bool" where
  "sizes_fit n1 n2 e \<longleftrightarrow> length (fst e) = n1 \<and> length (snd e) = n2"

definition room_for :: "enum_direction \<Rightarrow> nat \<Rightarrow> addr \<Rightarrow> addr \<Rightarrow> nat" where
  "room_for d n lo hi = nat (hi - lo - (case d of FORWARD \<Rightarrow> 1 | BACKWARD \<Rightarrow> 0)) div n"

lemma bytes_at_store:
  "p \<le> q \<Longrightarrow> q + int n \<le> p + int (length bs) \<Longrightarrow>
   bytes_at (store p bs mem) q n = take n (drop (nat (q - p)) bs)"
  by (rule nth_equalityI) (auto simp: bytes_at_def store_def nat_diff_distrib' nat_add_distrib add.commute
      intro!: arg_cong [of _ _ "\<lambda>k. bs ! k"])

lemma write_ptrs_irrelevant:
  fixes b p q
  defines "b' \<equiv> b\<lparr>write_ptr1 := p, write_ptr2 := q\<rparr>"
  shows "stored d b' = stored d b" "buffer_ok d b' = buffer_ok d b" "contents d (b', mem) = contents d (b, mem)"
    "Lifo_can_write d b' = Lifo_can_write d b" "elem_size b' = elem_size b"
proof -
  show st: "stored d b' = stored d b" and es: "elem_size b' = elem_size b"
    by (cases d; simp add: b'_def stored_def virtual_defs Forward_used_size_def Backward_used_size_def elem_size_def)+
  have "elem_at b' mem a = elem_at b mem a" "slot d b' k = slot d b k" for a k
    by (cases d; simp add: b'_def elem_size_def elem_at_def slot_def)+
  then show "contents d (b', mem) = contents d (b, mem)" by (simp add: contents_def st)
  show "buffer_ok d b' = buffer_ok d b" "Lifo_can_write d b' = Lifo_can_write d b"
    unfolding buffer_ok_def st es
    by (cases d; simp add: b'_def virtual_defs Forward_used_size_def Backward_used_size_def
        Forward_have_space_for_def Backward_have_space_for_def)+
qed

lemma client_put_law:
  assumes inv: "client_inv d n1 n2 lo hi (b, mem)" and fit: "sizes_fit n1 n2 e"
    and src: "0 < src" "src + int (n1 + n2) \<le> lo \<or> hi \<le> src"
  shows "\<exists>a s'. client_put d src e (b, mem) = Some (a, s') \<and> client_inv d n1 n2 lo hi s' \<and>
    (a, contents d s') = stack_cmd (room_for d (n1 + n2) lo hi) (Put e) (contents d (b, mem))"
proof -
  let ?b = "b\<lparr>write_ptr1 := src, write_ptr2 := src + int (size1 b)\<rparr>"
  let ?m = "store src (fst e @ snd e) mem"
  have ok: "buffer_ok d b" "size1 b = n1" "size2 b = n2" "start b = lo" "buf_end b = hi"
    using inv by (simp_all add: client_inv_def)
  have len: "length (fst e) = n1" "length (snd e) = n2" using fit by (simp_all add: sizes_fit_def)
  have okb: "buffer_ok d ?b" using ok by (simp add: write_ptrs_irrelevant)
  have srcs: "sources_ok ?b" using src ok by (auto simp: sources_ok_def outside_def)
  have cont: "contents d (?b, ?m) = contents d (b, mem)"
  proof -
    have "contents d (b, ?m) = contents d (b, mem)"
      using src ok len by (intro contents_of [OF ok(1)]) (auto simp: store_def buffer_ok_def split: if_splits)
    then show ?thesis by (simp add: write_ptrs_irrelevant)
  qed
  have e: "(bytes_at ?m (write_ptr1 ?b) (size1 ?b), bytes_at ?m (write_ptr2 ?b) (size2 ?b)) = e"
    using len ok by (cases e) (simp add: bytes_at_store)
  have room: "Lifo_can_write d ?b \<longleftrightarrow> length (contents d (b, mem)) < room_for d (n1 + n2) lo hi"
    using can_write_iff [OF ok(1)] ok
    by (simp add: write_ptrs_irrelevant contents_def capacity_def room_for_def elem_size_def)
  show ?thesis
  proof (cases "Lifo_can_write d ?b")
    case True
    from write_pushes [OF okb srcs True, of ?m] obtain b' mem' where w:
      "Lifo_write d (?b, ?m) = Some (b', mem')" "contents d (b', mem') = e # contents d (b, mem)"
      "buffer_ok d b'" "b' = moved d (int (elem_size ?b)) ?b"
      unfolding e cont by metis
    with True room ok show ?thesis
      by (simp add: client_put_def Let_def client_inv_def) (simp add: moved_def)
  next
    case False
    with room ok okb cont show ?thesis by (simp add: client_put_def Let_def client_inv_def)
  qed
qed

lemma client_get_law:
  assumes "client_inv d n1 n2 lo hi (b, mem)"
  shows "\<exists>a s'. client_get d (b, mem) = Some (a, s') \<and> client_inv d n1 n2 lo hi s' \<and>
    (a, contents d s') = stack_cmd k Get (contents d (b, mem))"
proof (cases "contents d (b, mem)")
  case Nil
  then show ?thesis using read_eof assms by (auto simp: client_get_def client_inv_def)
next
  case (Cons x xs)
  have ok: "buffer_ok d b" using assms by (simp add: client_inv_def)
  from read_pops [OF ok Cons] obtain b' where r: "Lifo_read d b = Some (False, b')" "buffer_ok d b'"
    "contents d (b', mem) = xs"
    "(bytes_at mem (read_ptr1 b') (size1 b), bytes_at mem (read_ptr2 b') (size2 b)) = x"
    "b' = (moved d (- int (elem_size b)) b)\<lparr>read_ptr1 := read_ptr1 b', read_ptr2 := read_ptr2 b'\<rparr>"
    by metis
  have "size1 b' = size1 b" "size2 b' = size2 b" "start b' = start b" "buf_end b' = buf_end b"
    by (subst r(5), simp add: moved_def)+
  with r assms Cons show ?thesis by (auto simp: client_get_def client_inv_def)
qed

definition source_fits :: "addr \<Rightarrow> nat \<Rightarrow> nat \<Rightarrow> addr \<Rightarrow> addr \<Rightarrow> byte list \<times> byte list \<Rightarrow> bool" where
  "source_fits src n1 n2 lo hi e \<longleftrightarrow> sizes_fit n1 n2 e \<and>
     0 < src \<and> (src + int (n1 + n2) \<le> lo \<or> hi \<le> src)"

interpretation lifo: bounded_stack "client_inv d n1 n2 lo hi" "room_for d (n1 + n2) lo hi"
    "source_fits src n1 n2 lo hi" "contents d" "client_put d src" "client_get d"
  for d n1 n2 lo hi src
proof unfold_locales
  fix s e assume "client_inv d n1 n2 lo hi s" "source_fits src n1 n2 lo hi e"
  then show "\<exists>a s'. client_put d src e s = Some (a, s') \<and> client_inv d n1 n2 lo hi s' \<and>
      (a, contents d s') = stack_cmd (room_for d (n1 + n2) lo hi) (Put e) (contents d s)"
    using client_put_law [of d n1 n2 lo hi "fst s" "snd s" e src] by (simp add: source_fits_def)
next
  fix s assume "client_inv d n1 n2 lo hi s"
  then show "\<exists>a s'. client_get d s = Some (a, s') \<and> client_inv d n1 n2 lo hi s' \<and>
      (a, contents d s') = stack_cmd (room_for d (n1 + n2) lo hi) Get (contents d s)"
    using client_get_law [of d n1 n2 lo hi "fst s" "snd s" "room_for d (n1 + n2) lo hi"] by simp
qed

text \<open>A buffer whose space was just set is empty.\<close>

definition fresh_buffer :: "enum_direction \<Rightarrow> bool \<Rightarrow> nat \<Rightarrow> nat \<Rightarrow> addr \<Rightarrow> addr \<Rightarrow>
  Lifo_buffer \<times> memory \<Rightarrow> Lifo_buffer \<times> memory" where
  "fresh_buffer d trash n1 n2 lo hi = (\<lambda>(b, mem).
     Lifo_set_buffer_space d trash lo hi (setup_writing n1 n2 b, mem))"

lemma fresh_buffer_empty:
  assumes "lo \<le> hi" and "0 < n1 + n2"
  shows "client_inv d n1 n2 lo hi (fresh_buffer d trash n1 n2 lo hi s)"
    and "contents d (fresh_buffer d trash n1 n2 lo hi s) = []"
  using assms
  by (cases s; cases d; simp add: fresh_buffer_def Lifo_set_buffer_space_def setup_writing_def client_inv_def
      buffer_ok_def virtual_defs Forward_used_size_def Backward_used_size_def Forward_reset_def
      Backward_reset_def elem_size_def stored_def contents_def)+

section \<open>Properties\<close>

lemma buffer_runs_as_stack:
  assumes "lo \<le> hi" and "0 < n1 + n2" and "0 < src" and "src + int (n1 + n2) \<le> lo \<or> hi \<le> src"
    and "list_all (cmd_fits (sizes_fit n1 n2)) cs"
  shows "\<exists>as s'. lifo_run (client_put d src) (client_get d) cs (fresh_buffer d trash n1 n2 lo hi s) = Some (as, s') \<and>
    (as, contents d s') = stack_run (room_for d (n1 + n2) lo hi) cs []"
proof -
  have "list_all (cmd_fits (source_fits src n1 n2 lo hi)) cs"
    using assms(5)
  proof (rule list.pred_mono_strong)
    fix c :: "(byte list \<times> byte list) lifo_cmd" assume "cmd_fits (sizes_fit n1 n2) c"
    then show "cmd_fits (source_fits src n1 n2 lo hi) c"
      using assms(3,4) by (cases c) (auto simp: source_fits_def)
  qed
  from lifo.run_refines [OF fresh_buffer_empty(1) [OF assms(1,2)] this] fresh_buffer_empty(2) [OF assms(1,2)]
  show ?thesis by metis
qed


definition blank_buffer :: Lifo_buffer where
  "blank_buffer = \<lparr>size1 = 0, size2 = 0, write_ptr1 = 0, write_ptr2 = 0, read_ptr1 = 0, read_ptr2 = 0,
     start = 0, buf_end = 0, pos = 0\<rparr>"


lemma stack_puts: "length es + length xs \<le> cap \<Longrightarrow>
  stack_run cap (map Put xs @ cs) es = (let (as, es') = stack_run cap cs (rev xs @ es) in (map (\<lambda>_. Stored) xs @ as, es'))"
  by (induction xs arbitrary: es) (auto split: prod.splits)

lemma stack_gets: "stack_run cap (map (\<lambda>_. Get) es) es = (map Got es, [])"
  by (induction es) auto

text \<open>Round trip: elements written into a buffer that has room for them come back last first,
  byte for byte, and leave the buffer empty.\<close>

theorem lifo_roundtrip:
  assumes "lo \<le> hi" and "0 < n1 + n2" and "0 < src" and "src + int (n1 + n2) \<le> lo \<or> hi \<le> src"
    and "list_all (sizes_fit n1 n2) xs" and "length xs \<le> room_for d (n1 + n2) lo hi"
  shows "\<exists>s'. lifo_run (client_put d src) (client_get d) (map Put xs @ map (\<lambda>_. Get) xs)
      (fresh_buffer d trash n1 n2 lo hi s) = Some (map (\<lambda>_. Stored) xs @ map Got (rev xs), s') \<and> contents d s' = []"
proof -
  have g: "map (\<lambda>_. Get) xs = map (\<lambda>_. Get) (rev xs)" by (simp add: map_replicate_const)
  have "list_all (cmd_fits (sizes_fit n1 n2)) (map Put xs @ map (\<lambda>_. Get) xs)"
    using assms(5) by (auto simp: list_all_iff)
  from buffer_runs_as_stack [OF assms(1-4) this, of d trash s] show ?thesis
    using stack_puts [of "[]" xs "room_for d (n1 + n2) lo hi" "map (\<lambda>_. Get) (rev xs)"] assms(6)
    by (simp add: g stack_gets)
qed

theorem lifo_roundtrip_witness:
  "\<exists>s'. lifo_run (client_put BACKWARD 100) (client_get BACKWARD)
       [Put ([1, 2], [3]), Put ([4, 5], [6]), Get, Get]
       (fresh_buffer BACKWARD False 2 1 10 16 (blank_buffer, \<lambda>_. 0)) =
     Some ([Stored, Stored, Got ([4, 5], [6]), Got ([1, 2], [3])], s') \<and> contents BACKWARD s' = []"
  using lifo_roundtrip [of 10 16 2 1 100 "[([1, 2], [3]), ([4, 5], [6])]" BACKWARD False "(blank_buffer, \<lambda>_. 0)"]
  by (simp add: sizes_fit_def room_for_def)

text \<open>Handing space over: when a backward buffer gives up its unused space and the forward buffer
  in front of it grows by it, both keep their contents and the two spaces stay adjacent, also
  when the build fills new space with a pattern.\<close>

theorem hand_over_space:
  assumes f: "buffer_ok FORWARD f" and g: "buffer_ok BACKWARD g" and "buf_end f = start g"
  shows "let (g', us, ue) = Backward_remove_unused_space g in
    \<exists>f' mem'. Forward_grow trash us ue (f, mem) = Some (f', mem') \<and>
      contents FORWARD (f', mem') = contents FORWARD (f, mem) \<and>
      contents BACKWARD (g', mem') = contents BACKWARD (g, mem) \<and>
      buffer_ok FORWARD f' \<and> buffer_ok BACKWARD g' \<and> buf_end f' = start g' \<and>
      buf_end f' - buf_end f = start g' - start g"
proof -
  let ?f = "f\<lparr>buf_end := pos g\<rparr>" and ?g = "g\<lparr>start := pos g\<rparr>"
  let ?m = "TRASH_ALLOC trash (start g) (pos g - start g) mem"
  have le: "pos f \<le> start g" "start g \<le> pos g" using f g assms(3) by (simp_all add: buffer_ok_def)
  have f': "buffer_ok FORWARD ?f" "contents FORWARD (?f, m) = contents FORWARD (f, m)" for m
    using f le assms(3) by (auto simp: buffer_ok_def virtual_defs Forward_used_size_def elem_size_def stored_def
        contents_def elem_at_def slot_def)
  have g': "buffer_ok BACKWARD ?g" "contents BACKWARD (?g, m) = contents BACKWARD (g, m)" for m
    using g le by (auto simp: buffer_ok_def virtual_defs Backward_used_size_def elem_size_def stored_def
        contents_def elem_at_def slot_def)
  have "contents FORWARD (f, ?m) = contents FORWARD (f, mem)"
    using le by (intro contents_of [OF f]) (auto simp: TRASH_ALLOC_def memset_def)
  moreover have "contents BACKWARD (g, ?m) = contents BACKWARD (g, mem)"
    using le by (intro contents_of [OF g]) (auto simp: TRASH_ALLOC_def memset_def)
  ultimately show ?thesis
    using f' g' le assms(3) by (simp add: Backward_remove_unused_space_def Forward_grow_def)
qed

text \<open>A forward buffer with one element in front of a backward buffer with room for one more.\<close>

definition front_buffer :: Lifo_buffer where
  "front_buffer = blank_buffer\<lparr>size1 := 2, start := 10, buf_end := 13, pos := 12\<rparr>"

definition back_buffer :: Lifo_buffer where
  "back_buffer = blank_buffer\<lparr>size1 := 2, start := 13, buf_end := 18, pos := 16\<rparr>"

lemma front_back_ok: "buffer_ok FORWARD front_buffer" "buffer_ok BACKWARD back_buffer"
  by (simp_all add: buffer_ok_def front_buffer_def back_buffer_def blank_buffer_def elem_size_def stored_def
      virtual_defs Forward_used_size_def Backward_used_size_def)

theorem hand_over_space_witness:
  "\<exists>f' mem'. Forward_grow True 13 16 (front_buffer, \<lambda>a. of_int a) = Some (f', mem') \<and>
     contents FORWARD (f', mem') = [([10, 11], [])] \<and> buf_end f' = 16"
proof -
  have c: "contents FORWARD (front_buffer, \<lambda>a. of_int a) = [([10, 11], [])]"
    by (simp add: contents_def front_buffer_def blank_buffer_def stored_def elem_size_def virtual_defs
        Forward_used_size_def elem_at_def bytes_at_def slot_def upt_rec)
  have adj: "buf_end front_buffer = start back_buffer" by (simp add: front_buffer_def back_buffer_def)
  from hand_over_space [OF front_back_ok adj, of True "\<lambda>a. of_int a"] show ?thesis
    unfolding c by (auto simp: Backward_remove_unused_space_def back_buffer_def front_buffer_def)
qed

text \<open>A write touches nothing but the free part of the buffer's space, and never the last byte of
  a forward buffer.\<close>

theorem write_confined:
  assumes "buffer_ok d b" and "sources_ok b" and "Lifo_can_write d b"
  shows "\<exists>b' mem'. Lifo_write d (b, mem) = Some (b', mem') \<and>
    (\<forall>a. mem' a = mem a \<or> (case d of FORWARD \<Rightarrow> pos b \<le> a \<and> a < buf_end b - 1
                                  | BACKWARD \<Rightarrow> start b \<le> a \<and> a < pos b))"
proof -
  have "put_elem b (slot d b (- 1)) mem a = mem a \<or> (case d of FORWARD \<Rightarrow> pos b \<le> a \<and> a < buf_end b - 1
                                  | BACKWARD \<Rightarrow> start b \<le> a \<and> a < pos b)" for a
    using assms(3) by (cases d) (auto simp: put_elem_def slot_def virtual_defs elem_size_def
        Forward_have_space_for_def Backward_have_space_for_def)
  with write_effect [OF assms] show ?thesis by blast
qed

theorem write_confined_witness:
  "\<exists>b' mem'. Lifo_write BACKWARD (back_buffer\<lparr>write_ptr1 := 100\<rparr>, \<lambda>a. of_int a) = Some (b', mem') \<and>
     mem' 16 = 16 \<and> mem' 12 = 12"
proof -
  let ?b = "back_buffer\<lparr>write_ptr1 := 100\<rparr>"
  have ok: "buffer_ok BACKWARD ?b" "sources_ok ?b" "Lifo_can_write BACKWARD ?b"
    by (simp_all add: buffer_ok_def back_buffer_def blank_buffer_def elem_size_def stored_def
      virtual_defs Backward_used_size_def Backward_have_space_for_def sources_ok_def outside_def)
  from write_confined [OF ok, of "\<lambda>a. of_int a"] obtain b' mem'
    where w: "Lifo_write BACKWARD (?b, \<lambda>a. of_int a) = Some (b', mem')"
      "\<forall>a. mem' a = of_int a \<or> 13 \<le> a \<and> a < 16"
    by (auto simp: back_buffer_def)
  have "mem' 16 = of_int 16" "mem' 12 = of_int 12" using w(2) [rule_format, of 16] w(2) [rule_format, of 12] by auto
  with w(1) show ?thesis by auto
qed

section \<open>Walking with an iterator\<close>

fun walk :: "enum_direction \<Rightarrow> Lifo_buffer \<Rightarrow> memory \<Rightarrow> nat \<Rightarrow> Lifo_buffer_iterator \<Rightarrow>
  (byte list \<times> byte list) list option" where
  "walk d b mem 0 it = None"
| "walk d b mem (Suc fuel) it =
     (case iterator_read d b it of
        None \<Rightarrow> None
      | Some (eof, it') \<Rightarrow>
          if eof then Some []
          else map_option ((#) (bytes_at mem (it_read_ptr1 it') (size1 b), bytes_at mem (it_read_ptr2 it') (size2 b)))
                 (walk d b mem fuel it'))"

lemma read_at_pos: "Lifo_read_at d b p = Lifo_read_at d (b\<lparr>pos := q\<rparr>) p"
  by (cases d) (simp_all add: Lifo_read_at_def forward_defs backward_defs fun_eq_iff split: option.splits)

lemma walk_from:
  assumes "buffer_ok d (b\<lparr>pos := it_pos it\<rparr>)"
  shows "walk d b mem (Suc (stored d (b\<lparr>pos := it_pos it\<rparr>))) it = Some (contents d (b\<lparr>pos := it_pos it\<rparr>, mem))"
  using assms
proof (induction "stored d (b\<lparr>pos := it_pos it\<rparr>)" arbitrary: it)
  case 0
  then show ?case
    using read_at_effect [OF 0(2), of "it_read_ptr1 it" "it_read_ptr2 it"] read_at_pos [of d b "it_pos it" "it_pos it"]
    by (simp add: iterator_read_def contents_def)
next
  case (Suc n)
  let ?b = "b\<lparr>pos := it_pos it\<rparr>"
  have st: "stored d ?b = Suc n" using Suc(2) by simp
  define p where "p = pos (moved d (- int (elem_size ?b)) ?b)"
  let ?it = "it\<lparr>it_pos := p, it_read_ptr1 := slot d ?b 0,
    it_read_ptr2 := (if size2 b \<noteq> 0 then slot d ?b 0 + int (size1 b) else it_read_ptr2 it)\<rparr>"
  have m: "moved d (- int (elem_size ?b)) ?b = b\<lparr>pos := p\<rparr>" by (simp add: p_def moved_def)
  have r: "iterator_read d b it = Some (False, ?it)"
    using read_at_effect [OF Suc(3), of "it_read_ptr1 it" "it_read_ptr2 it"] read_at_pos [of d b "it_pos it" "it_pos it"] st
    by (simp add: iterator_read_def p_def)
  have pop: "buffer_ok d (b\<lparr>pos := p\<rparr>)"
    "contents d (?b, mem) = elem_at ?b mem (slot d ?b 0) # contents d (b\<lparr>pos := p\<rparr>, mem)"
    using pops [OF Suc(3) st] by (simp_all only: m)
  have len: "length (contents d (b', mem)) = stored d b'" for b' by (simp add: contents_def)
  have "Suc n = Suc (stored d (b\<lparr>pos := p\<rparr>))"
    using arg_cong [OF pop(2), of length] st by (simp add: len)
  then have "walk d b mem (Suc n) ?it = Some (contents d (b\<lparr>pos := p\<rparr>, mem))"
    using Suc(1) [of ?it] pop(1) by simp
  with r st pop(2) show ?case
    by (simp add: elem_at_def bytes_at_def)
qed

text \<open>An iterator over a buffer gives all its elements in the order they would be read, and ends.\<close>

theorem iterator_walks_contents:
  assumes "buffer_ok d b"
  shows "walk d b mem (Suc (stored d b)) (iterator_init b it) = Some (contents d (b, mem))"
  using walk_from [where b = b and it = "iterator_init b it"] assms by (simp add: iterator_init_def)

theorem iterator_walks_contents_witness:
  "walk FORWARD front_buffer (\<lambda>a. of_int a) 2
     (iterator_init front_buffer \<lparr>it_pos = 0, it_read_ptr1 = 0, it_read_ptr2 = 0\<rparr>) = Some [([10, 11], [])]"
proof -
  have "stored FORWARD front_buffer = 1"
    by (simp add: front_buffer_def blank_buffer_def stored_def elem_size_def virtual_defs Forward_used_size_def)
  moreover have "contents FORWARD (front_buffer, \<lambda>a. of_int a) = [([10, 11], [])]"
    by (simp add: contents_def front_buffer_def blank_buffer_def stored_def elem_size_def virtual_defs
        Forward_used_size_def elem_at_def bytes_at_def slot_def upt_rec)
  ultimately show ?thesis
    using iterator_walks_contents [OF front_back_ok(1), of "\<lambda>a. of_int a"]
    by (simp add: eval_nat_numeral)
qed

end
