(* ===== verification/Sql_Bitmap.thy ===== *)
theory Sql_Bitmap
  imports My_Bits Prelude "HOL-Library.Monad_Syntax"
begin

text \<open>
  The bitmaps of the MariaDB server (\<open>private/sql_bitmap.h\<close>): the class \<open>Bitmap<width>\<close>, its iterator
  and \<open>Table_map_iterator\<close>. The template argument \<open>width\<close> is an argument of each function, and so is
  \<open>debug\<close>: whether the build checks \<open>DBUG_ASSERT\<close>. A failing assertion, a shift by 64 or more and
  an access outside the array are the value None. The bitmap is the array \<open>buffer\<close>, a list of
  words; the theorems read it as a set of numbers below the width.
\<close>

type_synonym ulonglong = "64 word"
type_synonym bitmap = "ulonglong list"

section \<open>Elements\<close>

definition BITS_PER_ELEMENT :: nat where
  "BITS_PER_ELEMENT = 64"

definition ARRAY_ELEMENTS :: "nat \<Rightarrow> nat" where
  "ARRAY_ELEMENTS width = (width + BITS_PER_ELEMENT - 1) div BITS_PER_ELEMENT"

definition ALL_BITS_SET :: ulonglong where
  "ALL_BITS_SET = 0xFFFFFFFFFFFFFFFF"

definition dbug_assert :: "bool \<Rightarrow> bool \<Rightarrow> unit option" where
  "dbug_assert debug c = (if debug \<and> \<not> c then None else Some ())"

text \<open>\<open>1ULL << n\<close>\<close>

definition shl_one :: "nat \<Rightarrow> ulonglong option" where
  "shl_one n = (if n < 64 then Some (push_bit n 1) else None)"

definition element :: "bitmap \<Rightarrow> nat \<Rightarrow> ulonglong option" where
  "element buffer i = (if i < length buffer then Some (buffer ! i) else None)"

text \<open>\<open>for (i= lo; i < hi; i++) buffer[i]= f(i, buffer[i])\<close>\<close>

definition for_elements :: "nat \<Rightarrow> nat \<Rightarrow> (nat \<Rightarrow> ulonglong \<Rightarrow> ulonglong) \<Rightarrow> bitmap \<Rightarrow> bitmap" where
  "for_elements lo hi f buffer = fold (\<lambda>i b. b[i := f i (b ! i)]) [lo..<hi] buffer"

definition bit_index :: "bool \<Rightarrow> nat \<Rightarrow> nat \<Rightarrow> nat option" where
  "bit_index debug width n = do {
     dbug_assert debug (n < width);
     Some (if ARRAY_ELEMENTS width = 1 then 0 else n div BITS_PER_ELEMENT)
   }"

definition bit_mask :: "bool \<Rightarrow> nat \<Rightarrow> nat \<Rightarrow> ulonglong option" where
  "bit_mask debug width n = do {
     dbug_assert debug (n < width);
     if ARRAY_ELEMENTS width = 1 then shl_one n else shl_one (n mod BITS_PER_ELEMENT)
   }"

definition last_element_mask :: "bool \<Rightarrow> nat \<Rightarrow> nat \<Rightarrow> ulonglong option" where
  "last_element_mask debug width n = do {
     dbug_assert debug (n mod BITS_PER_ELEMENT \<noteq> 0);
     m \<leftarrow> bit_mask debug width n;
     Some (m - 1)
   }"

section \<open>Single bits\<close>

definition Bitmap_set_bit :: "bool \<Rightarrow> nat \<Rightarrow> nat \<Rightarrow> bitmap \<Rightarrow> bitmap option" where
  "Bitmap_set_bit debug width n buffer = do {
     i \<leftarrow> bit_index debug width n;
     m \<leftarrow> bit_mask debug width n;
     x \<leftarrow> element buffer i;
     Some (buffer[i := x OR m])
   }"

definition Bitmap_clear_bit :: "bool \<Rightarrow> nat \<Rightarrow> nat \<Rightarrow> bitmap \<Rightarrow> bitmap option" where
  "Bitmap_clear_bit debug width n buffer = do {
     i \<leftarrow> bit_index debug width n;
     m \<leftarrow> bit_mask debug width n;
     x \<leftarrow> element buffer i;
     Some (buffer[i := x AND NOT m])
   }"

definition Bitmap_is_set :: "bool \<Rightarrow> nat \<Rightarrow> nat \<Rightarrow> bitmap \<Rightarrow> bool option" where
  "Bitmap_is_set debug width n buffer = do {
     i \<leftarrow> bit_index debug width n;
     m \<leftarrow> bit_mask debug width n;
     x \<leftarrow> element buffer i;
     Some (x AND m \<noteq> 0)
   }"

section \<open>Prefixes\<close>

definition Bitmap_set_prefix :: "bool \<Rightarrow> nat \<Rightarrow> nat \<Rightarrow> bitmap \<Rightarrow> bitmap option" where
  "Bitmap_set_prefix debug width prefix_size buffer = do {
     let prefix_size = (if prefix_size > width then width else prefix_size);
     let idx = prefix_size div BITS_PER_ELEMENT;
     let buffer = for_elements 0 idx (\<lambda>i _. ALL_BITS_SET) buffer;
     (idx, buffer) \<leftarrow>
       (if prefix_size mod BITS_PER_ELEMENT \<noteq> 0 then do {
          m \<leftarrow> last_element_mask debug width prefix_size;
          Some (idx + 1, buffer[idx := m])
        } else Some (idx, buffer));
     Some (for_elements idx (ARRAY_ELEMENTS width) (\<lambda>i _. 0) buffer)
   }"

text \<open>The constructor and \<open>init\<close> only call \<open>set_prefix\<close>, on an array with indeterminate elements.\<close>

definition Bitmap_init :: "bool \<Rightarrow> nat \<Rightarrow> nat \<Rightarrow> bitmap \<Rightarrow> bitmap option" where
  "Bitmap_init debug width prefix buffer = Bitmap_set_prefix debug width prefix buffer"

definition Bitmap_is_prefix :: "bool \<Rightarrow> nat \<Rightarrow> nat \<Rightarrow> bitmap \<Rightarrow> bool option" where
  "Bitmap_is_prefix debug width prefix_size buffer = do {
     dbug_assert debug (prefix_size \<le> width);
     let idx = prefix_size div BITS_PER_ELEMENT;
     if list_ex (\<lambda>i. buffer ! i \<noteq> ALL_BITS_SET) [0..<idx] then Some False
     else do {
       (idx, differs) \<leftarrow>
         (if prefix_size mod BITS_PER_ELEMENT \<noteq> 0 then do {
            x \<leftarrow> element buffer idx;
            m \<leftarrow> last_element_mask debug width prefix_size;
            Some (idx + 1, x \<noteq> m)
          } else Some (idx, False));
       if differs then Some False
       else Some (\<not> list_ex (\<lambda>i. buffer ! i \<noteq> 0) [idx..<ARRAY_ELEMENTS width])
     }
   }"

definition Bitmap_set_all :: "bool \<Rightarrow> nat \<Rightarrow> bitmap \<Rightarrow> bitmap option" where
  "Bitmap_set_all debug width buffer =
     (if width mod BITS_PER_ELEMENT \<noteq> 0 then Bitmap_set_prefix debug width width buffer
      else if ARRAY_ELEMENTS width > 1 then Some (replicate (ARRAY_ELEMENTS width) ALL_BITS_SET)
      else Some (buffer[0 := ALL_BITS_SET]))"

definition Bitmap_clear_all :: "nat \<Rightarrow> bitmap \<Rightarrow> bitmap" where
  "Bitmap_clear_all width buffer =
     (if ARRAY_ELEMENTS width > 1 then replicate (ARRAY_ELEMENTS width) 0 else buffer[0 := 0])"

section \<open>Whole bitmaps\<close>

definition Bitmap_intersect :: "nat \<Rightarrow> bitmap \<Rightarrow> bitmap \<Rightarrow> bitmap" where
  "Bitmap_intersect width other = for_elements 0 (ARRAY_ELEMENTS width) (\<lambda>i x. x AND other ! i)"

definition intersect_and_pad :: "bool \<Rightarrow> nat \<Rightarrow> ulonglong \<Rightarrow> bool \<Rightarrow> bitmap \<Rightarrow> bitmap option" where
  "intersect_and_pad debug width map2buff pad_with_ones buffer = do {
     x \<leftarrow> element buffer 0;
     let buffer = buffer[0 := x AND map2buff];
     let buffer = for_elements 1 (ARRAY_ELEMENTS width) (\<lambda>i _. if pad_with_ones then ALL_BITS_SET else 0) buffer;
     if ARRAY_ELEMENTS width > 1 \<and> width mod BITS_PER_ELEMENT \<noteq> 0 \<and> pad_with_ones then do {
       m \<leftarrow> last_element_mask debug width width;
       Some (buffer[ARRAY_ELEMENTS width - 1 := m])
     } else Some buffer
   }"

definition Bitmap_intersect_ull :: "bool \<Rightarrow> nat \<Rightarrow> ulonglong \<Rightarrow> bitmap \<Rightarrow> bitmap option" where
  "Bitmap_intersect_ull debug width map2buff buffer = intersect_and_pad debug width map2buff False buffer"

definition Bitmap_intersect_extended :: "bool \<Rightarrow> nat \<Rightarrow> ulonglong \<Rightarrow> bitmap \<Rightarrow> bitmap option" where
  "Bitmap_intersect_extended debug width map2buff buffer =
     intersect_and_pad debug width map2buff (map2buff AND push_bit 63 1 \<noteq> 0) buffer"

definition Bitmap_subtract :: "nat \<Rightarrow> bitmap \<Rightarrow> bitmap \<Rightarrow> bitmap" where
  "Bitmap_subtract width other = for_elements 0 (ARRAY_ELEMENTS width) (\<lambda>i x. x AND NOT (other ! i))"

definition Bitmap_merge :: "nat \<Rightarrow> bitmap \<Rightarrow> bitmap \<Rightarrow> bitmap" where
  "Bitmap_merge width other = for_elements 0 (ARRAY_ELEMENTS width) (\<lambda>i x. x OR other ! i)"

definition Bitmap_is_clear_all :: "nat \<Rightarrow> bitmap \<Rightarrow> bool" where
  "Bitmap_is_clear_all width buffer \<longleftrightarrow> \<not> list_ex (\<lambda>i. buffer ! i \<noteq> 0) [0..<ARRAY_ELEMENTS width]"

definition Bitmap_is_subset :: "nat \<Rightarrow> bitmap \<Rightarrow> bitmap \<Rightarrow> bool" where
  "Bitmap_is_subset width buffer other \<longleftrightarrow>
     \<not> list_ex (\<lambda>i. buffer ! i AND NOT (other ! i) \<noteq> 0) [0..<ARRAY_ELEMENTS width]"

definition Bitmap_is_overlapping :: "nat \<Rightarrow> bitmap \<Rightarrow> bitmap \<Rightarrow> bool" where
  "Bitmap_is_overlapping width buffer other \<longleftrightarrow>
     list_ex (\<lambda>i. buffer ! i AND other ! i \<noteq> 0) [0..<ARRAY_ELEMENTS width]"

text \<open>\<open>memcmp\<close> of the arrays is 0 when all their elements agree.\<close>

definition Bitmap_eq :: "nat \<Rightarrow> bitmap \<Rightarrow> bitmap \<Rightarrow> bool" where
  "Bitmap_eq width buffer other \<longleftrightarrow>
     (if ARRAY_ELEMENTS width > 1 then list_all (\<lambda>i. buffer ! i = other ! i) [0..<ARRAY_ELEMENTS width]
      else buffer ! 0 = other ! 0)"

definition Bitmap_neq :: "nat \<Rightarrow> bitmap \<Rightarrow> bitmap \<Rightarrow> bool" where
  "Bitmap_neq width buffer other \<longleftrightarrow> \<not> Bitmap_eq width buffer other"

definition Bitmap_to_ulonglong :: "bitmap \<Rightarrow> ulonglong" where
  "Bitmap_to_ulonglong buffer = buffer ! 0"

definition Bitmap_bits_set :: "nat \<Rightarrow> bitmap \<Rightarrow> 32 word" where
  "Bitmap_bits_set width buffer =
     fold (\<lambda>i res. if buffer ! i \<noteq> 0 then res + my_count_bits (buffer ! i) else res)
       [0..<ARRAY_ELEMENTS width] 0"

definition Bitmap_find_first_bit :: "nat \<Rightarrow> bitmap \<Rightarrow> nat option" where
  "Bitmap_find_first_bit width buffer =
     (case find (\<lambda>i. buffer ! i \<noteq> 0) [0..<ARRAY_ELEMENTS width] of
        Some i \<Rightarrow> map_option ((+) (i * BITS_PER_ELEMENT)) (my_find_first_bit (buffer ! i))
      | None \<Rightarrow> Some width)"

section \<open>Printing\<close>

text \<open>The digits of one element, with the table \<open>_dig_vec_upper\<close> as a parameter, for it is not in the
  headers. The shift starts at 60 and is increased by 4 after each digit.\<close>

fun print_digits :: "(nat \<Rightarrow> char) \<Rightarrow> nat \<Rightarrow> ulonglong \<Rightarrow> nat \<Rightarrow> nat \<Rightarrow> string \<Rightarrow> string option" where
  "print_digits dig_vec_upper 0 num shift p buf = Some buf"
| "print_digits dig_vec_upper (Suc j) num shift p buf =
     (if shift \<ge> 64 \<or> p \<ge> length buf then None
      else print_digits dig_vec_upper j num (shift + 4) (p + 1)
             (buf[p := dig_vec_upper (unat (drop_bit shift num AND 0xF))]))"

text \<open>The index of the last element that is not zero, or 0.\<close>

fun last_nonzero :: "bitmap \<Rightarrow> nat \<Rightarrow> nat" where
  "last_nonzero buffer 0 = 0"
| "last_nonzero buffer (Suc k) = (if buffer ! Suc k = 0 then last_nonzero buffer k else Suc k)"

text \<open>\<open>longlong2str\<close> is not in the headers: a parameter, given the value, the buffer and the radix.\<close>

definition Bitmap_print :: "(nat \<Rightarrow> char) \<Rightarrow> (ulonglong \<Rightarrow> string \<Rightarrow> nat \<Rightarrow> string) \<Rightarrow> nat \<Rightarrow> bitmap \<Rightarrow> string \<Rightarrow> string option" where
  "Bitmap_print dig_vec_upper longlong2str width buffer buf = do {
     let l = last_nonzero buffer (ARRAY_ELEMENTS width - 1);
     buf \<leftarrow> fold (\<lambda>i r. Option.bind r (print_digits dig_vec_upper 16 (buffer ! i) (BITS_PER_ELEMENT - 4) (i * 16)))
             [0..<l] (Some buf);
     Some (longlong2str (buffer ! l) buf 16)
   }"

section \<open>Iterators\<close>

text \<open>\<open>Table_map_iterator\<close>: its state is the word \<open>bmp\<close>; 64 is its \<open>BITMAP_END\<close>.\<close>

definition Table_map_next_bit :: "ulonglong \<Rightarrow> (nat \<times> ulonglong) option" where
  "Table_map_next_bit bmp =
     (if bmp = 0 then Some (64, bmp)
      else do {
        b \<leftarrow> my_find_first_bit bmp;
        m \<leftarrow> shl_one b;
        Some (b, bmp AND NOT m)
      })"

record bitmap_iterator =
  offset :: nat
  tmi :: ulonglong

definition Bitmap_iterator :: "bitmap \<Rightarrow> bitmap_iterator" where
  "Bitmap_iterator buffer = \<lparr>offset = 0, tmi = buffer ! 0\<rparr>"

text \<open>\<open>operator++\<close>: the bit, or \<open>width\<close> at the end, and the iterator after it.\<close>

function Bitmap_iterator_next :: "nat \<Rightarrow> bitmap \<Rightarrow> bitmap_iterator \<Rightarrow> (nat \<times> bitmap_iterator) option" where
  "Bitmap_iterator_next width buffer it =
     (case Table_map_next_bit (tmi it) of
        None \<Rightarrow> None
      | Some (nextbit, t) \<Rightarrow>
          if nextbit \<noteq> 64 then Some (offset it + nextbit, it\<lparr>tmi := t\<rparr>)
          else if offset it + BITS_PER_ELEMENT \<ge> width then Some (width, it\<lparr>tmi := t\<rparr>)
          else (case element buffer ((offset it + BITS_PER_ELEMENT) div BITS_PER_ELEMENT) of
                  None \<Rightarrow> None
                | Some x \<Rightarrow> Bitmap_iterator_next width buffer \<lparr>offset = offset it + BITS_PER_ELEMENT, tmi = x\<rparr>))"
  by auto

termination
  by (relation "measure (\<lambda>(width, buffer, it). width - offset it)") (auto simp: BITS_PER_ELEMENT_def)

declare Bitmap_iterator_next.simps [simp del]

section \<open>The set of a bitmap\<close>

definition bitmap_set :: "bitmap \<Rightarrow> nat set" where
  "bitmap_set buffer = {n. n div 64 < length buffer \<and> bit (buffer ! (n div 64)) (n mod 64)}"

definition bitmap_ok :: "nat \<Rightarrow> bitmap \<Rightarrow> bool" where
  "bitmap_ok width buffer \<longleftrightarrow> length buffer = ARRAY_ELEMENTS width \<and> bitmap_set buffer \<subseteq> {..<width}"

lemma mem_bitmap [simp]:
  "n \<in> bitmap_set buffer \<longleftrightarrow> n div 64 < length buffer \<and> bit (buffer ! (n div 64)) (n mod 64)"
  by (simp add: bitmap_set_def)

lemma bitmap_bit: "i < length buffer \<Longrightarrow> j < 64 \<Longrightarrow> bit (buffer ! i) j \<longleftrightarrow> 64 * i + j \<in> bitmap_set buffer"
  by simp

lemma bitmap_eqI:
  assumes "length a = length b" and "bitmap_set a = bitmap_set b"
  shows "a = b"
proof (rule nth_equalityI [OF assms(1)])
  fix i assume i: "i < length a"
  show "a ! i = b ! i"
  proof (rule bit_word_eqI)
    fix j assume "j < LENGTH(64)"
    then show "bit (a ! i) j \<longleftrightarrow> bit (b ! i) j"
      using bitmap_bit [of i a j] bitmap_bit [of i b j] i assms by (simp del: mem_bitmap)
  qed
qed

lemma elements: "0 < width \<Longrightarrow> n < width \<Longrightarrow> n div 64 < ARRAY_ELEMENTS width"
  "0 < ARRAY_ELEMENTS width \<longleftrightarrow> 0 < width" "width \<le> 64 * ARRAY_ELEMENTS width"
  "ARRAY_ELEMENTS width = Suc 0 \<longleftrightarrow> 0 < width \<and> width \<le> 64"
  by (auto simp: ARRAY_ELEMENTS_def BITS_PER_ELEMENT_def)

lemma length_for_elements [simp]: "length (for_elements lo hi f buffer) = length buffer"
proof -
  have "length (fold (\<lambda>i b. b[i := f i (b ! i)]) xs b) = length b" for xs b
    by (induction xs arbitrary: b) simp_all
  then show ?thesis by (simp add: for_elements_def)
qed

lemma nth_for_elements:
  "hi \<le> length buffer \<Longrightarrow>
   for_elements lo hi f buffer ! k = (if lo \<le> k \<and> k < hi then f k (buffer ! k) else buffer ! k)"
proof (induction hi)
  case (Suc hi)
  show ?case
  proof (cases "lo \<le> hi")
    case True
    then have "for_elements lo (Suc hi) f buffer =
        (for_elements lo hi f buffer)[hi := f hi (for_elements lo hi f buffer ! hi)]"
      by (simp add: for_elements_def)
    moreover have "hi < length buffer" using Suc(2) by simp
    ultimately show ?thesis
      using Suc(1) True by (cases "k = hi") auto
  qed (auto simp: for_elements_def)
qed (simp add: for_elements_def)

lemma bit_all_ones [simp]: "bit ALL_BITS_SET n \<longleftrightarrow> n < 64"
proof -
  have e: "ALL_BITS_SET = mask 64" by (simp add: ALL_BITS_SET_def mask_eq_exp_minus_1)
  show ?thesis unfolding e by (simp add: bit_mask_iff)
qed

lemma all_ones_eq: "x = ALL_BITS_SET \<longleftrightarrow> (\<forall>j<64. bit x j)"
  by (auto simp: bit_eq_iff dest: bit_imp_le_length)

lemma zero_eq: "x = (0 :: ulonglong) \<longleftrightarrow> (\<forall>j<64. \<not> bit x j)"
  by (auto simp: bit_eq_iff dest: bit_imp_le_length)

lemma shl_bit: "n < 64 \<Longrightarrow> shl_one n = Some (push_bit n 1)"
  by (simp add: shl_one_def)

lemma bit_shl: "bit (2 ^ n :: ulonglong) j \<longleftrightarrow> n = j \<and> j < 64"
  by (auto simp: bit_simps)

lemma and_shl: "n < 64 \<Longrightarrow> x AND 2 ^ n \<noteq> 0 \<longleftrightarrow> bit (x :: ulonglong) n"
  by (auto simp: zero_eq bit_simps)

lemma same_bit: "n div 64 = x div 64 \<Longrightarrow> n mod 64 = x mod 64 \<longleftrightarrow> n = x" for n x :: nat
  by (metis div_mult_mod_eq)

section \<open>The masks\<close>

lemma bit_at:
  assumes "n < width"
  shows "bit_index debug width n = Some (n div 64)" and "bit_mask debug width n = Some (push_bit (n mod 64) 1)"
proof -
  have "n div 64 = 0 \<and> n mod 64 = n" if "ARRAY_ELEMENTS width = 1"
    using assms that by (simp add: elements)
  then show "bit_index debug width n = Some (n div 64)" "bit_mask debug width n = Some (push_bit (n mod 64) 1)"
    using assms by (auto simp: bit_index_def bit_mask_def dbug_assert_def BITS_PER_ELEMENT_def shl_bit)
qed

lemma last_mask:
  assumes "n \<le> width" and "n mod 64 \<noteq> 0" and "debug \<Longrightarrow> n < width"
  shows "last_element_mask debug width n = Some (mask (n mod 64))"
proof -
  have "n mod 64 = n" if "ARRAY_ELEMENTS width = 1"
    using assms that by (cases "n = 64") (auto simp: elements)
  then show ?thesis
    using assms by (auto simp: last_element_mask_def bit_mask_def dbug_assert_def BITS_PER_ELEMENT_def shl_bit
        mask_eq_exp_minus_1 push_bit_eq_mult)
qed

section \<open>What each operation does to the set\<close>

lemmas loops = nth_for_elements BITS_PER_ELEMENT_def Let_def

lemma ok_length: "bitmap_ok width buffer \<Longrightarrow> length buffer = ARRAY_ELEMENTS width"
  by (simp add: bitmap_ok_def)

lemma ok_below: "bitmap_ok width buffer \<Longrightarrow> i < length buffer \<Longrightarrow> bit (buffer ! i) j \<Longrightarrow> 64 * i + j < width"
proof -
  assume ok: "bitmap_ok width buffer" and i: "i < length buffer" "bit (buffer ! i) j"
  then have "j < 64" using bit_imp_le_length [of "buffer ! i" j] by simp
  then have "64 * i + j \<in> bitmap_set buffer" using i by simp
  then show ?thesis using ok unfolding bitmap_ok_def by blast
qed

lemma set_bit_set:
  assumes "n < width" and "length buffer = ARRAY_ELEMENTS width"
  shows "\<exists>b. Bitmap_set_bit debug width n buffer = Some b \<and> length b = length buffer \<and>
    bitmap_set b = insert n (bitmap_set buffer)"
proof -
  have "n div 64 < length buffer" using assms elements(1) [of width n] by simp
  then show ?thesis
    using assms by (auto simp: Bitmap_set_bit_def bit_at element_def nth_list_update bit_or_iff bit_shl same_bit
        set_eq_iff)
qed

lemma clear_bit_set:
  assumes "n < width" and "length buffer = ARRAY_ELEMENTS width"
  shows "\<exists>b. Bitmap_clear_bit debug width n buffer = Some b \<and> length b = length buffer \<and>
    bitmap_set b = bitmap_set buffer - {n}"
proof -
  have "n div 64 < length buffer" using assms elements(1) [of width n] by simp
  then show ?thesis
    using assms by (auto simp: Bitmap_clear_bit_def bit_at element_def nth_list_update bit_and_iff bit_not_iff bit_shl
        same_bit set_eq_iff)
qed

lemma is_set_set:
  assumes "n < width" and "length buffer = ARRAY_ELEMENTS width"
  shows "Bitmap_is_set debug width n buffer = Some (n \<in> bitmap_set buffer)"
proof -
  have "n div 64 < length buffer" using assms elements(1) [of width n] by simp
  then show ?thesis
    using assms and_shl [of "n mod 64"] by (simp add: Bitmap_is_set_def bit_at element_def)
qed

lemma prefix_elements:
  assumes "n \<le> width"
  shows "n div 64 \<le> ARRAY_ELEMENTS width" and "n mod 64 \<noteq> 0 \<Longrightarrow> n div 64 < ARRAY_ELEMENTS width"
proof -
  have le: "(n + 63) div 64 \<le> ARRAY_ELEMENTS width"
    using assms by (simp add: ARRAY_ELEMENTS_def BITS_PER_ELEMENT_def div_le_mono)
  have "n div 64 \<le> (n + 63) div 64" by (rule div_le_mono) simp
  with le show "n div 64 \<le> ARRAY_ELEMENTS width" by simp
  assume "n mod 64 \<noteq> 0"
  then have "0 < n mod 64" by simp
  then have "Suc (n div 64) * 64 \<le> n + 63" using div_mult_mod_eq [of n 64] by (simp only: mult_Suc)
  then have "n div 64 < (n + 63) div 64" by (simp add: Suc_le_eq [symmetric] less_eq_div_iff_mult_less_eq)
  with le show "n div 64 < ARRAY_ELEMENTS width" by simp
qed

lemma below_split: "x < p \<longleftrightarrow> x div 64 < p div 64 \<or> x div 64 = p div 64 \<and> x mod 64 < p mod 64" for x p :: nat
proof (cases "x div 64 = p div 64")
  case True
  then show ?thesis using div_mult_mod_eq [of x 64] div_mult_mod_eq [of p 64] by (metis add_less_cancel_left less_irrefl)
next
  case False
  then show ?thesis using div_le_mono [of x p 64] div_le_mono [of p x 64] by auto
qed

lemma set_prefix_set:
  assumes "length buffer = ARRAY_ELEMENTS width" and "debug \<Longrightarrow> n < width \<or> width mod 64 = 0"
  shows "\<exists>b. Bitmap_set_prefix debug width n buffer = Some b \<and> length b = length buffer \<and>
    bitmap_set b = {..<min n width}"
proof -
  obtain p where p: "min n width = p" "p \<le> width" by simp
  have n: "(if n > width then width else n) = p" using p by auto
  have le: "p div 64 \<le> length buffer" "p mod 64 \<noteq> 0 \<Longrightarrow> p div 64 < length buffer"
    using assms(1) prefix_elements [OF p(2)] by simp_all
  show ?thesis
  proof (cases "p mod 64 = 0")
    case True
    then show ?thesis
      unfolding Bitmap_set_prefix_def n p(1) Let_def
      using assms(1) le(1) by (auto simp: loops set_eq_iff below_split [of _ p])
  next
    case False
    have "last_element_mask debug width p = Some (mask (p mod 64))"
      using False assms(2) p by (intro last_mask; cases "n < width") auto
    then show ?thesis
      unfolding Bitmap_set_prefix_def n p(1) Let_def
      using False assms(1) le
      by (auto simp: loops nth_list_update set_eq_iff bit_mask_iff below_split [of _ p])
  qed
qed

lemma at_most_one: "0 < width \<Longrightarrow> \<not> Suc 0 < ARRAY_ELEMENTS width \<Longrightarrow> ARRAY_ELEMENTS width = Suc 0"
  using elements(2) [of width] by linarith

lemma full_width: "width mod 64 = 0 \<Longrightarrow> 64 * ARRAY_ELEMENTS width = width"
  by (auto simp: ARRAY_ELEMENTS_def BITS_PER_ELEMENT_def elim!: dvdE)

lemma partial_width:
  assumes "width mod 64 \<noteq> 0"
  shows "ARRAY_ELEMENTS width = Suc (width div 64)"
proof (rule antisym)
  have "(width + 63) div 64 \<le> (width + 64) div 64" by (rule div_le_mono) simp
  then show "ARRAY_ELEMENTS width \<le> Suc (width div 64)" by (simp add: ARRAY_ELEMENTS_def BITS_PER_ELEMENT_def)
  show "Suc (width div 64) \<le> ARRAY_ELEMENTS width"
    using prefix_elements(2) [of width width] assms by (simp add: Suc_le_eq)
qed

lemma update_single: "length buffer = Suc 0 \<Longrightarrow> buffer[0 := x] = replicate (Suc 0) x"
  by (cases buffer) simp_all

lemma replicate_sets: "bitmap_set (replicate k ALL_BITS_SET) = {..<64 * k}" "bitmap_set (replicate k 0) = {}"
  by (auto simp: set_eq_iff)

lemma set_all_set:
  assumes "0 < width" and "length buffer = ARRAY_ELEMENTS width" and "debug \<Longrightarrow> width mod 64 = 0"
  shows "\<exists>b. Bitmap_set_all debug width buffer = Some b \<and> length b = length buffer \<and> bitmap_set b = {..<width}"
proof (cases "width mod 64 = 0")
  case True
  have "Bitmap_set_all debug width buffer = Some (replicate (ARRAY_ELEMENTS width) ALL_BITS_SET)"
    using True assms at_most_one [OF assms(1)] update_single [of buffer]
    by (auto simp: Bitmap_set_all_def BITS_PER_ELEMENT_def)
  then show ?thesis using assms(2) full_width [OF True] by (simp add: replicate_sets del: mem_bitmap)
next
  case False
  then show ?thesis
    using set_prefix_set [OF assms(2), of debug width] assms(3) by (auto simp: Bitmap_set_all_def BITS_PER_ELEMENT_def)
qed

lemma clear_all_set:
  assumes "0 < width" and "length buffer = ARRAY_ELEMENTS width"
  shows "length (Bitmap_clear_all width buffer) = length buffer" and "bitmap_set (Bitmap_clear_all width buffer) = {}"
  using assms at_most_one [OF assms(1)] by (auto simp: Bitmap_clear_all_def nth_list_update)

lemma pointwise_set:
  assumes "length a = ARRAY_ELEMENTS width" and "length b = ARRAY_ELEMENTS width"
  shows "length (Bitmap_intersect width b a) = length a"
    and "bitmap_set (Bitmap_intersect width b a) = bitmap_set a \<inter> bitmap_set b"
    and "length (Bitmap_subtract width b a) = length a"
    and "bitmap_set (Bitmap_subtract width b a) = bitmap_set a - bitmap_set b"
    and "length (Bitmap_merge width b a) = length a"
    and "bitmap_set (Bitmap_merge width b a) = bitmap_set a \<union> bitmap_set b"
  using assms by (auto simp: Bitmap_intersect_def Bitmap_subtract_def Bitmap_merge_def loops bit_simps)

lemma less_Suc_last: "a < Suc b \<and> (a = b \<longrightarrow> P) \<longleftrightarrow> a < b \<or> a = b \<and> P"
  by auto

lemma intersect_and_pad_set:
  assumes "0 < width" and "bitmap_ok width buffer" and "debug \<Longrightarrow> width mod 64 = 0"
  shows "\<exists>b. intersect_and_pad debug width m pad buffer = Some b \<and> length b = length buffer \<and>
    bitmap_set b = {n \<in> bitmap_set buffer. n < 64 \<and> bit m n} \<union> (if pad then {64..<width} else {})"
proof -
  define N where "N = ARRAY_ELEMENTS width"
  have len: "length buffer = N" "0 < N"
    using assms elements(2) by (simp_all add: bitmap_ok_def N_def)
  have n64: "n div 64 = 0 \<longleftrightarrow> n < 64" "0 < n div 64 \<longleftrightarrow> 64 \<le> n" for n :: nat by auto
  show ?thesis
  proof (cases "Suc 0 < N \<and> width mod 64 \<noteq> 0 \<and> pad")
    case True
    then have nd: "\<not> debug" using assms(3) by auto
    have lm: "last_element_mask debug width width = Some (mask (width mod 64))"
      using True nd by (intro last_mask) auto
    have N: "N = Suc (width div 64)" using True partial_width N_def by simp
    have eq: "intersect_and_pad debug width m pad buffer =
      Some ((for_elements 1 N (\<lambda>i _. ALL_BITS_SET) (buffer[0 := buffer ! 0 AND m]))[N - 1 := mask (width mod 64)])"
      using True lm len by (simp add: intersect_and_pad_def element_def Let_def BITS_PER_ELEMENT_def N_def)
    define b where "b = (for_elements 1 N (\<lambda>i _. ALL_BITS_SET) (buffer[0 := buffer ! 0 AND m]))[N - 1 := mask (width mod 64)]"
    have mem: "n \<in> bitmap_set b \<longleftrightarrow> n \<in> {n \<in> bitmap_set buffer. n < 64 \<and> bit m n} \<union> {64..<width}" for n
    proof (cases "n < 64")
      case False
      then have d: "0 < n div 64" using n64 by simp
      have "b ! i = (if i = N - 1 then mask (width mod 64) else ALL_BITS_SET)" if "0 < i" "i < N" for i
        using that len by (simp add: b_def nth_for_elements nth_list_update)
      with d have "n \<in> bitmap_set b \<longleftrightarrow> n div 64 < N \<and> (n div 64 = width div 64 \<longrightarrow> n mod 64 < width mod 64)"
        using len N by (auto simp: b_def [symmetric] bit_mask_iff) (simp_all add: b_def)
      also have "\<dots> \<longleftrightarrow> n < width" unfolding N below_split [of n width] by (rule less_Suc_last)
      finally show ?thesis using False by simp
    qed (use len True in \<open>auto simp: b_def nth_for_elements nth_list_update bit_and_iff\<close>)
    have "length b = length buffer" by (simp add: b_def)
    moreover have "bitmap_set b = {n \<in> bitmap_set buffer. n < 64 \<and> bit m n} \<union> {64..<width}"
      by (rule set_eqI) (rule mem)
    ultimately show ?thesis using eq True unfolding b_def [symmetric] by simp
  next
    case False
    have "intersect_and_pad debug width m pad buffer =
      Some (for_elements 1 N (\<lambda>i _. if pad then ALL_BITS_SET else 0) (buffer[0 := buffer ! 0 AND m]))"
      using False len by (auto simp: intersect_and_pad_def element_def Let_def BITS_PER_ELEMENT_def N_def)
    moreover have "n div 64 < N \<longleftrightarrow> n < width" if "64 \<le> n" "pad" for n
    proof (cases "width mod 64 = 0")
      case True
      then have "width = 64 * N" using full_width N_def by simp
      then show ?thesis by auto
    next
      case part: False
      then have "N = Suc 0" using False that len by auto
      then show ?thesis using that elements(4) [of width] N_def by auto
    qed
    ultimately show ?thesis
      using len n64 by (auto simp: loops nth_list_update set_eq_iff bit_simps split: if_splits)
  qed
qed

section \<open>What each query says of the set\<close>

lemma all_elements:
  assumes "length a = ARRAY_ELEMENTS width"
  shows "list_ex (\<lambda>i. f i \<noteq> (0 :: ulonglong)) [0..<ARRAY_ELEMENTS width] \<longleftrightarrow>
    (\<exists>n. n div 64 < length a \<and> bit (f (n div 64)) (n mod 64))"
proof
  assume "list_ex (\<lambda>i. f i \<noteq> 0) [0..<ARRAY_ELEMENTS width]"
  then obtain i j where "i < length a" "j < 64" "bit (f i) j" using assms by (auto simp: list_ex_iff zero_eq)
  then have "(64 * i + j) div 64 < length a \<and> bit (f ((64 * i + j) div 64)) ((64 * i + j) mod 64)" by simp
  then show "\<exists>n. n div 64 < length a \<and> bit (f (n div 64)) (n mod 64)" by blast
next
  assume "\<exists>n. n div 64 < length a \<and> bit (f (n div 64)) (n mod 64)"
  then show "list_ex (\<lambda>i. f i \<noteq> 0) [0..<ARRAY_ELEMENTS width]"
    using assms by (auto simp: list_ex_iff intro!: bexI [of _ "n div 64" for n])
qed

lemma queries_set:
  assumes "length a = ARRAY_ELEMENTS width" and "length b = ARRAY_ELEMENTS width" and "0 < width"
  shows "Bitmap_is_clear_all width a \<longleftrightarrow> bitmap_set a = {}"
    and "Bitmap_is_subset width a b \<longleftrightarrow> bitmap_set a \<subseteq> bitmap_set b"
    and "Bitmap_is_overlapping width a b \<longleftrightarrow> bitmap_set a \<inter> bitmap_set b \<noteq> {}"
    and "Bitmap_eq width a b \<longleftrightarrow> bitmap_set a = bitmap_set b"
proof -
  show "Bitmap_is_clear_all width a \<longleftrightarrow> bitmap_set a = {}"
    unfolding Bitmap_is_clear_all_def all_elements [OF assms(1)] by auto
  show "Bitmap_is_subset width a b \<longleftrightarrow> bitmap_set a \<subseteq> bitmap_set b"
    unfolding Bitmap_is_subset_def all_elements [OF assms(1)] using assms by (auto simp: bit_and_iff bit_not_iff)
  show "Bitmap_is_overlapping width a b \<longleftrightarrow> bitmap_set a \<inter> bitmap_set b \<noteq> {}"
    unfolding Bitmap_is_overlapping_def all_elements [OF assms(1)] using assms by (auto simp: bit_and_iff)
  have "Bitmap_eq width a b \<longleftrightarrow> a = b"
    using assms at_most_one [OF assms(3)]
    by (cases "Suc 0 < ARRAY_ELEMENTS width") (auto simp: Bitmap_eq_def list_all_iff list_eq_iff_nth_eq)
  also have "\<dots> \<longleftrightarrow> bitmap_set a = bitmap_set b" using bitmap_eqI assms(1,2) by metis
  finally show "Bitmap_eq width a b \<longleftrightarrow> bitmap_set a = bitmap_set b" .
qed

lemma exists_below: "i < m \<Longrightarrow> P i \<Longrightarrow>
  \<exists>i. (m = i \<longrightarrow> Q i) \<and> (m \<noteq> i \<longrightarrow> (Suc m \<le> i \<longrightarrow> R i) \<and> (\<not> Suc m \<le> i \<longrightarrow> P i))"
  by (rule exI [of _ i]) simp

lemma is_prefix_eq:
  assumes "length buffer = ARRAY_ELEMENTS width" and "n \<le> width" and "debug \<Longrightarrow> n < width \<or> width mod 64 = 0"
  shows "Bitmap_is_prefix debug width n buffer = map_option (\<lambda>b. buffer = b) (Bitmap_set_prefix debug width n buffer)"
proof -
  have le: "n div 64 \<le> length buffer" "n mod 64 \<noteq> 0 \<Longrightarrow> n div 64 < length buffer"
    using assms(1) prefix_elements [OF assms(2)] by simp_all
  have n: "(if n > width then width else n) = n" using assms(2) by simp
  show ?thesis
  proof (cases "n mod 64 = 0")
    case True
    then show ?thesis
      unfolding Bitmap_is_prefix_def Bitmap_set_prefix_def n Let_def
      using assms le by (auto simp: loops dbug_assert_def list_ex_iff list_eq_iff_nth_eq) (meson leD)
  next
    case False
    have "last_element_mask debug width n = Some (mask (n mod 64))"
      using False assms(2,3) by (intro last_mask; cases "n < width") auto
    then show ?thesis
      unfolding Bitmap_is_prefix_def Bitmap_set_prefix_def n Let_def
      using False assms le
      by (auto simp: loops dbug_assert_def element_def nth_list_update list_ex_iff list_eq_iff_nth_eq intro: exists_below)
  qed
qed

lemma is_prefix_set:
  assumes "length buffer = ARRAY_ELEMENTS width" and "n \<le> width" and "debug \<Longrightarrow> n < width \<or> width mod 64 = 0"
  shows "Bitmap_is_prefix debug width n buffer = Some (bitmap_set buffer = {..<n})"
proof -
  from set_prefix_set [OF assms(1,3)] assms(2) obtain b
    where "Bitmap_set_prefix debug width n buffer = Some b" "length b = length buffer" "bitmap_set b = {..<n}"
    by (auto simp: min_absorb1)
  then show ?thesis using is_prefix_eq [OF assms] bitmap_eqI by (auto simp del: mem_bitmap)
qed

lemma first_bit_found: "x \<noteq> 0 \<Longrightarrow> \<exists>r. my_find_first_bit x = Some r \<and> first_bit x r"
  using find_bit_loop_first [of 0 x] by (simp add: my_find_first_bit_def)

lemma find_first_bit_set:
  assumes "length buffer = ARRAY_ELEMENTS width"
  shows "\<exists>r. Bitmap_find_first_bit width buffer = Some r \<and>
    (if bitmap_set buffer = {} then r = width else r \<in> bitmap_set buffer \<and> (\<forall>n\<in>bitmap_set buffer. r \<le> n))"
proof (cases "find (\<lambda>i. buffer ! i \<noteq> 0) [0..<ARRAY_ELEMENTS width]")
  case None
  then have "bitmap_set buffer = {}" using assms by (auto simp: find_None_iff)
  with None show ?thesis by (simp add: Bitmap_find_first_bit_def)
next
  case (Some i)
  then have i: "i < length buffer" "buffer ! i \<noteq> 0" "\<And>k. k < i \<Longrightarrow> buffer ! k = 0"
    using assms by (auto simp: find_Some_iff)
  from first_bit_found [OF i(2)] obtain r
    where r: "my_find_first_bit (buffer ! i) = Some r" "bit (buffer ! i) r" "\<And>j. j < r \<Longrightarrow> \<not> bit (buffer ! i) j"
    by (auto simp: first_bit_def)
  have "r < 64" using bit_imp_le_length [OF r(2)] by simp
  then have mem: "64 * i + r \<in> bitmap_set buffer" using i(1) r(2) by simp
  have "64 * i + r \<le> n" if n: "n \<in> bitmap_set buffer" for n
  proof (cases "n div 64 = i")
    case True
    with n have "r \<le> n mod 64" using r(3) [of "n mod 64"] by (auto simp: not_less [symmetric])
    then show ?thesis using True div_mult_mod_eq [of n 64] by linarith
  next
    case False
    with n have "\<not> n div 64 < i" using i(3) [of "n div 64"] by auto
    with False have "Suc i \<le> n div 64" by simp
    then show ?thesis using \<open>r < 64\<close> div_mult_mod_eq [of n 64] by linarith
  qed
  then show ?thesis using Some r(1) mem
    by (auto simp: Bitmap_find_first_bit_def BITS_PER_ELEMENT_def mult.commute simp del: mem_bitmap)
qed

text \<open>The bits of a word, and the part of the set one element holds.\<close>

definition word_set :: "ulonglong \<Rightarrow> nat set" where
  "word_set x = {j. bit x j}"

lemma word_set_low: "j \<in> word_set x \<Longrightarrow> j < 64"
  using bit_imp_le_length [of x j] by (simp add: word_set_def)

lemma word_set_at:
  assumes "i < length buffer"
  shows "(+) (64 * i) ` word_set (buffer ! i) = {n \<in> bitmap_set buffer. 64 * i \<le> n \<and> n < 64 * i + 64}"
proof (intro set_eqI iffI)
  fix n assume "n \<in> (+) (64 * i) ` word_set (buffer ! i)"
  then obtain j where "j \<in> word_set (buffer ! i)" "n = 64 * i + j" by auto
  then show "n \<in> {n \<in> bitmap_set buffer. 64 * i \<le> n \<and> n < 64 * i + 64}"
    using word_set_low [of j] bitmap_bit [OF assms, of j] by (simp add: word_set_def del: mem_bitmap)
next
  fix n assume "n \<in> {n \<in> bitmap_set buffer. 64 * i \<le> n \<and> n < 64 * i + 64}"
  then show "n \<in> (+) (64 * i) ` word_set (buffer ! i)"
    using bitmap_bit [OF assms, of "n - 64 * i"]
    by (auto simp: word_set_def simp del: mem_bitmap intro!: image_eqI [of _ _ "n - 64 * i"])
qed

lemma card_element:
  assumes "i < length buffer"
  shows "card {n \<in> bitmap_set buffer. n < 64 * Suc i} =
    card {n \<in> bitmap_set buffer. n < 64 * i} + card {j. bit (buffer ! i) j}"
proof -
  let ?lo = "{n \<in> bitmap_set buffer. n < 64 * i}"
  let ?hi = "{n \<in> bitmap_set buffer. 64 * i \<le> n \<and> n < 64 * i + 64}"
  have "{n \<in> bitmap_set buffer. n < 64 * Suc i} = ?lo \<union> ?hi" by (auto simp del: mem_bitmap)
  moreover have "card (?lo \<union> ?hi) = card ?lo + card ?hi" by (rule card_Un_disjoint) auto
  moreover have "card ?hi = card {j. bit (buffer ! i) j}"
    unfolding word_set_at [OF assms, symmetric] word_set_def by (rule card_image) (simp add: inj_on_def)
  ultimately show ?thesis by simp
qed

lemma bits_set_card:
  assumes "length buffer = ARRAY_ELEMENTS width"
  shows "Bitmap_bits_set width buffer = of_nat (card (bitmap_set buffer))"
proof -
  have count: "my_count_bits x = of_nat (card {j. bit x j})" for x
    unfolding count_bits_card [symmetric] by simp
  have "fold (\<lambda>i res. if buffer ! i \<noteq> 0 then res + my_count_bits (buffer ! i) else res) [0..<k] 0 =
      (of_nat (card {n \<in> bitmap_set buffer. n < 64 * k}) :: 32 word)" if "k \<le> length buffer" for k
    using that
  proof (induction k)
    case (Suc k)
    then show ?case using card_element [of k buffer] count by (cases "buffer ! k = 0") simp_all
  qed simp
  moreover have "{n \<in> bitmap_set buffer. n < 64 * length buffer} = bitmap_set buffer" by auto
  ultimately show ?thesis using assms by (simp add: Bitmap_bits_set_def)
qed

section \<open>Walking over the bits\<close>

lemma next_bit_set:
  "\<exists>r y. Table_map_next_bit x = Some (r, y) \<and>
    (if x = 0 then r = 64 \<and> y = 0
     else r < 64 \<and> r \<in> word_set x \<and> (\<forall>j\<in>word_set x. r \<le> j) \<and> word_set y = word_set x - {r})"
proof (cases "x = 0")
  case False
  from first_bit_found [OF this] obtain r
    where r: "my_find_first_bit x = Some r" "bit x r" "\<And>j. j < r \<Longrightarrow> \<not> bit x j"
    by (auto simp: first_bit_def)
  have "r < 64" using bit_imp_le_length [OF r(2)] by simp
  moreover have "j < 64" if "bit x j" for j using bit_imp_le_length [OF that] by simp
  ultimately show ?thesis
    using False r by (auto simp: Table_map_next_bit_def shl_bit word_set_def bit_and_iff bit_not_iff bit_shl
        not_less [symmetric])
qed (simp add: Table_map_next_bit_def)

text \<open>The bits an iterator has not given yet.\<close>

definition pending :: "bitmap \<Rightarrow> bitmap_iterator \<Rightarrow> nat set" where
  "pending buffer it = (+) (offset it) ` word_set (tmi it) \<union> {n \<in> bitmap_set buffer. offset it + 64 \<le> n}"

definition iterator_ok :: "nat \<Rightarrow> bitmap_iterator \<Rightarrow> bool" where
  "iterator_ok width it \<longleftrightarrow> 64 dvd offset it \<and> offset it < width \<and> (\<forall>j\<in>word_set (tmi it). offset it + j < width)"

lemma pending_finite:
  assumes "bitmap_ok width buffer" and "iterator_ok width it"
  shows "finite (pending buffer it)"
proof -
  have "pending buffer it \<subseteq> {..<width}"
    using assms by (auto simp: pending_def bitmap_ok_def iterator_ok_def)
  then show ?thesis by (rule finite_subset) simp
qed

text \<open>When the word of the iterator is used up, the next element takes its place.\<close>

lemma pending_next_element:
  assumes "bitmap_ok width buffer" and "offset it = 64 * k" and "offset it + 64 < width" and "tmi it = 0"
  shows "Suc k < length buffer"
    and "pending buffer \<lparr>offset = offset it + 64, tmi = buffer ! Suc k\<rparr> = pending buffer it"
    and "iterator_ok width \<lparr>offset = offset it + 64, tmi = buffer ! Suc k\<rparr>"
proof -
  have "(64 * k + 64) div 64 < ARRAY_ELEMENTS width"
    using assms elements(1) [of width "64 * k + 64"] by simp
  then show k: "Suc k < length buffer" using assms(1) by (simp add: bitmap_ok_def)
  have at: "(+) (64 * k + 64) ` word_set (buffer ! Suc k) = {n \<in> bitmap_set buffer. 64 * k + 64 \<le> n \<and> n < 64 * k + 128}"
    using word_set_at [OF k] by (simp add: add.commute)
  then show "pending buffer \<lparr>offset = offset it + 64, tmi = buffer ! Suc k\<rparr> = pending buffer it"
    using assms by (auto simp: pending_def word_set_def simp del: mem_bitmap)
  have "64 * k + 64 + j < width" if "j \<in> word_set (buffer ! Suc k)" for j
  proof -
    have "64 * k + 64 + j \<in> (+) (64 * k + 64) ` word_set (buffer ! Suc k)" using that by simp
    then show ?thesis unfolding at using assms(1) by (auto simp: bitmap_ok_def simp del: mem_bitmap)
  qed
  then show "iterator_ok width \<lparr>offset = offset it + 64, tmi = buffer ! Suc k\<rparr>"
    using assms by (simp add: iterator_ok_def)
qed

lemma iterator_next_pending:
  assumes "bitmap_ok width buffer" and "iterator_ok width it"
  shows "\<exists>r it'. Bitmap_iterator_next width buffer it = Some (r, it') \<and>
    (if pending buffer it = {} then r = width
     else r = Min (pending buffer it) \<and> r < width \<and> pending buffer it' = pending buffer it - {r} \<and> iterator_ok width it')"
  using assms(2)
proof (induction "width - offset it" arbitrary: it rule: less_induct)
  case less
  from next_bit_set [of "tmi it"] obtain r y where n: "Table_map_next_bit (tmi it) = Some (r, y)"
    "if tmi it = 0 then r = 64 \<and> y = 0
     else r < 64 \<and> r \<in> word_set (tmi it) \<and> (\<forall>j\<in>word_set (tmi it). r \<le> j) \<and> word_set y = word_set (tmi it) - {r}"
    by blast
  show ?case
  proof (cases "tmi it = 0")
    case False
    with n(2) have r: "r < 64" "r \<in> word_set (tmi it)" "\<forall>j\<in>word_set (tmi it). r \<le> j"
      "word_set y = word_set (tmi it) - {r}" by simp_all
    have step: "Bitmap_iterator_next width buffer it = Some (offset it + r, it\<lparr>tmi := y\<rparr>)"
      using n(1) r(1) by (simp add: Bitmap_iterator_next.simps [of _ _ it])
    have mem: "offset it + r \<in> pending buffer it" using r(2) by (simp add: pending_def)
    have "Min (pending buffer it) = offset it + r"
      using mem r(1,3) by (intro Min_eqI pending_finite [OF assms(1) less(2)]) (auto simp: pending_def)
    moreover have "pending buffer (it\<lparr>tmi := y\<rparr>) = pending buffer it - {offset it + r}"
    proof -
      have "(+) (offset it) ` word_set y = (+) (offset it) ` word_set (tmi it) - {offset it + r}"
        unfolding r(4) by (subst image_set_diff) (simp_all add: inj_on_def)
      moreover have "offset it + r \<notin> {n \<in> bitmap_set buffer. offset it + 64 \<le> n}"
        using r(1) by simp
      ultimately show ?thesis unfolding pending_def by (simp add: Un_Diff)
    qed
    moreover have "iterator_ok width (it\<lparr>tmi := y\<rparr>)" "offset it + r < width"
      using less(2) r(2,4) by (auto simp: iterator_ok_def)
    ultimately show ?thesis using step mem by auto
  next
    case True
    show ?thesis
    proof (cases "offset it + 64 \<ge> width")
      case stop: True
      have "pending buffer it = {}"
        using stop True assms(1) by (auto simp: pending_def word_set_def bitmap_ok_def simp del: mem_bitmap)
      then show ?thesis
        using n stop True by (simp add: Bitmap_iterator_next.simps [of _ _ it] BITS_PER_ELEMENT_def)
    next
      case more: False
      obtain k where k: "offset it = 64 * k" using less(2) by (auto simp: iterator_ok_def elim: dvdE)
      let ?it = "\<lparr>offset = offset it + 64, tmi = buffer ! Suc k\<rparr>"
      have lt: "offset it + 64 < width" using more by simp
      note next_ = pending_next_element [OF assms(1) k lt True]
      have step: "Bitmap_iterator_next width buffer it = Bitmap_iterator_next width buffer ?it"
        using n more True next_(1) k by (simp add: Bitmap_iterator_next.simps [of _ _ it] BITS_PER_ELEMENT_def element_def)
      have "width - offset ?it < width - offset it" using more by simp
      from less(1) [OF this next_(3)] show ?thesis
        unfolding step next_(2) .
    qed
  qed
qed

text \<open>What a loop over an iterator sees: the bits until \<open>BITMAP_END\<close>.\<close>

fun iterate :: "nat \<Rightarrow> nat \<Rightarrow> bitmap \<Rightarrow> bitmap_iterator \<Rightarrow> nat list option" where
  "iterate 0 width buffer it = None"
| "iterate (Suc fuel) width buffer it =
     (case Bitmap_iterator_next width buffer it of
        None \<Rightarrow> None
      | Some (r, it') \<Rightarrow> if r = width then Some [] else map_option ((#) r) (iterate fuel width buffer it'))"

lemma iterate_pending:
  assumes "bitmap_ok width buffer" and "iterator_ok width it"
  shows "iterate (Suc (card (pending buffer it))) width buffer it = Some (sorted_list_of_set (pending buffer it))"
  using assms(2)
proof (induction "card (pending buffer it)" arbitrary: it)
  case 0
  then have "pending buffer it = {}" using pending_finite [OF assms(1) 0(2)] by simp
  then show ?case using iterator_next_pending [OF assms(1) 0(2)] by auto
next
  case (Suc n)
  let ?S = "pending buffer it"
  have fin: "finite ?S" and ne: "?S \<noteq> {}" using pending_finite [OF assms(1) Suc(3)] Suc(2) by auto
  from iterator_next_pending [OF assms(1) Suc(3)] ne obtain it'
    where it': "Bitmap_iterator_next width buffer it = Some (Min ?S, it')" "Min ?S < width"
      "pending buffer it' = ?S - {Min ?S}" "iterator_ok width it'" by auto
  have n: "n = card (pending buffer it')" using it'(3) fin ne Suc(2) by (simp add: card_Diff_singleton)
  have rest: "iterate (Suc n) width buffer it' = Some (sorted_list_of_set (?S - {Min ?S}))"
    using Suc(1) [OF n it'(4)] n it'(3) by (simp del: iterate.simps)
  show ?case
    unfolding Suc(2) [symmetric] iterate.simps(2) [of "Suc n"] it'(1) sorted_list_of_set_nonempty [OF fin ne]
    using rest it'(2) by (simp del: iterate.simps)
qed

lemma fresh_iterator:
  assumes "0 < width" and "bitmap_ok width buffer"
  shows "iterator_ok width (Bitmap_iterator buffer)" and "pending buffer (Bitmap_iterator buffer) = bitmap_set buffer"
proof -
  have len: "0 < length buffer" using assms elements(2) by (simp add: bitmap_ok_def)
  have at: "word_set (buffer ! 0) = {n \<in> bitmap_set buffer. n < 64}"
    using word_set_at [OF len] by simp
  have "pending buffer (Bitmap_iterator buffer) = word_set (buffer ! 0) \<union> {n \<in> bitmap_set buffer. 64 \<le> n}"
    by (simp add: pending_def Bitmap_iterator_def del: mem_bitmap)
  also have "\<dots> = {n \<in> bitmap_set buffer. n < 64 \<or> 64 \<le> n}"
    unfolding at by (rule Collect_disj_eq [symmetric, THEN trans]) (simp only: conj_disj_distribL)
  also have "\<dots> = bitmap_set buffer" by (simp add: not_less [symmetric] del: mem_bitmap)
  finally show "pending buffer (Bitmap_iterator buffer) = bitmap_set buffer" .
  show "iterator_ok width (Bitmap_iterator buffer)"
    using at assms by (auto simp: iterator_ok_def Bitmap_iterator_def bitmap_ok_def simp del: mem_bitmap)
qed

section \<open>Sequences of operations\<close>

datatype bitmap_op =
    Set_bit nat | Clear_bit nat | Set_prefix nat | Set_all | Clear_all
  | Intersect bitmap | Intersect_ull ulonglong | Intersect_extended ulonglong
  | Subtract bitmap | Merge bitmap

primrec bitmap_exec :: "bool \<Rightarrow> nat \<Rightarrow> bitmap_op \<Rightarrow> bitmap \<Rightarrow> bitmap option" where
  "bitmap_exec debug width (Set_bit n) b = Bitmap_set_bit debug width n b"
| "bitmap_exec debug width (Clear_bit n) b = Bitmap_clear_bit debug width n b"
| "bitmap_exec debug width (Set_prefix n) b = Bitmap_set_prefix debug width n b"
| "bitmap_exec debug width Set_all b = Bitmap_set_all debug width b"
| "bitmap_exec debug width Clear_all b = Some (Bitmap_clear_all width b)"
| "bitmap_exec debug width (Intersect m) b = Some (Bitmap_intersect width m b)"
| "bitmap_exec debug width (Intersect_ull w) b = Bitmap_intersect_ull debug width w b"
| "bitmap_exec debug width (Intersect_extended w) b = Bitmap_intersect_extended debug width w b"
| "bitmap_exec debug width (Subtract m) b = Some (Bitmap_subtract width m b)"
| "bitmap_exec debug width (Merge m) b = Some (Bitmap_merge width m b)"

text \<open>The same operations on sets of numbers below the width.\<close>

primrec set_exec :: "nat \<Rightarrow> bitmap_op \<Rightarrow> nat set \<Rightarrow> nat set" where
  "set_exec width (Set_bit n) S = insert n S"
| "set_exec width (Clear_bit n) S = S - {n}"
| "set_exec width (Set_prefix n) S = {..<min n width}"
| "set_exec width Set_all S = {..<width}"
| "set_exec width Clear_all S = {}"
| "set_exec width (Intersect m) S = S \<inter> bitmap_set m"
| "set_exec width (Intersect_ull w) S = {n \<in> S. n < 64 \<and> bit w n}"
| "set_exec width (Intersect_extended w) S =
     {n \<in> S. n < 64 \<and> bit w n} \<union> (if bit w 63 then {64..<width} else {})"
| "set_exec width (Subtract m) S = S - bitmap_set m"
| "set_exec width (Merge m) S = S \<union> bitmap_set m"

primrec op_ok :: "nat \<Rightarrow> bitmap_op \<Rightarrow> bool" where
  "op_ok width (Set_bit n) \<longleftrightarrow> n < width"
| "op_ok width (Clear_bit n) \<longleftrightarrow> n < width"
| "op_ok width (Set_prefix n) \<longleftrightarrow> True"
| "op_ok width Set_all \<longleftrightarrow> True"
| "op_ok width Clear_all \<longleftrightarrow> True"
| "op_ok width (Intersect m) \<longleftrightarrow> bitmap_ok width m"
| "op_ok width (Intersect_ull w) \<longleftrightarrow> True"
| "op_ok width (Intersect_extended w) \<longleftrightarrow> True"
| "op_ok width (Subtract m) \<longleftrightarrow> bitmap_ok width m"
| "op_ok width (Merge m) \<longleftrightarrow> bitmap_ok width m"

text \<open>The widths a build supports: with assertions, only multiples of 64.\<close>

definition width_ok :: "bool \<Rightarrow> nat \<Rightarrow> bool" where
  "width_ok debug width \<longleftrightarrow> 0 < width \<and> (debug \<longrightarrow> width mod 64 = 0)"

lemma exec_refines:
  assumes "width_ok debug width" and "bitmap_ok width b" and "op_ok width op"
  shows "\<exists>b'. bitmap_exec debug width op b = Some b' \<and> bitmap_ok width b' \<and>
    bitmap_set b' = set_exec width op (bitmap_set b)"
proof -
  have w: "0 < width" "debug \<Longrightarrow> width mod 64 = 0" "debug \<Longrightarrow> n < width \<or> width mod 64 = 0" for n
    using assms(1) by (auto simp: width_ok_def)
  have len: "length b = ARRAY_ELEMENTS width" and sub: "bitmap_set b \<subseteq> {..<width}"
    using assms(2) by (auto simp: bitmap_ok_def)
  have pad: "\<exists>b'. intersect_and_pad debug width m pad b = Some b' \<and> bitmap_ok width b' \<and>
    bitmap_set b' = {n \<in> bitmap_set b. n < 64 \<and> bit m n} \<union> (if pad then {64..<width} else {})" for m pad
  proof -
    have "{n \<in> bitmap_set b. n < 64 \<and> bit m n} \<union> (if pad then {64..<width} else {}) \<subseteq> {..<width}"
      using sub by (auto simp del: mem_bitmap)
    then show ?thesis
      using intersect_and_pad_set [OF w(1) assms(2) w(2), of debug m pad] len by (auto simp: bitmap_ok_def simp del: mem_bitmap)
  qed
  show ?thesis
  proof (cases op)
    case (Set_bit n)
    then show ?thesis using set_bit_set [OF _ len, of n debug] assms(3) len sub
      by (auto simp: bitmap_ok_def simp del: mem_bitmap)
  next
    case (Clear_bit n)
    then show ?thesis using clear_bit_set [OF _ len, of n debug] assms(3) len sub
      by (auto simp: bitmap_ok_def simp del: mem_bitmap)
  next
    case (Set_prefix n)
    then show ?thesis using set_prefix_set [OF len w(3), of debug n] len
      by (auto simp: bitmap_ok_def simp del: mem_bitmap)
  next
    case Set_all
    then show ?thesis using set_all_set [OF w(1) len w(2), of debug] len
      by (auto simp: bitmap_ok_def simp del: mem_bitmap)
  next
    case Clear_all
    then show ?thesis using clear_all_set [OF w(1) len] len by (simp add: bitmap_ok_def del: mem_bitmap)
  next
    case (Intersect_ull m)
    then show ?thesis using pad [of m False] by (simp add: Bitmap_intersect_ull_def del: mem_bitmap)
  next
    case (Intersect_extended m)
    then show ?thesis using pad [of m "bit m 63"] and_shl [of 63 m]
      by (simp add: Bitmap_intersect_extended_def del: mem_bitmap)
  qed (use pointwise_set [OF len] assms(3) len sub in \<open>auto simp: bitmap_ok_def simp del: mem_bitmap\<close>)
qed

interpretation bitmap: data_refinement "bitmap_exec debug width" "set_exec width"
    "\<lambda>b. width_ok debug width \<and> bitmap_ok width b" bitmap_set "op_ok width" for debug width
  by unfold_locales (use exec_refines in blast)

lemma find_first_bit_min:
  assumes "bitmap_ok width a"
  shows "Bitmap_find_first_bit width a = Some (if bitmap_set a = {} then width else Min (bitmap_set a))"
proof -
  have "bitmap_set a \<subseteq> {..<width}" using assms by (simp add: bitmap_ok_def del: mem_bitmap)
  then have fin: "finite (bitmap_set a)" by (rule finite_subset) simp
  from find_first_bit_set [OF ok_length [OF assms]] obtain r where r: "Bitmap_find_first_bit width a = Some r"
    "if bitmap_set a = {} then r = width else r \<in> bitmap_set a \<and> (\<forall>n\<in>bitmap_set a. r \<le> n)" by blast
  show ?thesis
  proof (cases "bitmap_set a = {}")
    case False
    with r(2) have "r \<in> bitmap_set a" "\<And>n. n \<in> bitmap_set a \<Longrightarrow> r \<le> n" by (simp_all del: mem_bitmap)
    then have "Min (bitmap_set a) = r" by (intro Min_eqI [OF fin])
    with r(1) False show ?thesis by simp
  qed (use r in simp)
qed

section \<open>Properties\<close>



text \<open>The queries of a bitmap say of its set what their names say: membership, being a prefix,
  emptiness, inclusion, overlap, equality, the number of bits and the first bit (the width when
  there is none).\<close>

theorem bitmap_queries_correct:
  assumes "width_ok debug width" and "bitmap_ok width a" and "bitmap_ok width b" and "n < width"
  shows "(Bitmap_is_set debug width n a = Some (n \<in> bitmap_set a)) \<and>
    (Bitmap_is_prefix debug width n a = Some (bitmap_set a = {..<n})) \<and>
    (Bitmap_is_clear_all width a = (bitmap_set a = {})) \<and>
    (Bitmap_is_subset width a b = (bitmap_set a \<subseteq> bitmap_set b)) \<and>
    (Bitmap_is_overlapping width a b = (bitmap_set a \<inter> bitmap_set b \<noteq> {})) \<and>
    (Bitmap_eq width a b = (bitmap_set a = bitmap_set b)) \<and>
    (Bitmap_bits_set width a = of_nat (card (bitmap_set a))) \<and>
    (Bitmap_find_first_bit width a = Some (if bitmap_set a = {} then width else Min (bitmap_set a)))"
proof -
  note len = ok_length [OF assms(2)] ok_length [OF assms(3)]
  have w: "0 < width" using assms(4) by simp
  have "Bitmap_is_set debug width n a = Some (n \<in> bitmap_set a)"
    by (rule is_set_set [OF assms(4) len(1)])
  moreover have "Bitmap_is_prefix debug width n a = Some (bitmap_set a = {..<n})"
    using assms(4) by (intro is_prefix_set len) simp_all
  moreover have "Bitmap_is_clear_all width a = (bitmap_set a = {})" "Bitmap_is_subset width a b = (bitmap_set a \<subseteq> bitmap_set b)"
    "Bitmap_is_overlapping width a b = (bitmap_set a \<inter> bitmap_set b \<noteq> {})"
    "Bitmap_eq width a b = (bitmap_set a = bitmap_set b)"
    by (rule queries_set [OF len w])+
  moreover have "Bitmap_bits_set width a = of_nat (card (bitmap_set a))" by (rule bits_set_card [OF len(1)])
  moreover have "Bitmap_find_first_bit width a = Some (if bitmap_set a = {} then width else Min (bitmap_set a))"
    by (rule find_first_bit_min [OF assms(2)])
  ultimately show ?thesis by (intro conjI)
qed

theorem bitmap_queries_correct_witness:
  "Bitmap_is_set True 128 65 [0, 2] = Some True \<and> Bitmap_bits_set 128 [0, 2] = 1 \<and>
   Bitmap_find_first_bit 128 [0, 2] = Some 65 \<and> \<not> Bitmap_is_subset 128 [0, 2] [1, 0]"
proof -
  have s: "bitmap_set [0, 2] = {65}" "bitmap_set [1, 0] = {0}"
  proof -
    show "bitmap_set [0, 2] = {65}"
    proof (rule set_eqI)
      fix n
      have two: "bit (2 :: ulonglong) k \<longleftrightarrow> k = 1" for k using bit_shl [of 1 k] by auto
      have "n \<in> bitmap_set [0, 2] \<longleftrightarrow> n div 64 = 1 \<and> n mod 64 = 1"
      proof (cases "n div 64 = 0")
        case False
        then have "n div 64 < 2 \<longleftrightarrow> n div 64 = 1" by linarith
        then show ?thesis using two [of "n mod 64"] by (cases "n div 64 = 1") simp_all
      qed simp
      also have "\<dots> \<longleftrightarrow> n = 65" using same_bit [of n 65] by auto
      finally show "n \<in> bitmap_set [0, 2] \<longleftrightarrow> n \<in> {65}" by simp
    qed
    show "bitmap_set [1, 0] = {0}" by (auto simp: set_eq_iff nth_Cons' bit_1_iff)
  qed
  have "width_ok True 128" "bitmap_ok 128 [0, 2]" "bitmap_ok 128 [1, 0]"
    by (simp_all add: width_ok_def bitmap_ok_def ARRAY_ELEMENTS_def BITS_PER_ELEMENT_def s)
  from bitmap_queries_correct [OF this, of 65] show ?thesis unfolding s by simp
qed

text \<open>The loop over an iterator ends and gives every bit of the map once, in ascending order.\<close>

theorem iterator_gives_all_bits:
  assumes "0 < width" and "bitmap_ok width buffer"
  shows "iterate (Suc (card (bitmap_set buffer))) width buffer (Bitmap_iterator buffer) =
    Some (sorted_list_of_set (bitmap_set buffer))"
  using iterate_pending [OF assms(2) fresh_iterator(1) [OF assms]] unfolding fresh_iterator(2) [OF assms] .

theorem iterator_gives_all_bits_witness:
  "iterate 2 128 [1, 0] (Bitmap_iterator [1, 0]) = Some [0]"
proof -
  have s: "bitmap_set [1, 0] = {0}" by (auto simp: set_eq_iff nth_Cons' bit_1_iff)
  have ok: "bitmap_ok 128 [1, 0]" by (simp add: bitmap_ok_def ARRAY_ELEMENTS_def BITS_PER_ELEMENT_def s)
  from iterator_gives_all_bits [OF _ ok] show ?thesis unfolding s by (simp add: eval_nat_numeral)
qed

lemma print_none: "fold (\<lambda>i r. Option.bind r (f i)) xs None = None"
  by (induction xs) simp_all

lemma last_nonzero_0: "last_nonzero buffer k = 0 \<longleftrightarrow> (\<forall>i. 0 < i \<and> i \<le> k \<longrightarrow> buffer ! i = 0)"
  by (induction k) (auto simp: le_Suc_eq)

text \<open>What \<open>print\<close> does: a map with bits in its first element only is printed by
  \<open>longlong2str\<close>; for every other map the code shifts by 64 bits or more, which is undefined.\<close>

theorem print_undefined:
  assumes "length buffer = ARRAY_ELEMENTS width" and "0 < width"
  shows "Bitmap_print dig_vec_upper longlong2str width buffer buf =
    (if bitmap_set buffer \<subseteq> {..<64} then Some (longlong2str (buffer ! 0) buf 16) else None)"
proof -
  let ?l = "last_nonzero buffer (ARRAY_ELEMENTS width - 1)"
  have "?l = 0 \<longleftrightarrow> (\<forall>i. 0 < i \<and> i < length buffer \<longrightarrow> buffer ! i = 0)"
    using assms elements(2) [of width] by (auto simp: last_nonzero_0)
  also have "\<dots> \<longleftrightarrow> bitmap_set buffer \<subseteq> {..<64}"
  proof
    assume z: "\<forall>i. 0 < i \<and> i < length buffer \<longrightarrow> buffer ! i = 0"
    show "bitmap_set buffer \<subseteq> {..<64}"
    proof
      fix n assume n: "n \<in> bitmap_set buffer"
      with z have "n div 64 = 0" by (metis bit_0_eq bot_apply bot_bool_def mem_bitmap neq0_conv)
      then show "n \<in> {..<64}" by auto
    qed
  next
    assume s: "bitmap_set buffer \<subseteq> {..<64}"
    show "\<forall>i. 0 < i \<and> i < length buffer \<longrightarrow> buffer ! i = 0"
    proof (intro allI impI)
      fix i assume i: "0 < i \<and> i < length buffer"
      have "\<not> bit (buffer ! i) j" if "j < 64" for j
        using bitmap_bit [of i buffer j] that i s by (auto simp del: mem_bitmap)
      then show "buffer ! i = 0" by (simp add: zero_eq)
    qed
  qed
  finally have l: "?l = 0 \<longleftrightarrow> bitmap_set buffer \<subseteq> {..<64}" .
  show ?thesis
  proof (cases "?l")
    case 0
    then show ?thesis using l by (simp add: Bitmap_print_def)
  next
    case (Suc k)
    have "print_digits dig_vec_upper 16 (buffer ! 0) (BITS_PER_ELEMENT - 4) (0 * 16) buf = None"
      by (simp add: BITS_PER_ELEMENT_def eval_nat_numeral)
    then have "fold (\<lambda>i r. Option.bind r (print_digits dig_vec_upper 16 (buffer ! i) (BITS_PER_ELEMENT - 4) (i * 16))) [0..<?l] (Some buf) = None"
      unfolding Suc upt_conv_Cons [OF zero_less_Suc] by (simp add: print_none del: upt_Suc print_digits.simps)
    then show ?thesis using l Suc by (simp add: Bitmap_print_def)
  qed
qed

theorem print_undefined_witness:
  "Bitmap_print (\<lambda>d. CHR ''0'') (\<lambda>w buf radix. ''X'') 128 [0, 1] (replicate 40 CHR '' '') = None"
proof -
  have len: "length [0, 1] = ARRAY_ELEMENTS 128" by (simp add: ARRAY_ELEMENTS_def BITS_PER_ELEMENT_def)
  have "64 \<in> bitmap_set [0, 1]" by simp
  then have "\<not> bitmap_set [0, 1] \<subseteq> {..<64}" by (metis lessThan_iff less_irrefl subsetD)
  then show ?thesis by (simp add: print_undefined [OF len] del: mem_bitmap)
qed

text \<open>In a build with assertions a map whose width is not a multiple of 64 cannot be filled: the
  mask of the last element asserts that the width is below the width.\<close>

theorem unaligned_set_all_fails:
  assumes "width mod 64 \<noteq> 0" and "width \<le> n"
  shows "Bitmap_set_all True width buffer = None \<and> Bitmap_init True width n buffer = None"
proof -
  have none: "last_element_mask True width width = None"
    using assms by (simp add: last_element_mask_def bit_mask_def dbug_assert_def BITS_PER_ELEMENT_def)
  have "Bitmap_set_prefix True width n buffer = None" if "width \<le> n" for n
  proof -
    have n: "(if n > width then width else n) = width" using that by auto
    show ?thesis unfolding Bitmap_set_prefix_def n Let_def using assms none by (simp add: BITS_PER_ELEMENT_def)
  qed
  then show ?thesis
    using assms by (simp add: Bitmap_set_all_def Bitmap_init_def BITS_PER_ELEMENT_def)
qed

theorem unaligned_set_all_fails_witness:
  "Bitmap_set_all True 100 [0, 0] = None \<and> Bitmap_init True 100 200 [0, 0] = None"
  using unaligned_set_all_fails [of 100 200 "[0, 0]"] by simp

end
