(* ===== verification/Sql_Type_Int.thy ===== *)
theory Sql_Type_Int
  imports My_Bits Prelude
begin

text \<open>
  The integer classes of the SQL layer (\<open>private/sql_type_int.h\<close>). A \<open>longlong\<close> and a \<open>ulonglong\<close>
  are both 64-bit words, read with \<open>sint\<close> and \<open>uint\<close>; casts between them keep the word. A class
  that adds a flag is a record. \<open>uint\<close> and, on Windows, \<open>ulong\<close> have 32 bits.
\<close>

type_synonym longlong = "64 word"
type_synonym ulonglong = "64 word"

definition LONGLONG_MIN :: longlong where "LONGLONG_MIN = 0x8000000000000000"
definition LONGLONG_MAX :: longlong where "LONGLONG_MAX = 0x7FFFFFFFFFFFFFFF"
definition ULONGLONG_MAX :: ulonglong where "ULONGLONG_MAX = 0xFFFFFFFFFFFFFFFF"

section \<open>Longlong and Longlong\_null\<close>

definition Longlong_abs :: "longlong \<Rightarrow> ulonglong" where
  "Longlong_abs m_value =
     (if m_value = LONGLONG_MIN then LONGLONG_MAX + 1
      else if m_value <s 0 then - m_value else m_value)"

record Longlong_null =
  ll_value :: longlong
  ll_is_null :: bool

text \<open>The constructors: \<open>Longlong_null(nr, is_null)\<close>, \<open>Longlong_null()\<close> and \<open>Longlong_null(nr)\<close>.\<close>

definition Longlong_null2 :: "longlong \<Rightarrow> bool \<Rightarrow> Longlong_null" where
  "Longlong_null2 nr is_null = \<lparr>ll_value = nr, ll_is_null = is_null\<rparr>"

definition Longlong_null0 :: Longlong_null where
  "Longlong_null0 = \<lparr>ll_value = 0, ll_is_null = True\<rparr>"

definition Longlong_null1 :: "longlong \<Rightarrow> Longlong_null" where
  "Longlong_null1 nr = \<lparr>ll_value = nr, ll_is_null = False\<rparr>"

definition Longlong_null_or :: "Longlong_null \<Rightarrow> Longlong_null \<Rightarrow> Longlong_null" where
  "Longlong_null_or a other =
     (if ll_is_null a \<or> ll_is_null other then Longlong_null0
      else Longlong_null1 (ll_value a OR ll_value other))"

definition Longlong_null_and :: "Longlong_null \<Rightarrow> Longlong_null \<Rightarrow> Longlong_null" where
  "Longlong_null_and a other =
     (if ll_is_null a \<or> ll_is_null other then Longlong_null0
      else Longlong_null1 (ll_value a AND ll_value other))"

definition Longlong_null_xor :: "Longlong_null \<Rightarrow> Longlong_null \<Rightarrow> Longlong_null" where
  "Longlong_null_xor a other =
     (if ll_is_null a \<or> ll_is_null other then Longlong_null0
      else Longlong_null1 (ll_value a XOR ll_value other))"

definition Longlong_null_not :: "Longlong_null \<Rightarrow> Longlong_null" where
  "Longlong_null_not a = (if ll_is_null a then a else Longlong_null1 (NOT (ll_value a)))"

definition Longlong_null_shl :: "Longlong_null \<Rightarrow> Longlong_null \<Rightarrow> Longlong_null" where
  "Longlong_null_shl a llshift =
     (if ll_is_null a \<or> ll_is_null llshift then Longlong_null0
      else let shift = unat (ucast (ll_value llshift) :: 32 word);
               res = (if shift < 8 * 8 then push_bit shift (ll_value a) else 0)
           in Longlong_null1 res)"

definition Longlong_null_shr :: "Longlong_null \<Rightarrow> Longlong_null \<Rightarrow> Longlong_null" where
  "Longlong_null_shr a llshift =
     (if ll_is_null a \<or> ll_is_null llshift then Longlong_null0
      else let shift = unat (ucast (ll_value llshift) :: 32 word);
               res = (if shift < 8 * 8 then drop_bit shift (ll_value a) else 0)
           in Longlong_null1 res)"

definition Longlong_null_bit_count :: "Longlong_null \<Rightarrow> Longlong_null" where
  "Longlong_null_bit_count a =
     (if ll_is_null a then a else Longlong_null1 (ucast (my_count_bits (ll_value a))))"

section \<open>ULonglong and ULonglong\_null\<close>

definition test_if_sum_overflows_ull :: "ulonglong \<Rightarrow> ulonglong \<Rightarrow> bool" where
  "test_if_sum_overflows_ull arg1 arg2 \<longleftrightarrow> ULONGLONG_MAX - arg1 < arg2"

definition ULonglong_neg :: "ulonglong \<Rightarrow> Longlong_null" where
  "ULonglong_neg m_value =
     (if m_value > LONGLONG_MAX then
        (if m_value = LONGLONG_MAX + 1 then Longlong_null2 LONGLONG_MIN False else Longlong_null2 0 True)
      else Longlong_null2 (- m_value) False)"

definition to_longlong_null :: "ulonglong \<Rightarrow> Longlong_null" where
  "to_longlong_null m_value =
     (if m_value > LONGLONG_MAX then Longlong_null2 0 True else Longlong_null2 m_value False)"

record ULonglong_null =
  ull_value :: ulonglong
  ull_is_null :: bool

definition ullmul :: "ulonglong \<Rightarrow> ulonglong \<Rightarrow> ULonglong_null" where
  "ullmul a b =
     (let a1 = (ucast (drop_bit 32 a) :: 32 word);
          b1 = (ucast (drop_bit 32 b) :: 32 word)
      in if a1 \<noteq> 0 \<and> b1 \<noteq> 0 then \<lparr>ull_value = 0, ull_is_null = True\<rparr>
      else
        let a0 = (ucast (0xFFFFFFFF AND a) :: 32 word);
            b0 = (ucast (0xFFFFFFFF AND b) :: 32 word);
            res1 = (ucast a1 :: ulonglong) * ucast b0 + (ucast a0 :: ulonglong) * ucast b1
        in if res1 > 0xFFFFFFFF then \<lparr>ull_value = 0, ull_is_null = True\<rparr>
        else
          let res1 = push_bit 32 res1;
              res0 = (ucast a0 :: ulonglong) * ucast b0
          in if test_if_sum_overflows_ull res1 res0 then \<lparr>ull_value = 0, ull_is_null = True\<rparr>
          else \<lparr>ull_value = res1 + res0, ull_is_null = False\<rparr>)"

section \<open>Longlong\_hybrid\<close>

record Longlong_hybrid =
  m_value :: longlong
  m_unsigned :: bool

definition cmp_signed :: "Longlong_hybrid \<Rightarrow> Longlong_hybrid \<Rightarrow> int" where
  "cmp_signed h other =
     (if m_value h <s m_value other then - 1 else if m_value h = m_value other then 0 else 1)"

definition cmp_unsigned :: "Longlong_hybrid \<Rightarrow> Longlong_hybrid \<Rightarrow> int" where
  "cmp_unsigned h other =
     (if m_value h < m_value other then - 1 else if m_value h = m_value other then 0 else 1)"

definition is_unsigned_outside_of_signed_range :: "Longlong_hybrid \<Rightarrow> bool" where
  "is_unsigned_outside_of_signed_range h \<longleftrightarrow> m_unsigned h \<and> m_value h > LONGLONG_MAX"

definition hybrid_neg :: "Longlong_hybrid \<Rightarrow> bool" where
  "hybrid_neg h \<longleftrightarrow> m_value h <s 0 \<and> \<not> m_unsigned h"

definition hybrid_abs :: "Longlong_hybrid \<Rightarrow> ulonglong" where
  "hybrid_abs h = (if m_unsigned h then m_value h else Longlong_abs (m_value h))"

definition to_ulonglong :: "Longlong_hybrid \<Rightarrow> ulonglong \<Rightarrow> ulonglong" where
  "to_ulonglong h upper_bound =
     (if hybrid_neg h then 0 else if m_value h > upper_bound then upper_bound else m_value h)"

definition to_uint :: "Longlong_hybrid \<Rightarrow> 32 word \<Rightarrow> 32 word" where
  "to_uint h upper_bound = ucast (to_ulonglong h (ucast upper_bound))"

definition hybrid_val_int_signed :: "Longlong_hybrid \<Rightarrow> Longlong_null" where
  "hybrid_val_int_signed h =
     (if m_unsigned h then to_longlong_null (m_value h) else Longlong_null2 (m_value h) False)"

definition hybrid_val_int_unsigned :: "Longlong_hybrid \<Rightarrow> Longlong_null" where
  "hybrid_val_int_unsigned h =
     (if \<not> m_unsigned h \<and> m_value h <s 0 then Longlong_null2 0 True else Longlong_null2 (m_value h) False)"

definition hybrid_val_int :: "Longlong_hybrid \<Rightarrow> bool \<Rightarrow> Longlong_null" where
  "hybrid_val_int h want_unsigned_value =
     (if want_unsigned_value then hybrid_val_int_unsigned h else hybrid_val_int_signed h)"

definition hybrid_cmp :: "Longlong_hybrid \<Rightarrow> Longlong_hybrid \<Rightarrow> int" where
  "hybrid_cmp h other =
     (if m_unsigned h = m_unsigned other
      then (if m_unsigned h then cmp_unsigned h other else cmp_signed h other)
      else if is_unsigned_outside_of_signed_range h then 1
      else if is_unsigned_outside_of_signed_range other then - 1
      else cmp_signed h other)"

definition hybrid_eq :: "Longlong_hybrid \<Rightarrow> Longlong_hybrid \<Rightarrow> bool" where
  "hybrid_eq h nr \<longleftrightarrow> hybrid_cmp h nr = 0"

definition hybrid_eq_ulonglong :: "Longlong_hybrid \<Rightarrow> ulonglong \<Rightarrow> bool" where
  "hybrid_eq_ulonglong h nr \<longleftrightarrow> hybrid_cmp h \<lparr>m_value = nr, m_unsigned = True\<rparr> = 0"

definition hybrid_eq_uint :: "Longlong_hybrid \<Rightarrow> 32 word \<Rightarrow> bool" where
  "hybrid_eq_uint h nr \<longleftrightarrow> hybrid_cmp h \<lparr>m_value = ucast nr, m_unsigned = True\<rparr> = 0"

definition hybrid_eq_longlong :: "Longlong_hybrid \<Rightarrow> longlong \<Rightarrow> bool" where
  "hybrid_eq_longlong h nr \<longleftrightarrow> hybrid_cmp h \<lparr>m_value = nr, m_unsigned = False\<rparr> = 0"

definition hybrid_eq_int :: "Longlong_hybrid \<Rightarrow> 32 word \<Rightarrow> bool" where
  "hybrid_eq_int h nr \<longleftrightarrow> hybrid_cmp h \<lparr>m_value = scast nr, m_unsigned = False\<rparr> = 0"

section \<open>ULonglong\_hybrid\<close>

record ULonglong_hybrid =
  uh_value :: ulonglong
  uh_neg :: bool

definition ULonglong_hybrid_new :: "ulonglong \<Rightarrow> bool \<Rightarrow> ULonglong_hybrid" where
  "ULonglong_hybrid_new v neg = \<lparr>uh_value = v, uh_neg = (if neg \<and> v = 0 then False else neg)\<rparr>"

definition uhybrid_val_int_unsigned :: "ULonglong_hybrid \<Rightarrow> Longlong_null" where
  "uhybrid_val_int_unsigned h = (if uh_neg h then Longlong_null2 0 True else Longlong_null2 (uh_value h) False)"

definition uhybrid_val_int_signed :: "ULonglong_hybrid \<Rightarrow> Longlong_null" where
  "uhybrid_val_int_signed h = (if uh_neg h then ULonglong_neg (uh_value h) else to_longlong_null (uh_value h))"

definition uhybrid_val_int :: "ULonglong_hybrid \<Rightarrow> bool \<Rightarrow> Longlong_null" where
  "uhybrid_val_int h want_unsigned_value =
     (if want_unsigned_value then uhybrid_val_int_unsigned h else uhybrid_val_int_signed h)"

section \<open>Words as numbers\<close>

lemma uint_bound: "uint (w :: 64 word) < 2 ^ 64" "0 \<le> uint (w :: 64 word)"
  using uint_lt2p [of w] by simp_all

lemma uint_num:
  obtains x where "uint (w :: 64 word) = x" "0 \<le> x" "x < 2 ^ 64"
  using uint_bound by blast

lemma sint_cases: "sint (w :: 64 word) = (if uint w < 2 ^ 63 then uint w else uint w - 2 ^ 64)"
proof -
  have "sint w = (uint w + 2 ^ 63) mod 2 ^ 64 - 2 ^ 63"
    by (simp add: sint_uint signed_take_bit_eq_take_bit_shift take_bit_eq_mod)
  moreover have "(uint w + 2 ^ 63) mod 2 ^ 64 = uint w - 2 ^ 63" if "\<not> uint w < 2 ^ 63"
  proof -
    have "(uint w - 2 ^ 63 + 2 ^ 64) mod 2 ^ 64 = uint w - 2 ^ 63"
      using uint_bound [of w] that by (subst mod_add_self2) simp
    then show ?thesis by (simp add: add.commute)
  qed
  ultimately show ?thesis using uint_bound [of w] by simp
qed

text \<open>Comparisons, limits and negation in terms of \<open>uint\<close>.\<close>

lemmas limits = LONGLONG_MIN_def LONGLONG_MAX_def ULONGLONG_MAX_def

lemma word_order: "a = b \<longleftrightarrow> uint a = uint b" "a < b \<longleftrightarrow> uint a < uint b" "a <s b \<longleftrightarrow> sint a < sint b"
  for a b :: "64 word"
  by (simp_all add: word_less_def word_sless_alt word_uint_eq_iff)

lemma uint_minus: "uint (- w) = (if uint w = 0 then 0 else 2 ^ 64 - uint w)" for w :: "64 word"
proof -
  obtain x where x: "uint w = x" "0 \<le> x" "x < 2 ^ 64" by (rule uint_num)
  have "uint (- w) = (- x) mod 2 ^ 64" by (simp add: uint_word_ariths x)
  moreover have "(- x) mod 2 ^ 64 = (- x + 2 ^ 64) mod 2 ^ 64" by (rule mod_add_self2 [symmetric])
  moreover have "(- x + 2 ^ 64) mod 2 ^ 64 = - x + 2 ^ 64" if "x \<noteq> 0"
    by (rule mod_pos_pos_trivial) (use x that in auto)
  ultimately show ?thesis using x by auto
qed

text \<open>The number a hybrid stands for, and the number of a result that is not null.\<close>

definition hybrid_int :: "Longlong_hybrid \<Rightarrow> int" where
  "hybrid_int h = (if m_unsigned h then uint (m_value h) else sint (m_value h))"

definition uhybrid_int :: "ULonglong_hybrid \<Rightarrow> int" where
  "uhybrid_int h = (if uh_neg h then - uint (uh_value h) else uint (uh_value h))"

definition represents :: "bool \<Rightarrow> Longlong_null \<Rightarrow> int \<Rightarrow> bool" where
  "represents as_unsigned r i \<longleftrightarrow>
     (if as_unsigned then (if 0 \<le> i \<and> i < 2 ^ 64 then \<not> ll_is_null r \<and> uint (ll_value r) = i else ll_is_null r)
      else (if - (2 ^ 63) \<le> i \<and> i < 2 ^ 63 then \<not> ll_is_null r \<and> sint (ll_value r) = i else ll_is_null r))"

lemma limit_values: "uint LONGLONG_MAX = 2 ^ 63 - 1" "uint (LONGLONG_MAX + 1) = 2 ^ 63" "uint LONGLONG_MIN = 2 ^ 63"
  "uint ULONGLONG_MAX = 2 ^ 64 - 1"
  by (simp_all add: limits)

lemma longlong_abs_uint: "uint (Longlong_abs v) = \<bar>sint v\<bar>"
proof -
  obtain x where x: "uint v = x" "0 \<le> x" "x < 2 ^ 64" by (rule uint_num)
  then show ?thesis by (auto simp: Longlong_abs_def word_order limit_values sint_cases uint_minus)
qed

lemma sum_overflows: "test_if_sum_overflows_ull a b \<longleftrightarrow> 2 ^ 64 \<le> uint a + uint b"
proof -
  have "uint (ULONGLONG_MAX - a) = 2 ^ 64 - 1 - uint a"
    using uint_bound [of a] by (simp add: uint_sub_if' limit_values)
  then show ?thesis by (auto simp: test_if_sum_overflows_ull_def word_order)
qed

lemma neg_represents: "represents False (ULonglong_neg v) (- uint v)"
proof -
  obtain x where x: "uint v = x" "0 \<le> x" "x < 2 ^ 64" by (rule uint_num)
  then show ?thesis
    by (auto simp: represents_def ULonglong_neg_def Longlong_null2_def word_order limit_values sint_cases uint_minus)
qed

lemma to_longlong_represents: "represents False (to_longlong_null v) (uint v)"
proof -
  obtain x where x: "uint v = x" "0 \<le> x" "x < 2 ^ 64" by (rule uint_num)
  then show ?thesis
    by (auto simp: represents_def to_longlong_null_def Longlong_null2_def word_order limit_values sint_cases)
qed

section \<open>Properties\<close>

text \<open>Comparing two hybrids, signed or unsigned in any combination, is comparing the numbers they
  stand for.\<close>

theorem hybrid_cmp_correct:
  "hybrid_cmp a b = (if hybrid_int a < hybrid_int b then - 1 else if hybrid_int a = hybrid_int b then 0 else 1)"
proof -
  obtain x where x: "uint (m_value a) = x" "0 \<le> x" "x < 2 ^ 64" by (rule uint_num)
  obtain y where y: "uint (m_value b) = y" "0 \<le> y" "y < 2 ^ 64" by (rule uint_num)
  note defs = hybrid_cmp_def cmp_signed_def cmp_unsigned_def is_unsigned_outside_of_signed_range_def
      hybrid_int_def word_order limit_values sint_cases x(1) y(1)
  show ?thesis
    using x(2,3) y(2,3) by (cases "m_unsigned a"; cases "m_unsigned b") (auto simp: defs)
qed

text \<open>The conversions of a hybrid are exact or null: absolute value, sign, value as a signed or
  unsigned result, and clamping to an upper bound.\<close>

theorem hybrid_conversions_exact:
  "uint (hybrid_abs h) = \<bar>hybrid_int h\<bar> \<and>
   hybrid_neg h = (hybrid_int h < 0) \<and>
   represents want_unsigned (hybrid_val_int h want_unsigned) (hybrid_int h) \<and>
   uint (to_ulonglong h upper) = min (max 0 (hybrid_int h)) (uint upper)"
proof (intro conjI)
  obtain x where x: "uint (m_value h) = x" "0 \<le> x" "x < 2 ^ 64" by (rule uint_num)
  obtain y where y: "uint upper = y" "0 \<le> y" "y < 2 ^ 64" by (rule uint_num)
  show "uint (hybrid_abs h) = \<bar>hybrid_int h\<bar>"
    using x by (simp add: hybrid_abs_def hybrid_int_def longlong_abs_uint)
  show neg: "hybrid_neg h = (hybrid_int h < 0)"
    using x by (auto simp: hybrid_neg_def hybrid_int_def word_order)
  show "uint (to_ulonglong h upper) = min (max 0 (hybrid_int h)) (uint upper)"
    using x y by (auto simp: to_ulonglong_def neg hybrid_int_def word_order sint_cases)
  show "represents want_unsigned (hybrid_val_int h want_unsigned) (hybrid_int h)"
    using x to_longlong_represents [of "m_value h"]
    by (auto simp: hybrid_val_int_def hybrid_val_int_signed_def hybrid_val_int_unsigned_def represents_def
        Longlong_null2_def hybrid_int_def word_order sint_cases)
qed

text \<open>The result of an operation on absolute values, with the sign put back, is exact or null.\<close>

theorem uhybrid_val_int_exact:
  "represents want_unsigned (uhybrid_val_int (ULonglong_hybrid_new v neg) want_unsigned)
     (if neg then - uint v else uint v)"
proof (cases want_unsigned)
  case True
  obtain x where x: "uint v = x" "0 \<le> x" "x < 2 ^ 64" by (rule uint_num)
  with True show ?thesis
    by (auto simp: represents_def uhybrid_val_int_def ULonglong_hybrid_new_def uhybrid_val_int_unsigned_def
        Longlong_null2_def word_order)
next
  case False
  then show ?thesis
    using neg_represents [of v] to_longlong_represents [of v]
    by (auto simp: uhybrid_val_int_def ULonglong_hybrid_new_def uhybrid_val_int_signed_def)
qed

lemma uint_drop: "uint (drop_bit k w) = uint w div 2 ^ k" for w :: "'a::len word"
proof -
  have "take_bit LENGTH('a) (uint w) = uint w" using uint_lt2p [of w] by (simp add: take_bit_int_eq_self)
  then show ?thesis unfolding unsigned_drop_bit_eq by (simp add: drop_bit_eq_div)
qed

lemma halves:
  fixes a :: ulonglong
  shows "uint (ucast (drop_bit 32 a) :: 32 word) = uint a div 2 ^ 32"
    and "uint (ucast (0xFFFFFFFF AND a) :: 32 word) = uint a mod 2 ^ 32"
proof -
  have "uint a div 2 ^ 32 < 2 ^ 32" using uint_bound [of a] by simp
  moreover have "0 \<le> uint a div 2 ^ 32" by (subst pos_imp_zdiv_nonneg_iff) simp_all
  ultimately have "uint a div 2 ^ 32 mod 2 ^ 32 = uint a div 2 ^ 32" by simp
  moreover have "uint (ucast (drop_bit 32 a) :: 32 word) = take_bit 32 (drop_bit 32 (uint a))"
    unfolding drop_bit_eq_div uint_drop [symmetric] by (simp add: unsigned_ucast_eq)
  ultimately show "uint (ucast (drop_bit 32 a) :: 32 word) = uint a div 2 ^ 32"
    by (simp add: take_bit_eq_mod drop_bit_eq_div)
  have "0xFFFFFFFF AND a = take_bit 32 a" by (simp add: take_bit_eq_mask mask_eq_exp_minus_1 and.commute)
  then show "uint (ucast (0xFFFFFFFF AND a) :: 32 word) = uint a mod 2 ^ 32"
    unfolding unsigned_ucast_eq by (simp only: unsigned_take_bit_eq) (simp add: take_bit_eq_mod)
qed

text \<open>The shifts of two values that are not null multiply and divide by a power of two, modulo
  \<open>2 ^ 64\<close>. The exponent is the shift count modulo \<open>2 ^ 32\<close>.\<close>

theorem shifts_correct:
  "Longlong_null_shl \<lparr>ll_value = v, ll_is_null = False\<rparr> \<lparr>ll_value = s, ll_is_null = False\<rparr> =
     Longlong_null1 (word_of_int (uint v * 2 ^ nat (uint s mod 2 ^ 32))) \<and>
   Longlong_null_shr \<lparr>ll_value = v, ll_is_null = False\<rparr> \<lparr>ll_value = s, ll_is_null = False\<rparr> =
     Longlong_null1 (word_of_int (uint v div 2 ^ nat (uint s mod 2 ^ 32)))"
proof -
  define k where "k = unat (ucast s :: 32 word)"
  have k: "nat (uint s mod 2 ^ 32) = k"
    by (simp add: k_def unat_low nat_mod_distrib nat_power_eq)
  have big: "2 ^ 64 dvd (2 :: int) ^ k" if "64 \<le> k" using that by (rule le_imp_power_dvd)
  have l: "(if k < 64 then push_bit k v else 0) = word_of_int (uint v * 2 ^ k)"
  proof (cases "k < 64")
    case True
    then show ?thesis by (simp add: push_bit_eq_mult)
  next
    case False
    then have "2 ^ 64 dvd uint v * 2 ^ k" using big by (simp add: dvd_mult)
    then have "word_of_int (uint v * 2 ^ k) = (0 :: 64 word)"
      using word_of_int_eq_0_iff [where ?'a = 64, of "uint v * 2 ^ k"] by simp
    then show ?thesis using False by (simp only: if_False)
  qed
  have r: "(if k < 64 then drop_bit k v else 0) = word_of_int (uint v div 2 ^ k)"
  proof (cases "k < 64")
    case True
    have "uint (drop_bit k v) = uint v div 2 ^ k" by (simp add: uint_drop)
    then show ?thesis using True by (metis word_of_int_uint)
  next
    case False
    then have "(2 :: int) ^ 64 \<le> 2 ^ k" by (intro power_increasing) auto
    then have "uint v div 2 ^ k = 0" using uint_bound [of v] by (intro div_pos_pos_trivial) auto
    then show ?thesis using False by simp
  qed
  show ?thesis
    unfolding k using l r
    by (cases "k < 64") (simp_all add: Longlong_null_shl_def Longlong_null_shr_def Let_def k_def [symmetric])
qed

lemma too_big:
  "1 \<le> p \<Longrightarrow> 0 \<le> m \<Longrightarrow> 0 \<le> q \<Longrightarrow> 2 ^ 64 \<le> p * 2 ^ 64 + m * 2 ^ 32 + q"
  "2 ^ 32 \<le> m \<Longrightarrow> 0 \<le> q \<Longrightarrow> 2 ^ 64 \<le> m * 2 ^ 32 + q" for p m q :: int
  by simp_all

lemma product32: "uint (ucast x * ucast y :: ulonglong) = uint x * uint y" for x y :: "32 word"
proof -
  have up: "uint (ucast z :: ulonglong) = uint z" for z :: "32 word"
    using uint_lt2p [of z] by (simp add: unsigned_ucast_eq take_bit_int_eq_self)
  have "uint x * uint y \<le> (2 ^ 32 - 1) * (2 ^ 32 - 1)"
    using uint_lt2p [of x] uint_lt2p [of y] by (intro mult_mono) auto
  then have "uint x * uint y mod 2 ^ 64 = uint x * uint y" by (intro mod_pos_pos_trivial) auto
  then show ?thesis by (simp add: uint_word_ariths up)
qed

text \<open>\<open>ullmul\<close> gives the product, or null exactly when the product does not fit in 64 bits.\<close>

theorem ullmul_correct:
  "if 2 ^ 64 \<le> uint a * uint b then ull_is_null (ullmul a b)
   else \<not> ull_is_null (ullmul a b) \<and> uint (ull_value (ullmul a b)) = uint a * uint b"
proof -
  define A1 B1 where "A1 = (ucast (drop_bit 32 a) :: 32 word)" and "B1 = (ucast (drop_bit 32 b) :: 32 word)"
  define A0 B0 where "A0 = (ucast (0xFFFFFFFF AND a) :: 32 word)" and "B0 = (ucast (0xFFFFFFFF AND b) :: 32 word)"
  define m where "m = uint A1 * uint B0 + uint A0 * uint B1"
  have ab: "uint a = uint A1 * 2 ^ 32 + uint A0" "uint b = uint B1 * 2 ^ 32 + uint B0"
    unfolding A1_def A0_def B1_def B0_def halves by (simp_all add: div_mult_mod_eq)
  have prod: "uint a * uint b = uint A1 * uint B1 * 2 ^ 64 + m * 2 ^ 32 + uint A0 * uint B0"
    unfolding ab m_def by (simp add: algebra_simps)
  have m0: "0 \<le> m" "0 \<le> uint A0 * uint B0" by (simp_all add: m_def)
  show ?thesis
  proof (cases "A1 \<noteq> 0 \<and> B1 \<noteq> 0")
    case True
    then have "1 \<le> uint A1" "1 \<le> uint B1" by (simp_all add: word_uint_eq_iff int_one_le_iff_zero_less less_le)
    then have "1 \<le> uint A1 * uint B1" using mult_mono [of 1 "uint A1" 1 "uint B1"] by simp
    then have "2 ^ 64 \<le> uint a * uint b" unfolding prod using m0 by (rule too_big)
    then show ?thesis using True by (simp add: ullmul_def A1_def [symmetric] B1_def [symmetric])
  next
    case False
    define res1 where "res1 = (ucast A1 * ucast B0 + ucast A0 * ucast B1 :: ulonglong)"
    have "uint res1 = uint A1 * uint B0 + uint A0 * uint B1"
      using False by (auto simp: res1_def product32)
    then have res1: "uint res1 = m" by (simp add: m_def)
    have prod: "uint a * uint b = m * 2 ^ 32 + uint A0 * uint B0" using False prod by auto
    have eq: "ullmul a b = (if res1 > 0xFFFFFFFF then \<lparr>ull_value = 0, ull_is_null = True\<rparr>
      else if test_if_sum_overflows_ull (push_bit 32 res1) (ucast A0 * ucast B0)
      then \<lparr>ull_value = 0, ull_is_null = True\<rparr>
      else \<lparr>ull_value = push_bit 32 res1 + ucast A0 * ucast B0, ull_is_null = False\<rparr>)"
      unfolding ullmul_def Let_def A1_def [symmetric] B1_def [symmetric] A0_def [symmetric] B0_def [symmetric]
        res1_def [symmetric] by (rule if_not_P [OF False])
    show ?thesis
    proof (cases "res1 > 0xFFFFFFFF")
      case True
      then have "2 ^ 32 \<le> m" using res1 by (simp add: word_less_def)
      then have "2 ^ 64 \<le> uint a * uint b" unfolding prod using m0(2) by (rule too_big)
      then show ?thesis using True by (simp add: eq)
    next
      case small: False
      then have m32: "m < 2 ^ 32" using res1 by (simp add: word_less_def)
      have "uint (push_bit 32 res1) = m * 2 ^ 32 mod 2 ^ 64"
        using res1 by (simp add: push_bit_eq_mult uint_word_ariths)
      also have "\<dots> = m * 2 ^ 32" using m0 m32 by (intro mod_pos_pos_trivial) auto
      finally have hi: "uint (push_bit 32 res1) = m * 2 ^ 32" .
      have over: "test_if_sum_overflows_ull (push_bit 32 res1) (ucast A0 * ucast B0) \<longleftrightarrow> 2 ^ 64 \<le> uint a * uint b"
        unfolding sum_overflows hi product32 prod ..
      have "uint (push_bit 32 res1 + ucast A0 * ucast B0) = uint a * uint b" if "uint a * uint b < 2 ^ 64"
      proof -
        have "uint (push_bit 32 res1) + uint (ucast A0 * ucast B0 :: ulonglong) < 2 ^ 64"
          using that unfolding hi product32 prod .
        then have "uint (push_bit 32 res1 + ucast A0 * ucast B0) = uint (push_bit 32 res1) + uint (ucast A0 * ucast B0 :: ulonglong)"
          by (subst uint_add_lem [symmetric]) simp
        then show ?thesis unfolding hi product32 prod .
      qed
      then show ?thesis using small over by (simp add: eq not_le)
    qed
  qed
qed

end
