(* ===== verification/Privilege.thy ===== *)
theory Privilege
  imports My_Bits
begin

text \<open>
  The privileges of the MariaDB server (\<open>private/privilege.h\<close>): the bits, the groups of them, the
  privilege that each statement and variable asks for, and the functions that pack the
  privileges of a database, a table, a column and a routine into the bits stored in the system
  tables and unpack them. A \<open>privilege_t\<close> is a 64-bit word; the operators of the header are those of
  words.
\<close>

type_synonym privilege_t = "64 word"

section \<open>The bits\<close>

definition NO_ACL :: privilege_t where "NO_ACL = 0"
definition SELECT_ACL :: privilege_t where "SELECT_ACL = push_bit 0 1"
definition INSERT_ACL :: privilege_t where "INSERT_ACL = push_bit 1 1"
definition UPDATE_ACL :: privilege_t where "UPDATE_ACL = push_bit 2 1"
definition DELETE_ACL :: privilege_t where "DELETE_ACL = push_bit 3 1"
definition CREATE_ACL :: privilege_t where "CREATE_ACL = push_bit 4 1"
definition DROP_ACL :: privilege_t where "DROP_ACL = push_bit 5 1"
definition RELOAD_ACL :: privilege_t where "RELOAD_ACL = push_bit 6 1"
definition SHUTDOWN_ACL :: privilege_t where "SHUTDOWN_ACL = push_bit 7 1"
definition PROCESS_ACL :: privilege_t where "PROCESS_ACL = push_bit 8 1"
definition FILE_ACL :: privilege_t where "FILE_ACL = push_bit 9 1"
definition GRANT_ACL :: privilege_t where "GRANT_ACL = push_bit 10 1"
definition REFERENCES_ACL :: privilege_t where "REFERENCES_ACL = push_bit 11 1"
definition INDEX_ACL :: privilege_t where "INDEX_ACL = push_bit 12 1"
definition ALTER_ACL :: privilege_t where "ALTER_ACL = push_bit 13 1"
definition SHOW_DB_ACL :: privilege_t where "SHOW_DB_ACL = push_bit 14 1"
definition SUPER_ACL :: privilege_t where "SUPER_ACL = push_bit 15 1"
definition CREATE_TMP_ACL :: privilege_t where "CREATE_TMP_ACL = push_bit 16 1"
definition LOCK_TABLES_ACL :: privilege_t where "LOCK_TABLES_ACL = push_bit 17 1"
definition EXECUTE_ACL :: privilege_t where "EXECUTE_ACL = push_bit 18 1"
definition REPL_SLAVE_ACL :: privilege_t where "REPL_SLAVE_ACL = push_bit 19 1"
definition BINLOG_MONITOR_ACL :: privilege_t where "BINLOG_MONITOR_ACL = push_bit 20 1"
definition CREATE_VIEW_ACL :: privilege_t where "CREATE_VIEW_ACL = push_bit 21 1"
definition SHOW_VIEW_ACL :: privilege_t where "SHOW_VIEW_ACL = push_bit 22 1"
definition CREATE_PROC_ACL :: privilege_t where "CREATE_PROC_ACL = push_bit 23 1"
definition ALTER_PROC_ACL :: privilege_t where "ALTER_PROC_ACL = push_bit 24 1"
definition CREATE_USER_ACL :: privilege_t where "CREATE_USER_ACL = push_bit 25 1"
definition EVENT_ACL :: privilege_t where "EVENT_ACL = push_bit 26 1"
definition TRIGGER_ACL :: privilege_t where "TRIGGER_ACL = push_bit 27 1"
definition CREATE_TABLESPACE_ACL :: privilege_t where "CREATE_TABLESPACE_ACL = push_bit 28 1"
definition DELETE_HISTORY_ACL :: privilege_t where "DELETE_HISTORY_ACL = push_bit 29 1"
definition SET_USER_ACL :: privilege_t where "SET_USER_ACL = push_bit 30 1"
definition FEDERATED_ADMIN_ACL :: privilege_t where "FEDERATED_ADMIN_ACL = push_bit 31 1"
definition CONNECTION_ADMIN_ACL :: privilege_t where "CONNECTION_ADMIN_ACL = push_bit 32 1"
definition READ_ONLY_ADMIN_ACL :: privilege_t where "READ_ONLY_ADMIN_ACL = push_bit 33 1"
definition REPL_SLAVE_ADMIN_ACL :: privilege_t where "REPL_SLAVE_ADMIN_ACL = push_bit 34 1"
definition REPL_MASTER_ADMIN_ACL :: privilege_t where "REPL_MASTER_ADMIN_ACL = push_bit 35 1"
definition BINLOG_ADMIN_ACL :: privilege_t where "BINLOG_ADMIN_ACL = push_bit 36 1"
definition BINLOG_REPLAY_ACL :: privilege_t where "BINLOG_REPLAY_ACL = push_bit 37 1"
definition SLAVE_MONITOR_ACL :: privilege_t where "SLAVE_MONITOR_ACL = push_bit 38 1"
definition SHOW_CREATE_ROUTINE_ACL :: privilege_t where "SHOW_CREATE_ROUTINE_ACL = push_bit 39 1"

lemmas acl_bits =
  NO_ACL_def SELECT_ACL_def INSERT_ACL_def UPDATE_ACL_def DELETE_ACL_def CREATE_ACL_def DROP_ACL_def
  RELOAD_ACL_def SHUTDOWN_ACL_def PROCESS_ACL_def FILE_ACL_def GRANT_ACL_def REFERENCES_ACL_def
  INDEX_ACL_def ALTER_ACL_def SHOW_DB_ACL_def SUPER_ACL_def CREATE_TMP_ACL_def LOCK_TABLES_ACL_def
  EXECUTE_ACL_def REPL_SLAVE_ACL_def BINLOG_MONITOR_ACL_def CREATE_VIEW_ACL_def SHOW_VIEW_ACL_def
  CREATE_PROC_ACL_def ALTER_PROC_ACL_def CREATE_USER_ACL_def EVENT_ACL_def TRIGGER_ACL_def
  CREATE_TABLESPACE_ACL_def DELETE_HISTORY_ACL_def SET_USER_ACL_def FEDERATED_ADMIN_ACL_def
  CONNECTION_ADMIN_ACL_def READ_ONLY_ADMIN_ACL_def REPL_SLAVE_ADMIN_ACL_def REPL_MASTER_ADMIN_ACL_def
  BINLOG_ADMIN_ACL_def BINLOG_REPLAY_ACL_def SLAVE_MONITOR_ACL_def SHOW_CREATE_ROUTINE_ACL_def

section \<open>Versions\<close>

definition ALL_KNOWN_BITS :: "privilege_t \<Rightarrow> privilege_t" where
  "ALL_KNOWN_BITS x = x OR (x - 1)"

definition LAST_100304_ACL :: privilege_t where "LAST_100304_ACL = DELETE_HISTORY_ACL"
definition LAST_100502_ACL :: privilege_t where "LAST_100502_ACL = BINLOG_REPLAY_ACL"
definition LAST_100508_ACL :: privilege_t where "LAST_100508_ACL = SLAVE_MONITOR_ACL"
definition LAST_110300_ACL :: privilege_t where "LAST_110300_ACL = SHOW_CREATE_ROUTINE_ACL"
definition LAST_CURRENT_ACL :: privilege_t where "LAST_CURRENT_ACL = LAST_110300_ACL"
definition ALL_KNOWN_ACL_100304 :: privilege_t where "ALL_KNOWN_ACL_100304 = ALL_KNOWN_BITS LAST_100304_ACL"
definition ALL_KNOWN_ACL_100502 :: privilege_t where "ALL_KNOWN_ACL_100502 = ALL_KNOWN_BITS LAST_100502_ACL"
definition ALL_KNOWN_ACL_100508 :: privilege_t where "ALL_KNOWN_ACL_100508 = ALL_KNOWN_BITS LAST_100508_ACL"
definition ALL_KNOWN_ACL_100509 :: privilege_t where "ALL_KNOWN_ACL_100509 = ALL_KNOWN_ACL_100508"
definition ALL_KNOWN_ACL_110300 :: privilege_t where "ALL_KNOWN_ACL_110300 = ALL_KNOWN_BITS LAST_110300_ACL"
definition ALL_KNOWN_ACL :: privilege_t where "ALL_KNOWN_ACL = ALL_KNOWN_BITS LAST_CURRENT_ACL"

definition PRIVILEGE_T_MAX_BIT :: nat where
  "PRIVILEGE_T_MAX_BIT = my_bit_log2_uint64 LAST_CURRENT_ACL"

lemmas known_defs =
  LAST_100304_ACL_def LAST_100502_ACL_def LAST_100508_ACL_def LAST_110300_ACL_def LAST_CURRENT_ACL_def
  ALL_KNOWN_ACL_100304_def ALL_KNOWN_ACL_100502_def ALL_KNOWN_ACL_100508_def ALL_KNOWN_ACL_100509_def
  ALL_KNOWN_ACL_110300_def ALL_KNOWN_ACL_def PRIVILEGE_T_MAX_BIT_def

section \<open>Groups\<close>

definition ALLOWED_BY_SUPER_BEFORE_101100 :: privilege_t where
  "ALLOWED_BY_SUPER_BEFORE_101100 = READ_ONLY_ADMIN_ACL"
definition ALLOWED_BY_SUPER_BEFORE_110000 :: privilege_t where
  "ALLOWED_BY_SUPER_BEFORE_110000 = SET_USER_ACL OR FEDERATED_ADMIN_ACL OR CONNECTION_ADMIN_ACL OR
     REPL_SLAVE_ADMIN_ACL OR BINLOG_ADMIN_ACL OR BINLOG_REPLAY_ACL OR SLAVE_MONITOR_ACL OR
     BINLOG_MONITOR_ACL OR REPL_MASTER_ADMIN_ACL"
definition COL_DML_ACLS :: privilege_t where
  "COL_DML_ACLS = SELECT_ACL OR INSERT_ACL OR UPDATE_ACL OR DELETE_ACL"
definition VIEW_ACLS :: privilege_t where "VIEW_ACLS = CREATE_VIEW_ACL OR SHOW_VIEW_ACL"
definition STD_TABLE_DDL_ACLS :: privilege_t where "STD_TABLE_DDL_ACLS = CREATE_ACL OR DROP_ACL OR ALTER_ACL"
definition ALL_TABLE_DDL_ACLS :: privilege_t where "ALL_TABLE_DDL_ACLS = STD_TABLE_DDL_ACLS OR INDEX_ACL"
definition COL_ACLS :: privilege_t where "COL_ACLS = SELECT_ACL OR INSERT_ACL OR UPDATE_ACL OR REFERENCES_ACL"
definition PROC_DDL_ACLS :: privilege_t where "PROC_DDL_ACLS = CREATE_PROC_ACL OR ALTER_PROC_ACL"
definition SHOW_PROC_WITHOUT_DEFINITION_ACLS :: privilege_t where
  "SHOW_PROC_WITHOUT_DEFINITION_ACLS = PROC_DDL_ACLS OR EXECUTE_ACL"
definition TABLE_ACLS :: privilege_t where
  "TABLE_ACLS = COL_DML_ACLS OR ALL_TABLE_DDL_ACLS OR VIEW_ACLS OR GRANT_ACL OR REFERENCES_ACL OR
     TRIGGER_ACL OR DELETE_HISTORY_ACL"
definition DB_ACLS :: privilege_t where
  "DB_ACLS = TABLE_ACLS OR PROC_DDL_ACLS OR EXECUTE_ACL OR CREATE_TMP_ACL OR LOCK_TABLES_ACL OR
     EVENT_ACL OR SHOW_CREATE_ROUTINE_ACL"
definition PROC_ACLS :: privilege_t where
  "PROC_ACLS = ALTER_PROC_ACL OR EXECUTE_ACL OR GRANT_ACL OR SHOW_CREATE_ROUTINE_ACL"
definition GLOBAL_ACLS :: privilege_t where
  "GLOBAL_ACLS = DB_ACLS OR SHOW_DB_ACL OR CREATE_USER_ACL OR CREATE_TABLESPACE_ACL OR SUPER_ACL OR
     RELOAD_ACL OR SHUTDOWN_ACL OR PROCESS_ACL OR FILE_ACL OR REPL_SLAVE_ACL OR
     ALLOWED_BY_SUPER_BEFORE_101100 OR ALLOWED_BY_SUPER_BEFORE_110000"
definition DEFAULT_CREATE_PROC_ACLS :: privilege_t where
  "DEFAULT_CREATE_PROC_ACLS = ALTER_PROC_ACL OR EXECUTE_ACL"
definition SHOW_CREATE_TABLE_ACLS :: privilege_t where
  "SHOW_CREATE_TABLE_ACLS = COL_DML_ACLS OR ALL_TABLE_DDL_ACLS OR TRIGGER_ACL OR REFERENCES_ACL OR
     GRANT_ACL OR VIEW_ACLS"
definition TMP_TABLE_ACLS :: privilege_t where
  "TMP_TABLE_ACLS = COL_DML_ACLS OR ALL_TABLE_DDL_ACLS OR REFERENCES_ACL"

lemmas group_defs =
  ALLOWED_BY_SUPER_BEFORE_101100_def ALLOWED_BY_SUPER_BEFORE_110000_def COL_DML_ACLS_def VIEW_ACLS_def
  STD_TABLE_DDL_ACLS_def ALL_TABLE_DDL_ACLS_def COL_ACLS_def PROC_DDL_ACLS_def
  SHOW_PROC_WITHOUT_DEFINITION_ACLS_def TABLE_ACLS_def DB_ACLS_def PROC_ACLS_def GLOBAL_ACLS_def
  DEFAULT_CREATE_PROC_ACLS_def SHOW_CREATE_TABLE_ACLS_def TMP_TABLE_ACLS_def

section \<open>What statements and variables ask for\<close>

text \<open>The constants \<open>PRIV_...\<close>, with their names, in the sections of the header.\<close>

text \<open>Locking, definers and SUPER.\<close>

definition priv_general :: "(string \<times> privilege_t) list" where
  "priv_general =
   [
    (''PRIV_LOCK_TABLES'', SELECT_ACL OR LOCK_TABLES_ACL),
    (''PRIV_DEFINER_CLAUSE'', SET_USER_ACL),
    (''PRIV_REVEAL_MISSING_DEFINER'', SET_USER_ACL),
    (''PRIV_DES_DECRYPT_ONE_ARG'', SUPER_ACL),
    (''PRIV_LOG_BIN_TRUSTED_SP_CREATOR'', SUPER_ACL),
    (''PRIV_DEBUG'', SUPER_ACL),
    (''PRIV_SET_GLOBAL_SYSTEM_VARIABLE'', SUPER_ACL),
    (''PRIV_SET_RESTRICTED_SESSION_SYSTEM_VARIABLE'', SUPER_ACL)
   ]"

text \<open>Variables of the binary log.\<close>

definition priv_binlog_variables :: "(string \<times> privilege_t) list" where
  "priv_binlog_variables =
   [
    (''PRIV_SET_SYSTEM_VAR_BINLOG_FORMAT'', BINLOG_ADMIN_ACL),
    (''PRIV_SET_SYSTEM_VAR_BINLOG_DIRECT_NON_TRANSACTIONAL_UPDATES'', BINLOG_ADMIN_ACL),
    (''PRIV_SET_SYSTEM_VAR_BINLOG_ANNOTATE_ROW_EVENTS'', BINLOG_ADMIN_ACL),
    (''PRIV_SET_SYSTEM_VAR_BINLOG_ROW_IMAGE'', BINLOG_ADMIN_ACL),
    (''PRIV_SET_SYSTEM_VAR_SQL_LOG_BIN'', BINLOG_ADMIN_ACL),
    (''PRIV_SET_SYSTEM_GLOBAL_VAR_BINLOG_CACHE_SIZE'', BINLOG_ADMIN_ACL),
    (''PRIV_SET_SYSTEM_GLOBAL_VAR_BINLOG_FILE_CACHE_SIZE'', BINLOG_ADMIN_ACL),
    (''PRIV_SET_SYSTEM_GLOBAL_VAR_BINLOG_STMT_CACHE_SIZE'', BINLOG_ADMIN_ACL),
    (''PRIV_SET_SYSTEM_GLOBAL_VAR_BINLOG_COMMIT_WAIT_COUNT'', BINLOG_ADMIN_ACL),
    (''PRIV_SET_SYSTEM_GLOBAL_VAR_BINLOG_COMMIT_WAIT_USEC'', BINLOG_ADMIN_ACL),
    (''PRIV_SET_SYSTEM_GLOBAL_VAR_BINLOG_ROW_METADATA'', BINLOG_ADMIN_ACL),
    (''PRIV_SET_SYSTEM_GLOBAL_VAR_BINLOG_LEGACY_EVENT_POS'', SUPER_ACL OR BINLOG_ADMIN_ACL),
    (''PRIV_SET_SYSTEM_GLOBAL_VAR_BINLOG_GTID_INDEX'', BINLOG_ADMIN_ACL),
    (''PRIV_SET_SYSTEM_GLOBAL_VAR_BINLOG_GTID_INDEX_PAGE_SIZE'', BINLOG_ADMIN_ACL),
    (''PRIV_SET_SYSTEM_GLOBAL_VAR_BINLOG_GTID_INDEX_SPAN_MIN'', BINLOG_ADMIN_ACL),
    (''PRIV_SET_SYSTEM_GLOBAL_VAR_EXPIRE_LOGS_DAYS'', BINLOG_ADMIN_ACL),
    (''PRIV_SET_SYSTEM_GLOBAL_VAR_LOG_BIN_COMPRESS'', BINLOG_ADMIN_ACL),
    (''PRIV_SET_SYSTEM_GLOBAL_VAR_LOG_BIN_COMPRESS_MIN_LEN'', BINLOG_ADMIN_ACL),
    (''PRIV_SET_SYSTEM_GLOBAL_VAR_LOG_BIN_TRUST_FUNCTION_CREATORS'', BINLOG_ADMIN_ACL),
    (''PRIV_SET_SYSTEM_GLOBAL_VAR_MAX_BINLOG_CACHE_SIZE'', BINLOG_ADMIN_ACL),
    (''PRIV_SET_SYSTEM_GLOBAL_VAR_MAX_BINLOG_STMT_CACHE_SIZE'', BINLOG_ADMIN_ACL),
    (''PRIV_SET_SYSTEM_GLOBAL_VAR_MAX_BINLOG_SIZE'', BINLOG_ADMIN_ACL),
    (''PRIV_SET_SYSTEM_GLOBAL_VAR_SYNC_BINLOG'', BINLOG_ADMIN_ACL)
   ]"

text \<open>Read-only servers.\<close>

definition priv_read_only :: "(string \<times> privilege_t) list" where
  "priv_read_only =
   [
    (''PRIV_IGNORE_READ_ONLY'', READ_ONLY_ADMIN_ACL),
    (''PRIV_SET_SYSTEM_GLOBAL_VAR_READ_ONLY'', READ_ONLY_ADMIN_ACL)
   ]"

text \<open>Connections.\<close>

definition priv_connection :: "(string \<times> privilege_t) list" where
  "priv_connection =
   [
    (''PRIV_IGNORE_INIT_CONNECT'', CONNECTION_ADMIN_ACL),
    (''PRIV_IGNORE_MAX_USER_CONNECTIONS'', CONNECTION_ADMIN_ACL),
    (''PRIV_IGNORE_MAX_CONNECTIONS'', CONNECTION_ADMIN_ACL),
    (''PRIV_IGNORE_MAX_PASSWORD_ERRORS'', CONNECTION_ADMIN_ACL),
    (''PRIV_KILL_OTHER_USER_PROCESS'', CONNECTION_ADMIN_ACL),
    (''PRIV_SET_SYSTEM_GLOBAL_VAR_CONNECT_TIMEOUT'', CONNECTION_ADMIN_ACL),
    (''PRIV_SET_SYSTEM_GLOBAL_VAR_DISCONNECT_ON_EXPIRED_PASSWORD'', CONNECTION_ADMIN_ACL),
    (''PRIV_SET_SYSTEM_GLOBAL_VAR_EXTRA_MAX_CONNECTIONS'', CONNECTION_ADMIN_ACL),
    (''PRIV_SET_SYSTEM_GLOBAL_VAR_INIT_CONNECT'', CONNECTION_ADMIN_ACL),
    (''PRIV_SET_SYSTEM_GLOBAL_VAR_MAX_CONNECTIONS'', CONNECTION_ADMIN_ACL),
    (''PRIV_SET_SYSTEM_GLOBAL_VAR_MAX_CONNECT_ERRORS'', CONNECTION_ADMIN_ACL),
    (''PRIV_SET_SYSTEM_GLOBAL_VAR_MAX_PASSWORD_ERRORS'', CONNECTION_ADMIN_ACL),
    (''PRIV_SET_SYSTEM_GLOBAL_VAR_PROXY_PROTOCOL_NETWORKS'', CONNECTION_ADMIN_ACL),
    (''PRIV_SET_SYSTEM_GLOBAL_VAR_SECURE_AUTH'', CONNECTION_ADMIN_ACL),
    (''PRIV_SET_SYSTEM_GLOBAL_VAR_SLOW_LAUNCH_TIME'', CONNECTION_ADMIN_ACL),
    (''PRIV_SET_SYSTEM_GLOBAL_VAR_THREAD_POOL'', CONNECTION_ADMIN_ACL)
   ]"

text \<open>Statements on the binary log.\<close>

definition priv_binlog_statements :: "(string \<times> privilege_t) list" where
  "priv_binlog_statements =
   [
    (''PRIV_STMT_SHOW_BINLOG_STATUS'', BINLOG_MONITOR_ACL),
    (''PRIV_STMT_SHOW_BINARY_LOGS'', BINLOG_MONITOR_ACL),
    (''PRIV_STMT_PURGE_BINLOG'', BINLOG_ADMIN_ACL),
    (''PRIV_STMT_SHOW_BINLOG_EVENTS'', BINLOG_MONITOR_ACL),
    (''PRIV_SET_SYSTEM_GLOBAL_VAR_BINLOG_DO_DB'', BINLOG_ADMIN_ACL OR SUPER_ACL),
    (''PRIV_SET_SYSTEM_GLOBAL_VAR_BINLOG_IGNORE_DB'', BINLOG_ADMIN_ACL OR SUPER_ACL)
   ]"

text \<open>Replication, on the master.\<close>

definition priv_replication_master :: "(string \<times> privilege_t) list" where
  "priv_replication_master =
   [
    (''PRIV_COM_REGISTER_SLAVE'', REPL_SLAVE_ACL),
    (''PRIV_COM_BINLOG_DUMP'', REPL_SLAVE_ACL),
    (''PRIV_STMT_SHOW_SLAVE_HOSTS'', REPL_MASTER_ADMIN_ACL),
    (''PRIV_SET_SYSTEM_GLOBAL_VAR_RPL_SEMI_SYNC_MASTER_ENABLED'', REPL_MASTER_ADMIN_ACL),
    (''PRIV_SET_SYSTEM_GLOBAL_VAR_RPL_SEMI_SYNC_MASTER_TIMEOUT'', REPL_MASTER_ADMIN_ACL),
    (''PRIV_SET_SYSTEM_GLOBAL_VAR_RPL_SEMI_SYNC_MASTER_WAIT_NO_SLAVE'', REPL_MASTER_ADMIN_ACL),
    (''PRIV_SET_SYSTEM_GLOBAL_VAR_RPL_SEMI_SYNC_MASTER_TRACE_LEVEL'', REPL_MASTER_ADMIN_ACL),
    (''PRIV_SET_SYSTEM_GLOBAL_VAR_RPL_SEMI_SYNC_MASTER_WAIT_POINT'', REPL_MASTER_ADMIN_ACL),
    (''PRIV_SET_SYSTEM_GLOBAL_VAR_MASTER_VERIFY_CHECKSUM'', REPL_MASTER_ADMIN_ACL),
    (''PRIV_SET_SYSTEM_GLOBAL_VAR_GTID_BINLOG_STATE'', REPL_MASTER_ADMIN_ACL),
    (''PRIV_SET_SYSTEM_GLOBAL_VAR_SERVER_ID'', REPL_MASTER_ADMIN_ACL),
    (''PRIV_SET_SYSTEM_GLOBAL_VAR_GTID_DOMAIN_ID'', REPL_MASTER_ADMIN_ACL)
   ]"

text \<open>Statements on the slave, binary log replay.\<close>

definition priv_slave_statements :: "(string \<times> privilege_t) list" where
  "priv_slave_statements =
   [
    (''PRIV_STMT_START_SLAVE'', REPL_SLAVE_ADMIN_ACL),
    (''PRIV_STMT_STOP_SLAVE'', REPL_SLAVE_ADMIN_ACL),
    (''PRIV_STMT_CHANGE_MASTER'', REPL_SLAVE_ADMIN_ACL),
    (''PRIV_STMT_SHOW_SLAVE_STATUS'', SLAVE_MONITOR_ACL),
    (''PRIV_STMT_SHOW_RELAYLOG_EVENTS'', SLAVE_MONITOR_ACL),
    (''PRIV_STMT_BINLOG'', BINLOG_REPLAY_ACL),
    (''PRIV_SET_SYSTEM_SESSION_VAR_GTID_SEQ_NO'', BINLOG_REPLAY_ACL),
    (''PRIV_SET_SYSTEM_SESSION_VAR_PSEUDO_THREAD_ID'', BINLOG_REPLAY_ACL),
    (''PRIV_SET_SYSTEM_SESSION_VAR_SERVER_ID'', BINLOG_REPLAY_ACL),
    (''PRIV_SET_SYSTEM_SESSION_VAR_GTID_DOMAIN_ID'', BINLOG_REPLAY_ACL)
   ]"

text \<open>Variables of the slave.\<close>

definition priv_slave_variables :: "(string \<times> privilege_t) list" where
  "priv_slave_variables =
   [
    (''PRIV_SET_SYSTEM_GLOBAL_VAR_REPLICATE_EVENTS_MARKED_FOR_SKIP'', REPL_SLAVE_ADMIN_ACL),
    (''PRIV_SET_SYSTEM_GLOBAL_VAR_REPLICATE_REWRITE_DB'', REPL_SLAVE_ADMIN_ACL),
    (''PRIV_SET_SYSTEM_GLOBAL_VAR_REPLICATE_DO_DB'', REPL_SLAVE_ADMIN_ACL),
    (''PRIV_SET_SYSTEM_GLOBAL_VAR_REPLICATE_DO_TABLE'', REPL_SLAVE_ADMIN_ACL),
    (''PRIV_SET_SYSTEM_GLOBAL_VAR_REPLICATE_IGNORE_DB'', REPL_SLAVE_ADMIN_ACL),
    (''PRIV_SET_SYSTEM_GLOBAL_VAR_REPLICATE_IGNORE_TABLE'', REPL_SLAVE_ADMIN_ACL),
    (''PRIV_SET_SYSTEM_GLOBAL_VAR_REPLICATE_WILD_DO_TABLE'', REPL_SLAVE_ADMIN_ACL),
    (''PRIV_SET_SYSTEM_GLOBAL_VAR_REPLICATE_WILD_IGNORE_TABLE'', REPL_SLAVE_ADMIN_ACL),
    (''PRIV_SET_SYSTEM_GLOBAL_VAR_READ_BINLOG_SPEED_LIMIT'', REPL_SLAVE_ADMIN_ACL),
    (''PRIV_SET_SYSTEM_GLOBAL_VAR_SLAVE_COMPRESSED_PROTOCOL'', REPL_SLAVE_ADMIN_ACL),
    (''PRIV_SET_SYSTEM_GLOBAL_VAR_SLAVE_DDL_EXEC_MODE'', REPL_SLAVE_ADMIN_ACL),
    (''PRIV_SET_SYSTEM_GLOBAL_VAR_SLAVE_DOMAIN_PARALLEL_THREADS'', REPL_SLAVE_ADMIN_ACL),
    (''PRIV_SET_SYSTEM_GLOBAL_VAR_SLAVE_EXEC_MODE'', REPL_SLAVE_ADMIN_ACL),
    (''PRIV_SET_SYSTEM_GLOBAL_VAR_SLAVE_MAX_ALLOWED_PACKET'', REPL_SLAVE_ADMIN_ACL),
    (''PRIV_SET_SYSTEM_GLOBAL_VAR_SLAVE_MAX_STATEMENT_TIME'', REPL_SLAVE_ADMIN_ACL),
    (''PRIV_SET_SYSTEM_GLOBAL_VAR_SLAVE_NET_TIMEOUT'', REPL_SLAVE_ADMIN_ACL),
    (''PRIV_SET_SYSTEM_GLOBAL_VAR_SLAVE_PARALLEL_MAX_QUEUED'', REPL_SLAVE_ADMIN_ACL),
    (''PRIV_SET_SYSTEM_GLOBAL_VAR_SLAVE_PARALLEL_MODE'', REPL_SLAVE_ADMIN_ACL),
    (''PRIV_SET_SYSTEM_GLOBAL_VAR_SLAVE_PARALLEL_THREADS'', REPL_SLAVE_ADMIN_ACL),
    (''PRIV_SET_SYSTEM_GLOBAL_VAR_SLAVE_PARALLEL_WORKERS'', REPL_SLAVE_ADMIN_ACL),
    (''PRIV_SET_SYSTEM_GLOBAL_VAR_SLAVE_RUN_TRIGGERS_FOR_RBR'', REPL_SLAVE_ADMIN_ACL),
    (''PRIV_SET_SYSTEM_GLOBAL_VAR_SLAVE_SQL_VERIFY_CHECKSUM'', REPL_SLAVE_ADMIN_ACL),
    (''PRIV_SET_SYSTEM_GLOBAL_VAR_SLAVE_TRANSACTION_RETRY_INTERVAL'', REPL_SLAVE_ADMIN_ACL),
    (''PRIV_SET_SYSTEM_GLOBAL_VAR_SLAVE_TYPE_CONVERSIONS'', REPL_SLAVE_ADMIN_ACL),
    (''PRIV_SET_SYSTEM_GLOBAL_VAR_INIT_SLAVE'', REPL_SLAVE_ADMIN_ACL),
    (''PRIV_SET_SYSTEM_GLOBAL_VAR_RPL_SEMI_SYNC_SLAVE_ENABLED'', REPL_SLAVE_ADMIN_ACL),
    (''PRIV_SET_SYSTEM_GLOBAL_VAR_RPL_SEMI_SYNC_SLAVE_TRACE_LEVEL'', REPL_SLAVE_ADMIN_ACL),
    (''PRIV_SET_SYSTEM_GLOBAL_VAR_RPL_SEMI_SYNC_SLAVE_DELAY_MASTER'', REPL_SLAVE_ADMIN_ACL),
    (''PRIV_SET_SYSTEM_GLOBAL_VAR_RPL_SEMI_SYNC_SLAVE_KILL_CONN_TIMEOUT'', REPL_SLAVE_ADMIN_ACL),
    (''PRIV_SET_SYSTEM_GLOBAL_VAR_RELAY_LOG_PURGE'', REPL_SLAVE_ADMIN_ACL),
    (''PRIV_SET_SYSTEM_GLOBAL_VAR_RELAY_LOG_RECOVERY'', REPL_SLAVE_ADMIN_ACL),
    (''PRIV_SET_SYSTEM_GLOBAL_VAR_SYNC_MASTER_INFO'', REPL_SLAVE_ADMIN_ACL),
    (''PRIV_SET_SYSTEM_GLOBAL_VAR_SYNC_RELAY_LOG'', REPL_SLAVE_ADMIN_ACL),
    (''PRIV_SET_SYSTEM_GLOBAL_VAR_SYNC_RELAY_LOG_INFO'', REPL_SLAVE_ADMIN_ACL),
    (''PRIV_SET_SYSTEM_GLOBAL_VAR_GTID_CLEANUP_BATCH_SIZE'', REPL_SLAVE_ADMIN_ACL),
    (''PRIV_SET_SYSTEM_GLOBAL_VAR_GTID_IGNORE_DUPLICATES'', REPL_SLAVE_ADMIN_ACL),
    (''PRIV_SET_SYSTEM_GLOBAL_VAR_GTID_POS_AUTO_ENGINES'', REPL_SLAVE_ADMIN_ACL),
    (''PRIV_SET_SYSTEM_GLOBAL_VAR_GTID_SLAVE_POS'', REPL_SLAVE_ADMIN_ACL),
    (''PRIV_SET_SYSTEM_GLOBAL_VAR_GTID_STRICT_MODE'', REPL_SLAVE_ADMIN_ACL)
   ]"

text \<open>Federated servers.\<close>

definition priv_federated :: "(string \<times> privilege_t) list" where
  "priv_federated =
   [
    (''PRIV_STMT_CREATE_SERVER'', FEDERATED_ADMIN_ACL),
    (''PRIV_STMT_ALTER_SERVER'', FEDERATED_ADMIN_ACL),
    (''PRIV_STMT_DROP_SERVER'', FEDERATED_ADMIN_ACL)
   ]"

text \<open>Processes.\<close>

definition priv_processes :: "(string \<times> privilege_t) list" where
  "priv_processes =
   [
    (''PRIV_COM_PROCESS_INFO'', PROCESS_ACL),
    (''PRIV_STMT_SHOW_EXPLAIN'', PROCESS_ACL),
    (''PRIV_STMT_SHOW_ENGINE_STATUS'', PROCESS_ACL),
    (''PRIV_STMT_SHOW_ENGINE_MUTEX'', PROCESS_ACL),
    (''PRIV_STMT_SHOW_PROCESSLIST'', PROCESS_ACL)
   ]"

definition required_privileges :: "(string \<times> privilege_t) list" where
  "required_privileges = priv_general @ priv_binlog_variables @ priv_read_only @ priv_connection @
     priv_binlog_statements @ priv_replication_master @ priv_slave_statements @ priv_slave_variables @
     priv_federated @ priv_processes"

lemmas required_defs = required_privileges_def priv_general_def priv_binlog_variables_def priv_read_only_def
  priv_connection_def priv_binlog_statements_def priv_replication_master_def priv_slave_statements_def
  priv_slave_variables_def priv_federated_def priv_processes_def

section \<open>Stored privileges\<close>

definition DB_CHUNK0 :: privilege_t where "DB_CHUNK0 = COL_DML_ACLS OR CREATE_ACL OR DROP_ACL"
definition DB_CHUNK1 :: privilege_t where "DB_CHUNK1 = GRANT_ACL OR REFERENCES_ACL OR INDEX_ACL OR ALTER_ACL"
definition DB_CHUNK2 :: privilege_t where "DB_CHUNK2 = CREATE_TMP_ACL OR LOCK_TABLES_ACL"
definition DB_CHUNK3 :: privilege_t where "DB_CHUNK3 = VIEW_ACLS OR PROC_DDL_ACLS"
definition DB_CHUNK4 :: privilege_t where "DB_CHUNK4 = EXECUTE_ACL"
definition DB_CHUNK5 :: privilege_t where "DB_CHUNK5 = EVENT_ACL OR TRIGGER_ACL"
definition DB_CHUNK6 :: privilege_t where "DB_CHUNK6 = DELETE_HISTORY_ACL"
definition DB_CHUNK7 :: privilege_t where "DB_CHUNK7 = SHOW_CREATE_ROUTINE_ACL"
definition TBL_CHUNK0 :: privilege_t where "TBL_CHUNK0 = DB_CHUNK0"
definition TBL_CHUNK1 :: privilege_t where "TBL_CHUNK1 = DB_CHUNK1"
definition TBL_CHUNK2 :: privilege_t where "TBL_CHUNK2 = CREATE_VIEW_ACL OR SHOW_VIEW_ACL"
definition TBL_CHUNK3 :: privilege_t where "TBL_CHUNK3 = TRIGGER_ACL"
definition TBL_CHUNK4 :: privilege_t where "TBL_CHUNK4 = DELETE_HISTORY_ACL"

lemmas chunk_defs =
  DB_CHUNK0_def DB_CHUNK1_def DB_CHUNK2_def DB_CHUNK3_def DB_CHUNK4_def DB_CHUNK5_def DB_CHUNK6_def
  DB_CHUNK7_def TBL_CHUNK0_def TBL_CHUNK1_def TBL_CHUNK2_def TBL_CHUNK3_def TBL_CHUNK4_def

definition fix_rights_for_db :: "privilege_t \<Rightarrow> privilege_t" where
  "fix_rights_for_db A =
     (A AND DB_CHUNK0) OR
     (push_bit 4 A AND DB_CHUNK1) OR
     (push_bit 6 A AND DB_CHUNK2) OR
     (push_bit 9 A AND DB_CHUNK3) OR
     (push_bit 2 A AND DB_CHUNK4) OR
     (push_bit 9 A AND DB_CHUNK5) OR
     (push_bit 10 A AND DB_CHUNK6) OR
     (push_bit 19 A AND DB_CHUNK7)"

definition get_rights_for_db :: "privilege_t \<Rightarrow> privilege_t" where
  "get_rights_for_db A =
     (A AND DB_CHUNK0) OR
     drop_bit 4 (A AND DB_CHUNK1) OR
     drop_bit 6 (A AND DB_CHUNK2) OR
     drop_bit 9 (A AND DB_CHUNK3) OR
     drop_bit 2 (A AND DB_CHUNK4) OR
     drop_bit 9 (A AND DB_CHUNK5) OR
     drop_bit 10 (A AND DB_CHUNK6) OR
     drop_bit 19 (A AND DB_CHUNK7)"

definition fix_rights_for_table :: "privilege_t \<Rightarrow> privilege_t" where
  "fix_rights_for_table A =
     (A AND TBL_CHUNK0) OR
     (push_bit 4 A AND TBL_CHUNK1) OR
     (push_bit 11 A AND TBL_CHUNK2) OR
     (push_bit 15 A AND TBL_CHUNK3) OR
     (push_bit 16 A AND TBL_CHUNK4)"

definition get_rights_for_table :: "privilege_t \<Rightarrow> privilege_t" where
  "get_rights_for_table A =
     (A AND TBL_CHUNK0) OR
     drop_bit 4 (A AND TBL_CHUNK1) OR
     drop_bit 11 (A AND TBL_CHUNK2) OR
     drop_bit 15 (A AND TBL_CHUNK3) OR
     drop_bit 16 (A AND TBL_CHUNK4)"

definition fix_rights_for_column :: "privilege_t \<Rightarrow> privilege_t" where
  "fix_rights_for_column A =
     (let mask = SELECT_ACL OR INSERT_ACL OR UPDATE_ACL
      in (A AND mask) OR push_bit 8 (A AND NOT mask))"

definition get_rights_for_column :: "privilege_t \<Rightarrow> privilege_t" where
  "get_rights_for_column A =
     (let mask = SELECT_ACL OR INSERT_ACL OR UPDATE_ACL
      in (A AND mask) OR drop_bit 8 A)"

definition fix_rights_for_procedure :: "privilege_t \<Rightarrow> privilege_t" where
  "fix_rights_for_procedure A =
     (push_bit 35 A AND SHOW_CREATE_ROUTINE_ACL) OR
     (push_bit 18 A AND EXECUTE_ACL) OR
     (push_bit 23 A AND ALTER_PROC_ACL) OR
     (push_bit 8 A AND GRANT_ACL)"

definition get_rights_for_procedure :: "privilege_t \<Rightarrow> privilege_t" where
  "get_rights_for_procedure A =
     drop_bit 35 (A AND SHOW_CREATE_ROUTINE_ACL) OR
     drop_bit 18 (A AND EXECUTE_ACL) OR
     drop_bit 23 (A AND ALTER_PROC_ACL) OR
     drop_bit 8 (A AND GRANT_ACL)"

section \<open>Functions determined by single bits\<close>

definition single_bit :: "nat \<Rightarrow> privilege_t" where
  "single_bit k = (if k < 64 then push_bit k 1 else 0)"

lemma bit_single: "bit (single_bit k) n \<longleftrightarrow> n = k \<and> k < 64"
  by (auto simp: single_bit_def bit_simps)

lemma single_bit_ops:
  "push_bit i (single_bit k) = single_bit (k + i)"
  "k < 64 \<Longrightarrow> drop_bit i (single_bit k) = (if i \<le> k then single_bit (k - i) else 0)"
  "single_bit k AND m = (if bit m k then single_bit k else 0)"
  by (auto intro!: bit_word_eqI simp: bit_simps bit_single)

text \<open>A function that commutes with \<open>OR\<close> is known from its values on the 64 single bits.\<close>

definition or_linear :: "(privilege_t \<Rightarrow> privilege_t) \<Rightarrow> bool" where
  "or_linear f \<longleftrightarrow> f 0 = 0 \<and> (\<forall>a b. f (a OR b) = f a OR f b)"

lemma or_linear_eqI:
  assumes f: "or_linear f" and g: "or_linear g"
    and eq: "list_all (\<lambda>k. f (single_bit k) = g (single_bit k)) [0..<64]"
  shows "f a = g a"
proof -
  have step: "take_bit (Suc k) a = take_bit k a OR (if bit a k then single_bit k else 0)" for k
    by (rule bit_word_eqI) (auto simp: bit_simps bit_single less_Suc_eq)
  have "f (take_bit k a) = g (take_bit k a)" if "k \<le> 64" for k
    using that
  proof (induction k)
    case (Suc k)
    have "f (if bit a k then single_bit k else 0) = g (if bit a k then single_bit k else 0)"
      using Suc(2) eq f g by (simp add: list_all_iff or_linear_def)
    then show ?case using Suc f g unfolding step by (simp only: or_linear_def)
  qed (use f g in \<open>simp add: or_linear_def\<close>)
  from this [of 64] show ?thesis by (simp add: take_bit_word_eq_self)
qed

lemma or_linear_intros:
  "or_linear (\<lambda>a. a)" "or_linear f \<Longrightarrow> or_linear (\<lambda>a. f a AND m)"
  "or_linear f \<Longrightarrow> or_linear g \<Longrightarrow> or_linear (\<lambda>a. f a OR g a)"
  "or_linear f \<Longrightarrow> or_linear (\<lambda>a. push_bit k (f a))" "or_linear f \<Longrightarrow> or_linear (\<lambda>a. drop_bit k (f a))"
  by (auto simp: or_linear_def bit.conj_disj_distrib bit.conj_disj_distrib2 ac_simps push_bit_or drop_bit_or)

section \<open>The constants as numbers\<close>

lemma chunk_values:
  "DB_CHUNK0 = 0x3F" "DB_CHUNK1 = 0x3C00" "DB_CHUNK2 = 0x30000" "DB_CHUNK3 = 0x1E00000" "DB_CHUNK4 = 0x40000"
  "DB_CHUNK5 = 0xC000000" "DB_CHUNK6 = 0x20000000" "DB_CHUNK7 = 0x8000000000"
  "TBL_CHUNK0 = 0x3F" "TBL_CHUNK1 = 0x3C00" "TBL_CHUNK2 = 0x600000" "TBL_CHUNK3 = 0x8000000" "TBL_CHUNK4 = 0x20000000"
  by code_simp+

lemma group_values:
  "GLOBAL_ACLS = 0xFFFFFFFFFF" "DB_ACLS = 0x802DE73C3F" "TABLE_ACLS = 0x28603C3F" "COL_ACLS = 0x807"
  "PROC_ACLS = 0x8001040400" "SELECT_ACL OR INSERT_ACL OR UPDATE_ACL = 7"
  by code_simp+

lemma routine_values:
  "SHOW_CREATE_ROUTINE_ACL = 0x8000000000" "EXECUTE_ACL = 0x40000" "ALTER_PROC_ACL = 0x1000000" "GRANT_ACL = 0x400"
  by code_simp+

lemmas rights_defs = fix_rights_for_db_def get_rights_for_db_def fix_rights_for_table_def get_rights_for_table_def
  fix_rights_for_column_def get_rights_for_column_def fix_rights_for_procedure_def get_rights_for_procedure_def

lemma or_linear_rights:
  "or_linear f \<Longrightarrow> or_linear (\<lambda>a. fix_rights_for_db (f a))" "or_linear f \<Longrightarrow> or_linear (\<lambda>a. get_rights_for_db (f a))"
  "or_linear f \<Longrightarrow> or_linear (\<lambda>a. fix_rights_for_table (f a))" "or_linear f \<Longrightarrow> or_linear (\<lambda>a. get_rights_for_table (f a))"
  "or_linear f \<Longrightarrow> or_linear (\<lambda>a. fix_rights_for_column (f a))" "or_linear f \<Longrightarrow> or_linear (\<lambda>a. get_rights_for_column (f a))"
  "or_linear f \<Longrightarrow> or_linear (\<lambda>a. fix_rights_for_procedure (f a))"
  "or_linear f \<Longrightarrow> or_linear (\<lambda>a. get_rights_for_procedure (f a))"
  unfolding rights_defs Let_def by ((rule or_linear_intros | assumption)+)

lemmas or_linear_rules = or_linear_rights or_linear_intros

text \<open>The cases of a single bit are decided by evaluating the masks at its position.\<close>

lemmas single_bit_eval = rights_defs chunk_values routine_values group_values Let_def single_bit_ops upt_rec
  numeral_2_eq_2 [symmetric]

section \<open>Properties\<close>


text \<open>The other way round: the columns of the system tables are stored densely, 21 for a database,
  a set of 14 for a table, a set of 4 for a column, and reading what was stored gives them back. A routine
  has four privileges, but the highest is stored in bit 4, which a set of four elements does not
  have.\<close>

theorem stored_rights_dense:
  "get_rights_for_db (fix_rights_for_db x) = x AND mask 21 \<and>
   get_rights_for_table (fix_rights_for_table x) = x AND mask 14 \<and>
   get_rights_for_column (fix_rights_for_column (x AND mask 4)) = x AND mask 4 \<and>
   get_rights_for_procedure (fix_rights_for_procedure x) = x AND 0b10111 \<and>
   get_rights_for_procedure SHOW_CREATE_ROUTINE_ACL = push_bit 4 1"
proof (intro conjI)
  have m: "(mask 21 :: privilege_t) = 0x1FFFFF" "(mask 14 :: privilege_t) = 0x3FFF" "(mask 4 :: privilege_t) = 0xF"
    by (simp_all add: mask_eq_exp_minus_1)
  have "or_linear (\<lambda>a. get_rights_for_db (fix_rights_for_db a))" "or_linear (\<lambda>a. a AND mask 21)"
    by (rule or_linear_rules)+
  from or_linear_eqI [OF this] show "get_rights_for_db (fix_rights_for_db x) = x AND mask 21"
    by (simp add: single_bit_eval m)
  have "or_linear (\<lambda>a. get_rights_for_table (fix_rights_for_table a))" "or_linear (\<lambda>a. a AND mask 14)"
    by (rule or_linear_rules)+
  from or_linear_eqI [OF this] show "get_rights_for_table (fix_rights_for_table x) = x AND mask 14"
    by (simp add: single_bit_eval m)
  have "or_linear (\<lambda>a. get_rights_for_column (fix_rights_for_column (a AND mask 4)))" "or_linear (\<lambda>a. a AND mask 4)"
    by (rule or_linear_rules)+
  from or_linear_eqI [OF this]
  show "get_rights_for_column (fix_rights_for_column (x AND mask 4)) = x AND mask 4"
    by (simp add: single_bit_eval m)
  have "or_linear (\<lambda>a. get_rights_for_procedure (fix_rights_for_procedure a))" "or_linear (\<lambda>a. a AND 0b10111)"
    by (rule or_linear_rules)+
  from or_linear_eqI [OF this] show "get_rights_for_procedure (fix_rights_for_procedure x) = x AND 0b10111"
    by (simp add: single_bit_eval)
  show "get_rights_for_procedure SHOW_CREATE_ROUTINE_ACL = push_bit 4 1"
    by code_simp
qed

text \<open>The privileges a statement or a variable asks for can be granted: the global level has
  exactly the known privileges, each level is part of the next, and each entry of the
  table asks for at least one privilege, a global one.\<close>

theorem privileges_grantable:
  "GLOBAL_ACLS = ALL_KNOWN_ACL \<and> ALL_KNOWN_ACL = mask (PRIVILEGE_T_MAX_BIT + 1) \<and>
   TABLE_ACLS AND NOT DB_ACLS = 0 \<and> PROC_ACLS AND NOT DB_ACLS = 0 \<and> COL_ACLS AND NOT TABLE_ACLS = 0 \<and>
   DB_ACLS AND NOT GLOBAL_ACLS = 0 \<and> SHOW_CREATE_TABLE_ACLS AND NOT TABLE_ACLS = 0 \<and>
   list_all (\<lambda>(name, p). p \<noteq> 0 \<and> p AND NOT GLOBAL_ACLS = 0) required_privileges"
proof (intro conjI)
  show "GLOBAL_ACLS = ALL_KNOWN_ACL" by code_simp
  show "ALL_KNOWN_ACL = mask (PRIVILEGE_T_MAX_BIT + 1)" by code_simp
  show "TABLE_ACLS AND NOT DB_ACLS = 0" "PROC_ACLS AND NOT DB_ACLS = 0" "COL_ACLS AND NOT TABLE_ACLS = 0"
    "DB_ACLS AND NOT GLOBAL_ACLS = 0" "SHOW_CREATE_TABLE_ACLS AND NOT TABLE_ACLS = 0" by code_simp+
  show "list_all (\<lambda>(name, p). p \<noteq> 0 \<and> p AND NOT GLOBAL_ACLS = 0) required_privileges"
    unfolding required_defs group_values by (simp add: acl_bits)
qed

end
