(* ===== verification/Sql_List.thy ===== *)
theory Sql_List
  imports Prelude
begin

text \<open>
  The lists of the SQL layer (\<open>private/sql_list.h\<close>): \<open>base_list\<close>, singly linked and closed by the node
  \<open>end_of_list\<close>, and its iterator. A variable of type \<open>list_node *\<close> is a cell: the field \<open>first\<close> of a
  list or the field \<open>next\<close> of a node; \<open>last\<close>, a pointer to such a variable, is a cell. All cells live
  in one heap, so that lists can share nodes as the code lets them. The node that \<open>new\<close> gives is an
  argument, None when it fails; freeing a node leaves its fields alone. \<open>uint\<close> counters are natural
  numbers: a list has less than \<open>2 ^ 32\<close> nodes, and \<open>remove\<close> and \<open>pop\<close> count down only a list with
  elements. The template \<open>List\<close> and its iterators forward to these operations.
\<close>

section \<open>Memory\<close>

datatype node = Null | End_of_list | Node nat
datatype cell = First nat | Next node

type_synonym lid = nat
type_synonym val = nat

record list_heap =
  ptr :: "cell \<Rightarrow> node"
  info :: "node \<Rightarrow> val"
  list_last :: "lid \<Rightarrow> cell"
  elements :: "lid \<Rightarrow> nat"

definition set_ptr :: "cell \<Rightarrow> node \<Rightarrow> list_heap \<Rightarrow> list_heap" where
  "set_ptr c p h = h\<lparr>ptr := (ptr h)(c := p)\<rparr>"

definition set_info :: "node \<Rightarrow> val \<Rightarrow> list_heap \<Rightarrow> list_heap" where
  "set_info n v h = h\<lparr>info := (info h)(n := v)\<rparr>"

definition set_last :: "lid \<Rightarrow> cell \<Rightarrow> list_heap \<Rightarrow> list_heap" where
  "set_last l c h = h\<lparr>list_last := (list_last h)(l := c)\<rparr>"

definition set_elements :: "lid \<Rightarrow> nat \<Rightarrow> list_heap \<Rightarrow> list_heap" where
  "set_elements l n h = h\<lparr>elements := (elements h)(l := n)\<rparr>"

lemma heap_simps [simp]:
  "ptr (set_ptr c p h) = (ptr h)(c := p)" "info (set_ptr c p h) = info h"
  "list_last (set_ptr c p h) = list_last h" "elements (set_ptr c p h) = elements h"
  "ptr (set_info n v h) = ptr h" "info (set_info n v h) = (info h)(n := v)"
  "list_last (set_info n v h) = list_last h" "elements (set_info n v h) = elements h"
  "ptr (set_last l c h) = ptr h" "info (set_last l c h) = info h"
  "list_last (set_last l c h) = (list_last h)(l := c)" "elements (set_last l c h) = elements h"
  "ptr (set_elements l k h) = ptr h" "info (set_elements l k h) = info h"
  "list_last (set_elements l k h) = list_last h" "elements (set_elements l k h) = (elements h)(l := k)"
  by (simp_all add: set_ptr_def set_info_def set_last_def set_elements_def)

text \<open>\<open>new list_node(info, next)\<close> at the node \<open>n\<close>.\<close>

definition list_node :: "node \<Rightarrow> val \<Rightarrow> node \<Rightarrow> list_heap \<Rightarrow> list_heap" where
  "list_node n info_par next_par h = set_info n info_par (set_ptr (Next n) next_par h)"

section \<open>base\_list\<close>

definition list_empty :: "lid \<Rightarrow> list_heap \<Rightarrow> list_heap" where
  "list_empty l h = set_last l (First l) (set_ptr (First l) End_of_list (set_elements l 0 h))"

definition list_is_empty :: "lid \<Rightarrow> list_heap \<Rightarrow> bool" where
  "list_is_empty l h \<longleftrightarrow> ptr h (First l) = End_of_list"

definition list_equal :: "lid \<Rightarrow> lid \<Rightarrow> list_heap \<Rightarrow> bool" where
  "list_equal l rhs h \<longleftrightarrow> elements h l = elements h rhs \<and> ptr h (First l) = ptr h (First rhs) \<and>
     list_last h l = list_last h rhs"

definition list_assign :: "lid \<Rightarrow> lid \<Rightarrow> list_heap \<Rightarrow> list_heap" where
  "list_assign l rhs h =
     (let h = set_elements l (elements h rhs) h;
          h = set_ptr (First l) (ptr h (First rhs)) h
      in set_last l (if elements h l \<noteq> 0 then list_last h rhs else First l) h)"

definition push_back :: "nat option \<Rightarrow> val \<Rightarrow> lid \<Rightarrow> list_heap \<Rightarrow> bool \<times> list_heap" where
  "push_back alloc v l h =
     (case alloc of
        None \<Rightarrow> (True, set_ptr (list_last h l) Null h)
      | Some n \<Rightarrow>
          let h = list_node (Node n) v End_of_list h;
              h = set_ptr (list_last h l) (Node n) h;
              h = set_last l (Next (Node n)) h
          in (False, set_elements l (elements h l + 1) h))"

definition push_front_impl :: "node \<Rightarrow> lid \<Rightarrow> list_heap \<Rightarrow> bool \<times> list_heap" where
  "push_front_impl node l h =
     (if node \<noteq> Null then
        let h = (if list_last h l = First l then set_last l (Next node) h else h);
            h = set_ptr (First l) node h
        in (False, set_elements l (elements h l + 1) h)
      else (True, h))"

definition push_front :: "nat option \<Rightarrow> val \<Rightarrow> lid \<Rightarrow> list_heap \<Rightarrow> bool \<times> list_heap" where
  "push_front alloc v l h =
     (case alloc of
        None \<Rightarrow> push_front_impl Null l h
      | Some n \<Rightarrow> push_front_impl (Node n) l (list_node (Node n) v (ptr h (First l)) h))"

definition list_remove :: "cell \<Rightarrow> lid \<Rightarrow> list_heap \<Rightarrow> list_heap" where
  "list_remove prev l h =
     (let node = ptr h (Next (ptr h prev));
          h = set_elements l (elements h l - 1) h;
          h = (if elements h l = 0 then set_last l (First l) h
               else if list_last h l = Next (ptr h prev) then set_last l prev h else h)
      in set_ptr prev node h)"

definition list_append :: "lid \<Rightarrow> lid \<Rightarrow> list_heap \<Rightarrow> list_heap" where
  "list_append l list h =
     (if list_is_empty list h then h
      else if list_is_empty l h then list_assign l list h
      else
        let h = set_ptr (list_last h l) (ptr h (First list)) h;
            h = set_last l (list_last h list) h
        in set_elements l (elements h l + elements h list) h)"

text \<open>\<open>pop\<close> answers 0, a null pointer, for an empty list.\<close>

definition list_pop :: "lid \<Rightarrow> list_heap \<Rightarrow> val \<times> list_heap" where
  "list_pop l h =
     (if ptr h (First l) = End_of_list then (0, h)
      else
        let tmp = ptr h (First l);
            h = set_ptr (First l) (ptr h (Next tmp)) h;
            h = set_elements l (elements h l - 1) h;
            h = (if elements h l = 0 then set_last l (First l) h else h)
        in (info h tmp, h))"

text \<open>The loop of \<open>disjoin\<close>: the last \<open>prev\<close>, whether the loop returned from the function, and the
  heap with the elements counted.\<close>

partial_function (option) disjoin_loop ::
  "lid \<Rightarrow> node \<Rightarrow> cell \<Rightarrow> node \<Rightarrow> list_heap \<Rightarrow> (cell \<times> bool \<times> list_heap) option" where
  "disjoin_loop l list_first prev node h =
     (if node \<noteq> End_of_list \<and> node \<noteq> list_first then
        let prev = Next node;
            node = ptr h (Next node);
            h = set_elements l (elements h l + 1) h
        in if node = End_of_list then Some (prev, True, h) else disjoin_loop l list_first prev node h
      else Some (prev, False, h))"

definition list_disjoin :: "lid \<Rightarrow> lid \<Rightarrow> list_heap \<Rightarrow> list_heap option" where
  "list_disjoin l list h =
     (case disjoin_loop l (ptr h (First list)) (First l) (ptr h (First l)) (set_elements l 0 h) of
        None \<Rightarrow> None
      | Some (prev, returned, h) \<Rightarrow> Some (if returned then h else set_last l prev (set_ptr prev End_of_list h)))"

definition list_prepend :: "lid \<Rightarrow> lid \<Rightarrow> list_heap \<Rightarrow> list_heap" where
  "list_prepend l list h =
     (if list_is_empty list h then h
      else
        let h = (if list_is_empty l h then set_last l (list_last h list) h else h);
            h = set_ptr (list_last h list) (ptr h (First l)) h;
            h = set_ptr (First l) (ptr h (First list)) h
        in set_elements l (elements h l + elements h list) h)"

definition list_swap :: "lid \<Rightarrow> lid \<Rightarrow> list_heap \<Rightarrow> list_heap" where
  "list_swap l rhs h =
     (let rhs_last = list_last h rhs;
          h = h\<lparr>ptr := (ptr h)(First l := ptr h (First rhs), First rhs := ptr h (First l))\<rparr>;
          h = h\<lparr>elements := (elements h)(l := elements h rhs, rhs := elements h l)\<rparr>;
          h = set_last rhs (if list_last h l = First l then First rhs else list_last h l) h
      in set_last l (if rhs_last = First rhs then First l else rhs_last) h)"

definition last_node :: "lid \<Rightarrow> list_heap \<Rightarrow> node" where
  "last_node l h = ptr h (list_last h l)"

definition first_node :: "lid \<Rightarrow> list_heap \<Rightarrow> node" where
  "first_node l h = ptr h (First l)"

definition list_head :: "lid \<Rightarrow> list_heap \<Rightarrow> val" where
  "list_head l h = info h (ptr h (First l))"

text \<open>\<open>head_ref\<close>: the node whose field \<open>info\<close> is pointed to.\<close>

definition list_head_ref :: "lid \<Rightarrow> list_heap \<Rightarrow> node option" where
  "list_head_ref l h = (if ptr h (First l) \<noteq> End_of_list then Some (ptr h (First l)) else None)"

text \<open>The search of \<open>add_unique\<close>: the node it stops at.\<close>

partial_function (option) find_equal :: "(val \<Rightarrow> val \<Rightarrow> bool) \<Rightarrow> val \<Rightarrow> node \<Rightarrow> list_heap \<Rightarrow> node option" where
  "find_equal eq v node h =
     (if node \<noteq> End_of_list \<and> \<not> eq (info h node) v then find_equal eq v (ptr h (Next node)) h else Some node)"

definition add_unique ::
  "(val \<Rightarrow> val \<Rightarrow> bool) \<Rightarrow> nat option \<Rightarrow> val \<Rightarrow> lid \<Rightarrow> list_heap \<Rightarrow> (bool \<times> list_heap) option" where
  "add_unique eq alloc v l h =
     (case find_equal eq v (ptr h (First l)) h of
        None \<Rightarrow> None
      | Some node \<Rightarrow> Some (if node = End_of_list then push_back alloc v l h else (True, h)))"

text \<open>The loop of \<open>elem\<close>, with the number of steps left and \<open>data\<close>.\<close>

fun elem_loop :: "nat \<Rightarrow> node \<Rightarrow> val \<Rightarrow> list_heap \<Rightarrow> val" where
  "elem_loop 0 node data h = data"
| "elem_loop (Suc i) node data h =
     (if node = End_of_list then 0 else elem_loop i (ptr h (Next node)) (info h node) h)"

definition list_elem :: "nat \<Rightarrow> lid \<Rightarrow> list_heap \<Rightarrow> val" where
  "list_elem n l h = elem_loop (n + 1) (ptr h (First l)) 0 h"

definition list_after :: "nat \<Rightarrow> val \<Rightarrow> node \<Rightarrow> lid \<Rightarrow> list_heap \<Rightarrow> list_heap" where
  "list_after n v node l h =
     (let h = list_node (Node n) v (ptr h (Next node)) h;
          h = set_ptr (Next node) (Node n) h;
          h = set_elements l (elements h l + 1) h
      in if list_last h l = Next node then set_last l (Next (Node n)) h else h)"

section \<open>base\_list\_iterator\<close>

record list_iterator =
  it_list :: lid
  el :: cell
  prev :: "cell option"
  current :: node

definition iterator_init :: "lid \<Rightarrow> list_iterator" where
  "iterator_init l = \<lparr>it_list = l, el = First l, prev = None, current = Null\<rparr>"

definition iterator_next :: "list_iterator \<Rightarrow> list_heap \<Rightarrow> val \<times> list_iterator" where
  "iterator_next it h =
     (let cur = ptr h (el it)
      in (info h cur, it\<lparr>prev := Some (el it), current := cur, el := Next cur\<rparr>))"

definition iterator_peek :: "list_iterator \<Rightarrow> list_heap \<Rightarrow> val" where
  "iterator_peek it h = info h (ptr h (el it))"

definition iterator_next_fast :: "list_iterator \<Rightarrow> list_heap \<Rightarrow> val \<times> list_iterator" where
  "iterator_next_fast it h = (let tmp = ptr h (el it) in (info h tmp, it\<lparr>el := Next tmp\<rparr>))"

definition iterator_rewind :: "list_iterator \<Rightarrow> list_iterator" where
  "iterator_rewind it = it\<lparr>el := First (it_list it)\<rparr>"

definition iterator_replace :: "val \<Rightarrow> list_iterator \<Rightarrow> list_heap \<Rightarrow> (val \<times> list_heap) option" where
  "iterator_replace v it h =
     (if info h (current it) = 0 then None
      else Some (info h (current it), set_info (current it) v h))"

definition iterator_replace_list :: "lid \<Rightarrow> list_iterator \<Rightarrow> list_heap \<Rightarrow> val \<times> list_heap" where
  "iterator_replace_list new_list it h =
     (info h (current it),
      if list_is_empty new_list h then h
      else
        let h = set_ptr (list_last h new_list) (ptr h (Next (current it))) h;
            h = set_info (current it) (info h (ptr h (First new_list))) h;
            h = set_ptr (Next (current it)) (ptr h (Next (ptr h (First new_list)))) h;
            h = (if list_last h (it_list it) = Next (current it) \<and> elements h new_list > 1
                 then set_last (it_list it) (list_last h new_list) h else h)
        in set_elements (it_list it) (elements h (it_list it) + elements h new_list - 1) h)"

text \<open>\<open>remove\<close>: None when \<open>next\<close> was not called, for then \<open>prev\<close> is a null pointer.\<close>

definition iterator_remove :: "list_iterator \<Rightarrow> list_heap \<Rightarrow> (list_iterator \<times> list_heap) option" where
  "iterator_remove it h =
     (case prev it of
        None \<Rightarrow> None
      | Some p \<Rightarrow> Some (it\<lparr>el := p, current := Null\<rparr>, list_remove p (it_list it) h))"

definition iterator_after :: "nat \<Rightarrow> val \<Rightarrow> list_iterator \<Rightarrow> list_heap \<Rightarrow> list_iterator \<times> list_heap" where
  "iterator_after n v it h =
     (let h = list_after n v (current it) (it_list it) h;
          cur = ptr h (Next (current it))
      in (it\<lparr>current := cur, el := Next cur\<rparr>, h))"

definition iterator_is_last :: "list_iterator \<Rightarrow> bool" where
  "iterator_is_last it \<longleftrightarrow> el it = Next End_of_list"

definition iterator_at_end :: "list_iterator \<Rightarrow> bool" where
  "iterator_at_end it \<longleftrightarrow> current it = End_of_list"

definition iterator_sublist :: "lid \<Rightarrow> nat \<Rightarrow> list_iterator \<Rightarrow> list_heap \<Rightarrow> list_heap" where
  "iterator_sublist ls elm it h =
     set_elements ls elm (set_last ls (list_last h (it_list it)) (set_ptr (First ls) (ptr h (el it)) h))"

section \<open>What a list holds\<close>

text \<open>The path of nodes from a cell to an end.\<close>

fun path :: "(cell \<Rightarrow> node) \<Rightarrow> cell \<Rightarrow> nat list \<Rightarrow> node \<Rightarrow> bool" where
  "path p c [] e \<longleftrightarrow> p c = e"
| "path p c (x # xs) e \<longleftrightarrow> p c = Node x \<and> path p (Next (Node x)) xs e"

fun last_cell :: "cell \<Rightarrow> nat list \<Rightarrow> cell" where
  "last_cell c [] = c"
| "last_cell c (x # xs) = last_cell (Next (Node x)) xs"

definition heap_ok :: "list_heap \<Rightarrow> bool" where
  "heap_ok h \<longleftrightarrow> ptr h (Next End_of_list) = End_of_list \<and> info h End_of_list = 0"

definition list_ok :: "lid \<Rightarrow> nat list \<Rightarrow> list_heap \<Rightarrow> bool" where
  "list_ok l xs h \<longleftrightarrow> heap_ok h \<and> path (ptr h) (First l) xs End_of_list \<and> distinct xs \<and>
     list_last h l = last_cell (First l) xs \<and> elements h l = length xs"

abbreviation infos :: "nat list \<Rightarrow> list_heap \<Rightarrow> val list" where
  "infos xs h \<equiv> map (\<lambda>x. info h (Node x)) xs"

lemma path_append [simp]:
  "path p c (xs @ ys) e \<longleftrightarrow> path p c xs (p (last_cell c xs)) \<and> path p (last_cell c xs) ys e"
  by (induction xs arbitrary: c) auto

lemma last_cell_append [simp]: "last_cell c (xs @ ys) = last_cell (last_cell c xs) ys"
  by (induction xs arbitrary: c) auto

lemma last_cell_last: "xs \<noteq> [] \<Longrightarrow> last_cell c xs = Next (Node (last xs))"
  by (induction xs arbitrary: c) auto

lemma last_cell_in: "last_cell c xs = c \<or> (\<exists>x\<in>set xs. last_cell c xs = Next (Node x))"
  by (induction xs arbitrary: c) auto

lemma path_end: "path p c xs e \<Longrightarrow> p (last_cell c xs) = e"
  by (induction xs arbitrary: c) auto

lemma next_cells [simp]:
  "First l \<notin> (\<lambda>x. Next (Node x)) ` A" "Next End_of_list \<notin> (\<lambda>x. Next (Node x)) ` A"
  "Next Null \<notin> (\<lambda>x. Next (Node x)) ` A" "Next (Node n) \<in> (\<lambda>x. Next (Node x)) ` A \<longleftrightarrow> n \<in> A"
  by auto

text \<open>Writing a cell that is not on the path leaves it alone; writing its last cell moves its end.\<close>

lemma path_upd [simp]:
  "d \<noteq> c \<Longrightarrow> d \<notin> (\<lambda>x. Next (Node x)) ` set xs \<Longrightarrow> path (p(d := v)) c xs e \<longleftrightarrow> path p c xs e"
  by (induction xs arbitrary: c) auto

lemma path_redirect:
  "path p c xs e \<Longrightarrow> distinct xs \<Longrightarrow> c \<notin> (\<lambda>x. Next (Node x)) ` set xs \<Longrightarrow> path (p(last_cell c xs := e')) c xs e'"
proof (induction xs arbitrary: c)
  case (Cons x xs)
  have "last_cell (Next (Node x)) xs \<noteq> c" using Cons.prems last_cell_in [of "Next (Node x)" xs] by auto
  moreover have "path (p(last_cell (Next (Node x)) xs := e')) (Next (Node x)) xs e'"
    using Cons.prems by (intro Cons.IH) auto
  ultimately show ?case
    unfolding path.simps last_cell.simps using Cons.prems by (intro conjI) simp_all
qed simp

lemma first_not_next [simp]: "First l \<noteq> Next n" "Next n \<noteq> First l" by simp_all

lemma list_first:
  assumes "list_ok l xs h"
  shows "ptr h (First l) = (case xs of [] \<Rightarrow> End_of_list | x # _ \<Rightarrow> Node x)"
  using assms by (cases xs) (simp_all add: list_ok_def)

lemma list_is_empty_iff: "list_ok l xs h \<Longrightarrow> list_is_empty l h \<longleftrightarrow> xs = []"
  by (cases xs) (auto simp: list_is_empty_def list_ok_def)

lemma list_empty_ok: "heap_ok h \<Longrightarrow> list_ok l [] (list_empty l h)"
  by (simp add: list_ok_def list_empty_def heap_ok_def)

section \<open>The operations on one list\<close>

lemma push_back_ok:
  assumes "list_ok l xs h" and "n \<notin> set xs"
  shows "\<exists>h'. push_back (Some n) v l h = (False, h') \<and> list_ok l (xs @ [n]) h' \<and>
    infos (xs @ [n]) h' = infos xs h @ [v]"
proof -
  have ok: "path (ptr h) (First l) xs End_of_list" "distinct xs" "list_last h l = last_cell (First l) xs"
    using assms(1) by (simp_all add: list_ok_def)
  have "last_cell (First l) xs \<noteq> Next (Node n)" "last_cell (First l) xs \<noteq> Next End_of_list"
    using last_cell_in [of "First l" xs] assms(2) by auto
  moreover have "path ((ptr h)(Next (Node n) := End_of_list)) (First l) xs End_of_list"
    using ok(1) assms(2) by (subst path_upd) auto
  then have "path ((ptr h)(Next (Node n) := End_of_list, last_cell (First l) xs := Node n)) (First l) xs (Node n)"
    using ok(2) by (intro path_redirect) auto
  ultimately show ?thesis
    using assms ok by (auto simp: push_back_def list_node_def list_ok_def heap_ok_def Let_def)
qed

lemma push_front_ok:
  assumes "list_ok l xs h" and "n \<notin> set xs"
  shows "\<exists>h'. push_front (Some n) v l h = (False, h') \<and> list_ok l (n # xs) h' \<and>
    infos (n # xs) h' = v # infos xs h"
proof -
  have ok: "path (ptr h) (First l) xs End_of_list" "list_last h l = last_cell (First l) xs"
    using assms(1) by (simp_all add: list_ok_def)
  have e: "xs = [] \<longleftrightarrow> list_last h l = First l"
    using ok(2) last_cell_last [of xs "First l"] by (cases "xs = []") auto
  have p: "path ((ptr h)(Next (Node n) := ptr h (First l), First l := Node n)) (Next (Node n)) xs End_of_list"
    using ok(1) assms(2) by (cases xs) auto
  have "last_cell (Next (Node n)) xs = (if xs = [] then Next (Node n) else list_last h l)"
    using ok(2) last_cell_last [of xs] by (cases "xs = []") auto
  then show ?thesis
    using assms e p by (auto simp: push_front_def push_front_impl_def list_node_def list_ok_def heap_ok_def Let_def)
qed

lemma list_pop_empty: "list_ok l [] h \<Longrightarrow> list_pop l h = (0, h)"
  by (simp add: list_pop_def list_ok_def)

lemma list_pop_ok:
  assumes "list_ok l (x # xs) h"
  shows "\<exists>h'. list_pop l h = (info h (Node x), h') \<and> list_ok l xs h' \<and> info h' = info h"
proof -
  have ok: "path (ptr h) (First l) (x # xs) End_of_list" "x \<notin> set xs" "distinct xs"
    using assms by (simp_all add: list_ok_def)
  have "path ((ptr h)(First l := ptr h (Next (Node x)))) (First l) xs End_of_list"
    using ok by (cases xs) auto
  moreover have "xs \<noteq> [] \<Longrightarrow> last_cell (Next (Node x)) xs = last_cell (First l) xs"
    by (simp add: last_cell_last)
  ultimately show ?thesis
    using assms by (cases "xs = []") (auto simp: list_pop_def list_ok_def heap_ok_def Let_def)
qed

lemma list_elem_ok:
  assumes "list_ok l xs h"
  shows "list_elem n l h = (if n < length xs then info h (Node (xs ! n)) else 0)"
proof -
  have "elem_loop (Suc n) (ptr h c) d h = (if n < length ys then info h (Node (ys ! n)) else 0)"
    if "path (ptr h) c ys End_of_list" for c ys d
    using that
  proof (induction n arbitrary: c ys d)
    case (Suc n)
    show ?case
    proof (cases ys)
      case (Cons y zs)
      with Suc.prems have "ptr h c = Node y" "path (ptr h) (Next (Node y)) zs End_of_list" by simp_all
      with Suc.IH [of "Next (Node y)" zs "info h (Node y)"] Cons show ?thesis
        by (subst elem_loop.simps(2)) (simp del: elem_loop.simps)
    qed (use Suc.prems in simp)
  next
    case 0
    then show ?case by (cases ys) auto
  qed
  then show ?thesis using assms by (simp add: list_elem_def list_ok_def)
qed

lemma find_equal_ok:
  "path (ptr h) c xs End_of_list \<Longrightarrow>
   find_equal eq v (ptr h c) h = Some (case List.find (\<lambda>x. eq (info h (Node x)) v) xs of None \<Rightarrow> End_of_list | Some x \<Rightarrow> Node x)"
proof (induction xs arbitrary: c)
  case Nil
  then show ?case by (subst find_equal.simps) simp
next
  case (Cons x xs)
  then have "ptr h c = Node x" "path (ptr h) (Next (Node x)) xs End_of_list" by simp_all
  with Cons.IH show ?case by (subst find_equal.simps) simp
qed

lemma add_unique_ok:
  assumes "list_ok l xs h" and "n \<notin> set xs"
  shows "\<exists>r h'. add_unique eq (Some n) v l h = Some (r, h') \<and>
    (if \<exists>x\<in>set xs. eq (info h (Node x)) v then r \<and> h' = h
     else \<not> r \<and> list_ok l (xs @ [n]) h' \<and> infos (xs @ [n]) h' = infos xs h @ [v])"
proof -
  have p: "path (ptr h) (First l) xs End_of_list" using assms(1) by (simp add: list_ok_def)
  show ?thesis
  proof (cases "List.find (\<lambda>x. eq (info h (Node x)) v) xs")
    case None
    then have "\<not> (\<exists>x\<in>set xs. eq (info h (Node x)) v)" by (auto simp: find_None_iff)
    moreover from push_back_ok [OF assms, of v] obtain h' where "push_back (Some n) v l h = (False, h')"
      "list_ok l (xs @ [n]) h'" "infos (xs @ [n]) h' = infos xs h @ [v]" by blast
    ultimately show ?thesis using None find_equal_ok [OF p, of eq v]
      by (auto simp: add_unique_def intro: exI [of _ False])
  next
    case (Some x)
    then have "\<exists>x\<in>set xs. eq (info h (Node x)) v" by (auto simp: find_Some_iff)
    then show ?thesis using Some find_equal_ok [OF p, of eq v]
      by (auto simp: add_unique_def intro: exI [of _ True])
  qed
qed

lemma path_split: "path p c (as @ x # bs) e \<longleftrightarrow> path p c as (Node x) \<and> path p (Next (Node x)) bs e"
  using path_end [of p c as "Node x"] by auto

text \<open>Redirecting the cell before the rest of a path.\<close>

lemma path_replace_tail:
  assumes "path p c as m" and "path p d bs e" and "distinct as" and "set as \<inter> set bs = {}"
    and "c \<notin> (\<lambda>x. Next (Node x)) ` (set as \<union> set bs)" and "\<forall>x\<in>set as. d \<noteq> Next (Node x)" and "d \<noteq> c"
  shows "path (p(last_cell c as := p d)) c (as @ bs) e"
proof -
  let ?p = "p(last_cell c as := p d)"
  have "last_cell c as = c \<or> (\<exists>x\<in>set as. last_cell c as = Next (Node x))" by (rule last_cell_in)
  then have notin: "last_cell c as \<notin> (\<lambda>x. Next (Node x)) ` set bs" using assms(4,5) by auto
  have as: "path ?p c as (p d)" using assms(1,3,5) by (intro path_redirect) auto
  moreover have "path ?p (last_cell c as) bs e"
  proof (cases bs)
    case Nil
    then show ?thesis using assms(2) by simp
  next
    case (Cons y ys)
    then have "path p (Next (Node y)) ys e" "p d = Node y" using assms(2) by simp_all
    moreover have "path ?p (Next (Node y)) ys e \<longleftrightarrow> path p (Next (Node y)) ys e"
      using notin Cons by (intro path_upd) auto
    ultimately show ?thesis using Cons by simp
  qed
  ultimately show ?thesis by simp
qed

lemma list_remove_ok:
  assumes "list_ok l (as @ x # bs) h"
  shows "list_ok l (as @ bs) (list_remove (last_cell (First l) as) l h)"
    and "info (list_remove (last_cell (First l) as) l h) = info h"
proof -
  let ?c = "last_cell (First l) as"
  have ok: "path (ptr h) (First l) as (Node x)" "path (ptr h) (Next (Node x)) bs End_of_list"
    "distinct (as @ x # bs)" "list_last h l = last_cell (First l) (as @ x # bs)" "elements h l = length (as @ x # bs)"
    using assms by (simp_all add: list_ok_def path_split del: path_append)
  have node: "ptr h ?c = Node x" using ok(1) by (rule path_end)
  have p: "path ((ptr h)(?c := ptr h (Next (Node x)))) (First l) (as @ bs) End_of_list"
    using ok(1-3) by (intro path_replace_tail) auto
  have ends: "ptr h (Next End_of_list) = End_of_list" "?c \<noteq> Next End_of_list"
    using assms last_cell_in [of "First l" as] by (auto simp: list_ok_def heap_ok_def)
  have last: "list_last (list_remove ?c l h) l = last_cell (First l) (as @ bs)"
  proof (cases bs)
    case Nil
    then show ?thesis using ok(4,5) node by (cases as) (simp_all add: list_remove_def Let_def)
  next
    case (Cons b bs')
    then have "list_last h l \<noteq> Next (Node x)"
      using ok(3,4) last_cell_in [of "Next (Node b)" bs'] by auto
    then show ?thesis using Cons ok(4,5) node by (simp add: list_remove_def Let_def last_cell_last)
  qed
  show "list_ok l (as @ bs) (list_remove ?c l h)"
    using p ends last node ok(3,5) assms by (auto simp: list_ok_def heap_ok_def list_remove_def Let_def)
  show "info (list_remove ?c l h) = info h" by (simp add: list_remove_def Let_def)
qed

lemma list_after_ok:
  assumes "list_ok l (as @ x # bs) h" and "n \<notin> set (as @ x # bs)"
  shows "list_ok l (as @ x # n # bs) (list_after n v (Node x) l h)"
    and "infos (as @ x # n # bs) (list_after n v (Node x) l h) = infos (as @ [x]) h @ v # infos bs h"
proof -
  let ?p = "(ptr h)(Next (Node n) := ptr h (Next (Node x)), Next (Node x) := Node n)"
  have ok: "path (ptr h) (First l) (as @ [x]) (ptr h (Next (Node x)))" "path (ptr h) (Next (Node x)) bs End_of_list"
    "distinct (as @ x # bs)" "list_last h l = last_cell (First l) (as @ x # bs)" "elements h l = length (as @ x # bs)"
    using assms(1) by (simp_all add: list_ok_def path_split del: path_append)
  have "path ((ptr h)(Next (Node n) := ptr h (Next (Node x)))) (First l) (as @ [x]) (ptr h (Next (Node x)))"
    using ok(1) assms(2) by (subst path_upd) auto
  from path_redirect [OF this, of "Node n"] have a: "path ?p (First l) (as @ [x]) (Node n)"
    using ok(3) by (simp del: path_append)
  have b: "path ?p (Next (Node n)) bs End_of_list"
    using ok(2,3) assms(2) by (cases bs) auto
  have "path ?p (First l) ((as @ [x]) @ n # bs) End_of_list"
    by (rule path_split [THEN iffD2, OF conjI, OF a b])
  then have p: "path ?p (First l) (as @ x # n # bs) End_of_list" by (simp del: path_append)
  have last: "list_last h l = Next (Node x) \<longleftrightarrow> bs = []"
    using ok(3,4) last_cell_last [of bs "Next (Node x)"] by (cases "bs = []") auto
  show "list_ok l (as @ x # n # bs) (list_after n v (Node x) l h)"
    using p last ok(3-5) assms
    by (cases bs) (auto simp: list_ok_def heap_ok_def list_after_def list_node_def Let_def simp del: path_append)
  show "infos (as @ x # n # bs) (list_after n v (Node x) l h) = infos (as @ [x]) h @ v # infos bs h"
    using assms(2) by (auto simp: list_after_def list_node_def Let_def)
qed

section \<open>The operations on two lists\<close>

text \<open>The two lists share no node and are different variables.\<close>

definition two_lists :: "lid \<Rightarrow> nat list \<Rightarrow> lid \<Rightarrow> nat list \<Rightarrow> list_heap \<Rightarrow> bool" where
  "two_lists l xs m ys h \<longleftrightarrow> l \<noteq> m \<and> list_ok l xs h \<and> list_ok m ys h \<and> set xs \<inter> set ys = {}"

lemma list_append_ok:
  assumes "two_lists l xs m ys h"
  shows "list_ok l (xs @ ys) (list_append l m h)" and "info (list_append l m h) = info h"
proof -
  have ok: "l \<noteq> m" "list_ok l xs h" "list_ok m ys h" "set xs \<inter> set ys = {}"
    using assms by (simp_all add: two_lists_def)
  note empty = list_is_empty_iff [OF ok(2)] list_is_empty_iff [OF ok(3)]
  have lasts: "list_last h l = last_cell (First l) xs" "list_last h m = last_cell (First m) ys"
    using ok(2,3) by (simp_all add: list_ok_def)
  have "path ((ptr h)(last_cell (First l) xs := ptr h (First m))) (First l) (xs @ ys) End_of_list"
    using ok by (intro path_replace_tail) (auto simp: list_ok_def)
  moreover have "ys \<noteq> [] \<Longrightarrow> last_cell (last_cell (First l) xs) ys = last_cell (First m) ys"
    by (simp add: last_cell_last)
  moreover have "last_cell (First l) xs \<noteq> Next End_of_list" using last_cell_in [of "First l" xs] by auto
  ultimately show "list_ok l (xs @ ys) (list_append l m h)"
    using ok empty lasts
    by (auto simp: list_append_def list_assign_def list_ok_def heap_ok_def Let_def simp del: path_append)
  show "info (list_append l m h) = info h"
    by (simp add: list_append_def list_assign_def Let_def)
qed

lemma list_prepend_ok:
  assumes "two_lists l xs m ys h"
  shows "list_ok l (ys @ xs) (list_prepend l m h)" and "info (list_prepend l m h) = info h"
proof -
  have ok: "l \<noteq> m" "list_ok l xs h" "list_ok m ys h" "set xs \<inter> set ys = {}"
    using assms by (simp_all add: two_lists_def)
  note empty = list_is_empty_iff [OF ok(2)] list_is_empty_iff [OF ok(3)]
  have lasts: "list_last h l = last_cell (First l) xs" "list_last h m = last_cell (First m) ys"
    using ok(2,3) by (simp_all add: list_ok_def)
  show "list_ok l (ys @ xs) (list_prepend l m h)"
  proof (cases ys)
    case Nil
    then show ?thesis using ok empty by (simp add: list_prepend_def)
  next
    case (Cons y ys')
    let ?p = "(ptr h)(last_cell (First m) ys := ptr h (First l))"
    have m: "path ?p (First m) (ys @ xs) End_of_list"
      using ok by (intro path_replace_tail) (auto simp: list_ok_def)
    then have y: "?p (First m) = Node y" "path ?p (Next (Node y)) (ys' @ xs) End_of_list"
      using Cons by (simp_all del: path_append)
    have "path (?p(First l := Node y)) (First l) (ys @ xs) End_of_list"
      using y(2) Cons by (simp del: path_append)
    moreover have "last_cell (First l) (ys @ xs) = (if xs = [] then list_last h m else list_last h l)"
      using lasts Cons by (cases "xs = []") (simp_all add: last_cell_last)
    moreover have "last_cell (First m) ys \<noteq> Next End_of_list" using last_cell_in [of "First m" ys] by auto
    ultimately show ?thesis
      using ok empty lasts y(1) Cons
      by (auto simp: list_prepend_def list_ok_def heap_ok_def Let_def simp del: path_append path.simps)
  qed
  show "info (list_prepend l m h) = info h"
    by (simp add: list_prepend_def Let_def)
qed

lemma list_swap_ok:
  assumes "two_lists l xs m ys h"
  shows "list_ok l ys (list_swap l m h)" and "list_ok m xs (list_swap l m h)" and "info (list_swap l m h) = info h"
proof -
  have ok: "l \<noteq> m" "list_ok l xs h" "list_ok m ys h"
    using assms by (simp_all add: two_lists_def)
  let ?p = "(ptr h)(First l := ptr h (First m), First m := ptr h (First l))"
  have p: "path ?p (First l) ys End_of_list" "path ?p (First m) xs End_of_list"
    using ok by (cases ys; cases xs; simp add: list_ok_def)+
  have e: "last_cell (First m) ys = First m \<longleftrightarrow> ys = []" "last_cell (First l) xs = First l \<longleftrightarrow> xs = []"
    by (cases "ys = []"; simp add: last_cell_last) (cases "xs = []"; simp add: last_cell_last)
  have f: "ys \<noteq> [] \<Longrightarrow> last_cell (First m) ys = last_cell (First l) ys"
    "xs \<noteq> [] \<Longrightarrow> last_cell (First l) xs = last_cell (First m) xs" by (simp_all add: last_cell_last)
  show "list_ok l ys (list_swap l m h)" "list_ok m xs (list_swap l m h)"
    using ok p e f by (auto simp: list_swap_def list_ok_def heap_ok_def Let_def)
  show "info (list_swap l m h) = info h" by (simp add: list_swap_def Let_def)
qed

lemma list_append_keeps:
  assumes "two_lists l xs m ys h"
  shows "list_ok m ys (list_append l m h)"
proof -
  have ok: "l \<noteq> m" "list_ok l xs h" "list_ok m ys h" "set xs \<inter> set ys = {}"
    using assms by (simp_all add: two_lists_def)
  have c: "last_cell (First l) xs \<noteq> First m" "last_cell (First l) xs \<notin> (\<lambda>x. Next (Node x)) ` set ys"
    "last_cell (First l) xs \<noteq> Next End_of_list"
    using last_cell_in [of "First l" xs] ok(1,4) by auto
  have "list_last h l = last_cell (First l) xs" using ok(2) by (simp add: list_ok_def)
  with c ok(1,3) show ?thesis
    by (simp add: list_ok_def heap_ok_def list_append_def list_assign_def Let_def)
qed

text \<open>\<open>disjoin\<close>: the list that is passed is a tail of this list.\<close>

lemma disjoin_loop_ok:
  assumes "path (ptr h) c (as @ bs) End_of_list" and "bs \<noteq> []" and "set as \<inter> set bs = {}"
    and "list_first = Node (hd bs)"
  shows "disjoin_loop l list_first c (ptr h c) h =
    Some (last_cell c as, False, set_elements l (elements h l + length as) h)"
  using assms(1,3)
proof (induction as arbitrary: c h)
  case Nil
  then have "ptr h c = Node (hd bs)" using assms(2) by (cases bs) simp_all
  then show ?case using assms(4) by (subst disjoin_loop.simps) (simp add: set_elements_def fun_upd_idem)
next
  case (Cons a as)
  let ?h = "set_elements l (elements h l + 1) h"
  have c: "ptr h c = Node a" "path (ptr h) (Next (Node a)) (as @ bs) End_of_list"
    using Cons.prems(1) by (simp_all del: path_append)
  obtain b where "ptr h (Next (Node a)) = Node b"
    using c(2) assms(2) by (cases "as @ bs") auto
  moreover have "a \<noteq> hd bs" using Cons.prems(2) assms(2) by (cases bs) auto
  moreover have "disjoin_loop l list_first (Next (Node a)) (ptr ?h (Next (Node a))) ?h =
      Some (last_cell (Next (Node a)) as, False, set_elements l (elements ?h l + length as) ?h)"
    using c(2) Cons.prems(2) by (intro Cons.IH) auto
  ultimately show ?case using c(1) assms(4)
    by (subst disjoin_loop.simps) (simp add: Let_def set_elements_def)
qed

lemma list_disjoin_ok:
  assumes "list_ok l (as @ bs) h" and "l \<noteq> m" and "bs \<noteq> []" and "ptr h (First m) = Node (hd bs)"
  shows "\<exists>h'. list_disjoin l m h = Some h' \<and> list_ok l as h' \<and> info h' = info h \<and>
    (list_ok m bs h \<longrightarrow> list_ok m bs h')"
proof -
  let ?h = "set_elements l 0 h" and ?c = "last_cell (First l) as"
  have ok: "path (ptr h) (First l) (as @ bs) End_of_list" "distinct (as @ bs)"
    using assms(1) by (simp_all add: list_ok_def del: path_append)
  have "disjoin_loop l (Node (hd bs)) (First l) (ptr ?h (First l)) ?h =
      Some (?c, False, set_elements l (elements ?h l + length as) ?h)"
    using ok assms(3) by (intro disjoin_loop_ok [of _ _ as bs]) auto
  then have d: "list_disjoin l m h =
      Some (set_last l ?c (set_ptr ?c End_of_list (set_elements l (length as) ?h)))"
    using assms(4) by (simp add: list_disjoin_def)
  have "path (ptr h) (First l) as (ptr h ?c)" using ok(1) by auto
  then have "path ((ptr h)(?c := End_of_list)) (First l) as End_of_list"
    using ok(2) by (intro path_redirect) auto
  moreover have "?c \<noteq> Next End_of_list" "?c \<noteq> First m" "?c \<notin> (\<lambda>x. Next (Node x)) ` set bs"
    using last_cell_in [of "First l" as] ok(2) assms(2) by auto
  ultimately show ?thesis using d assms(1,2) by (simp add: list_ok_def heap_ok_def)
qed

section \<open>Walking a list\<close>

text \<open>\<open>k\<close> calls of \<open>next\<close>.\<close>

primrec iterator_nexts :: "nat \<Rightarrow> list_iterator \<Rightarrow> list_heap \<Rightarrow> list_iterator" where
  "iterator_nexts 0 it h = it"
| "iterator_nexts (Suc k) it h = iterator_nexts k (snd (iterator_next it h)) h"

lemma iterator_nexts_path:
  assumes "path (ptr h) c ys End_of_list" and "el it = c" and "k < length ys"
  shows "iterator_nexts (Suc k) it h =
    it\<lparr>prev := Some (last_cell c (take k ys)), current := Node (ys ! k), el := Next (Node (ys ! k))\<rparr>"
  using assms
proof (induction k arbitrary: c ys it)
  case 0
  then show ?case by (cases ys) (auto simp: iterator_next_def Let_def)
next
  case (Suc k)
  then obtain y zs where ys: "ys = y # zs" by (cases ys) auto
  let ?it = "it\<lparr>prev := Some c, current := Node y, el := Next (Node y)\<rparr>"
  have "iterator_nexts (Suc k) ?it h = ?it\<lparr>prev := Some (last_cell (Next (Node y)) (take k zs)),
      current := Node (zs ! k), el := Next (Node (zs ! k))\<rparr>"
    using Suc.prems ys by (intro Suc.IH) simp_all
  moreover have "iterator_next it h = (info h (Node y), ?it)"
    using Suc.prems ys by (simp add: iterator_next_def Let_def)
  ultimately show ?case using ys by simp
qed

lemma iterator_nexts_ok:
  assumes "list_ok l xs h" and "k < length xs"
  shows "iterator_nexts (Suc k) (iterator_init l) h =
    \<lparr>it_list = l, el = Next (Node (xs ! k)), prev = Some (last_cell (First l) (take k xs)),
     current = Node (xs ! k)\<rparr>"
  using iterator_nexts_path [of h "First l" xs "iterator_init l" k] assms
  by (simp add: list_ok_def iterator_init_def)

lemma iterator_nexts_end:
  assumes "path (ptr h) c ys End_of_list" and "heap_ok h" and "el it = c" and "length ys \<le> k"
  shows "current (iterator_nexts (Suc k) it h) = End_of_list \<and> it_list (iterator_nexts (Suc k) it h) = it_list it"
  using assms
proof (induction k arbitrary: c ys it)
  case 0
  then show ?case by (auto simp: iterator_next_def Let_def)
next
  case (Suc k)
  let ?it = "it\<lparr>prev := Some c, current := ptr h c, el := Next (ptr h c)\<rparr>"
  have s: "iterator_nexts (Suc (Suc k)) it h = iterator_nexts (Suc k) ?it h"
    using Suc.prems by (simp add: iterator_next_def Let_def)
  have "path (ptr h) (Next (ptr h c)) (tl ys) End_of_list"
    using Suc.prems by (cases ys) (auto simp: heap_ok_def)
  then show ?case using Suc.IH [of "Next (ptr h c)" "tl ys" ?it] Suc.prems unfolding s by simp
qed

lemma iterator_remove_ok:
  assumes "list_ok l (as @ x # bs) h"
  shows "\<exists>it' h'. iterator_remove (iterator_nexts (Suc (length as)) (iterator_init l) h) h = Some (it', h') \<and>
    el it' = last_cell (First l) as \<and> list_ok l (as @ bs) h' \<and> info h' = info h"
  using iterator_nexts_ok [OF assms, of "length as"] list_remove_ok [OF assms]
  by (simp add: iterator_remove_def nth_append)

lemma iterator_after_ok:
  assumes "list_ok l (as @ x # bs) h" and "n \<notin> set (as @ x # bs)"
  shows "\<exists>it' h'. iterator_after n v (iterator_nexts (Suc (length as)) (iterator_init l) h) h = (it', h') \<and>
    list_ok l (as @ x # n # bs) h' \<and> infos (as @ x # n # bs) h' = infos (as @ [x]) h @ v # infos bs h"
  using iterator_nexts_ok [OF assms(1), of "length as"] list_after_ok [OF assms]
  by (simp add: iterator_after_def Let_def nth_append)

text \<open>Replacing the current element by a list takes over its nodes but the first.\<close>

lemma iterator_replace_list_ok:
  assumes "two_lists l (as @ x # bs) m (y # ys) h" and "it_list it = l" and "current it = Node x"
    and "iterator_replace_list m it h = (v, h')"
  shows "v = info h (Node x)" and "list_ok l (as @ x # ys @ bs) h'"
    and "infos (as @ x # ys @ bs) h' = infos as h @ infos (y # ys) h @ infos bs h"
proof -
  let ?c = "last_cell (First m) (y # ys)" and ?xs = "as @ x # bs"
  let ?p = "(ptr h)(?c := ptr h (Next (Node x)))"
  have ok: "l \<noteq> m" "list_ok l ?xs h" "list_ok m (y # ys) h" "set ?xs \<inter> set (y # ys) = {}"
    using assms(1) by (simp_all add: two_lists_def)
  have l: "path (ptr h) (First l) as (Node x)" "path (ptr h) (Next (Node x)) bs End_of_list" "distinct ?xs"
    "list_last h l = last_cell (First l) ?xs" "elements h l = length ?xs" "heap_ok h"
    using ok(2) by (simp_all add: list_ok_def path_split del: path_append)
  have m: "list_last h m = ?c" "ptr h (First m) = Node y" "elements h m = length (y # ys)" "distinct (y # ys)"
    using ok(3) by (simp_all add: list_ok_def)
  have c: "?c \<notin> (\<lambda>x. Next (Node x)) ` set ?xs" "?c \<noteq> Next End_of_list" "?c \<noteq> First l" "?c \<noteq> First m"
    using last_cell_in [of "Next (Node y)" ys] ok(4) by auto
  have "path ?p (First m) ((y # ys) @ bs) End_of_list"
    using ok l(2) by (intro path_replace_tail) (auto simp: list_ok_def)
  then have y: "path ?p (Next (Node y)) (ys @ bs) End_of_list" by (simp del: path_append)
  let ?q = "?p(Next (Node x) := ?p (Next (Node y)))"
  have "x \<notin> set (ys @ bs)" using l(3) ok(4) by auto
  with y have "path ?q (Next (Node x)) (ys @ bs) End_of_list"
    by (cases "ys @ bs") (simp_all del: path_append set_append)
  moreover have "path ?q (First l) as (Node x)"
    using l(1,3) c by (subst path_upd, simp, force, subst path_upd, force, force, simp)
  ultimately have path: "path ?q (First l) (as @ x # ys @ bs) End_of_list" by (simp add: path_split del: path_append)
  have last: "last_cell (First l) (as @ x # ys @ bs) =
      (if list_last h l = Next (Node x) \<and> length (y # ys) > 1 then ?c else list_last h l)"
    using l(3,4) last_cell_last [of bs "Next (Node x)"] by (cases "bs = []"; cases "ys = []") (auto simp: last_cell_last)
  have h': "v = fst (iterator_replace_list m it h)" "h' = snd (iterator_replace_list m it h)"
    using assms(4) by simp_all
  note replace = iterator_replace_list_def list_is_empty_def Let_def
  show "v = info h (Node x)" unfolding h' using assms(3) by (simp add: replace)
  have p': "ptr h' = ?q" "info h' = (info h)(Node x := info h (Node y))"
    "elements h' l = length (as @ x # ys @ bs)" "list_last h' l = last_cell (First l) (as @ x # ys @ bs)"
    unfolding h' last using assms(2,3) m c(4) ok(1) l(5) by (simp_all add: replace)
  show "list_ok l (as @ x # ys @ bs) h'"
    unfolding list_ok_def p'(1,3,4) using path l(3,6) m(4) ok(4) c(2) p'(1,2) by (auto simp: heap_ok_def)
  show "infos (as @ x # ys @ bs) h' = infos as h @ infos (y # ys) h @ infos bs h"
    using p'(2) l(3) ok(4) by auto
qed

section \<open>Sequences of operations\<close>

text \<open>
  A list and its user: a node comes from the next free address, \<open>out\<close> collects what the operations
  return. \<open>Remove_nth\<close> and \<open>After_nth\<close> walk with \<open>next\<close> and act on the element it gives, when it gives one.
\<close>

datatype list_op =
    Clear
  | Push_back val
  | Push_front val
  | Add_unique val
  | Pop
  | Elem nat
  | Remove_nth nat
  | After_nth nat val

record list_user =
  heap :: list_heap
  brk :: nat
  out :: "val list"

definition with_new :: "(nat \<Rightarrow> list_heap \<Rightarrow> list_heap) \<Rightarrow> list_user \<Rightarrow> list_user" where
  "with_new f u = u\<lparr>heap := f (brk u) (heap u), brk := brk u + 1\<rparr>"

definition list_exec :: "(val \<Rightarrow> val \<Rightarrow> bool) \<Rightarrow> lid \<Rightarrow> list_op \<Rightarrow> list_user \<Rightarrow> list_user option" where
  "list_exec eq l op u =
     (case op of
        Clear \<Rightarrow> Some (u\<lparr>heap := list_empty l (heap u)\<rparr>)
      | Push_back v \<Rightarrow> Some (with_new (\<lambda>n h. snd (push_back (Some n) v l h)) u)
      | Push_front v \<Rightarrow> Some (with_new (\<lambda>n h. snd (push_front (Some n) v l h)) u)
      | Add_unique v \<Rightarrow>
          (case add_unique eq (Some (brk u)) v l (heap u) of
             None \<Rightarrow> None
           | Some (r, h) \<Rightarrow> Some (u\<lparr>heap := h, brk := brk u + 1, out := out u @ [if r then 1 else 0]\<rparr>))
      | Pop \<Rightarrow> (case list_pop l (heap u) of (v, h) \<Rightarrow> Some (u\<lparr>heap := h, out := out u @ [v]\<rparr>))
      | Elem k \<Rightarrow> Some (u\<lparr>out := out u @ [list_elem k l (heap u)]\<rparr>)
      | Remove_nth k \<Rightarrow>
          (let it = iterator_nexts (Suc k) (iterator_init l) (heap u)
           in if info (heap u) (current it) = 0 then Some u
              else map_option (\<lambda>(it, h). u\<lparr>heap := h\<rparr>) (iterator_remove it (heap u)))
      | After_nth k v \<Rightarrow>
          (let it = iterator_nexts (Suc k) (iterator_init l) (heap u)
           in if info (heap u) (current it) = 0 then Some u
              else Some (with_new (\<lambda>n h. snd (iterator_after n v it h)) u)))"

text \<open>What the operations mean, on the values in the list and those returned.\<close>

fun list_spec :: "(val \<Rightarrow> val \<Rightarrow> bool) \<Rightarrow> list_op \<Rightarrow> val list \<times> val list \<Rightarrow> val list \<times> val list" where
  "list_spec eq Clear (vs, r) = ([], r)"
| "list_spec eq (Push_back v) (vs, r) = (vs @ [v], r)"
| "list_spec eq (Push_front v) (vs, r) = (v # vs, r)"
| "list_spec eq (Add_unique v) (vs, r) = (if \<exists>w\<in>set vs. eq w v then (vs, r @ [1]) else (vs @ [v], r @ [0]))"
| "list_spec eq Pop (vs, r) = (tl vs, r @ [if vs = [] then 0 else hd vs])"
| "list_spec eq (Elem k) (vs, r) = (vs, r @ [if k < length vs then vs ! k else 0])"
| "list_spec eq (Remove_nth k) (vs, r) = (take k vs @ drop (Suc k) vs, r)"
| "list_spec eq (After_nth k v) (vs, r) = (if k < length vs then take (Suc k) vs @ v # drop (Suc k) vs else vs, r)"

definition list_values :: "lid \<Rightarrow> list_heap \<Rightarrow> val list" where
  "list_values l h = map (\<lambda>k. list_elem k l h) [0..<elements h l]"

lemma list_values_ok:
  assumes "list_ok l xs h"
  shows "list_values l h = infos xs h"
proof -
  have "elements h l = length xs" using assms by (simp add: list_ok_def)
  then show ?thesis unfolding list_values_def
    by (intro nth_equalityI) (simp_all add: list_elem_ok [OF assms])
qed

definition user_ok :: "lid \<Rightarrow> list_user \<Rightarrow> bool" where
  "user_ok l u \<longleftrightarrow> (\<exists>xs. list_ok l xs (heap u) \<and> (\<forall>x\<in>set xs. x < brk u \<and> info (heap u) (Node x) \<noteq> 0))"

definition user_abs :: "lid \<Rightarrow> list_user \<Rightarrow> val list \<times> val list" where
  "user_abs l u = (list_values l (heap u), out u)"

text \<open>A stored value is no null pointer.\<close>

definition op_ok :: "list_op \<Rightarrow> bool" where
  "op_ok op \<longleftrightarrow> (case op of Push_back v \<Rightarrow> v \<noteq> 0 | Push_front v \<Rightarrow> v \<noteq> 0 | Add_unique v \<Rightarrow> v \<noteq> 0
     | After_nth k v \<Rightarrow> v \<noteq> 0 | _ \<Rightarrow> True)"

text \<open>Each operation is settled by the nodes it leaves.\<close>

lemma user_okI:
  assumes "list_ok l ys (heap u)" and "\<forall>y\<in>set ys. y < brk u" and "list_values l (heap u) = fst a"
    and "0 \<notin> set (fst a)" and "out u = snd a"
  shows "user_ok l u \<and> user_abs l u = a"
proof -
  have "0 \<notin> set (infos ys (heap u))" using assms(3,4) list_values_ok [OF assms(1)] by simp
  then have "\<forall>y\<in>set ys. info (heap u) (Node y) \<noteq> 0" by force
  then have "user_ok l u" using assms(1,2) unfolding user_ok_def by blast
  then show ?thesis using assms(3,5) by (simp add: user_abs_def prod_eq_iff)
qed

lemma list_exec_step:
  assumes "user_ok l u" and "op_ok op"
  shows "\<exists>u'. list_exec eq l op u = Some u' \<and> user_ok l u' \<and> user_abs l u' = list_spec eq op (user_abs l u)"
proof -
  let ?h = "heap u" and ?vs = "list_values l (heap u)"
  obtain xs where xs: "list_ok l xs ?h" "\<forall>x\<in>set xs. x < brk u" "\<forall>x\<in>set xs. info ?h (Node x) \<noteq> 0"
    using assms(1) by (auto simp: user_ok_def)
  note vs = list_values_ok [OF xs(1)]
  have abs: "user_abs l u = (?vs, out u)" by (simp add: user_abs_def)
  have nz: "0 \<notin> set ?vs" unfolding vs using xs(3) by force
  have len: "length xs = length ?vs" unfolding vs by simp
  have new: "brk u \<notin> set xs" using xs(2) by auto
  have walk_end: "info ?h (current (iterator_nexts (Suc k) (iterator_init l) ?h)) = 0" if "length xs \<le> k" for k
    using iterator_nexts_end [of ?h "First l" xs "iterator_init l" k] xs(1) that
    by (simp add: list_ok_def iterator_init_def heap_ok_def)
  have walk: "info ?h (current (iterator_nexts (Suc k) (iterator_init l) ?h)) \<noteq> 0" if "k < length xs" for k
    using iterator_nexts_ok [OF xs(1) that] xs(3) that by simp
  have split: "list_ok l (take k xs @ xs ! k # drop (Suc k) xs) ?h" if "k < length xs" for k
    using xs(1) id_take_nth_drop [OF that] by simp
  have sub: "\<forall>y\<in>set (take i xs) \<union> set (drop j xs). y < brk u" for i j
    using xs(2) by (auto dest: in_set_takeD in_set_dropD)
  show ?thesis
  proof (cases op)
    case Clear
    have "list_ok l [] (list_empty l ?h)" using xs(1) by (intro list_empty_ok) (simp add: list_ok_def)
    moreover from list_values_ok [OF this] have "list_values l (list_empty l ?h) = []" by simp
    ultimately have "user_ok l (u\<lparr>heap := list_empty l ?h\<rparr>) \<and>
        user_abs l (u\<lparr>heap := list_empty l ?h\<rparr>) = list_spec eq op (user_abs l u)"
      using abs Clear by (intro user_okI [where ys = "[]"]) simp_all
    then show ?thesis using Clear by (simp add: list_exec_def)
  next
    case (Push_back v)
    obtain h' where h': "push_back (Some (brk u)) v l ?h = (False, h')" "list_ok l (xs @ [brk u]) h'"
      "infos (xs @ [brk u]) h' = infos xs ?h @ [v]" using push_back_ok [OF xs(1) new, of v] by blast
    have vs': "list_values l h' = ?vs @ [v]" unfolding list_values_ok [OF h'(2)] h'(3) vs ..
    have "user_ok l (u\<lparr>heap := h', brk := brk u + 1\<rparr>) \<and>
        user_abs l (u\<lparr>heap := h', brk := brk u + 1\<rparr>) = list_spec eq op (user_abs l u)"
      using h'(2) vs' xs(2) nz abs Push_back assms(2)
      by (intro user_okI [where ys = "xs @ [brk u]"]) (simp_all add: op_ok_def less_Suc_eq)
    then show ?thesis using h'(1) Push_back by (simp add: list_exec_def with_new_def)
  next
    case (Push_front v)
    obtain h' where h': "push_front (Some (brk u)) v l ?h = (False, h')" "list_ok l (brk u # xs) h'"
      "infos (brk u # xs) h' = v # infos xs ?h" using push_front_ok [OF xs(1) new, of v] by (elim exE conjE)
    have vs': "list_values l h' = v # ?vs" unfolding list_values_ok [OF h'(2)] h'(3) vs ..
    have "user_ok l (u\<lparr>heap := h', brk := brk u + 1\<rparr>) \<and>
        user_abs l (u\<lparr>heap := h', brk := brk u + 1\<rparr>) = list_spec eq op (user_abs l u)"
      using h'(2) vs' xs(2) nz abs Push_front assms(2)
      by (intro user_okI [where ys = "brk u # xs"]) (simp_all add: op_ok_def less_Suc_eq)
    then show ?thesis using h'(1) Push_front by (simp add: list_exec_def with_new_def)
  next
    case (Add_unique v)
    have ex: "(\<exists>x\<in>set xs. eq (info ?h (Node x)) v) \<longleftrightarrow> (\<exists>w\<in>set ?vs. eq w v)" unfolding vs by simp
    obtain r h' where h': "add_unique eq (Some (brk u)) v l ?h = Some (r, h')"
      "if \<exists>w\<in>set ?vs. eq w v then r \<and> h' = ?h
       else \<not> r \<and> list_ok l (xs @ [brk u]) h' \<and> infos (xs @ [brk u]) h' = infos xs ?h @ [v]"
      using add_unique_ok [OF xs(1) new, of eq v] unfolding ex by blast
    let ?u = "u\<lparr>heap := h', brk := brk u + 1, out := out u @ [if r then 1 else 0]\<rparr>"
    have "user_ok l ?u \<and> user_abs l ?u = list_spec eq op (user_abs l u)"
    proof (cases "\<exists>w\<in>set ?vs. eq w v")
      case True
      then show ?thesis using h' xs(1,2) nz abs Add_unique
        by (intro user_okI [where ys = xs]) (simp_all add: less_Suc_eq)
    next
      case False
      then have r: "\<not> r" "list_ok l (xs @ [brk u]) h'" "infos (xs @ [brk u]) h' = infos xs ?h @ [v]"
        using h'(2) by presburger+
      have "list_values l h' = ?vs @ [v]" unfolding list_values_ok [OF r(2)] r(3) vs ..
      then show ?thesis using False r(1,2) xs(2) nz abs Add_unique assms(2)
        by (intro user_okI [where ys = "xs @ [brk u]"]) (simp_all add: op_ok_def less_Suc_eq)
    qed
    then show ?thesis using h'(1) Add_unique by (simp add: list_exec_def)
  next
    case Pop
    show ?thesis
    proof (cases xs)
      case Nil
      then have "list_exec eq l op u = Some (u\<lparr>out := out u @ [0]\<rparr>)"
        using list_pop_empty [of l ?h] xs(1) Pop by (simp add: list_exec_def)
      moreover have "user_ok l (u\<lparr>out := out u @ [0]\<rparr>) \<and>
          user_abs l (u\<lparr>out := out u @ [0]\<rparr>) = list_spec eq op (user_abs l u)"
        using Nil xs(1) len abs Pop by (intro user_okI [where ys = "[]"]) simp_all
      ultimately show ?thesis by blast
    next
      case (Cons x ys)
      then obtain h' where h': "list_pop l ?h = (info ?h (Node x), h')" "list_ok l ys h'" "info h' = info ?h"
        using list_pop_ok [of l x ys ?h] xs(1) by auto
      have vs': "list_values l h' = tl ?vs" "info ?h (Node x) = hd ?vs" "?vs \<noteq> []"
        using list_values_ok [OF h'(2)] h'(3) vs Cons by simp_all
      have "user_ok l (u\<lparr>heap := h', out := out u @ [info ?h (Node x)]\<rparr>) \<and>
          user_abs l (u\<lparr>heap := h', out := out u @ [info ?h (Node x)]\<rparr>) = list_spec eq op (user_abs l u)"
        using h'(2) vs' xs(2) nz abs Pop Cons
        by (intro user_okI [where ys = ys]) (auto dest: list.set_sel(2))
      then show ?thesis using h'(1) Pop by (simp add: list_exec_def)
    qed
  next
    case (Elem k)
    have "list_elem k l ?h = (if k < length ?vs then ?vs ! k else 0)"
      unfolding vs using list_elem_ok [OF xs(1), of k] by simp
    then have "user_ok l (u\<lparr>out := out u @ [list_elem k l ?h]\<rparr>) \<and>
        user_abs l (u\<lparr>out := out u @ [list_elem k l ?h]\<rparr>) = list_spec eq op (user_abs l u)"
      using xs(1,2) nz abs Elem by (intro user_okI [where ys = xs]) simp_all
    then show ?thesis using Elem by (simp add: list_exec_def)
  next
    case (Remove_nth k)
    show ?thesis
    proof (cases "k < length xs")
      case True
      from iterator_remove_ok [OF split [OF True]] True obtain it' h' where
        h': "iterator_remove (iterator_nexts (Suc k) (iterator_init l) ?h) ?h = Some (it', h')"
        "list_ok l (take k xs @ drop (Suc k) xs) h'" "info h' = info ?h" by (auto simp: min_def)
      have vs': "list_values l h' = take k ?vs @ drop (Suc k) ?vs"
        using list_values_ok [OF h'(2)] unfolding vs h'(3) by (simp add: take_map drop_map)
      have "user_ok l (u\<lparr>heap := h'\<rparr>) \<and> user_abs l (u\<lparr>heap := h'\<rparr>) = list_spec eq op (user_abs l u)"
        using h'(2) vs' sub [of k "Suc k"] nz abs Remove_nth
        by (intro user_okI [where ys = "take k xs @ drop (Suc k) xs"])
          (auto dest: in_set_takeD in_set_dropD)
      then show ?thesis using h'(1) walk [OF True] Remove_nth by (simp add: list_exec_def Let_def)
    next
      case False
      then show ?thesis using walk_end [of k] assms(1) abs len Remove_nth by (simp add: list_exec_def Let_def)
    qed
  next
    case (After_nth k v)
    show ?thesis
    proof (cases "k < length xs")
      case True
      let ?ys = "take (Suc k) xs @ brk u # drop (Suc k) xs"
      have "brk u \<notin> set (take k xs @ xs ! k # drop (Suc k) xs)"
        using new id_take_nth_drop [OF True] by simp
      from iterator_after_ok [OF split [OF True] this, of v] True obtain it' h' where
        h': "iterator_after (brk u) v (iterator_nexts (Suc k) (iterator_init l) ?h) ?h = (it', h')"
        "list_ok l ?ys h'" "infos ?ys h' = infos (take (Suc k) xs) ?h @ v # infos (drop (Suc k) xs) ?h"
        by (auto simp: min_def take_Suc_conv_app_nth)
      have vs': "list_values l h' = take (Suc k) ?vs @ v # drop (Suc k) ?vs"
        unfolding list_values_ok [OF h'(2)] h'(3) vs by (simp add: take_map drop_map)
      have "user_ok l (u\<lparr>heap := h', brk := brk u + 1\<rparr>) \<and>
          user_abs l (u\<lparr>heap := h', brk := brk u + 1\<rparr>) = list_spec eq op (user_abs l u)"
        using h'(2) vs' sub [of "Suc k" "Suc k"] nz abs After_nth len True assms(2)
        by (intro user_okI [where ys = ?ys])
          (auto simp: op_ok_def less_Suc_eq dest: in_set_takeD in_set_dropD simp del: take_Suc)
      then show ?thesis using h'(1) walk [OF True] After_nth by (simp add: list_exec_def with_new_def Let_def)
    next
      case False
      then show ?thesis using walk_end [of k] assms(1) abs len After_nth by (simp add: list_exec_def Let_def)
    qed
  qed
qed

interpretation sql_list: data_refinement "list_exec eq l" "list_spec eq" "user_ok l" "user_abs l" op_ok
  by unfold_locales (rule list_exec_step)

section \<open>A failed push\_back\<close>

lemma path_unique:
  "path p c xs e \<Longrightarrow> path p c ys e' \<Longrightarrow> e \<notin> range Node \<Longrightarrow> e' \<notin> range Node \<Longrightarrow> xs = ys \<and> e = e'"
proof (induction xs arbitrary: c ys)
  case Nil
  then show ?case by (cases ys) auto
next
  case (Cons x xs)
  then obtain zs where "ys = x # zs" "path p (Next (Node x)) zs e'" by (cases ys) auto
  moreover from Cons.IH [OF _ this(2)] Cons.prems have "xs = zs \<and> e = e'" by simp
  ultimately show ?case by simp
qed

lemma push_back_fail_path:
  assumes "list_ok l xs h"
  shows "path (ptr (snd (push_back None v l h))) (First l) xs Null"
  using assms by (auto simp: push_back_def list_ok_def intro!: path_redirect)

lemma push_back_fail_not_ok:
  assumes "list_ok l xs h"
  shows "\<not> list_ok l ys (snd (push_back None v l h))"
proof
  assume "list_ok l ys (snd (push_back None v l h))"
  then have "path (ptr (snd (push_back None v l h))) (First l) ys End_of_list" by (simp add: list_ok_def)
  from path_unique [OF push_back_fail_path [OF assms, of v] this] show False by auto
qed

lemma push_back_fail_repair:
  assumes "list_ok l xs h" and "n \<notin> set xs"
  shows "list_ok l (xs @ [n]) (snd (push_back (Some n) w l (snd (push_back None v l h))))"
proof -
  let ?h = "snd (push_back None v l h)" and ?c = "last_cell (First l) xs"
  have "snd (push_back (Some n) w l ?h) = (let h' = snd (push_back (Some n) w l h) in h')
      \<or> snd (push_back (Some n) w l ?h) = snd (push_back (Some n) w l h)"
    using assms last_cell_in [of "First l" xs]
    by (auto simp: push_back_def list_node_def list_ok_def Let_def set_ptr_def set_info_def set_last_def
      set_elements_def fun_upd_twist)
  moreover obtain h' where "push_back (Some n) w l h = (False, h')" "list_ok l (xs @ [n]) h'"
    using push_back_ok [OF assms, of w] by (elim exE conjE)
  ultimately show ?thesis by auto
qed

section \<open>Properties\<close>


definition blank_heap :: list_heap where
  "blank_heap = \<lparr>ptr = \<lambda>c. End_of_list, info = \<lambda>n. 0, list_last = First, elements = \<lambda>l. 0\<rparr>"

definition blank_user :: list_user where
  "blank_user = \<lparr>heap = blank_heap, brk = 0, out = []\<rparr>"

lemma blank_user_ok: "user_ok l blank_user"
  by (auto simp: user_ok_def blank_user_def blank_heap_def list_ok_def heap_ok_def intro!: exI [of _ "[]"])


text \<open>\<open>append\<close>, \<open>prepend\<close> and \<open>swap\<close> on two lists that share no node leave a list of the joined or exchanged
  nodes, and no value changes.\<close>

theorem list_pairs:
  assumes "two_lists l xs m ys h"
  shows "list_ok l (xs @ ys) (list_append l m h) \<and> list_ok l (ys @ xs) (list_prepend l m h) \<and>
    two_lists l ys m xs (list_swap l m h) \<and>
    info (list_append l m h) = info h \<and> info (list_prepend l m h) = info h \<and> info (list_swap l m h) = info h"
  using list_append_ok [OF assms] list_prepend_ok [OF assms] list_swap_ok [OF assms] assms
  by (auto simp: two_lists_def)

definition pair_heap :: list_heap where
  "pair_heap = \<lparr>ptr = (\<lambda>c. End_of_list)(First 0 := Node 0, Next (Node 0) := Node 1, First 1 := Node 2),
     info = (\<lambda>n. 0)(Node 0 := 8, Node 1 := 6, Node 2 := 7),
     list_last = First(0 := Next (Node 1), 1 := Next (Node 2)), elements = (\<lambda>l. 0)(0 := 2, 1 := 1)\<rparr>"

lemma pair_heap_ok: "two_lists 0 [0, 1] 1 [2] pair_heap"
  by (simp add: two_lists_def list_ok_def heap_ok_def pair_heap_def)

lemma list_pairs_witness:
  "list_ok 0 [0, 1, 2] (list_append 0 1 pair_heap) \<and> list_ok 0 [2, 0, 1] (list_prepend 0 1 pair_heap) \<and>
   two_lists 0 [2] 1 [0, 1] (list_swap 0 1 pair_heap)"
  using list_pairs [OF pair_heap_ok] by simp

text \<open>\<open>disjoin\<close> ends and undoes \<open>append\<close>: both lists are as they were.\<close>

theorem append_disjoin:
  assumes "two_lists l xs m ys h" and "ys \<noteq> []"
  shows "\<exists>h'. list_disjoin l m (list_append l m h) = Some h' \<and> two_lists l xs m ys h' \<and> info h' = info h"
proof -
  let ?h = "list_append l m h"
  have ok: "l \<noteq> m" "list_ok l xs h" "list_ok m ys h" "set xs \<inter> set ys = {}"
    using assms(1) by (simp_all add: two_lists_def)
  have m: "list_ok m ys ?h" by (rule list_append_keeps [OF assms(1)])
  then have "ptr ?h (First m) = Node (hd ys)" using assms(2) by (cases ys) (simp_all add: list_ok_def)
  from list_disjoin_ok [OF list_append_ok(1) [OF assms(1)] ok(1) assms(2) this]
  obtain h' where h': "list_disjoin l m ?h = Some h'" "list_ok l xs h'" "info h' = info ?h"
    "list_ok m ys ?h \<longrightarrow> list_ok m ys h'" by (elim exE conjE)
  then show ?thesis using m ok list_append_ok(2) [OF assms(1)] by (auto simp: two_lists_def)
qed

lemma append_disjoin_witness:
  "\<exists>h'. list_disjoin 0 1 (list_append 0 1 pair_heap) = Some h' \<and> two_lists 0 [0, 1] 1 [2] h'"
  using append_disjoin [OF pair_heap_ok] by blast

text \<open>A \<open>push_back\<close> whose allocation fails says so and leaves a list that ends in a null pointer and is no
  list any more, while \<open>elements\<close> and \<open>last\<close> are as before; only a later \<open>push_back\<close> that succeeds
  makes it one again.\<close>

theorem push_back_failed:
  assumes "list_ok l xs h" and "n \<notin> set xs"
  shows "fst (push_back None v l h) \<and> path (ptr (snd (push_back None v l h))) (First l) xs Null \<and>
    \<not> list_ok l ys (snd (push_back None v l h)) \<and>
    elements (snd (push_back None v l h)) = elements h \<and> list_last (snd (push_back None v l h)) = list_last h \<and>
    list_ok l (xs @ [n]) (snd (push_back (Some n) w l (snd (push_back None v l h))))"
  using push_back_fail_path [OF assms(1), of v] push_back_fail_not_ok [OF assms(1), of ys v]
    push_back_fail_repair [OF assms, of w v] by (simp add: push_back_def)

lemma push_back_failed_witness:
  "path (ptr (snd (push_back None 3 1 pair_heap))) (First 1) [2] Null \<and>
   list_ok 1 [2, 5] (snd (push_back (Some 5) 4 1 (snd (push_back None 3 1 pair_heap))))"
proof -
  have "list_ok 1 [2] pair_heap" using pair_heap_ok by (simp add: two_lists_def)
  from push_back_failed [OF this, of 5 3 "[]" 4] show ?thesis by simp
qed

end
