(* ===== verification/Sql_Sort.thy ===== *)
theory Sql_Sort
  imports Sql_List "HOL-Library.Multiset"
begin

text \<open>
  \<open>bubble_sort\<close> of \<open>private/sql_list.h\<close>: it walks a list with an iterator and exchanges the fields
  \<open>info\<close> of neighbours. One pass is proved to be a pass over the list of values; the passes settle
  one more value at the end each, so the loop ends with a sorted list.
\<close>

section \<open>The code\<close>

text \<open>\<open>gt a b\<close> stands for \<open>sort_func(a, b, arg) > 0\<close>. The pointers \<open>ref1\<close>, \<open>ref2\<close> and \<open>last_ref\<close> point to
  the field \<open>info\<close> of a node, and are that node. The inner loop gives the iterator, \<open>ref1\<close>, \<open>swap\<close> and
  the heap.\<close>

partial_function (option) bubble_pass ::
  "(val \<Rightarrow> val \<Rightarrow> bool) \<Rightarrow> node option \<Rightarrow> list_iterator \<Rightarrow> val \<Rightarrow> node \<Rightarrow> bool \<Rightarrow> list_heap \<Rightarrow>
    (list_iterator \<times> node \<times> bool \<times> list_heap) option" where
  "bubble_pass gt last_ref it item1 ref1 swap h =
     (let item2 = fst (iterator_next it h);
          it = snd (iterator_next it h);
          ref2 = current it
      in if item2 \<noteq> 0 \<and> Some ref2 \<noteq> last_ref then
           (if gt item1 item2
            then bubble_pass gt last_ref it item1 ref2 True (set_info ref2 item1 (set_info ref1 item2 h))
            else bubble_pass gt last_ref it item2 ref2 swap h)
         else Some (it, ref1, swap, h))"

partial_function (option) bubble_loop ::
  "(val \<Rightarrow> val \<Rightarrow> bool) \<Rightarrow> node option \<Rightarrow> list_iterator \<Rightarrow> list_heap \<Rightarrow> list_heap option" where
  "bubble_loop gt ref1 it h =
     (let last_ref = ref1;
          item1 = fst (iterator_next it h);
          it = snd (iterator_next it h)
      in case bubble_pass gt last_ref it item1 (current it) False h of
           None \<Rightarrow> None
         | Some (it, ref1, swap, h) \<Rightarrow>
             if swap then bubble_loop gt (Some ref1) (iterator_rewind it) h else Some h)"

definition bubble_sort :: "(val \<Rightarrow> val \<Rightarrow> bool) \<Rightarrow> lid \<Rightarrow> list_heap \<Rightarrow> list_heap option" where
  "bubble_sort gt l h = bubble_loop gt None (iterator_init l) h"

section \<open>What a pass does\<close>

text \<open>One pass on a list of values.\<close>

fun bubble :: "(val \<Rightarrow> val \<Rightarrow> bool) \<Rightarrow> val \<Rightarrow> val list \<Rightarrow> val list" where
  "bubble gt v [] = [v]"
| "bubble gt v (w # ws) = (if gt v w then w # bubble gt v ws else v # bubble gt w ws)"

fun bubbles :: "(val \<Rightarrow> val \<Rightarrow> bool) \<Rightarrow> val \<Rightarrow> val list \<Rightarrow> bool" where
  "bubbles gt v [] = False"
| "bubbles gt v (w # ws) = (gt v w \<or> bubbles gt w ws)"

lemma bubble_mset: "mset (bubble gt v ws) = mset (v # ws)"
  by (induction gt v ws rule: bubble.induct) simp_all

lemma bubble_length [simp]: "length (bubble gt v ws) = Suc (length ws)"
  by (induction gt v ws rule: bubble.induct) simp_all

lemma bubble_same: "\<not> bubbles gt v ws \<Longrightarrow> bubble gt v ws = v # ws"
  by (induction gt v ws rule: bubble.induct) simp_all

text \<open>A comparison function that orders: \<open>\<not> gt\<close> is a total preorder.\<close>

definition sorts :: "(val \<Rightarrow> val \<Rightarrow> bool) \<Rightarrow> bool" where
  "sorts gt \<longleftrightarrow> (\<forall>a b. gt a b \<longrightarrow> \<not> gt b a) \<and> (\<forall>a b c. \<not> gt a b \<longrightarrow> \<not> gt b c \<longrightarrow> \<not> gt a c)"

lemma bubble_last: "sorts gt \<Longrightarrow> x \<in> set (v # ws) \<Longrightarrow> \<not> gt x (last (bubble gt v ws))"
proof (induction gt v ws arbitrary: x rule: bubble.induct)
  case (1 gt v)
  then have "\<not> gt v v" unfolding sorts_def by blast
  with 1 show ?case by simp
next
  case (2 gt v w ws)
  have ne: "bubble gt u ws \<noteq> []" for u by (metis bubble_length list.size(3) nat.distinct(1))
  show ?case
  proof (cases "gt v w")
    case True
    have v: "\<not> gt x (last (bubble gt v ws))" if "x \<in> set (v # ws)" for x
      using "2.IH"(1) [OF True "2.prems"(1) that] .
    have "\<not> gt w v" using "2.prems"(1) True unfolding sorts_def by blast
    then have "\<not> gt w (last (bubble gt v ws))" using v [of v] "2.prems"(1) unfolding sorts_def by (meson list.set_intros(1))
    with v "2.prems"(2) True ne show ?thesis by auto
  next
    case False
    have w: "\<not> gt x (last (bubble gt w ws))" if "x \<in> set (w # ws)" for x
      using "2.IH"(2) [OF False "2.prems"(1) that] .
    then have "\<not> gt v (last (bubble gt w ws))" using False "2.prems"(1) unfolding sorts_def by (meson list.set_intros(1))
    with w "2.prems"(2) False ne show ?thesis by auto
  qed
qed

lemma not_bubbles_sorted: "sorts gt \<Longrightarrow> \<not> bubbles gt v ws \<Longrightarrow> sorted_wrt (\<lambda>a b. \<not> gt a b) (v # ws)"
proof (induction ws arbitrary: v)
  case (Cons w ws)
  have v: "\<not> gt v w" and s: "sorted_wrt (\<lambda>a b. \<not> gt a b) (w # ws)"
    using Cons.prems(2) Cons.IH [OF Cons.prems(1), of w] by simp_all
  have "\<not> gt v x" if "x \<in> set ws" for x
  proof -
    have "\<not> gt w x" using s that by simp
    with v Cons.prems(1) show ?thesis unfolding sorts_def by blast
  qed
  with s v show ?case by simp
qed simp

text \<open>The inner loop works on the nodes before \<open>last_ref\<close>.\<close>

definition stops_at :: "nat list \<Rightarrow> node option \<Rightarrow> bool" where
  "stops_at bs r \<longleftrightarrow> r = (case bs of [] \<Rightarrow> None | b # _ \<Rightarrow> Some (Node b))"

lemma bubble_pass_ok:
  assumes "path (ptr h) (Next (Node x)) (ns @ bs) End_of_list" and "distinct (x # ns @ bs)"
    and "info h End_of_list = 0" and "\<forall>n\<in>set ns. info h (Node n) \<noteq> 0" and "info h (Node x) \<noteq> 0"
    and "stops_at bs last_ref" and "el it = Next (Node x)" and "item1 = info h (Node x)"
  shows "\<exists>it' h'. bubble_pass gt last_ref it item1 (Node x) swap h =
      Some (it', Node (last (x # ns)), swap \<or> bubbles gt item1 (infos ns h), h') \<and>
    it_list it' = it_list it \<and> ptr h' = ptr h \<and> list_last h' = list_last h \<and> elements h' = elements h \<and>
    infos (x # ns) h' = bubble gt item1 (infos ns h) \<and>
    (\<forall>m. m \<notin> Node ` set (x # ns) \<longrightarrow> info h' m = info h m)"
  using assms
proof (induction ns arbitrary: x h it item1 swap)
  case Nil
  have "Some (ptr h (Next (Node x))) = last_ref \<or> info h (ptr h (Next (Node x))) = 0"
    using Nil.prems by (cases bs) (auto simp: stops_at_def)
  then show ?case
    using Nil.prems by (subst bubble_pass.simps) (auto simp: iterator_next_def Let_def)
next
  case (Cons n ns)
  have n: "ptr h (Next (Node x)) = Node n" "path (ptr h) (Next (Node n)) (ns @ bs) End_of_list"
    "info h (Node n) \<noteq> 0" "n \<noteq> x" "n \<notin> set bs"
    using Cons.prems by (simp_all del: path_append)
  have go: "Some (Node n) \<noteq> last_ref" using Cons.prems(6) n(5) by (cases bs) (auto simp: stops_at_def)
  let ?it = "it\<lparr>prev := Some (el it), current := Node n, el := Next (Node n)\<rparr>"
  have it: "iterator_next it h = (info h (Node n), ?it)"
    using Cons.prems(7) n(1) by (simp add: iterator_next_def Let_def)
  show ?case
  proof (cases "gt item1 (info h (Node n))")
    case True
    let ?h = "set_info (Node n) item1 (set_info (Node x) (info h (Node n)) h)"
    have same: "infos ns ?h = infos ns h" using Cons.prems(2) by auto
    have "\<exists>it' h'. bubble_pass gt last_ref ?it item1 (Node n) True ?h =
      Some (it', Node (last (n # ns)), True \<or> bubbles gt item1 (infos ns ?h), h') \<and>
      it_list it' = it_list ?it \<and> ptr h' = ptr ?h \<and> list_last h' = list_last ?h \<and> elements h' = elements ?h \<and>
      infos (n # ns) h' = bubble gt item1 (infos ns ?h) \<and>
      (\<forall>m. m \<notin> Node ` set (n # ns) \<longrightarrow> info h' m = info ?h m)"
      using Cons.prems n by (intro Cons.IH) (auto simp del: path_append)
    then obtain it' h' where r: "bubble_pass gt last_ref ?it item1 (Node n) True ?h =
        Some (it', Node (last (n # ns)), True, h')" "it_list it' = it_list it" "ptr h' = ptr h"
      "list_last h' = list_last h" "elements h' = elements h" "infos (n # ns) h' = bubble gt item1 (infos ns h)"
      "\<forall>m. m \<notin> Node ` set (n # ns) \<longrightarrow> info h' m = info ?h m" unfolding same by auto
    have x: "info h' (Node x) = info h (Node n)" using r(7) Cons.prems(2) by auto
    have "\<forall>m. m \<notin> Node ` set (x # n # ns) \<longrightarrow> info h' m = info h m" using r(7) by auto
    moreover have "bubble_pass gt last_ref it item1 (Node x) swap h = Some (it', Node (last (n # ns)), True, h')"
      using it go True n(3) r(1) by (subst bubble_pass.simps) (simp add: Let_def)
    moreover have "infos (x # n # ns) h' = bubble gt item1 (infos (n # ns) h)"
      using x r(6) True by simp
    ultimately show ?thesis using r(2-5) True by auto
  next
    case False
    have "\<exists>it' h'. bubble_pass gt last_ref ?it (info h (Node n)) (Node n) swap h =
      Some (it', Node (last (n # ns)), swap \<or> bubbles gt (info h (Node n)) (infos ns h), h') \<and>
      it_list it' = it_list ?it \<and> ptr h' = ptr h \<and> list_last h' = list_last h \<and> elements h' = elements h \<and>
      infos (n # ns) h' = bubble gt (info h (Node n)) (infos ns h) \<and>
      (\<forall>m. m \<notin> Node ` set (n # ns) \<longrightarrow> info h' m = info h m)"
      using Cons.prems n by (intro Cons.IH) (auto simp del: path_append)
    then obtain it' h' where r: "bubble_pass gt last_ref ?it (info h (Node n)) (Node n) swap h =
        Some (it', Node (last (n # ns)), swap \<or> bubbles gt (info h (Node n)) (infos ns h), h')"
      "it_list it' = it_list it" "ptr h' = ptr h" "list_last h' = list_last h" "elements h' = elements h"
      "infos (n # ns) h' = bubble gt (info h (Node n)) (infos ns h)"
      "\<forall>m. m \<notin> Node ` set (n # ns) \<longrightarrow> info h' m = info h m" by auto
    have x: "info h' (Node x) = item1" using r(7) Cons.prems(2,8) by auto
    have "\<forall>m. m \<notin> Node ` set (x # n # ns) \<longrightarrow> info h' m = info h m" using r(7) by auto
    moreover have "bubble_pass gt last_ref it item1 (Node x) swap h =
        Some (it', Node (last (n # ns)), swap \<or> bubbles gt (info h (Node n)) (infos ns h), h')"
      using it go False n(3) r(1) by (subst bubble_pass.simps) (simp add: Let_def)
    moreover have "infos (x # n # ns) h' = bubble gt item1 (infos (n # ns) h)"
      using x r(6) False by simp
    ultimately show ?thesis using r(2-5) False by auto
  qed
qed

text \<open>A sorted end of the list that no earlier value has to pass.\<close>

definition settled :: "(val \<Rightarrow> val \<Rightarrow> bool) \<Rightarrow> val list \<Rightarrow> val list \<Rightarrow> bool" where
  "settled gt us vs \<longleftrightarrow> sorted_wrt (\<lambda>a b. \<not> gt a b) vs \<and> (\<forall>u\<in>set us. \<forall>v\<in>set vs. \<not> gt u v)"

lemma settled_sorted:
  "settled gt us vs \<Longrightarrow> sorted_wrt (\<lambda>a b. \<not> gt a b) us \<Longrightarrow> sorted_wrt (\<lambda>a b. \<not> gt a b) (us @ vs)"
  by (simp add: settled_def sorted_wrt_append)

lemma settled_step:
  assumes "sorts gt" and "settled gt (v # us) vs" and "bubble gt v us = ws @ [w]"
  shows "settled gt ws (w # vs)"
proof -
  have "mset (v # us) = mset (ws @ [w])" using bubble_mset [of gt v us] assms(3) by simp
  then have s: "set (v # us) = set (ws @ [w])" by (rule mset_eq_setD)
  have w: "\<not> gt x w" if "x \<in> set ws" for x
  proof -
    have "x \<in> set (v # us)" using that unfolding s by simp
    from bubble_last [OF assms(1) this] show ?thesis using assms(3) by simp
  qed
  have vs: "\<not> gt x y" if "x \<in> set (ws @ [w])" "y \<in> set vs" for x y
    using assms(2) that s unfolding settled_def by blast
  have "sorted_wrt (\<lambda>a b. \<not> gt a b) vs" using assms(2) by (simp add: settled_def)
  then show ?thesis using w vs by (auto simp: settled_def)
qed

text \<open>The nodes \<open>bs\<close> from \<open>last_ref\<close> on are settled; each pass settles one more.\<close>

lemma bubble_loop_ok:
  assumes "sorts gt" and "path (ptr h) (First l) (as @ bs) End_of_list" and "distinct (as @ bs)"
    and "info h End_of_list = 0" and "\<forall>n\<in>set (as @ bs). info h (Node n) \<noteq> 0" and "as \<noteq> []"
    and "stops_at bs r" and "settled gt (infos as h) (infos bs h)" and "it_list it = l" and "el it = First l"
  shows "\<exists>h'. bubble_loop gt r it h = Some h' \<and> ptr h' = ptr h \<and> list_last h' = list_last h \<and>
    elements h' = elements h \<and> info h' End_of_list = 0 \<and>
    mset (infos (as @ bs) h') = mset (infos (as @ bs) h) \<and>
    sorted_wrt (\<lambda>a b. \<not> gt a b) (infos (as @ bs) h')"
  using assms
proof (induction "length as" arbitrary: as bs h r it)
  case (Suc k)
  then obtain x ns where as: "as = x # ns" by (cases as) auto
  let ?v = "info h (Node x)"
  let ?it = "it\<lparr>prev := Some (First l), current := Node x, el := Next (Node x)\<rparr>"
  have x: "ptr h (First l) = Node x" "path (ptr h) (Next (Node x)) (ns @ bs) End_of_list"
    using Suc.prems(2) as by (simp_all del: path_append)
  have next_it: "iterator_next it h = (?v, ?it)"
    using Suc.prems(10) x(1) by (simp add: iterator_next_def Let_def)
  have "\<exists>it' h'. bubble_pass gt r ?it ?v (Node x) False h =
      Some (it', Node (last (x # ns)), False \<or> bubbles gt ?v (infos ns h), h') \<and>
    it_list it' = it_list ?it \<and> ptr h' = ptr h \<and> list_last h' = list_last h \<and> elements h' = elements h \<and>
    infos (x # ns) h' = bubble gt ?v (infos ns h) \<and>
    (\<forall>m. m \<notin> Node ` set (x # ns) \<longrightarrow> info h' m = info h m)"
    using Suc.prems as x(2) by (intro bubble_pass_ok) (simp_all del: path_append)
  then obtain it' h' where r: "bubble_pass gt r ?it ?v (Node x) False h =
      Some (it', Node (last as), bubbles gt ?v (infos ns h), h')" "it_list it' = l" "ptr h' = ptr h"
    "list_last h' = list_last h" "elements h' = elements h" "infos as h' = bubble gt ?v (infos ns h)"
    "\<forall>m. m \<notin> Node ` set as \<longrightarrow> info h' m = info h m"
    using Suc.prems(9) unfolding as by auto
  have bs: "infos bs h' = infos bs h" using r(7) Suc.prems(3) by auto
  have "End_of_list \<notin> Node ` set as" by auto
  then have eol: "info h' End_of_list = 0" using r(7) Suc.prems(4) by simp
  have as_mset: "mset (infos as h') = mset (infos as h)" using r(6) bubble_mset as by simp
  show ?case
  proof (cases "bubbles gt ?v (infos ns h)")
    case False
    have "infos as h' = infos as h" using r(6) bubble_same [OF False] as by simp
    moreover have "sorted_wrt (\<lambda>a b. \<not> gt a b) (infos as h)"
      using not_bubbles_sorted [OF Suc.prems(1) False] as by simp
    ultimately have "sorted_wrt (\<lambda>a b. \<not> gt a b) (infos as h' @ infos bs h')"
      using settled_sorted [OF Suc.prems(8)] unfolding bs by metis
    moreover have "infos (as @ bs) h' = infos as h' @ infos bs h" unfolding map_append bs ..
    ultimately have "sorted_wrt (\<lambda>a b. \<not> gt a b) (infos (as @ bs) h')" by simp
    moreover have "bubble_loop gt r it h = Some h'"
      using next_it r(1) False by (subst bubble_loop.simps) (simp add: Let_def)
    moreover have "mset (infos (as @ bs) h') = mset (infos (as @ bs) h)"
      unfolding map_append mset_append bs as_mset ..
    ultimately show ?thesis using r(3-5) eol by blast
  next
    case True
    define cs where "cs = butlast as"
    define z where "z = last as"
    have cz: "as = cs @ [z]" using as unfolding cs_def z_def by simp
    have "ns \<noteq> []" using True by auto
    then have cs: "cs \<noteq> []" "k = length cs" using as Suc.hyps(2) unfolding cs_def by auto
    have step: "settled gt (infos cs h') (infos (z # bs) h')"
    proof -
      have b: "bubble gt ?v (infos ns h) = infos cs h' @ [info h' (Node z)]"
        unfolding r(6) [symmetric] cz by simp
      have "settled gt (?v # infos ns h) (infos bs h)" using Suc.prems(8) as by simp
      from settled_step [OF Suc.prems(1) this b] show ?thesis unfolding list.map(2) bs .
    qed
    have nz: "\<forall>n\<in>set (cs @ z # bs). info h' (Node n) \<noteq> 0"
    proof -
      have "0 \<notin> set (infos as h)" using Suc.prems(5) by force
      then have "0 \<notin> set (infos as h')" unfolding mset_eq_setD [OF as_mset] .
      moreover have "0 \<notin> set (infos bs h')" unfolding bs using Suc.prems(5) by force
      ultimately show ?thesis using cz by force
    qed
    have "\<exists>h''. bubble_loop gt (Some (Node z)) (iterator_rewind it') h' = Some h'' \<and> ptr h'' = ptr h' \<and>
      list_last h'' = list_last h' \<and> elements h'' = elements h' \<and> info h'' End_of_list = 0 \<and>
      mset (infos (cs @ z # bs) h'') = mset (infos (cs @ z # bs) h') \<and>
      sorted_wrt (\<lambda>a b. \<not> gt a b) (infos (cs @ z # bs) h'')"
      using Suc.prems cz cs nz eol step r(2,3)
      by (intro Suc.hyps) (simp_all add: stops_at_def iterator_rewind_def del: path_append)
    moreover have "bubble_loop gt r it h = bubble_loop gt (Some (Node z)) (iterator_rewind it') h'"
      using next_it r(1) True z_def by (subst bubble_loop.simps) (simp add: Let_def)
    moreover have "mset (infos (cs @ z # bs) h') = mset (infos (as @ bs) h)"
    proof -
      have "infos (cs @ z # bs) h' = infos as h' @ infos bs h'" using cz by simp
      then show ?thesis unfolding bs using as_mset by simp
    qed
    moreover have "as @ bs = cs @ z # bs" using cz by simp
    ultimately show ?thesis using r(3-5) by metis
  qed
qed simp

section \<open>Properties\<close>

text \<open>C16. \<open>bubble_sort\<close> with a comparison that orders ends, keeps the nodes and the values of the list, and
  leaves the values sorted.\<close>

theorem bubble_sort_sorts:
  assumes "list_ok l xs h" and "\<forall>x\<in>set xs. info h (Node x) \<noteq> 0" and "sorts gt"
  shows "\<exists>h'. bubble_sort gt l h = Some h' \<and> list_ok l xs h' \<and>
    mset (list_values l h') = mset (list_values l h) \<and> sorted_wrt (\<lambda>a b. \<not> gt a b) (list_values l h')"
proof (cases "xs = []")
  case True
  with assms(1) have "ptr h (First l) = End_of_list" "ptr h (Next End_of_list) = End_of_list" "info h End_of_list = 0"
    by (simp_all add: list_ok_def heap_ok_def)
  then have "bubble_sort gt l h = Some h"
    unfolding bubble_sort_def by (subst bubble_loop.simps, subst bubble_pass.simps)
      (simp add: iterator_init_def iterator_next_def Let_def)
  then show ?thesis using assms(1) True by (simp add: list_values_ok)
next
  case False
  have "\<exists>h'. bubble_loop gt None (iterator_init l) h = Some h' \<and> ptr h' = ptr h \<and> list_last h' = list_last h \<and>
    elements h' = elements h \<and> info h' End_of_list = 0 \<and>
    mset (infos (xs @ []) h') = mset (infos (xs @ []) h) \<and>
    sorted_wrt (\<lambda>a b. \<not> gt a b) (infos (xs @ []) h')"
    using assms False
    by (intro bubble_loop_ok) (simp_all add: list_ok_def heap_ok_def stops_at_def settled_def iterator_init_def)
  then obtain h' where h': "bubble_sort gt l h = Some h'" "ptr h' = ptr h" "list_last h' = list_last h"
    "elements h' = elements h" "info h' End_of_list = 0"
    "mset (infos xs h') = mset (infos xs h)" "sorted_wrt (\<lambda>a b. \<not> gt a b) (infos xs h')"
    unfolding append_Nil2 bubble_sort_def by (elim exE conjE)
  then have "list_ok l xs h'" using assms(1) by (simp add: list_ok_def heap_ok_def)
  then show ?thesis using h'(1,6,7) list_values_ok [OF assms(1)] by (simp add: list_values_ok)
qed

lemma bubble_sort_sorts_witness:
  "\<exists>h'. bubble_sort (\<lambda>a b. b < a) 0 pair_heap = Some h' \<and> list_ok 0 [0, 1] h' \<and>
     mset (list_values 0 h') = {#8, 6#} \<and> sorted_wrt (\<lambda>a b. \<not> b < a) (list_values 0 h')"
proof -
  have ok: "list_ok 0 [0, 1] pair_heap" using pair_heap_ok by (simp add: two_lists_def)
  have "sorts (\<lambda>a b. b < a)" by (auto simp: sorts_def)
  moreover have "mset (list_values 0 pair_heap) = {#8, 6#}"
    by (simp add: list_values_ok [OF ok]) (simp add: pair_heap_def)
  ultimately show ?thesis using bubble_sort_sorts [OF ok, of "\<lambda>a b. b < a"] by (simp add: pair_heap_def)
qed

end
