(* ===== verification/Sql_I_List.thy ===== *)
theory Sql_I_List
  imports Sql_List
begin

text \<open>
  The intrusive list \<open>SQL_I_List\<close> of \<open>private/sql_list.h\<close>, over the memory of \<open>Sql_List\<close>. Elements carry
  their own field \<open>next\<close>; \<open>link_in_list\<close> is given its cell.
\<close>

section \<open>The code\<close>

text \<open>
  The nodes are the elements themselves, \<open>list_last\<close> is the field \<open>next\<close>, and a null pointer closes
  the list.
\<close>

definition il_empty :: "lid \<Rightarrow> list_heap \<Rightarrow> list_heap" where
  "il_empty l h = set_last l (First l) (set_ptr (First l) Null (set_elements l 0 h))"

definition il_assign :: "lid \<Rightarrow> lid \<Rightarrow> list_heap \<Rightarrow> list_heap" where
  "il_assign l tmp h =
     (let h = set_elements l (elements h tmp) h;
          h = set_ptr (First l) (ptr h (First tmp)) h
      in set_last l (if elements h l \<noteq> 0 then list_last h tmp else First l) h)"

definition link_in_list :: "nat \<Rightarrow> cell \<Rightarrow> lid \<Rightarrow> list_heap \<Rightarrow> list_heap" where
  "link_in_list element next_ptr l h =
     (let h = set_elements l (elements h l + 1) h;
          h = set_ptr (list_last h l) (Node element) h;
          h = set_last l next_ptr h
      in set_ptr (list_last h l) Null h)"

definition save_and_clear :: "lid \<Rightarrow> lid \<Rightarrow> list_heap \<Rightarrow> list_heap" where
  "save_and_clear save l h = il_empty l (il_assign save l h)"

definition il_push_front :: "lid \<Rightarrow> lid \<Rightarrow> list_heap \<Rightarrow> list_heap" where
  "il_push_front save l h =
     (let h = set_ptr (list_last h save) (ptr h (First l)) h;
          h = set_ptr (First l) (ptr h (First save)) h
      in set_elements l (elements h l + elements h save) h)"

definition il_push_back :: "lid \<Rightarrow> lid \<Rightarrow> list_heap \<Rightarrow> list_heap" where
  "il_push_back save l h =
     (if ptr h (First save) \<noteq> Null then
        let h = set_ptr (list_last h l) (ptr h (First save)) h;
            h = set_last l (list_last h save) h
        in set_elements l (elements h l + elements h save) h
      else h)"

section \<open>What the operations do\<close>

definition il_ok :: "lid \<Rightarrow> nat list \<Rightarrow> list_heap \<Rightarrow> bool" where
  "il_ok l xs h \<longleftrightarrow> path (ptr h) (First l) xs Null \<and> distinct xs \<and>
     list_last h l = last_cell (First l) xs \<and> elements h l = length xs"

definition two_ils :: "lid \<Rightarrow> nat list \<Rightarrow> lid \<Rightarrow> nat list \<Rightarrow> list_heap \<Rightarrow> bool" where
  "two_ils l xs s ys h \<longleftrightarrow> l \<noteq> s \<and> il_ok l xs h \<and> il_ok s ys h \<and> set xs \<inter> set ys = {}"

text \<open>An element's own field \<open>next\<close> is the cell it is linked by.\<close>

lemma link_in_list_ok:
  assumes "il_ok l xs h" and "n \<notin> set xs"
  shows "il_ok l (xs @ [n]) (link_in_list n (Next (Node n)) l h)"
proof -
  let ?c = "last_cell (First l) xs"
  have ok: "path (ptr h) (First l) xs Null" "distinct xs" "list_last h l = ?c"
    using assms(1) by (simp_all add: il_ok_def)
  have c: "?c \<noteq> Next (Node n)" using last_cell_in [of "First l" xs] assms(2) by auto
  have "path ((ptr h)(?c := Node n)) (First l) xs (Node n)" using ok by (intro path_redirect) auto
  then have "path ((ptr h)(?c := Node n, Next (Node n) := Null)) (First l) xs (Node n)"
    using assms(2) by (subst path_upd) auto
  then show ?thesis using assms ok c by (simp add: link_in_list_def il_ok_def Let_def)
qed

lemma save_and_clear_ok:
  assumes "il_ok l xs h" and "l \<noteq> s"
  shows "two_ils l [] s xs (save_and_clear s l h)"
proof -
  have "path ((ptr h)(First s := ptr h (First l), First l := Null)) (First s) xs Null"
    using assms by (cases xs) (simp_all add: il_ok_def)
  moreover have "last_cell (First s) xs = (if xs = [] then First s else list_last h l)"
    using assms by (simp add: last_cell_last il_ok_def)
  ultimately show ?thesis using assms
    by (auto simp: two_ils_def save_and_clear_def il_assign_def il_empty_def il_ok_def Let_def)
qed

lemma il_push_back_ok:
  assumes "two_ils l xs s ys h"
  shows "il_ok l (xs @ ys) (il_push_back s l h)"
proof (cases "ys = []")
  case True
  then show ?thesis using assms by (simp add: two_ils_def il_ok_def il_push_back_def)
next
  case False
  have ok: "il_ok l xs h" "il_ok s ys h" "set xs \<inter> set ys = {}" using assms by (simp_all add: two_ils_def)
  have "path ((ptr h)(last_cell (First l) xs := ptr h (First s))) (First l) (xs @ ys) Null"
    using assms by (intro path_replace_tail) (auto simp: two_ils_def il_ok_def)
  moreover have "last_cell (last_cell (First l) xs) ys = last_cell (First s) ys"
    using False by (simp add: last_cell_last)
  moreover have "ptr h (First s) \<noteq> Null" using ok(2) False by (cases ys) (auto simp: il_ok_def)
  ultimately show ?thesis using ok by (auto simp: il_ok_def il_push_back_def Let_def simp del: path_append)
qed

lemma il_push_front_path:
  assumes "two_ils l xs s ys h"
  shows "path (ptr (il_push_front s l h)) (First l) (ys @ xs) Null"
proof -
  let ?p = "(ptr h)(last_cell (First s) ys := ptr h (First l))"
  have ok: "il_ok l xs h" "il_ok s ys h" "l \<noteq> s" "set xs \<inter> set ys = {}" using assms by (simp_all add: two_ils_def)
  have "path ?p (First s) (ys @ xs) Null"
    using ok by (intro path_replace_tail) (auto simp: il_ok_def)
  then have "path (?p(First l := ?p (First s))) (First l) (ys @ xs) Null"
    using ok(3) by (cases "ys @ xs") (auto simp del: path_append)
  then show ?thesis using ok(2) by (simp add: il_push_front_def il_ok_def Let_def del: path_append)
qed

lemma il_push_front_ok:
  assumes "two_ils l xs s ys h" and "xs \<noteq> [] \<or> ys = []"
  shows "il_ok l (ys @ xs) (il_push_front s l h)"
  using il_push_front_path [OF assms(1)] assms
  by (cases "xs = []") (auto simp: two_ils_def il_ok_def il_push_front_def Let_def last_cell_last simp del: path_append)

lemma link_one_ok:
  assumes "two_ils l zs s xs h" and "n \<notin> set (zs @ xs)"
  shows "two_ils l (zs @ [n]) s xs (link_in_list n (Next (Node n)) l h)"
proof -
  have ok: "il_ok l zs h" "il_ok s xs h" "l \<noteq> s" "set zs \<inter> set xs = {}" using assms(1) by (simp_all add: two_ils_def)
  have last: "list_last h l = last_cell (First l) zs" using ok(1) by (simp add: il_ok_def)
  have c: "last_cell (First l) zs \<noteq> First s" "last_cell (First l) zs \<notin> (\<lambda>x. Next (Node x)) ` set xs"
    using last_cell_in [of "First l" zs] ok(3,4) by auto
  have "il_ok s xs (link_in_list n (Next (Node n)) l h)"
    using ok(2,3) c assms(2) last by (auto simp: il_ok_def link_in_list_def Let_def)
  then show ?thesis using link_in_list_ok [OF ok(1), of n] ok(3,4) assms(2) by (auto simp: two_ils_def)
qed

lemma link_all_ok:
  "two_ils l zs s xs h \<Longrightarrow> distinct (xs @ zs @ ys) \<Longrightarrow>
   two_ils l (zs @ ys) s xs (fold (\<lambda>n. link_in_list n (Next (Node n)) l) ys h)"
proof (induction ys arbitrary: zs h)
  case (Cons y ys)
  then have "two_ils l (zs @ [y]) s xs (link_in_list y (Next (Node y)) l h)" by (intro link_one_ok) auto
  from Cons.IH [OF this] Cons.prems(2) show ?case by simp
qed simp

section \<open>Properties\<close>

text \<open>An \<open>SQL_I_List\<close> that is saved, cleared, filled again and given the saved list back with
  \<open>push_front\<close> holds the saved elements before the new ones.\<close>

theorem il_save_restore:
  assumes "il_ok l xs h" and "l \<noteq> s" and "distinct (xs @ ys)" and "ys \<noteq> []"
  shows "il_ok l (xs @ ys)
    (il_push_front s l (fold (\<lambda>n. link_in_list n (Next (Node n)) l) ys (save_and_clear s l h)))"
proof -
  have "two_ils l ys s xs (fold (\<lambda>n. link_in_list n (Next (Node n)) l) ys (save_and_clear s l h))"
    using link_all_ok [OF save_and_clear_ok [OF assms(1,2)], of ys] assms(3) by simp
  then show ?thesis using assms(4) by (intro il_push_front_ok) simp_all
qed

definition saved_heap :: list_heap where
  "saved_heap = \<lparr>ptr = (\<lambda>c. Null)(First 0 := Node 0, Next (Node 0) := Node 1, First 1 := Node 2), info = \<lambda>n. 0,
     list_last = First(0 := Next (Node 1), 1 := Next (Node 2), 2 := First 2), elements = (\<lambda>l. 0)(0 := 2, 1 := 1)\<rparr>"

lemma saved_heap_ok: "il_ok 0 [0, 1] saved_heap" "il_ok 1 [2] saved_heap" "il_ok 2 [] saved_heap"
  by (simp_all add: il_ok_def saved_heap_def)

lemma il_save_restore_witness:
  "il_ok 0 [0, 1, 5]
     (il_push_front 3 0 (fold (\<lambda>n. link_in_list n (Next (Node n)) 0) [5] (save_and_clear 3 0 saved_heap)))"
  using il_save_restore [OF saved_heap_ok(1), of 3 "[5]"] by simp

text \<open>Into an \<open>SQL_I_List\<close> that is empty, \<open>push_front\<close> puts the saved elements without moving \<open>next\<close>: it is
  no list any more, and the next element that is linked replaces them all while \<open>elements\<close> still
  counts them.\<close>

theorem il_push_front_loses:
  assumes "two_ils l [] s ys h" and "ys \<noteq> []" and "n \<notin> set ys"
  shows "path (ptr (il_push_front s l h)) (First l) ys Null \<and>
    list_last (il_push_front s l h) l = First l \<and> \<not> il_ok l zs (il_push_front s l h) \<and>
    path (ptr (link_in_list n (Next (Node n)) l (il_push_front s l h))) (First l) [n] Null \<and>
    elements (link_in_list n (Next (Node n)) l (il_push_front s l h)) l = length ys + 1"
proof -
  have ok: "il_ok l [] h" "il_ok s ys h" "l \<noteq> s" using assms(1) by (simp_all add: two_ils_def)
  have path: "path (ptr (il_push_front s l h)) (First l) ys Null" using il_push_front_path [OF assms(1)] by simp
  have last: "list_last (il_push_front s l h) l = First l"
    using ok(1) by (simp add: il_push_front_def il_ok_def Let_def)
  have "\<not> il_ok l zs (il_push_front s l h)"
  proof
    assume il: "il_ok l zs (il_push_front s l h)"
    then have "zs = ys" using path_unique [OF _ path, of zs Null] by (auto simp: il_ok_def)
    then have "last_cell (First l) ys = First l" using il last by (simp add: il_ok_def)
    then show False using assms(2) by (simp add: last_cell_last)
  qed
  moreover have "elements (il_push_front s l h) l = length ys"
    using ok by (simp add: il_push_front_def il_ok_def Let_def)
  ultimately show ?thesis using path last by (simp add: link_in_list_def Let_def)
qed

lemma il_push_front_loses_witness:
  "path (ptr (link_in_list 7 (Next (Node 7)) 2 (il_push_front 1 2 saved_heap))) (First 2) [7] Null \<and>
   elements (link_in_list 7 (Next (Node 7)) 2 (il_push_front 1 2 saved_heap)) 2 = 2"
proof -
  have "two_ils 2 [] 1 [2] saved_heap" using saved_heap_ok by (simp add: two_ils_def)
  from il_push_front_loses [OF this, of 7 "[]"] show ?thesis by simp
qed

end
