(* ===== verification/Intrusive_List.thy ===== *)
theory Intrusive_List
  imports Prelude
begin

text \<open>
  The doubly linked intrusive lists of \<open>private/sql_list.h\<close>: \<open>ilink\<close>, \<open>base_ilist\<close> and its iterator (\<open>I_List\<close> and
  its iterator forward to them). \<open>prev\<close> points to the pointer that points to the element: the field
  \<open>first\<close> of a list or the field \<open>next\<close> of an element, a cell. The member \<open>last\<close> of a list is an element
  itself, its sentinel. All lists and elements live in one heap.
\<close>

section \<open>Memory and operations\<close>

datatype ilink = INull | Elem nat | Sentinel nat
datatype icell = IFirst nat | INext ilink

record ilink_heap =
  ptr :: "icell \<Rightarrow> ilink"
  prev :: "ilink \<Rightarrow> icell option"

definition set_ptr :: "icell \<Rightarrow> ilink \<Rightarrow> ilink_heap \<Rightarrow> ilink_heap" where
  "set_ptr c n h = h\<lparr>ptr := (ptr h)(c := n)\<rparr>"

definition set_prev :: "ilink \<Rightarrow> icell option \<Rightarrow> ilink_heap \<Rightarrow> ilink_heap" where
  "set_prev n c h = h\<lparr>prev := (prev h)(n := c)\<rparr>"

lemma ilink_simps [simp]:
  "ptr (set_ptr c n h) = (ptr h)(c := n)" "prev (set_ptr c n h) = prev h"
  "ptr (set_prev n d h) = ptr h" "prev (set_prev n d h) = (prev h)(n := d)"
  by (simp_all add: set_ptr_def set_prev_def)

definition ilink_new :: "ilink \<Rightarrow> ilink_heap \<Rightarrow> ilink_heap" where
  "ilink_new a h = set_ptr (INext a) INull (set_prev a None h)"

definition ilink_unlink :: "ilink \<Rightarrow> ilink_heap \<Rightarrow> ilink_heap" where
  "ilink_unlink a h =
     (let h = (case prev h a of None \<Rightarrow> h | Some c \<Rightarrow> set_ptr c (ptr h (INext a)) h);
          h = (if ptr h (INext a) \<noteq> INull then set_prev (ptr h (INext a)) (prev h a) h else h)
      in set_ptr (INext a) INull (set_prev a None h))"

definition not_linked :: "ilink \<Rightarrow> ilink_heap \<Rightarrow> bool" where
  "not_linked a h \<longleftrightarrow> prev h a = None \<and> ptr h (INext a) = INull"

definition base_ilist_empty :: "nat \<Rightarrow> ilink_heap \<Rightarrow> ilink_heap" where
  "base_ilist_empty l h = set_prev (Sentinel l) (Some (IFirst l)) (set_ptr (IFirst l) (Sentinel l) h)"

definition base_ilist_is_empty :: "nat \<Rightarrow> ilink_heap \<Rightarrow> bool" where
  "base_ilist_is_empty l h \<longleftrightarrow> ptr h (IFirst l) = Sentinel l"

definition base_ilist_is_last :: "ilink \<Rightarrow> nat \<Rightarrow> ilink_heap \<Rightarrow> bool" where
  "base_ilist_is_last p l h \<longleftrightarrow> ptr h (INext p) = INull \<or> ptr h (INext p) = Sentinel l"

definition base_ilist_append :: "ilink \<Rightarrow> nat \<Rightarrow> ilink_heap \<Rightarrow> ilink_heap" where
  "base_ilist_append a l h =
     (let h = set_prev (ptr h (IFirst l)) (Some (INext a)) h;
          h = set_ptr (INext a) (ptr h (IFirst l)) h;
          h = set_prev a (Some (IFirst l)) h
      in set_ptr (IFirst l) a h)"

text \<open>\<open>last.prev\<close> is never a null pointer in a list; None stands for its dereference.\<close>

definition base_ilist_push_back :: "ilink \<Rightarrow> nat \<Rightarrow> ilink_heap \<Rightarrow> ilink_heap option" where
  "base_ilist_push_back a l h =
     (case prev h (Sentinel l) of
        None \<Rightarrow> None
      | Some c \<Rightarrow>
          let h = set_ptr c a h;
              h = set_ptr (INext a) (Sentinel l) h;
              h = set_prev a (prev h (Sentinel l)) h
          in Some (set_prev (Sentinel l) (Some (INext a)) h))"

definition base_ilist_get :: "nat \<Rightarrow> ilink_heap \<Rightarrow> ilink \<times> ilink_heap" where
  "base_ilist_get l h =
     (let first_link = ptr h (IFirst l)
      in if first_link = Sentinel l then (INull, h) else (first_link, ilink_unlink first_link h))"

definition base_ilist_head :: "nat \<Rightarrow> ilink_heap \<Rightarrow> ilink" where
  "base_ilist_head l h = (if ptr h (IFirst l) \<noteq> Sentinel l then ptr h (IFirst l) else INull)"

text \<open>\<open>new_owner->last= last\<close> copies the sentinel, both its fields.\<close>

definition move_elements_to :: "nat \<Rightarrow> nat \<Rightarrow> ilink_heap \<Rightarrow> ilink_heap option" where
  "move_elements_to new_owner l h =
     (if \<not> base_ilist_is_empty new_owner h then None
      else
        let h = set_ptr (IFirst new_owner) (ptr h (IFirst l)) h;
            h = set_prev (Sentinel new_owner) (prev h (Sentinel l)) h;
            h = set_ptr (INext (Sentinel new_owner)) (ptr h (INext (Sentinel l))) h
        in Some (base_ilist_empty l h))"

section \<open>The iterator\<close>

record base_ilist_iterator =
  it_list :: nat
  el :: icell
  current :: ilink

definition base_ilist_iterator_new :: "nat \<Rightarrow> base_ilist_iterator" where
  "base_ilist_iterator_new l = \<lparr>it_list = l, el = IFirst l, current = INull\<rparr>"

definition base_ilist_next :: "base_ilist_iterator \<Rightarrow> ilink_heap \<Rightarrow> ilink \<times> base_ilist_iterator" where
  "base_ilist_next it h =
     (let it = it\<lparr>current := ptr h (el it)\<rparr>
      in if current it = Sentinel (it_list it) then (INull, it)
         else (current it, it\<lparr>el := INext (current it)\<rparr>))"

text \<open>\<open>unlink\<close>: None when the current element is not linked, for then \<open>el\<close> becomes a null pointer.\<close>

definition base_ilist_iterator_unlink :: "base_ilist_iterator \<Rightarrow> ilink_heap \<Rightarrow> (base_ilist_iterator \<times> ilink_heap) option" where
  "base_ilist_iterator_unlink it h =
     (case prev h (current it) of
        None \<Rightarrow> None
      | Some tmp \<Rightarrow> Some (it\<lparr>el := tmp\<rparr>, ilink_unlink (current it) h))"

text \<open>The loop \<open>while ((x= it++))\<close> over a list: the elements it gives.\<close>

partial_function (option) base_ilist_walk :: "base_ilist_iterator \<Rightarrow> ilink_heap \<Rightarrow> ilink list option" where
  "base_ilist_walk it h =
     (case base_ilist_next it h of
        (x, it) \<Rightarrow>
          if x = INull then Some []
          else Option.bind (base_ilist_walk it h) (\<lambda>xs. Some (x # xs)))"

section \<open>What a list holds\<close>

text \<open>
  Elements linked from a cell on, each pointed back to; the last cell; and the whole chain up to an
  end.
\<close>

fun linked :: "(icell \<Rightarrow> ilink) \<Rightarrow> (ilink \<Rightarrow> icell option) \<Rightarrow> icell \<Rightarrow> nat list \<Rightarrow> bool" where
  "linked p q c [] \<longleftrightarrow> True"
| "linked p q c (x # xs) \<longleftrightarrow> p c = Elem x \<and> q (Elem x) = Some c \<and> linked p q (INext (Elem x)) xs"

fun end_cell :: "icell \<Rightarrow> nat list \<Rightarrow> icell" where
  "end_cell c [] = c"
| "end_cell c (x # xs) = end_cell (INext (Elem x)) xs"

definition chain :: "(icell \<Rightarrow> ilink) \<Rightarrow> (ilink \<Rightarrow> icell option) \<Rightarrow> icell \<Rightarrow> nat list \<Rightarrow> ilink \<Rightarrow> bool" where
  "chain p q c xs e \<longleftrightarrow> linked p q c xs \<and> p (end_cell c xs) = e \<and> q e = Some (end_cell c xs)"

definition base_ilist_ok :: "nat \<Rightarrow> nat list \<Rightarrow> ilink_heap \<Rightarrow> bool" where
  "base_ilist_ok l xs h \<longleftrightarrow> chain (ptr h) (prev h) (IFirst l) xs (Sentinel l) \<and> distinct xs"

abbreviation cells :: "nat list \<Rightarrow> icell set" where
  "cells xs \<equiv> (\<lambda>x. INext (Elem x)) ` set xs"

lemma linked_append [simp]: "linked p q c (xs @ ys) \<longleftrightarrow> linked p q c xs \<and> linked p q (end_cell c xs) ys"
  by (induction xs arbitrary: c) auto

lemma end_cell_append [simp]: "end_cell c (xs @ ys) = end_cell (end_cell c xs) ys"
  by (induction xs arbitrary: c) auto

lemma end_cell_in: "end_cell c xs = c \<or> end_cell c xs \<in> cells xs"
  by (induction xs arbitrary: c) auto

lemma end_cell_eq: "xs \<noteq> [] \<Longrightarrow> end_cell c xs = INext (Elem (last xs))"
  by (induction xs arbitrary: c) auto

lemma linked_ptr [simp]: "d \<noteq> c \<Longrightarrow> d \<notin> cells xs \<Longrightarrow> linked (p(d := v)) q c xs \<longleftrightarrow> linked p q c xs"
  by (induction xs arbitrary: c) auto

lemma linked_prev [simp]: "n \<notin> Elem ` set xs \<Longrightarrow> linked p (q(n := v)) c xs \<longleftrightarrow> linked p q c xs"
  by (induction xs arbitrary: c) auto

text \<open>Writing the last cell leaves the elements linked.\<close>

lemma linked_end [simp]:
  "distinct xs \<Longrightarrow> c \<notin> cells xs \<Longrightarrow> linked (p(end_cell c xs := v)) q c xs \<longleftrightarrow> linked p q c xs"
proof (induction xs arbitrary: c)
  case (Cons x xs)
  have "end_cell (INext (Elem x)) xs \<noteq> c" using Cons.prems end_cell_in [of "INext (Elem x)" xs] by auto
  then have "(p(end_cell (INext (Elem x)) xs := v)) c = p c" by simp
  moreover have "linked (p(end_cell (INext (Elem x)) xs := v)) q (INext (Elem x)) xs \<longleftrightarrow> linked p q (INext (Elem x)) xs"
    using Cons.prems by (intro Cons.IH) auto
  ultimately show ?case unfolding linked.simps end_cell.simps by (simp only:)
qed simp

lemma linked_in: "linked p q c xs \<Longrightarrow> x \<in> set xs \<Longrightarrow> q (Elem x) \<noteq> None"
  by (induction xs arbitrary: c) auto

lemma end_cell_ne: "distinct (as @ x # bs) \<Longrightarrow> c \<notin> cells (as @ x # bs) \<Longrightarrow> end_cell c as \<notin> cells (x # bs)"
  using end_cell_in [of c as] by auto

section \<open>The operations\<close>

lemma base_ilist_empty_ok: "base_ilist_ok l [] (base_ilist_empty l h)"
  by (simp add: base_ilist_ok_def chain_def base_ilist_empty_def)

lemma base_ilist_append_ok:
  assumes "base_ilist_ok l xs h" and "a \<notin> set xs"
  shows "base_ilist_ok l (a # xs) (base_ilist_append (Elem a) l h)"
proof (cases xs)
  case Nil
  then show ?thesis using assms by (simp add: base_ilist_ok_def chain_def base_ilist_append_def Let_def)
next
  case (Cons x ys)
  then have "linked (ptr h) (prev h) (INext (Elem x)) ys" "ptr h (IFirst l) = Elem x" "x \<notin> set ys" "a \<noteq> x" "a \<notin> set ys"
    "ptr h (end_cell (INext (Elem x)) ys) = Sentinel l" "prev h (Sentinel l) = Some (end_cell (INext (Elem x)) ys)"
    using assms by (auto simp: base_ilist_ok_def chain_def)
  moreover have "end_cell (INext (Elem x)) ys \<notin> {IFirst l, INext (Elem a)}"
    using end_cell_in [of "INext (Elem x)" ys] assms(2) Cons by auto
  moreover have "Elem x \<notin> Elem ` set ys" "Elem a \<notin> Elem ` set ys" using Cons assms by (auto simp: base_ilist_ok_def)
  ultimately show ?thesis using assms Cons
    by (simp add: base_ilist_ok_def chain_def base_ilist_append_def Let_def image_iff)
qed

lemma base_ilist_push_back_ok:
  assumes "base_ilist_ok l xs h" and "a \<notin> set xs"
  shows "\<exists>h'. base_ilist_push_back (Elem a) l h = Some h' \<and> base_ilist_ok l (xs @ [a]) h'"
proof -
  let ?c = "end_cell (IFirst l) xs"
  have ok: "linked (ptr h) (prev h) (IFirst l) xs" "ptr h ?c = Sentinel l" "prev h (Sentinel l) = Some ?c" "distinct xs"
    using assms(1) by (simp_all add: base_ilist_ok_def chain_def)
  have c: "?c \<noteq> INext (Elem a)" using end_cell_in [of "IFirst l" xs] assms(2) by auto
  have "linked ((ptr h)(?c := Elem a)) (prev h) (IFirst l) xs" using ok by (subst linked_end) auto
  then have "linked ((ptr h)(?c := Elem a, INext (Elem a) := Sentinel l)) (prev h) (IFirst l) xs"
    using assms(2) by (subst linked_ptr) auto
  then have "linked ((ptr h)(?c := Elem a, INext (Elem a) := Sentinel l))
      ((prev h)(Elem a := Some ?c, Sentinel l := Some (INext (Elem a)))) (IFirst l) xs"
    using assms(2) by (subst linked_prev; auto)+
  then show ?thesis using ok c assms(2)
    by (simp add: base_ilist_push_back_def Let_def base_ilist_ok_def chain_def)
qed

lemma ilink_unlink_ok:
  assumes "base_ilist_ok l (as @ x # bs) h"
  shows "base_ilist_ok l (as @ bs) (ilink_unlink (Elem x) h) \<and> not_linked (Elem x) (ilink_unlink (Elem x) h)"
proof -
  let ?c = "end_cell (IFirst l) as" and ?n = "ptr h (INext (Elem x))"
  have ok: "linked (ptr h) (prev h) (IFirst l) as" "ptr h ?c = Elem x" "prev h (Elem x) = Some ?c"
    "linked (ptr h) (prev h) (INext (Elem x)) bs" "ptr h (end_cell (INext (Elem x)) bs) = Sentinel l"
    "prev h (Sentinel l) = Some (end_cell (INext (Elem x)) bs)" "distinct (as @ x # bs)"
    using assms by (simp_all add: base_ilist_ok_def chain_def)
  have c: "?c \<notin> cells (x # bs)" "?c = IFirst l \<or> ?c \<in> cells as"
    using end_cell_ne [OF ok(7), of "IFirst l"] end_cell_in by auto
  have n: "?n = (case bs of [] \<Rightarrow> Sentinel l | b # _ \<Rightarrow> Elem b)" using ok(4,5) by (cases bs) auto
  define p where "p = (ptr h)(?c := ?n, INext (Elem x) := INull)"
  define q where "q = (prev h)(?n := Some ?c, Elem x := None)"
  have h': "ptr (ilink_unlink (Elem x) h) = p" "prev (ilink_unlink (Elem x) h) = q"
    using ok(3) c n by (auto simp: ilink_unlink_def Let_def p_def q_def split: list.splits)
  have "linked p (prev h) (IFirst l) as"
    unfolding p_def using ok(1,7) by (subst linked_ptr, simp, force, subst linked_end) auto
  moreover have nas: "?n \<notin> Elem ` set as" using n ok(7) by (cases bs) auto
  ultimately have as: "linked p q (IFirst l) as" unfolding q_def using ok(7) by (auto simp: image_iff)
  have "linked p q ?c bs \<and> p (end_cell ?c bs) = Sentinel l \<and> q (Sentinel l) = Some (end_cell ?c bs)"
  proof (cases bs)
    case Nil
    then show ?thesis using n c by (auto simp: p_def q_def)
  next
    case (Cons b cs)
    then have "linked (ptr h) (prev h) (INext (Elem b)) cs" using ok(4) by simp
    then have "linked p q (INext (Elem b)) cs"
      unfolding p_def q_def using ok(7) c Cons n by (auto simp: image_iff)
    moreover have "end_cell (INext (Elem b)) cs \<in> cells bs"
      using end_cell_in [of "INext (Elem b)" cs] Cons by auto
    then have "end_cell (INext (Elem b)) cs \<noteq> ?c" "end_cell (INext (Elem b)) cs \<noteq> INext (Elem x)"
      using c(1) ok(7) by auto
    ultimately show ?thesis using ok(5-7) c n Cons by (auto simp: p_def q_def)
  qed
  then show ?thesis using as ok(7) unfolding base_ilist_ok_def chain_def not_linked_def h'
    by (auto simp: p_def q_def)
qed

text \<open>The elements outside the list keep their fields.\<close>

definition others_same :: "nat list \<Rightarrow> ilink_heap \<Rightarrow> ilink_heap \<Rightarrow> bool" where
  "others_same xs h h' \<longleftrightarrow> (\<forall>n. n \<notin> set xs \<longrightarrow>
     prev h' (Elem n) = prev h (Elem n) \<and> ptr h' (INext (Elem n)) = ptr h (INext (Elem n)))"

lemma base_ilist_first: "base_ilist_ok l xs h \<Longrightarrow> ptr h (IFirst l) = (case xs of [] \<Rightarrow> Sentinel l | x # _ \<Rightarrow> Elem x)"
  by (cases xs) (simp_all add: base_ilist_ok_def chain_def)

lemma base_ilist_append_others: "base_ilist_ok l xs h \<Longrightarrow> others_same (a # xs) h (base_ilist_append (Elem a) l h)"
  by (auto simp: others_same_def base_ilist_append_def Let_def base_ilist_first split: list.splits)

lemma base_ilist_push_back_others:
  "base_ilist_ok l xs h \<Longrightarrow> base_ilist_push_back (Elem a) l h = Some h' \<Longrightarrow> others_same (a # xs) h h'"
  using end_cell_in [of "IFirst l" xs]
  by (auto simp: others_same_def base_ilist_push_back_def Let_def base_ilist_ok_def chain_def)

lemma ilink_unlink_others:
  assumes "base_ilist_ok l (as @ x # bs) h"
  shows "others_same (as @ x # bs) h (ilink_unlink (Elem x) h)"
proof -
  have "prev h (Elem x) = Some (end_cell (IFirst l) as)" "end_cell (IFirst l) as = IFirst l \<or> end_cell (IFirst l) as \<in> cells as"
    "ptr h (INext (Elem x)) = (case bs of [] \<Rightarrow> Sentinel l | b # _ \<Rightarrow> Elem b)"
    using assms end_cell_in [of "IFirst l" as] by (cases bs; auto simp: base_ilist_ok_def chain_def)+
  then show ?thesis
    by (auto simp: others_same_def ilink_unlink_def Let_def split: list.splits)
qed

lemma unlink_not_linked: "not_linked a h \<Longrightarrow> ilink_unlink a h = h"
  by (simp add: not_linked_def ilink_unlink_def set_ptr_def set_prev_def fun_upd_idem)

lemma unlink_other_first:
  "prev h a = Some c \<Longrightarrow> c \<noteq> IFirst m \<Longrightarrow> ptr (ilink_unlink a h) (IFirst m) = ptr h (IFirst m)"
  by (simp add: ilink_unlink_def Let_def)

lemma base_ilist_linked: "base_ilist_ok l xs h \<Longrightarrow> x \<in> set xs \<Longrightarrow> \<not> not_linked (Elem x) h"
  using linked_in by (fastforce simp: base_ilist_ok_def chain_def not_linked_def)

lemma base_ilist_get_ok:
  assumes "base_ilist_ok l xs h"
  shows "fst (base_ilist_get l h) = (case xs of [] \<Rightarrow> INull | x # _ \<Rightarrow> Elem x) \<and>
    base_ilist_ok l (tl xs) (snd (base_ilist_get l h)) \<and> others_same xs h (snd (base_ilist_get l h)) \<and>
    (xs \<noteq> [] \<longrightarrow> not_linked (Elem (hd xs)) (snd (base_ilist_get l h)))"
proof (cases xs)
  case Nil
  then show ?thesis using assms base_ilist_first [OF assms] by (simp add: base_ilist_get_def others_same_def)
next
  case (Cons x ys)
  then show ?thesis
    using base_ilist_first [OF assms] ilink_unlink_ok [of l "[]" x ys h] ilink_unlink_others [of l "[]" x ys h] assms
    by (simp add: base_ilist_get_def Let_def)
qed

lemma base_ilist_walk_chain:
  assumes "chain (ptr h) (prev h) c xs (Sentinel (it_list it))" and "el it = c"
  shows "base_ilist_walk it h = Some (map Elem xs)"
  using assms
proof (induction xs arbitrary: c it)
  case Nil
  then show ?case by (subst base_ilist_walk.simps) (simp add: base_ilist_next_def chain_def)
next
  case (Cons x xs)
  then have "ptr h c = Elem x" "chain (ptr h) (prev h) (INext (Elem x)) xs (Sentinel (it_list it))"
    by (simp_all add: chain_def)
  with Cons.IH [of "INext (Elem x)" "it\<lparr>current := Elem x, el := INext (Elem x)\<rparr>"] Cons.prems(2) show ?case
    by (subst base_ilist_walk.simps) (simp add: base_ilist_next_def Let_def)
qed

definition base_ilist_elems :: "nat \<Rightarrow> ilink_heap \<Rightarrow> ilink list" where
  "base_ilist_elems l h = the (base_ilist_walk (base_ilist_iterator_new l) h)"

lemma base_ilist_walk_ok: "base_ilist_ok l xs h \<Longrightarrow> base_ilist_walk (base_ilist_iterator_new l) h = Some (map Elem xs)"
  by (rule base_ilist_walk_chain [of _ "IFirst l"]) (simp_all add: base_ilist_ok_def base_ilist_iterator_new_def)

lemma base_ilist_elems_ok: "base_ilist_ok l xs h \<Longrightarrow> base_ilist_elems l h = map Elem xs"
  by (simp add: base_ilist_elems_def base_ilist_walk_ok)

section \<open>Sequences of operations\<close>

text \<open>
  A list and its user, who links only an element that is not linked (\<open>assert_not_linked\<close>); \<open>out\<close> collects
  what \<open>get\<close> and \<open>head\<close> return.
\<close>

datatype base_ilist_op = Clear | Append nat | Push_back nat | Get | Head | Unlink nat

record base_ilist_user =
  heap :: ilink_heap
  out :: "ilink list"

definition base_ilist_exec :: "nat \<Rightarrow> base_ilist_op \<Rightarrow> base_ilist_user \<Rightarrow> base_ilist_user option" where
  "base_ilist_exec l op u =
     (case op of
        Clear \<Rightarrow> if base_ilist_is_empty l (heap u) then Some (u\<lparr>heap := base_ilist_empty l (heap u)\<rparr>) else Some u
      | Append n \<Rightarrow> Some (if not_linked (Elem n) (heap u) then u\<lparr>heap := base_ilist_append (Elem n) l (heap u)\<rparr> else u)
      | Push_back n \<Rightarrow>
          if not_linked (Elem n) (heap u)
          then map_option (\<lambda>h. u\<lparr>heap := h\<rparr>) (base_ilist_push_back (Elem n) l (heap u)) else Some u
      | Get \<Rightarrow> (case base_ilist_get l (heap u) of (x, h) \<Rightarrow> Some (u\<lparr>heap := h, out := out u @ [x]\<rparr>))
      | Head \<Rightarrow> Some (u\<lparr>out := out u @ [base_ilist_head l (heap u)]\<rparr>)
      | Unlink n \<Rightarrow> Some (u\<lparr>heap := ilink_unlink (Elem n) (heap u)\<rparr>))"

fun base_ilist_spec :: "base_ilist_op \<Rightarrow> ilink list \<times> ilink list \<Rightarrow> ilink list \<times> ilink list" where
  "base_ilist_spec Clear (xs, r) = (xs, r)"
| "base_ilist_spec (Append n) (xs, r) = (if Elem n \<in> set xs then xs else Elem n # xs, r)"
| "base_ilist_spec (Push_back n) (xs, r) = (if Elem n \<in> set xs then xs else xs @ [Elem n], r)"
| "base_ilist_spec Get (xs, r) = (tl xs, r @ [if xs = [] then INull else hd xs])"
| "base_ilist_spec Head (xs, r) = (xs, r @ [if xs = [] then INull else hd xs])"
| "base_ilist_spec (Unlink n) (xs, r) = (removeAll (Elem n) xs, r)"

text \<open>Exactly the elements of the list are linked.\<close>

definition base_ilist_user_ok :: "nat \<Rightarrow> base_ilist_user \<Rightarrow> bool" where
  "base_ilist_user_ok l u \<longleftrightarrow> (\<exists>xs. base_ilist_ok l xs (heap u) \<and> (\<forall>n. n \<notin> set xs \<longrightarrow> not_linked (Elem n) (heap u)))"

definition base_ilist_user_abs :: "nat \<Rightarrow> base_ilist_user \<Rightarrow> ilink list \<times> ilink list" where
  "base_ilist_user_abs l u = (base_ilist_elems l (heap u), out u)"

lemma base_ilist_userI:
  assumes "base_ilist_ok l ys (heap u')" and "others_same zs (heap u) (heap u')"
    and "\<And>n. n \<notin> set xs \<Longrightarrow> not_linked (Elem n) (heap u)" and "set xs \<subseteq> set zs"
    and "\<And>n. n \<in> set zs - set ys \<Longrightarrow> not_linked (Elem n) (heap u')" and "(map Elem ys, out u') = a"
  shows "base_ilist_user_ok l u' \<and> base_ilist_user_abs l u' = a"
proof -
  have "not_linked (Elem n) (heap u')" if "n \<notin> set ys" for n
  proof (cases "n \<in> set zs")
    case False
    then show ?thesis using assms(2,3,4) by (auto simp: others_same_def not_linked_def subset_iff)
  qed (use assms(5) that in auto)
  then show ?thesis
    using assms(1,6) base_ilist_elems_ok [OF assms(1)] by (auto simp: base_ilist_user_ok_def base_ilist_user_abs_def)
qed

lemma base_ilist_exec_step:
  assumes "base_ilist_user_ok l u"
  shows "\<exists>u'. base_ilist_exec l op u = Some u' \<and> base_ilist_user_ok l u' \<and> base_ilist_user_abs l u' = base_ilist_spec op (base_ilist_user_abs l u)"
proof -
  obtain xs where xs: "base_ilist_ok l xs (heap u)" "\<And>n. n \<notin> set xs \<Longrightarrow> not_linked (Elem n) (heap u)"
    using assms by (auto simp: base_ilist_user_ok_def)
  have abs: "base_ilist_user_abs l u = (map Elem xs, out u)" by (simp add: base_ilist_user_abs_def base_ilist_elems_ok [OF xs(1)])
  have linked: "not_linked (Elem n) (heap u) \<longleftrightarrow> n \<notin> set xs" for n using xs(2) base_ilist_linked [OF xs(1)] by blast
  have same: "others_same zs h h" for zs h by (simp add: others_same_def)
  note userI = base_ilist_userI [where xs = xs and u = u, OF _ _ xs(2)]
  show ?thesis
  proof (cases op)
    case Clear
    have "base_ilist_is_empty l (heap u) \<longleftrightarrow> xs = []" using base_ilist_first [OF xs(1)] by (auto simp: base_ilist_is_empty_def split: list.splits)
    moreover have "base_ilist_empty l (heap u) = heap u" if "xs = []"
      using xs(1) that by (simp add: base_ilist_empty_def base_ilist_ok_def chain_def set_ptr_def set_prev_def fun_upd_idem)
    ultimately show ?thesis using assms abs Clear by (simp add: base_ilist_exec_def)
  next
    case (Append n)
    show ?thesis
    proof (cases "n \<in> set xs")
      case False
      then have "base_ilist_user_ok l (u\<lparr>heap := base_ilist_append (Elem n) l (heap u)\<rparr>) \<and>
          base_ilist_user_abs l (u\<lparr>heap := base_ilist_append (Elem n) l (heap u)\<rparr>) = base_ilist_spec op (base_ilist_user_abs l u)"
        using Append abs base_ilist_append_ok [OF xs(1) False] base_ilist_append_others [OF xs(1), of n]
        by (intro userI [where ys = "n # xs" and zs = "n # xs"]) auto
      then show ?thesis using Append False linked by (simp add: base_ilist_exec_def)
    qed (use Append abs linked assms in \<open>simp add: base_ilist_exec_def image_iff\<close>)
  next
    case (Push_back n)
    show ?thesis
    proof (cases "n \<in> set xs")
      case False
      then obtain h' where h': "base_ilist_push_back (Elem n) l (heap u) = Some h'" "base_ilist_ok l (xs @ [n]) h'"
        using base_ilist_push_back_ok [OF xs(1)] by blast
      then have "base_ilist_user_ok l (u\<lparr>heap := h'\<rparr>) \<and> base_ilist_user_abs l (u\<lparr>heap := h'\<rparr>) = base_ilist_spec op (base_ilist_user_abs l u)"
        using Push_back abs False base_ilist_push_back_others [OF xs(1) h'(1)]
        by (intro userI [where ys = "xs @ [n]" and zs = "n # xs"]) auto
      then show ?thesis using Push_back False linked h'(1) by (simp add: base_ilist_exec_def)
    qed (use Push_back abs linked assms in \<open>simp add: base_ilist_exec_def image_iff\<close>)
  next
    case Get
    obtain x h' where g: "base_ilist_get l (heap u) = (x, h')" by (cases "base_ilist_get l (heap u)")
    note get = base_ilist_get_ok [OF xs(1), unfolded g fst_conv snd_conv]
    have "base_ilist_user_ok l (u\<lparr>heap := h', out := out u @ [x]\<rparr>) \<and>
        base_ilist_user_abs l (u\<lparr>heap := h', out := out u @ [x]\<rparr>) = base_ilist_spec op (base_ilist_user_abs l u)"
    proof (cases xs)
      case Nil
      then show ?thesis using get Get abs by (intro userI [where ys = "[]" and zs = "[]"]) simp_all
    next
      case (Cons y ys)
      then show ?thesis using get Get abs
        by (intro userI [where ys = ys and zs = xs]) auto
    qed
    then show ?thesis using Get g by (simp add: base_ilist_exec_def)
  next
    case Head
    have "base_ilist_head l (heap u) = (if xs = [] then INull else Elem (hd xs))"
      using base_ilist_first [OF xs(1)] by (cases xs) (auto simp: base_ilist_head_def)
    then have "base_ilist_user_ok l (u\<lparr>out := out u @ [base_ilist_head l (heap u)]\<rparr>) \<and>
        base_ilist_user_abs l (u\<lparr>out := out u @ [base_ilist_head l (heap u)]\<rparr>) = base_ilist_spec op (base_ilist_user_abs l u)"
      using Head abs xs(1) by (intro userI [where ys = xs and zs = xs]) (auto simp: same hd_map)
    then show ?thesis using Head by (simp add: base_ilist_exec_def)
  next
    case (Unlink n)
    have rm: "removeAll (Elem n) (map Elem xs) = map Elem (removeAll n xs)" by (induction xs) auto
    show ?thesis
    proof (cases "n \<in> set xs")
      case True
      then obtain as bs where s: "xs = as @ n # bs" by (meson split_list)
      moreover have "removeAll n xs = as @ bs" using xs(1) s by (auto simp: base_ilist_ok_def removeAll_id)
      ultimately have "base_ilist_user_ok l (u\<lparr>heap := ilink_unlink (Elem n) (heap u)\<rparr>) \<and>
          base_ilist_user_abs l (u\<lparr>heap := ilink_unlink (Elem n) (heap u)\<rparr>) = base_ilist_spec op (base_ilist_user_abs l u)"
        using Unlink abs rm ilink_unlink_ok [of l as n bs "heap u"] ilink_unlink_others [of l as n bs "heap u"] xs(1)
        by (intro userI [where ys = "as @ bs" and zs = xs]) auto
      then show ?thesis using Unlink by (simp add: base_ilist_exec_def)
    next
      case False
      then show ?thesis using Unlink abs rm assms unlink_not_linked [of "Elem n" "heap u"] linked
        by (simp add: base_ilist_exec_def)
    qed
  qed
qed

interpretation base_ilist: data_refinement "base_ilist_exec l" base_ilist_spec "base_ilist_user_ok l" "base_ilist_user_abs l" "\<lambda>op. True"
  by unfold_locales (rule base_ilist_exec_step)

section \<open>Properties\<close>


definition blank_ilink_heap :: ilink_heap where
  "blank_ilink_heap = \<lparr>ptr = \<lambda>c. INull, prev = \<lambda>n. None\<rparr>"

definition blank_ilist_user :: "nat \<Rightarrow> base_ilist_user" where
  "blank_ilist_user l = \<lparr>heap = base_ilist_empty l blank_ilink_heap, out = []\<rparr>"

lemma blank_ilist_user_ok: "base_ilist_user_ok l (blank_ilist_user l)"
proof -
  have "not_linked (Elem n) (heap (blank_ilist_user l))" for n
    by (simp add: not_linked_def blank_ilist_user_def blank_ilink_heap_def base_ilist_empty_def)
  moreover have "base_ilist_ok l [] (heap (blank_ilist_user l))" by (simp add: blank_ilist_user_def base_ilist_empty_ok)
  ultimately show ?thesis unfolding base_ilist_user_ok_def by blast
qed


text \<open>An element can be unlinked while the list is walked: after \<open>next\<close> gave it, \<open>unlink\<close> of the iterator takes
  it out of the list, and the walk goes on with the element after it.\<close>

theorem base_ilist_unlink_while_walking:
  assumes "base_ilist_ok l (as @ x # bs) h" and "it_list it = l" and "el it = end_cell (IFirst l) as"
  shows "fst (base_ilist_next it h) = Elem x \<and>
    (\<exists>it' h'. base_ilist_iterator_unlink (snd (base_ilist_next it h)) h = Some (it', h') \<and> base_ilist_ok l (as @ bs) h' \<and>
      not_linked (Elem x) h' \<and> base_ilist_walk it' h' = Some (map Elem bs))"
proof -
  have ok: "ptr h (end_cell (IFirst l) as) = Elem x" "prev h (Elem x) = Some (end_cell (IFirst l) as)"
    using assms(1) by (simp_all add: base_ilist_ok_def chain_def)
  let ?it = "it\<lparr>current := Elem x, el := INext (Elem x)\<rparr>" and ?h = "ilink_unlink (Elem x) h"
  have next_it: "base_ilist_next it h = (Elem x, ?it)" using ok(1) assms(3) by (simp add: base_ilist_next_def Let_def)
  have un: "base_ilist_iterator_unlink ?it h = Some (?it\<lparr>el := end_cell (IFirst l) as\<rparr>, ?h)"
    using ok(2) by (simp add: base_ilist_iterator_unlink_def)
  have h: "base_ilist_ok l (as @ bs) ?h" "not_linked (Elem x) ?h" using ilink_unlink_ok [OF assms(1)] by simp_all
  then have "chain (ptr ?h) (prev ?h) (end_cell (IFirst l) as) bs (Sentinel l)"
    by (simp add: base_ilist_ok_def chain_def)
  then have "base_ilist_walk (?it\<lparr>el := end_cell (IFirst l) as\<rparr>) ?h = Some (map Elem bs)"
    using assms(2) by (intro base_ilist_walk_chain) simp_all
  then show ?thesis using next_it un h by simp
qed

definition ilink_pair :: ilink_heap where
  "ilink_pair =
     \<lparr>ptr = (\<lambda>c. INull)(IFirst 0 := Elem 1, INext (Elem 1) := Elem 2, INext (Elem 2) := Sentinel 0, IFirst 5 := Sentinel 5),
      prev = (\<lambda>n. None)(Elem 1 := Some (IFirst 0), Elem 2 := Some (INext (Elem 1)), Sentinel 0 := Some (INext (Elem 2)),
        Sentinel 5 := Some (IFirst 5))\<rparr>"

lemma ilink_pair_ok: "base_ilist_ok 0 [1, 2] ilink_pair" "base_ilist_ok 5 [] ilink_pair"
  by (simp_all add: base_ilist_ok_def chain_def ilink_pair_def)

lemma base_ilist_unlink_while_walking_witness:
  "\<exists>it' h'. base_ilist_iterator_unlink (snd (base_ilist_next (base_ilist_iterator_new 0) ilink_pair)) ilink_pair = Some (it', h') \<and>
     base_ilist_ok 0 [2] h' \<and> base_ilist_walk it' h' = Some [Elem 2]"
  using base_ilist_unlink_while_walking [of 0 "[]" 1 "[2]" ilink_pair "base_ilist_iterator_new 0"] ilink_pair_ok(1)
  by (auto simp: base_ilist_iterator_new_def)

text \<open>C18. \<open>move_elements_to\<close> does not give the new owner a list: its elements still point to the old list and
  its sentinel. An empty list makes the new owner one that is not empty; and after elements were
  moved, \<open>get\<close> on the new owner gives the same first element again and again.\<close>

theorem move_elements_to_broken:
  assumes "base_ilist_ok l xs h" and "base_ilist_ok m [] h" and "l \<noteq> m"
  shows "\<exists>h'. move_elements_to m l h = Some h' \<and> \<not> base_ilist_is_empty m h' \<and> (\<forall>ys. \<not> base_ilist_ok m ys h') \<and>
    fst (base_ilist_get m h') = (if xs = [] then Sentinel l else Elem (hd xs)) \<and>
    fst (base_ilist_get m (snd (base_ilist_get m h'))) = fst (base_ilist_get m h')"
proof -
  let ?f = "if xs = [] then Sentinel l else Elem (hd xs)"
  have first: "ptr h (IFirst l) = ?f" using base_ilist_first [OF assms(1)] by (cases xs) simp_all
  have empty: "base_ilist_is_empty m h" using base_ilist_first [OF assms(2)] by (simp add: base_ilist_is_empty_def)
  define h' where "h' = base_ilist_empty l (set_ptr (INext (Sentinel m)) (ptr h (INext (Sentinel l)))
    (set_prev (Sentinel m) (prev h (Sentinel l)) (set_ptr (IFirst m) (ptr h (IFirst l)) h)))"
  have move: "move_elements_to m l h = Some h'"
    using empty assms(3) by (simp add: move_elements_to_def h'_def Let_def)
  have f: "ptr h' (IFirst m) = ?f" using first assms(3) by (simp add: h'_def base_ilist_empty_def)
  have points: "prev h' ?f = Some (IFirst l)"
    using assms(1) by (cases xs) (auto simp: h'_def base_ilist_empty_def base_ilist_ok_def chain_def)
  have "\<not> base_ilist_ok m ys h'" for ys
  proof
    assume "base_ilist_ok m ys h'"
    then show False using f points assms(3) by (cases ys) (auto simp: base_ilist_ok_def chain_def split: if_splits)
  qed
  moreover have get: "fst (base_ilist_get m h') = ?f" using f assms(3) by (simp add: base_ilist_get_def Let_def)
  moreover have "ptr (snd (base_ilist_get m h')) (IFirst m) = ?f"
    using f assms(3) unlink_other_first [OF points, of m] by (auto simp: base_ilist_get_def Let_def)
  then have "fst (base_ilist_get m (snd (base_ilist_get m h'))) = ?f" using assms(3) by (simp add: base_ilist_get_def Let_def)
  moreover have "\<not> base_ilist_is_empty m h'" using f assms(3) by (simp add: base_ilist_is_empty_def)
  ultimately show ?thesis using move by auto
qed

lemma move_elements_to_broken_witness:
  "\<exists>h'. move_elements_to 5 0 ilink_pair = Some h' \<and> (\<forall>ys. \<not> base_ilist_ok 5 ys h') \<and>
     fst (base_ilist_get 5 (snd (base_ilist_get 5 h'))) = Elem 1"
  using move_elements_to_broken [OF ilink_pair_ok] by auto

end
