(* ===== verification/Ilist.thy ===== *)
theory Ilist
  imports Prelude "HOL-Library.Word"
begin

text \<open>
  The intrusive lists of \<open>private/ilist.h\<close>: \<open>ilist\<close>, a ring of nodes through a sentinel that is a member of
  the list, its iterators, and \<open>sized_ilist\<close>, which counts. All nodes live in one heap. \<open>debug\<close> says whether
  the build has assertions (\<open>DBUG_OFF\<close> not defined); a failing assertion is None. \<open>count\<close>, the field \<open>size_\<close>, is a word: \<open>size_t\<close>
  has 64 bits.
\<close>

section \<open>Memory\<close>

datatype ilist_node = Null_node | Value nat | Sent nat

record ring_heap =
  nx :: "ilist_node \<Rightarrow> ilist_node"
  pv :: "ilist_node \<Rightarrow> ilist_node"

definition set_nx :: "ilist_node \<Rightarrow> ilist_node \<Rightarrow> ring_heap \<Rightarrow> ring_heap" where
  "set_nx n m h = h\<lparr>nx := (nx h)(n := m)\<rparr>"

definition set_pv :: "ilist_node \<Rightarrow> ilist_node \<Rightarrow> ring_heap \<Rightarrow> ring_heap" where
  "set_pv n m h = h\<lparr>pv := (pv h)(n := m)\<rparr>"

lemma ring_simps [simp]:
  "nx (set_nx n m h) = (nx h)(n := m)" "pv (set_nx n m h) = pv h"
  "nx (set_pv n m h) = nx h" "pv (set_pv n m h) = (pv h)(n := m)"
  by (simp_all add: set_nx_def set_pv_def)

section \<open>Iterators\<close>

definition Iterator_new :: "bool \<Rightarrow> ilist_node \<Rightarrow> ilist_node option" where
  "Iterator_new debug node = (if debug \<and> node = Null_node then None else Some node)"

definition Iterator_inc :: "bool \<Rightarrow> ilist_node \<Rightarrow> ring_heap \<Rightarrow> ilist_node option" where
  "Iterator_inc debug node h = (let node = nx h node in if debug \<and> node = Null_node then None else Some node)"

definition Iterator_dec :: "bool \<Rightarrow> ilist_node \<Rightarrow> ring_heap \<Rightarrow> ilist_node option" where
  "Iterator_dec debug node h = (let node = pv h node in if debug \<and> node = Null_node then None else Some node)"

section \<open>ilist\<close>

definition ilist_new :: "nat \<Rightarrow> ring_heap \<Rightarrow> ring_heap" where
  "ilist_new l h = set_pv (Sent l) (Sent l) (set_nx (Sent l) (Sent l) h)"

definition ilist_begin :: "bool \<Rightarrow> nat \<Rightarrow> ring_heap \<Rightarrow> ilist_node option" where
  "ilist_begin debug l h = Iterator_new debug (nx h (Sent l))"

definition ilist_end :: "nat \<Rightarrow> ilist_node" where
  "ilist_end l = Sent l"

definition ilist_front :: "bool \<Rightarrow> nat \<Rightarrow> ring_heap \<Rightarrow> ilist_node option" where
  "ilist_front debug l h = ilist_begin debug l h"

definition ilist_back :: "bool \<Rightarrow> nat \<Rightarrow> ring_heap \<Rightarrow> ilist_node option" where
  "ilist_back debug l h = Iterator_dec debug (ilist_end l) h"

definition ilist_is_empty :: "nat \<Rightarrow> ring_heap \<Rightarrow> bool" where
  "ilist_is_empty l h \<longleftrightarrow> nx h (Sent l) = Sent l"

definition ilist_clear :: "nat \<Rightarrow> ring_heap \<Rightarrow> ring_heap" where
  "ilist_clear l h = set_pv (Sent l) (Sent l) (set_nx (Sent l) (Sent l) h)"

definition ilist_insert :: "ilist_node \<Rightarrow> ilist_node \<Rightarrow> ring_heap \<Rightarrow> ilist_node \<times> ring_heap" where
  "ilist_insert pos value h =
     (let curr = pos;
          prev = pv h pos;
          h = set_nx prev value h;
          h = set_pv curr value h;
          h = set_pv value prev h;
          h = set_nx value curr h
      in (value, h))"

definition ilist_erase :: "bool \<Rightarrow> ilist_node \<Rightarrow> ring_heap \<Rightarrow> ilist_node \<times> ring_heap" where
  "ilist_erase debug pos h =
     (let prev = pv h pos;
          next = nx h pos;
          h = set_nx prev next h;
          h = set_pv next prev h;
          h = (if debug then set_nx pos Null_node (set_pv pos Null_node h) else h)
      in (next, h))"

definition ilist_push_back :: "ilist_node \<Rightarrow> nat \<Rightarrow> ring_heap \<Rightarrow> ring_heap" where
  "ilist_push_back value l h = snd (ilist_insert (ilist_end l) value h)"

definition ilist_pop_back :: "bool \<Rightarrow> nat \<Rightarrow> ring_heap \<Rightarrow> ring_heap" where
  "ilist_pop_back debug l h = snd (ilist_erase debug (ilist_end l) h)"

definition ilist_push_front :: "bool \<Rightarrow> ilist_node \<Rightarrow> nat \<Rightarrow> ring_heap \<Rightarrow> ring_heap option" where
  "ilist_push_front debug value l h = map_option (\<lambda>b. snd (ilist_insert b value h)) (ilist_begin debug l h)"

definition ilist_pop_front :: "bool \<Rightarrow> nat \<Rightarrow> ring_heap \<Rightarrow> ring_heap option" where
  "ilist_pop_front debug l h = map_option (\<lambda>b. snd (ilist_erase debug b h)) (ilist_begin debug l h)"

definition ilist_remove :: "bool \<Rightarrow> ilist_node \<Rightarrow> ring_heap \<Rightarrow> ring_heap" where
  "ilist_remove debug value h = snd (ilist_erase debug value h)"

section \<open>sized\_ilist\<close>

record sized_heap =
  ring :: ring_heap
  count :: "64 word"

definition sized_new :: "nat \<Rightarrow> ring_heap \<Rightarrow> sized_heap" where
  "sized_new l h = \<lparr>ring = ilist_new l h, count = 0\<rparr>"

definition sized_clear :: "nat \<Rightarrow> sized_heap \<Rightarrow> sized_heap" where
  "sized_clear l s = s\<lparr>ring := ilist_clear l (ring s), count := 0\<rparr>"

definition sized_insert :: "ilist_node \<Rightarrow> ilist_node \<Rightarrow> sized_heap \<Rightarrow> ilist_node \<times> sized_heap" where
  "sized_insert pos value s =
     (let s = s\<lparr>count := count s + 1\<rparr>
      in case ilist_insert pos value (ring s) of (it, h) \<Rightarrow> (it, s\<lparr>ring := h\<rparr>))"

definition sized_erase :: "bool \<Rightarrow> ilist_node \<Rightarrow> sized_heap \<Rightarrow> ilist_node \<times> sized_heap" where
  "sized_erase debug pos s =
     (let s = s\<lparr>count := count s - 1\<rparr>
      in case ilist_erase debug pos (ring s) of (it, h) \<Rightarrow> (it, s\<lparr>ring := h\<rparr>))"

definition sized_push_back :: "ilist_node \<Rightarrow> nat \<Rightarrow> sized_heap \<Rightarrow> sized_heap" where
  "sized_push_back value l s = snd (sized_insert (ilist_end l) value s)"

definition sized_pop_back :: "bool \<Rightarrow> nat \<Rightarrow> sized_heap \<Rightarrow> sized_heap" where
  "sized_pop_back debug l s = snd (sized_erase debug (ilist_end l) s)"

definition sized_push_front :: "bool \<Rightarrow> ilist_node \<Rightarrow> nat \<Rightarrow> sized_heap \<Rightarrow> sized_heap option" where
  "sized_push_front debug value l s = map_option (\<lambda>b. snd (sized_insert b value s)) (ilist_begin debug l (ring s))"

definition sized_pop_front :: "bool \<Rightarrow> nat \<Rightarrow> sized_heap \<Rightarrow> sized_heap option" where
  "sized_pop_front debug l s = map_option (\<lambda>b. snd (sized_erase debug b s)) (ilist_begin debug l (ring s))"

definition sized_remove :: "bool \<Rightarrow> ilist_node \<Rightarrow> sized_heap \<Rightarrow> sized_heap" where
  "sized_remove debug value s = snd (sized_erase debug value s)"

section \<open>What a list holds\<close>

text \<open>Nodes linked both ways after a node, and the last of them.\<close>

fun linked :: "ring_heap \<Rightarrow> ilist_node \<Rightarrow> nat list \<Rightarrow> bool" where
  "linked h a [] \<longleftrightarrow> True"
| "linked h a (x # xs) \<longleftrightarrow> nx h a = Value x \<and> pv h (Value x) = a \<and> linked h (Value x) xs"

definition last_node :: "ilist_node \<Rightarrow> nat list \<Rightarrow> ilist_node" where
  "last_node a xs = (if xs = [] then a else Value (last xs))"

definition first_node :: "nat \<Rightarrow> nat list \<Rightarrow> ilist_node" where
  "first_node l xs = (case xs of [] \<Rightarrow> Sent l | x # _ \<Rightarrow> Value x)"

definition ring_ok :: "nat \<Rightarrow> nat list \<Rightarrow> ring_heap \<Rightarrow> bool" where
  "ring_ok l xs h \<longleftrightarrow> linked h (Sent l) xs \<and> nx h (last_node (Sent l) xs) = Sent l \<and>
     pv h (Sent l) = last_node (Sent l) xs \<and> distinct xs"

lemma last_node_simps [simp]:
  "last_node a [] = a" "last_node a (x # xs) = last_node (Value x) xs"
  "last_node a (xs @ ys) = last_node (last_node a xs) ys"
  by (simp_all add: last_node_def)

lemma last_node_in: "last_node a xs = a \<or> last_node a xs \<in> Value ` set xs"
  by (auto simp: last_node_def)

lemma linked_app [simp]: "linked h a (xs @ ys) \<longleftrightarrow> linked h a xs \<and> linked h (last_node a xs) ys"
  by (induction xs arbitrary: a) auto

lemma linked_set_nx [simp]: "n \<noteq> a \<Longrightarrow> n \<notin> Value ` set xs \<Longrightarrow> linked (set_nx n m h) a xs \<longleftrightarrow> linked h a xs"
  by (induction xs arbitrary: a) auto

lemma linked_set_pv [simp]: "n \<notin> Value ` set xs \<Longrightarrow> linked (set_pv n m h) a xs \<longleftrightarrow> linked h a xs"
  by (induction xs arbitrary: a) auto

lemma linked_last [simp]:
  "distinct xs \<Longrightarrow> a \<notin> Value ` set xs \<Longrightarrow> linked (set_nx (last_node a xs) m h) a xs \<longleftrightarrow> linked h a xs"
proof (induction xs arbitrary: a)
  case (Cons x xs)
  have "last_node (Value x) xs \<noteq> a" using Cons.prems last_node_in [of "Value x" xs] by auto
  then have "nx (set_nx (last_node (Value x) xs) m h) a = nx h a" by simp
  moreover have "linked (set_nx (last_node (Value x) xs) m h) (Value x) xs \<longleftrightarrow> linked h (Value x) xs"
    using Cons.prems by (intro Cons.IH) auto
  ultimately show ?case unfolding linked.simps last_node_simps by simp
qed simp

lemma ring_first: "ring_ok l xs h \<Longrightarrow> nx h (Sent l) = first_node l xs"
  by (cases xs) (simp_all add: ring_ok_def first_node_def)

text \<open>The two halves of a ring around a place in it.\<close>

lemma ring_split:
  "ring_ok l (as @ bs) h \<longleftrightarrow>
    linked h (Sent l) as \<and> nx h (last_node (Sent l) as) = first_node l bs \<and>
    pv h (first_node l bs) = last_node (Sent l) as \<and>
    (bs \<noteq> [] \<longrightarrow> linked h (first_node l bs) (tl bs) \<and> nx h (last_node (Sent l) bs) = Sent l \<and>
      pv h (Sent l) = last_node (Sent l) bs) \<and> distinct (as @ bs)"
  by (cases bs) (auto simp: ring_ok_def first_node_def)

lemma ilist_insert_ok:
  assumes "ring_ok l (as @ bs) h" and "v \<notin> set (as @ bs)"
  shows "fst (ilist_insert (first_node l bs) (Value v) h) = Value v \<and>
    ring_ok l (as @ v # bs) (snd (ilist_insert (first_node l bs) (Value v) h))"
proof -
  let ?a = "last_node (Sent l) as" and ?b = "first_node l bs"
  let ?h = "snd (ilist_insert ?b (Value v) h)"
  have ok: "linked h (Sent l) as" "nx h ?a = ?b" "pv h ?b = ?a" "distinct (as @ bs)"
    "bs \<noteq> [] \<Longrightarrow> linked h ?b (tl bs) \<and> nx h (last_node (Sent l) bs) = Sent l \<and>
       pv h (Sent l) = last_node (Sent l) bs"
    using assms(1) unfolding ring_split by auto
  have a: "?a \<noteq> Value v" "?a \<notin> Value ` set bs" using last_node_in [of "Sent l" as] assms(2) ok(4) by auto
  have b: "?b \<noteq> Value v" "?b \<notin> Value ` set as" using assms(2) ok(4) by (cases bs; auto simp: first_node_def)+
  have h: "?h = set_nx (Value v) ?b (set_pv (Value v) ?a (set_pv ?b (Value v) (set_nx ?a (Value v) h)))"
    by (simp add: ilist_insert_def ok(3) Let_def)
  have as: "linked ?h (Sent l) as"
    unfolding h using ok(1,4) assms(2) b by (subst linked_set_nx, simp, force, subst linked_set_pv, force, subst linked_set_pv, force, subst linked_last) auto
  have bs: "linked ?h (Value v) bs \<and> nx ?h (last_node (Value v) bs) = Sent l \<and> pv ?h (Sent l) = last_node (Value v) bs"
  proof (cases bs)
    case Nil
    then show ?thesis unfolding h using a by (simp add: first_node_def)
  next
    case (Cons c cs)
    have "linked ?h (Value c) cs" unfolding h using ok(4,5) a assms(2) Cons by (auto simp: first_node_def image_iff)
    moreover have "last_node (Value c) cs \<in> Value ` set bs" using last_node_in [of "Value c" cs] Cons by auto
    then have "last_node (Value c) cs \<noteq> ?a" "last_node (Value c) cs \<noteq> Value v" using a(2) assms(2) by auto
    ultimately show ?thesis unfolding h using ok(5) Cons assms(2) by (auto simp: first_node_def)
  qed
  have "nx ?h ?a = Value v" "pv ?h (Value v) = ?a" using a b by (simp_all add: h)
  then show ?thesis using as bs ok(4) assms(2) by (auto simp: ring_ok_def ilist_insert_def Let_def)
qed

lemma ilist_erase_ok:
  assumes "ring_ok l (as @ x # bs) h"
  shows "fst (ilist_erase debug (Value x) h) = first_node l bs \<and>
    ring_ok l (as @ bs) (snd (ilist_erase debug (Value x) h))"
proof -
  let ?a = "last_node (Sent l) as" and ?b = "first_node l bs"
  let ?h = "snd (ilist_erase debug (Value x) h)"
  have ok: "linked h (Sent l) as" "pv h (Value x) = ?a" "linked h (Value x) bs" "distinct (as @ x # bs)"
    "nx h (last_node (Value x) bs) = Sent l" "pv h (Sent l) = last_node (Value x) bs"
    using assms by (auto simp: ring_ok_def)
  have nx: "nx h (Value x) = ?b" using ok(3,5) by (cases bs) (auto simp: first_node_def)
  have a: "?a \<noteq> Value x" "?a \<notin> Value ` set bs" using last_node_in [of "Sent l" as] ok(4) by auto
  have b: "?b \<noteq> Value x" "?b \<notin> Value ` set as" using ok(4) by (cases bs; auto simp: first_node_def)+
  have h: "?h = (if debug then set_nx (Value x) Null_node (set_pv (Value x) Null_node (set_pv ?b ?a (set_nx ?a ?b h)))
      else set_pv ?b ?a (set_nx ?a ?b h))"
    by (simp add: ilist_erase_def ok(2) nx Let_def)
  have "linked (set_pv ?b ?a (set_nx ?a ?b h)) (Sent l) as"
    using ok(1,4) b by (subst linked_set_pv, force, subst linked_last) auto
  then have as: "linked ?h (Sent l) as" unfolding h using ok(4) by (auto simp: image_iff)
  have "linked ?h ?a bs \<and> nx ?h (last_node ?a bs) = Sent l \<and> pv ?h (Sent l) = last_node ?a bs"
  proof (cases bs)
    case Nil
    then show ?thesis using a by (auto simp: h first_node_def)
  next
    case (Cons c cs)
    have "linked ?h (Value c) cs" unfolding h using ok(3,4) a Cons by (auto simp: first_node_def image_iff)
    moreover have "last_node (Value c) cs \<in> Value ` set bs" using last_node_in [of "Value c" cs] Cons by auto
    then have "last_node (Value c) cs \<noteq> ?a" "last_node (Value c) cs \<noteq> Value x" using a(2) ok(4) by auto
    ultimately show ?thesis using ok(3-6) a Cons by (auto simp: h first_node_def)
  qed
  then show ?thesis using as ok(4) nx by (auto simp: ring_ok_def ilist_erase_def Let_def)
qed

lemma ilist_clear_ok: "ring_ok l [] (ilist_clear l h)" "ring_ok l [] (ilist_new l h)"
  by (simp_all add: ring_ok_def ilist_clear_def ilist_new_def)

lemma ring_ends:
  assumes "ring_ok l xs h"
  shows "ilist_begin debug l h = Some (first_node l xs)" and "ilist_back debug l h = Some (last_node (Sent l) xs)"
    and "ilist_is_empty l h \<longleftrightarrow> xs = []"
  using assms ring_first [OF assms] last_node_in [of "Sent l" xs]
  by (auto simp: ilist_begin_def Iterator_new_def ilist_back_def Iterator_dec_def ilist_end_def ilist_is_empty_def
    ring_ok_def first_node_def split: list.splits)

section \<open>Walking a list\<close>

text \<open>The loop from \<open>begin()\<close> to \<open>end()\<close>: the nodes it visits.\<close>

partial_function (option) ring_walk :: "bool \<Rightarrow> nat \<Rightarrow> ilist_node \<Rightarrow> ring_heap \<Rightarrow> ilist_node list option" where
  "ring_walk debug l node h =
     (if node = ilist_end l then Some []
      else Option.bind (Iterator_inc debug node h)
        (\<lambda>node'. Option.bind (ring_walk debug l node' h) (\<lambda>ns. Some (node # ns))))"

definition ilist_walk :: "bool \<Rightarrow> nat \<Rightarrow> ring_heap \<Rightarrow> ilist_node list option" where
  "ilist_walk debug l h = Option.bind (ilist_begin debug l h) (\<lambda>node. ring_walk debug l node h)"

lemma ring_walk_linked:
  "linked h a xs \<Longrightarrow> nx h (last_node a xs) = Sent l \<Longrightarrow> ring_walk debug l (nx h a) h = Some (map Value xs)"
proof (induction xs arbitrary: a)
  case Nil
  then show ?case by (subst ring_walk.simps) (simp add: ilist_end_def)
next
  case (Cons x xs)
  then have x: "nx h a = Value x" "ring_walk debug l (nx h (Value x)) h = Some (map Value xs)" by simp_all
  have "nx h (Value x) \<noteq> Null_node" using Cons.prems by (cases xs) auto
  then show ?case using x by (subst ring_walk.simps) (simp add: ilist_end_def Iterator_inc_def Let_def)
qed

lemma ring_walk_all: "ring_ok l xs h \<Longrightarrow> ilist_walk debug l h = Some (map Value xs)"
  using ring_walk_linked [of h "Sent l" xs l debug] ring_ends(1) [of l xs h debug] ring_first [of l xs h]
  by (simp add: ilist_walk_def ring_ok_def)

text \<open>A walk that returns has reached the end by following \<open>next\<close>.\<close>

lemma ring_walk_reaches:
  assumes "ring_walk debug l node h = Some ns"
  shows "\<exists>k. (nx h ^^ k) node = Sent l"
  using assms
proof (rule ring_walk.raw_induct [rotated, where P = "\<lambda>debug l node h ns. \<exists>k. (nx h ^^ k) node = Sent l"])
  fix walk debug l node h ns
  assume IH: "\<And>l node h b y. walk l node h b = Some y \<Longrightarrow> \<exists>k. (nx b ^^ k) h = Sent node"
    and eq: "(if node = ilist_end l then Some []
      else Option.bind (Iterator_inc debug node h)
        (\<lambda>node'. Option.bind (walk debug l node' h) (\<lambda>ns. Some (node # ns)))) = Some ns"
  show "\<exists>k. (nx h ^^ k) node = Sent l"
  proof (cases "node = Sent l")
    case True
    then show ?thesis by (intro exI [of _ 0]) simp
  next
    case False
    then obtain y where "walk debug l (nx h node) h = Some y"
      using eq by (auto simp: ilist_end_def Iterator_inc_def Let_def bind_eq_Some_conv split: if_splits)
    from IH [OF this] obtain k where "(nx h ^^ Suc k) node = Sent l" by (auto simp: funpow_swap1)
    then show ?thesis by blast
  qed
qed

section \<open>Sequences of operations\<close>

text \<open>
  A counted list and its user, who inserts only elements that are not in the list and takes only
  those that are; \<open>Insert v w\<close> puts \<open>v\<close> before the element \<open>w\<close>, \<open>out\<close> collects what \<open>front\<close>, \<open>back\<close> and \<open>erase\<close>
  return. \<open>pop_back\<close> is not among the operations.
\<close>

datatype ring_op = Clear | Push_back nat | Push_front nat | Pop_front | Insert nat nat | Erase nat | Remove nat | Front | Back

record ring_user =
  list :: sized_heap
  out :: "ilist_node list"

definition contains :: "bool \<Rightarrow> nat \<Rightarrow> nat \<Rightarrow> ring_user \<Rightarrow> bool" where
  "contains debug l n u \<longleftrightarrow> (case ilist_walk debug l (ring (list u)) of None \<Rightarrow> False | Some ns \<Rightarrow> Value n \<in> set ns)"

definition ring_exec :: "bool \<Rightarrow> nat \<Rightarrow> ring_op \<Rightarrow> ring_user \<Rightarrow> ring_user option" where
  "ring_exec debug l op u =
     (case op of
        Clear \<Rightarrow> Some (u\<lparr>list := sized_clear l (list u)\<rparr>)
      | Push_back n \<Rightarrow>
          Some (if contains debug l n u then u else u\<lparr>list := sized_push_back (Value n) l (list u)\<rparr>)
      | Push_front n \<Rightarrow>
          if contains debug l n u then Some u
          else map_option (\<lambda>s. u\<lparr>list := s\<rparr>) (sized_push_front debug (Value n) l (list u))
      | Pop_front \<Rightarrow>
          if ilist_is_empty l (ring (list u)) then Some u
          else map_option (\<lambda>s. u\<lparr>list := s\<rparr>) (sized_pop_front debug l (list u))
      | Insert n w \<Rightarrow>
          Some (if contains debug l n u \<or> \<not> contains debug l w u then u
                else u\<lparr>list := snd (sized_insert (Value w) (Value n) (list u))\<rparr>)
      | Erase n \<Rightarrow>
          Some (if contains debug l n u
                then case sized_erase debug (Value n) (list u) of (it, s) \<Rightarrow> u\<lparr>list := s, out := out u @ [it]\<rparr>
                else u)
      | Remove n \<Rightarrow>
          Some (if contains debug l n u then u\<lparr>list := sized_remove debug (Value n) (list u)\<rparr> else u)
      | Front \<Rightarrow> map_option (\<lambda>n. u\<lparr>out := out u @ [n]\<rparr>) (ilist_front debug l (ring (list u)))
      | Back \<Rightarrow> map_option (\<lambda>n. u\<lparr>out := out u @ [n]\<rparr>) (ilist_back debug l (ring (list u))))"

text \<open>The same on the sequence of elements.\<close>

fun insert_before :: "nat \<Rightarrow> nat \<Rightarrow> nat list \<Rightarrow> nat list" where
  "insert_before n w [] = []"
| "insert_before n w (x # xs) = (if x = w then n # x # xs else x # insert_before n w xs)"

fun ring_spec :: "nat \<Rightarrow> ring_op \<Rightarrow> nat list \<times> ilist_node list \<Rightarrow> nat list \<times> ilist_node list" where
  "ring_spec l Clear (xs, r) = ([], r)"
| "ring_spec l (Push_back n) (xs, r) = (if n \<in> set xs then xs else xs @ [n], r)"
| "ring_spec l (Push_front n) (xs, r) = (if n \<in> set xs then xs else n # xs, r)"
| "ring_spec l Pop_front (xs, r) = (tl xs, r)"
| "ring_spec l (Insert n w) (xs, r) = (if n \<in> set xs then xs else insert_before n w xs, r)"
| "ring_spec l (Erase n) (xs, r) =
     (removeAll n xs, if n \<in> set xs then r @ [first_node l (tl (dropWhile (\<lambda>x. x \<noteq> n) xs))] else r)"
| "ring_spec l (Remove n) (xs, r) = (removeAll n xs, r)"
| "ring_spec l Front (xs, r) = (xs, r @ [first_node l xs])"
| "ring_spec l Back (xs, r) = (xs, r @ [last_node (Sent l) xs])"

definition ring_user_ok :: "nat \<Rightarrow> ring_user \<Rightarrow> bool" where
  "ring_user_ok l u \<longleftrightarrow> (\<exists>xs. ring_ok l xs (ring (list u)) \<and> count (list u) = of_nat (length xs))"

definition value_of :: "ilist_node \<Rightarrow> nat" where
  "value_of n = (case n of Value x \<Rightarrow> x | _ \<Rightarrow> 0)"

definition ring_user_abs :: "bool \<Rightarrow> nat \<Rightarrow> ring_user \<Rightarrow> nat list \<times> ilist_node list" where
  "ring_user_abs debug l u = (map value_of (the (ilist_walk debug l (ring (list u)))), out u)"

lemma insert_before_split: "w \<notin> set as \<Longrightarrow> insert_before n w (as @ w # bs) = as @ n # w # bs"
  by (induction as) auto

lemma insert_before_not: "w \<notin> set xs \<Longrightarrow> insert_before n w xs = xs"
  by (induction xs) auto

lemma ring_userI:
  assumes "ring_ok l ys (ring (list u))" and "count (list u) = of_nat (length ys)" and "(ys, out u) = a"
  shows "ring_user_ok l u \<and> ring_user_abs debug l u = a"
proof -
  have "map value_of (map Value ys) = ys" by (simp add: value_of_def comp_def)
  then show ?thesis using assms ring_walk_all [OF assms(1), of debug] by (auto simp: ring_user_ok_def ring_user_abs_def)
qed

lemma ring_exec_step:
  assumes "ring_user_ok l u"
  shows "\<exists>u'. ring_exec debug l op u = Some u' \<and> ring_user_ok l u' \<and>
    ring_user_abs debug l u' = ring_spec l op (ring_user_abs debug l u)"
proof -
  let ?h = "ring (list u)"
  obtain xs where xs: "ring_ok l xs ?h" "count (list u) = of_nat (length xs)"
    using assms by (auto simp: ring_user_ok_def)
  have abs: "ring_user_abs debug l u = (xs, out u)" using ring_userI [OF xs] by simp
  have mem: "contains debug l n u \<longleftrightarrow> n \<in> set xs" for n by (auto simp: contains_def ring_walk_all [OF xs(1)])
  have d: "distinct xs" using xs(1) by (simp add: ring_ok_def)
  have insert: "ring_ok l (as @ n # bs) (ring (snd (sized_insert p (Value n) (list u)))) \<and>
      count (snd (sized_insert p (Value n) (list u))) = of_nat (length (as @ n # bs))"
    if "xs = as @ bs" "n \<notin> set xs" "p = first_node l bs" for as bs n p
    using ilist_insert_ok [of l as bs ?h n] xs that by (simp add: sized_insert_def Let_def case_prod_beta)
  have erase: "ring_ok l (as @ bs) (ring (snd (sized_erase debug (Value n) (list u)))) \<and>
      count (snd (sized_erase debug (Value n) (list u))) = of_nat (length (as @ bs)) \<and>
      fst (sized_erase debug (Value n) (list u)) = first_node l bs"
    if "xs = as @ n # bs" for as bs n
    using ilist_erase_ok [of l as n bs ?h debug] xs that by (simp add: sized_erase_def Let_def case_prod_beta)
  have removed: "removeAll n xs = as @ bs" "tl (dropWhile (\<lambda>x. x \<noteq> n) xs) = bs" if "xs = as @ n # bs" for as bs n
  proof -
    have "n \<notin> set as" "n \<notin> set bs" using d that by auto
    moreover from this have "dropWhile (\<lambda>x. x \<noteq> n) as = []" by (auto simp: dropWhile_eq_Nil_conv)
    ultimately show "removeAll n xs = as @ bs" "tl (dropWhile (\<lambda>x. x \<noteq> n) xs) = bs"
      using that by (auto simp: removeAll_id dropWhile_append3)
  qed
  show ?thesis
  proof (cases op)
    case Clear
    show ?thesis using Clear abs
      by (simp add: ring_exec_def, intro ring_userI [where ys = "[]"]) (simp_all add: sized_clear_def ilist_clear_ok)
  next
    case (Push_back n)
    show ?thesis
    proof (cases "n \<in> set xs")
      case False
      then show ?thesis using Push_back abs mem insert [of xs "[]" n "ilist_end l"]
        by (simp add: ring_exec_def, intro ring_userI [where ys = "xs @ [n]"])
          (simp_all add: sized_push_back_def ilist_end_def first_node_def)
    qed (use Push_back abs mem assms in \<open>simp add: ring_exec_def\<close>)
  next
    case (Push_front n)
    show ?thesis
    proof (cases "n \<in> set xs")
      case False
      then show ?thesis using Push_front abs mem insert [of "[]" xs n "first_node l xs"] ring_ends(1) [OF xs(1)]
        by (simp add: ring_exec_def sized_push_front_def, intro ring_userI [where ys = "n # xs"]) simp_all
    qed (use Push_front abs mem assms in \<open>simp add: ring_exec_def\<close>)
  next
    case Pop_front
    show ?thesis
    proof (cases xs)
      case Nil
      then show ?thesis using Pop_front abs assms ring_ends(3) [OF xs(1)] by (simp add: ring_exec_def)
    next
      case (Cons x ys)
      then show ?thesis using Pop_front abs erase [of "[]" x ys] ring_ends [OF xs(1)]
        by (simp add: ring_exec_def sized_pop_front_def first_node_def, intro ring_userI [where ys = ys]) simp_all
    qed
  next
    case (Insert n w)
    show ?thesis
    proof (cases "n \<notin> set xs \<and> w \<in> set xs")
      case True
      then obtain as bs where s: "xs = as @ w # bs" by (meson split_list)
      then have "insert_before n w xs = as @ n # w # bs" using d by (simp add: insert_before_split)
      then show ?thesis using True Insert abs mem insert [of as "w # bs" n "Value w"] s
        by (simp add: ring_exec_def, intro ring_userI [where ys = "as @ n # w # bs"]) (simp_all add: first_node_def)
    next
      case False
      then have "(if n \<in> set xs then xs else insert_before n w xs) = xs" by (auto simp: insert_before_not)
      then show ?thesis using False Insert abs mem assms by (auto simp: ring_exec_def)
    qed
  next
    case (Erase n)
    show ?thesis
    proof (cases "n \<in> set xs")
      case True
      then obtain as bs where s: "xs = as @ n # bs" by (meson split_list)
      then show ?thesis using Erase abs mem True erase [OF s] removed [OF s]
        by (simp add: ring_exec_def split: prod.split, intro allI impI ring_userI [where ys = "as @ bs"]) simp_all
    qed (use Erase abs mem assms in \<open>simp add: ring_exec_def\<close>)
  next
    case (Remove n)
    show ?thesis
    proof (cases "n \<in> set xs")
      case True
      then obtain as bs where s: "xs = as @ n # bs" by (meson split_list)
      then show ?thesis using Remove abs mem True erase [OF s] removed [OF s]
        by (simp add: ring_exec_def sized_remove_def, intro ring_userI [where ys = "as @ bs"]) simp_all
    qed (use Remove abs mem assms in \<open>simp add: ring_exec_def\<close>)
  next
    case Front
    then show ?thesis using abs xs ring_ends(1) [OF xs(1)]
      by (simp add: ring_exec_def ilist_front_def, intro ring_userI [where ys = xs]) simp_all
  next
    case Back
    then show ?thesis using abs xs ring_ends(2) [OF xs(1)]
      by (simp add: ring_exec_def, intro ring_userI [where ys = xs]) simp_all
  qed
qed

interpretation ring: data_refinement "ring_exec debug l" "ring_spec l" "ring_user_ok l" "ring_user_abs debug l" "\<lambda>op. True"
  by unfold_locales (rule ring_exec_step)

section \<open>pop\_back\<close>

lemma linked_inner:
  "linked h a xs \<Longrightarrow> x \<in> set xs \<Longrightarrow> x \<noteq> last xs \<Longrightarrow> nx h (Value x) \<in> Value ` set xs"
proof (induction xs arbitrary: a)
  case (Cons y ys)
  then obtain z zs where ys: "ys = z # zs" by (cases ys) auto
  show ?case
  proof (cases "x = y")
    case True
    then show ?thesis using Cons.prems(1) ys by simp
  next
    case False
    then have "nx h (Value x) \<in> Value ` set ys" using Cons.prems ys by (intro Cons.IH) auto
    then show ?thesis by auto
  qed
qed simp

text \<open>The elements form a ring of their own, without the sentinel.\<close>

lemma pop_back_ring:
  assumes "ring_ok l xs h" and "xs \<noteq> []" and "x \<in> set xs"
  shows "nx (ilist_pop_back False l h) (Value x) \<in> Value ` set xs"
proof -
  have "pv h (Sent l) = Value (last xs)" "nx h (Sent l) = Value (hd xs)" "linked h (Sent l) xs"
    using assms ring_first [OF assms(1)] by (auto simp: ring_ok_def last_node_def first_node_def split: list.splits)
  then show ?thesis
    using linked_inner [of h "Sent l" xs x] assms(2,3)
    by (cases "x = last xs") (auto simp: ilist_pop_back_def ilist_erase_def ilist_end_def Let_def)
qed

lemma pop_back_never_ends:
  assumes "ring_ok l xs h" and "xs \<noteq> []"
  shows "(nx (ilist_pop_back False l h) ^^ k) (Value (hd xs)) \<in> Value ` set xs"
  using assms pop_back_ring [OF assms] by (induction k) auto

section \<open>Properties\<close>

text \<open>C19. A sequence of operations of \<open>sized_ilist\<close>, from a well-formed list and with or without assertions,
  succeeds, leaves a list whose loop gives its elements and whose \<open>size\<close> counts them, and acts on the
  sequence of elements and returns what the operations on plain lists do.\<close>

theorem ring_ops_refine:
  assumes "ring_user_ok l u"
  shows "\<exists>u'. run_ops (ring_exec debug l) ops u = Some u' \<and> ring_user_ok l u' \<and>
    ring_user_abs debug l u' = fold (ring_spec l) ops (ring_user_abs debug l u)"
  using ring.run_refines [OF assms, of ops debug] by (simp add: list_all_iff)

definition blank_ring :: ring_heap where
  "blank_ring = \<lparr>nx = \<lambda>n. Null_node, pv = \<lambda>n. Null_node\<rparr>"

definition blank_ring_user :: "nat \<Rightarrow> ring_user" where
  "blank_ring_user l = \<lparr>list = sized_new l blank_ring, out = []\<rparr>"

lemma blank_ring_user_ok: "ring_user_ok l (blank_ring_user l)" "ring_user_abs debug l (blank_ring_user l) = ([], [])"
  using ring_userI [of l "[]" "blank_ring_user l" "([], [])" debug]
  by (simp_all add: blank_ring_user_def sized_new_def ilist_clear_ok)

lemma ring_ops_refine_witness:
  "\<exists>u'. run_ops (ring_exec True 0) [Push_back 1, Push_front 2, Insert 3 1, Front, Back, Erase 3, Pop_front, Remove 1]
     (blank_ring_user 0) = Some u' \<and> ring_user_ok 0 u' \<and>
   ring_user_abs True 0 u' = ([], [Value 2, Value 1, Value 1])"
  using ring_ops_refine [OF blank_ring_user_ok(1), of True 0
    "[Push_back 1, Push_front 2, Insert 3 1, Front, Back, Erase 3, Pop_front, Remove 1]"]
  by (simp add: blank_ring_user_ok(2) first_node_def last_node_def)

text \<open>C20. \<open>pop_back\<close> erases the end of the list, its sentinel, instead of the last element: the elements stay
  linked to each other, the first one stays the front, no loop over the list ends any more (with
  assertions, \<open>begin\<close> fails), and \<open>sized_ilist\<close> still counts one less.\<close>

theorem pop_back_erases_sentinel:
  assumes "ring_ok l xs (ring s)" and "xs \<noteq> []"
  shows "ilist_front False l (ring (sized_pop_back False l s)) = Some (Value (hd xs)) \<and>
    nx (ring (sized_pop_back False l s)) (Value (last xs)) = Value (hd xs) \<and>
    ilist_walk debug l (ring (sized_pop_back debug l s)) = None \<and>
    count (sized_pop_back debug l s) = count s - 1"
proof -
  let ?h = "ilist_pop_back False l (ring s)"
  have ends: "pv (ring s) (Sent l) = Value (last xs)" "nx (ring s) (Sent l) = Value (hd xs)"
    using assms ring_first [OF assms(1)] by (auto simp: ring_ok_def last_node_def first_node_def split: list.splits)
  have ring: "ring (sized_pop_back d l s) = ilist_pop_back d l (ring s)" "count (sized_pop_back d l s) = count s - 1" for d
    by (simp_all add: sized_pop_back_def sized_erase_def ilist_pop_back_def Let_def case_prod_beta)
  have front: "nx ?h (Sent l) = Value (hd xs)" "nx ?h (Value (last xs)) = Value (hd xs)"
    using ends by (simp_all add: ilist_pop_back_def ilist_erase_def ilist_end_def Let_def)
  have "ring_walk False l (Value (hd xs)) ?h = None"
  proof (rule ccontr)
    assume "ring_walk False l (Value (hd xs)) ?h \<noteq> None"
    then obtain k where "(nx ?h ^^ k) (Value (hd xs)) = Sent l" using ring_walk_reaches by blast
    then show False using pop_back_never_ends [OF assms, of k] by auto
  qed
  then have "ilist_walk False l ?h = None"
    using front(1) by (simp add: ilist_walk_def ilist_begin_def Iterator_new_def)
  moreover have "ilist_walk True l (ilist_pop_back True l (ring s)) = None"
    by (simp add: ilist_walk_def ilist_begin_def Iterator_new_def ilist_pop_back_def ilist_erase_def ilist_end_def Let_def)
  ultimately have "ilist_walk debug l (ilist_pop_back debug l (ring s)) = None" by (cases debug) simp_all
  then show ?thesis using front by (simp add: ring ilist_front_def ilist_begin_def Iterator_new_def)
qed

definition two_ring :: sized_heap where
  "two_ring = \<lparr>ring = \<lparr>nx = (\<lambda>n. Null_node)(Sent 0 := Value 1, Value 1 := Value 2, Value 2 := Sent 0),
     pv = (\<lambda>n. Null_node)(Value 1 := Sent 0, Value 2 := Value 1, Sent 0 := Value 2)\<rparr>, count = 2\<rparr>"

lemma pop_back_erases_sentinel_witness:
  "ilist_walk False 0 (ring (sized_pop_back False 0 two_ring)) = None \<and>
   ilist_front False 0 (ring (sized_pop_back False 0 two_ring)) = Some (Value 1) \<and>
   count (sized_pop_back False 0 two_ring) = 1"
proof -
  have "ring_ok 0 [1, 2] (ring two_ring)" by (simp add: ring_ok_def two_ring_def)
  from pop_back_erases_sentinel [OF this, of False] show ?thesis by (simp add: two_ring_def)
qed

end
