(* ===== verification/Byte_Order.thy ===== *)
theory Byte_Order
  imports Prelude "HOL-Library.Word"
begin

unbundle bit_operations_syntax

text \<open>
  Reading and storing integers in a fixed byte order: \<open>my_byteorder.h\<close> with
  \<open>byte_order_generic.h\<close> (prefix \<open>gen_\<close>), \<open>byte_order_generic_x86_64.h\<close> (\<open>x64_\<close>), \<open>byte_order_generic_x86.h\<close>
  (\<open>x86_\<close>), \<open>little_endian.h\<close> and \<open>big_endian.h\<close> (machine order), and \<open>private/myisampack.h\<close> (\<open>mi_\<close>, high byte
  first). A pointer to bytes is a function from offsets to bytes; a store gives the new bytes. The
  argument of a storing macro is the value of its expression in 64 bits, sign extended or not: only
  its low bytes are stored. \<open>ulong\<close> has 32 bits, as in the Windows build. A load through a pointer to a wider
  integer is \<open>le_load\<close>, that of a little-endian machine; signed results are words, read by \<open>sint\<close>.
\<close>

type_synonym byte = "8 word"
type_synonym bytes = "nat \<Rightarrow> byte"

abbreviation u16 :: "byte \<Rightarrow> 16 word" where "u16 b \<equiv> ucast b"
abbreviation u32 :: "byte \<Rightarrow> 32 word" where "u32 b \<equiv> ucast b"
abbreviation u64 :: "byte \<Rightarrow> 64 word" where "u64 b \<equiv> ucast b"

abbreviation skip :: "bytes \<Rightarrow> nat \<Rightarrow> bytes" where "skip A n \<equiv> \<lambda>i. A (n + i)"

section \<open>Loads and stores of a little-endian machine\<close>

primrec le_load :: "nat \<Rightarrow> bytes \<Rightarrow> 'a::len word" where
  "le_load 0 A = 0"
| "le_load (Suc n) A = ucast (A 0) OR push_bit 8 (le_load n (skip A 1))"

definition le_store :: "nat \<Rightarrow> bytes \<Rightarrow> 'a::len word \<Rightarrow> bytes" where
  "le_store n T v = (\<lambda>i. if i < n then ucast (drop_bit (8 * i) v) else T i)"

text \<open>The same on a big-endian machine.\<close>

primrec be_load :: "nat \<Rightarrow> bytes \<Rightarrow> 'a::len word" where
  "be_load 0 A = 0"
| "be_load (Suc n) A = push_bit (8 * n) (ucast (A 0)) OR be_load n (skip A 1)"

definition be_store :: "nat \<Rightarrow> bytes \<Rightarrow> 'a::len word \<Rightarrow> bytes" where
  "be_store n T v = (\<lambda>i. if i < n then ucast (drop_bit (8 * (n - 1 - i)) v) else T i)"

section \<open>byte\_order\_generic.h\<close>

definition gen_sint2korr :: "bytes \<Rightarrow> 16 word" where
  "gen_sint2korr A = u16 (A 0) OR push_bit 8 (u16 (A 1))"

definition gen_sint3korr :: "bytes \<Rightarrow> 32 word" where
  "gen_sint3korr A =
     (if u32 (A 2) AND 128 \<noteq> 0
      then push_bit 24 255 OR push_bit 16 (u32 (A 2)) OR push_bit 8 (u32 (A 1)) OR u32 (A 0)
      else push_bit 16 (u32 (A 2)) OR push_bit 8 (u32 (A 1)) OR u32 (A 0))"

definition gen_sint4korr :: "bytes \<Rightarrow> 32 word" where
  "gen_sint4korr A = u32 (A 0) OR push_bit 8 (u32 (A 1)) OR push_bit 16 (u32 (A 2)) OR push_bit 24 (u32 (A 3))"

definition gen_uint2korr :: "bytes \<Rightarrow> 16 word" where
  "gen_uint2korr A = u16 (A 0) OR push_bit 8 (u16 (A 1))"

definition gen_uint3korr :: "bytes \<Rightarrow> 32 word" where
  "gen_uint3korr A = u32 (A 0) OR push_bit 8 (u32 (A 1)) OR push_bit 16 (u32 (A 2))"

definition gen_uint4korr :: "bytes \<Rightarrow> 32 word" where
  "gen_uint4korr A = u32 (A 0) OR push_bit 8 (u32 (A 1)) OR push_bit 16 (u32 (A 2)) OR push_bit 24 (u32 (A 3))"

definition gen_uint5korr :: "bytes \<Rightarrow> 64 word" where
  "gen_uint5korr A =
     ucast (u32 (A 0) OR push_bit 8 (u32 (A 1)) OR push_bit 16 (u32 (A 2)) OR push_bit 24 (u32 (A 3))) OR
     push_bit 32 (u64 (A 4))"

definition gen_uint6korr :: "bytes \<Rightarrow> 64 word" where
  "gen_uint6korr A =
     ucast (u32 (A 0) OR push_bit 8 (u32 (A 1)) OR push_bit 16 (u32 (A 2)) OR push_bit 24 (u32 (A 3))) OR
     push_bit 32 (u64 (A 4)) OR push_bit 40 (u64 (A 5))"

definition gen_uint8korr :: "bytes \<Rightarrow> 64 word" where
  "gen_uint8korr A =
     ucast (u32 (A 0) OR push_bit 8 (u32 (A 1)) OR push_bit 16 (u32 (A 2)) OR push_bit 24 (u32 (A 3))) OR
     push_bit 32 (ucast (u32 (A 4) OR push_bit 8 (u32 (A 5)) OR push_bit 16 (u32 (A 6)) OR push_bit 24 (u32 (A 7))))"

definition gen_sint8korr :: "bytes \<Rightarrow> 64 word" where
  "gen_sint8korr A = gen_uint8korr A"

definition gen_int2store :: "bytes \<Rightarrow> 64 word \<Rightarrow> bytes" where
  "gen_int2store T A = (let def_temp = ucast A :: 32 word in T(0 := ucast def_temp, 1 := ucast (drop_bit 8 def_temp)))"

definition gen_int3store :: "bytes \<Rightarrow> 64 word \<Rightarrow> bytes" where
  "gen_int3store T A = T(0 := ucast A, 1 := ucast (drop_bit 8 A), 2 := ucast (drop_bit 16 A))"

definition gen_int4store :: "bytes \<Rightarrow> 64 word \<Rightarrow> bytes" where
  "gen_int4store T A =
     T(0 := ucast A, 1 := ucast (drop_bit 8 A), 2 := ucast (drop_bit 16 A), 3 := ucast (drop_bit 24 A))"

definition gen_int5store :: "bytes \<Rightarrow> 64 word \<Rightarrow> bytes" where
  "gen_int5store T A =
     T(0 := ucast A, 1 := ucast (drop_bit 8 A), 2 := ucast (drop_bit 16 A), 3 := ucast (drop_bit 24 A),
       4 := ucast (drop_bit 32 A))"

definition gen_int6store :: "bytes \<Rightarrow> 64 word \<Rightarrow> bytes" where
  "gen_int6store T A =
     T(0 := ucast A, 1 := ucast (drop_bit 8 A), 2 := ucast (drop_bit 16 A), 3 := ucast (drop_bit 24 A),
       4 := ucast (drop_bit 32 A), 5 := ucast (drop_bit 40 A))"

text \<open>\<open>store_at f T k v\<close>: the macro \<open>f\<close> with the pointer \<open>T + k\<close>.\<close>

definition store_at :: "(bytes \<Rightarrow> 64 word \<Rightarrow> bytes) \<Rightarrow> bytes \<Rightarrow> nat \<Rightarrow> 64 word \<Rightarrow> bytes" where
  "store_at f T k v = (\<lambda>i. if i < k then T i else f (skip T k) v (i - k))"

definition gen_int8store :: "bytes \<Rightarrow> 64 word \<Rightarrow> bytes" where
  "gen_int8store T A =
     (let def_temp = ucast A :: 32 word;
          def_temp2 = ucast (drop_bit 32 A) :: 32 word
      in store_at gen_int4store (gen_int4store T (ucast def_temp)) 4 (ucast def_temp2))"

section \<open>byte\_order\_generic\_x86\_64.h\<close>

definition x64_sint2korr :: "bytes \<Rightarrow> 16 word" where "x64_sint2korr A = le_load 2 A"

definition x64_sint3korr :: "bytes \<Rightarrow> 32 word" where
  "x64_sint3korr A =
     (if u32 (A 2) AND 128 \<noteq> 0
      then push_bit 24 255 OR push_bit 16 (u32 (A 2)) OR push_bit 8 (u32 (A 1)) OR u32 (A 0)
      else push_bit 16 (u32 (A 2)) OR push_bit 8 (u32 (A 1)) OR u32 (A 0))"

definition x64_sint4korr :: "bytes \<Rightarrow> 32 word" where "x64_sint4korr A = le_load 4 A"
definition x64_uint2korr :: "bytes \<Rightarrow> 16 word" where "x64_uint2korr A = le_load 2 A"

definition x64_uint3korr :: "bytes \<Rightarrow> 32 word" where
  "x64_uint3korr A = u32 (A 0) OR push_bit 8 (u32 (A 1)) OR push_bit 16 (u32 (A 2))"

definition x64_uint4korr :: "bytes \<Rightarrow> 32 word" where "x64_uint4korr A = le_load 4 A"

definition x64_uint5korr :: "bytes \<Rightarrow> 64 word" where
  "x64_uint5korr p =
     (let a = ucast (le_load 4 p :: 32 word);
          b = u64 (p 4)
      in a OR push_bit 32 b)"

definition x64_uint6korr :: "bytes \<Rightarrow> 64 word" where
  "x64_uint6korr p =
     (let a = ucast (le_load 4 p :: 32 word);
          b = ucast (le_load 2 (skip p 4) :: 16 word)
      in a OR push_bit 32 b)"

definition x64_uint8korr :: "bytes \<Rightarrow> 64 word" where "x64_uint8korr A = le_load 8 A"
definition x64_sint8korr :: "bytes \<Rightarrow> 64 word" where "x64_sint8korr A = le_load 8 A"

definition x64_int2store :: "bytes \<Rightarrow> 64 word \<Rightarrow> bytes" where
  "x64_int2store T A = le_store 2 T (ucast A :: 16 word)"

definition x64_int3store :: "bytes \<Rightarrow> 64 word \<Rightarrow> bytes" where
  "x64_int3store T A = T(0 := ucast A, 1 := ucast (drop_bit 8 (ucast A :: 32 word)), 2 := ucast (drop_bit 16 A))"

definition x64_int4store :: "bytes \<Rightarrow> 64 word \<Rightarrow> bytes" where
  "x64_int4store T A = le_store 4 T (ucast A :: 32 word)"

definition x64_int5store :: "bytes \<Rightarrow> 64 word \<Rightarrow> bytes" where
  "x64_int5store T A = (le_store 4 T (ucast A :: 32 word))(4 := ucast (drop_bit 32 A))"

definition x64_int6store :: "bytes \<Rightarrow> 64 word \<Rightarrow> bytes" where
  "x64_int6store T A =
     store_at (\<lambda>T v. le_store 2 T (ucast v :: 16 word)) (le_store 4 T (ucast A :: 32 word)) 4 (drop_bit 32 A)"

definition x64_int8store :: "bytes \<Rightarrow> 64 word \<Rightarrow> bytes" where
  "x64_int8store T A = le_store 8 T A"

section \<open>byte\_order\_generic\_x86.h\<close>

definition x86_sint2korr :: "bytes \<Rightarrow> 16 word" where "x86_sint2korr A = le_load 2 A"

definition x86_sint3korr :: "bytes \<Rightarrow> 32 word" where
  "x86_sint3korr A =
     (if u32 (A 2) AND 128 \<noteq> 0
      then push_bit 24 255 OR push_bit 16 (u32 (A 2)) OR push_bit 8 (u32 (A 1)) OR u32 (A 0)
      else push_bit 16 (u32 (A 2)) OR push_bit 8 (u32 (A 1)) OR u32 (A 0))"

definition x86_sint4korr :: "bytes \<Rightarrow> 32 word" where "x86_sint4korr A = le_load 4 A"
definition x86_uint2korr :: "bytes \<Rightarrow> 16 word" where "x86_uint2korr A = le_load 2 A"

definition x86_uint3korr :: "bytes \<Rightarrow> 32 word" where
  "x86_uint3korr A = u32 (A 0) OR push_bit 8 (u32 (A 1)) OR push_bit 16 (u32 (A 2))"

definition x86_uint4korr :: "bytes \<Rightarrow> 32 word" where "x86_uint4korr A = le_load 4 A"

definition x86_uint5korr :: "bytes \<Rightarrow> 64 word" where
  "x86_uint5korr A =
     ucast (u32 (A 0) OR push_bit 8 (u32 (A 1)) OR push_bit 16 (u32 (A 2)) OR push_bit 24 (u32 (A 3))) OR
     push_bit 32 (u64 (A 4))"

definition x86_uint6korr :: "bytes \<Rightarrow> 64 word" where
  "x86_uint6korr A =
     ucast (u32 (A 0) OR push_bit 8 (u32 (A 1)) OR push_bit 16 (u32 (A 2)) OR push_bit 24 (u32 (A 3))) OR
     push_bit 32 (u64 (A 4)) OR push_bit 40 (u64 (A 5))"

definition x86_uint8korr :: "bytes \<Rightarrow> 64 word" where "x86_uint8korr A = le_load 8 A"
definition x86_sint8korr :: "bytes \<Rightarrow> 64 word" where "x86_sint8korr A = le_load 8 A"

definition x86_int2store :: "bytes \<Rightarrow> 64 word \<Rightarrow> bytes" where
  "x86_int2store T A = le_store 2 T (ucast A :: 16 word)"

definition x86_int3store :: "bytes \<Rightarrow> 64 word \<Rightarrow> bytes" where
  "x86_int3store T A = T(0 := ucast A, 1 := ucast (drop_bit 8 (ucast A :: 32 word)), 2 := ucast (drop_bit 16 A))"

definition x86_int4store :: "bytes \<Rightarrow> 64 word \<Rightarrow> bytes" where
  "x86_int4store T A = le_store 4 T (ucast A :: 32 word)"

definition x86_int5store :: "bytes \<Rightarrow> 64 word \<Rightarrow> bytes" where
  "x86_int5store T A =
     T(0 := ucast A, 1 := ucast (drop_bit 8 A), 2 := ucast (drop_bit 16 A), 3 := ucast (drop_bit 24 A),
       4 := ucast (drop_bit 32 A))"

definition x86_int6store :: "bytes \<Rightarrow> 64 word \<Rightarrow> bytes" where
  "x86_int6store T A =
     T(0 := ucast A, 1 := ucast (drop_bit 8 A), 2 := ucast (drop_bit 16 A), 3 := ucast (drop_bit 24 A),
       4 := ucast (drop_bit 32 A), 5 := ucast (drop_bit 40 A))"

definition x86_int8store :: "bytes \<Rightarrow> 64 word \<Rightarrow> bytes" where
  "x86_int8store T A = le_store 8 T A"

section \<open>myisampack.h\<close>

definition mi_sint1korr :: "bytes \<Rightarrow> 8 word" where "mi_sint1korr A = A 0"
definition mi_uint1korr :: "bytes \<Rightarrow> 8 word" where "mi_uint1korr A = A 0"

definition mi_sint2korr :: "bytes \<Rightarrow> 16 word" where
  "mi_sint2korr A = u16 (A 1) OR push_bit 8 (u16 (A 0))"

definition mi_sint3korr :: "bytes \<Rightarrow> 32 word" where
  "mi_sint3korr A =
     (if u32 (A 0) AND 128 \<noteq> 0
      then push_bit 24 255 OR push_bit 16 (u32 (A 0)) OR push_bit 8 (u32 (A 1)) OR u32 (A 2)
      else push_bit 16 (u32 (A 0)) OR push_bit 8 (u32 (A 1)) OR u32 (A 2))"

definition mi_sint4korr :: "bytes \<Rightarrow> 32 word" where
  "mi_sint4korr A = u32 (A 3) OR push_bit 8 (u32 (A 2)) OR push_bit 16 (u32 (A 1)) OR push_bit 24 (u32 (A 0))"

definition mi_uint2korr :: "bytes \<Rightarrow> 16 word" where
  "mi_uint2korr A = u16 (A 1) OR push_bit 8 (u16 (A 0))"

definition mi_uint3korr :: "bytes \<Rightarrow> 32 word" where
  "mi_uint3korr A = u32 (A 2) OR push_bit 8 (u32 (A 1)) OR push_bit 16 (u32 (A 0))"

definition mi_uint4korr :: "bytes \<Rightarrow> 32 word" where
  "mi_uint4korr A = u32 (A 3) OR push_bit 8 (u32 (A 2)) OR push_bit 16 (u32 (A 1)) OR push_bit 24 (u32 (A 0))"

definition mi_uint5korr :: "bytes \<Rightarrow> 64 word" where
  "mi_uint5korr A =
     ucast (u32 (A 4) OR push_bit 8 (u32 (A 3)) OR push_bit 16 (u32 (A 2)) OR push_bit 24 (u32 (A 1))) OR
     push_bit 32 (u64 (A 0))"

definition mi_uint6korr :: "bytes \<Rightarrow> 64 word" where
  "mi_uint6korr A =
     ucast (u32 (A 5) OR push_bit 8 (u32 (A 4)) OR push_bit 16 (u32 (A 3)) OR push_bit 24 (u32 (A 2))) OR
     push_bit 32 (ucast (u32 (A 1) OR push_bit 8 (u32 (A 0))))"

definition mi_uint7korr :: "bytes \<Rightarrow> 64 word" where
  "mi_uint7korr A =
     ucast (u32 (A 6) OR push_bit 8 (u32 (A 5)) OR push_bit 16 (u32 (A 4)) OR push_bit 24 (u32 (A 3))) OR
     push_bit 32 (ucast (u32 (A 2) OR push_bit 8 (u32 (A 1)) OR push_bit 16 (u32 (A 0))))"

definition mi_uint8korr :: "bytes \<Rightarrow> 64 word" where
  "mi_uint8korr A =
     ucast (u32 (A 7) OR push_bit 8 (u32 (A 6)) OR push_bit 16 (u32 (A 5)) OR push_bit 24 (u32 (A 4))) OR
     push_bit 32 (ucast (u32 (A 3) OR push_bit 8 (u32 (A 2)) OR push_bit 16 (u32 (A 1)) OR push_bit 24 (u32 (A 0))))"

definition mi_sint8korr :: "bytes \<Rightarrow> 64 word" where "mi_sint8korr A = mi_uint8korr A"

definition mi_int1store :: "bytes \<Rightarrow> 64 word \<Rightarrow> bytes" where
  "mi_int1store T A = T(0 := ucast A)"

definition mi_int2store :: "bytes \<Rightarrow> 64 word \<Rightarrow> bytes" where
  "mi_int2store T A = (let def_temp = ucast A :: 32 word in T(1 := ucast def_temp, 0 := ucast (drop_bit 8 def_temp)))"

definition mi_int3store :: "bytes \<Rightarrow> 64 word \<Rightarrow> bytes" where
  "mi_int3store T A =
     (let def_temp = ucast A :: 32 word
      in T(2 := ucast def_temp, 1 := ucast (drop_bit 8 def_temp), 0 := ucast (drop_bit 16 def_temp)))"

definition mi_int4store :: "bytes \<Rightarrow> 64 word \<Rightarrow> bytes" where
  "mi_int4store T A =
     (let def_temp = ucast A :: 32 word
      in T(3 := ucast def_temp, 2 := ucast (drop_bit 8 def_temp), 1 := ucast (drop_bit 16 def_temp),
           0 := ucast (drop_bit 24 def_temp)))"

definition mi_int5store :: "bytes \<Rightarrow> 64 word \<Rightarrow> bytes" where
  "mi_int5store T A =
     (let def_temp = ucast A :: 32 word;
          def_temp2 = ucast (drop_bit 32 A) :: 32 word
      in T(4 := ucast def_temp, 3 := ucast (drop_bit 8 def_temp), 2 := ucast (drop_bit 16 def_temp),
           1 := ucast (drop_bit 24 def_temp), 0 := ucast def_temp2))"

definition mi_int6store :: "bytes \<Rightarrow> 64 word \<Rightarrow> bytes" where
  "mi_int6store T A =
     (let def_temp = ucast A :: 32 word;
          def_temp2 = ucast (drop_bit 32 A) :: 32 word
      in T(5 := ucast def_temp, 4 := ucast (drop_bit 8 def_temp), 3 := ucast (drop_bit 16 def_temp),
           2 := ucast (drop_bit 24 def_temp), 1 := ucast def_temp2, 0 := ucast (drop_bit 8 def_temp2)))"

definition mi_int7store :: "bytes \<Rightarrow> 64 word \<Rightarrow> bytes" where
  "mi_int7store T A =
     (let def_temp = ucast A :: 32 word;
          def_temp2 = ucast (drop_bit 32 A) :: 32 word
      in T(6 := ucast def_temp, 5 := ucast (drop_bit 8 def_temp), 4 := ucast (drop_bit 16 def_temp),
           3 := ucast (drop_bit 24 def_temp), 2 := ucast def_temp2, 1 := ucast (drop_bit 8 def_temp2),
           0 := ucast (drop_bit 16 def_temp2)))"

definition mi_int8store :: "bytes \<Rightarrow> 64 word \<Rightarrow> bytes" where
  "mi_int8store T A =
     (let def_temp3 = ucast A :: 32 word;
          def_temp4 = ucast (drop_bit 32 A) :: 32 word
      in store_at mi_int4store (store_at mi_int4store T 0 (ucast def_temp4)) 4 (ucast def_temp3))"

text \<open>
  The versions of \<open>byte_order_generic_x86_64.h\<close> for GNU C; \<open>bswapq\<close> exchanges the bytes of a register.
\<close>

definition bswapq :: "64 word \<Rightarrow> 64 word" where
  "bswapq v = le_load 8 (\<lambda>i. ucast (drop_bit (8 * (7 - i)) v))"

definition x64_mi_uint5korr :: "bytes \<Rightarrow> 64 word" where
  "x64_mi_uint5korr p =
     (let a = ucast (le_load 4 p :: 32 word);
          b = u64 (p 4);
          v = push_bit 24 (a OR push_bit 32 b)
      in bswapq v)"

definition x64_mi_uint6korr :: "bytes \<Rightarrow> 64 word" where
  "x64_mi_uint6korr p =
     (let a = ucast (le_load 4 p :: 32 word);
          b = ucast (le_load 2 (skip p 4) :: 16 word);
          v = push_bit 16 (a OR push_bit 32 b)
      in bswapq v)"

definition x64_mi_uint7korr :: "bytes \<Rightarrow> 64 word" where
  "x64_mi_uint7korr p =
     (let a = ucast (le_load 4 p :: 32 word);
          b = ucast (le_load 2 (skip p 4) :: 16 word);
          c = u64 (p 6);
          v = push_bit 8 (a OR push_bit 32 b OR push_bit 48 c)
      in bswapq v)"

definition x64_mi_uint8korr :: "bytes \<Rightarrow> 64 word" where
  "x64_mi_uint8korr p = (let v = le_load 8 p in bswapq v)"

text \<open>\<open>int4net\<close> of \<open>my_byteorder.h\<close>.\<close>

definition int4net :: "bytes \<Rightarrow> 32 word" where
  "int4net A = u32 (A 3) OR push_bit 8 (u32 (A 2)) OR push_bit 16 (u32 (A 1)) OR push_bit 24 (u32 (A 0))"

text \<open>Row numbers and file positions: \<open>big_tables\<close> is \<open>BIG_TABLES\<close>, \<open>off_t\<close> is \<open>SIZEOF_OFF_T\<close>.\<close>

definition mi_rowstore :: "bool \<Rightarrow> bytes \<Rightarrow> 64 word \<Rightarrow> bytes" where
  "mi_rowstore big_tables T A =
     (if big_tables then mi_int8store T A else store_at mi_int4store (mi_int4store T 0) 4 A)"

definition mi_rowkorr :: "bool \<Rightarrow> bytes \<Rightarrow> 64 word" where
  "mi_rowkorr big_tables T = (if big_tables then mi_uint8korr T else ucast (mi_uint4korr (skip T 4)))"

definition mi_sizestore :: "nat \<Rightarrow> 64 word \<Rightarrow> bytes \<Rightarrow> 64 word \<Rightarrow> bytes" where
  "mi_sizestore off_t HA_OFFSET_ERROR T A =
     (if off_t > 4 then mi_int8store T A
      else if A = HA_OFFSET_ERROR then (\<lambda>i. if i < 8 then 255 else T i)
      else store_at mi_int4store (mi_int4store T 0) 4 A)"

definition mi_sizekorr :: "nat \<Rightarrow> bytes \<Rightarrow> 64 word" where
  "mi_sizekorr off_t T = (if off_t > 4 then mi_uint8korr T else ucast (mi_uint4korr (skip T 4)))"

section \<open>Floating point numbers\<close>

text \<open>
  A number is the bytes of its representation. \<open>WORDS_BIGENDIAN\<close> and a \<open>__FLOAT_WORD_ORDER\<close> that is
  \<open>__BIG_ENDIAN\<close> are arguments. The assignment of the loaded number has no other effect.
\<close>

definition mi_float4store :: "bool \<Rightarrow> bytes \<Rightarrow> bytes \<Rightarrow> bytes" where
  "mi_float4store bigendian T A =
     (if bigendian then T(0 := A 0, 1 := A 1, 2 := A 2, 3 := A 3)
      else T(0 := A 3, 1 := A 2, 2 := A 1, 3 := A 0))"

definition mi_float4get :: "bool \<Rightarrow> bytes \<Rightarrow> bytes \<Rightarrow> bytes" where
  "mi_float4get bigendian V M =
     (if bigendian then V(0 := M 0, 1 := M 1, 2 := M 2, 3 := M 3)
      else V(0 := M 3, 1 := M 2, 2 := M 1, 3 := M 0))"

definition mi_float8store :: "bool \<Rightarrow> bool \<Rightarrow> bytes \<Rightarrow> bytes \<Rightarrow> bytes" where
  "mi_float8store bigendian float_big T V =
     (if bigendian then T(0 := V 0, 1 := V 1, 2 := V 2, 3 := V 3, 4 := V 4, 5 := V 5, 6 := V 6, 7 := V 7)
      else if float_big then T(0 := V 3, 1 := V 2, 2 := V 1, 3 := V 0, 4 := V 7, 5 := V 6, 6 := V 5, 7 := V 4)
      else T(0 := V 7, 1 := V 6, 2 := V 5, 3 := V 4, 4 := V 3, 5 := V 2, 6 := V 1, 7 := V 0))"

definition mi_float8get :: "bool \<Rightarrow> bool \<Rightarrow> bytes \<Rightarrow> bytes \<Rightarrow> bytes" where
  "mi_float8get bigendian float_big V M =
     (if bigendian then V(0 := M 0, 1 := M 1, 2 := M 2, 3 := M 3, 4 := M 4, 5 := M 5, 6 := M 6, 7 := M 7)
      else if float_big then V(0 := M 3, 1 := M 2, 2 := M 1, 3 := M 0, 4 := M 7, 5 := M 6, 6 := M 5, 7 := M 4)
      else V(0 := M 7, 1 := M 6, 2 := M 5, 3 := M 4, 4 := M 3, 5 := M 2, 6 := M 1, 7 := M 0))"

text \<open>\<open>doublestore\<close> and \<open>doubleget\<close> of \<open>little_endian.h\<close>.\<close>

definition le_doublestore :: "bool \<Rightarrow> bytes \<Rightarrow> bytes \<Rightarrow> bytes" where
  "le_doublestore float_big T V =
     (if float_big then T(0 := V 4, 1 := V 5, 2 := V 6, 3 := V 7, 4 := V 0, 5 := V 1, 6 := V 2, 7 := V 3)
      else (\<lambda>i. if i < 8 then V i else T i))"

definition le_doubleget :: "bool \<Rightarrow> bytes \<Rightarrow> bytes \<Rightarrow> bytes" where
  "le_doubleget float_big V M =
     (if float_big then V(0 := M 4, 1 := M 5, 2 := M 6, 3 := M 7, 4 := M 0, 5 := M 1, 6 := M 2, 7 := M 3)
      else (\<lambda>i. if i < 8 then M i else V i))"

text \<open>The macros of \<open>big_endian.h\<close>.\<close>

definition be_float4store :: "bytes \<Rightarrow> bytes \<Rightarrow> bytes" where
  "be_float4store T A = T(0 := A 3, 1 := A 2, 2 := A 1, 3 := A 0)"

definition be_float4get :: "bytes \<Rightarrow> bytes \<Rightarrow> bytes" where
  "be_float4get V M = V(0 := M 3, 1 := M 2, 2 := M 1, 3 := M 0)"

definition be_float8store :: "bytes \<Rightarrow> bytes \<Rightarrow> bytes" where
  "be_float8store T V = T(0 := V 7, 1 := V 6, 2 := V 5, 3 := V 4, 4 := V 3, 5 := V 2, 6 := V 1, 7 := V 0)"

definition be_float8get :: "bytes \<Rightarrow> bytes \<Rightarrow> bytes" where
  "be_float8get V M = V(0 := M 7, 1 := M 6, 2 := M 5, 3 := M 4, 4 := M 3, 5 := M 2, 6 := M 1, 7 := M 0)"

definition be_ushortget :: "bytes \<Rightarrow> 16 word" where
  "be_ushortget M = u16 (M 1) + push_bit 8 (u16 (M 0))"

definition be_shortget :: "bytes \<Rightarrow> 16 word" where
  "be_shortget M = u16 (M 1) + push_bit 8 (u16 (M 0))"

definition be_longget :: "bytes \<Rightarrow> 32 word" where
  "be_longget M = be_load 4 ((\<lambda>i. 0)(0 := M 0, 1 := M 1, 2 := M 2, 3 := M 3))"

definition be_ulongget :: "bytes \<Rightarrow> 32 word" where
  "be_ulongget M = be_load 4 ((\<lambda>i. 0)(0 := M 0, 1 := M 1, 2 := M 2, 3 := M 3))"

definition be_shortstore :: "bytes \<Rightarrow> 64 word \<Rightarrow> bytes" where
  "be_shortstore T A = (let def_temp = ucast A :: 32 word in T(1 := ucast def_temp, 0 := ucast (drop_bit 8 def_temp)))"

definition be_longstore :: "bytes \<Rightarrow> 64 word \<Rightarrow> bytes" where
  "be_longstore T A =
     T(3 := ucast A, 2 := ucast (drop_bit 8 A), 1 := ucast (drop_bit 16 A), 0 := ucast (drop_bit 24 A))"

section \<open>What loads and stores are\<close>

lemma bit_le_load [bit_simps]:
  "bit (le_load n A :: 'a::len word) k \<longleftrightarrow> k < LENGTH('a) \<and> k < 8 * n \<and> bit (A (k div 8)) (k mod 8)"
proof (induction n arbitrary: A k)
  case (Suc n)
  show ?case
  proof (cases "k < 8")
    case True
    then show ?thesis by (auto simp: bit_simps)
  next
    case False
    then obtain j where j: "k = 8 + j" by (metis le_add_diff_inverse not_less)
    have "bit (A 0) k = False" using False bit_imp_le_length [of "A 0" k] by auto
    then show ?thesis unfolding j by (auto simp: bit_simps Suc.IH)
  qed
qed simp

lemma bit_be_load [bit_simps]:
  "bit (be_load n A :: 'a::len word) k \<longleftrightarrow> k < LENGTH('a) \<and> k < 8 * n \<and> bit (A (n - 1 - k div 8)) (k mod 8)"
proof (induction n arbitrary: A)
  case (Suc n)
  consider "k < 8 * n" | j where "k = 8 * n + j" "j < 8" | "8 * Suc n \<le> k"
    by (metis add_less_cancel_left le_add_diff_inverse mult_Suc_right not_less add.commute)
  then show ?case
  proof cases
    case 1
    then have "Suc (n - 1 - k div 8) = n - k div 8" by (auto simp: Suc_diff_Suc less_mult_imp_div_less)
    then show ?thesis using 1 Suc by (auto simp: bit_simps)
  next
    case 2
    then show ?thesis using Suc by (auto simp: bit_simps)
  next
    case 3
    then have "\<not> bit (A 0) (k - 8 * n)" by (intro notI) (auto dest: bit_imp_le_length)
    then show ?thesis using 3 Suc by (auto simp: bit_simps)
  qed
qed simp

lemma be_load_le: "(be_load n A :: 'a::len word) = le_load n (\<lambda>i. A (n - 1 - i))"
  by (rule bit_word_eqI) (auto simp: bit_simps)

lemma le_load_store: "(le_load n (le_store n T v) :: 'a::len word) = take_bit (8 * n) (ucast v)"
proof (rule bit_word_eqI)
  fix k :: nat
  have "8 * (k div 8) + k mod 8 = k" by simp
  then show "bit (le_load n (le_store n T v) :: 'a word) k = bit (take_bit (8 * n) (ucast v) :: 'a word) k"
    by (auto simp: bit_simps le_store_def less_mult_imp_div_less mult.commute)
qed

lemma be_load_store: "(be_load n (be_store n T v) :: 'a::len word) = take_bit (8 * n) (ucast v)"
proof (rule bit_word_eqI)
  fix k :: nat
  have "8 * (k div 8) + k mod 8 = k" by simp
  then show "bit (be_load n (be_store n T v) :: 'a word) k = bit (take_bit (8 * n) (ucast v) :: 'a word) k"
    by (auto simp: bit_simps be_store_def less_mult_imp_div_less mult.commute)
qed

lemma ucast_le_load: "8 * n \<le> LENGTH('b) \<Longrightarrow> ucast (le_load n A :: 'b::len word) = (le_load n A :: 'a::len word)"
  by (rule bit_word_eqI) (auto simp: bit_simps)

lemma le_load_or:
  "le_load m A OR push_bit (8 * m) (le_load n (skip A m)) = (le_load (m + n) A :: 'a::len word)"
proof (rule bit_word_eqI)
  fix k assume k: "k < LENGTH('a)"
  show "bit (le_load m A OR push_bit (8 * m) (le_load n (skip A m)) :: 'a word) k =
      bit (le_load (m + n) A :: 'a word) k"
  proof (cases "k < 8 * m")
    case True
    then show ?thesis using k by (auto simp: bit_simps)
  next
    case False
    then obtain j where "k = 8 * m + j" by (metis le_add_diff_inverse not_less)
    then show ?thesis using k by (auto simp: bit_simps)
  qed
qed

text \<open>The value of a load.\<close>

primrec le_value :: "nat \<Rightarrow> bytes \<Rightarrow> int" where
  "le_value 0 A = 0"
| "le_value (Suc n) A = uint (A 0) + 256 * le_value n (skip A 1)"

lemma le_value_range: "0 \<le> le_value n A \<and> le_value n A < 256 ^ n"
proof (induction n arbitrary: A)
  case (Suc n)
  have "0 \<le> uint (A 0)" "uint (A 0) < 256" using unsigned_less [of "A 0"] by simp_all
  then show ?case using Suc [of "skip A 1"] by auto
qed simp

lemma uint_join:
  fixes b :: byte and l :: "'a::len word"
  assumes l: "uint b + 256 * uint l < 2 ^ LENGTH('a)"
  shows "uint (ucast b OR push_bit 8 l) = uint b + 256 * uint l"
proof -
  have "ucast b AND push_bit 8 l = 0"
    by (rule bit_word_eqI) (auto simp: bit_simps dest: bit_imp_le_length)
  then have s: "ucast b OR push_bit 8 l = ucast b + push_bit 8 l" by (simp add: disjunctive_add_eq_or)
  have "uint b < 2 ^ LENGTH('a)" using l uint_ge_0 [of l] by linarith
  then have w: "uint (ucast b :: 'a word) = uint b" by (simp add: unsigned_ucast_eq take_bit_int_eq_self_iff)
  have "256 * uint l < 2 ^ LENGTH('a)" using l uint_ge_0 [of b] by linarith
  then have p: "uint (push_bit 8 l) = 256 * uint l"
    by (subst unsigned_push_bit_eq) (simp add: push_bit_eq_mult take_bit_int_eq_self_iff mult.commute)
  have "uint (ucast b :: 'a word) + uint (push_bit 8 l) < 2 ^ LENGTH('a)" unfolding w p by (rule l)
  from uint_plus_simple [OF no_olen_add [THEN iffD2, OF this]] show ?thesis unfolding s w p .
qed

lemma uint_le_load: "8 * n \<le> LENGTH('a) \<Longrightarrow> uint (le_load n A :: 'a::len word) = le_value n A"
proof (induction n arbitrary: A)
  case (Suc n)
  have "(256 :: int) ^ Suc n = 2 ^ (8 * Suc n)" by (simp add: power_mult power_add)
  also have "\<dots> \<le> 2 ^ LENGTH('a)" using Suc.prems by (intro power_increasing) simp_all
  finally have "le_value (Suc n) A < 2 ^ LENGTH('a)" using le_value_range [of "Suc n" A] by linarith
  then show ?case using uint_join [of "A 0" "le_load n (skip A 1) :: 'a word"] Suc by simp
qed simp

section \<open>The generic functions are loads and stores\<close>

lemma u_push_bit:
  assumes "n + 8 \<le> LENGTH('b)"
  shows "ucast (push_bit n (ucast (b :: byte)) :: 'b::len word) = (push_bit n (ucast b) :: 'a::len word)"
  using assms by (intro bit_word_eqI) (auto simp: bit_simps dest: bit_imp_le_length)

lemma ucast_or: "(ucast (a OR b) :: 'a::len word) = ucast a OR ucast (b :: 'b::len word)"
  by (rule bit_word_eqI) (auto simp: bit_simps)

lemma u_u: "8 \<le> LENGTH('b) \<Longrightarrow> ucast (ucast (b :: byte) :: 'b::len word) = (ucast b :: 'a::len word)"
  by (intro bit_word_eqI) (auto simp: bit_simps dest: bit_imp_le_length)

lemmas korr_simps = u_push_bit ucast_or u_u push_bit_or push_bit_push_bit ac_simps eval_nat_numeral

lemma le_load_unfold:
  "(le_load 2 A :: 'a::len word) = ucast (A 0) OR push_bit 8 (ucast (A 1))"
  "(le_load 3 A :: 'a::len word) = ucast (A 0) OR push_bit 8 (ucast (A 1)) OR push_bit 16 (ucast (A 2))"
  "(le_load 4 A :: 'a::len word) =
     ucast (A 0) OR push_bit 8 (ucast (A 1)) OR push_bit 16 (ucast (A 2)) OR push_bit 24 (ucast (A 3))"
  "(le_load 5 A :: 'a::len word) =
     ucast (A 0) OR push_bit 8 (ucast (A 1)) OR push_bit 16 (ucast (A 2)) OR push_bit 24 (ucast (A 3)) OR
     push_bit 32 (ucast (A 4))"
  "(le_load 6 A :: 'a::len word) =
     ucast (A 0) OR push_bit 8 (ucast (A 1)) OR push_bit 16 (ucast (A 2)) OR push_bit 24 (ucast (A 3)) OR
     push_bit 32 (ucast (A 4)) OR push_bit 40 (ucast (A 5))"
  "(le_load 7 A :: 'a::len word) =
     ucast (A 0) OR push_bit 8 (ucast (A 1)) OR push_bit 16 (ucast (A 2)) OR push_bit 24 (ucast (A 3)) OR
     push_bit 32 (ucast (A 4)) OR push_bit 40 (ucast (A 5)) OR push_bit 48 (ucast (A 6))"
  "(le_load 8 A :: 'a::len word) =
     ucast (A 0) OR push_bit 8 (ucast (A 1)) OR push_bit 16 (ucast (A 2)) OR push_bit 24 (ucast (A 3)) OR
     push_bit 32 (ucast (A 4)) OR push_bit 40 (ucast (A 5)) OR push_bit 48 (ucast (A 6)) OR push_bit 56 (ucast (A 7))"
  by (simp_all add: numeral_eq_Suc push_bit_or push_bit_push_bit or.assoc del: push_bit_numeral)

lemma gen_korr_load:
  "gen_uint2korr A = le_load 2 A" "gen_uint3korr A = le_load 3 A" "gen_uint4korr A = le_load 4 A"
  "gen_uint5korr A = le_load 5 A" "gen_uint6korr A = le_load 6 A" "gen_uint8korr A = le_load 8 A"
  "gen_sint2korr A = le_load 2 A" "gen_sint4korr A = le_load 4 A" "gen_sint8korr A = le_load 8 A"
  unfolding le_load_unfold gen_uint2korr_def gen_uint3korr_def gen_uint4korr_def gen_uint5korr_def
    gen_uint6korr_def gen_uint8korr_def gen_sint2korr_def gen_sint4korr_def gen_sint8korr_def
  by (simp_all add: u_push_bit ucast_or u_u push_bit_or push_bit_push_bit or.assoc del: push_bit_numeral)

lemma mi_korr_load:
  "mi_uint2korr A = be_load 2 A" "mi_uint3korr A = be_load 3 A" "mi_uint4korr A = be_load 4 A"
  "mi_uint5korr A = be_load 5 A" "mi_uint6korr A = be_load 6 A" "mi_uint7korr A = be_load 7 A"
  "mi_uint8korr A = be_load 8 A" "mi_sint2korr A = be_load 2 A" "mi_sint4korr A = be_load 4 A"
  "mi_sint8korr A = be_load 8 A" "int4net A = be_load 4 A"
  unfolding be_load_le le_load_unfold mi_uint2korr_def mi_uint3korr_def mi_uint4korr_def mi_uint5korr_def
    mi_uint6korr_def mi_uint7korr_def mi_uint8korr_def mi_sint2korr_def mi_sint4korr_def mi_sint8korr_def int4net_def
  by (simp_all add: u_push_bit ucast_or u_u push_bit_or push_bit_push_bit or.assoc del: push_bit_numeral)

lemma byte_of_low: "k + 8 \<le> LENGTH('b) \<Longrightarrow> (ucast (drop_bit k (ucast v :: 'b::len word)) :: byte) = ucast (drop_bit k v)"
  by (rule bit_word_eqI) (auto simp: bit_simps)

lemma byte_of_low_0: "8 \<le> LENGTH('b) \<Longrightarrow> (ucast (ucast v :: 'b::len word) :: byte) = ucast v"
  by (rule bit_word_eqI) (auto simp: bit_simps)

lemma byte_of_high:
  "k + 8 \<le> LENGTH('b) \<Longrightarrow> (ucast (drop_bit k (ucast (drop_bit m v) :: 'b::len word)) :: byte) = ucast (drop_bit (m + k) v)"
  by (rule bit_word_eqI) (auto simp: bit_simps ac_simps)

lemmas byte_simps = byte_of_low byte_of_low_0 byte_of_high drop_bit_drop_bit

lemma less_cases:
  "i < 2 \<longleftrightarrow> i = 0 \<or> i = 1" "i < 3 \<longleftrightarrow> i = 0 \<or> i = 1 \<or> i = 2" "i < 4 \<longleftrightarrow> i = 0 \<or> i = 1 \<or> i = 2 \<or> i = 3"
  "i < 5 \<longleftrightarrow> i = 0 \<or> i = 1 \<or> i = 2 \<or> i = 3 \<or> i = 4" "i < 6 \<longleftrightarrow> i = 0 \<or> i = 1 \<or> i = 2 \<or> i = 3 \<or> i = 4 \<or> i = 5"
  "i < 7 \<longleftrightarrow> i = 0 \<or> i = 1 \<or> i = 2 \<or> i = 3 \<or> i = 4 \<or> i = 5 \<or> i = 6"
  "i < 8 \<longleftrightarrow> i = 0 \<or> i = 1 \<or> i = 2 \<or> i = 3 \<or> i = 4 \<or> i = 5 \<or> i = 6 \<or> i = 7" for i :: nat
  by presburger+

lemma gen_store_le:
  "gen_int2store T v = le_store 2 T v" "gen_int3store T v = le_store 3 T v" "gen_int4store T v = le_store 4 T v"
  "gen_int5store T v = le_store 5 T v" "gen_int6store T v = le_store 6 T v"
  unfolding gen_int2store_def gen_int3store_def gen_int4store_def gen_int5store_def gen_int6store_def le_store_def
    less_cases
  by (rule ext; simp add: byte_simps Let_def)+

lemma mi_store_be:
  "mi_int2store T v = be_store 2 T v" "mi_int3store T v = be_store 3 T v" "mi_int4store T v = be_store 4 T v"
  "mi_int5store T v = be_store 5 T v" "mi_int6store T v = be_store 6 T v" "mi_int7store T v = be_store 7 T v"
  unfolding mi_int2store_def mi_int3store_def mi_int4store_def mi_int5store_def mi_int6store_def mi_int7store_def
    be_store_def less_cases
  by (rule ext; simp add: byte_simps Let_def)+

text \<open>Storing 8 bytes as two halves.\<close>

lemma store_at_le:
  "store_at (le_store n) (le_store m T (ucast v :: 32 word)) m (ucast (drop_bit 32 v :: 64 word)) = le_store (m + n) T v"
  if "8 * m = 32" "8 * n \<le> 32"
proof
  fix i
  show "store_at (le_store n) (le_store m T (ucast v :: 32 word)) m (ucast (drop_bit 32 v)) i = le_store (m + n) T v i"
  proof (cases "i < m")
    case True
    then show ?thesis using that by (auto simp: store_at_def le_store_def byte_of_low)
  next
    case False
    then obtain j where "i = m + j" by (metis le_add_diff_inverse not_less)
    then show ?thesis using that
      by (auto simp: store_at_def le_store_def drop_bit_drop_bit ac_simps distrib_left)
  qed
qed

lemma le_store_ucast: "8 * n \<le> LENGTH('b) \<Longrightarrow> le_store n T (ucast v :: 'b::len word) = le_store n T v"
  by (rule ext) (simp add: le_store_def byte_of_low)

lemma le_store_0: "le_store 0 T v = T" by (simp add: le_store_def)

lemma le_store_Suc: "le_store (Suc n) T v = (le_store n T v)(n := ucast (drop_bit (8 * n) v))"
  by (rule ext) (auto simp: le_store_def less_Suc_eq)

lemma gen_int8store_le: "gen_int8store T v = le_store 8 T v"
proof -
  have "gen_int4store = le_store 4" by (intro ext) (simp add: gen_store_le)
  moreover have "ucast (ucast (drop_bit 32 v) :: 32 word) = drop_bit 32 v"
    by (rule bit_word_eqI) (auto simp: bit_simps dest: bit_imp_le_length)
  moreover have "le_store 4 T (ucast (ucast v :: 32 word) :: 64 word) = le_store 4 T (ucast v :: 32 word)"
    by (rule le_store_ucast) simp
  ultimately show ?thesis using store_at_le [of 4 4 T v] by (simp add: gen_int8store_def Let_def)
qed

lemma mi_int8store_be: "mi_int8store T v = be_store 8 T v"
proof
  fix i
  have be: "mi_int4store = be_store 4" by (intro ext) (simp add: mi_store_be)
  have hi: "ucast (ucast (drop_bit 32 v) :: 32 word) = drop_bit 32 v"
    by (rule bit_word_eqI) (auto simp: bit_simps dest: bit_imp_le_length)
  have lo: "(ucast (drop_bit k (ucast (ucast v :: 32 word) :: 64 word)) :: byte) = ucast (drop_bit k v)" if "k + 8 \<le> 32" for k
    using that by (intro bit_word_eqI) (auto simp: bit_simps)
  have f: "mi_int8store T v i = (if i < 4 then be_store 4 T (drop_bit 32 v) i
      else be_store 4 (skip (store_at (be_store 4) T 0 (drop_bit 32 v)) 4) (ucast (ucast v :: 32 word) :: 64 word) (i - 4))"
    by (simp add: mi_int8store_def Let_def be hi store_at_def)
  show "mi_int8store T v i = be_store 8 T v i"
  proof (cases "i < 4")
    case True
    then have "8 * (3 - i) + 32 = 8 * (7 - i)" by simp
    with True show ?thesis unfolding f be_store_def by simp
  next
    case False
    show ?thesis
    proof (cases "i < 8")
      case True
      with False have "3 - (i - 4) = 7 - i" "i - 4 < 4" "8 * (7 - i) + 8 \<le> 32" by simp_all
      with True False show ?thesis unfolding f be_store_def by (simp add: lo)
    next
      case no: False
      then have "\<not> i - 4 < 4" "\<not> i < 4" by simp_all
      with no show ?thesis unfolding f be_store_def store_at_def by simp
    qed
  qed
qed

lemma x64_store_le:
  "x64_int2store T v = le_store 2 T v" "x64_int3store T v = le_store 3 T v" "x64_int4store T v = le_store 4 T v"
  "x64_int5store T v = le_store 5 T v" "x64_int8store T v = le_store 8 T v"
  "x86_int2store T v = le_store 2 T v" "x86_int3store T v = le_store 3 T v" "x86_int4store T v = le_store 4 T v"
  "x86_int5store T v = le_store 5 T v" "x86_int6store T v = le_store 6 T v" "x86_int8store T v = le_store 8 T v"
proof -
  have le: "le_store 2 T (ucast v :: 16 word) = le_store 2 T v" "le_store 4 T (ucast v :: 32 word) = le_store 4 T v"
    by (simp_all add: le_store_ucast)
  have five: "le_store 5 T v = (le_store 4 T v)(4 := ucast (drop_bit 32 v))"
    using le_store_Suc [of 4 T v] by simp
  show "x64_int2store T v = le_store 2 T v" "x64_int4store T v = le_store 4 T v" "x64_int5store T v = le_store 5 T v"
    "x64_int8store T v = le_store 8 T v" "x86_int2store T v = le_store 2 T v" "x86_int4store T v = le_store 4 T v"
    "x86_int8store T v = le_store 8 T v"
    unfolding x64_int2store_def x64_int4store_def x64_int5store_def x64_int8store_def x86_int2store_def
      x86_int4store_def x86_int8store_def five le by (rule refl)+
  show "x86_int5store T v = le_store 5 T v" "x86_int6store T v = le_store 6 T v"
    by (simp_all only: x86_int5store_def x86_int6store_def gen_int5store_def gen_int6store_def flip: gen_store_le)
  show "x64_int3store T v = le_store 3 T v" "x86_int3store T v = le_store 3 T v"
    unfolding x64_int3store_def x86_int3store_def gen_store_le [symmetric] gen_int3store_def
    by (simp_all add: byte_simps)
qed

lemma x64_int6store_le: "x64_int6store T v = le_store 6 T v"
proof -
  have "x64_int6store T v = store_at (le_store 2) (le_store 4 T (ucast v :: 32 word)) 4 (ucast (drop_bit 32 v :: 64 word))"
    by (simp add: x64_int6store_def le_store_ucast store_at_def)
  then show ?thesis using store_at_le [of 4 2 T v] by simp
qed

lemma x64_korr_load:
  "x64_uint2korr A = le_load 2 A" "x64_uint3korr A = le_load 3 A" "x64_uint4korr A = le_load 4 A"
  "x64_uint5korr A = le_load 5 A" "x64_uint6korr A = le_load 6 A" "x64_uint8korr A = le_load 8 A"
  "x86_uint2korr A = le_load 2 A" "x86_uint3korr A = le_load 3 A" "x86_uint4korr A = le_load 4 A"
  "x86_uint5korr A = le_load 5 A" "x86_uint6korr A = le_load 6 A" "x86_uint8korr A = le_load 8 A"
  unfolding le_load_unfold x64_uint2korr_def x64_uint3korr_def x64_uint4korr_def x64_uint5korr_def
    x64_uint6korr_def x64_uint8korr_def x86_uint2korr_def x86_uint3korr_def x86_uint4korr_def x86_uint5korr_def
    x86_uint6korr_def x86_uint8korr_def
  by (simp_all add: u_push_bit ucast_or u_u push_bit_or push_bit_push_bit or.assoc Let_def del: push_bit_numeral)

lemma bit_bswapq: "r < 8 \<Longrightarrow> bit (bswapq v) (8 * q + r) \<longleftrightarrow> q < 8 \<and> bit v (8 * (7 - q) + r)"
  unfolding bswapq_def by (auto simp: bit_simps)

lemma bswapq_load:
  assumes "n \<le> 8"
  shows "bswapq (push_bit (8 * (8 - n)) (le_load n p)) = be_load n p"
proof (rule bit_word_eqI)
  fix k assume k: "k < LENGTH(64)"
  define q r where "q = k div 8" and "r = k mod 8"
  have kqr: "k = 8 * q + r" "r < 8" "q < 8" using k by (auto simp: q_def r_def)
  show "bit (bswapq (push_bit (8 * (8 - n)) (le_load n p))) k = bit (be_load n p :: 64 word) k"
  proof (cases "q < n")
    case True
    then obtain m where m: "n = q + Suc m" by (metis add_Suc_right less_imp_Suc_add)
    then have "8 * (7 - q) + r = 8 * (8 - n) + (8 * m + r)" using assms by simp
    moreover have "8 * (7 - q) + r < 64" using kqr(2,3) by simp
    moreover have "bit (push_bit j (le_load n p) :: 64 word) (j + (8 * m + r)) = bit (p m) r" if "j + (8 * m + r) < 64" for j
      using that kqr(2) m by (simp add: bit_push_bit_iff bit_le_load del: le_load.simps)
    ultimately have "bit (bswapq (push_bit (8 * (8 - n)) (le_load n p))) k = bit (p m) r"
      unfolding kqr(1) bit_bswapq [OF kqr(2)] using kqr(3) by metis
    moreover have "bit (be_load n p :: 64 word) k = bit (p m) r"
      unfolding kqr(1) bit_be_load using kqr(2,3) m by (simp del: be_load.simps)
    ultimately show ?thesis by simp
  next
    case False
    then have "8 * (7 - q) + r < 8 * (8 - n)" using kqr(2,3) assms by simp
    then show ?thesis using False kqr(2,3) unfolding kqr(1) bit_bswapq [OF kqr(2)]
      by (simp add: bit_push_bit_iff bit_be_load)
  qed
qed

lemma x64_mi_korr_load:
  "x64_mi_uint5korr A = be_load 5 A" "x64_mi_uint6korr A = be_load 6 A"
  "x64_mi_uint7korr A = be_load 7 A" "x64_mi_uint8korr A = be_load 8 A"
proof -
  have l: "ucast (le_load 4 A :: 32 word) = (le_load 4 A :: 64 word)"
    "ucast (le_load 2 (skip A 4) :: 16 word) = (le_load 2 (skip A 4) :: 64 word)"
    by (simp_all add: ucast_le_load)
  have s: "le_load 4 A OR push_bit 32 (u64 (A 4)) = le_load 5 A"
    "le_load 4 A OR push_bit 32 (le_load 2 (skip A 4)) = (le_load 6 A :: 64 word)"
    "le_load 4 A OR push_bit 32 (le_load 2 (skip A 4)) OR push_bit 48 (u64 (A 6)) = le_load 7 A"
    by (simp_all only: le_load_unfold push_bit_or push_bit_push_bit or.assoc) simp_all
  note b = bswapq_load [of 5 A] bswapq_load [of 6 A] bswapq_load [of 7 A] bswapq_load [of 8 A]
  show "x64_mi_uint5korr A = be_load 5 A" "x64_mi_uint6korr A = be_load 6 A"
    "x64_mi_uint7korr A = be_load 7 A" "x64_mi_uint8korr A = be_load 8 A"
    unfolding x64_mi_uint5korr_def x64_mi_uint6korr_def x64_mi_uint7korr_def x64_mi_uint8korr_def Let_def l s
    using b by simp_all
qed

text \<open>The three-byte loads with a sign.\<close>

lemma bit_255: "bit (255 :: 32 word) j \<longleftrightarrow> j < 8"
  using bit_mask_iff [of 8 j, where 'a = "32 word"] by (auto simp: mask_eq_exp_minus_1)

lemma bit_sign_byte: "bit (push_bit 24 255 :: 32 word) k \<longleftrightarrow> 24 \<le> k \<and> k < 32"
  unfolding bit_push_bit_iff bit_255 by (simp add: less_diff_conv2 conj_commute cong: conj_cong)

lemma sint3_load:
  fixes a b c :: byte
  shows "(if u32 c AND 128 \<noteq> 0 then push_bit 24 255 OR push_bit 16 (u32 c) OR push_bit 8 (u32 b) OR u32 a
      else push_bit 16 (u32 c) OR push_bit 8 (u32 b) OR u32 a) =
    signed_take_bit 23 (u32 a OR push_bit 8 (u32 b) OR push_bit 16 (u32 c))"
proof -
  have m: "u32 c AND 128 \<noteq> 0 \<longleftrightarrow> bit c 7"
    using and_exp_eq_0_iff_not_bit [of "u32 c" 7] by (simp add: bit_simps)
  obtain s :: "32 word" where s: "push_bit 24 255 = s" "\<And>k. bit s k \<longleftrightarrow> 24 \<le> k \<and> k < 32"
    using bit_sign_byte by blast
  have eq: "bit (if bit c 7 then s OR push_bit 16 (u32 c) OR push_bit 8 (u32 b) OR u32 a
      else push_bit 16 (u32 c) OR push_bit 8 (u32 b) OR u32 a) k =
    bit (signed_take_bit 23 (u32 a OR push_bit 8 (u32 b) OR push_bit 16 (u32 c))) k" if k: "k < 32" for k
  proof (cases "k < 24")
    case True
    then have "bit (signed_take_bit 23 (u32 a OR push_bit 8 (u32 b) OR push_bit 16 (u32 c))) k =
        bit (u32 a OR push_bit 8 (u32 b) OR push_bit 16 (u32 c)) k"
      by (cases "k = 23") (simp_all add: bit_signed_take_bit_iff min_def)
    then show ?thesis using True k by (auto simp: bit_simps s(2))
  next
    case False
    have out: "\<not> bit x j" if "8 \<le> j" for x :: byte and j
      using that bit_imp_le_length [of x j] by auto
    have "bit (signed_take_bit 23 (u32 a OR push_bit 8 (u32 b) OR push_bit 16 (u32 c))) k = bit c 7"
      using False k out [of 23 a] out [of 15 b] by (simp add: bit_signed_take_bit_iff min_def bit_simps)
    then show ?thesis
      using False k out [of k a] out [of "k - 8" b] out [of "k - 16" c]
      by (auto simp: bit_simps s(2))
  qed
  show ?thesis unfolding m s(1) by (rule bit_word_eqI, rule eq) simp
qed

lemma sint3_korr_load:
  "gen_sint3korr A = signed_take_bit 23 (le_load 3 A)" "x64_sint3korr A = signed_take_bit 23 (le_load 3 A)"
  "x86_sint3korr A = signed_take_bit 23 (le_load 3 A)" "mi_sint3korr A = signed_take_bit 23 (be_load 3 A)"
  unfolding gen_sint3korr_def x64_sint3korr_def x86_sint3korr_def mi_sint3korr_def sint3_load be_load_le le_load_unfold
  by simp_all

section \<open>Comparing stored numbers\<close>

text \<open>\<open>memcmp\<close> of C.\<close>

primrec memcmp :: "bytes \<Rightarrow> bytes \<Rightarrow> nat \<Rightarrow> int" where
  "memcmp a b 0 = 0"
| "memcmp a b (Suc n) = (if a 0 < b 0 then - 1 else if b 0 < a 0 then 1 else memcmp (skip a 1) (skip b 1) n)"

lemma be_load_snoc: "(be_load (Suc n) A :: 'a::len word) = ucast (A n) OR push_bit 8 (be_load n A)"
  unfolding be_load_le by (simp add: le_load.simps(2))

text \<open>The value of a big-endian number, its first byte first.\<close>

primrec be_value :: "nat \<Rightarrow> bytes \<Rightarrow> int" where
  "be_value 0 A = 0"
| "be_value (Suc n) A = uint (A 0) * 256 ^ n + be_value n (skip A 1)"

lemma be_value_snoc: "be_value (Suc n) A = uint (A n) + 256 * be_value n A"
proof (induction n arbitrary: A)
  case (Suc n)
  have "be_value (Suc (Suc n)) A = uint (A 0) * 256 ^ Suc n + be_value (Suc n) (skip A 1)" by simp
  also have "\<dots> = uint (A 0) * 256 ^ Suc n + (uint (A (Suc n)) + 256 * be_value n (skip A 1))"
    unfolding Suc by simp
  finally show ?case by (simp add: algebra_simps)
qed simp

lemma be_value_le: "be_value n A = le_value n (\<lambda>i. A (n - 1 - i))"
proof (induction n arbitrary: A)
  case (Suc n)
  then show ?case unfolding be_value_snoc by simp
qed simp

lemma uint_be_load: "8 * n \<le> LENGTH('a) \<Longrightarrow> uint (be_load n A :: 'a::len word) = be_value n A"
  unfolding be_load_le be_value_le by (rule uint_le_load)

lemma memcmp_value:
  "(memcmp A B n < 0 \<longleftrightarrow> be_value n A < be_value n B) \<and> (memcmp A B n = 0 \<longleftrightarrow> be_value n A = be_value n B)"
proof (induction n arbitrary: A B)
  case (Suc n)
  have r: "0 \<le> be_value n C \<and> be_value n C < 256 ^ n" for C
    unfolding be_value_le by (rule le_value_range)
  have less: "be_value (Suc n) C < be_value (Suc n) D" if "C 0 < D 0" for C D
  proof -
    have "uint (C 0) + 1 \<le> uint (D 0)" using that by (simp add: word_less_def)
    then have "(uint (C 0) + 1) * 256 ^ n \<le> uint (D 0) * 256 ^ n" by (rule mult_right_mono) simp
    then show ?thesis using r [of "skip C 1"] r [of "skip D 1"] by (simp add: distrib_right)
  qed
  consider "A 0 < B 0" | "B 0 < A 0" | "A 0 = B 0" by fastforce
  then show ?case
  proof cases
    case 1
    then show ?thesis using less [of A B] by simp
  next
    case 2
    then show ?thesis using less [of B A] by (simp add: less_not_sym)
  next
    case 3
    then show ?thesis using Suc [of "skip A 1" "skip B 1"] by simp
  qed
qed simp

section \<open>Floating point numbers, rows and sizes\<close>

lemma float4_roundtrip:
  "i < 4 \<Longrightarrow> mi_float4get b V (mi_float4store b T A) i = A i"
  "i < 4 \<Longrightarrow> be_float4get V (be_float4store T A) i = A i"
  unfolding less_cases mi_float4get_def mi_float4store_def be_float4get_def be_float4store_def
  by (elim disjE; simp)+

lemma float8_roundtrip:
  "i < 8 \<Longrightarrow> mi_float8get b f V (mi_float8store b f T A) i = A i"
  "i < 8 \<Longrightarrow> le_doubleget f V (le_doublestore f T A) i = A i"
  "i < 8 \<Longrightarrow> be_float8get V (be_float8store T A) i = A i"
  unfolding less_cases mi_float8get_def mi_float8store_def le_doubleget_def le_doublestore_def
    be_float8get_def be_float8store_def
  by (elim disjE; simp)+

lemma be_short_roundtrip: "be_ushortget (be_shortstore T v) = ucast v"
proof -
  have "be_shortstore T v = be_store 2 T v"
    using mi_store_be(1) [of T v] by (simp add: be_shortstore_def mi_int2store_def)
  moreover have "be_ushortget M = be_load 2 M" for M
  proof -
    have "u16 (M 1) AND push_bit 8 (u16 (M 0)) = 0"
      by (rule bit_word_eqI) (auto simp: bit_simps dest: bit_imp_le_length)
    then show ?thesis unfolding be_ushortget_def be_load_le le_load_unfold by (simp add: disjunctive_add_eq_or)
  qed
  ultimately show ?thesis by (simp add: be_load_store take_bit_word_eq_self)
qed

lemma mi_row_roundtrip:
  "mi_rowkorr big (mi_rowstore big T v) = (if big then v else take_bit 32 v)"
  and mi_size_roundtrip:
  "mi_sizekorr n (mi_sizestore n e T v) = (if n > 4 then v else if v = e then 4294967295 else take_bit 32 v)"
proof -
  have eight: "mi_uint8korr (mi_int8store T v) = v"
    by (simp add: mi_korr_load mi_int8store_be be_load_store take_bit_word_eq_self)
  have "skip (store_at mi_int4store U 4 v) 4 = mi_int4store (skip U 4) v" for U
    by (rule ext) (simp add: store_at_def)
  then have four: "ucast (mi_uint4korr (skip (store_at mi_int4store U 4 v) 4)) = take_bit 32 v" for U
    by (simp add: mi_korr_load mi_store_be be_load_store)
      (rule bit_word_eqI, auto simp: bit_simps dest: bit_imp_le_length)
  have ones: "ucast (mi_uint4korr (\<lambda>i. if 4 + i < 8 then 255 else T (4 + i))) = (4294967295 :: 64 word)"
    by (simp add: mi_uint4korr_def)
  show "mi_rowkorr big (mi_rowstore big T v) = (if big then v else take_bit 32 v)"
    using eight four by (simp add: mi_rowkorr_def mi_rowstore_def)
  show "mi_sizekorr n (mi_sizestore n e T v) = (if n > 4 then v else if v = e then 4294967295 else take_bit 32 v)"
    using eight four ones by (simp add: mi_sizekorr_def mi_sizestore_def)
qed

section \<open>Properties\<close>

text \<open>C22. The headers for x86 and x86-64 read and store the same as the generic byte-by-byte header, for
  all bytes and values; so do the loads with \<open>bswapq\<close> and the generic ones of \<open>myisampack.h\<close>.\<close>

theorem byte_order_headers_agree:
  "x64_sint2korr A = gen_sint2korr A \<and> x64_sint3korr A = gen_sint3korr A \<and> x64_sint4korr A = gen_sint4korr A \<and>
   x64_uint2korr A = gen_uint2korr A \<and> x64_uint3korr A = gen_uint3korr A \<and> x64_uint4korr A = gen_uint4korr A \<and>
   x64_uint5korr A = gen_uint5korr A \<and> x64_uint6korr A = gen_uint6korr A \<and> x64_uint8korr A = gen_uint8korr A \<and>
   x64_sint8korr A = gen_sint8korr A \<and>
   x64_int2store T v = gen_int2store T v \<and> x64_int3store T v = gen_int3store T v \<and>
   x64_int4store T v = gen_int4store T v \<and> x64_int5store T v = gen_int5store T v \<and>
   x64_int6store T v = gen_int6store T v \<and> x64_int8store T v = gen_int8store T v \<and>
   x86_sint2korr A = gen_sint2korr A \<and> x86_sint3korr A = gen_sint3korr A \<and> x86_sint4korr A = gen_sint4korr A \<and>
   x86_uint2korr A = gen_uint2korr A \<and> x86_uint3korr A = gen_uint3korr A \<and> x86_uint4korr A = gen_uint4korr A \<and>
   x86_uint5korr A = gen_uint5korr A \<and> x86_uint6korr A = gen_uint6korr A \<and> x86_uint8korr A = gen_uint8korr A \<and>
   x86_sint8korr A = gen_sint8korr A \<and>
   x86_int2store T v = gen_int2store T v \<and> x86_int3store T v = gen_int3store T v \<and>
   x86_int4store T v = gen_int4store T v \<and> x86_int5store T v = gen_int5store T v \<and>
   x86_int6store T v = gen_int6store T v \<and> x86_int8store T v = gen_int8store T v \<and>
   x64_mi_uint5korr A = mi_uint5korr A \<and> x64_mi_uint6korr A = mi_uint6korr A \<and>
   x64_mi_uint7korr A = mi_uint7korr A \<and> x64_mi_uint8korr A = mi_uint8korr A"
  unfolding gen_korr_load x64_korr_load sint3_korr_load gen_store_le gen_int8store_le x64_store_le x64_int6store_le
    mi_korr_load x64_mi_korr_load x64_sint2korr_def x64_sint4korr_def x64_sint8korr_def x86_sint2korr_def
    x86_sint4korr_def x86_sint8korr_def
  by (intro conjI refl)


text \<open>\<open>memcmp\<close> on numbers stored high byte first compares the numbers, for every width.\<close>

theorem mi_memcmp_order:
  "(memcmp (mi_int2store S v) (mi_int2store T w) 2 < 0 \<longleftrightarrow> (ucast v :: 16 word) < ucast w) \<and>
   (memcmp (mi_int3store S v) (mi_int3store T w) 3 < 0 \<longleftrightarrow> take_bit 24 v < take_bit 24 w) \<and>
   (memcmp (mi_int4store S v) (mi_int4store T w) 4 < 0 \<longleftrightarrow> (ucast v :: 32 word) < ucast w) \<and>
   (memcmp (mi_int5store S v) (mi_int5store T w) 5 < 0 \<longleftrightarrow> take_bit 40 v < take_bit 40 w) \<and>
   (memcmp (mi_int6store S v) (mi_int6store T w) 6 < 0 \<longleftrightarrow> take_bit 48 v < take_bit 48 w) \<and>
   (memcmp (mi_int7store S v) (mi_int7store T w) 7 < 0 \<longleftrightarrow> take_bit 56 v < take_bit 56 w) \<and>
   (memcmp (mi_int8store S v) (mi_int8store T w) 8 < 0 \<longleftrightarrow> v < w) \<and>
   (memcmp (mi_int8store S v) (mi_int8store T w) 8 = 0 \<longleftrightarrow> v = w)"
proof -
  have cmp: "memcmp (be_store n S v) (be_store n T w) n < 0 \<longleftrightarrow> (take_bit (8 * n) v :: 64 word) < take_bit (8 * n) w"
    "memcmp (be_store n S v) (be_store n T w) n = 0 \<longleftrightarrow> (take_bit (8 * n) v :: 64 word) = take_bit (8 * n) w"
    if "8 * n \<le> 64" for n
  proof -
    have val: "be_value n (be_store n U x) = uint (take_bit (8 * n) x :: 64 word)" for U x
      using uint_be_load [of n "be_store n U x", where 'a = 64] that by (simp add: be_load_store)
    show "memcmp (be_store n S v) (be_store n T w) n < 0 \<longleftrightarrow> (take_bit (8 * n) v :: 64 word) < take_bit (8 * n) w"
      "memcmp (be_store n S v) (be_store n T w) n = 0 \<longleftrightarrow> (take_bit (8 * n) v :: 64 word) = take_bit (8 * n) w"
      using memcmp_value [of "be_store n S v" "be_store n T w" n] by (simp_all add: val word_less_def word_uint_eq_iff)
  qed
  have u: "(ucast v :: 16 word) < ucast w \<longleftrightarrow> take_bit 16 v < take_bit 16 w"
    "(ucast v :: 32 word) < ucast w \<longleftrightarrow> take_bit 32 v < take_bit 32 w"
    "take_bit 64 v = v" "take_bit 64 w = w"
    by (simp_all add: word_less_def unsigned_ucast_eq unsigned_take_bit_eq min_def take_bit_word_eq_self)
  show ?thesis unfolding mi_store_be mi_int8store_be u
    by (intro conjI) (simp_all add: cmp u)
qed

end
