(* ===== verification/Tranx_Alloc.thy ===== *)
theory Tranx_Alloc
  imports Prelude "HOL-Library.Word"
begin

text \<open>
  \<open>Tranx_node_allocator\<close> of \<open>private/semisync_master.h\<close>: transaction nodes in linked blocks of sixteen, given out
  in sequence and freed from the front. Pointers are addresses, 0 is NULL, and a node of a block is an
  address inside it, as the code compares them. \<open>heap\<close> holds the blocks got from \<open>my_malloc\<close> and not given
  to \<open>my_free\<close>; an access through any other pointer, or freeing it, is None. What \<open>my_malloc\<close> returns is an
  argument. \<open>debug\<close> says whether \<open>DBUG_ASSERT\<close> is on.
\<close>

section \<open>Memory\<close>

definition FN_REFLEN :: nat where "FN_REFLEN = 512"
definition BLOCK_TRANX_NODES :: nat where "BLOCK_TRANX_NODES = 16"

record Tranx_node =
  log_name :: string
  log_pos :: "64 word"
  thd :: nat
  node_next :: nat
  hash_next :: nat

record tranx_allocator =
  reserved_blocks :: "32 word"
  first_block :: nat
  last_block :: nat
  current_block :: nat
  last_node :: int
  block_num :: "32 word"
  block_next :: "nat \<Rightarrow> nat"
  nodes :: "nat \<Rightarrow> Tranx_node"
  heap :: "nat list"

text \<open>The layout: a block is its \<open>next\<close> and then its nodes; a node is its name and four words of 8 bytes.\<close>

definition sizeof_node :: nat where "sizeof_node = FN_REFLEN + 4 * 8"

definition node_addr :: "nat \<Rightarrow> nat \<Rightarrow> nat" where
  "node_addr block i = block + 8 + i * sizeof_node"

definition sizeof_block :: nat where "sizeof_block = 8 + BLOCK_TRANX_NODES * sizeof_node"

definition get_next :: "nat \<Rightarrow> tranx_allocator \<Rightarrow> nat option" where
  "get_next block a = (if block \<in> set (heap a) then Some (block_next a block) else None)"

definition set_next :: "nat \<Rightarrow> nat \<Rightarrow> tranx_allocator \<Rightarrow> tranx_allocator option" where
  "set_next block n a =
     (if block \<in> set (heap a) then Some (a\<lparr>block_next := (block_next a)(block := n)\<rparr>) else None)"

section \<open>Tranx\_node\_allocator\<close>

definition Tranx_node_allocator_new :: "(nat \<Rightarrow> nat) \<Rightarrow> (nat \<Rightarrow> Tranx_node) \<Rightarrow> 32 word \<Rightarrow> tranx_allocator" where
  "Tranx_node_allocator_new nx ns reserved_nodes =
     \<lparr>reserved_blocks = reserved_nodes div of_nat BLOCK_TRANX_NODES +
        (if reserved_nodes mod of_nat BLOCK_TRANX_NODES > 1 then 2 else 1),
      first_block = 0, last_block = 0, current_block = 0, last_node = -1, block_num = 0,
      block_next = nx, nodes = ns, heap = []\<rparr>"

definition allocate_block :: "nat \<Rightarrow> tranx_allocator \<Rightarrow> (int \<times> tranx_allocator) option" where
  "allocate_block malloc a =
     (let block = malloc in
      if block \<noteq> 0 then do {
        a \<leftarrow> set_next block 0 (a\<lparr>heap := block # heap a\<rparr>);
        a \<leftarrow> (if first_block a = 0 then Some (a\<lparr>first_block := block\<rparr>)
             else set_next (last_block a) block a);
        let a = a\<lparr>last_block := block\<rparr>;
        let a = a\<lparr>current_block := block\<rparr>;
        Some (0, a\<lparr>block_num := block_num a + 1\<rparr>)
      } else Some (1, a))"

definition free_block :: "nat \<Rightarrow> tranx_allocator \<Rightarrow> tranx_allocator option" where
  "free_block block a =
     (if block \<in> set (heap a) then Some (a\<lparr>heap := remove1 block (heap a), block_num := block_num a - 1\<rparr>)
      else None)"

function free_loop :: "nat \<Rightarrow> tranx_allocator \<Rightarrow> (nat \<times> tranx_allocator) option" where
  "free_loop block a =
     (if block_num a > reserved_blocks a \<and> block \<noteq> 0 then
        case get_next block a of None \<Rightarrow> None
        | Some n \<Rightarrow> (case free_block block a of None \<Rightarrow> None | Some b \<Rightarrow> free_loop n b)
      else Some (block, a))"
  by auto

lemma free_block_heap: "free_block block a = Some b \<Longrightarrow> length (heap b) < length (heap a)"
  using length_pos_if_in_set [of block "heap a"] by (auto simp: free_block_def length_remove1 split: if_splits)

termination free_loop
  by (relation "measure (\<lambda>(block, a). length (heap a))") (auto dest: free_block_heap)

declare free_loop.simps [simp del]

definition free_blocks :: "tranx_allocator \<Rightarrow> tranx_allocator option" where
  "free_blocks a =
     (if current_block a = 0 then Some a
      else do {
        n \<leftarrow> get_next (current_block a) a;
        if n = 0 then Some a
        else do {
          block \<leftarrow> get_next n a;
          (block, a) \<leftarrow> free_loop block a;
          n \<leftarrow> get_next (current_block a) a;
          a \<leftarrow> set_next n block a;
          if block = 0 then do {
            n \<leftarrow> get_next (current_block a) a;
            Some (a\<lparr>last_block := n\<rparr>)
          } else Some a
        }
      })"

definition clear_node :: "Tranx_node \<Rightarrow> Tranx_node" where
  "clear_node n = n\<lparr>log_name := (log_name n)[0 := CHR 0x00], log_pos := 0, node_next := 0, hash_next := 0\<rparr>"

definition allocate_node :: "nat \<Rightarrow> tranx_allocator \<Rightarrow> (nat \<times> tranx_allocator) option" where
  "allocate_node malloc a =
     (let block = current_block a in
      do {
        a \<leftarrow> (if last_node a = int BLOCK_TRANX_NODES - 1 then do {
               n \<leftarrow> get_next (current_block a) a;
               let a = a\<lparr>current_block := n\<rparr>;
               Some (a\<lparr>last_node := -1\<rparr>)
             } else Some a);
        (failed, a) \<leftarrow> (if current_block a = 0 then allocate_block malloc a else Some (0, a));
        if failed \<noteq> 0 then
          (let a = a\<lparr>current_block := block\<rparr>
           in Some (0, if current_block a \<noteq> 0 then a\<lparr>last_node := int BLOCK_TRANX_NODES - 1\<rparr> else a))
        else
          (let a = a\<lparr>last_node := last_node a + 1\<rparr>;
               trx_node = node_addr (current_block a) (nat (last_node a))
           in if current_block a \<in> set (heap a) then
                Some (trx_node, a\<lparr>nodes := (nodes a)(trx_node := clear_node (nodes a trx_node))\<rparr>)
              else None)
      })"

definition free_all_nodes :: "tranx_allocator \<Rightarrow> (int \<times> tranx_allocator) option" where
  "free_all_nodes a =
     (let a = a\<lparr>current_block := first_block a\<rparr>;
          a = a\<lparr>last_node := -1\<rparr>
      in do { a \<leftarrow> free_blocks a; Some (0, a) })"

text \<open>The loop of \<open>free_nodes_before\<close>: the block of the node and the one before it, or that none has it.\<close>

definition in_block :: "nat \<Rightarrow> nat \<Rightarrow> bool" where
  "in_block block node \<longleftrightarrow> node_addr block 0 \<le> node \<and> node_addr block BLOCK_TRANX_NODES \<ge> node"

partial_function (option) find_block :: "nat \<Rightarrow> nat \<Rightarrow> nat \<Rightarrow> tranx_allocator \<Rightarrow> (nat \<times> nat) option option" where
  "find_block node block prev_block a =
     Option.bind (get_next (current_block a) a) (\<lambda>stop.
       if block \<noteq> stop then
         (if in_block block node then Some (Some (prev_block, block))
          else Option.bind (get_next block a) (\<lambda>n. find_block node n block a))
       else Some None)"

definition free_nodes_before :: "bool \<Rightarrow> nat \<Rightarrow> tranx_allocator \<Rightarrow> (int \<times> tranx_allocator) option" where
  "free_nodes_before debug node a = do {
     found \<leftarrow> find_block node (first_block a) 0 a;
     case found of
       Some (prev_block, block) \<Rightarrow>
         if first_block a \<noteq> block then do {
           a \<leftarrow> set_next (last_block a) (first_block a) a;
           let a = a\<lparr>first_block := block\<rparr>;
           let a = a\<lparr>last_block := prev_block\<rparr>;
           a \<leftarrow> set_next (last_block a) 0 a;
           a \<leftarrow> free_blocks a;
           Some (0, a)
         } else Some (0, a)
     | None \<Rightarrow> if debug then None else Some (1, a)
   }"

text \<open>The destructor.\<close>

function destroy_loop :: "nat \<Rightarrow> tranx_allocator \<Rightarrow> tranx_allocator option" where
  "destroy_loop block a =
     (if block \<noteq> 0 then
        case get_next block a of None \<Rightarrow> None
        | Some n \<Rightarrow> (case free_block block a of None \<Rightarrow> None | Some b \<Rightarrow> destroy_loop n b)
      else Some a)"
  by auto

termination destroy_loop
  by (relation "measure (\<lambda>(block, a). length (heap a))") (auto dest: free_block_heap)

declare destroy_loop.simps [simp del]

definition Tranx_node_allocator_destroy :: "tranx_allocator \<Rightarrow> tranx_allocator option" where
  "Tranx_node_allocator_destroy a = destroy_loop (first_block a) a"

section \<open>What an allocator holds\<close>

text \<open>A linked list of blocks up to a given end, and blocks that do not overlap.\<close>

fun chain :: "(nat \<Rightarrow> nat) \<Rightarrow> nat \<Rightarrow> nat list \<Rightarrow> nat \<Rightarrow> bool" where
  "chain nx b [] e \<longleftrightarrow> b = e"
| "chain nx b (x # xs) e \<longleftrightarrow> b = x \<and> x \<noteq> 0 \<and> chain nx (nx x) xs e"

definition first_of :: "nat list \<Rightarrow> nat \<Rightarrow> nat" where
  "first_of xs e = (case xs of [] \<Rightarrow> e | x # _ \<Rightarrow> x)"

definition apart :: "nat \<Rightarrow> nat \<Rightarrow> bool" where
  "apart x y \<longleftrightarrow> x + sizeof_block \<le> y \<or> y + sizeof_block \<le> x"

definition blocks_apart :: "nat list \<Rightarrow> bool" where
  "blocks_apart xs \<longleftrightarrow> (\<forall>x\<in>set xs. \<forall>y\<in>set xs. x \<noteq> y \<longrightarrow> apart x y)"

text \<open>The blocks in use end with the current one; the free blocks follow.\<close>

definition tranx_ok :: "nat list \<Rightarrow> nat list \<Rightarrow> tranx_allocator \<Rightarrow> bool" where
  "tranx_ok us fs a \<longleftrightarrow>
     chain (block_next a) (first_block a) (us @ fs) 0 \<and> distinct (us @ fs) \<and>
     distinct (heap a) \<and> set (heap a) = set (us @ fs) \<and> blocks_apart (us @ fs) \<and>
     block_num a = of_nat (length (us @ fs)) \<and> length (us @ fs) < 2 ^ 32 \<and>
     last_block a = (if us @ fs = [] then 0 else last (us @ fs)) \<and>
     (us = [] \<longrightarrow> fs = [] \<and> current_block a = 0 \<and> last_node a = -1) \<and>
     (us \<noteq> [] \<longrightarrow> current_block a = last us \<and> -1 \<le> last_node a \<and> last_node a \<le> 15)"

text \<open>The nodes given out and not freed, in order.\<close>

definition block_nodes :: "nat \<Rightarrow> nat list" where
  "block_nodes b = map (node_addr b) [0..<BLOCK_TRANX_NODES]"

fun path :: "nat \<Rightarrow> (nat \<Rightarrow> nat) \<Rightarrow> nat \<Rightarrow> nat list" where
  "path 0 nx b = []"
| "path (Suc n) nx b = (if b = 0 then [] else b # path n nx (nx b))"

definition used_nodes :: "nat list \<Rightarrow> int \<Rightarrow> nat list" where
  "used_nodes us n = take (BLOCK_TRANX_NODES * (length us - 1) + nat (n + 1)) (concat (map block_nodes us))"

definition used_blocks :: "tranx_allocator \<Rightarrow> nat list" where
  "used_blocks a =
     (if current_block a = 0 then []
      else takeWhile (\<lambda>b. b \<noteq> current_block a) (path (length (heap a)) (block_next a) (first_block a)) @
        [current_block a])"

definition live_nodes :: "tranx_allocator \<Rightarrow> nat list" where
  "live_nodes a = used_nodes (used_blocks a) (last_node a)"

lemma first_of_simps [simp]: "first_of [] e = e" "first_of (x # xs) e = x"
  by (simp_all add: first_of_def)

lemma first_of_app [simp]: "first_of (xs @ ys) e = first_of xs (first_of ys e)"
  by (cases xs) simp_all

lemma chain_app [simp]:
  "chain nx b (xs @ ys) e \<longleftrightarrow> chain nx b xs (first_of ys e) \<and> chain nx (first_of ys e) ys e"
  by (induction xs arbitrary: b) (cases ys; auto)+

lemma chain_first: "chain nx b xs e \<Longrightarrow> b = first_of xs e"
  by (cases xs) auto

lemma chain_upd [simp]: "x \<notin> set xs \<Longrightarrow> chain (nx(x := v)) b xs e \<longleftrightarrow> chain nx b xs e"
  by (induction xs arbitrary: b) auto

lemma chain_nonzero: "chain nx b xs e \<Longrightarrow> x \<in> set xs \<Longrightarrow> x \<noteq> 0"
  by (induction xs arbitrary: b) auto

lemma chain_path: "chain nx b xs 0 \<Longrightarrow> path (length xs) nx b = xs"
  by (induction xs arbitrary: b) auto

lemma block_path_end [simp]: "path n nx 0 = []"
  by (cases n) auto

lemma chain_next_last: "chain nx b (xs @ [x]) e \<Longrightarrow> nx x = e"
  by simp

lemma chain_relink:
  "chain nx b (xs @ [x]) e \<Longrightarrow> distinct (xs @ [x]) \<Longrightarrow> chain (nx(x := v)) b (xs @ [x]) v"
  by simp

text \<open>The invariant determines the blocks in use.\<close>

lemma used_blocks_eq:
  assumes "tranx_ok us fs a"
  shows "used_blocks a = us"
proof (cases "us = []")
  case False
  have l: "length (heap a) = length (us @ fs)"
    using assms distinct_card [of "heap a"] distinct_card [of "us @ fs"] by (simp add: tranx_ok_def)
  have p: "path (length (heap a)) (block_next a) (first_block a) = us @ fs"
    unfolding l by (rule chain_path) (use assms in \<open>simp add: tranx_ok_def\<close>)
  obtain vs u where us: "us = vs @ [u]" using False by (cases us rule: rev_exhaust) auto
  have u: "current_block a = u" "u \<noteq> 0" "u \<notin> set vs" using assms us by (auto simp: tranx_ok_def)
  then have "takeWhile (\<lambda>b. b \<noteq> u) (us @ fs) = vs"
    unfolding us by (simp add: takeWhile_append)
  then show ?thesis using u us p by (simp add: used_blocks_def)
qed (use assms in \<open>simp add: tranx_ok_def used_blocks_def\<close>)

lemma live_nodes_eq: "tranx_ok us fs a \<Longrightarrow> live_nodes a = used_nodes us (last_node a)"
  by (simp add: live_nodes_def used_blocks_eq)

section \<open>Addresses\<close>

lemmas layout_defs = sizeof_block_def sizeof_node_def FN_REFLEN_def BLOCK_TRANX_NODES_def node_addr_def

lemma node_addr_pos [simp]: "0 < node_addr b i" "node_addr b i \<noteq> 0" "0 \<noteq> node_addr b i"
  by (simp_all add: node_addr_def)

lemma in_block_own: "i < BLOCK_TRANX_NODES \<Longrightarrow> in_block b (node_addr b i)"
  by (simp add: in_block_def layout_defs)

text \<open>
  The test of \<open>free_nodes_before\<close> allows the address one past the last node, and a node of another
  block can not be there: the \<open>next\<close> of that block comes first.
\<close>

lemma in_block_other: "apart b c \<Longrightarrow> i < BLOCK_TRANX_NODES \<Longrightarrow> \<not> in_block b (node_addr c i)"
  by (auto simp: in_block_def apart_def layout_defs)

lemma node_addr_inj:
  "b = c \<or> apart b c \<Longrightarrow> i < BLOCK_TRANX_NODES \<Longrightarrow> j < BLOCK_TRANX_NODES \<Longrightarrow>
   node_addr b i = node_addr c j \<longleftrightarrow> b = c \<and> i = j"
  by (auto simp: apart_def layout_defs)

lemma block_nodes_facts [simp]:
  "length (block_nodes b) = 16" "i < 16 \<Longrightarrow> block_nodes b ! i = node_addr b i"
  by (simp_all add: block_nodes_def BLOCK_TRANX_NODES_def)

lemma length_all_nodes [simp]: "length (concat (map block_nodes us)) = 16 * length us"
  by (induction us) auto

lemma all_nodes_nth:
  "j < 16 * length us \<Longrightarrow> concat (map block_nodes us) ! j = node_addr (us ! (j div 16)) (j mod 16)"
proof (induction us arbitrary: j)
  case (Cons u us)
  show ?case
  proof (cases "j < 16")
    case False
    then obtain k where k: "j = k + 16" by (metis add.commute le_add_diff_inverse not_less)
    then show ?thesis using Cons by (simp add: nth_append)
  qed (simp add: nth_append)
qed simp

lemma all_nodes_distinct:
  assumes "distinct us" and "blocks_apart us"
  shows "distinct (concat (map block_nodes us))"
proof (subst distinct_conv_nth, intro allI impI)
  fix i j assume ij: "i < length (concat (map block_nodes us))" "j < length (concat (map block_nodes us))" "i \<noteq> j"
  then have d: "i div 16 < length us" "j div 16 < length us" by (simp_all add: less_mult_imp_div_less mult.commute)
  then have "us ! (i div 16) = us ! (j div 16) \<or> apart (us ! (i div 16)) (us ! (j div 16))"
    using assms(2) nth_mem [OF d(1)] nth_mem [OF d(2)] unfolding blocks_apart_def by blast
  then have "node_addr (us ! (i div 16)) (i mod 16) = node_addr (us ! (j div 16)) (j mod 16) \<longleftrightarrow>
      us ! (i div 16) = us ! (j div 16) \<and> i mod 16 = j mod 16"
    by (rule node_addr_inj) (simp_all add: BLOCK_TRANX_NODES_def)
  moreover have "us ! (i div 16) = us ! (j div 16) \<longleftrightarrow> i div 16 = j div 16"
    using assms(1) d by (simp add: nth_eq_iff_index_eq)
  moreover have "\<not> (i div 16 = j div 16 \<and> i mod 16 = j mod 16)" using ij(3) by (metis mult_div_mod_eq)
  ultimately show "concat (map block_nodes us) ! i \<noteq> concat (map block_nodes us) ! j"
    using ij by (simp add: all_nodes_nth)
qed

section \<open>Freeing\<close>

lemma fold_remove1:
  "distinct h \<Longrightarrow> distinct (fold remove1 ds h) \<and> set (fold remove1 ds h) = set h - set ds"
  by (induction ds arbitrary: h) (auto simp: distinct_remove1)

lemma word32_less: "n < 2 ^ 32 \<Longrightarrow> (r :: 32 word) < of_nat n \<longleftrightarrow> unat r < n"
  by (simp add: word_less_nat_alt unat_of_nat take_bit_nat_eq_self)

text \<open>The loop frees blocks from the front while there are more than the reserved ones.\<close>

lemma free_loop_ok:
  assumes "chain (block_next a) b ys 0" and "distinct ys" and "set ys \<subseteq> set (heap a)" and "distinct (heap a)"
    and "block_num a = of_nat n" and "n < 2 ^ 32" and "length ys \<le> n"
  shows "\<exists>ds rest. ys = ds @ rest \<and>
    free_loop b a = Some (first_of rest 0, a\<lparr>heap := fold remove1 ds (heap a), block_num := of_nat (n - length ds)\<rparr>) \<and>
    (rest = [] \<or> n - length ds \<le> unat (reserved_blocks a)) \<and>
    (ds = [] \<or> unat (reserved_blocks a) \<le> n - length ds)"
  using assms
proof (induction ys arbitrary: a b n)
  case Nil
  then show ?case by (intro exI [of _ "[]"]) (simp add: free_loop.simps)
next
  case (Cons y ys)
  have y: "b = y" "y \<noteq> 0" "y \<in> set (heap a)" "n \<noteq> 0" using Cons.prems by auto
  show ?case
  proof (cases "reserved_blocks a < block_num a")
    case True
    let ?a = "a\<lparr>heap := remove1 y (heap a), block_num := of_nat n - 1\<rparr>"
    have "\<exists>ds rest. ys = ds @ rest \<and>
        free_loop (block_next a y) ?a =
          Some (first_of rest 0, ?a\<lparr>heap := fold remove1 ds (heap ?a), block_num := of_nat (n - 1 - length ds)\<rparr>) \<and>
        (rest = [] \<or> n - 1 - length ds \<le> unat (reserved_blocks ?a)) \<and>
        (ds = [] \<or> unat (reserved_blocks ?a) \<le> n - 1 - length ds)"
      by (rule Cons.IH) (use Cons.prems y in \<open>auto simp: distinct_remove1 of_nat_diff\<close>)
    then obtain ds rest where r: "ys = ds @ rest"
        "free_loop (block_next a y) ?a =
          Some (first_of rest 0, a\<lparr>heap := fold remove1 (y # ds) (heap a), block_num := of_nat (n - length (y # ds))\<rparr>)"
        "rest = [] \<or> n - length (y # ds) \<le> unat (reserved_blocks a)"
        "ds = [] \<or> unat (reserved_blocks a) \<le> n - length (y # ds)" by auto
    have "unat (reserved_blocks a) < n" using True Cons.prems by (simp add: word32_less)
    moreover have "free_loop b a = free_loop (block_next a y) ?a"
      using True y Cons.prems by (subst free_loop.simps) (simp add: get_next_def free_block_def)
    ultimately show ?thesis using r by (intro exI [of _ "y # ds"] exI [of _ rest]) auto
  next
    case False
    then have "free_loop b a = Some (b, a)" by (subst free_loop.simps) simp
    moreover have "n \<le> unat (reserved_blocks a)" using False Cons.prems by (simp add: word32_less)
    ultimately show ?thesis using Cons.prems y by (intro exI [of _ "[]"] exI [of _ "y # ys"]) simp
  qed
qed

lemma blocks_apart_mono: "blocks_apart xs \<Longrightarrow> set ys \<subseteq> set xs \<Longrightarrow> blocks_apart ys"
  by (auto simp: blocks_apart_def)

lemma free_blocks_ok:
  assumes ok: "tranx_ok us fs a" and "us \<noteq> []"
  shows "\<exists>b fs'. free_blocks a = Some b \<and> tranx_ok us fs' b \<and> nodes b = nodes a \<and> last_node b = last_node a \<and>
    reserved_blocks b = reserved_blocks a \<and> set fs' \<subseteq> set fs \<and>
    (length (us @ fs') \<le> unat (reserved_blocks a) \<or> length fs' \<le> 1) \<and>
    (fs' = fs \<or> unat (reserved_blocks a) \<le> length (us @ fs'))"
proof -
  obtain vs u where us: "us = vs @ [u]" using assms(2) by (cases us rule: rev_exhaust) auto
  have u: "current_block a = u" "u \<noteq> 0" "u \<in> set (heap a)" "block_next a u = first_of fs 0"
    using ok us by (auto simp: tranx_ok_def dest: chain_first)
  show ?thesis
  proof (cases fs)
    case Nil
    then have "free_blocks a = Some a" using u by (simp add: free_blocks_def get_next_def)
    then show ?thesis using ok Nil by (intro exI [of _ a] exI [of _ fs]) simp
  next
    case (Cons f gs)
    have f: "f \<noteq> 0" "f \<in> set (heap a)" "chain (block_next a) (block_next a f) gs 0" "f \<notin> set gs" "f \<noteq> u" "f \<notin> set us"
      using ok us Cons by (auto simp: tranx_ok_def)
    have "\<exists>ds rest. gs = ds @ rest \<and>
        free_loop (block_next a f) a = Some (first_of rest 0,
          a\<lparr>heap := fold remove1 ds (heap a), block_num := of_nat (length (us @ fs) - length ds)\<rparr>) \<and>
        (rest = [] \<or> length (us @ fs) - length ds \<le> unat (reserved_blocks a)) \<and>
        (ds = [] \<or> unat (reserved_blocks a) \<le> length (us @ fs) - length ds)"
      by (rule free_loop_ok) (use ok f Cons in \<open>auto simp: tranx_ok_def\<close>)
    then obtain ds rest where r: "gs = ds @ rest"
        "free_loop (block_next a f) a = Some (first_of rest 0,
          a\<lparr>heap := fold remove1 ds (heap a), block_num := of_nat (length (us @ fs) - length ds)\<rparr>)"
        "rest = [] \<or> length (us @ fs) - length ds \<le> unat (reserved_blocks a)"
        "ds = [] \<or> unat (reserved_blocks a) \<le> length (us @ fs) - length ds" by blast
    let ?h = "fold remove1 ds (heap a)"
    have h: "distinct ?h" "set ?h = set (heap a) - set ds"
      using fold_remove1 [of "heap a" ds] ok by (simp_all add: tranx_ok_def)
    have fu: "f \<in> set ?h" "u \<in> set ?h" using h ok us Cons r(1) by (auto simp: tranx_ok_def)
    let ?b = "a\<lparr>heap := ?h, block_num := of_nat (length (us @ fs) - length ds),
        block_next := (block_next a)(f := first_of rest 0)\<rparr>"
    let ?c = "if rest = [] then ?b\<lparr>last_block := f\<rparr> else ?b"
    have zero: "first_of rest 0 = 0 \<longleftrightarrow> rest = []"
      using ok Cons r(1) chain_nonzero [of "block_next a" "first_of rest 0" rest 0]
      by (cases rest) (auto simp: tranx_ok_def)
    have "free_blocks a = Some ?c"
      using u f r(2) fu zero Cons by (simp add: free_blocks_def get_next_def set_next_def)
    moreover have "tranx_ok us (f # rest) ?c"
      using ok h r(1) us Cons f
      by (auto simp: tranx_ok_def elim!: blocks_apart_mono)
    ultimately show ?thesis using r Cons by (intro exI [of _ ?c] exI [of _ "f # rest"]) auto
  qed
qed

section \<open>Allocating\<close>

text \<open>
  What is asked of \<open>my_malloc\<close>: a block does not overlap the others. The count of blocks is a 32-bit
  integer.
\<close>

definition malloc_ok :: "nat \<Rightarrow> tranx_allocator \<Rightarrow> bool" where
  "malloc_ok m a \<longleftrightarrow> (m \<noteq> 0 \<longrightarrow> list_all (apart m) (heap a) \<and> length (heap a) + 1 < 2 ^ 32)"

lemma blocks_apart_snoc: "blocks_apart us \<Longrightarrow> list_all (apart m) h \<Longrightarrow> set h = set us \<Longrightarrow> blocks_apart (us @ [m])"
  by (auto simp: blocks_apart_def list_all_iff apart_def)

lemma not_apart_self [simp]: "\<not> apart m m"
  by (simp add: apart_def sizeof_block_def)

lemma heap_length: "tranx_ok us fs a \<Longrightarrow> length (heap a) = length (us @ fs)"
  using distinct_card [of "heap a"] distinct_card [of "us @ fs"] by (simp add: tranx_ok_def)

text \<open>With every block full, a new block is put at the end and becomes the current one.\<close>

lemma allocate_block_ok:
  assumes ok: "tranx_ok us [] a" and "malloc_ok m a" and "m \<noteq> 0" and "-1 \<le> n" and "n \<le> 15"
  shows "\<exists>b. allocate_block m (a\<lparr>current_block := c, last_node := n\<rparr>) = Some (0, b) \<and> tranx_ok (us @ [m]) [] b \<and>
    current_block b = m \<and> last_node b = n \<and> nodes b = nodes a \<and> reserved_blocks b = reserved_blocks a"
proof -
  have m: "list_all (apart m) (heap a)" "length us + 1 < 2 ^ 32"
    using assms(2,3) heap_length [OF ok] by (simp_all add: malloc_ok_def)
  have new: "m \<notin> set us" "m \<notin> set (heap a)" using m(1) ok by (auto simp: list_all_iff tranx_ok_def)
  let ?b = "a\<lparr>first_block := (if us = [] then m else first_block a), last_block := m, current_block := m,
      last_node := n, block_num := block_num a + 1, heap := m # heap a,
      block_next := (if us = [] then (block_next a)(m := 0) else (block_next a)(m := 0, last us := m))\<rparr>"
  have first: "first_block a = 0 \<longleftrightarrow> us = []"
    using ok chain_nonzero [of "block_next a" "first_block a" us 0] chain_first [of "block_next a" "first_block a" us 0]
    by (cases us) (auto simp: tranx_ok_def)
  have "us \<noteq> [] \<Longrightarrow> last us \<in> set (heap a)" using ok by (auto simp: tranx_ok_def)
  then have "allocate_block m (a\<lparr>current_block := c, last_node := n\<rparr>) = Some (0, ?b)"
    using assms(3) first ok by (auto simp: allocate_block_def set_next_def Let_def tranx_ok_def)
  moreover have "blocks_apart (us @ [m])"
    using ok m(1) by (intro blocks_apart_snoc [of us m "heap a"]) (simp_all add: tranx_ok_def)
  moreover have "chain (block_next ?b) (first_block ?b) (us @ [m]) 0"
  proof (cases us rule: rev_exhaust)
    case (snoc vs v)
    then show ?thesis using ok new assms(3) by (auto simp: tranx_ok_def)
  qed (use assms(3) in simp)
  ultimately show ?thesis
    using ok new m(2) assms(3-5) by (intro exI [of _ ?b]) (auto simp: tranx_ok_def)
qed

lemma used_nodes_snoc:
  assumes "us \<noteq> []" and "-1 \<le> n" and "n < 15"
  shows "used_nodes us (n + 1) = used_nodes us n @ [node_addr (last us) (nat (n + 1))]"
proof -
  let ?k = "16 * (length us - 1) + nat (n + 1)"
  have k: "?k < 16 * length us" using assms by (cases us) auto
  have "used_nodes us (n + 1) = take (Suc ?k) (concat (map block_nodes us))"
  proof -
    have "16 * (length us - 1) + nat (n + 1 + 1) = Suc ?k" using assms by simp
    then show ?thesis unfolding used_nodes_def BLOCK_TRANX_NODES_def by (rule arg_cong)
  qed
  also have "\<dots> = take ?k (concat (map block_nodes us)) @ [concat (map block_nodes us) ! ?k]"
    using k by (intro take_Suc_conv_app_nth) simp
  also have "concat (map block_nodes us) ! ?k = node_addr (us ! (?k div 16)) (?k mod 16)"
    using k by (rule all_nodes_nth)
  also have "?k div 16 = length us - 1" using assms by auto
  also have "?k mod 16 = nat (n + 1)" using assms by auto
  finally show ?thesis using assms(1) by (simp add: used_nodes_def BLOCK_TRANX_NODES_def last_conv_nth)
qed

lemma used_nodes_full: "us \<noteq> [] \<Longrightarrow> used_nodes us 15 = concat (map block_nodes us)"
  by (cases us) (simp_all add: used_nodes_def BLOCK_TRANX_NODES_def)

lemma used_nodes_new_block:
  "(us = [] \<and> n = -1) \<or> (us \<noteq> [] \<and> n = 15) \<Longrightarrow> used_nodes (us @ [m]) 0 = used_nodes us n @ [node_addr m 0]"
proof -
  assume "(us = [] \<and> n = -1) \<or> (us \<noteq> [] \<and> n = 15)"
  then have "used_nodes us n = concat (map block_nodes us)"
    using used_nodes_full [of us] by (auto simp: used_nodes_def [of "[]"])
  moreover have "take (Suc 0) (block_nodes m) = [node_addr m 0]"
    by (simp add: take_Suc_conv_app_nth)
  ultimately show ?thesis by (simp add: used_nodes_def BLOCK_TRANX_NODES_def)
qed

lemma allocate_node_ok:
  assumes ok: "tranx_ok us fs a" and m: "malloc_ok m a"
  shows "\<exists>p b us' fs'. allocate_node m a = Some (p, b) \<and> tranx_ok us' fs' b \<and> reserved_blocks b = reserved_blocks a \<and>
    length us \<le> length us' \<and> length (us @ fs) \<le> length (us' @ fs') \<and>
    (length (us' @ fs') = length (us @ fs) \<or> fs' = []) \<and>
    (if m = 0 \<and> fs = [] \<and> (us = [] \<or> last_node a = 15) then p = 0 \<and> b = a
     else used_nodes us' (last_node b) = used_nodes us (last_node a) @ [p] \<and>
       p = node_addr (current_block b) (nat (last_node b)) \<and> nodes b = (nodes a)(p := clear_node (nodes a p)))"
proof -
  let ?put = "\<lambda>b n c. b\<lparr>last_node := n, nodes := (nodes b)(c := clear_node (nodes b c))\<rparr>"
  have put: "tranx_ok us' fs' b \<Longrightarrow> us' \<noteq> [] \<Longrightarrow> -1 \<le> n \<Longrightarrow> n \<le> 15 \<Longrightarrow> tranx_ok us' fs' (?put b n c)" for us' fs' b n c
    by (auto simp: tranx_ok_def)
  have cur: "us \<noteq> [] \<Longrightarrow> current_block a = last us \<and> last us \<in> set (heap a) \<and> last us \<noteq> 0 \<and> -1 \<le> last_node a \<and> last_node a \<le> 15"
    using ok chain_nonzero [of "block_next a" "first_block a" "us @ fs" 0 "last us"] by (auto simp: tranx_ok_def)
  consider (more) "us \<noteq> []" "last_node a < 15" | (free) f gs where "us \<noteq> []" "last_node a = 15" "fs = f # gs"
    | (new) "fs = []" "us = [] \<or> last_node a = 15"
  proof (cases "us = [] \<or> last_node a = 15")
    case True
    moreover have "us = [] \<Longrightarrow> fs = []" using ok by (simp add: tranx_ok_def)
    ultimately show ?thesis using that(2,3) by (cases fs) auto
  qed (use cur that(1) in auto)
  then show ?thesis
  proof cases
    case more
    let ?p = "node_addr (last us) (nat (last_node a + 1))"
    have "allocate_node m a = Some (?p, ?put a (last_node a + 1) ?p)"
      using more cur by (simp add: allocate_node_def Let_def BLOCK_TRANX_NODES_def)
    then show ?thesis
      using more cur put [OF ok, of "last_node a + 1"] used_nodes_snoc [of us "last_node a"] by auto
  next
    case free
    let ?p = "node_addr f 0"
    have "chain (block_next a) (block_next a (last us)) fs 0"
      using ok free(1) by (cases us rule: rev_exhaust) (auto simp: tranx_ok_def)
    then have f: "block_next a (last us) = f" "f \<noteq> 0" "f \<in> set (heap a)" using ok free(3) by (auto simp: tranx_ok_def)
    let ?b = "a\<lparr>current_block := f, last_node := -1\<rparr>"
    have "allocate_node m a = Some (?p, ?put ?b 0 ?p)"
      using free cur f by (simp add: allocate_node_def Let_def BLOCK_TRANX_NODES_def get_next_def)
    moreover have "tranx_ok (us @ [f]) gs ?b" using ok free by (auto simp: tranx_ok_def)
    ultimately show ?thesis
      using free cur put [of "us @ [f]" gs ?b 0] used_nodes_new_block [of us 15 f]
      by (intro exI [of _ ?p] exI [of _ "?put ?b 0 ?p"] exI [of _ "us @ [f]"] exI [of _ gs]) simp
  next
    case new
    let ?a = "a\<lparr>current_block := 0, last_node := -1\<rparr>"
    have "us \<noteq> [] \<Longrightarrow> block_next a (last us) = 0"
      using ok new by (cases us rule: rev_exhaust) (auto simp: tranx_ok_def)
    moreover have "us = [] \<Longrightarrow> ?a = a" using ok by (cases a) (auto simp: tranx_ok_def)
    ultimately have go: "allocate_block m ?a = Some (x, b) \<Longrightarrow> allocate_node m a =
       (if x \<noteq> 0 then
          (let b = b\<lparr>current_block := current_block a\<rparr>
           in Some (0, if current_block b \<noteq> 0 then b\<lparr>last_node := 15\<rparr> else b))
        else
          (let b = b\<lparr>last_node := last_node b + 1\<rparr>;
               trx_node = node_addr (current_block b) (nat (last_node b))
           in if current_block b \<in> set (heap b) then
                Some (trx_node, b\<lparr>nodes := (nodes b)(trx_node := clear_node (nodes b trx_node))\<rparr>)
              else None))" for x b
      using new cur ok
      by (cases "us = []") (auto simp: allocate_node_def Let_def BLOCK_TRANX_NODES_def get_next_def tranx_ok_def)
    show ?thesis
    proof (cases "m = 0")
      case True
      then have "allocate_node m a = Some (0, a)"
        using new cur ok go [of 1 ?a] by (cases "us = []"; cases a) (auto simp: allocate_block_def Let_def tranx_ok_def)
      then show ?thesis using True new ok
        by (intro exI [of _ 0] exI [of _ a] exI [of _ us] exI [of _ fs]) auto
    next
      case False
      obtain b where b: "allocate_block m ?a = Some (0, b)" "tranx_ok (us @ [m]) [] b" "current_block b = m"
          "last_node b = -1" "nodes b = nodes a" "reserved_blocks b = reserved_blocks a"
        using allocate_block_ok [of us a m "-1" 0] ok new m False by auto
      let ?p = "node_addr m 0"
      have "m \<in> set (heap b)" using b(2) by (simp add: tranx_ok_def)
      then have "allocate_node m a = Some (?p, ?put b 0 ?p)" using go [OF b(1)] b by (simp add: Let_def)
      then show ?thesis
        using False new b put [OF b(2), of 0 ?p] used_nodes_new_block [of us "last_node a" m] ok
        by (intro exI [of _ ?p] exI [of _ "?put b 0 ?p"] exI [of _ "us @ [m]"] exI [of _ "[]"])
          (auto simp: tranx_ok_def)
    qed
  qed
qed

section \<open>Freeing nodes\<close>

lemma free_all_ok:
  assumes ok: "tranx_ok us fs a"
  shows "\<exists>b us' fs'. free_all_nodes a = Some (0, b) \<and> tranx_ok us' fs' b \<and> nodes b = nodes a \<and>
    reserved_blocks b = reserved_blocks a \<and> used_nodes us' (last_node b) = [] \<and>
    length (us' @ fs') \<le> max (unat (reserved_blocks a)) (length us' + 1) \<and>
    (length (us' @ fs') = length (us @ fs) \<or> unat (reserved_blocks a) \<le> length (us' @ fs'))"
proof (cases us)
  case Nil
  then have "free_all_nodes a = Some (0, a)"
    using ok by (cases a) (auto simp: free_all_nodes_def free_blocks_def tranx_ok_def)
  then show ?thesis using ok Nil by (intro exI [of _ a] exI [of _ us] exI [of _ fs]) (auto simp: used_nodes_def tranx_ok_def)
next
  case (Cons u vs)
  let ?a = "a\<lparr>current_block := first_block a, last_node := -1\<rparr>"
  have "tranx_ok [u] (vs @ fs) ?a" using ok Cons by (simp add: tranx_ok_def)
  from free_blocks_ok [OF this] obtain b fs' where b: "free_blocks ?a = Some b" "tranx_ok [u] fs' b"
      "nodes b = nodes a" "last_node b = -1" "reserved_blocks b = reserved_blocks a"
      "length ([u] @ fs') \<le> unat (reserved_blocks a) \<or> length fs' \<le> 1"
      "fs' = vs @ fs \<or> unat (reserved_blocks a) \<le> length ([u] @ fs')" by auto
  then show ?thesis using Cons
    by (intro exI [of _ b] exI [of _ "[u]"] exI [of _ fs']) (auto simp: free_all_nodes_def used_nodes_def)
qed

lemma find_block_ok:
  assumes "chain (block_next a) b (pre @ [B]) e" and "set pre \<subseteq> set (heap a)"
    and "get_next (current_block a) a = Some stop" and "stop \<notin> set (pre @ [B])"
    and "\<And>x. x \<in> set pre \<Longrightarrow> \<not> in_block x node" and "in_block B node"
  shows "find_block node b p a = Some (Some (last (p # pre), B))"
  using assms
proof (induction pre arbitrary: b p)
  case Nil
  then show ?case by (subst find_block.simps) auto
next
  case (Cons x pre)
  have "find_block node (block_next a x) x a = Some (Some (last (x # pre), B))"
    by (rule Cons.IH) (use Cons.prems in auto)
  then show ?case using Cons.prems by (subst find_block.simps) (auto simp: get_next_def)
qed

lemma used_nodes_drop:
  assumes "us = pre @ post" and "post \<noteq> []"
  shows "used_nodes post n = drop (16 * length pre) (used_nodes us n)"
proof -
  have "16 * (length us - 1) + nat (n + 1) = 16 * length pre + (16 * (length post - 1) + nat (n + 1))"
    using assms by (cases post) simp_all
  then have "used_nodes us n = take (16 * length pre + (16 * (length post - 1) + nat (n + 1)))
      (concat (map block_nodes pre) @ concat (map block_nodes post))"
    using assms(1) by (simp only: used_nodes_def BLOCK_TRANX_NODES_def map_append concat_append)
  then show ?thesis by (simp add: used_nodes_def BLOCK_TRANX_NODES_def drop_take)
qed

lemma free_before_ok:
  assumes ok: "tranx_ok us fs a" and j: "j < length (used_nodes us (last_node a))"
    and node: "node = used_nodes us (last_node a) ! j"
  shows "\<exists>b us' fs'. free_nodes_before debug node a = Some (0, b) \<and> tranx_ok us' fs' b \<and> nodes b = nodes a \<and>
    reserved_blocks b = reserved_blocks a \<and> used_nodes us' (last_node b) = drop (16 * (j div 16)) (used_nodes us (last_node a)) \<and>
    ((us' = us \<and> fs' = fs) \<or> length (us' @ fs') \<le> max (unat (reserved_blocks a)) (length us' + 1)) \<and>
    (length (us' @ fs') = length (us @ fs) \<or> unat (reserved_blocks a) \<le> length (us' @ fs'))"
proof -
  let ?k = "j div 16"
  have "j < 16 * length us" using j by (simp add: used_nodes_def)
  then have k: "?k < length us" and nd: "node = node_addr (us ! ?k) (j mod 16)"
    using node j by (simp_all add: used_nodes_def all_nodes_nth)
  define pre B post where "pre = take ?k us" and "B = us ! ?k" and "post = drop (Suc ?k) us"
  have us: "us = pre @ B # post" and lk: "length pre = ?k"
    using k by (simp_all add: pre_def B_def post_def id_take_nth_drop)
  have ne: "us \<noteq> []" using us by simp
  have cur: "current_block a = last us" "last us \<in> set (heap a)" "block_next a (last us) = first_of fs 0"
    using ok ne by (cases us rule: rev_exhaust; auto simp: tranx_ok_def dest: chain_first)+
  have nz: "\<And>x. x \<in> set (us @ fs) \<Longrightarrow> x \<noteq> 0"
    using ok chain_nonzero [of "block_next a" "first_block a" "us @ fs" 0] unfolding tranx_ok_def by blast
  have find: "find_block node (first_block a) 0 a = Some (Some (last (0 # pre), B))"
  proof (rule find_block_ok)
    show "chain (block_next a) (first_block a) (pre @ [B]) (first_of (post @ fs) 0)"
      using ok us by (auto simp: tranx_ok_def dest: chain_first)
    show "get_next (current_block a) a = Some (first_of fs 0)" using cur by (simp add: get_next_def)
    show "first_of fs 0 \<notin> set (pre @ [B])" using ok us nz [of 0] by (cases fs) (auto simp: tranx_ok_def)
    show "in_block B node" using nd by (simp add: B_def in_block_own BLOCK_TRANX_NODES_def)
    show "\<not> in_block x node" if "x \<in> set pre" for x
    proof -
      have "x \<noteq> B" "x \<in> set (us @ fs)" "B \<in> set (us @ fs)" using ok us that by (auto simp: tranx_ok_def)
      then have "apart x B" using ok by (simp add: tranx_ok_def blocks_apart_def)
      then show ?thesis using nd by (simp add: B_def in_block_other BLOCK_TRANX_NODES_def)
    qed
  qed (use ok us in \<open>auto simp: tranx_ok_def\<close>)
  have first: "first_block a = first_of pre B" using ok us by (auto simp: tranx_ok_def dest: chain_first)
  show ?thesis
  proof (cases pre rule: rev_cases)
    case Nil
    then have "free_nodes_before debug node a = Some (0, a)" using find first by (simp add: free_nodes_before_def)
    then show ?thesis using ok Nil lk by (intro exI [of _ a] exI [of _ us] exI [of _ fs]) simp
  next
    case (snoc qs q)
    let ?l = "last (us @ fs)"
    let ?a = "a\<lparr>first_block := B, last_block := q, block_next := (block_next a)(?l := first_block a, q := 0)\<rparr>"
    have fb: "first_block a \<noteq> B" "first_block a = first_of qs q"
      using first snoc ok us by (cases qs; auto simp: tranx_ok_def)+
    have "\<exists>r. B # post @ fs = r @ [?l]" using us by (intro exI [of _ "butlast (B # post @ fs)"]) simp
    then obtain r where r: "B # post @ fs = r @ [?l]" by blast
    have heap: "set (heap a) = set (us @ fs)" and lb: "last_block a = ?l" using ok ne by (simp_all add: tranx_ok_def)
    have l: "?l \<in> set (heap a)" unfolding heap by (rule last_in_set) (simp add: ne)
    have q: "q \<in> set (heap a)" unfolding heap us snoc by simp
    have "chain (block_next a) B (r @ [?l]) 0" unfolding r [symmetric] using ok us by (simp add: tranx_ok_def)
    moreover have "distinct (qs @ q # r @ [?l])" unfolding r [symmetric] using ok us snoc by (simp add: tranx_ok_def)
    moreover have "chain (block_next a) (first_of qs q) (qs @ [q]) B" using ok us snoc fb by (simp add: tranx_ok_def)
    ultimately have "chain (block_next ?a) (first_block ?a) ((r @ [?l]) @ (qs @ [q])) 0" using fb by auto
    moreover have "(B # post) @ (fs @ pre) = (r @ [?l]) @ (qs @ [q])"
      by (simp only: snoc r [symmetric]) simp
    ultimately have "chain (block_next ?a) (first_block ?a) ((B # post) @ (fs @ pre)) 0"
      by (simp only:)
    then have "tranx_ok (B # post) (fs @ pre) ?a"
      using ok us snoc by (auto simp: tranx_ok_def blocks_apart_def)
    from free_blocks_ok [OF this] obtain b fs' where b: "free_blocks ?a = Some b" "tranx_ok (B # post) fs' b"
        "nodes b = nodes a" "last_node b = last_node a" "reserved_blocks b = reserved_blocks a"
        "length ((B # post) @ fs') \<le> unat (reserved_blocks a) \<or> length fs' \<le> 1"
        "fs' = fs @ pre \<or> unat (reserved_blocks a) \<le> length ((B # post) @ fs')" by auto
    have "free_nodes_before debug node a = Some (0, b)"
      using find fb lb l q b(1) snoc by (simp add: free_nodes_before_def set_next_def Let_def)
    then show ?thesis
      using b us lk used_nodes_drop [OF us, of "last_node a"]
      by (intro exI [of _ b] exI [of _ "B # post"] exI [of _ fs']) auto
  qed
qed

lemma destroy_loop_ok:
  "chain (block_next a) b ys 0 \<Longrightarrow> distinct ys \<Longrightarrow> distinct (heap a) \<Longrightarrow> set (heap a) = set ys \<Longrightarrow>
   \<exists>c. destroy_loop b a = Some c \<and> heap c = [] \<and> block_num c = block_num a - of_nat (length ys)"
proof (induction ys arbitrary: a b)
  case Nil
  then show ?case by (simp add: destroy_loop.simps)
next
  case (Cons y ys)
  let ?a = "a\<lparr>heap := remove1 y (heap a), block_num := block_num a - 1\<rparr>"
  have "\<exists>c. destroy_loop (block_next a y) ?a = Some c \<and> heap c = [] \<and>
      block_num c = block_num ?a - of_nat (length ys)"
    by (rule Cons.IH) (use Cons.prems in \<open>auto simp: distinct_remove1\<close>)
  moreover have "destroy_loop b a = destroy_loop (block_next a y) ?a"
    using Cons.prems by (subst destroy_loop.simps) (simp add: get_next_def free_block_def)
  ultimately show ?case by (simp add: algebra_simps)
qed

section \<open>What a client sees\<close>

text \<open>The events of an allocator: what the master does with it, and with the nodes it holds.\<close>

datatype tranx_event = Got nat | Failed | Freed_all | Freed_before nat | Wrote nat Tranx_node

inductive tranx_step :: "bool \<Rightarrow> tranx_allocator \<Rightarrow> tranx_event \<Rightarrow> tranx_allocator \<Rightarrow> bool" for debug where
  got: "malloc_ok m a \<Longrightarrow> allocate_node m a = Some (p, b) \<Longrightarrow> p \<noteq> 0 \<Longrightarrow> tranx_step debug a (Got p) b"
| failed: "malloc_ok m a \<Longrightarrow> allocate_node m a = Some (0, b) \<Longrightarrow> tranx_step debug a Failed b"
| freed_all: "free_all_nodes a = Some (r, b) \<Longrightarrow> tranx_step debug a Freed_all b"
| freed_before: "p \<in> set (live_nodes a) \<Longrightarrow> free_nodes_before debug p a = Some (r, b) \<Longrightarrow>
    tranx_step debug a (Freed_before p) b"
| wrote: "p \<in> set (live_nodes a) \<Longrightarrow> tranx_step debug a (Wrote p n) (a\<lparr>nodes := (nodes a)(p := n)\<rparr>)"

inductive_cases tranx_stepE: "tranx_step debug a e b"

definition tranx_init :: "32 word \<Rightarrow> tranx_allocator \<Rightarrow> bool" where
  "tranx_init reserved_nodes a \<longleftrightarrow> (\<exists>nx ns. a = Tranx_node_allocator_new nx ns reserved_nodes)"

definition tranx_inv :: "32 word \<Rightarrow> tranx_allocator \<Rightarrow> bool" where
  "tranx_inv reserved_nodes a \<longleftrightarrow> (\<exists>us fs. tranx_ok us fs a \<and>
     length (us @ fs) \<le> max (unat (reserved_blocks a)) (length us + 1)) \<and>
     unat reserved_nodes \<le> 16 * unat (reserved_blocks a)"

text \<open>The same events on a queue of nodes with their contents.\<close>

inductive queue_step :: "(nat \<times> Tranx_node) list \<Rightarrow> tranx_event \<Rightarrow> (nat \<times> Tranx_node) list \<Rightarrow> bool" where
  "p \<notin> fst ` set q \<Longrightarrow> queue_step q (Got p) (q @ [(p, clear_node n)])"
| "queue_step q Failed q"
| "queue_step q Freed_all []"
| "j < length q \<Longrightarrow> fst (q ! j) = p \<Longrightarrow> queue_step q (Freed_before p) (drop (16 * (j div 16)) q)"
| "queue_step q (Wrote p n) (map (\<lambda>(x, v). (x, if x = p then n else v)) q)"

definition live_view :: "tranx_allocator \<Rightarrow> (nat \<times> Tranx_node) list" where
  "live_view a = map (\<lambda>p. (p, nodes a p)) (live_nodes a)"

lemma live_distinct: "tranx_ok us fs a \<Longrightarrow> distinct (live_nodes a)"
proof -
  assume ok: "tranx_ok us fs a"
  then have "blocks_apart us" by (auto simp: tranx_ok_def elim!: blocks_apart_mono)
  then have "distinct (concat (map block_nodes us))"
    using ok all_nodes_distinct [of us] by (simp add: tranx_ok_def)
  then show ?thesis using live_nodes_eq [OF ok] by (simp add: used_nodes_def distinct_take)
qed

lemma live_length: "tranx_ok us fs a \<Longrightarrow> us \<noteq> [] \<Longrightarrow> length (live_nodes a) = 16 * (length us - 1) + nat (last_node a + 1)"
  using live_nodes_eq [of us fs a]
  by (cases us) (auto simp: used_nodes_def BLOCK_TRANX_NODES_def tranx_ok_def)

lemma reserve_enough: "unat n \<le> 16 * unat (reserved_blocks (Tranx_node_allocator_new nx ns n))"
proof -
  have n: "unat n < 2 ^ 32" using unsigned_less [of n] by simp
  have d: "unat (n div 16) = unat n div 16" "unat (n mod 16) = unat n mod 16"
    by (simp_all add: unat_div_distrib unat_mod_distrib)
  have "unat (n div 16 + 2) = unat n div 16 + 2" "unat (n div 16 + 1) = unat n div 16 + 1"
    using n by (simp_all add: unat_plus_if' d)
  moreover have "n mod 16 > 1 \<longleftrightarrow> unat n mod 16 > 1" using d by (simp add: word_less_nat_alt)
  moreover have "x \<le> 16 + 16 * (x div 16)" for x :: nat by presburger
  moreover from this [of "unat n"] have "unat n \<le> 32 + 16 * (unat n div 16)" by linarith
  ultimately show ?thesis
    by (simp add: Tranx_node_allocator_new_def BLOCK_TRANX_NODES_def)
qed

lemma tranx_init_inv: "tranx_init r a \<Longrightarrow> tranx_inv r a"
  using reserve_enough [of r]
  by (auto simp: tranx_init_def tranx_inv_def tranx_ok_def Tranx_node_allocator_new_def blocks_apart_def
    intro!: exI [of _ "[]"])

lemma nodes_ok: "tranx_ok us fs a \<Longrightarrow> tranx_ok us fs (a\<lparr>nodes := ns\<rparr>)"
  by (simp add: tranx_ok_def)

text \<open>One step keeps the invariant and is the step of the queue.\<close>

lemma view_eq: "tranx_ok us fs a \<Longrightarrow> live_view a = map (\<lambda>p. (p, nodes a p)) (used_nodes us (last_node a))"
  by (simp add: live_view_def live_nodes_eq)

lemma tranx_step_ok:
  assumes inv: "tranx_inv r a" and step: "tranx_step debug a e b"
  shows "tranx_inv r b \<and> queue_step (live_view a) e (live_view b) \<and>
    min (length (heap a)) (unat (reserved_blocks a)) \<le> length (heap b)"
proof -
  obtain us fs where ok: "tranx_ok us fs a" and len: "length (us @ fs) \<le> max (unat (reserved_blocks a)) (length us + 1)"
    and r: "unat r \<le> 16 * unat (reserved_blocks a)" using inv by (auto simp: tranx_inv_def)
  have keep: "tranx_inv r b \<and> queue_step (live_view a) e (live_view b) \<and>
      min (length (heap a)) (unat (reserved_blocks a)) \<le> length (heap b)"
    if "tranx_ok us' fs' b" "reserved_blocks b = reserved_blocks a"
      "length (us' @ fs') \<le> max (unat (reserved_blocks a)) (length us' + 1)"
      "length (us @ fs) \<le> length (us' @ fs') \<or> unat (reserved_blocks a) \<le> length (us' @ fs')"
      "queue_step (live_view a) e (live_view b)" for us' fs'
    using that r heap_length [OF ok] heap_length [OF that(1)] unfolding tranx_inv_def by auto
  show ?thesis
    using step
  proof cases
    case (got m p)
    from allocate_node_ok [OF ok got(2)] got(3,4) obtain us' fs' where b: "tranx_ok us' fs' b"
        "reserved_blocks b = reserved_blocks a" "length us \<le> length us'" "length (us @ fs) \<le> length (us' @ fs')"
        "length (us' @ fs') = length (us @ fs) \<or> fs' = []"
        "used_nodes us' (last_node b) = used_nodes us (last_node a) @ [p]"
        "nodes b = (nodes a)(p := clear_node (nodes a p))"
      by (auto split: if_splits)
    have p: "p \<notin> set (used_nodes us (last_node a))"
      using live_distinct [OF b(1)] live_nodes_eq [OF b(1)] b(6) by simp
    then have "live_view b = live_view a @ [(p, clear_node (nodes a p))]"
      using view_eq [OF ok] view_eq [OF b(1)] b(6,7) by auto
    moreover have "p \<notin> fst ` set (live_view a)" using p view_eq [OF ok] by force
    ultimately have "queue_step (live_view a) e (live_view b)" using got(1) by (simp add: queue_step.intros)
    then show ?thesis using b len by (intro keep [of us' fs']) auto
  next
    case (failed m)
    have "b = a" using allocate_node_ok [OF ok failed(2)] failed(3) node_addr_pos(3)
      by (auto split: if_splits simp del: node_addr_pos)
    then show ?thesis using inv failed(1) by (simp add: queue_step.intros)
  next
    case (freed_all x)
    from free_all_ok [OF ok] freed_all(2) obtain us' fs' where b: "tranx_ok us' fs' b"
        "reserved_blocks b = reserved_blocks a" "used_nodes us' (last_node b) = []"
        "length (us' @ fs') \<le> max (unat (reserved_blocks a)) (length us' + 1)"
        "length (us' @ fs') = length (us @ fs) \<or> unat (reserved_blocks a) \<le> length (us' @ fs')" by auto
    then have "queue_step (live_view a) e (live_view b)"
      using view_eq [OF b(1)] freed_all(1) by (simp add: queue_step.intros)
    then show ?thesis using b by (intro keep [of us' fs']) auto
  next
    case (freed_before p x)
    then have "p \<in> set (used_nodes us (last_node a))" using live_nodes_eq [OF ok] by simp
    then obtain j where j: "j < length (used_nodes us (last_node a))" "p = used_nodes us (last_node a) ! j"
      by (metis in_set_conv_nth)
    from free_before_ok [OF ok j, of debug] freed_before(3) obtain us' fs' where b: "tranx_ok us' fs' b"
        "nodes b = nodes a" "reserved_blocks b = reserved_blocks a"
        "used_nodes us' (last_node b) = drop (16 * (j div 16)) (used_nodes us (last_node a))"
        "(us' = us \<and> fs' = fs) \<or> length (us' @ fs') \<le> max (unat (reserved_blocks a)) (length us' + 1)"
        "length (us' @ fs') = length (us @ fs) \<or> unat (reserved_blocks a) \<le> length (us' @ fs')" by auto
    then have "live_view b = drop (16 * (j div 16)) (live_view a)"
      using view_eq [OF ok] view_eq [OF b(1)] by (simp add: drop_map)
    moreover have "j < length (live_view a)" "fst (live_view a ! j) = p" using j view_eq [OF ok] by simp_all
    ultimately have "queue_step (live_view a) e (live_view b)"
      using freed_before(1) queue_step.intros(4) [of j "live_view a" p] by simp
    then show ?thesis using b len by (intro keep [of us' fs']) auto
  next
    case (wrote p n)
    have b: "tranx_ok us fs b" using nodes_ok [OF ok] wrote(2) by simp
    have "live_view b = map (\<lambda>(x, v). (x, if x = p then n else v)) (live_view a)"
      using view_eq [OF ok] view_eq [OF b] wrote(2) by simp
    then have "queue_step (live_view a) e (live_view b)"
      using wrote(1) queue_step.intros(5) [of "live_view a" p n] by simp
    then show ?thesis using b len wrote(2) by (intro keep [of us fs]) auto
  qed
qed

definition tranx_next :: "bool \<Rightarrow> tranx_allocator \<Rightarrow> tranx_allocator \<Rightarrow> bool" where
  "tranx_next debug a b \<longleftrightarrow> (\<exists>e. tranx_step debug a e b)"

interpretation tranx: transition_system "tranx_init r" "tranx_next debug" "tranx_inv r"
  by unfold_locales (auto simp: tranx_init_inv tranx_next_def dest: tranx_step_ok)

lemma live_blocks_bound:
  assumes "tranx_ok us fs a"
  shows "length us \<le> length (live_nodes a) div 16 + 1"
proof (cases "us = []")
  case False
  then have "16 * (length us - 1) \<le> length (live_nodes a)" using live_length [OF assms] by simp
  then show ?thesis by linarith
qed simp

section \<open>Properties\<close>

text \<open>C23. Whatever the events before, and whether \<open>my_malloc\<close> fails or not, no operation uses a pointer that is
  NULL or to a freed block, and no assertion fails: a node is given unless \<open>my_malloc\<close> fails, freeing all
  nodes or those before a node in use succeeds, and the destructor frees every block once.\<close>

theorem tranx_never_faults:
  assumes "reach (tranx_init r) (tranx_next debug) a"
  shows "(\<forall>m. malloc_ok m a \<longrightarrow> (\<exists>p b. allocate_node m a = Some (p, b) \<and> (p = 0 \<longrightarrow> m = 0))) \<and>
    (\<exists>b. free_all_nodes a = Some (0, b)) \<and>
    (\<forall>p\<in>set (live_nodes a). \<exists>b. free_nodes_before debug p a = Some (0, b)) \<and>
    (\<exists>b. Tranx_node_allocator_destroy a = Some b \<and> heap b = [] \<and> block_num b = 0)"
proof -
  obtain us fs where ok: "tranx_ok us fs a" using tranx.reach_inv [OF assms] by (auto simp: tranx_inv_def)
  have "\<exists>p b. allocate_node m a = Some (p, b) \<and> (p = 0 \<longrightarrow> m = 0)" if m: "malloc_ok m a" for m
  proof -
    obtain p b where "allocate_node m a = Some (p, b)"
        "m = 0 \<or> p = node_addr (current_block b) (nat (last_node b))"
      using allocate_node_ok [OF ok m] by (auto split: if_splits)
    then show ?thesis by auto
  qed
  moreover have "\<exists>b. free_nodes_before debug p a = Some (0, b)" if "p \<in> set (live_nodes a)" for p
    using that free_before_ok [OF ok, of _ p debug] live_nodes_eq [OF ok] by (auto simp: in_set_conv_nth)
  moreover have "\<exists>b. Tranx_node_allocator_destroy a = Some b \<and> heap b = [] \<and> block_num b = 0"
    using destroy_loop_ok [of a "first_block a" "us @ fs"] ok
    by (auto simp: Tranx_node_allocator_destroy_def tranx_ok_def)
  ultimately show ?thesis using free_all_ok [OF ok] by auto
qed

definition tranx_empty :: tranx_allocator where
  "tranx_empty = Tranx_node_allocator_new (\<lambda>b. 0)
     (\<lambda>p. \<lparr>log_name = replicate 4 CHR ''x'', log_pos = 7, thd = 0, node_next = 9, hash_next = 9\<rparr>) 20"

lemma tranx_empty_reach: "reach (tranx_init 20) (tranx_next debug) tranx_empty"
  by (rule reach_init) (auto simp: tranx_init_def tranx_empty_def)

lemma tranx_empty_step:
  "malloc_ok 4096 tranx_empty \<and> (\<exists>b. allocate_node 4096 tranx_empty = Some (4104, b) \<and> heap b = [4096])"
  by (simp add: malloc_ok_def tranx_empty_def Tranx_node_allocator_new_def allocate_node_def allocate_block_def
    set_next_def layout_defs Let_def)

lemma tranx_never_faults_witness:
  "(\<exists>p b. allocate_node 4096 tranx_empty = Some (p, b) \<and> p \<noteq> 0) \<and>
   (\<exists>b. Tranx_node_allocator_destroy tranx_empty = Some b \<and> heap b = [])"
  using tranx_never_faults [OF tranx_empty_reach, of False] tranx_empty_step by force



text \<open>C25. The reserved blocks hold the reserved nodes; the blocks kept are counted, and are never more than the
  larger of the reserved blocks and two more than the nodes in use fill; and freeing never goes below
  the reserved blocks.\<close>

theorem tranx_memory_bounds:
  assumes "reach (tranx_init r) (tranx_next debug) a" and "tranx_step debug a e b"
  shows "unat r \<le> 16 * unat (reserved_blocks a) \<and> block_num a = of_nat (length (heap a)) \<and>
    length (heap a) \<le> max (unat (reserved_blocks a)) (length (live_nodes a) div 16 + 2) \<and>
    min (length (heap a)) (unat (reserved_blocks a)) \<le> length (heap b)"
proof -
  have inv: "tranx_inv r a" by (rule tranx.reach_inv [OF assms(1)])
  then obtain us fs where ok: "tranx_ok us fs a" "length (us @ fs) \<le> max (unat (reserved_blocks a)) (length us + 1)"
      "unat r \<le> 16 * unat (reserved_blocks a)" by (auto simp: tranx_inv_def)
  then show ?thesis
    using tranx_step_ok [OF inv assms(2)] heap_length [OF ok(1)] live_blocks_bound [OF ok(1)]
    by (auto simp: tranx_ok_def)
qed

lemma tranx_memory_bounds_witness:
  "unat (20 :: 32 word) \<le> 16 * unat (reserved_blocks tranx_empty) \<and>
   (\<exists>b. tranx_step True tranx_empty (Got 4104) b \<and> heap b = [4096])"
proof -
  obtain b where b: "allocate_node 4096 tranx_empty = Some (4104, b)" "heap b = [4096]"
    using tranx_empty_step by blast
  then have s: "tranx_step True tranx_empty (Got 4104) b" using tranx_empty_step by (auto intro: tranx_step.intros)
  from tranx_memory_bounds [OF tranx_empty_reach s] s b(2) show ?thesis by blast
qed

end
