(* ===== verification/Binary_String.thy ===== *)
theory Binary_String
  imports Prelude "HOL-Library.Word" "HOL-Library.Multiset"
begin

text \<open>
  \<open>Binary_string\<close> of \<open>private/sql_string.h\<close>: a string with its length, the length of its buffer and
  whether it owns the buffer. Memory is a set of blocks; a pointer is a block and an offset, block 0 is
  NULL. An access outside a block or to a freed one, and freeing what \<open>my_malloc\<close> did not give, is None; so is a
  failing assertion when \<open>debug\<close> says that the build has them. \<open>realloc_raw\<close> and \<open>real_alloc\<close>, declared in the
  header, are parameters.
\<close>

unbundle bit_operations_syntax

section \<open>Memory\<close>

type_synonym byte = "8 word"
type_synonym cptr = "nat \<times> nat"

datatype region = Malloced (bytes: "byte list") | Foreign (bytes: "byte list")

type_synonym cmem = "nat \<Rightarrow> region option"

definition NULL :: cptr where "NULL = (0, 0)"

definition padd :: "cptr \<Rightarrow> nat \<Rightarrow> cptr" where "padd p n = (fst p, snd p + n)"

definition load_n :: "cmem \<Rightarrow> cptr \<Rightarrow> nat \<Rightarrow> byte list option" where
  "load_n m p n = (case m (fst p) of
     None \<Rightarrow> None
   | Some r \<Rightarrow> if snd p + n \<le> length (bytes r) then Some (take n (drop (snd p) (bytes r))) else None)"

fun put_bytes :: "byte list \<Rightarrow> region \<Rightarrow> region" where
  "put_bytes bs (Malloced _) = Malloced bs"
| "put_bytes bs (Foreign _) = Foreign bs"

definition store_n :: "cmem \<Rightarrow> cptr \<Rightarrow> byte list \<Rightarrow> cmem option" where
  "store_n m p d = (case m (fst p) of
     None \<Rightarrow> None
   | Some r \<Rightarrow> if snd p + length d \<le> length (bytes r)
       then Some (m(fst p := Some (put_bytes
         (take (snd p) (bytes r) @ d @ drop (snd p + length d) (bytes r)) r)))
       else None)"

definition my_free :: "cmem \<Rightarrow> cptr \<Rightarrow> cmem option" where
  "my_free m p =
     (if p = NULL then Some m
      else case m (fst p) of
        Some (Malloced _) \<Rightarrow> if snd p = 0 then Some (m(fst p := None)) else None
      | _ \<Rightarrow> None)"

section \<open>Binary\_string\<close>

record binary_string =
  Ptr :: cptr
  str_length :: "32 word"
  Alloced_length :: "32 word"
  extra_alloc :: "32 word"
  alloced :: bool
  thread_specific :: bool

type_synonym realloc_fun = "64 word \<Rightarrow> binary_string \<Rightarrow> cmem \<Rightarrow> bool \<times> binary_string \<times> cmem"

definition UINT_MAX32 :: "64 word" where "UINT_MAX32 = 0xFFFFFFFF"

definition ASSERT_LENGTH :: "bool \<Rightarrow> 64 word \<Rightarrow> binary_string \<Rightarrow> bool" where
  "ASSERT_LENGTH debug A s \<longleftrightarrow> (debug \<longrightarrow> str_length s + ucast A \<le> Alloced_length s)"

definition bs_init_private_data :: binary_string where
  "bs_init_private_data = \<lparr>Ptr = NULL, str_length = 0, Alloced_length = 0, extra_alloc = 0,
     alloced = False, thread_specific = False\<rparr>"

definition bs_free_buffer :: "binary_string \<Rightarrow> cmem \<Rightarrow> (binary_string \<times> cmem) option" where
  "bs_free_buffer s m =
     (if alloced s then
        (let s = s\<lparr>alloced := False\<rparr> in do { m \<leftarrow> my_free m (Ptr s); Some (s, m) })
      else Some (s, m))"

subsection \<open>Constructors\<close>

definition bs_new :: binary_string where
  "bs_new = bs_init_private_data"

definition bs_new_length :: "realloc_fun \<Rightarrow> 64 word \<Rightarrow> cmem \<Rightarrow> binary_string \<times> cmem" where
  "bs_new_length real_alloc length_arg m = snd (real_alloc length_arg bs_init_private_data m)"

definition bs_new_const :: "cptr \<Rightarrow> 64 word \<Rightarrow> binary_string" where
  "bs_new_const str len = \<lparr>Ptr = str, str_length = ucast len, Alloced_length = 0, extra_alloc = 0,
     alloced = False, thread_specific = False\<rparr>"

definition bs_new_buffer :: "cptr \<Rightarrow> 64 word \<Rightarrow> binary_string" where
  "bs_new_buffer str len = \<lparr>Ptr = str, str_length = ucast len, Alloced_length = ucast len, extra_alloc = 0,
     alloced = False, thread_specific = False\<rparr>"

definition bs_new_copy :: "binary_string \<Rightarrow> binary_string" where
  "bs_new_copy str = \<lparr>Ptr = Ptr str, str_length = str_length str, Alloced_length = Alloced_length str,
     extra_alloc = 0, alloced = False, thread_specific = False\<rparr>"

definition bs_free :: "binary_string \<Rightarrow> cmem \<Rightarrow> (binary_string \<times> cmem) option" where
  "bs_free s m = do {
     (s, m) \<leftarrow> bs_free_buffer s m;
     let s = s\<lparr>Ptr := NULL\<rparr>;
     let s = s\<lparr>str_length := 0\<rparr>;
     Some (s\<lparr>Alloced_length := 0, extra_alloc := 0\<rparr>, m) }"

definition bs_destroy :: "binary_string \<Rightarrow> cmem \<Rightarrow> cmem option" where
  "bs_destroy s m = do { (s, m) \<leftarrow> bs_free s m; Some m }"

subsection \<open>Reading\<close>

definition bs_is_empty :: "binary_string \<Rightarrow> bool" where
  "bs_is_empty s \<longleftrightarrow> str_length s = 0"

definition bs_end :: "binary_string \<Rightarrow> cptr" where
  "bs_end s = padd (Ptr s) (unat (str_length s))"

definition bs_nth :: "nat \<Rightarrow> binary_string \<Rightarrow> cmem \<Rightarrow> byte option" where
  "bs_nth i s m = map_option hd (load_n m (padd (Ptr s) i) 1)"

definition my_isascii :: "byte \<Rightarrow> bool" where
  "my_isascii c \<longleftrightarrow> c AND 0x80 = 0"

function has_8bit_loop :: "cptr \<Rightarrow> cptr \<Rightarrow> cmem \<Rightarrow> bool option" where
  "has_8bit_loop c c_end m =
     (if snd c < snd c_end then
        (case load_n m c 1 of None \<Rightarrow> None
         | Some d \<Rightarrow> if \<not> my_isascii (hd d) then Some True else has_8bit_loop (padd c 1) c_end m)
      else Some False)"
  by auto

termination has_8bit_loop
  by (relation "measure (\<lambda>(c, c_end, m). snd c_end - snd c)") (auto simp: padd_def)

declare has_8bit_loop.simps [simp del]

definition bs_has_8bit_bytes :: "binary_string \<Rightarrow> cmem \<Rightarrow> bool option" where
  "bs_has_8bit_bytes s m = has_8bit_loop (Ptr s) (bs_end s) m"

definition bs_bin_eq :: "binary_string \<Rightarrow> binary_string \<Rightarrow> cmem \<Rightarrow> bool option" where
  "bs_bin_eq s other m =
     (if str_length s = str_length other then
        (if str_length s = 0 then Some True
         else do {
           a \<leftarrow> load_n m (Ptr s) (unat (str_length s));
           b \<leftarrow> load_n m (Ptr other) (unat (str_length s));
           Some (a = b) })
      else Some False)"

definition bs_uses_buffer_owned_by :: "binary_string \<Rightarrow> binary_string \<Rightarrow> bool" where
  "bs_uses_buffer_owned_by t s \<longleftrightarrow> alloced s \<and> fst (Ptr t) = fst (Ptr s) \<and>
     snd (Ptr t) \<ge> snd (Ptr s) \<and> snd (Ptr t) < snd (Ptr s) + unat (Alloced_length s)"

subsection \<open>Appending to a buffer that is large enough\<close>

definition store_next :: "byte list \<Rightarrow> binary_string \<Rightarrow> cmem \<Rightarrow> (binary_string \<times> cmem) option" where
  "store_next d s m = do {
     m \<leftarrow> store_n m (padd (Ptr s) (unat (str_length s))) d;
     Some (s\<lparr>str_length := str_length s + of_nat (length d)\<rparr>, m) }"

definition q_append_char :: "bool \<Rightarrow> byte \<Rightarrow> binary_string \<Rightarrow> cmem \<Rightarrow> (binary_string \<times> cmem) option" where
  "q_append_char debug c s m = (if ASSERT_LENGTH debug 1 s then store_next [c] s m else None)"

definition q_append2b :: "bool \<Rightarrow> 32 word \<Rightarrow> binary_string \<Rightarrow> cmem \<Rightarrow> (binary_string \<times> cmem) option" where
  "q_append2b debug n s m =
     (if ASSERT_LENGTH debug 2 s then store_next [ucast n, ucast (drop_bit 8 n)] s m else None)"

definition int4bytes :: "32 word \<Rightarrow> byte list" where
  "int4bytes n = [ucast n, ucast (drop_bit 8 n), ucast (drop_bit 16 n), ucast (drop_bit 24 n)]"

definition q_append4 :: "bool \<Rightarrow> 32 word \<Rightarrow> binary_string \<Rightarrow> cmem \<Rightarrow> (binary_string \<times> cmem) option" where
  "q_append4 debug n s m = (if ASSERT_LENGTH debug 4 s then store_next (int4bytes n) s m else None)"

definition q_append :: "bool \<Rightarrow> cptr \<Rightarrow> 64 word \<Rightarrow> binary_string \<Rightarrow> cmem \<Rightarrow> (binary_string \<times> cmem) option" where
  "q_append debug data data_len s m =
     (if ASSERT_LENGTH debug data_len s then do {
        m \<leftarrow> (if data_len \<noteq> 0 then do {
               d \<leftarrow> load_n m data (unat data_len);
               store_n m (padd (Ptr s) (unat (str_length s))) d
             } else Some m);
        if debug \<and> \<not> ucast (str_length s) \<le> UINT_MAX32 - data_len then None
        else Some (s\<lparr>str_length := str_length s + ucast data_len\<rparr>, m)
      } else None)"

definition q_append_double :: "bool \<Rightarrow> byte list \<Rightarrow> binary_string \<Rightarrow> cmem \<Rightarrow> (binary_string \<times> cmem) option" where
  "q_append_double debug d s m = (if ASSERT_LENGTH debug 8 s then store_next d s m else None)"

definition q_append_wc :: "(64 word \<Rightarrow> int \<times> byte list) \<Rightarrow> 64 word \<Rightarrow> binary_string \<Rightarrow> cmem \<Rightarrow>
    (int \<times> binary_string \<times> cmem) option" where
  "q_append_wc wc_mb wc s m =
     (case wc_mb wc of (mblen, d) \<Rightarrow>
        do {
          m \<leftarrow> store_n m (bs_end s) d;
          Some (mblen, if mblen > 0 then s\<lparr>str_length := str_length s + of_int mblen\<rparr> else s, m) })"

definition write_at_position :: "bool \<Rightarrow> 32 word \<Rightarrow> 32 word \<Rightarrow> binary_string \<Rightarrow> cmem \<Rightarrow> cmem option" where
  "write_at_position debug position v s m =
     (if debug \<and> \<not> str_length s \<ge> position + 4 then None
      else store_n m (padd (Ptr s) (unat position)) (int4bytes v))"

definition qs_append_char :: "bool \<Rightarrow> byte \<Rightarrow> binary_string \<Rightarrow> cmem \<Rightarrow> (binary_string \<times> cmem) option" where
  "qs_append_char debug c s m = (if ASSERT_LENGTH debug 1 s then store_next [c] s m else None)"

definition qs_append_radix ::
  "bool \<Rightarrow> (64 word \<Rightarrow> int \<Rightarrow> byte list) \<Rightarrow> 64 word \<Rightarrow> int \<Rightarrow> binary_string \<Rightarrow> cmem \<Rightarrow> (binary_string \<times> cmem) option" where
  "qs_append_radix debug ll2str i radix s m =
     (if ASSERT_LENGTH debug 22 s then do {
        m \<leftarrow> store_n m (bs_end s) (ll2str i radix @ [0]);
        Some (s\<lparr>str_length := str_length s + of_nat (length (ll2str i radix))\<rparr>, m)
      } else None)"

text \<open>\<open>chop\<close>: with assertions, \<open>strlen(Ptr)\<close> has to be the new length.\<close>

definition bs_chop :: "bool \<Rightarrow> binary_string \<Rightarrow> cmem \<Rightarrow> (binary_string \<times> cmem) option" where
  "bs_chop debug s m =
     (if str_length s \<noteq> 0 then
        (let s = s\<lparr>str_length := str_length s - 1\<rparr> in do {
          m \<leftarrow> store_n m (padd (Ptr s) (unat (str_length s))) [0];
          d \<leftarrow> load_n m (Ptr s) (unat (str_length s));
          if debug \<and> 0 \<in> set d then None else Some (s, m) })
      else Some (s, m))"

subsection \<open>Buffers and their owners\<close>

definition set_thread_specific :: "binary_string \<Rightarrow> binary_string" where
  "set_thread_specific s = (if \<not> alloced s then s\<lparr>thread_specific := True\<rparr> else s)"

definition extra_allocation :: "64 word \<Rightarrow> binary_string \<Rightarrow> binary_string" where
  "extra_allocation len s = s\<lparr>extra_alloc := ucast len\<rparr>"

definition mark_as_const :: "binary_string \<Rightarrow> binary_string" where
  "mark_as_const s = s\<lparr>Alloced_length := 0\<rparr>"

definition bs_set_length :: "64 word \<Rightarrow> binary_string \<Rightarrow> binary_string" where
  "bs_set_length len s = s\<lparr>str_length := ucast len\<rparr>"

definition bs_swap :: "binary_string \<Rightarrow> binary_string \<Rightarrow> binary_string \<times> binary_string" where
  "bs_swap t s =
     (t\<lparr>Ptr := Ptr s, str_length := str_length s, Alloced_length := Alloced_length s, alloced := alloced s\<rparr>,
      s\<lparr>Ptr := Ptr t, str_length := str_length t, Alloced_length := Alloced_length t, alloced := alloced t\<rparr>)"

definition bs_set_alloced ::
  "bool \<Rightarrow> cptr \<Rightarrow> 64 word \<Rightarrow> 64 word \<Rightarrow> binary_string \<Rightarrow> cmem \<Rightarrow> (binary_string \<times> cmem) option" where
  "bs_set_alloced debug str len alloced_len s m = do {
     (s, m) \<leftarrow> bs_free_buffer s m;
     let s = s\<lparr>Ptr := str\<rparr>;
     let s = s\<lparr>str_length := ucast len\<rparr>;
     if debug \<and> \<not> alloced_len < UINT_MAX32 then None
     else Some (s\<lparr>Alloced_length := ucast alloced_len\<rparr>, m) }"

definition bs_set :: "bool \<Rightarrow> cptr \<Rightarrow> 64 word \<Rightarrow> binary_string \<Rightarrow> cmem \<Rightarrow> (binary_string \<times> cmem) option" where
  "bs_set debug str arg_length s m = bs_set_alloced debug str arg_length arg_length s m"

definition bs_set_const :: "cptr \<Rightarrow> 64 word \<Rightarrow> binary_string \<Rightarrow> cmem \<Rightarrow> (binary_string \<times> cmem) option" where
  "bs_set_const str len s m = do {
     (s, m) \<leftarrow> bs_free_buffer s m;
     let s = s\<lparr>Ptr := str\<rparr>;
     let s = s\<lparr>str_length := ucast len\<rparr>;
     Some (s\<lparr>Alloced_length := 0\<rparr>, m) }"

definition bs_set_part ::
  "binary_string \<Rightarrow> 64 word \<Rightarrow> 64 word \<Rightarrow> binary_string \<Rightarrow> cmem \<Rightarrow> (binary_string \<times> cmem) option" where
  "bs_set_part str offset len s m = do {
     (s, m) \<leftarrow> bs_free_buffer s m;
     let s = s\<lparr>Ptr := padd (Ptr str) (unat offset)\<rparr>;
     let s = s\<lparr>str_length := ucast len\<rparr>;
     let s = s\<lparr>Alloced_length := 0\<rparr>;
     Some (if Alloced_length str \<noteq> 0
       then s\<lparr>Alloced_length := ucast (ucast (Alloced_length str) - offset)\<rparr> else s, m) }"

definition bs_reset ::
  "bool \<Rightarrow> cptr \<Rightarrow> 64 word \<Rightarrow> 64 word \<Rightarrow> binary_string \<Rightarrow> cmem \<Rightarrow> (binary_string \<times> cmem) option" where
  "bs_reset debug ptr_arg length_arg alloced_length_arg s m = do {
     (s, m) \<leftarrow> bs_set_alloced debug ptr_arg length_arg alloced_length_arg s m;
     Some (s\<lparr>alloced := ptr_arg \<noteq> NULL\<rparr>, m) }"

definition bs_release :: "binary_string \<Rightarrow> cptr \<times> binary_string" where
  "bs_release s = (let old = Ptr s in (old, bs_init_private_data))"

definition set_buffer_if_not_allocated :: "cptr \<Rightarrow> 64 word \<Rightarrow> binary_string \<Rightarrow> binary_string" where
  "set_buffer_if_not_allocated str arg_length s =
     (if \<not> alloced s then s\<lparr>Ptr := str, Alloced_length := ucast arg_length, str_length := ucast arg_length\<rparr>
      else s)"

definition bs_assign :: "bool \<Rightarrow> binary_string \<Rightarrow> binary_string \<Rightarrow> cmem \<Rightarrow> (binary_string \<times> cmem) option" where
  "bs_assign debug s t m =
     (if debug \<and> bs_uses_buffer_owned_by s t then None
      else bs_set_alloced debug (Ptr s) (ucast (str_length s)) (ucast (Alloced_length s)) t m)"

definition bs_move :: "bool \<Rightarrow> binary_string \<Rightarrow> binary_string \<Rightarrow> cmem \<Rightarrow>
    (binary_string \<times> binary_string \<times> cmem) option" where
  "bs_move debug s t m = do {
     (t, m) \<leftarrow> bs_set_alloced debug (Ptr s) (ucast (str_length s)) (ucast (Alloced_length s)) t m;
     let t = t\<lparr>extra_alloc := extra_alloc s\<rparr>;
     let t = t\<lparr>alloced := alloced s\<rparr>;
     let t = t\<lparr>thread_specific := thread_specific s\<rparr>;
     Some (s\<lparr>alloced := False\<rparr>, t, m) }"

subsection \<open>Growing\<close>

definition bs_realloc :: "realloc_fun \<Rightarrow> 64 word \<Rightarrow> binary_string \<Rightarrow> cmem \<Rightarrow> (bool \<times> binary_string \<times> cmem) option" where
  "bs_realloc realloc_raw arg_length s m =
     (case realloc_raw (arg_length + 1) s m of (failed, s, m) \<Rightarrow>
        if failed then Some (True, s, m)
        else do { m \<leftarrow> store_n m (padd (Ptr s) (unat arg_length)) [0]; Some (False, s, m) })"

definition realloc_with_extra ::
  "realloc_fun \<Rightarrow> 64 word \<Rightarrow> binary_string \<Rightarrow> cmem \<Rightarrow> (bool \<times> binary_string \<times> cmem) option" where
  "realloc_with_extra realloc_raw arg_length s m =
     (let s = (if extra_alloc s < 4096 then s\<lparr>extra_alloc := extra_alloc s * 2 + 128\<rparr> else s)
      in case realloc_raw (arg_length + ucast (extra_alloc s)) s m of (failed, s, m) \<Rightarrow>
        if failed then Some (True, s, m)
        else do { m \<leftarrow> store_n m (padd (Ptr s) (unat arg_length)) [0]; Some (False, s, m) })"

definition realloc_with_extra_if_needed ::
  "realloc_fun \<Rightarrow> 64 word \<Rightarrow> binary_string \<Rightarrow> cmem \<Rightarrow> (bool \<times> binary_string \<times> cmem) option" where
  "realloc_with_extra_if_needed realloc_raw arg_length s m =
     (if arg_length < ucast (Alloced_length s) then
        do { m \<leftarrow> store_n m (padd (Ptr s) (unat arg_length)) [0]; Some (False, s, m) }
      else realloc_with_extra realloc_raw arg_length s m)"

definition bs_alloc :: "realloc_fun \<Rightarrow> 64 word \<Rightarrow> binary_string \<Rightarrow> cmem \<Rightarrow> bool \<times> binary_string \<times> cmem" where
  "bs_alloc real_alloc arg_length s m =
     (if arg_length \<le> ucast (Alloced_length s) \<and> Alloced_length s \<noteq> 0 then (False, s, m)
      else real_alloc arg_length s m)"

definition bs_reserve ::
  "bool \<Rightarrow> realloc_fun \<Rightarrow> 64 word \<Rightarrow> binary_string \<Rightarrow> cmem \<Rightarrow> (bool \<times> binary_string \<times> cmem) option" where
  "bs_reserve debug realloc_raw space_needed s m =
     (if debug \<and> \<not> ucast (str_length s) + space_needed < UINT_MAX32 then None
      else bs_realloc realloc_raw (ucast (str_length s) + space_needed) s m)"

definition bs_append ::
  "bool \<Rightarrow> realloc_fun \<Rightarrow> cptr \<Rightarrow> 64 word \<Rightarrow> binary_string \<Rightarrow> cmem \<Rightarrow> (bool \<times> binary_string \<times> cmem) option" where
  "bs_append debug realloc_raw data n s m =
     (if n = 0 then Some (False, s, m)
      else do {
        (failed, s, m) \<leftarrow> realloc_with_extra_if_needed realloc_raw (ucast (str_length s) + n) s m;
        if failed then Some (True, s, m)
        else do { (s, m) \<leftarrow> q_append debug data n s m; Some (False, s, m) } })"

text \<open>\<open>append(const Binary_string &)\<close>: the argument can be the string itself.\<close>

definition bs_append_string ::
  "bool \<Rightarrow> realloc_fun \<Rightarrow> binary_string \<Rightarrow> binary_string \<Rightarrow> cmem \<Rightarrow> (bool \<times> binary_string \<times> cmem) option" where
  "bs_append_string debug realloc_raw t s m = bs_append debug realloc_raw (Ptr t) (ucast (str_length t)) s m"

definition append_char ::
  "realloc_fun \<Rightarrow> byte \<Rightarrow> binary_string \<Rightarrow> cmem \<Rightarrow> (bool \<times> binary_string \<times> cmem) option" where
  "append_char realloc_raw chr s m =
     (if str_length s < Alloced_length s then do {
        (s, m) \<leftarrow> store_next [chr] s m; Some (False, s, m)
      } else do {
        (failed, s, m) \<leftarrow> realloc_with_extra realloc_raw (ucast (str_length s + 1)) s m;
        if failed then Some (True, s, m)
        else do { (s, m) \<leftarrow> store_next [chr] s m; Some (False, s, m) } })"

fun append_hex ::
  "(nat \<Rightarrow> byte) \<Rightarrow> realloc_fun \<Rightarrow> byte list \<Rightarrow> binary_string \<Rightarrow> cmem \<Rightarrow> (bool \<times> binary_string \<times> cmem) option" where
  "append_hex dig_vec_lower realloc_raw [] s m = Some (False, s, m)"
| "append_hex dig_vec_lower realloc_raw (c # src) s m = do {
     (failed, s, m) \<leftarrow> append_char realloc_raw (dig_vec_lower (unat (drop_bit 4 c))) s m;
     if failed then Some (True, s, m) else do {
       (failed, s, m) \<leftarrow> append_char realloc_raw (dig_vec_lower (unat (c AND 0x0F))) s m;
       if failed then Some (True, s, m)
       else append_hex dig_vec_lower realloc_raw src s m } }"

definition append_with_step ::
  "bool \<Rightarrow> realloc_fun \<Rightarrow> cptr \<Rightarrow> 32 word \<Rightarrow> 32 word \<Rightarrow> binary_string \<Rightarrow> cmem \<Rightarrow>
    (bool \<times> binary_string \<times> cmem) option" where
  "append_with_step debug realloc_raw data arg_length step_alloc s m =
     (let new_length = arg_length + str_length s in do {
        (failed, s, m) \<leftarrow> (if new_length > Alloced_length s
          then bs_realloc realloc_raw (ucast (new_length + step_alloc)) s m else Some (False, s, m));
        if failed then Some (True, s, m)
        else do { (s, m) \<leftarrow> q_append debug data (ucast arg_length) s m; Some (False, s, m) } })"

definition prep_append ::
  "realloc_fun \<Rightarrow> 32 word \<Rightarrow> 32 word \<Rightarrow> binary_string \<Rightarrow> cmem \<Rightarrow> (cptr \<times> binary_string \<times> cmem) option" where
  "prep_append realloc_raw arg_length step_alloc s m =
     (let new_length = arg_length + str_length s in do {
        (failed, s, m) \<leftarrow> (if new_length > Alloced_length s
          then bs_realloc realloc_raw (ucast (new_length + step_alloc)) s m else Some (False, s, m));
        if failed then Some (NULL, s, m)
        else (let old_length = str_length s;
                  s = s\<lparr>str_length := str_length s + arg_length\<rparr>
              in Some (padd (Ptr s) (unat old_length), s, m)) })"

subsection \<open>As a C string\<close>

definition bs_c_ptr :: "realloc_fun \<Rightarrow> cptr \<Rightarrow> binary_string \<Rightarrow> cmem \<Rightarrow> (cptr \<times> binary_string \<times> cmem) option" where
  "bs_c_ptr realloc_raw empty_text s m =
     (if Ptr s = NULL then Some (empty_text, s, m)
      else do {
        ended \<leftarrow> (if \<not> alloced s then map_option (\<lambda>d. d = [0]) (load_n m (bs_end s) 1) else Some False);
        if ended then Some (Ptr s, s, m)
        else if str_length s < Alloced_length s then do {
          m \<leftarrow> store_n m (bs_end s) [0];
          Some (Ptr s, s, m)
        } else do {
          (failed, s, m) \<leftarrow> bs_realloc realloc_raw (ucast (str_length s)) s m;
          Some (Ptr s, s, m) } })"

definition bs_c_ptr_safe :: "realloc_fun \<Rightarrow> binary_string \<Rightarrow> cmem \<Rightarrow> (cptr \<times> binary_string \<times> cmem) option" where
  "bs_c_ptr_safe realloc_raw s m =
     (if Ptr s \<noteq> NULL \<and> str_length s < Alloced_length s then do {
        m \<leftarrow> store_n m (bs_end s) [0];
        Some (Ptr s, s, m)
      } else do {
        (failed, s, m) \<leftarrow> bs_realloc realloc_raw (ucast (str_length s)) s m;
        Some (Ptr s, s, m) })"

subsection \<open>Lengths of the network protocol\<close>

text \<open>\<open>net_length_size\<close> and \<open>net_store_length\<close> of \<open>pack.h\<close> are parameters: the bytes of the length.\<close>

definition q_net_store_length ::
  "bool \<Rightarrow> (64 word \<Rightarrow> byte list) \<Rightarrow> 64 word \<Rightarrow> binary_string \<Rightarrow> cmem \<Rightarrow> (binary_string \<times> cmem) option" where
  "q_net_store_length debug net_length len s m =
     (if debug \<and> \<not> Alloced_length s \<ge> str_length s + of_nat (length (net_length len)) then None
      else do {
        m \<leftarrow> store_n m (bs_end s) (net_length len);
        let pos = padd (bs_end s) (length (net_length len));
        Some (s\<lparr>str_length := of_nat (snd pos - snd (Ptr s))\<rparr>, m) })"

definition q_net_store_data ::
  "bool \<Rightarrow> (64 word \<Rightarrow> byte list) \<Rightarrow> cptr \<Rightarrow> 64 word \<Rightarrow> binary_string \<Rightarrow> cmem \<Rightarrow> (binary_string \<times> cmem) option" where
  "q_net_store_data debug net_length from_ptr len s m =
     (if debug \<and> \<not> len < UINT_MAX32 then None
      else if debug \<and> \<not> ucast (Alloced_length s) \<ge>
          ucast (str_length s) + len + of_nat (length (net_length len)) then None
      else do {
        (s, m) \<leftarrow> q_net_store_length debug net_length len s m;
        q_append debug from_ptr (ucast (ucast len :: 32 word)) s m })"

section \<open>Well-formed strings\<close>

fun is_malloced :: "region \<Rightarrow> bool" where
  "is_malloced (Malloced _) \<longleftrightarrow> True"
| "is_malloced (Foreign _) \<longleftrightarrow> False"

definition str_ok :: "binary_string \<Rightarrow> cmem \<Rightarrow> bool" where
  "str_ok s m \<longleftrightarrow>
     (if Ptr s = NULL then str_length s = 0 \<and> Alloced_length s = 0 \<and> \<not> alloced s
      else case m (fst (Ptr s)) of
        None \<Rightarrow> False
      | Some r \<Rightarrow> snd (Ptr s) + unat (str_length s) \<le> length (bytes r) \<and>
          snd (Ptr s) + unat (Alloced_length s) \<le> length (bytes r) \<and>
          (Alloced_length s = 0 \<or> str_length s \<le> Alloced_length s) \<and>
          (alloced s \<longrightarrow> is_malloced r \<and> snd (Ptr s) = 0 \<and> length (bytes r) = unat (Alloced_length s)))"

definition str_bytes :: "binary_string \<Rightarrow> cmem \<Rightarrow> byte list" where
  "str_bytes s m = (case m (fst (Ptr s)) of None \<Rightarrow> []
     | Some r \<Rightarrow> take (unat (str_length s)) (drop (snd (Ptr s)) (bytes r)))"

text \<open>No block but those of the string changes, and the string moves only to a new block.\<close>

definition frame :: "binary_string \<Rightarrow> cmem \<Rightarrow> binary_string \<Rightarrow> cmem \<Rightarrow> bool" where
  "frame s m s' m' \<longleftrightarrow> (\<forall>b. m b \<noteq> None \<longrightarrow> b \<noteq> fst (Ptr s) \<longrightarrow> m' b = m b \<and> b \<noteq> fst (Ptr s'))"

definition mallocs :: "cmem \<Rightarrow> nat set" where
  "mallocs m = {b. \<exists>d. m b = Some (Malloced d)}"

text \<open>
  What the callers rely on of \<open>realloc_raw\<close>: it fails and changes nothing, or the buffer has the length
  asked for; the text stays; a buffer that was large enough stays too, and otherwise the string owns
  its buffer and the one it owned before, if it is another one, has been freed.
\<close>

definition realloc_ok :: "realloc_fun \<Rightarrow> bool" where
  "realloc_ok R \<longleftrightarrow> (\<forall>n s m failed s' m'. str_ok s m \<longrightarrow> m 0 = None \<longrightarrow> R n s m = (failed, s', m') \<longrightarrow>
     str_ok s' m' \<and> m' 0 = None \<and> str_bytes s' m' = str_bytes s m \<and> str_length s' = str_length s \<and>
     extra_alloc s' = extra_alloc s \<and> frame s m s' m' \<and> (finite (dom m) \<longrightarrow> finite (dom m')) \<and>
     (failed \<longrightarrow> s' = s \<and> m' = m) \<and> (\<not> failed \<longrightarrow> n \<le> ucast (Alloced_length s')) \<and>
     (s' = s \<and> m' = m \<or> alloced s' \<and> (alloced s \<or> m (fst (Ptr s')) = None) \<and>
       mallocs m' = insert (fst (Ptr s')) (mallocs m - (if alloced s then {fst (Ptr s)} else {}))))"

text \<open>There is memory: in a memory with finitely many blocks, requests up to a length are served.\<close>

definition served :: "realloc_fun \<Rightarrow> nat \<Rightarrow> bool" where
  "served R limit \<longleftrightarrow> (\<forall>n s m. str_ok s m \<longrightarrow> m 0 = None \<longrightarrow> finite (dom m) \<longrightarrow> unat n \<le> limit \<longrightarrow> \<not> fst (R n s m))"

lemma bytes_put [simp]: "bytes (put_bytes bs r) = bs"
  by (cases r) simp_all

lemma malloced_put [simp]: "is_malloced (put_bytes bs r) = is_malloced r"
  by (cases r) simp_all

lemma unat_size_t [simp]: "unat (ucast (x :: 32 word) :: 64 word) = unat x"
proof -
  have "unat x < 2 ^ 32" using unsigned_less [of x] by simp
  then have "unat x < 2 ^ 64" by simp
  then show ?thesis by (simp add: unsigned_ucast_eq take_bit_nat_eq_self)
qed

lemma frame_refl [simp]: "frame s m s m"
  by (simp add: frame_def)

lemma frame_trans: "frame s m s' m' \<Longrightarrow> frame s' m' s'' m'' \<Longrightarrow> frame s m s'' m''"
  by (simp add: frame_def)

lemma str_ok_block:
  assumes "str_ok s m" and "Ptr s \<noteq> NULL"
  obtains r where "m (fst (Ptr s)) = Some r" "snd (Ptr s) + unat (str_length s) \<le> length (bytes r)"
    "snd (Ptr s) + unat (Alloced_length s) \<le> length (bytes r)"
    "Alloced_length s = 0 \<or> unat (str_length s) \<le> unat (Alloced_length s)"
    "alloced s \<Longrightarrow> is_malloced r \<and> snd (Ptr s) = 0 \<and> length (bytes r) = unat (Alloced_length s)"
  using assms by (auto simp: str_ok_def word_le_nat_alt split: option.splits)

lemma str_bytes_length: "str_ok s m \<Longrightarrow> m 0 = None \<Longrightarrow> length (str_bytes s m) = unat (str_length s)"
  by (auto simp: str_ok_def str_bytes_def NULL_def split: option.splits if_splits)

text \<open>Writing into the buffer at or behind the end of the text.\<close>

lemma write_behind:
  assumes ok: "str_ok s m" and ptr: "Ptr s \<noteq> NULL"
    and k: "unat (str_length s) \<le> k" "k + length d \<le> unat (Alloced_length s)"
  shows "\<exists>m'. store_n m (padd (Ptr s) k) d = Some m' \<and> str_ok s m' \<and> str_bytes s m' = str_bytes s m \<and>
    frame s m s m' \<and> mallocs m' = mallocs m \<and> (m 0 = None \<longrightarrow> m' 0 = None) \<and>
    load_n m' (padd (Ptr s) k) (length d) = Some d \<and> dom m' = dom m"
proof -
  obtain r where r: "m (fst (Ptr s)) = Some r" "snd (Ptr s) + unat (str_length s) \<le> length (bytes r)"
      "snd (Ptr s) + unat (Alloced_length s) \<le> length (bytes r)"
      "Alloced_length s = 0 \<or> unat (str_length s) \<le> unat (Alloced_length s)"
      "alloced s \<Longrightarrow> is_malloced r \<and> snd (Ptr s) = 0 \<and> length (bytes r) = unat (Alloced_length s)"
    using ok ptr by (rule str_ok_block) blast
  let ?o = "snd (Ptr s)"
  define b where "b = take (?o + k) (bytes r) @ d @ drop (?o + k + length d) (bytes r)"
  let ?m = "m(fst (Ptr s) := Some (put_bytes b r))"
  have fits: "?o + k + length d \<le> length (bytes r)" using k(2) r(3) by linarith
  have st: "store_n m (padd (Ptr s) k) d = Some ?m" using r(1) fits by (simp add: store_n_def padd_def b_def add.assoc)
  have len: "length b = length (bytes r)" using fits by (simp add: b_def)
  have "str_ok s ?m" using ok ptr r(1) len by (simp add: str_ok_def)
  moreover have "take (unat (str_length s)) (drop ?o b) = take (unat (str_length s)) (drop ?o (bytes r))"
    using k(1) fits by (auto simp: b_def min_def drop_take)
  then have "str_bytes s ?m = str_bytes s m" using r(1) by (simp add: str_bytes_def)
  moreover have "mallocs ?m = mallocs m" using r(1) by (cases r) (auto simp: mallocs_def)
  moreover have "m 0 = None \<longrightarrow> ?m 0 = None" using r(1) by auto
  moreover have "load_n ?m (padd (Ptr s) k) (length d) = Some d"
    using fits by (auto simp: load_n_def padd_def min_def b_def)
  moreover have "dom ?m = dom m" using r(1) by auto
  ultimately show ?thesis using st by (auto simp: frame_def)
qed

text \<open>A string with more text, and nothing else changed.\<close>

definition added :: "byte list \<Rightarrow> binary_string \<Rightarrow> cmem \<Rightarrow> binary_string \<Rightarrow> cmem \<Rightarrow> bool" where
  "added d s m s' m' \<longleftrightarrow> str_ok s' m' \<and> m' 0 = None \<and> str_bytes s' m' = str_bytes s m @ d \<and> frame s m s' m' \<and>
     (finite (dom m) \<longrightarrow> finite (dom m')) \<and> unat (extra_alloc s') \<le> max (unat (extra_alloc s)) 8320"

text \<open>A request that is served, with the extra length that \<open>realloc_with_extra\<close> asks for.\<close>

definition can :: "realloc_fun \<Rightarrow> nat \<Rightarrow> binary_string \<Rightarrow> cmem \<Rightarrow> nat \<Rightarrow> bool" where
  "can R limit s m k \<longleftrightarrow> served R limit \<and> finite (dom m) \<and> k + max (unat (extra_alloc s)) 8320 + 1 \<le> limit"

lemma served_D:
  "R n s m = (failed, t) \<Longrightarrow> str_ok s m \<Longrightarrow> m 0 = None \<Longrightarrow> served R limit \<Longrightarrow> finite (dom m) \<Longrightarrow>
   unat n \<le> limit \<Longrightarrow> \<not> failed"
  unfolding served_def by (metis fst_conv)

lemma can_added: "can R limit s m k \<Longrightarrow> added d s m s' m' \<Longrightarrow> can R limit s' m' k"
  by (auto simp: can_def added_def)

lemma can_less: "can R limit s m k \<Longrightarrow> j \<le> k \<Longrightarrow> can R limit s m j"
  by (auto simp: can_def)

lemma added_refl: "str_ok s m \<Longrightarrow> m 0 = None \<Longrightarrow> added [] s m s m"
  by (simp add: added_def)

lemma added_trans: "added d s m s' m' \<Longrightarrow> added e s' m' s'' m'' \<Longrightarrow> added (d @ e) s m s'' m''"
  by (auto simp: added_def elim: frame_trans)

lemma added_length:
  "added d s m s' m' \<Longrightarrow> str_ok s m \<Longrightarrow> m 0 = None \<Longrightarrow> unat (str_length s') = unat (str_length s) + length d"
  using str_bytes_length [of s m] str_bytes_length [of s' m'] by (simp add: added_def)

lemma str_ok_ptr: "str_ok s m \<Longrightarrow> 0 < unat (Alloced_length s) \<Longrightarrow> Ptr s \<noteq> NULL"
  by (auto simp: str_ok_def)

lemma store_next_ok:
  assumes ok: "str_ok s m" "m 0 = None" and ptr: "Ptr s \<noteq> NULL"
    and fits: "unat (str_length s) + length d \<le> unat (Alloced_length s)"
  shows "\<exists>s' m'. store_next d s m = Some (s', m') \<and> added d s m s' m' \<and> Ptr s' = Ptr s"
proof -
  obtain m' where m': "store_n m (padd (Ptr s) (unat (str_length s))) d = Some m'" "str_ok s m'"
      "str_bytes s m' = str_bytes s m" "frame s m s m'" "m' 0 = None"
      "load_n m' (padd (Ptr s) (unat (str_length s))) (length d) = Some d" "dom m' = dom m"
    using write_behind [OF ok(1) ptr order_refl fits] ok(2) by blast
  have less: "unat (Alloced_length s) < 2 ^ 32" using unsigned_less [of "Alloced_length s"] by simp
  then have len: "unat (str_length s + of_nat (length d)) = unat (str_length s) + length d"
    using fits by (simp add: unat_word_ariths unat_of_nat mod_add_right_eq)
  let ?s = "s\<lparr>str_length := str_length s + of_nat (length d)\<rparr>"
  obtain r where r: "m' (fst (Ptr s)) = Some r" "snd (Ptr s) + unat (Alloced_length s) \<le> length (bytes r)"
    using m'(2) ptr by (rule str_ok_block) blast
  have "str_ok ?s m'"
    using m'(2) r ptr fits len by (auto simp: str_ok_def word_le_nat_alt)
  moreover have "str_bytes ?s m' = str_bytes s m @ d"
  proof -
    have "str_bytes ?s m' = take (unat (str_length s) + length d) (drop (snd (Ptr s)) (bytes r))"
      using r(1) len by (simp add: str_bytes_def)
    also have "\<dots> = str_bytes s m' @ d"
      using r m'(6) by (simp add: take_add str_bytes_def load_n_def padd_def
        add.commute [of "unat (str_length s)" "snd (Ptr s)"] split: if_splits)
    finally show ?thesis using m'(3) by simp
  qed
  ultimately show ?thesis
    using m' by (auto simp: store_next_def added_def frame_def)
qed

lemma realloc_ok_step:
  assumes "realloc_ok R" and "str_ok s m" and "m 0 = None" and "R n s m = (failed, s', m')"
  shows "added [] s m s' m' \<and> (failed \<longrightarrow> s' = s \<and> m' = m) \<and> (\<not> failed \<longrightarrow> unat n \<le> unat (Alloced_length s'))"
proof -
  have "str_ok s' m' \<and> m' 0 = None \<and> str_bytes s' m' = str_bytes s m \<and> frame s m s' m' \<and>
      (finite (dom m) \<longrightarrow> finite (dom m')) \<and> extra_alloc s' = extra_alloc s \<and>
      (failed \<longrightarrow> s' = s \<and> m' = m) \<and> (\<not> failed \<longrightarrow> n \<le> ucast (Alloced_length s'))"
    using assms unfolding realloc_ok_def by blast
  then show ?thesis by (simp add: added_def word_le_nat_alt)
qed

text \<open>Making room: the text stays, and the byte written behind it is inside the buffer.\<close>

lemma poke_ok:
  assumes "added [] s m s' m'" and "str_ok s m" and "m 0 = None"
    and "unat (str_length s) \<le> k" and "k < unat (Alloced_length s')"
  shows "\<exists>m''. store_n m' (padd (Ptr s') k) [0] = Some m'' \<and> added [] s m s' m'' \<and>
    load_n m'' (padd (Ptr s') k) 1 = Some [0]"
proof -
  have ok: "str_ok s' m'" "m' 0 = None" using assms(1) by (simp_all add: added_def)
  have "unat (str_length s') \<le> k" using added_length [OF assms(1-3)] assms(4) by simp
  then obtain m'' where m'': "store_n m' (padd (Ptr s') k) [0] = Some m''" "str_ok s' m''"
      "str_bytes s' m'' = str_bytes s' m'" "frame s' m' s' m''" "m'' 0 = None"
      "load_n m'' (padd (Ptr s') k) 1 = Some [0]" "dom m'' = dom m'"
    using write_behind [OF ok(1), of k "[0]"] str_ok_ptr [OF ok(1)] assms(5) ok(2) by auto
  then have "added [] s' m' s' m''" by (simp add: added_def)
  then show ?thesis using m''(1,6) added_trans [OF assms(1)] by force
qed

lemma bs_realloc_ok:
  assumes R: "realloc_ok R" and ok: "str_ok s m" "m 0 = None"
    and n: "unat (str_length s) \<le> unat n" "unat n < 2 ^ 33"
  shows "\<exists>failed s' m'. bs_realloc R n s m = Some (failed, s', m') \<and> added [] s m s' m' \<and>
    (\<not> failed \<longrightarrow> unat n < unat (Alloced_length s') \<and> load_n m' (padd (Ptr s') (unat n)) 1 = Some [0]) \<and>
    (can R limit s m (unat n) \<longrightarrow> \<not> failed)"
proof -
  obtain failed s' m' where r: "R (n + 1) s m = (failed, s', m')" by (cases "R (n + 1) s m") auto
  have n1: "unat (n + 1) = unat n + 1" using n(2) by (simp add: unat_word_ariths)
  note st = realloc_ok_step [OF R ok r]
  have "can R limit s m (unat n) \<Longrightarrow> \<not> failed" 
    using served_D [where R = R and m = m, OF r ok, of limit] n1 by (auto simp: can_def)
  then show ?thesis
  proof (cases failed)
    case False
    then have "unat n < unat (Alloced_length s')" using st n1 by simp
    with poke_ok [OF _ ok n(1)] st False r show ?thesis by (fastforce simp: bs_realloc_def)
  qed (use r st in \<open>auto simp: bs_realloc_def\<close>)
qed

lemma bs_with_extra_ok:
  assumes R: "realloc_ok R" and ok: "str_ok s m" "m 0 = None"
    and n: "unat (str_length s) \<le> unat n" "unat n < 2 ^ 33"
  shows "\<exists>failed s' m'. realloc_with_extra R n s m = Some (failed, s', m') \<and> added [] s m s' m' \<and>
    (\<not> failed \<longrightarrow> unat n < unat (Alloced_length s')) \<and> (can R limit s m (unat n) \<longrightarrow> \<not> failed)"
proof -
  define t where "t = (if extra_alloc s < 4096 then s\<lparr>extra_alloc := extra_alloc s * 2 + 128\<rparr> else s)"
  have same: "Ptr t = Ptr s" "str_length t = str_length s" "Alloced_length t = Alloced_length s" "alloced t = alloced s"
    by (simp_all add: t_def)
  have small: "unat (extra_alloc t) \<le> max (unat (extra_alloc s)) 8320"
    by (simp add: t_def unat_word_ariths word_less_nat_alt)
  have t: "str_ok t m" "str_bytes t m = str_bytes s m" "frame t m s' m' = frame s m s' m'" for s' m'
    using ok(1) by (simp_all only: same str_ok_def str_bytes_def frame_def)
  then have grown: "added [] t m s' m' \<Longrightarrow> added [] s m s' m'" for s' m'
    using small by (auto simp: added_def)
  have "0 < unat (extra_alloc t)"
  proof (cases "extra_alloc s < 4096")
    case True
    then have "unat (extra_alloc s) < 4096" by (simp add: word_less_nat_alt)
    then have "unat (extra_alloc s * 2 + 128) = unat (extra_alloc s) * 2 + 128" by (simp add: unat_word_ariths)
    then show ?thesis using True by (simp add: t_def)
  next
    case False
    then show ?thesis by (simp add: t_def word_less_nat_alt)
  qed
  moreover have "unat (extra_alloc t) < 2 ^ 32" using unsigned_less [of "extra_alloc t"] by simp
  ultimately have more: "unat n < unat (n + ucast (extra_alloc t))" using n(2) by (simp add: unat_word_ariths)
  obtain failed s' m' where r: "R (n + ucast (extra_alloc t)) t m = (failed, s', m')"
    by (cases "R (n + ucast (extra_alloc t)) t m") auto
  note st = realloc_ok_step [OF R t(1) ok(2) r]
  have "can R limit s m (unat n) \<Longrightarrow> \<not> failed"
  proof -
    assume c: "can R limit s m (unat n)"
    have "unat (n + ucast (extra_alloc t)) \<le> unat n + unat (extra_alloc t)"
      by (simp add: unat_word_ariths)
    then have "unat (n + ucast (extra_alloc t)) \<le> limit" using small c by (simp add: can_def)
    then show "\<not> failed" using served_D [where R = R and m = m, OF r t(1) ok(2), of limit] c by (auto simp: can_def)
  qed
  then show ?thesis
  proof (cases failed)
    case False
    then have "unat n < unat (Alloced_length s')" using st more by simp
    with poke_ok [OF _ ok n(1)] st False r grown show ?thesis
      by (fastforce simp: realloc_with_extra_def t_def [symmetric])
  qed (use r st grown in \<open>auto simp: realloc_with_extra_def t_def [symmetric]\<close>)
qed

lemma bs_if_needed_ok:
  assumes R: "realloc_ok R" and ok: "str_ok s m" "m 0 = None"
    and n: "unat (str_length s) \<le> unat n" "unat n < 2 ^ 33"
  shows "\<exists>failed s' m'. realloc_with_extra_if_needed R n s m = Some (failed, s', m') \<and> added [] s m s' m' \<and>
    (\<not> failed \<longrightarrow> unat n < unat (Alloced_length s')) \<and> (can R limit s m (unat n) \<longrightarrow> \<not> failed)"
proof (cases "n < ucast (Alloced_length s)")
  case True
  then have "unat n < unat (Alloced_length s)" by (simp add: word_less_nat_alt)
  with poke_ok [OF added_refl [OF ok] ok n(1)] True show ?thesis
    by (fastforce simp: realloc_with_extra_if_needed_def)
qed (use bs_with_extra_ok [OF assms] in \<open>simp add: realloc_with_extra_if_needed_def\<close>)

section \<open>Appending\<close>

lemma ex_not [simp]: "Ex Not"
  by (rule exI [of _ False]) simp

lemma load_frame:
  "frame s m s' m' \<Longrightarrow> load_n m q n = Some d \<Longrightarrow> fst q \<noteq> fst (Ptr s) \<Longrightarrow>
   load_n m' q n = Some d \<and> fst q \<noteq> fst (Ptr s')"
  by (auto simp: frame_def load_n_def split: option.splits)

lemma load_length: "load_n m q n = Some d \<Longrightarrow> length d = n"
  by (auto simp: load_n_def split: option.splits if_splits)

lemma q_append_ok:
  assumes ok: "str_ok s m" "m 0 = None" and ptr: "Ptr s \<noteq> NULL"
    and fits: "unat (str_length s) + unat n \<le> unat (Alloced_length s)"
    and d: "load_n m q (unat n) = Some d"
  shows "\<exists>s' m'. q_append debug q n s m = Some (s', m') \<and> added d s m s' m'"
proof -
  have len: "length d = unat n" using d by (rule load_length)
  obtain s' m' where s': "store_next d s m = Some (s', m')" "added d s m s' m'"
    using store_next_ok [OF ok ptr, of d] fits len by auto
  have "unat (Alloced_length s) < 2 ^ 32" using unsigned_less [of "Alloced_length s"] by simp
  then have n: "unat n < 2 ^ 32" "unat (ucast n :: 32 word) = unat n"
    using fits by (simp_all add: unsigned_ucast_eq take_bit_nat_eq_self)
  have sum: "str_length s + ucast n \<le> Alloced_length s"
    using fits n \<open>unat (Alloced_length s) < 2 ^ 32\<close> by (simp add: word_le_nat_alt unat_word_ariths)
  have "unat (UINT_MAX32 - n) = 2 ^ 32 - 1 - unat n"
    using n by (simp add: UINT_MAX32_def unat_sub word_le_nat_alt)
  then have bound: "ucast (str_length s) \<le> UINT_MAX32 - n"
    using fits \<open>unat (Alloced_length s) < 2 ^ 32\<close> by (simp add: word_le_nat_alt)
  have cast: "of_nat (length d) = (ucast n :: 32 word)" unfolding len by simp
  show ?thesis
  proof (cases "n = 0")
    case True
    then have "q_append debug q n s m = Some (s, m)" using sum bound by (simp add: q_append_def ASSERT_LENGTH_def)
    then show ?thesis using True len added_refl [OF ok] by auto
  next
    case False
    then have "q_append debug q n s m = store_next d s m"
      using sum bound d cast by (simp add: q_append_def ASSERT_LENGTH_def store_next_def)
    then show ?thesis using s' by simp
  qed
qed

lemma append_char_ok:
  assumes R: "realloc_ok R" and ok: "str_ok s m" "m 0 = None" and room: "unat (str_length s) + 1 < 2 ^ 32"
  shows "\<exists>failed s' m'. append_char R c s m = Some (failed, s', m') \<and> added (if failed then [] else [c]) s m s' m' \<and>
    (can R limit s m (unat (str_length s) + 1) \<longrightarrow> \<not> failed)"
proof (cases "str_length s < Alloced_length s")
  case True
  then have l: "unat (str_length s) < unat (Alloced_length s)" by (simp add: word_less_nat_alt)
  then show ?thesis
    using store_next_ok [OF ok str_ok_ptr [OF ok(1)], of "[c]"] True by (auto simp: append_char_def)
next
  case False
  have u: "unat (ucast (str_length s + 1) :: 64 word) = unat (str_length s) + 1"
    using room by (simp add: unat_word_ariths)
  obtain failed t n where r: "realloc_with_extra R (ucast (str_length s + 1)) s m = Some (failed, t, n)"
      "added [] s m t n" "\<not> failed \<longrightarrow> unat (str_length s) + 1 < unat (Alloced_length t)"
      "can R limit s m (unat (str_length s) + 1) \<longrightarrow> \<not> failed"
    using bs_with_extra_ok [OF R ok, of "ucast (str_length s + 1)" limit] u room by auto
  show ?thesis
  proof (cases failed)
    case f: False
    have t: "str_ok t n" "n 0 = None" "unat (str_length t) = unat (str_length s)"
      using r(2) added_length [OF r(2) ok] by (simp_all add: added_def)
    have "0 < unat (Alloced_length t)" "unat (str_length t) + length [c] \<le> unat (Alloced_length t)" using r(3) f t(3) by simp_all
    then obtain s' m' where "store_next [c] t n = Some (s', m')" "added [c] t n s' m'"
      using store_next_ok [OF t(1,2) str_ok_ptr [OF t(1)], of "[c]"] by blast
    then show ?thesis using added_trans [OF r(2)] False f r(1) by (fastforce simp: append_char_def)
  qed (use False r in \<open>auto simp: append_char_def\<close>)
qed

text \<open>Making room for some text and then putting it there.\<close>

lemma append_after:
  assumes grown: "added [] s m t n" and ok: "str_ok s m" "m 0 = None"
    and fits: "unat (str_length s) + unat k \<le> unat (Alloced_length t)" "0 < unat (Alloced_length t)"
    and d: "load_n m q (unat k) = Some d" "fst q \<noteq> fst (Ptr s)"
  shows "\<exists>s' m'. q_append debug q k t n = Some (s', m') \<and> added d s m s' m'"
proof -
  have t: "str_ok t n" "n 0 = None" "unat (str_length t) = unat (str_length s)" "frame s m t n"
    using grown added_length [OF grown ok] by (simp_all add: added_def)
  obtain s' m' where "q_append debug q k t n = Some (s', m')" "added d t n s' m'"
    using q_append_ok [OF t(1,2) str_ok_ptr [OF t(1) fits(2)], of k q d debug] load_frame [OF t(4) d] fits(1) t(3) by auto
  then show ?thesis using added_trans [OF grown] by force
qed

lemma bs_append_ok:
  assumes R: "realloc_ok R" and ok: "str_ok s m" "m 0 = None"
    and d: "load_n m q (unat k) = Some d" "fst q \<noteq> fst (Ptr s)"
    and room: "unat (str_length s) + unat k < 2 ^ 32"
  shows "\<exists>failed s' m'. bs_append debug R q k s m = Some (failed, s', m') \<and>
    added (if failed then [] else d) s m s' m' \<and>
    (can R limit s m (unat (str_length s) + unat k) \<longrightarrow> \<not> failed)"
proof (cases "k = 0")
  case True
  then show ?thesis using added_refl [OF ok] load_length [OF d(1)] by (simp add: bs_append_def)
next
  case False
  let ?n = "ucast (str_length s) + k"
  have n: "unat ?n = unat (str_length s) + unat k" using room by (simp add: unat_word_ariths)
  obtain failed t u where r: "realloc_with_extra_if_needed R ?n s m = Some (failed, t, u)" "added [] s m t u"
      "\<not> failed \<longrightarrow> unat ?n < unat (Alloced_length t)" "can R limit s m (unat ?n) \<longrightarrow> \<not> failed"
    using bs_if_needed_ok [OF R ok, of ?n limit] n room by auto
  show ?thesis
  proof (cases failed)
    case f: False
    then obtain s' m' where "q_append debug q k t u = Some (s', m')" "added d s m s' m'"
      using append_after [OF r(2) ok _ _ d] r(3) n by fastforce
    then show ?thesis using False f r(1) by (auto simp: bs_append_def)
  qed (use False r n in \<open>auto simp: bs_append_def\<close>)
qed

lemma append_with_step_ok:
  assumes R: "realloc_ok R" and ok: "str_ok s m" "m 0 = None"
    and d: "load_n m q (unat k) = Some d" "fst q \<noteq> fst (Ptr s)"
    and room: "unat (str_length s) + unat k + unat step_alloc < 2 ^ 32"
  shows "\<exists>failed s' m'. append_with_step debug R q k step_alloc s m = Some (failed, s', m') \<and>
    added (if failed then [] else d) s m s' m' \<and>
    (can R limit s m (unat (str_length s) + unat k + unat step_alloc) \<longrightarrow> \<not> failed)"
proof -
  let ?n = "k + str_length s"
  have n: "unat ?n = unat (str_length s) + unat k" "unat (?n + step_alloc) = unat (str_length s) + unat k + unat step_alloc"
    using room by (simp_all add: unat_word_ariths)
  have dk: "load_n m q (unat (ucast k :: 64 word)) = Some d" using d(1) by simp
  have "\<exists>failed t u. (if ?n > Alloced_length s then bs_realloc R (ucast (?n + step_alloc)) s m else Some (False, s, m)) =
      Some (failed, t, u) \<and> added [] s m t u \<and> (\<not> failed \<longrightarrow> unat ?n \<le> unat (Alloced_length t)) \<and>
      (can R limit s m (unat (str_length s) + unat k + unat step_alloc) \<longrightarrow> \<not> failed)"
  proof (cases "?n > Alloced_length s")
    case True
    then show ?thesis using bs_realloc_ok [OF R ok, of "ucast (?n + step_alloc)" limit] n room by fastforce
  next
    case False
    moreover from this have "unat ?n \<le> unat (Alloced_length s)" by (simp add: word_le_nat_alt not_less)
    ultimately show ?thesis using added_refl [OF ok] by auto
  qed
  then obtain failed t u where r: "(if ?n > Alloced_length s then bs_realloc R (ucast (?n + step_alloc)) s m
      else Some (False, s, m)) = Some (failed, t, u)" "added [] s m t u"
      "\<not> failed \<longrightarrow> unat ?n \<le> unat (Alloced_length t)"
      "can R limit s m (unat (str_length s) + unat k + unat step_alloc) \<longrightarrow> \<not> failed" by blast
  show ?thesis
  proof (cases failed)
    case f: False
    have "\<exists>s' m'. q_append debug q (ucast k) t u = Some (s', m') \<and> added d s m s' m'"
    proof (cases "0 < unat (Alloced_length t)")
      case True
      then show ?thesis using append_after [OF r(2) ok _ True dk d(2)] r(3) f n by simp
    next
      case False
      then have z: "k = 0" "d = []" using r(3) f n load_length [OF d(1)] by (simp_all add: unat_eq_zero)
      moreover have "str_length t = 0"
        using r(3) f n False added_length [OF r(2) ok] by (simp add: unat_eq_zero)
      ultimately have "q_append debug q (ucast k) t u = Some (t, u)"
        by (simp add: q_append_def ASSERT_LENGTH_def UINT_MAX32_def)
      then show ?thesis using r(2) z by simp
    qed
    then show ?thesis using f r(1) by (auto simp: append_with_step_def Let_def)
  qed (use r in \<open>auto simp: append_with_step_def Let_def\<close>)
qed

definition hex_text :: "(nat \<Rightarrow> byte) \<Rightarrow> byte list \<Rightarrow> byte list" where
  "hex_text dig src = concat (map (\<lambda>c. [dig (unat (drop_bit 4 c)), dig (unat (c AND 0x0F))]) src)"

lemma append_hex_ok:
  assumes R: "realloc_ok R" and ok: "str_ok s m" "m 0 = None"
    and room: "unat (str_length s) + 2 * length src < 2 ^ 32"
  shows "\<exists>failed s' m' k. append_hex dig R src s m = Some (failed, s', m') \<and>
    added (take k (hex_text dig src)) s m s' m' \<and> (\<not> failed \<longrightarrow> k = 2 * length src) \<and>
    (can R limit s m (unat (str_length s) + 2 * length src) \<longrightarrow> \<not> failed)"
  using ok room
proof (induction src arbitrary: s m)
  case Nil
  then show ?case using added_refl by (auto simp: hex_text_def)
next
  case (Cons c src)
  let ?k = "unat (str_length s) + 2 * length (c # src)"
  have need: "can R limit s m ?k \<Longrightarrow> can R limit s m (unat (str_length s) + 1)" by (rule can_less) auto
  let ?h = "dig (unat (drop_bit 4 c))" and ?l = "dig (unat (c AND 0x0F))"
  have hex: "hex_text dig (c # src) = ?h # ?l # hex_text dig src" by (simp add: hex_text_def)
  obtain f1 s1 m1 where h1: "append_char R ?h s m = Some (f1, s1, m1)" "added (if f1 then [] else [?h]) s m s1 m1"
      "can R limit s m (unat (str_length s) + 1) \<longrightarrow> \<not> f1"
    using append_char_ok [OF R Cons.prems(1,2), of ?h limit] Cons.prems(3) by auto
  show ?case
  proof (cases f1)
    case True
    then show ?thesis using h1 need by (intro exI [of _ True] exI [of _ s1] exI [of _ m1] exI [of _ 0]) auto
  next
    case f1: False
    have ok1: "str_ok s1 m1" "m1 0 = None" "unat (str_length s1) = unat (str_length s) + 1"
      using h1(2) f1 added_length [OF h1(2) Cons.prems(1,2)] by (simp_all add: added_def)
    obtain f2 s2 m2 where h2: "append_char R ?l s1 m1 = Some (f2, s2, m2)" "added (if f2 then [] else [?l]) s1 m1 s2 m2"
        "can R limit s1 m1 (unat (str_length s1) + 1) \<longrightarrow> \<not> f2"
      using append_char_ok [OF R ok1(1,2), of ?l limit] ok1(3) Cons.prems(3) by auto
    have h12: "added ([?h] @ (if f2 then [] else [?l])) s m s2 m2"
      using added_trans [of "[?h]" s m s1 m1] h1(2) h2(2) f1 by simp
    have need2: "can R limit s m ?k \<Longrightarrow> can R limit s1 m1 (unat (str_length s1) + 1)"
      using can_added [OF _ h1(2)] ok1(3) can_less [of R limit s1 m1 ?k "unat (str_length s1) + 1"] by auto
    show ?thesis
    proof (cases f2)
      case True
      then show ?thesis using h1 h2 h12 f1 hex need2
        by (intro exI [of _ True] exI [of _ s2] exI [of _ m2] exI [of _ 1]) auto
    next
      case f2: False
      have ok2: "str_ok s2 m2" "m2 0 = None" "unat (str_length s2) = unat (str_length s) + 2"
        using h12 f2 added_length [OF h12 Cons.prems(1,2)] by (simp_all add: added_def)
      obtain f s' m' k where h3: "append_hex dig R src s2 m2 = Some (f, s', m')"
          "added (take k (hex_text dig src)) s2 m2 s' m'" "\<not> f \<longrightarrow> k = 2 * length src"
          "can R limit s2 m2 (unat (str_length s2) + 2 * length src) \<longrightarrow> \<not> f"
        using Cons.IH [OF ok2(1,2)] ok2(3) Cons.prems(3) by auto
      have need3: "can R limit s m ?k \<Longrightarrow> can R limit s2 m2 (unat (str_length s2) + 2 * length src)"
        using can_added [OF _ h12] ok2(3) by (auto elim: can_less)
      have "added (take (k + 2) (hex_text dig (c # src))) s m s' m'"
        using added_trans [OF h12 h3(2)] f2 hex by simp
      then show ?thesis using h1 h2 h3 f1 f2 need3
        by (intro exI [of _ f] exI [of _ s'] exI [of _ m'] exI [of _ "k + 2"]) simp
    qed
  qed
qed

subsection \<open>Sequences of appends\<close>

datatype append_op = Append cptr "64 word" | Append_char byte | Append_hex "byte list"
  | Append_step cptr "32 word" "32 word"

fun append_exec ::
  "bool \<Rightarrow> realloc_fun \<Rightarrow> (nat \<Rightarrow> byte) \<Rightarrow> append_op \<Rightarrow> binary_string \<Rightarrow> cmem \<Rightarrow> (bool \<times> binary_string \<times> cmem) option" where
  "append_exec debug R dig (Append q n) s m = bs_append debug R q n s m"
| "append_exec debug R dig (Append_char c) s m = append_char R c s m"
| "append_exec debug R dig (Append_hex src) s m = append_hex dig R src s m"
| "append_exec debug R dig (Append_step q n step_alloc) s m = append_with_step debug R q n step_alloc s m"

fun append_all ::
  "bool \<Rightarrow> realloc_fun \<Rightarrow> (nat \<Rightarrow> byte) \<Rightarrow> append_op list \<Rightarrow> binary_string \<Rightarrow> cmem \<Rightarrow> (bool \<times> binary_string \<times> cmem) option" where
  "append_all debug R dig [] s m = Some (False, s, m)"
| "append_all debug R dig (op # ops) s m = do {
     (failed, s, m) \<leftarrow> append_exec debug R dig op s m;
     if failed then Some (True, s, m) else append_all debug R dig ops s m }"

text \<open>What an operation appends, if it can be read in a block other than that of the string.\<close>

fun append_source :: "(nat \<Rightarrow> byte) \<Rightarrow> cmem \<Rightarrow> nat \<Rightarrow> append_op \<Rightarrow> byte list option" where
  "append_source dig m b (Append q n) = (if fst q = b then None else load_n m q (unat n))"
| "append_source dig m b (Append_char c) = Some [c]"
| "append_source dig m b (Append_hex src) = Some (hex_text dig src)"
| "append_source dig m b (Append_step q n step_alloc) = (if fst q = b then None else load_n m q (unat n))"

fun append_step_size :: "append_op \<Rightarrow> nat" where
  "append_step_size (Append_step q n step_alloc) = unat step_alloc"
| "append_step_size _ = 0"

definition append_text :: "(nat \<Rightarrow> byte) \<Rightarrow> cmem \<Rightarrow> nat \<Rightarrow> append_op \<Rightarrow> byte list" where
  "append_text dig m b op = the (append_source dig m b op)"

lemma hex_text_length: "length (hex_text dig src) = 2 * length src"
  by (induction src) (simp_all add: hex_text_def)

lemma append_exec_ok:
  assumes R: "realloc_ok R" and ok: "str_ok s m" "m 0 = None"
    and d: "append_source dig m (fst (Ptr s)) op = Some d"
    and room: "unat (str_length s) + length d + append_step_size op < 2 ^ 32"
  shows "\<exists>failed s' m' k. append_exec debug R dig op s m = Some (failed, s', m') \<and>
    added (take k d) s m s' m' \<and> (\<not> failed \<longrightarrow> length d \<le> k) \<and>
    (can R limit s m (unat (str_length s) + length d + append_step_size op) \<longrightarrow> \<not> failed)"
proof -
  have whole: "added (if failed then [] else d) s m s' m' \<Longrightarrow> \<exists>k. added (take k d) s m s' m' \<and> (\<not> failed \<longrightarrow> length d \<le> k)"
    for failed s' m'
    by (rule exI [of _ "if failed then 0 else length d"]) (cases failed; simp)
  show ?thesis
  proof (cases op)
    case (Append q n)
    then have q: "load_n m q (unat n) = Some d" "fst q \<noteq> fst (Ptr s)" using d by (auto split: if_splits)
    obtain failed s' m' where "bs_append debug R q n s m = Some (failed, s', m')"
        "added (if failed then [] else d) s m s' m'" "can R limit s m (unat (str_length s) + unat n) \<longrightarrow> \<not> failed"
      using bs_append_ok [OF R ok q, of debug limit] room load_length [OF q(1)] by auto
    then show ?thesis using whole [of failed s' m'] Append load_length [OF q(1)] by auto
  next
    case (Append_char c)
    then obtain failed s' m' where "append_char R c s m = Some (failed, s', m')"
        "added (if failed then [] else d) s m s' m'" "can R limit s m (unat (str_length s) + 1) \<longrightarrow> \<not> failed"
      using append_char_ok [OF R ok, of c limit] room d by auto
    then show ?thesis using whole [of failed s' m'] Append_char d by auto
  next
    case (Append_hex src)
    then obtain failed s' m' k where "append_hex dig R src s m = Some (failed, s', m')"
        "added (take k d) s m s' m'" "\<not> failed \<longrightarrow> k = 2 * length src"
        "can R limit s m (unat (str_length s) + 2 * length src) \<longrightarrow> \<not> failed"
      using append_hex_ok [OF R ok, of src dig limit] room d hex_text_length [of dig src] by auto
    then show ?thesis using Append_hex d hex_text_length [of dig src] by auto
  next
    case (Append_step q n st)
    then have q: "load_n m q (unat n) = Some d" "fst q \<noteq> fst (Ptr s)" using d by (auto split: if_splits)
    obtain failed s' m' where "append_with_step debug R q n st s m = Some (failed, s', m')"
        "added (if failed then [] else d) s m s' m'"
        "can R limit s m (unat (str_length s) + unat n + unat st) \<longrightarrow> \<not> failed"
      using append_with_step_ok [OF R ok q, of st debug limit] room load_length [OF q(1)] Append_step by auto
    then show ?thesis using whole [of failed s' m'] Append_step load_length [OF q(1)] by auto
  qed
qed

lemma source_frame:
  "frame s m s' m' \<Longrightarrow> append_source dig m (fst (Ptr s)) op = Some d \<Longrightarrow>
   append_source dig m' (fst (Ptr s')) op = Some d"
  by (cases op) (auto simp: load_frame split: if_splits)

lemma append_all_ok:
  assumes R: "realloc_ok R"
  shows "str_ok s m \<Longrightarrow> m 0 = None \<Longrightarrow> (\<And>op. op \<in> set ops \<Longrightarrow> append_source dig m (fst (Ptr s)) op \<noteq> None) \<Longrightarrow>
    unat (str_length s) + length (concat (map (append_text dig m (fst (Ptr s))) ops)) +
      sum_list (map append_step_size ops) < 2 ^ 32 \<Longrightarrow>
    \<exists>failed s' m' k. append_all debug R dig ops s m = Some (failed, s', m') \<and>
      added (take k (concat (map (append_text dig m (fst (Ptr s))) ops))) s m s' m' \<and>
      (\<not> failed \<longrightarrow> length (concat (map (append_text dig m (fst (Ptr s))) ops)) \<le> k) \<and>
      (can R limit s m (unat (str_length s) + length (concat (map (append_text dig m (fst (Ptr s))) ops)) +
         sum_list (map append_step_size ops)) \<longrightarrow> \<not> failed)"
proof (induction ops arbitrary: s m)
  case Nil
  then show ?case using added_refl by (intro exI [of _ False] exI [of _ s] exI [of _ m]) simp
next
  case (Cons op ops)
  obtain d where d: "append_source dig m (fst (Ptr s)) op = Some d" using Cons.prems(3) [of op] by auto
  then have td: "append_text dig m (fst (Ptr s)) op = d" by (simp add: append_text_def)
  obtain f s1 m1 k1 where h1: "append_exec debug R dig op s m = Some (f, s1, m1)" "added (take k1 d) s m s1 m1"
      "\<not> f \<longrightarrow> length d \<le> k1"
      "can R limit s m (unat (str_length s) + length d + append_step_size op) \<longrightarrow> \<not> f"
    using append_exec_ok [OF R Cons.prems(1,2) d, of debug limit] Cons.prems(4) td by auto
  let ?t = "concat (map (append_text dig m (fst (Ptr s))) ops)"
  let ?need = "unat (str_length s) + length (d @ ?t) + sum_list (map append_step_size (op # ops))"
  have need: "can R limit s m ?need \<Longrightarrow> can R limit s m (unat (str_length s) + length d + append_step_size op)"
    by (rule can_less) auto
  show ?case
  proof (cases f)
    case True
    have "take (min k1 (length d)) (d @ ?t) = take k1 d" by (simp add: min_def)
    then show ?thesis using h1 need True td
      by (intro exI [of _ True] exI [of _ s1] exI [of _ m1] exI [of _ "min k1 (length d)"]) auto
  next
    case False
    then have a1: "added d s m s1 m1" using h1 by simp
    then have ok1: "str_ok s1 m1" "m1 0 = None" "frame s m s1 m1"
        "unat (str_length s1) = unat (str_length s) + length d"
      using added_length [OF a1 Cons.prems(1,2)] by (simp_all add: added_def)
    have src: "append_source dig m1 (fst (Ptr s1)) op' = append_source dig m (fst (Ptr s)) op'" if "op' \<in> set ops" for op'
    proof -
      have "op' \<in> set (op # ops)" using that by simp
      from Cons.prems(3) [OF this] obtain d' where "append_source dig m (fst (Ptr s)) op' = Some d'" by blast
      then show ?thesis using source_frame [OF ok1(3)] by simp
    qed
    then have t1: "map (append_text dig m1 (fst (Ptr s1))) ops = map (append_text dig m (fst (Ptr s))) ops"
      by (simp add: append_text_def)
    obtain f' s' m' k where h2: "append_all debug R dig ops s1 m1 = Some (f', s', m')"
        "added (take k ?t) s1 m1 s' m'" "\<not> f' \<longrightarrow> length ?t \<le> k"
        "can R limit s1 m1 (unat (str_length s1) + length ?t + sum_list (map append_step_size ops)) \<longrightarrow> \<not> f'"
      using Cons.IH [OF ok1(1,2)] Cons.prems(3,4) src t1 ok1(4) td by auto
    moreover have "can R limit s m ?need \<Longrightarrow>
        can R limit s1 m1 (unat (str_length s1) + length ?t + sum_list (map append_step_size ops))"
      using can_added [OF _ a1] ok1(4) can_less [of R limit s1 m1 ?need
        "unat (str_length s1) + length ?t + sum_list (map append_step_size ops)"] by auto
    moreover have "added (take (length d + k) (d @ ?t)) s m s' m'" using added_trans [OF a1 h2(2)] by simp
    ultimately show ?thesis using h1 h2 False td
      by (intro exI [of _ f'] exI [of _ s'] exI [of _ m'] exI [of _ "length d + k"]) auto
  qed
qed

section \<open>C strings\<close>

lemma load_end:
  assumes "str_ok s m" and "Ptr s \<noteq> NULL" and "load_n m (bs_end s) 1 = Some [c]"
  shows "load_n m (Ptr s) (unat (str_length s) + 1) = Some (str_bytes s m @ [c])"
proof -
  obtain r where r: "m (fst (Ptr s)) = Some r" using assms(1,2) by (rule str_ok_block) blast
  then show ?thesis
    using assms(3) by (auto simp: load_n_def bs_end_def padd_def str_bytes_def take_Suc_conv_app_nth
      hd_drop_conv_nth [symmetric] take_Suc add.commute [of "unat (str_length s)"] split: if_splits)
qed

lemma terminated:
  assumes "added [] s m s' m'" and "str_ok s m" and "m 0 = None" and "Ptr s' \<noteq> NULL"
    and "load_n m' (padd (Ptr s') (unat (str_length s))) 1 = Some [0]"
  shows "load_n m' (Ptr s') (unat (str_length s) + 1) = Some (str_bytes s m @ [0])"
  using load_end [of s' m' 0] assms added_length [OF assms(1-3)] by (simp add: added_def bs_end_def)

lemma bs_c_ptr_safe_ok:
  assumes R: "realloc_ok R" and ok: "str_ok s m" "m 0 = None"
  shows "\<exists>s' m'. bs_c_ptr_safe R s m = Some (Ptr s', s', m') \<and> added [] s m s' m' \<and>
    (can R limit s m (unat (str_length s)) \<longrightarrow> load_n m' (Ptr s') (unat (str_length s) + 1) = Some (str_bytes s m @ [0]))"
proof (cases "Ptr s \<noteq> NULL \<and> str_length s < Alloced_length s")
  case True
  then have "unat (str_length s) < unat (Alloced_length s)" by (simp add: word_less_nat_alt)
  then obtain m' where m': "store_n m (bs_end s) [0] = Some m'" "added [] s m s m'"
      "load_n m' (padd (Ptr s) (unat (str_length s))) 1 = Some [0]"
    using poke_ok [OF added_refl [OF ok] ok order_refl] by (auto simp: bs_end_def)
  then show ?thesis using True terminated [OF m'(2) ok _ m'(3)] by (auto simp: bs_c_ptr_safe_def)
next
  case False
  have "unat (str_length s) < 2 ^ 32" using unsigned_less [of "str_length s"] by simp
  then obtain failed s' m' where r: "bs_realloc R (ucast (str_length s)) s m = Some (failed, s', m')" "added [] s m s' m'"
      "\<not> failed \<longrightarrow> unat (str_length s) < unat (Alloced_length s') \<and>
         load_n m' (padd (Ptr s') (unat (str_length s))) 1 = Some [0]"
      "can R limit s m (unat (str_length s)) \<longrightarrow> \<not> failed"
    using bs_realloc_ok [OF R ok, of "ucast (str_length s)" limit] by auto
  moreover have "\<not> failed \<Longrightarrow> Ptr s' \<noteq> NULL" using r by (auto simp: added_def str_ok_def)
  ultimately show ?thesis using False r terminated [OF r(2) ok] by (auto simp: bs_c_ptr_safe_def)
qed

lemma bs_c_ptr_ok:
  assumes R: "realloc_ok R" and ok: "str_ok s m" "m 0 = None" and ptr: "Ptr s \<noteq> NULL"
    and behind: "alloced s \<or> load_n m (bs_end s) 1 \<noteq> None"
  shows "\<exists>s' m'. bs_c_ptr R e s m = Some (Ptr s', s', m') \<and> added [] s m s' m' \<and>
    (can R limit s m (unat (str_length s)) \<longrightarrow> load_n m' (Ptr s') (unat (str_length s) + 1) = Some (str_bytes s m @ [0]))"
proof (cases "\<not> alloced s \<and> load_n m (bs_end s) 1 = Some [0]")
  case True
  then show ?thesis using load_end [OF ok(1) ptr, of 0] added_refl [OF ok] ptr by (auto simp: bs_c_ptr_def)
next
  case False
  then have "bs_c_ptr R e s m = bs_c_ptr_safe R s m"
    using behind ptr by (auto simp: bs_c_ptr_def bs_c_ptr_safe_def)
  then show ?thesis using bs_c_ptr_safe_ok [OF R ok] by simp
qed

section \<open>Lengths that do not fit\<close>

lemma wrapped:
  fixes k l :: "32 word"
  assumes "2 ^ 32 \<le> unat l + unat k"
  shows "unat (k + l) = unat l + unat k - 2 ^ 32" "unat (k + l) < unat l"
proof -
  have "unat l < 2 ^ 32" "unat k < 2 ^ 32" using unsigned_less [of l] unsigned_less [of k] by simp_all
  then show "unat (k + l) = unat l + unat k - 2 ^ 32" "unat (k + l) < unat l"
    using assms by (simp_all add: unat_word_ariths le_mod_geq)
qed

lemma q_append_outside:
  assumes "m (fst (Ptr s)) = Some r" and "snd (Ptr s) = 0" and "length (bytes r) = unat (Alloced_length s)"
    and "unat (Alloced_length s) < unat (str_length s) + unat k" and "k \<noteq> 0"
  shows "q_append False q k s m = None"
  using assms load_length [of m q "unat k"]
  by (cases "load_n m q (unat k)") (auto simp: q_append_def ASSERT_LENGTH_def store_n_def padd_def)

section \<open>Who frees a buffer\<close>

text \<open>
  Some strings, the memory, and the blocks the client got from \<open>my_malloc\<close> or from \<open>release\<close> and has to free
  itself. Every operation that changes the buffer of a string, without assertions.
\<close>

record bs_world =
  strs :: "binary_string list"
  mem :: cmem
  loose :: "nat list"

datatype owner_op = New_block nat "byte list" | Free nat | Set nat cptr "64 word" | Set_const nat cptr "64 word"
  | Set_alloced nat cptr "64 word" "64 word" | Set_part nat nat "64 word" "64 word"
  | Set_buffer nat cptr "64 word" | Reset nat nat "64 word" "64 word" | Release nat
  | Move nat nat | Swap nat nat | Assign nat nat | Copy nat | Grow nat "64 word"

definition put :: "nat \<Rightarrow> binary_string \<times> cmem \<Rightarrow> bs_world \<Rightarrow> bs_world" where
  "put i sm w = w\<lparr>strs := (strs w)[i := fst sm], mem := snd sm\<rparr>"

fun owner_exec :: "realloc_fun \<Rightarrow> owner_op \<Rightarrow> bs_world \<Rightarrow> bs_world option" where
  "owner_exec R (New_block b d) w =
     Some (if b \<noteq> 0 \<and> mem w b = None then w\<lparr>mem := (mem w)(b := Some (Malloced d)), loose := b # loose w\<rparr> else w)"
| "owner_exec R (Free i) w =
     (if i < length (strs w) then map_option (\<lambda>sm. put i sm w) (bs_free (strs w ! i) (mem w)) else Some w)"
| "owner_exec R (Set i p n) w =
     (if i < length (strs w) then map_option (\<lambda>sm. put i sm w) (bs_set False p n (strs w ! i) (mem w)) else Some w)"
| "owner_exec R (Set_const i p n) w =
     (if i < length (strs w) then map_option (\<lambda>sm. put i sm w) (bs_set_const p n (strs w ! i) (mem w)) else Some w)"
| "owner_exec R (Set_alloced i p n k) w =
     (if i < length (strs w) then map_option (\<lambda>sm. put i sm w) (bs_set_alloced False p n k (strs w ! i) (mem w))
      else Some w)"
| "owner_exec R (Set_part i j k n) w =
     (if i < length (strs w) \<and> j < length (strs w)
      then map_option (\<lambda>sm. put i sm w) (bs_set_part (strs w ! j) k n (strs w ! i) (mem w)) else Some w)"
| "owner_exec R (Set_buffer i p n) w =
     Some (if i < length (strs w) then put i (set_buffer_if_not_allocated p n (strs w ! i), mem w) w else w)"
| "owner_exec R (Reset i b n k) w =
     (if i < length (strs w) \<and> b \<in> set (loose w)
      then map_option (\<lambda>sm. (put i sm w)\<lparr>loose := remove1 b (loose w)\<rparr>) (bs_reset False (b, 0) n k (strs w ! i) (mem w))
      else Some w)"
| "owner_exec R (Release i) w =
     Some (if i < length (strs w) then
       (case bs_release (strs w ! i) of (p, s) \<Rightarrow>
          (put i (s, mem w) w)\<lparr>loose := (if alloced (strs w ! i) then fst p # loose w else loose w)\<rparr>)
      else w)"
| "owner_exec R (Move i j) w =
     (if i < length (strs w) \<and> j < length (strs w) \<and> i \<noteq> j
      then map_option (\<lambda>(s, t, m). w\<lparr>strs := (strs w)[i := s, j := t], mem := m\<rparr>)
        (bs_move False (strs w ! i) (strs w ! j) (mem w))
      else Some w)"
| "owner_exec R (Swap i j) w =
     Some (if i < length (strs w) \<and> j < length (strs w) \<and> i \<noteq> j
      then (case bs_swap (strs w ! i) (strs w ! j) of (s, t) \<Rightarrow> w\<lparr>strs := (strs w)[i := s, j := t]\<rparr>) else w)"
| "owner_exec R (Assign i j) w =
     (if i < length (strs w) \<and> j < length (strs w) \<and> i \<noteq> j
      then map_option (\<lambda>sm. put j sm w) (bs_assign False (strs w ! i) (strs w ! j) (mem w)) else Some w)"
| "owner_exec R (Copy i) w =
     Some (if i < length (strs w) then w\<lparr>strs := strs w @ [bs_new_copy (strs w ! i)]\<rparr> else w)"
| "owner_exec R (Grow i n) w =
     Some (if i < length (strs w) \<and> str_ok (strs w ! i) (mem w)
      then put i (snd (R n (strs w ! i) (mem w))) w else w)"

fun destroy_all :: "binary_string list \<Rightarrow> cmem \<Rightarrow> cmem option" where
  "destroy_all [] m = Some m"
| "destroy_all (s # ss) m = do { m \<leftarrow> bs_destroy s m; destroy_all ss m }"

text \<open>Every block is owned once, by the string that frees it or by the client.\<close>

definition own :: "binary_string \<Rightarrow> nat multiset" where
  "own s = (if alloced s then {#fst (Ptr s)#} else {#})"

definition owners_ok :: "bs_world \<Rightarrow> bool" where
  "owners_ok w \<longleftrightarrow> mem w 0 = None \<and> finite (mallocs (mem w)) \<and>
     sum_list (map own (strs w)) + mset (loose w) = mset_set (mallocs (mem w)) \<and>
     (\<forall>s\<in>set (strs w). alloced s \<longrightarrow> snd (Ptr s) = 0)"

lemma own_simps [simp]: "alloced s \<Longrightarrow> own s = {#fst (Ptr s)#}" "\<not> alloced s \<Longrightarrow> own s = {#}"
  by (simp_all add: own_def)

lemma sum_own_update:
  "i < length ss \<Longrightarrow> sum_list (map own (ss[i := s])) + own (ss ! i) = sum_list (map own ss) + own s"
proof (induction ss arbitrary: i)
  case (Cons t ss)
  then show ?case by (cases i) (simp_all add: ac_simps)
qed simp

lemma sum_own_update2:
  assumes "i < length ss" and "j < length ss" and "i \<noteq> j"
  shows "sum_list (map own (ss[i := s, j := t])) + own (ss ! i) + own (ss ! j) = sum_list (map own ss) + own s + own t"
proof -
  have "sum_list (map own (ss[i := s, j := t])) + own (ss ! j) = sum_list (map own (ss[i := s])) + own t"
    using sum_own_update [of j "ss[i := s]" t] assms by simp
  then show ?thesis using sum_own_update [OF assms(1), of s] by (metis (no_types) add.assoc add.commute)
qed

lemma sum_own_elem: "s \<in> set ss \<Longrightarrow> own s \<subseteq># sum_list (map own ss)"
  by (induction ss) (auto intro: subset_mset.order_trans)

lemma mallocs_upd [simp]:
  "mallocs (m(b := None)) = mallocs m - {b}" "mallocs (m(b := Some (Malloced d))) = insert b (mallocs m)"
  by (auto simp: mallocs_def)

text \<open>Freeing the buffer gives up exactly what the string owns.\<close>

lemma free_buffer_ok:
  assumes "mem w 0 = None" and "finite (mallocs (mem w))" and "own s \<subseteq># mset_set (mallocs (mem w))"
    and "alloced s \<longrightarrow> snd (Ptr s) = 0"
  shows "\<exists>m. bs_free_buffer s (mem w) = Some (s\<lparr>alloced := False\<rparr>, m) \<and> m 0 = None \<and> finite (mallocs m) \<and>
    mset_set (mallocs m) + own s = mset_set (mallocs (mem w))"
proof (cases "alloced s")
  case True
  then have b: "fst (Ptr s) \<in> mallocs (mem w)" using assms(2,3) by (simp add: mset_set.remove)
  then obtain d where d: "mem w (fst (Ptr s)) = Some (Malloced d)" by (auto simp: mallocs_def)
  have "bs_free_buffer s (mem w) = Some (s\<lparr>alloced := False\<rparr>, (mem w)(fst (Ptr s) := None))"
    using True d assms(1,4) by (cases "Ptr s = NULL") (auto simp: bs_free_buffer_def my_free_def NULL_def)
  then show ?thesis using True b assms(1,2) mset_set.remove [OF assms(2) b] by simp
next
  case False
  then show ?thesis using assms(1,2) by (cases s) (simp add: bs_free_buffer_def own_def)
qed

lemma owner_free:
  assumes "owners_ok w" and "i < length (strs w)"
  shows "\<exists>m. bs_free_buffer (strs w ! i) (mem w) = Some ((strs w ! i)\<lparr>alloced := False\<rparr>, m) \<and> m 0 = None \<and>
    finite (mallocs m) \<and> mset_set (mallocs m) + own (strs w ! i) = mset_set (mallocs (mem w))"
proof -
  have "own (strs w ! i) \<subseteq># mset_set (mallocs (mem w))"
    using sum_own_elem [of "strs w ! i" "strs w"] assms subset_mset.order_trans [OF _ mset_subset_eq_add_left]
    by (metis nth_mem owners_ok_def)
  then show ?thesis using free_buffer_ok [of w "strs w ! i"] assms by (auto simp: owners_ok_def)
qed

lemma balance:
  fixes x p s n l t t' l' :: "nat multiset"
  assumes "x + p = s + n" and "s + l = t" and "t' + p + l = t + n + l'"
  shows "x + l' = t'"
proof -
  have "(x + l') + (p + l) = (x + p) + l + l'" by (simp add: ac_simps)
  also have "\<dots> = (s + l) + n + l'" using assms(1) by (simp add: ac_simps)
  also have "\<dots> = t' + (p + l)" using assms(2,3) by (simp add: ac_simps)
  finally show ?thesis by simp
qed

lemma put_ok:
  assumes w: "owners_ok w" "i < length (strs w)" and m: "m 0 = None" "finite (mallocs m)"
    and s: "alloced s \<longrightarrow> snd (Ptr s) = 0"
    and bal: "mset_set (mallocs m) + own (strs w ! i) + mset (loose w) = mset_set (mallocs (mem w)) + own s + mset l"
  shows "owners_ok ((put i (s, m) w)\<lparr>loose := l\<rparr>)"
proof -
  have "sum_list (map own ((strs w)[i := s])) + mset l = mset_set (mallocs m)"
    by (rule balance [OF sum_own_update [OF w(2)] _ bal]) (use w(1) in \<open>simp add: owners_ok_def\<close>)
  then show ?thesis using w m s by (auto simp: owners_ok_def put_def dest!: set_update_subset_insert [THEN subsetD])
qed

lemma put_keep:
  assumes "owners_ok w" and "i < length (strs w)" and "m 0 = None" and "finite (mallocs m)"
    and "alloced s \<longrightarrow> snd (Ptr s) = 0"
    and "mset_set (mallocs m) + own (strs w ! i) = mset_set (mallocs (mem w)) + own s"
  shows "owners_ok (put i (s, m) w)"
proof -
  have "owners_ok ((put i (s, m) w)\<lparr>loose := loose w\<rparr>)" by (rule put_ok) (use assms in simp_all)
  then show ?thesis by (simp add: put_def)
qed

lemma two_ok:
  assumes w: "owners_ok w" "i < length (strs w)" "j < length (strs w)" "i \<noteq> j" and m: "m 0 = None" "finite (mallocs m)"
    and s: "alloced s \<longrightarrow> snd (Ptr s) = 0" "alloced t \<longrightarrow> snd (Ptr t) = 0"
    and bal: "mset_set (mallocs m) + (own (strs w ! i) + own (strs w ! j)) = mset_set (mallocs (mem w)) + (own s + own t)"
  shows "owners_ok (w\<lparr>strs := (strs w)[i := s, j := t], mem := m\<rparr>)"
proof -
  have "sum_list (map own ((strs w)[i := s, j := t])) + mset (loose w) = mset_set (mallocs m)"
    by (rule balance [where p = "own (strs w ! i) + own (strs w ! j)" and n = "own s + own t" and
        s = "sum_list (map own (strs w))" and l = "mset (loose w)" and t = "mset_set (mallocs (mem w))"])
      (use sum_own_update2 [OF w(2-4), of s t] w(1) bal in \<open>simp_all add: owners_ok_def ac_simps\<close>)
  then show ?thesis using w m s by (auto simp: owners_ok_def dest!: set_update_subset_insert [THEN subsetD])
qed

text \<open>Growing a string replaces the block it owns.\<close>

lemma grow_ok:
  assumes R: "realloc_ok R" and ok: "str_ok s m" "m 0 = None" and r: "R n s m = (failed, s', m')"
    and fin: "finite (mallocs m)" and own: "own s \<subseteq># mset_set (mallocs m)"
  shows "m' 0 = None \<and> finite (mallocs m') \<and> (alloced s' \<longrightarrow> snd (Ptr s') = 0) \<and>
    mset_set (mallocs m') + own s = mset_set (mallocs m) + own s'"
proof -
  have s': "str_ok s' m'" "m' 0 = None" "frame s m s' m'"
      "s' = s \<and> m' = m \<or> alloced s' \<and> (alloced s \<or> m (fst (Ptr s')) = None) \<and>
       mallocs m' = insert (fst (Ptr s')) (mallocs m - (if alloced s then {fst (Ptr s)} else {}))"
    using R [unfolded realloc_ok_def, rule_format, OF ok r] by (safe; assumption)+
  have off: "alloced s' \<longrightarrow> snd (Ptr s') = 0"
    using s'(1) by (auto simp: str_ok_def split: if_splits option.splits)
  let ?A = "mallocs m - (if alloced s then {fst (Ptr s)} else {})"
  have split: "mset_set (mallocs m) = mset_set ?A + own s"
  proof (cases "alloced s")
    case True
    then have "fst (Ptr s) \<in> mallocs m" using own fin by simp
    then show ?thesis using True fin by (simp add: mset_set.remove)
  qed simp
  show ?thesis
    using s'(4)
  proof
    assume new: "alloced s' \<and> (alloced s \<or> m (fst (Ptr s')) = None) \<and> mallocs m' = insert (fst (Ptr s')) ?A"
    have "fst (Ptr s') \<notin> ?A"
      using new s'(3) by (fastforce simp: frame_def mallocs_def split: if_splits)
    then show ?thesis using new s'(2) off fin split by (simp add: ac_simps)
  qed (use s' off fin in simp)
qed

lemmas buffer_defs = bs_free_def bs_set_def bs_set_const_def bs_set_alloced_def bs_set_part_def bs_reset_def
  bs_assign_def bs_move_def

lemma owner_exec_ok:
  assumes R: "realloc_ok R" and w: "owners_ok w"
  shows "\<exists>w'. owner_exec R op w = Some w' \<and> owners_ok w'"
proof -
  have base: "mem w 0 = None" "finite (mallocs (mem w))"
      "sum_list (map own (strs w)) + mset (loose w) = mset_set (mallocs (mem w))"
      "\<And>i. i < length (strs w) \<Longrightarrow> alloced (strs w ! i) \<longrightarrow> snd (Ptr (strs w ! i)) = 0"
    using w by (auto simp: owners_ok_def)
  have dropped: "\<exists>m. bs_free_buffer (strs w ! i) (mem w) = Some ((strs w ! i)\<lparr>alloced := False\<rparr>, m) \<and>
      (\<forall>s. \<not> alloced s \<longrightarrow> owners_ok (put i (s, m) w))" if i: "i < length (strs w)" for i
    using owner_free [OF w i] put_keep [OF w i] by fastforce
  show ?thesis
  proof (cases op)
    case (New_block b d)
    have "mem w b = None \<Longrightarrow> b \<notin> mallocs (mem w)" by (simp add: mallocs_def)
    then show ?thesis using New_block w base by (auto simp: owners_ok_def)
  next
    case (Free i)
    show ?thesis using Free w dropped [of i] by (cases "i < length (strs w)") (auto simp: buffer_defs Let_def)
  next
    case (Set i p n)
    show ?thesis using Set w dropped [of i] by (cases "i < length (strs w)") (auto simp: buffer_defs Let_def)
  next
    case (Set_const i p n)
    show ?thesis using Set_const w dropped [of i] by (cases "i < length (strs w)") (auto simp: buffer_defs Let_def)
  next
    case (Set_alloced i p n k)
    show ?thesis using Set_alloced w dropped [of i] by (cases "i < length (strs w)") (auto simp: buffer_defs Let_def)
  next
    case (Set_part i j k n)
    show ?thesis using Set_part w dropped [of i] by (cases "i < length (strs w)") (auto simp: buffer_defs Let_def)
  next
    case (Set_buffer i p n)
    show ?thesis
      using Set_buffer w base put_keep [OF w, of i "mem w" "set_buffer_if_not_allocated p n (strs w ! i)"]
      by (auto simp: set_buffer_if_not_allocated_def own_def)
  next
    case (Reset i b n k)
    show ?thesis
    proof (cases "i < length (strs w) \<and> b \<in> set (loose w)")
      case True
      then have i: "i < length (strs w)" and b: "b \<in># mset (loose w)" by simp_all
      obtain m where m: "bs_free_buffer (strs w ! i) (mem w) = Some ((strs w ! i)\<lparr>alloced := False\<rparr>, m)" "m 0 = None"
          "finite (mallocs m)" "mset_set (mallocs m) + own (strs w ! i) = mset_set (mallocs (mem w))"
        using owner_free [OF w i] by blast
      have "b \<in># mset_set (mallocs (mem w))" using b base(3) by (metis union_iff)
      then have "b \<in> mallocs (mem w)" using base(2) by simp
      then have "b \<noteq> 0" using base(1) by (intro notI) (simp add: mallocs_def)
      let ?s = "(strs w ! i)\<lparr>Ptr := (b, 0), str_length := ucast n, Alloced_length := ucast k, alloced := True\<rparr>"
      have "owners_ok ((put i (?s, m) w)\<lparr>loose := remove1 b (loose w)\<rparr>)"
        by (rule put_ok [OF w i m(2,3)]) (use m(4) b in \<open>simp_all add: ac_simps\<close>)
      then show ?thesis using Reset True m(1) \<open>b \<noteq> 0\<close> by (simp add: buffer_defs Let_def NULL_def)
    qed (use Reset w in auto)
  next
    case (Release i)
    show ?thesis
    proof (cases "i < length (strs w)")
      case True
      have "owners_ok ((put i (bs_init_private_data, mem w) w)
          \<lparr>loose := (if alloced (strs w ! i) then fst (Ptr (strs w ! i)) # loose w else loose w)\<rparr>)"
        by (rule put_ok [OF w True base(1,2)]) (simp_all add: bs_init_private_data_def own_def)
      then show ?thesis using Release True by (simp add: bs_release_def)
    qed (use Release w in simp)
  next
    case (Move i j)
    show ?thesis
    proof (cases "i < length (strs w) \<and> j < length (strs w) \<and> i \<noteq> j")
      case True
      then obtain m where m: "bs_free_buffer (strs w ! j) (mem w) = Some ((strs w ! j)\<lparr>alloced := False\<rparr>, m)" "m 0 = None"
          "finite (mallocs m)" "mset_set (mallocs m) + own (strs w ! j) = mset_set (mallocs (mem w))"
        using owner_free [OF w] by blast
      then obtain s t where st: "bs_move False (strs w ! i) (strs w ! j) (mem w) = Some (s, t, m)" "\<not> alloced s"
          "alloced t = alloced (strs w ! i)" "Ptr t = Ptr (strs w ! i)"
        by (auto simp: buffer_defs Let_def)
      have "owners_ok (w\<lparr>strs := (strs w)[i := s, j := t], mem := m\<rparr>)"
        by (rule two_ok [OF w _ _ _ m(2,3)]) (use True st base(4) m(4) in \<open>simp_all add: own_def ac_simps\<close>)
      then show ?thesis using Move True st(1) by simp
    qed (use Move w in auto)
  next
    case (Swap i j)
    show ?thesis
    proof (cases "i < length (strs w) \<and> j < length (strs w) \<and> i \<noteq> j")
      case True
      obtain s t where st: "bs_swap (strs w ! i) (strs w ! j) = (s, t)" "alloced s = alloced (strs w ! j)"
          "Ptr s = Ptr (strs w ! j)" "alloced t = alloced (strs w ! i)" "Ptr t = Ptr (strs w ! i)"
        by (simp add: bs_swap_def)
      have "owners_ok (w\<lparr>strs := (strs w)[i := s, j := t], mem := mem w\<rparr>)"
        by (rule two_ok [OF w _ _ _ base(1,2)]) (use True st base(4) in \<open>simp_all add: own_def ac_simps\<close>)
      then show ?thesis using Swap True st(1) by simp
    qed (use Swap w in auto)
  next
    case (Assign i j)
    show ?thesis using Assign w dropped [of j] by (cases "j < length (strs w)") (auto simp: buffer_defs Let_def)
  next
    case (Copy i)
    show ?thesis using Copy w by (auto simp: owners_ok_def bs_new_copy_def own_def)
  next
    case (Grow i n)
    show ?thesis
    proof (cases "i < length (strs w) \<and> str_ok (strs w ! i) (mem w)")
      case True
      obtain failed s m where r: "R n (strs w ! i) (mem w) = (failed, s, m)" by (cases "R n (strs w ! i) (mem w)") auto
      have "own (strs w ! i) \<subseteq># mset_set (mallocs (mem w))"
        using owner_free [OF w, of i] True by (metis mset_subset_eq_add_right)
      then have g: "m 0 = None" "finite (mallocs m)" "alloced s \<longrightarrow> snd (Ptr s) = 0"
          "mset_set (mallocs m) + own (strs w ! i) = mset_set (mallocs (mem w)) + own s"
        using grow_ok [OF R _ base(1) r base(2)] True by simp_all
      show ?thesis using Grow True r put_keep [OF w _ g] by simp
    qed (use Grow w in auto)
  qed
qed

definition owner_init :: "bs_world \<Rightarrow> bool" where
  "owner_init w \<longleftrightarrow> (\<forall>s\<in>set (strs w). s = bs_new) \<and> mem w 0 = None \<and> mallocs (mem w) = {} \<and> loose w = []"

definition owner_step :: "realloc_fun \<Rightarrow> bs_world \<Rightarrow> bs_world \<Rightarrow> bool" where
  "owner_step R w w' \<longleftrightarrow> realloc_ok R \<and> (\<exists>op. owner_exec R op w = Some w')"

lemma owner_init_ok: "owner_init w \<Longrightarrow> owners_ok w"
proof -
  assume w: "owner_init w"
  have "(\<forall>s\<in>set ss. s = bs_new) \<Longrightarrow> sum_list (map own ss) = {#}" for ss
    by (induction ss) (auto simp: bs_new_def bs_init_private_data_def)
  then show ?thesis
    using w by (auto simp: owner_init_def owners_ok_def bs_new_def bs_init_private_data_def)
qed

lemma owner_step_inv: "owners_ok w \<Longrightarrow> owner_step R w w' \<Longrightarrow> owners_ok w'"
  using owner_exec_ok [of R w] unfolding owner_step_def by (metis option.inject)

interpretation owners: transition_system owner_init "owner_step R" owners_ok
  by unfold_locales (auto simp: owner_init_ok intro: owner_step_inv)

lemma destroy_all_ok:
  "mem w 0 = None \<Longrightarrow> finite (mallocs (mem w)) \<Longrightarrow> sum_list (map own ss) + mset l = mset_set (mallocs (mem w)) \<Longrightarrow>
   (\<forall>s\<in>set ss. alloced s \<longrightarrow> snd (Ptr s) = 0) \<Longrightarrow>
   \<exists>m. destroy_all ss (mem w) = Some m \<and> mset_set (mallocs m) = mset l \<and> finite (mallocs m)"
proof (induction ss arbitrary: w)
  case (Cons s ss)
  have "own s \<subseteq># mset_set (mallocs (mem w))" by (simp add: Cons.prems(3) [symmetric] ac_simps)
  then obtain m where m: "bs_free_buffer s (mem w) = Some (s\<lparr>alloced := False\<rparr>, m)" "m 0 = None" "finite (mallocs m)"
      "mset_set (mallocs m) + own s = mset_set (mallocs (mem w))"
    using free_buffer_ok [of w s] Cons.prems by auto
  have "own s + (sum_list (map own ss) + mset l) = own s + mset_set (mallocs m)"
    using m(4) Cons.prems(3) by (simp add: ac_simps)
  then have "sum_list (map own ss) + mset l = mset_set (mallocs m)" by simp
  then show ?case
    using Cons.IH [of "w\<lparr>mem := m\<rparr>"] m Cons.prems(4) by (simp add: bs_destroy_def bs_free_def Let_def)
qed simp

section \<open>A string appended to itself\<close>

text \<open>When the buffer has to move, \<open>append\<close> reads the argument in the old one, which has been freed.\<close>

lemma append_self_dangles:
  assumes R: "realloc_ok R" and ok: "str_ok s m" "m 0 = None" and own: "alloced s" "str_length s \<noteq> 0"
    and full: "unat (Alloced_length s) \<le> 2 * unat (str_length s)" "2 * unat (str_length s) < 2 ^ 32"
    and can: "can R limit s m (2 * unat (str_length s))"
    and moves: "\<And>n t u f t' u'. R n t u = (f, t', u') \<Longrightarrow> \<not> f \<Longrightarrow> unat (Alloced_length t) < unat n \<Longrightarrow> alloced t \<Longrightarrow>
      u' (fst (Ptr t)) = None"
  shows "bs_append_string debug R s s m = None"
proof -
  let ?n = "ucast (str_length s) + ucast (str_length s) :: 64 word"
  have n: "unat ?n = 2 * unat (str_length s)" using full(2) by (simp add: unat_word_ariths)
  obtain failed t u where r: "realloc_with_extra R ?n s m = Some (failed, t, u)" "\<not> failed"
    using bs_with_extra_ok [OF R ok, of ?n limit] n full(2) can by auto
  have no: "\<not> ?n < ucast (Alloced_length s)" using full(1) n by (simp add: word_less_nat_alt)
  define v where "v = (if extra_alloc s < 4096 then s\<lparr>extra_alloc := extra_alloc s * 2 + 128\<rparr> else s)"
  have v: "Ptr v = Ptr s" "alloced v" "Alloced_length v = Alloced_length s" using own(1) by (simp_all add: v_def)
  obtain f t' u' where r': "R (?n + ucast (extra_alloc v)) v m = (f, t', u')"
    by (cases "R (?n + ucast (extra_alloc v)) v m") auto
  then have st: "\<not> f" "t = t'" "store_n u' (padd (Ptr t') (unat ?n)) [0] = Some u"
    using r by (auto simp: realloc_with_extra_def v_def [symmetric] bind_eq_Some_conv split: if_splits)
  have "unat (ucast (extra_alloc v) :: 64 word) \<noteq> 0"
  proof (cases "extra_alloc s < 4096")
    case True
    then have "unat (extra_alloc s * 2 + 128) = unat (extra_alloc s) * 2 + 128"
      by (simp add: unat_word_ariths word_less_nat_alt)
    then show ?thesis using True by (simp add: v_def)
  next
    case False
    then show ?thesis by (auto simp: v_def unat_eq_zero)
  qed
  moreover have "unat (extra_alloc v) < 2 ^ 32" using unsigned_less [of "extra_alloc v"] by simp
  ultimately have "unat ?n < unat (?n + ucast (extra_alloc v))" using n full(2) by (simp add: unat_word_ariths)
  then have "u' (fst (Ptr s)) = None" using moves [OF r' st(1)] v n full(1) by simp
  then have "u (fst (Ptr s)) = None" using st(3) by (auto simp: store_n_def padd_def split: option.splits if_splits)
  then have "load_n u (Ptr s) (unat (ucast (str_length s) :: 64 word)) = None" by (simp add: load_n_def)
  moreover have "(ucast (str_length s) :: 64 word) \<noteq> 0" using own(2) by (metis unat_0 unat_eq_zero unat_size_t)
  ultimately show ?thesis
    using r no by (simp add: bs_append_string_def bs_append_def realloc_with_extra_if_needed_def q_append_def)
qed

section \<open>A realloc that meets the contract\<close>

text \<open>It always takes a new block.\<close>

definition demo_realloc :: realloc_fun where
  "demo_realloc n s m =
     (if n \<le> ucast (Alloced_length s) then (False, s, m)
      else if 2 ^ 32 \<le> unat n \<or> infinite (dom m) then (True, s, m)
      else let b = Suc (Max (insert 0 (dom m))); k = max (unat n) (unat (str_length s))
        in (False, s\<lparr>Ptr := (b, 0), Alloced_length := of_nat k, alloced := True\<rparr>,
          (if alloced s then m(fst (Ptr s) := None) else m)
            (b := Some (Malloced (str_bytes s m @ replicate (k - unat (str_length s)) 0)))))"

lemma demo_fresh: "finite (dom m) \<Longrightarrow> m (Suc (Max (insert 0 (dom m)))) = None"
proof (rule ccontr)
  assume fin: "finite (dom m)" and some: "m (Suc (Max (insert 0 (dom m)))) \<noteq> None"
  then have "Suc (Max (insert 0 (dom m))) \<in> insert 0 (dom m)" by auto
  then have "Suc (Max (insert 0 (dom m))) \<le> Max (insert 0 (dom m))" using fin by (intro Max_ge) simp_all
  then show False by simp
qed

lemma demo_realloc_ok: "realloc_ok demo_realloc"
  unfolding realloc_ok_def
proof (intro allI impI)
  fix n s m failed s' m'
  assume ok: "str_ok s m" "m 0 = None" and r: "demo_realloc n s m = (failed, s', m')"
  show "str_ok s' m' \<and> m' 0 = None \<and> str_bytes s' m' = str_bytes s m \<and> str_length s' = str_length s \<and>
     extra_alloc s' = extra_alloc s \<and> frame s m s' m' \<and> (finite (dom m) \<longrightarrow> finite (dom m')) \<and>
     (failed \<longrightarrow> s' = s \<and> m' = m) \<and> (\<not> failed \<longrightarrow> n \<le> ucast (Alloced_length s')) \<and>
     (s' = s \<and> m' = m \<or> alloced s' \<and> (alloced s \<or> m (fst (Ptr s')) = None) \<and>
       mallocs m' = insert (fst (Ptr s')) (mallocs m - (if alloced s then {fst (Ptr s)} else {})))"
  proof (cases "n \<le> ucast (Alloced_length s) \<or> 2 ^ 32 \<le> unat n \<or> infinite (dom m)")
    case True
    then show ?thesis using r ok by (auto simp: demo_realloc_def split: if_splits)
  next
    case False
    let ?b = "Suc (Max (insert 0 (dom m)))"
    let ?k = "max (unat n) (unat (str_length s))"
    let ?d = "str_bytes s m @ replicate (?k - unat (str_length s)) 0"
    have fresh: "m ?b = None" using False by (intro demo_fresh) simp
    have k: "?k < 2 ^ 32" using False unsigned_less [of "str_length s"] by simp
    then have ku: "unat (of_nat ?k :: 32 word) = ?k" by (simp add: unat_of_nat take_bit_nat_eq_self)
    have n: "n \<le> ucast (of_nat ?k :: 32 word)" using ku by (simp add: word_le_nat_alt)
    have len: "length (str_bytes s m) = unat (str_length s)" by (rule str_bytes_length [OF ok])
    have res: "failed = False" "s' = s\<lparr>Ptr := (?b, 0), Alloced_length := of_nat ?k, alloced := True\<rparr>"
        "m' = (if alloced s then m(fst (Ptr s) := None) else m)(?b := Some (Malloced ?d))"
      using r False by (auto simp: demo_realloc_def Let_def)
    have "str_ok s' m'" using res ku len by (simp add: str_ok_def NULL_def word_le_nat_alt)
    moreover have "str_bytes s' m' = str_bytes s m"
    proof -
      have "m' (fst (Ptr s')) = Some (Malloced ?d)" "snd (Ptr s') = 0" "str_length s' = str_length s"
        using res by simp_all
      then show ?thesis using len by (simp add: str_bytes_def [of s' m'])
    qed
    moreover have "frame s m s' m'" using res fresh by (auto simp: frame_def)
    moreover have "mallocs m' = insert ?b (mallocs m - (if alloced s then {fst (Ptr s)} else {}))"
      using res by simp
    moreover have "finite (dom m')" using False res by (auto simp: dom_if)
    ultimately show ?thesis using res n fresh ok(2) by auto
  qed
qed

lemma demo_served: "served demo_realloc (2 ^ 32 - 1)"
  by (auto simp: served_def demo_realloc_def Let_def)

section \<open>Properties\<close>


definition demo_mem :: cmem where
  "demo_mem = (\<lambda>b. None)(7 := Some (Foreign [1, 2, 3]))"

definition demo_ops :: "append_op list" where
  "demo_ops = [Append (7, 0) 3, Append_char 9, Append_hex [0xAB], Append_step (7, 1) 2 16]"

lemma demo_mem_ok: "str_ok bs_new demo_mem" "demo_mem 0 = None" "str_bytes bs_new demo_mem = []" "finite (dom demo_mem)"
  by (simp_all add: str_ok_def bs_new_def bs_init_private_data_def demo_mem_def str_bytes_def)


text \<open>C28. Whatever is done with the buffers of some strings, growing, setting, resetting, releasing, moving,
  swapping, assigning and copying them: no operation frees a block that is not the string's own, and
  when the strings are destroyed what is left are exactly the blocks that the client has to free.\<close>

theorem buffers_freed_once:
  assumes "realloc_ok R" and "reach owner_init (owner_step R) w"
  shows "(\<forall>op. owner_exec R op w \<noteq> None) \<and>
    (\<exists>m. destroy_all (strs w) (mem w) = Some m \<and> mallocs m = set (loose w))"
proof -
  have ok: "owners_ok w" by (rule owners.reach_inv [OF assms(2)])
  obtain m where m: "destroy_all (strs w) (mem w) = Some m" "mset_set (mallocs m) = mset (loose w)" "finite (mallocs m)"
    using destroy_all_ok [of w "strs w" "loose w"] ok by (auto simp: owners_ok_def)
  have "mallocs m = set (loose w)" using m(2,3) by (metis finite_set_mset_mset_set set_mset_mset)
  moreover have "owner_exec R op w \<noteq> None" for op using owner_exec_ok [OF assms(1) ok, of op] by auto
  ultimately show ?thesis using m(1) by blast
qed

definition demo_world :: bs_world where
  "demo_world = \<lparr>strs = [bs_new, bs_new], mem = (\<lambda>b. None), loose = []\<rparr>"

lemma buffers_freed_once_witness:
  "\<exists>w m. owner_exec demo_realloc (New_block 5 [1, 2]) demo_world = Some w \<and> loose w = [5] \<and>
     destroy_all (strs w) (mem w) = Some m \<and> mallocs m = {5}"
proof -
  have "owner_init demo_world" by (simp add: owner_init_def demo_world_def mallocs_def)
  moreover have "owner_step demo_realloc demo_world
      (demo_world\<lparr>mem := (mem demo_world)(5 := Some (Malloced [1, 2])), loose := [5]\<rparr>)" (is "owner_step _ _ ?w")
    unfolding owner_step_def using demo_realloc_ok by (intro conjI exI [of _ "New_block 5 [1, 2]"]) (simp_all add: demo_world_def)
  ultimately have "reach owner_init (owner_step demo_realloc) ?w" by (auto intro: reach.intros)
  from buffers_freed_once [OF demo_realloc_ok this] show ?thesis by (auto simp: demo_world_def)
qed

text \<open>\<open>c_ptr\<close> and \<open>c_ptr_safe\<close> of a well-formed string keep its text and give a pointer to it with a NUL behind
  it when the memory is there; \<open>c_ptr\<close> relies on the byte behind a buffer the string does not own.\<close>

theorem c_ptr_terminated:
  assumes "realloc_ok R" and "str_ok s m" and "m 0 = None" and "can R limit s m (unat (str_length s))"
    and "safe \<or> Ptr s \<noteq> NULL \<and> (alloced s \<or> load_n m (bs_end s) 1 \<noteq> None)"
  shows "\<exists>p s' m'. (if safe then bs_c_ptr_safe R s m else bs_c_ptr R e s m) = Some (p, s', m') \<and> str_ok s' m' \<and>
    frame s m s' m' \<and> str_bytes s' m' = str_bytes s m \<and>
    load_n m' p (unat (str_length s) + 1) = Some (str_bytes s m @ [0])"
proof -
  have "\<exists>s' m'. (if safe then bs_c_ptr_safe R s m else bs_c_ptr R e s m) = Some (Ptr s', s', m') \<and>
      added [] s m s' m' \<and> load_n m' (Ptr s') (unat (str_length s) + 1) = Some (str_bytes s m @ [0])"
    using bs_c_ptr_safe_ok [OF assms(1-3), of limit] bs_c_ptr_ok [OF assms(1-3), of e limit] assms(4,5)
    by (cases safe) auto
  then obtain s' m' where "(if safe then bs_c_ptr_safe R s m else bs_c_ptr R e s m) = Some (Ptr s', s', m')"
      "added [] s m s' m'" "load_n m' (Ptr s') (unat (str_length s) + 1) = Some (str_bytes s m @ [0])" by blast
  then show ?thesis by (intro exI [of _ "Ptr s'"] exI [of _ s'] exI [of _ m']) (simp add: added_def)
qed

lemma c_ptr_terminated_witness:
  "\<exists>p s' m'. bs_c_ptr demo_realloc NULL (bs_new_const (7, 0) 2) demo_mem = Some (p, s', m') \<and>
    load_n m' p 3 = Some [1, 2, 0]"
proof -
  let ?s = "bs_new_const (7, 0) 2"
  have s: "str_ok ?s demo_mem" "str_bytes ?s demo_mem = [1, 2]" "load_n demo_mem (bs_end ?s) 1 \<noteq> None" "Ptr ?s \<noteq> NULL"
      "unat (str_length ?s) = 2"
    by (simp_all add: str_ok_def bs_new_const_def NULL_def demo_mem_def str_bytes_def load_n_def bs_end_def padd_def)
  have "can demo_realloc (2 ^ 32 - 1) ?s demo_mem 2"
    using demo_served demo_mem_ok(4) by (simp add: can_def bs_new_const_def)
  then show ?thesis
    using c_ptr_terminated [OF demo_realloc_ok s(1) demo_mem_ok(2), of "2 ^ 32 - 1" False NULL] s by auto
qed

text \<open>\<open>append_with_step\<close> and \<open>prep_append\<close> add the lengths in 32 bits: when the sum does not fit, they see no need
  to grow the buffer; the first one then writes behind it, and the second one gives an area and a length
  that is less than before.\<close>

theorem step_append_wraps:
  assumes "str_ok s m" and "alloced s" and "2 ^ 32 \<le> unat (str_length s) + unat k"
  shows "append_with_step False R q k step_alloc s m = None \<and>
    (\<exists>s'. prep_append R k step_alloc s m = Some (padd (Ptr s) (unat (str_length s)), s', m) \<and>
      unat (str_length s') < unat (str_length s))"
proof -
  have ptr: "Ptr s \<noteq> NULL" using assms(1,2) by (auto simp: str_ok_def)
  then obtain r where r: "m (fst (Ptr s)) = Some r" "snd (Ptr s) = 0" "length (bytes r) = unat (Alloced_length s)"
      "unat (str_length s) \<le> unat (Alloced_length s)"
    using assms(1,2) by (auto elim!: str_ok_block)
  have w: "unat (k + str_length s) < unat (str_length s)" by (rule wrapped [OF assms(3)])
  then have fits: "\<not> k + str_length s > Alloced_length s" using r(4) by (simp add: word_less_nat_alt)
  have "k \<noteq> 0" using w by auto
  moreover have "unat (Alloced_length s) < unat (str_length s) + unat k"
  proof -
    have "unat (Alloced_length s) < 2 ^ 32" using unsigned_less [of "Alloced_length s"] by simp
    then show ?thesis using assms(3) by simp
  qed
  ultimately have "q_append False q (ucast k) s m = None"
    using q_append_outside [of m s r "ucast k" q] r by (metis unat_0 unat_eq_zero unat_size_t)
  then show ?thesis using fits w by (simp add: append_with_step_def prep_append_def Let_def add.commute)
qed

definition big_mem :: cmem where
  "big_mem = (\<lambda>b. None)(1 := Some (Malloced (replicate (2 ^ 31) 0)), 2 := Some (Foreign (replicate (2 ^ 31) 1)))"

definition big_string :: binary_string where
  "big_string = \<lparr>Ptr = (1, 0), str_length = 0x80000000, Alloced_length = 0x80000000, extra_alloc = 0,
     alloced = True, thread_specific = False\<rparr>"

lemma step_append_wraps_witness:
  "load_n big_mem (2, 0) (2 ^ 31) \<noteq> None \<and> append_with_step False demo_realloc (2, 0) 0x80000000 0 big_string big_mem = None"
proof -
  have "str_ok big_string big_mem" by (simp add: str_ok_def big_string_def big_mem_def NULL_def)
  then show ?thesis
    using step_append_wraps [of big_string big_mem "0x80000000" demo_realloc "(2, 0)" 0]
    by (simp add: big_string_def big_mem_def load_n_def)
qed

end
