(* ===== verification/Bounded_Queue.thy ===== *)
theory Bounded_Queue
  imports Prelude "HOL-Library.Word" "HOL-Library.Multiset"
begin

text \<open>
  \<open>Bounded_queue\<close> of \<open>private/bounded_queue.h\<close>, on the \<open>QUEUE\<close> of \<open>private/queues.h\<close>: the best \<open>max_elements\<close> of the
  elements pushed. The queue holds pointers to keys, here the numbers of the key buffers, and the code
  overwrites a key through the pointer. The functions of the queue that the header only declares are
  parameters, with the contract \<open>queue_ok\<close>; \<open>debug\<close> says whether the build has assertions.
\<close>

section \<open>QUEUE\<close>

text \<open>The elements of \<open>root\<close> are \<open>root[1]\<close> to \<open>root[elements]\<close>.\<close>

record st_queue =
  root :: "nat list"
  max_elements :: "32 word"
  max_at_top :: bool

definition elements :: "st_queue \<Rightarrow> 32 word" where
  "elements q = of_nat (length (root q))"

definition queue_first_element :: nat where "queue_first_element = 1"

definition queue_element :: "st_queue \<Rightarrow> nat \<Rightarrow> nat option" where
  "queue_element q i = (if 1 \<le> i \<and> i \<le> length (root q) then Some (root q ! (i - 1)) else None)"

definition queue_top :: "st_queue \<Rightarrow> nat option" where
  "queue_top q = queue_element q 1"

definition queue_empty :: "st_queue \<Rightarrow> bool" where
  "queue_empty q \<longleftrightarrow> elements q = 0"

definition queue_is_full :: "st_queue \<Rightarrow> bool" where
  "queue_is_full q \<longleftrightarrow> elements q = max_elements q"

definition queue_remove_all :: "st_queue \<Rightarrow> st_queue" where
  "queue_remove_all q = q\<lparr>root := []\<rparr>"

text \<open>What is declared: each function compares through the keys.\<close>

record 'k queue_funs =
  f_init_queue :: "32 word \<Rightarrow> bool \<Rightarrow> st_queue \<Rightarrow> int \<times> st_queue"
  f_queue_insert :: "(nat \<Rightarrow> 'k) \<Rightarrow> nat \<Rightarrow> st_queue \<Rightarrow> st_queue"
  f_downheap :: "(nat \<Rightarrow> 'k) \<Rightarrow> nat \<Rightarrow> st_queue \<Rightarrow> st_queue"
  f_queue_remove :: "(nat \<Rightarrow> 'k) \<Rightarrow> nat \<Rightarrow> st_queue \<Rightarrow> (nat \<times> st_queue) option"

definition queue_replace_top :: "('k, 'z) queue_funs_scheme \<Rightarrow> (nat \<Rightarrow> 'k) \<Rightarrow> st_queue \<Rightarrow> st_queue" where
  "queue_replace_top Q keys q = f_downheap Q keys 1 q"

definition queue_remove_top :: "('k, 'z) queue_funs_scheme \<Rightarrow> (nat \<Rightarrow> 'k) \<Rightarrow> st_queue \<Rightarrow> (nat \<times> st_queue) option" where
  "queue_remove_top Q keys q = f_queue_remove Q keys queue_first_element q"

section \<open>Bounded\_queue\<close>

text \<open>\<open>m_keys\<close> are the key buffers that \<open>m_sort_keys\<close> points to; \<open>make_key\<close> is the key the keymaker writes.\<close>

record 'k bounded_queue =
  m_queue :: st_queue
  m_keys :: "nat \<Rightarrow> 'k"

definition bounded_queue_new :: "(nat \<Rightarrow> 'k) \<Rightarrow> 'k bounded_queue" where
  "bounded_queue_new keys = \<lparr>m_queue = \<lparr>root = [], max_elements = 0, max_at_top = False\<rparr>, m_keys = keys\<rparr>"

definition is_initialized :: "'k bounded_queue \<Rightarrow> bool" where
  "is_initialized b \<longleftrightarrow> max_elements (m_queue b) > 0"

definition num_elements :: "'k bounded_queue \<Rightarrow> 32 word" where
  "num_elements b = elements (m_queue b)"

definition bounded_queue_init ::
  "('k, 'z) queue_funs_scheme \<Rightarrow> 64 word \<Rightarrow> bool \<Rightarrow> 'k bounded_queue \<Rightarrow> int \<times> 'k bounded_queue" where
  "bounded_queue_init Q max_elems top_max b =
     (if max_elems \<ge> 0xFFFFFFFF - 1 then (1, b)
      else case f_init_queue Q (ucast max_elems + 1) top_max (m_queue b) of (r, q) \<Rightarrow> (r, b\<lparr>m_queue := q\<rparr>))"

definition bounded_queue_push ::
  "bool \<Rightarrow> ('k, 'z) queue_funs_scheme \<Rightarrow> ('e \<Rightarrow> 'k) \<Rightarrow> 'e \<Rightarrow> 'k bounded_queue \<Rightarrow> 'k bounded_queue option" where
  "bounded_queue_push debug Q make_key element b =
     (if debug \<and> \<not> is_initialized b then None
      else if queue_is_full (m_queue b) then do {
        pq_top \<leftarrow> queue_top (m_queue b);
        let b = b\<lparr>m_keys := (m_keys b)(pq_top := make_key element)\<rparr>;
        Some (b\<lparr>m_queue := queue_replace_top Q (m_keys b) (m_queue b)\<rparr>)
      } else
        (let slot = unat (elements (m_queue b));
             b = b\<lparr>m_keys := (m_keys b)(slot := make_key element)\<rparr>
         in Some (b\<lparr>m_queue := f_queue_insert Q (m_keys b) slot (m_queue b)\<rparr>)))"

definition bounded_queue_pop ::
  "bool \<Rightarrow> ('k, 'z) queue_funs_scheme \<Rightarrow> 'k bounded_queue \<Rightarrow> (nat option \<times> 'k bounded_queue) option" where
  "bounded_queue_pop debug Q b = do {
     q \<leftarrow> (if queue_is_full (m_queue b)
       then map_option snd (f_queue_remove Q (m_keys b) 0 (m_queue b)) else Some (m_queue b));
     let b = b\<lparr>m_queue := q\<rparr>;
     if debug \<and> \<not> elements (m_queue b) > 0 then None
     else if elements (m_queue b) = 0 then Some (None, b)
     else do {
       (slot, q) \<leftarrow> f_queue_remove Q (m_keys b) 0 (m_queue b);
       Some (Some slot, b\<lparr>m_queue := q\<rparr>) } }"

section \<open>The contract of the queue\<close>

text \<open>\<open>ahead\<close>: the key that the queue gives first, the worst one of those it keeps.\<close>

definition ahead :: "bool \<Rightarrow> 'k::linorder \<Rightarrow> 'k \<Rightarrow> bool" where
  "ahead top_max a b \<longleftrightarrow> (if top_max then a \<ge> b else a \<le> b)"

text \<open>
  \<open>qinv\<close> is the order the queue keeps among its elements. Inserting adds an element, \<open>_downheap\<close> of the first
  element restores the order after its key has changed, removing an element takes it out; and the first
  element is ahead of all.
\<close>

definition queue_ok :: "('k::linorder, 'z) queue_funs_scheme \<Rightarrow> ((nat \<Rightarrow> 'k) \<Rightarrow> st_queue \<Rightarrow> bool) \<Rightarrow> bool" where
  "queue_ok Q qinv \<longleftrightarrow>
     (\<forall>n top_max q0 q. f_init_queue Q n top_max q0 = (0, q) \<longrightarrow> q = \<lparr>root = [], max_elements = n, max_at_top = top_max\<rparr>) \<and>
     (\<forall>keys q. root q = [] \<longrightarrow> qinv keys q) \<and>
     (\<forall>keys q s k. qinv keys q \<longrightarrow> s \<notin> set (root q) \<longrightarrow> qinv (keys(s := k)) q) \<and>
     (\<forall>keys q s. qinv keys q \<longrightarrow> s \<notin> set (root q) \<longrightarrow> elements q < max_elements q \<longrightarrow>
        (\<exists>r. f_queue_insert Q keys s q = q\<lparr>root := r\<rparr> \<and> mset r = add_mset s (mset (root q)) \<and>
          qinv keys (q\<lparr>root := r\<rparr>))) \<and>
     (\<forall>keys q k. qinv keys q \<longrightarrow> root q \<noteq> [] \<longrightarrow>
        (\<exists>r. f_downheap Q (keys(hd (root q) := k)) 1 q = q\<lparr>root := r\<rparr> \<and> mset r = mset (root q) \<and>
          qinv (keys(hd (root q) := k)) (q\<lparr>root := r\<rparr>))) \<and>
     (\<forall>keys q i. qinv keys q \<longrightarrow> 1 \<le> i \<longrightarrow> i \<le> length (root q) \<longrightarrow>
        (\<exists>r. f_queue_remove Q keys i q = Some (root q ! (i - 1), q\<lparr>root := r\<rparr>) \<and>
          mset r = mset (root q) - {#root q ! (i - 1)#} \<and> qinv keys (q\<lparr>root := r\<rparr>))) \<and>
     (\<forall>keys q s. qinv keys q \<longrightarrow> s \<in> set (root q) \<longrightarrow> ahead (max_at_top q) (keys (hd (root q))) (keys s))"

lemma queue_ok_D:
  assumes c: "queue_ok Q qinv"
  shows "f_init_queue Q n t q0 = (0, q) \<Longrightarrow> q = \<lparr>root = [], max_elements = n, max_at_top = t\<rparr>"
    "root q = [] \<Longrightarrow> qinv keys q"
    "qinv keys q \<Longrightarrow> s \<notin> set (root q) \<Longrightarrow> qinv (keys(s := k)) q"
    "qinv keys q \<Longrightarrow> s \<notin> set (root q) \<Longrightarrow> elements q < max_elements q \<Longrightarrow>
        \<exists>r. f_queue_insert Q keys s q = q\<lparr>root := r\<rparr> \<and> mset r = add_mset s (mset (root q)) \<and> qinv keys (q\<lparr>root := r\<rparr>)"
    "qinv keys q \<Longrightarrow> root q \<noteq> [] \<Longrightarrow>
        \<exists>r. f_downheap Q (keys(hd (root q) := k)) 1 q = q\<lparr>root := r\<rparr> \<and> mset r = mset (root q) \<and>
          qinv (keys(hd (root q) := k)) (q\<lparr>root := r\<rparr>)"
    "qinv keys q \<Longrightarrow> s \<in> set (root q) \<Longrightarrow> ahead (max_at_top q) (keys (hd (root q))) (keys s)"
proof -
  note c = c [unfolded queue_ok_def]
  show "f_init_queue Q n t q0 = (0, q) \<Longrightarrow> q = \<lparr>root = [], max_elements = n, max_at_top = t\<rparr>"
    by (rule c [THEN conjunct1, rule_format])
  show "root q = [] \<Longrightarrow> qinv keys q" by (rule c [THEN conjunct2, THEN conjunct1, rule_format])
  show "qinv keys q \<Longrightarrow> s \<notin> set (root q) \<Longrightarrow> qinv (keys(s := k)) q" by (rule c [THEN conjunct2, THEN conjunct2, THEN conjunct1, rule_format])
  show "qinv keys q \<Longrightarrow> s \<notin> set (root q) \<Longrightarrow> elements q < max_elements q \<Longrightarrow>
      \<exists>r. f_queue_insert Q keys s q = q\<lparr>root := r\<rparr> \<and> mset r = add_mset s (mset (root q)) \<and> qinv keys (q\<lparr>root := r\<rparr>)"
    by (rule c [THEN conjunct2, THEN conjunct2, THEN conjunct2, THEN conjunct1, rule_format])
  show "qinv keys q \<Longrightarrow> root q \<noteq> [] \<Longrightarrow>
      \<exists>r. f_downheap Q (keys(hd (root q) := k)) 1 q = q\<lparr>root := r\<rparr> \<and> mset r = mset (root q) \<and>
        qinv (keys(hd (root q) := k)) (q\<lparr>root := r\<rparr>)"
    by (rule c [THEN conjunct2, THEN conjunct2, THEN conjunct2, THEN conjunct2, THEN conjunct1, rule_format])
  show "qinv keys q \<Longrightarrow> s \<in> set (root q) \<Longrightarrow> ahead (max_at_top q) (keys (hd (root q))) (keys s)"
    by (rule c [THEN conjunct2, THEN conjunct2, THEN conjunct2, THEN conjunct2, THEN conjunct2, THEN conjunct2, rule_format])
qed

section \<open>The best keys\<close>

text \<open>Keys in the order in which the queue gives them last: the best first.\<close>

definition ordered :: "bool \<Rightarrow> 'k::linorder list \<Rightarrow> 'k list" where
  "ordered top_max xs = (if top_max then sort xs else rev (sort xs))"

fun place :: "bool \<Rightarrow> 'k::linorder \<Rightarrow> 'k list \<Rightarrow> 'k list" where
  "place top_max x [] = [x]"
| "place top_max x (y # ys) = (if ahead top_max y x then x # y # ys else y # place top_max x ys)"

lemma take_place: "take n (place t x ys) = take n (place t x (take n ys))"
proof (induction ys arbitrary: n)
  case (Cons y ys)
  show ?case
  proof (cases n)
    case (Suc k)
    then show ?thesis using Cons.IH [of k] by (cases k) (auto simp: take_Cons')
  qed simp
qed simp

lemma mset_place [simp]: "mset (place t x ys) = add_mset x (mset ys)"
  by (induction ys) auto

lemma ahead_trans: "ahead t a b \<Longrightarrow> ahead t b c \<Longrightarrow> ahead t a c"
  by (auto simp: ahead_def split: if_splits)

lemma ahead_total: "ahead t a b \<or> ahead t b a"
  by (auto simp: ahead_def)

lemma ahead_antisym: "ahead t a b \<Longrightarrow> ahead t b a \<Longrightarrow> a = b"
  by (auto simp: ahead_def split: if_splits)

abbreviation sorted_best :: "bool \<Rightarrow> 'k::linorder list \<Rightarrow> bool" where
  "sorted_best t xs \<equiv> sorted_wrt (\<lambda>a b. ahead t b a) xs"

lemma sorted_best_ordered: "sorted_best t (ordered t xs)"
  by (auto simp: ordered_def ahead_def sorted_wrt_rev)

lemma sorted_best_unique: "sorted_best t xs \<Longrightarrow> sorted_best t ys \<Longrightarrow> mset xs = mset ys \<Longrightarrow> xs = ys"
proof (induction xs arbitrary: ys)
  case (Cons x xs)
  then obtain y zs where ys: "ys = y # zs" by (cases ys) auto
  have "x \<in> set ys" "y \<in> set (x # xs)" using Cons.prems(3) ys by (metis list.set_intros(1) set_mset_mset)+
  then have "x = y" using Cons.prems(1,2) ys by (auto intro: ahead_antisym)
  then show ?case using Cons ys by auto
qed simp

lemma sorted_best_place: "sorted_best t ys \<Longrightarrow> sorted_best t (place t x ys)"
proof (induction ys)
  case (Cons y ys)
  show ?case
  proof (cases "ahead t y x")
    case True
    then show ?thesis using Cons.prems by (auto intro: ahead_trans)
  next
    case False
    then have "ahead t x y" using ahead_total by blast
    moreover have "set (place t x ys) = insert x (set ys)" by (metis mset_place set_mset_add_mset_insert set_mset_mset)
    ultimately show ?thesis using False Cons by auto
  qed
qed simp

lemma ordered_mset [simp]: "mset (ordered t xs) = mset xs"
  by (simp add: ordered_def)

lemma ordered_add: "ordered t (x # xs) = place t x (ordered t xs)"
  by (rule sorted_best_unique [of t]) (simp_all add: sorted_best_ordered sorted_best_place)

lemma ordered_cong: "mset xs = mset ys \<Longrightarrow> ordered t xs = ordered t ys"
  by (rule sorted_best_unique [of t]) (simp_all add: sorted_best_ordered)

lemma ordered_worst: "\<forall>r\<in>set rs. ahead t x r \<Longrightarrow> ordered t (x # rs) = ordered t rs @ [x]"
proof (rule sorted_best_unique [of t])
  assume "\<forall>r\<in>set rs. ahead t x r"
  moreover have "set (ordered t rs) = set rs" by (metis ordered_mset set_mset_mset)
  ultimately show "sorted_best t (ordered t rs @ [x])" using sorted_best_ordered [of t rs] by (simp add: sorted_wrt_append)
qed (simp_all add: sorted_best_ordered)

section \<open>Pushing\<close>

fun push_all ::
  "bool \<Rightarrow> ('k, 'z) queue_funs_scheme \<Rightarrow> ('e \<Rightarrow> 'k) \<Rightarrow> 'e list \<Rightarrow> 'k bounded_queue \<Rightarrow> 'k bounded_queue option" where
  "push_all debug Q make_key [] b = Some b"
| "push_all debug Q make_key (e # es) b = do {
     b \<leftarrow> bounded_queue_push debug Q make_key e b;
     push_all debug Q make_key es b }"

definition queue_keys :: "'k bounded_queue \<Rightarrow> 'k list" where
  "queue_keys b = map (m_keys b) (root (m_queue b))"

text \<open>The queue has room for one key more than it has to keep, and keeps the best of those seen.\<close>

definition bq_ok :: "((nat \<Rightarrow> 'k::linorder) \<Rightarrow> st_queue \<Rightarrow> bool) \<Rightarrow> bool \<Rightarrow> nat \<Rightarrow> 'k list \<Rightarrow> 'k bounded_queue \<Rightarrow> bool" where
  "bq_ok qinv t n seen b \<longleftrightarrow> qinv (m_keys b) (m_queue b) \<and> max_at_top (m_queue b) = t \<and>
     max_elements (m_queue b) = of_nat (n + 1) \<and> n + 1 < 2 ^ 32 \<and>
     distinct (root (m_queue b)) \<and> set (root (m_queue b)) = {0..<min (n + 1) (length seen)} \<and>
     take n (ordered t (queue_keys b)) = take n (ordered t seen)"

lemma bq_length: "bq_ok qinv t n seen b \<Longrightarrow> length (root (m_queue b)) = min (n + 1) (length seen)"
  using distinct_card [of "root (m_queue b)"] by (simp add: bq_ok_def)

lemma elements_unat: "length (root q) < 2 ^ 32 \<Longrightarrow> unat (elements q) = length (root q)"
  by (simp add: elements_def unat_of_nat take_bit_nat_eq_self)

lemma bq_full: "bq_ok qinv t n seen b \<Longrightarrow> queue_is_full (m_queue b) \<longleftrightarrow> n + 1 \<le> length seen"
proof -
  assume ok: "bq_ok qinv t n seen b"
  then have l: "length (root (m_queue b)) = min (n + 1) (length seen)" "n + 1 < 2 ^ 32"
    using bq_length [OF ok] by (simp_all add: bq_ok_def)
  then have "unat (elements (m_queue b)) = min (n + 1) (length seen)" by (simp add: elements_unat)
  moreover have "unat (max_elements (m_queue b)) = n + 1"
    using ok l(2) by (simp add: bq_ok_def unat_of_nat take_bit_nat_eq_self del: of_nat_Suc)
  ultimately show ?thesis by (auto simp: queue_is_full_def word_unat_eq_iff)
qed

lemma push_ok:
  assumes Q: "queue_ok Q qinv" and ok: "bq_ok qinv t n seen b"
  shows "\<exists>b'. bounded_queue_push debug Q make_key e b = Some b' \<and> bq_ok qinv t n (make_key e # seen) b'"
proof -
  let ?q = "m_queue b" and ?x = "make_key e"
  have b: "qinv (m_keys b) ?q" "max_at_top ?q = t" "max_elements ?q = of_nat (n + 1)" "n + 1 < 2 ^ 32"
      "distinct (root ?q)" "set (root ?q) = {0..<min (n + 1) (length seen)}"
      "take n (ordered t (queue_keys b)) = take n (ordered t seen)"
    using ok by (simp_all add: bq_ok_def)
  have len: "length (root ?q) = min (n + 1) (length seen)" by (rule bq_length [OF ok])
  have "is_initialized b" using b(3,4)
    by (simp add: is_initialized_def word_gt_0 word_unat_eq_iff unat_of_nat take_bit_nat_eq_self del: of_nat_Suc)
  show ?thesis
  proof (cases "n + 1 \<le> length seen")
    case True
    then obtain top rest where root: "root ?q = top # rest" using len by (cases "root ?q") auto
    let ?k = "(m_keys b)(top := ?x)"
    obtain r where r: "f_downheap Q ?k 1 ?q = ?q\<lparr>root := r\<rparr>" "mset r = mset (root ?q)" "qinv ?k (?q\<lparr>root := r\<rparr>)"
      using queue_ok_D(5) [OF Q b(1), of ?x] by (auto simp only: root list.sel)
    let ?b = "b\<lparr>m_keys := ?k, m_queue := ?q\<lparr>root := r\<rparr>\<rparr>"
    have push: "bounded_queue_push debug Q make_key e b = Some ?b"
      using \<open>is_initialized b\<close> bq_full [OF ok] True root r(1)
      by (simp add: bounded_queue_push_def queue_top_def queue_element_def queue_replace_top_def Let_def)
    have "\<And>s. s \<in> set (root ?q) \<Longrightarrow> ahead (max_at_top ?q) (m_keys b (hd (root ?q))) (m_keys b s)"
      by (rule queue_ok_D(6) [OF Q b(1)])
    then have worst: "\<forall>k\<in>set (map (m_keys b) rest). ahead t (m_keys b top) k" using root b(2) by auto
    have "length (map (m_keys b) rest) = n" using len True root by simp
    then have best: "take n (ordered t (queue_keys b)) = ordered t (map (m_keys b) rest)"
      using ordered_worst [OF worst] root by (simp add: queue_keys_def ordered_def)
    have "map ?k (top # rest) = ?x # map (m_keys b) rest" using root b(5) by auto
    then have "mset (map ?k r) = mset (?x # map (m_keys b) rest)" by (metis mset_map r(2) root)
    then have "ordered t (queue_keys ?b) = place t ?x (ordered t (map (m_keys b) rest))"
      by (simp add: queue_keys_def ordered_cong [of "map ?k r" "?x # map (m_keys b) rest"] ordered_add)
    then have "take n (ordered t (queue_keys ?b)) = take n (place t ?x (take n (ordered t seen)))"
      using best b(7) by simp
    also have "\<dots> = take n (ordered t (?x # seen))" by (simp add: ordered_add take_place [symmetric])
    finally have "bq_ok qinv t n (?x # seen) ?b"
      using r b True mset_eq_imp_distinct_iff [OF r(2)] mset_eq_setD [OF r(2)] by (simp add: bq_ok_def min_def)
    then show ?thesis using push by blast
  next
    case False
    let ?s = "length (root ?q)"
    have s: "?s = length seen" "?s \<notin> set (root ?q)" "?s < 2 ^ 32" using len b(6) False b(4) by simp_all
    let ?k = "(m_keys b)(?s := ?x)"
    have "elements ?q < max_elements ?q"
      using s False b(3,4) by (simp add: word_less_nat_alt elements_unat unat_of_nat take_bit_nat_eq_self del: of_nat_Suc)
    then obtain r where r: "f_queue_insert Q ?k ?s ?q = ?q\<lparr>root := r\<rparr>" "mset r = add_mset ?s (mset (root ?q))"
        "qinv ?k (?q\<lparr>root := r\<rparr>)"
      using queue_ok_D(4) [OF Q queue_ok_D(3) [OF Q b(1) s(2)] s(2)] by blast
    let ?b = "b\<lparr>m_keys := ?k, m_queue := ?q\<lparr>root := r\<rparr>\<rparr>"
    have push: "bounded_queue_push debug Q make_key e b = Some ?b"
      using \<open>is_initialized b\<close> bq_full [OF ok] False r(1) elements_unat [OF s(3)]
      by (simp add: bounded_queue_push_def Let_def)
    have "map ?k (?s # root ?q) = ?x # map (m_keys b) (root ?q)" using s(2) by auto
    then have "mset (map ?k r) = mset (?x # map (m_keys b) (root ?q))" by (metis mset.simps(2) mset_map r(2))
    then have "ordered t (queue_keys ?b) = place t ?x (ordered t (queue_keys b))"
      by (simp add: queue_keys_def ordered_cong [of "map ?k r" "?x # map (m_keys b) (root ?q)"] ordered_add)
    then have "take n (ordered t (queue_keys ?b)) = take n (place t ?x (take n (ordered t seen)))"
      using b(7) by (metis take_place)
    also have "\<dots> = take n (ordered t (?x # seen))" by (simp add: ordered_add take_place [symmetric])
    finally have t: "take n (ordered t (queue_keys ?b)) = take n (ordered t (?x # seen))" .
    have "mset r = mset (?s # root ?q)" using r(2) by simp
    then have "distinct r" "set r = insert ?s (set (root ?q))"
      using b(5) s(2) by (metis distinct.simps(2) mset_eq_imp_distinct_iff, metis list.simps(15) mset_eq_setD)
    then have "bq_ok qinv t n (?x # seen) ?b"
      using r(3) b t False s(1) by (auto simp: bq_ok_def min_def)
    then show ?thesis using push by blast
  qed
qed

lemma push_all_ok:
  assumes "queue_ok Q qinv"
  shows "bq_ok qinv t n seen b \<Longrightarrow>
    \<exists>b'. push_all debug Q make_key es b = Some b' \<and> bq_ok qinv t n (rev (map make_key es) @ seen) b'"
proof (induction es arbitrary: seen b)
  case (Cons e es)
  obtain b1 where "bounded_queue_push debug Q make_key e b = Some b1" "bq_ok qinv t n (make_key e # seen) b1"
    using push_ok [OF assms Cons.prems, of debug make_key e] by blast
  then show ?case using Cons.IH [of "make_key e # seen" b1] by simp
qed auto

section \<open>A queue that meets the contract\<close>

text \<open>It keeps its elements sorted, the one it gives first in front.\<close>

definition resort :: "(nat \<Rightarrow> 'k::linorder) \<Rightarrow> st_queue \<Rightarrow> st_queue" where
  "resort keys q = q\<lparr>root := (if max_at_top q then rev (sort_key keys (root q)) else sort_key keys (root q))\<rparr>"

definition sorted_queue :: "'k::linorder queue_funs" where
  "sorted_queue = \<lparr>f_init_queue = (\<lambda>n t q. (0, \<lparr>root = [], max_elements = n, max_at_top = t\<rparr>)),
     f_queue_insert = (\<lambda>keys s q. resort keys (q\<lparr>root := s # root q\<rparr>)),
     f_downheap = (\<lambda>keys i q. resort keys q),
     f_queue_remove = (\<lambda>keys i q. if 1 \<le> i \<and> i \<le> length (root q)
       then Some (root q ! (i - 1), q\<lparr>root := take (i - 1) (root q) @ drop i (root q)\<rparr>) else None)\<rparr>"

definition sorted_inv :: "(nat \<Rightarrow> 'k::linorder) \<Rightarrow> st_queue \<Rightarrow> bool" where
  "sorted_inv keys q \<longleftrightarrow> sorted_wrt (\<lambda>a b. ahead (max_at_top q) (keys a) (keys b)) (root q)"

lemma resort_ok: "\<exists>r. resort keys q = q\<lparr>root := r\<rparr> \<and> mset r = mset (root q) \<and> sorted_inv keys (q\<lparr>root := r\<rparr>)"
proof -
  have "sorted_wrt (\<lambda>a b. keys a \<le> keys b) (sort_key keys (root q))"
    using sorted_sort_key [of keys "root q"] by (simp add: sorted_wrt_map)
  then show ?thesis
    by (intro exI [of _ "root (resort keys q)"]) (auto simp: resort_def sorted_inv_def ahead_def sorted_wrt_rev)
qed

lemma sorted_inv_head: "sorted_inv keys q \<Longrightarrow> s \<in> set (root q) \<Longrightarrow> ahead (max_at_top q) (keys (hd (root q))) (keys s)"
  by (cases "root q") (auto simp: sorted_inv_def ahead_def)

lemma take_out:
  assumes "1 \<le> i" "i \<le> length xs"
  shows "mset (take (i - 1) xs @ drop i xs) = mset xs - {#xs ! (i - 1)#}"
    "sorted_wrt P xs \<Longrightarrow> sorted_wrt P (take (i - 1) xs @ drop i xs)"
proof -
  have x: "xs = take (i - 1) xs @ xs ! (i - 1) # drop i xs"
    using id_take_nth_drop [of "i - 1" xs] assms by simp
  have "mset xs = mset (take (i - 1) xs @ xs ! (i - 1) # drop i xs)" using x by simp
  then show "mset (take (i - 1) xs @ drop i xs) = mset xs - {#xs ! (i - 1)#}" by simp
  assume "sorted_wrt P xs"
  then have "sorted_wrt P (take (i - 1) xs @ xs ! (i - 1) # drop i xs)" using x by simp
  then show "sorted_wrt P (take (i - 1) xs @ drop i xs)" by (simp add: sorted_wrt_append)
qed

lemma sorted_queue_ok: "queue_ok (sorted_queue :: 'k::linorder queue_funs) sorted_inv"
  unfolding queue_ok_def
proof (intro conjI allI impI)
  fix keys :: "nat \<Rightarrow> 'k" and q i
  assume i: "sorted_inv keys q" "1 \<le> i" "i \<le> length (root q)"
  show "\<exists>r. f_queue_remove sorted_queue keys i q = Some (root q ! (i - 1), q\<lparr>root := r\<rparr>) \<and>
      mset r = mset (root q) - {#root q ! (i - 1)#} \<and> sorted_inv keys (q\<lparr>root := r\<rparr>)"
    using i take_out [OF i(2,3)]
    by (intro exI [of _ "take (i - 1) (root q) @ drop i (root q)"]) (simp add: sorted_queue_def sorted_inv_def)
next
  fix keys :: "nat \<Rightarrow> 'k" and q s
  show "\<exists>r. f_queue_insert sorted_queue keys s q = q\<lparr>root := r\<rparr> \<and> mset r = add_mset s (mset (root q)) \<and>
      sorted_inv keys (q\<lparr>root := r\<rparr>)"
    using resort_ok [of keys "q\<lparr>root := s # root q\<rparr>"] by (simp add: sorted_queue_def)
next
  fix keys :: "nat \<Rightarrow> 'k" and q k
  show "\<exists>r. f_downheap sorted_queue (keys(hd (root q) := k)) 1 q = q\<lparr>root := r\<rparr> \<and> mset r = mset (root q) \<and>
      sorted_inv (keys(hd (root q) := k)) (q\<lparr>root := r\<rparr>)"
    using resort_ok [of "keys(hd (root q) := k)" q] by (simp add: sorted_queue_def)
next
  fix keys :: "nat \<Rightarrow> 'k" and q s k
  assume "sorted_inv keys q" "s \<notin> set (root q)"
  then show "sorted_inv (keys(s := k)) q"
    unfolding sorted_inv_def by (elim sorted_wrt_mono_rel [rotated]) auto
qed (simp_all add: sorted_queue_def sorted_inv_def sorted_inv_head [unfolded sorted_inv_def])

section \<open>What the queue keeps\<close>

lemma init_ok:
  assumes Q: "queue_ok Q qinv" and init: "bounded_queue_init Q n t (bounded_queue_new keys) = (0, b)"
  shows "bq_ok qinv t (unat n) [] b"
proof -
  have n: "unat n < 2 ^ 32 - 2" using init by (auto simp: bounded_queue_init_def word_less_nat_alt word_le_nat_alt split: if_splits)
  obtain q where q: "f_init_queue Q (ucast n + 1) t (m_queue (bounded_queue_new keys)) = (0, q)" "b = (bounded_queue_new keys)\<lparr>m_queue := q\<rparr>"
    using init by (auto simp: bounded_queue_init_def split: if_splits prod.splits)
  have q': "q = \<lparr>root = [], max_elements = ucast n + 1, max_at_top = t\<rparr>" by (rule queue_ok_D(1) [OF Q q(1)])
  have "ucast n + 1 = (of_nat (unat n + 1) :: 32 word)" by (simp add: of_nat_unat)
  then show ?thesis using n q(2) queue_ok_D(2) [OF Q, of q] by (simp add: q' bq_ok_def queue_keys_def ordered_def)
qed

text \<open>C29. Whatever is pushed on an initialised queue, the queue then holds at most one key more than it was
  asked to keep, and the best keys it holds are the best of all keys pushed: the least if the greatest is
  kept at the top, the greatest otherwise.\<close>

theorem bounded_queue_keeps_best:
  assumes "queue_ok Q qinv" "bounded_queue_init Q n t (bounded_queue_new keys) = (0, b0)"
  shows "\<exists>b. push_all debug Q make_key es b0 = Some b \<and>
    unat (num_elements b) = min (unat n + 1) (length es) \<and>
    take (unat n) (ordered t (queue_keys b)) = take (unat n) (ordered t (map make_key es))"
proof -
  obtain b where b: "push_all debug Q make_key es b0 = Some b" "bq_ok qinv t (unat n) (rev (map make_key es) @ []) b"
    using push_all_ok [OF assms(1) init_ok [OF assms], of debug make_key es] by blast
  have "length (root (m_queue b)) = min (unat n + 1) (length es)" using bq_length [OF b(2)] by simp
  moreover have "unat n + 1 < 2 ^ 32" using b(2) by (simp add: bq_ok_def)
  ultimately have "unat (num_elements b) = min (unat n + 1) (length es)"
    by (simp add: num_elements_def elements_unat)
  moreover have "ordered t (rev (map make_key es)) = ordered t (map make_key es)" by (rule ordered_cong) simp
  ultimately show ?thesis using b by (simp add: bq_ok_def)
qed

lemma bounded_queue_keeps_best_witness:
  "\<exists>b. push_all True sorted_queue (\<lambda>e. e) [5, 1, 4, 2 :: int] (snd (bounded_queue_init sorted_queue 2 True (bounded_queue_new (\<lambda>i. 0)))) = Some b \<and>
     unat (num_elements b) = 3 \<and> take 2 (ordered True (queue_keys b)) = [1, 2]"
proof -
  have i: "bounded_queue_init sorted_queue 2 True (bounded_queue_new (\<lambda>i. 0 :: int)) =
      (0, \<lparr>m_queue = \<lparr>root = [], max_elements = 3, max_at_top = True\<rparr>, m_keys = (\<lambda>i. 0)\<rparr>)"
    by (simp add: bounded_queue_init_def bounded_queue_new_def sorted_queue_def)
  show ?thesis
    using bounded_queue_keeps_best [OF sorted_queue_ok i, of True "\<lambda>e. e" "[5, 1, 4, 2]"] i
    by (simp add: ordered_def numeral_3_eq_3 del: push_all.simps)
qed

end
