(* ===== verification/Plist.thy ===== *)
theory Plist
  imports Prelude "HOL-Library.Word"
begin

text \<open>
  \<open>I_P_List\<close> of \<open>private/sql_plist.h\<close>, its iterator and its policies. An element can be in several lists through
  different members; one model is about one pair of members, \<open>next\<close> and \<open>prev\<close>. \<open>prev\<close> points to the pointer that
  points to the element: \<open>m_first\<close> of a list or \<open>next\<close> of an element. All lists and elements lie in one heap;
  elements and lists are numbers.
\<close>

section \<open>Memory and policies\<close>

datatype pcell = PFirst nat | PNext nat

record plist_heap =
  cell :: "pcell \<Rightarrow> nat option"
  prev_ptr :: "nat \<Rightarrow> pcell option"
  m_last :: "nat \<Rightarrow> pcell"
  m_counter :: "nat \<Rightarrow> 32 word"

definition set_cell :: "pcell \<Rightarrow> nat option \<Rightarrow> plist_heap \<Rightarrow> plist_heap" where
  "set_cell c n h = h\<lparr>cell := (cell h)(c := n)\<rparr>"

definition set_prev_ptr :: "nat \<Rightarrow> pcell option \<Rightarrow> plist_heap \<Rightarrow> plist_heap" where
  "set_prev_ptr a c h = h\<lparr>prev_ptr := (prev_ptr h)(a := c)\<rparr>"

datatype counter_policy = Null_counter | List_counter
datatype push_policy = No_push_back | Fast_push_back

fun counter_reset :: "counter_policy \<Rightarrow> nat \<Rightarrow> plist_heap \<Rightarrow> plist_heap" where
  "counter_reset Null_counter l h = h"
| "counter_reset List_counter l h = h\<lparr>m_counter := (m_counter h)(l := 0)\<rparr>"

fun counter_inc :: "counter_policy \<Rightarrow> nat \<Rightarrow> plist_heap \<Rightarrow> plist_heap" where
  "counter_inc Null_counter l h = h"
| "counter_inc List_counter l h = h\<lparr>m_counter := (m_counter h)(l := m_counter h l + 1)\<rparr>"

fun counter_dec :: "counter_policy \<Rightarrow> nat \<Rightarrow> plist_heap \<Rightarrow> plist_heap" where
  "counter_dec Null_counter l h = h"
| "counter_dec List_counter l h = h\<lparr>m_counter := (m_counter h)(l := m_counter h l - 1)\<rparr>"

fun counter_swap :: "counter_policy \<Rightarrow> nat \<Rightarrow> nat \<Rightarrow> plist_heap \<Rightarrow> plist_heap" where
  "counter_swap Null_counter l r h = h"
| "counter_swap List_counter l r h = h\<lparr>m_counter := (m_counter h)(l := m_counter h r, r := m_counter h l)\<rparr>"

definition plist_elements :: "nat \<Rightarrow> plist_heap \<Rightarrow> 32 word" where
  "plist_elements l h = m_counter h l"

fun policy_set_last :: "push_policy \<Rightarrow> nat \<Rightarrow> pcell \<Rightarrow> plist_heap \<Rightarrow> plist_heap" where
  "policy_set_last No_push_back l c h = h"
| "policy_set_last Fast_push_back l c h = h\<lparr>m_last := (m_last h)(l := c)\<rparr>"

text \<open>\<open>I_P_List_no_push_back\<close> has no \<open>get_last\<close>, so that \<open>push_back\<close> does not compile: None.\<close>

fun policy_get_last :: "push_policy \<Rightarrow> nat \<Rightarrow> plist_heap \<Rightarrow> pcell option" where
  "policy_get_last No_push_back l h = None"
| "policy_get_last Fast_push_back l h = Some (m_last h l)"

fun policy_swap :: "push_policy \<Rightarrow> nat \<Rightarrow> nat \<Rightarrow> plist_heap \<Rightarrow> plist_heap" where
  "policy_swap No_push_back l r h = h"
| "policy_swap Fast_push_back l r h = h\<lparr>m_last := (m_last h)(l := m_last h r, r := m_last h l)\<rparr>"

section \<open>I\_P\_List\<close>

text \<open>The constructor; the one of the counter sets it to 0.\<close>

definition plist_new :: "counter_policy \<Rightarrow> push_policy \<Rightarrow> nat \<Rightarrow> plist_heap \<Rightarrow> plist_heap" where
  "plist_new C I l h = set_cell (PFirst l) None (policy_set_last I l (PFirst l) (counter_reset C l h))"

definition plist_empty :: "counter_policy \<Rightarrow> push_policy \<Rightarrow> nat \<Rightarrow> plist_heap \<Rightarrow> plist_heap" where
  "plist_empty C I l h = policy_set_last I l (PFirst l) (counter_reset C l (set_cell (PFirst l) None h))"

definition plist_is_empty :: "nat \<Rightarrow> plist_heap \<Rightarrow> bool" where
  "plist_is_empty l h \<longleftrightarrow> cell h (PFirst l) = None"

definition plist_push_front :: "counter_policy \<Rightarrow> push_policy \<Rightarrow> nat \<Rightarrow> nat \<Rightarrow> plist_heap \<Rightarrow> plist_heap" where
  "plist_push_front C I l a h =
     (let h = set_cell (PNext a) (cell h (PFirst l)) h;
          h = (case cell h (PFirst l) of
                 Some m_first \<Rightarrow> set_prev_ptr m_first (Some (PNext a)) h
               | None \<Rightarrow> policy_set_last I l (PNext a) h);
          h = set_cell (PFirst l) (Some a) h;
          h = set_prev_ptr a (Some (PFirst l)) h
      in counter_inc C l h)"

definition plist_push_back :: "counter_policy \<Rightarrow> push_policy \<Rightarrow> nat \<Rightarrow> nat \<Rightarrow> plist_heap \<Rightarrow> plist_heap option" where
  "plist_push_back C I l a h = do {
     last \<leftarrow> policy_get_last I l h;
     let h = set_cell (PNext a) (cell h last) h;
     let h = set_cell last (Some a) h;
     let h = set_prev_ptr a (Some last) h;
     let h = policy_set_last I l (PNext a) h;
     Some (counter_inc C l h) }"

definition plist_insert_after :: "counter_policy \<Rightarrow> push_policy \<Rightarrow> nat \<Rightarrow> nat option \<Rightarrow> nat \<Rightarrow> plist_heap \<Rightarrow> plist_heap" where
  "plist_insert_after C I l pos a h =
     (case pos of None \<Rightarrow> plist_push_front C I l a h
      | Some pos \<Rightarrow>
          let h = set_cell (PNext a) (cell h (PNext pos)) h;
              h = set_prev_ptr a (Some (PNext pos)) h;
              h = set_cell (PNext pos) (Some a) h;
              h = (case cell h (PNext a) of
                     Some old_next \<Rightarrow> set_prev_ptr old_next (Some (PNext a)) h
                   | None \<Rightarrow> policy_set_last I l (PNext a) h)
          in counter_inc C l h)"

text \<open>None: the \<open>prev\<close> of the element is a null pointer, which \<open>remove\<close> dereferences.\<close>

definition plist_remove :: "counter_policy \<Rightarrow> push_policy \<Rightarrow> nat \<Rightarrow> nat \<Rightarrow> plist_heap \<Rightarrow> plist_heap option" where
  "plist_remove C I l a h = do {
     p \<leftarrow> prev_ptr h a;
     let next = cell h (PNext a);
     let h = (case next of Some n \<Rightarrow> set_prev_ptr n (prev_ptr h a) h | None \<Rightarrow> policy_set_last I l p h);
     p \<leftarrow> prev_ptr h a;
     let h = set_cell p next h;
     Some (counter_dec C l h) }"

definition plist_front :: "nat \<Rightarrow> plist_heap \<Rightarrow> nat option" where
  "plist_front l h = cell h (PFirst l)"

definition plist_pop_front :: "counter_policy \<Rightarrow> push_policy \<Rightarrow> nat \<Rightarrow> plist_heap \<Rightarrow> (nat option \<times> plist_heap) option" where
  "plist_pop_front C I l h =
     (case plist_front l h of
        None \<Rightarrow> Some (None, h)
      | Some result \<Rightarrow> do { h \<leftarrow> plist_remove C I l result h; Some (Some result, h) })"

text \<open>
  \<open>swap\<close> takes \<open>I_P_List<T, B, C>\<close>, a list without fast \<open>push_back\<close>: on lists with it, it does not compile. The last
  \<open>set_last\<close> is the one of this list, as the code has it.
\<close>

definition plist_swap :: "counter_policy \<Rightarrow> push_policy \<Rightarrow> nat \<Rightarrow> nat \<Rightarrow> plist_heap \<Rightarrow> plist_heap" where
  "plist_swap C I l r h =
     (let f = cell h (PFirst l);
          h = set_cell (PFirst l) (cell h (PFirst r)) h;
          h = set_cell (PFirst r) f h;
          h = policy_swap I l r h;
          h = (case cell h (PFirst l) of
                 Some m_first \<Rightarrow> set_prev_ptr m_first (Some (PFirst l)) h
               | None \<Rightarrow> policy_set_last I l (PFirst l) h);
          h = (case cell h (PFirst r) of
                 Some m_first \<Rightarrow> set_prev_ptr m_first (Some (PFirst r)) h
               | None \<Rightarrow> policy_set_last I l (PFirst r) h)
      in counter_swap C l r h)"

section \<open>The iterator\<close>

record plist_iterator =
  it_plist :: nat
  current :: "nat option"

definition plist_iterator_new :: "nat \<Rightarrow> plist_heap \<Rightarrow> plist_iterator" where
  "plist_iterator_new l h = \<lparr>it_plist = l, current = cell h (PFirst l)\<rparr>"

definition plist_iterator_at :: "nat \<Rightarrow> nat option \<Rightarrow> plist_iterator" where
  "plist_iterator_at l current_arg = \<lparr>it_plist = l, current = current_arg\<rparr>"

definition plist_iterator_init :: "nat \<Rightarrow> plist_iterator \<Rightarrow> plist_heap \<Rightarrow> plist_iterator" where
  "plist_iterator_init l it h = it\<lparr>it_plist := l, current := cell h (PFirst l)\<rparr>"

definition plist_post_inc :: "plist_iterator \<Rightarrow> plist_heap \<Rightarrow> nat option \<times> plist_iterator" where
  "plist_post_inc it h =
     (case current it of None \<Rightarrow> (None, it)
      | Some c \<Rightarrow> (Some c, it\<lparr>current := cell h (PNext c)\<rparr>))"

text \<open>None: \<open>++it\<close> behind the last element reads through a null pointer.\<close>

definition plist_pre_inc :: "plist_iterator \<Rightarrow> plist_heap \<Rightarrow> (nat option \<times> plist_iterator) option" where
  "plist_pre_inc it h = do {
     c \<leftarrow> current it;
     let it = it\<lparr>current := cell h (PNext c)\<rparr>;
     Some (current it, it) }"

definition plist_rewind :: "plist_iterator \<Rightarrow> plist_heap \<Rightarrow> plist_iterator" where
  "plist_rewind it h = it\<lparr>current := cell h (PFirst (it_plist it))\<rparr>"

section \<open>Chains\<close>

fun pseg :: "(pcell \<Rightarrow> nat option) \<Rightarrow> (nat \<Rightarrow> pcell option) \<Rightarrow> pcell \<Rightarrow> nat list \<Rightarrow> bool" where
  "pseg p q c [] \<longleftrightarrow> True"
| "pseg p q c (x # xs) \<longleftrightarrow> p c = Some x \<and> q x = Some c \<and> pseg p q (PNext x) xs"

fun pend :: "pcell \<Rightarrow> nat list \<Rightarrow> pcell" where
  "pend c [] = c"
| "pend c (x # xs) = pend (PNext x) xs"

text \<open>The cells before the last one.\<close>

fun pcells :: "pcell \<Rightarrow> nat list \<Rightarrow> pcell list" where
  "pcells c [] = []"
| "pcells c (x # xs) = c # pcells (PNext x) xs"

definition plinked :: "(pcell \<Rightarrow> nat option) \<Rightarrow> (nat \<Rightarrow> pcell option) \<Rightarrow> pcell \<Rightarrow> nat list \<Rightarrow> bool" where
  "plinked p q c xs \<longleftrightarrow> pseg p q c xs \<and> p (pend c xs) = None"

lemma pseg_append [simp]: "pseg p q c (xs @ ys) \<longleftrightarrow> pseg p q c xs \<and> pseg p q (pend c xs) ys"
  by (induction xs arbitrary: c) auto

lemma pend_append [simp]: "pend c (xs @ ys) = pend (pend c xs) ys"
  by (induction xs arbitrary: c) auto

lemma pcells_pend: "pcells c xs @ [pend c xs] = c # map PNext xs"
  by (induction xs arbitrary: c) auto

lemma pseg_cong:
  "(\<And>d. d \<in> set (pcells c xs) \<Longrightarrow> p d = p' d) \<Longrightarrow> (\<And>x. x \<in> set xs \<Longrightarrow> q x = q' x) \<Longrightarrow>
    pseg p q c xs \<longleftrightarrow> pseg p' q' c xs"
  by (induction xs arbitrary: c) auto

lemma pcells_sub: "set (pcells c xs) \<subseteq> insert c (PNext ` set xs)" "pend c xs \<in> insert c (PNext ` set xs)"
  by (induction xs arbitrary: c) auto

lemma pend_fresh: "distinct xs \<Longrightarrow> c \<notin> PNext ` set xs \<Longrightarrow> pend c xs \<notin> set (pcells c xs)"
proof -
  assume "distinct xs" "c \<notin> PNext ` set xs"
  then have "distinct (pcells c xs @ [pend c xs])" unfolding pcells_pend by (simp add: distinct_map inj_on_def)
  then show ?thesis by simp
qed

text \<open>What a list reads: nothing else matters.\<close>

lemma plinked_cong:
  "(\<And>d. d \<in> insert c (PNext ` set xs) \<Longrightarrow> p d = p' d) \<Longrightarrow> (\<And>x. x \<in> set xs \<Longrightarrow> q x = q' x) \<Longrightarrow>
    plinked p q c xs \<longleftrightarrow> plinked p' q' c xs"
  using pseg_cong [of c xs p p' q q'] pcells_sub [of c xs] unfolding plinked_def by (metis subsetD)

text \<open>Linking an element into a chain, and taking one out.\<close>

definition next_back :: "nat list \<Rightarrow> pcell option \<Rightarrow> (nat \<Rightarrow> pcell option) \<Rightarrow> nat \<Rightarrow> pcell option" where
  "next_back bs c q = (case bs of [] \<Rightarrow> q | b # _ \<Rightarrow> q(b := c))"

lemma plinked_insert:
  assumes l: "plinked p q c (as @ bs)" and d: "distinct (as @ bs)" "a \<notin> set (as @ bs)" "c \<notin> PNext ` insert a (set (as @ bs))"
  shows "plinked (p(PNext a := p (pend c as), pend c as := Some a)) ((next_back bs (Some (PNext a)) q)(a := Some (pend c as))) c (as @ a # bs)"
proof -
  let ?e = "pend c as"
  let ?p = "p(PNext a := p ?e, ?e := Some a)" and ?q = "(next_back bs (Some (PNext a)) q)(a := Some ?e)"
  have e: "?e \<noteq> PNext a" "?e \<notin> PNext ` set bs" "?e \<notin> set (pcells c as)" "\<And>x. x \<in> set bs \<Longrightarrow> PNext x \<noteq> ?e"
    using pcells_sub(2) [of c as] d pend_fresh [of as c] by auto
  have "PNext a \<notin> set (pcells c as)" using pcells_sub(1) [of c as] d by auto
  then have "pseg ?p ?q c as"
    using l d e by (subst pseg_cong [of _ _ _ p _ q]) (auto simp: plinked_def next_back_def split: list.splits)
  moreover have "plinked ?p ?q (PNext a) bs"
  proof (cases bs)
    case Nil
    then show ?thesis using l e by (simp add: plinked_def)
  next
    case (Cons b cs)
    have "plinked p q (PNext b) cs" using l Cons by (simp add: plinked_def)
    then have "plinked ?p ?q (PNext b) cs"
      using d e Cons by (subst plinked_cong [of _ _ _ p _ q]) (auto simp: next_back_def)
    then show ?thesis using l d e Cons by (auto simp: plinked_def next_back_def)
  qed
  ultimately show ?thesis using e by (simp add: plinked_def)
qed

lemma plinked_delete:
  assumes l: "plinked p q c (as @ x # bs)" and d: "distinct (as @ x # bs)" "c \<notin> PNext ` set (as @ x # bs)"
  shows "plinked (p(pend c as := p (PNext x))) (next_back bs (q x) q) c (as @ bs)"
proof -
  let ?e = "pend c as"
  let ?p = "p(?e := p (PNext x))" and ?q = "next_back bs (q x) q"
  have e: "?e \<notin> PNext ` set (x # bs)" "?e \<notin> set (pcells c as)" "\<And>b. b \<in> set bs \<Longrightarrow> PNext b \<noteq> ?e"
    using pcells_sub(2) [of c as] d pend_fresh [of as c] by auto
  have "pseg ?p ?q c as"
    using l d e by (subst pseg_cong [of _ _ _ p _ q]) (auto simp: plinked_def next_back_def split: list.splits)
  moreover have "plinked ?p ?q ?e bs"
  proof (cases bs)
    case Nil
    then show ?thesis using l e by (simp add: plinked_def)
  next
    case (Cons b cs)
    have "plinked p q (PNext b) cs" using l Cons by (simp add: plinked_def)
    then have "plinked ?p ?q (PNext b) cs"
      using d e Cons by (subst plinked_cong [of _ _ _ p _ q]) (auto simp: next_back_def)
    then show ?thesis using l d e Cons by (auto simp: plinked_def next_back_def)
  qed
  ultimately show ?thesis by (simp add: plinked_def)
qed


section \<open>The operations on one list\<close>

definition plist_ok :: "counter_policy \<Rightarrow> push_policy \<Rightarrow> nat \<Rightarrow> nat list \<Rightarrow> plist_heap \<Rightarrow> bool" where
  "plist_ok C I l xs h \<longleftrightarrow> plinked (cell h) (prev_ptr h) (PFirst l) xs \<and> distinct xs \<and>
     (C = List_counter \<longrightarrow> m_counter h l = of_nat (length xs)) \<and>
     (I = Fast_push_back \<longrightarrow> m_last h l = pend (PFirst l) xs)"

text \<open>What an operation on list \<open>l\<close> with the elements \<open>A\<close> leaves as it is.\<close>

definition plist_frame :: "nat \<Rightarrow> nat set \<Rightarrow> plist_heap \<Rightarrow> plist_heap \<Rightarrow> bool" where
  "plist_frame l A h h' \<longleftrightarrow> (\<forall>d. d \<notin> insert (PFirst l) (PNext ` A) \<longrightarrow> cell h' d = cell h d) \<and>
     (\<forall>x. x \<notin> A \<longrightarrow> prev_ptr h' x = prev_ptr h x) \<and>
     (\<forall>r. r \<noteq> l \<longrightarrow> m_last h' r = m_last h r \<and> m_counter h' r = m_counter h r)"

lemma plist_frame_ok:
  assumes "plist_frame l A h h'" "plist_ok C I r ys h" "r \<noteq> l" "set ys \<inter> A = {}"
  shows "plist_ok C I r ys h'"
proof -
  have "plinked (cell h) (prev_ptr h) (PFirst r) ys \<longleftrightarrow> plinked (cell h') (prev_ptr h') (PFirst r) ys"
    using assms(1,3,4) by (intro plinked_cong) (force simp: plist_frame_def)+
  then show ?thesis using assms by (simp add: plist_ok_def plist_frame_def)
qed

lemma plist_next: "plist_ok C I l (as @ bs) h \<Longrightarrow> cell h (pend (PFirst l) as) = (case bs of [] \<Rightarrow> None | b # _ \<Rightarrow> Some b)"
  by (cases bs) (auto simp: plist_ok_def plinked_def)

lemma plist_heap_simps [simp]:
  "cell (set_cell c n h) = (cell h)(c := n)" "prev_ptr (set_cell c n h) = prev_ptr h"
  "m_last (set_cell c n h) = m_last h" "m_counter (set_cell c n h) = m_counter h"
  "cell (set_prev_ptr a d h) = cell h" "prev_ptr (set_prev_ptr a d h) = (prev_ptr h)(a := d)"
  "m_last (set_prev_ptr a d h) = m_last h" "m_counter (set_prev_ptr a d h) = m_counter h"
  by (simp_all add: set_cell_def set_prev_ptr_def)

lemma policy_simps [simp]:
  "cell (counter_inc C l h) = cell h" "prev_ptr (counter_inc C l h) = prev_ptr h" "m_last (counter_inc C l h) = m_last h"
  "cell (counter_dec C l h) = cell h" "prev_ptr (counter_dec C l h) = prev_ptr h" "m_last (counter_dec C l h) = m_last h"
  "cell (counter_reset C l h) = cell h" "prev_ptr (counter_reset C l h) = prev_ptr h" "m_last (counter_reset C l h) = m_last h"
  "cell (counter_swap C l r h) = cell h" "prev_ptr (counter_swap C l r h) = prev_ptr h" "m_last (counter_swap C l r h) = m_last h"
  by (cases C; simp)+

lemma policy_last_simps [simp]:
  "cell (policy_set_last I l c h) = cell h" "prev_ptr (policy_set_last I l c h) = prev_ptr h"
  "m_counter (policy_set_last I l c h) = m_counter h"
  "m_last (policy_set_last I l c h) = (if I = Fast_push_back then (m_last h)(l := c) else m_last h)"
  by (cases I; simp)+

lemma counter_simps [simp]:
  "m_counter (counter_inc C l h) = (if C = List_counter then (m_counter h)(l := m_counter h l + 1) else m_counter h)"
  "m_counter (counter_dec C l h) = (if C = List_counter then (m_counter h)(l := m_counter h l - 1) else m_counter h)"
  "m_counter (counter_reset C l h) = (if C = List_counter then (m_counter h)(l := 0) else m_counter h)"
  by (cases C; simp)+

lemma plist_inserted:
  assumes ok: "plist_ok C I l (as @ bs) h" and a: "a \<notin> set (as @ bs)"
    and h': "cell h' = (cell h)(PNext a := cell h (pend (PFirst l) as), pend (PFirst l) as := Some a)"
      "prev_ptr h' = (next_back bs (Some (PNext a)) (prev_ptr h))(a := Some (pend (PFirst l) as))"
      "m_last h' = (if I = Fast_push_back \<and> bs = [] then (m_last h)(l := PNext a) else m_last h)"
      "m_counter h' = (if C = List_counter then (m_counter h)(l := m_counter h l + 1) else m_counter h)"
  shows "plist_ok C I l (as @ a # bs) h' \<and> plist_frame l (insert a (set (as @ bs))) h h'"
proof
  have "plinked (cell h') (prev_ptr h') (PFirst l) (as @ a # bs)"
    unfolding h'(1,2) using ok a by (intro plinked_insert) (auto simp: plist_ok_def)
  moreover have "pend (PFirst l) (as @ a # bs) = (if bs = [] then PNext a else pend (PFirst l) (as @ bs))" by (cases bs) auto
  ultimately show "plist_ok C I l (as @ a # bs) h'" using ok a h'(3,4) by (auto simp: plist_ok_def)
  show "plist_frame l (insert a (set (as @ bs))) h h'"
    using pcells_sub(2) [of "PFirst l" as] by (auto simp: plist_frame_def h' next_back_def split: list.splits)
qed

lemma plist_push_front_ok:
  "plist_ok C I l xs h \<Longrightarrow> a \<notin> set xs \<Longrightarrow>
    plist_ok C I l (a # xs) (plist_push_front C I l a h) \<and> plist_frame l (insert a (set xs)) h (plist_push_front C I l a h)"
  using plist_inserted [of C I l "[]" xs h a "plist_push_front C I l a h"] plist_next [of C I l "[]" xs h]
  by (cases xs) (auto simp: plist_push_front_def Let_def next_back_def)

lemma plist_insert_after_ok:
  assumes ok: "plist_ok C I l (as @ p # bs) h" and a: "a \<notin> set (as @ p # bs)"
  shows "plist_ok C I l (as @ p # a # bs) (plist_insert_after C I l (Some p) a h) \<and>
    plist_frame l (insert a (set (as @ p # bs))) h (plist_insert_after C I l (Some p) a h)"
proof -
  have n: "cell h (PNext p) = (case bs of [] \<Rightarrow> None | b # _ \<Rightarrow> Some b)" "a \<noteq> p" "bs \<noteq> [] \<Longrightarrow> hd bs \<noteq> a"
    using plist_next [of C I l "as @ [p]" bs h] ok a by (simp, simp, cases bs, auto)
  have "plist_ok C I l ((as @ [p]) @ a # bs) (plist_insert_after C I l (Some p) a h) \<and>
      plist_frame l (insert a (set ((as @ [p]) @ bs))) h (plist_insert_after C I l (Some p) a h)"
    using n a ok
    by (intro plist_inserted; cases bs)
      (simp_all add: plist_insert_after_def Let_def next_back_def fun_upd_twist)
  then show ?thesis by simp
qed

lemma plist_push_back_ok:
  assumes "plist_ok C Fast_push_back l xs h" "a \<notin> set xs"
  shows "\<exists>h'. plist_push_back C Fast_push_back l a h = Some h' \<and> plist_ok C Fast_push_back l (xs @ [a]) h' \<and>
    plist_frame l (insert a (set xs)) h h'"
proof -
  have "m_last h l = pend (PFirst l) xs" "cell h (pend (PFirst l) xs) = None" using assms plist_next [of C Fast_push_back l xs "[]" h]
    by (simp_all add: plist_ok_def)
  moreover obtain h' where "plist_push_back C Fast_push_back l a h = Some h'" by (simp add: plist_push_back_def)
  ultimately show ?thesis
    using plist_inserted [of C Fast_push_back l xs "[]" h a h'] assms
    by (auto simp: plist_push_back_def Let_def next_back_def)
qed

lemma plist_remove_ok:
  assumes ok: "plist_ok C I l (as @ x # bs) h"
  shows "\<exists>h'. plist_remove C I l x h = Some h' \<and> plist_ok C I l (as @ bs) h' \<and> plist_frame l (set (as @ x # bs)) h h' \<and>
    cell h' (PNext x) = cell h (PNext x)"
proof -
  let ?e = "pend (PFirst l) as"
  have x: "prev_ptr h x = Some ?e" "distinct (as @ x # bs)" using ok by (simp_all add: plist_ok_def plinked_def)
  have n: "cell h (PNext x) = (case bs of [] \<Rightarrow> None | b # _ \<Rightarrow> Some b)" using plist_next [of C I l "as @ [x]" bs h] ok by simp
  have xb: "bs \<noteq> [] \<Longrightarrow> hd bs \<noteq> x" using x(2) by (cases bs) auto
  obtain h' where r: "plist_remove C I l x h = Some h'" using x n xb by (cases bs) (simp_all add: plist_remove_def Let_def)
  have h': "plist_remove C I l x h = Some h'" "cell h' = (cell h)(?e := cell h (PNext x))"
      "prev_ptr h' = next_back bs (prev_ptr h x) (prev_ptr h)"
      "m_last h' = (if I = Fast_push_back \<and> bs = [] then (m_last h)(l := ?e) else m_last h)"
      "m_counter h' = (if C = List_counter then (m_counter h)(l := m_counter h l - 1) else m_counter h)"
    using r x n xb by (cases bs; fastforce simp: plist_remove_def Let_def next_back_def)+
  have "plinked (cell h') (prev_ptr h') (PFirst l) (as @ bs)"
    unfolding h'(2,3) using ok x(2) by (intro plinked_delete) (auto simp: plist_ok_def)
  moreover have "pend (PFirst l) (as @ bs) = (if bs = [] then ?e else pend (PFirst l) (as @ x # bs))" by (cases bs) auto
  ultimately have "plist_ok C I l (as @ bs) h'" using ok h'(4,5) by (auto simp: plist_ok_def)
  moreover have "plist_frame l (set (as @ x # bs)) h h'"
    using pcells_sub(2) [of "PFirst l" as] by (auto simp: plist_frame_def h' next_back_def split: list.splits)
  moreover have "?e \<noteq> PNext x" using pcells_sub(2) [of "PFirst l" as] x(2) by auto
  ultimately show ?thesis using h'(1,2) by simp
qed

lemma plist_new_ok: "plist_ok C I l [] (plist_new C I l h) \<and> plist_frame l {} h (plist_new C I l h)"
  by (cases C) (auto simp: plist_new_def plist_ok_def plinked_def plist_frame_def)

lemma plist_empty_ok: "plist_ok C I l [] (plist_empty C I l h) \<and> plist_frame l {} h (plist_empty C I l h)"
  by (cases C) (auto simp: plist_empty_def plist_ok_def plinked_def plist_frame_def)


lemma plinked_move:
  assumes "plinked p q c xs" "distinct xs" "c \<notin> PNext ` set xs"
    and "p' c' = p c" "\<And>x. x \<in> set xs \<Longrightarrow> p' (PNext x) = p (PNext x)"
    and "xs \<noteq> [] \<Longrightarrow> q' (hd xs) = Some c'" "\<And>x. x \<in> set (tl xs) \<Longrightarrow> q' x = q x"
  shows "plinked p' q' c' xs"
proof (cases xs)
  case (Cons x ys)
  then have "plinked p q (PNext x) ys" using assms(1) by (simp add: plinked_def)
  then have "plinked p' q' (PNext x) ys" using assms Cons by (subst plinked_cong [of _ _ _ p _ q]) auto
  then show ?thesis using assms Cons by (simp add: plinked_def)
qed (use assms in \<open>simp add: plinked_def\<close>)

lemma plist_swap_ok:
  assumes l: "plist_ok C No_push_back l xs h" and r: "plist_ok C No_push_back r ys h" and d: "l \<noteq> r" "set xs \<inter> set ys = {}"
  shows "plist_ok C No_push_back l ys (plist_swap C No_push_back l r h)"
    and "plist_ok C No_push_back r xs (plist_swap C No_push_back l r h)"
    and "s \<noteq> l \<Longrightarrow> s \<noteq> r \<Longrightarrow> set zs \<inter> (set xs \<union> set ys) = {} \<Longrightarrow> plist_ok C No_push_back s zs h \<Longrightarrow>
      plist_ok C No_push_back s zs (plist_swap C No_push_back l r h)"
proof -
  let ?h = "plist_swap C No_push_back l r h"
  let ?q = "next_back xs (Some (PFirst r)) (next_back ys (Some (PFirst l)) (prev_ptr h))"
  have f: "cell h (PFirst l) = (case xs of [] \<Rightarrow> None | x # _ \<Rightarrow> Some x)" "cell h (PFirst r) = (case ys of [] \<Rightarrow> None | y # _ \<Rightarrow> Some y)"
    using plist_next [of C No_push_back l "[]" xs h] plist_next [of C No_push_back r "[]" ys h] l r by auto
  have h: "cell ?h = (cell h)(PFirst l := cell h (PFirst r), PFirst r := cell h (PFirst l))" "prev_ptr ?h = ?q"
    using f d by (cases xs; cases ys; simp add: plist_swap_def Let_def next_back_def)+
  have m: "C = List_counter \<Longrightarrow> m_counter ?h = (m_counter h)(l := m_counter h r, r := m_counter h l)"
    using f d by (cases xs; cases ys; simp add: plist_swap_def Let_def)
  have q: "ys \<noteq> [] \<Longrightarrow> ?q (hd ys) = Some (PFirst l)" "xs \<noteq> [] \<Longrightarrow> ?q (hd xs) = Some (PFirst r)"
    "\<And>x. x \<in> set (tl xs) \<Longrightarrow> ?q x = prev_ptr h x" "\<And>x. x \<in> set (tl ys) \<Longrightarrow> ?q x = prev_ptr h x"
    using l r d by (cases xs; cases ys; force simp: next_back_def plist_ok_def)+
  have "plinked (cell ?h) (prev_ptr ?h) (PFirst l) ys"
    unfolding h by (rule plinked_move [of "cell h" "prev_ptr h" "PFirst r"]) (use r d q in \<open>auto simp: plist_ok_def\<close>)
  then show "plist_ok C No_push_back l ys ?h" using r m d by (simp add: plist_ok_def)
  have "plinked (cell ?h) (prev_ptr ?h) (PFirst r) xs"
    unfolding h by (rule plinked_move [of "cell h" "prev_ptr h" "PFirst l"]) (use l d q in \<open>auto simp: plist_ok_def\<close>)
  then show "plist_ok C No_push_back r xs ?h" using l m d by (simp add: plist_ok_def)
  assume s: "s \<noteq> l" "s \<noteq> r" "set zs \<inter> (set xs \<union> set ys) = {}" "plist_ok C No_push_back s zs h"
  then have "plinked (cell h) (prev_ptr h) (PFirst s) zs \<longleftrightarrow> plinked (cell ?h) (prev_ptr ?h) (PFirst s) zs"
    unfolding h by (intro plinked_cong) (auto simp: next_back_def split: list.splits)
  then show "plist_ok C No_push_back s zs ?h" using s m by (simp add: plist_ok_def)
qed

section \<open>Walking\<close>

text \<open>The loop \<open>while ((x= it++))\<close>: the elements it gives; and with \<open>remove\<close> of those that meet \<open>P\<close> in its body.\<close>

partial_function (option) plist_walk :: "plist_iterator \<Rightarrow> plist_heap \<Rightarrow> nat list option" where
  "plist_walk it h =
     (case plist_post_inc it h of
        (None, it) \<Rightarrow> Some []
      | (Some x, it) \<Rightarrow> Option.bind (plist_walk it h) (\<lambda>xs. Some (x # xs)))"

partial_function (option) plist_purge ::
  "counter_policy \<Rightarrow> push_policy \<Rightarrow> (nat \<Rightarrow> bool) \<Rightarrow> plist_iterator \<Rightarrow> plist_heap \<Rightarrow> plist_heap option" where
  "plist_purge C I P it h =
     (case plist_post_inc it h of
        (None, it) \<Rightarrow> Some h
      | (Some x, it) \<Rightarrow>
          if P x then Option.bind (plist_remove C I (it_plist it) x h) (\<lambda>h. plist_purge C I P it h)
          else plist_purge C I P it h)"

lemma plist_walk_from:
  "plinked (cell h) (prev_ptr h) c xs \<Longrightarrow> plist_walk \<lparr>it_plist = l, current = cell h c\<rparr> h = Some xs"
proof (induction xs arbitrary: c)
  case Nil
  then show ?case by (subst plist_walk.simps) (simp add: plist_post_inc_def plinked_def)
next
  case (Cons x xs)
  then have "plist_walk \<lparr>it_plist = l, current = cell h (PNext x)\<rparr> h = Some xs" "cell h c = Some x" by (simp_all add: plinked_def)
  then show ?case by (subst plist_walk.simps) (simp add: plist_post_inc_def)
qed

lemma plist_walk_all: "plist_ok C I l xs h \<Longrightarrow> plist_walk (plist_iterator_new l h) h = Some xs"
  by (simp add: plist_iterator_new_def plist_ok_def plist_walk_from)

lemma plist_frame_trans: "plist_frame l A h h' \<Longrightarrow> plist_frame l B h' h'' \<Longrightarrow> B \<subseteq> A \<Longrightarrow> plist_frame l A h h''"
  by (auto simp: plist_frame_def) (metis image_mono subsetD)+

lemma plist_purge_from:
  "plist_ok C I l (as @ bs) h \<Longrightarrow>
    \<exists>h'. plist_purge C I P \<lparr>it_plist = l, current = cell h (pend (PFirst l) as)\<rparr> h = Some h' \<and>
      plist_ok C I l (as @ filter (\<lambda>x. \<not> P x) bs) h' \<and> plist_frame l (set (as @ bs)) h h'"
proof (induction bs arbitrary: as h)
  case Nil
  then have "cell h (pend (PFirst l) as) = None" using plist_next [of C I l as "[]" h] by simp
  then show ?case using Nil by (subst plist_purge.simps) (simp add: plist_post_inc_def plist_frame_def)
next
  case (Cons x bs)
  have x: "cell h (pend (PFirst l) as) = Some x" using plist_next [OF Cons.prems] by simp
  have n: "cell h (PNext x) = (case bs of [] \<Rightarrow> None | b # _ \<Rightarrow> Some b)"
    using plist_next [of C I l "as @ [x]" bs h] Cons.prems by simp
  show ?case
  proof (cases "P x")
    case False
    obtain h' where "plist_purge C I P \<lparr>it_plist = l, current = cell h (PNext x)\<rparr> h = Some h'"
        "plist_ok C I l ((as @ [x]) @ filter (\<lambda>x. \<not> P x) bs) h'" "plist_frame l (set ((as @ [x]) @ bs)) h h'"
      using Cons.IH [of "as @ [x]" h] Cons.prems by auto
    then show ?thesis using False x by (subst plist_purge.simps) (simp add: plist_post_inc_def)
  next
    case True
    obtain h1 where h1: "plist_remove C I l x h = Some h1" "plist_ok C I l (as @ bs) h1" "plist_frame l (set (as @ x # bs)) h h1"
      using plist_remove_ok [OF Cons.prems] by blast
    have "cell h1 (pend (PFirst l) as) = cell h (PNext x)" using plist_next [OF h1(2)] n by simp
    then obtain h' where "plist_purge C I P \<lparr>it_plist = l, current = cell h (PNext x)\<rparr> h1 = Some h'"
        "plist_ok C I l (as @ filter (\<lambda>x. \<not> P x) bs) h'" "plist_frame l (set (as @ bs)) h1 h'"
      using Cons.IH [OF h1(2)] by auto
    moreover have "plist_frame l (set (as @ x # bs)) h h'" by (rule plist_frame_trans [OF h1(3)]) (use calculation in auto)
    ultimately show ?thesis using True x h1(1) by (subst plist_purge.simps) (simp add: plist_post_inc_def)
  qed
qed


section \<open>Several lists\<close>

datatype plist_op =
    Push_front nat nat | Push_back nat nat | Insert_after nat "nat option" nat
  | Remove nat nat | Pop_front nat | Empty nat | Swap nat nat | Purge nat "nat set"

fun plist_exec :: "counter_policy \<Rightarrow> push_policy \<Rightarrow> plist_op \<Rightarrow> plist_heap \<Rightarrow> (nat option \<times> plist_heap) option" where
  "plist_exec C I (Push_front l a) h = Some (None, plist_push_front C I l a h)"
| "plist_exec C I (Push_back l a) h = map_option (Pair None) (plist_push_back C I l a h)"
| "plist_exec C I (Insert_after l pos a) h = Some (None, plist_insert_after C I l pos a h)"
| "plist_exec C I (Remove l a) h = map_option (Pair None) (plist_remove C I l a h)"
| "plist_exec C I (Pop_front l) h = plist_pop_front C I l h"
| "plist_exec C I (Empty l) h = Some (None, plist_empty C I l h)"
| "plist_exec C I (Swap l r) h = Some (None, plist_swap C I l r h)"
| "plist_exec C I (Purge l A) h = map_option (Pair None) (plist_purge C I (\<lambda>x. x \<in> A) (plist_iterator_new l h) h)"

fun plist_run :: "counter_policy \<Rightarrow> push_policy \<Rightarrow> plist_op list \<Rightarrow> plist_heap \<Rightarrow> (nat option list \<times> plist_heap) option" where
  "plist_run C I [] h = Some ([], h)"
| "plist_run C I (x # xs) h = do {
     (r, h) \<leftarrow> plist_exec C I x h;
     (rs, h) \<leftarrow> plist_run C I xs h;
     Some (r # rs, h) }"

text \<open>The same on plain lists.\<close>

fun put_behind :: "nat \<Rightarrow> nat \<Rightarrow> nat list \<Rightarrow> nat list" where
  "put_behind p a [] = []"
| "put_behind p a (x # xs) = (if x = p then x # a # xs else x # put_behind p a xs)"

fun lists_exec :: "plist_op \<Rightarrow> (nat \<Rightarrow> nat list) \<Rightarrow> nat option \<times> (nat \<Rightarrow> nat list)" where
  "lists_exec (Push_front l a) L = (None, L(l := a # L l))"
| "lists_exec (Push_back l a) L = (None, L(l := L l @ [a]))"
| "lists_exec (Insert_after l pos a) L = (None, L(l := (case pos of None \<Rightarrow> a # L l | Some p \<Rightarrow> put_behind p a (L l))))"
| "lists_exec (Remove l a) L = (None, L(l := remove1 a (L l)))"
| "lists_exec (Pop_front l) L = (if L l = [] then (None, L) else (Some (hd (L l)), L(l := tl (L l))))"
| "lists_exec (Empty l) L = (None, L(l := []))"
| "lists_exec (Swap l r) L = (None, L(l := L r, r := L l))"
| "lists_exec (Purge l A) L = (None, L(l := filter (\<lambda>x. x \<notin> A) (L l)))"

fun lists_run :: "plist_op list \<Rightarrow> (nat \<Rightarrow> nat list) \<Rightarrow> nat option list \<times> (nat \<Rightarrow> nat list)" where
  "lists_run [] L = ([], L)"
| "lists_run (x # xs) L = (case lists_exec x L of (r, L) \<Rightarrow> case lists_run xs L of (rs, L) \<Rightarrow> (r # rs, L))"

text \<open>
  An element put in is in none of the lists, one removed is in the list it is removed from; \<open>push_back\<close> and
  \<open>swap\<close> are used with the policies for which they compile.
\<close>

definition in_none :: "nat set \<Rightarrow> (nat \<Rightarrow> nat list) \<Rightarrow> nat \<Rightarrow> bool" where
  "in_none D L a \<longleftrightarrow> (\<forall>l\<in>D. a \<notin> set (L l))"

fun plist_allowed :: "push_policy \<Rightarrow> nat set \<Rightarrow> (nat \<Rightarrow> nat list) \<Rightarrow> plist_op \<Rightarrow> bool" where
  "plist_allowed I D L (Push_front l a) \<longleftrightarrow> l \<in> D \<and> in_none D L a"
| "plist_allowed I D L (Push_back l a) \<longleftrightarrow> l \<in> D \<and> in_none D L a \<and> I = Fast_push_back"
| "plist_allowed I D L (Insert_after l pos a) \<longleftrightarrow> l \<in> D \<and> in_none D L a \<and> set_option pos \<subseteq> set (L l)"
| "plist_allowed I D L (Remove l a) \<longleftrightarrow> l \<in> D \<and> a \<in> set (L l)"
| "plist_allowed I D L (Pop_front l) \<longleftrightarrow> l \<in> D"
| "plist_allowed I D L (Empty l) \<longleftrightarrow> l \<in> D"
| "plist_allowed I D L (Swap l r) \<longleftrightarrow> l \<in> D \<and> r \<in> D \<and> l \<noteq> r \<and> I = No_push_back"
| "plist_allowed I D L (Purge l A) \<longleftrightarrow> l \<in> D"

fun plists_allowed :: "push_policy \<Rightarrow> nat set \<Rightarrow> (nat \<Rightarrow> nat list) \<Rightarrow> plist_op list \<Rightarrow> bool" where
  "plists_allowed I D L [] \<longleftrightarrow> True"
| "plists_allowed I D L (x # xs) \<longleftrightarrow> plist_allowed I D L x \<and> plists_allowed I D (snd (lists_exec x L)) xs"

definition plists_ok :: "counter_policy \<Rightarrow> push_policy \<Rightarrow> nat set \<Rightarrow> (nat \<Rightarrow> nat list) \<Rightarrow> plist_heap \<Rightarrow> bool" where
  "plists_ok C I D L h \<longleftrightarrow> (\<forall>l\<in>D. plist_ok C I l (L l) h) \<and> (\<forall>l\<in>D. \<forall>r\<in>D. l \<noteq> r \<longrightarrow> set (L l) \<inter> set (L r) = {})"

lemma plists_one:
  assumes ok: "plists_ok C I D L h" and l: "l \<in> D" "plist_ok C I l xs h'" "plist_frame l A h h'"
    and A: "A \<subseteq> B \<union> set (L l)" "set xs \<subseteq> A" "\<And>b. b \<in> B \<Longrightarrow> in_none D L b"
  shows "plists_ok C I D (L(l := xs)) h'"
proof -
  have "set (L r) \<inter> A = {}" if "r \<in> D" "r \<noteq> l" for r
  proof -
    have "\<And>b. b \<in> B \<Longrightarrow> b \<notin> set (L r)" using A(3) that by (simp add: in_none_def)
    moreover have "set (L l) \<inter> set (L r) = {}" using ok l(1) that by (auto simp: plists_ok_def)
    ultimately show ?thesis using A(1) by blast
  qed
  then have "plist_ok C I r (L r) h'" "set (L r) \<inter> set xs = {}" if "r \<in> D" "r \<noteq> l" for r
    using ok l(3) A(2) that plist_frame_ok [of l A h h' C I r "L r"] by (auto simp: plists_ok_def)
  then show ?thesis using ok l(2) by (auto simp: plists_ok_def)
qed

lemma plists_push_front:
  assumes ok: "plists_ok C I D L h" and l: "l \<in> D" "in_none D L a"
  shows "plists_ok C I D (L(l := a # L l)) (plist_push_front C I l a h)"
proof -
  have "plist_ok C I l (L l) h" "a \<notin> set (L l)" using ok l by (simp_all add: plists_ok_def in_none_def)
  from plist_push_front_ok [OF this] show ?thesis using l
    by (intro plists_one [OF ok, where A = "insert a (set (L l))" and B = "{a}"]) auto
qed

lemma put_behind_split: "p \<notin> set as \<Longrightarrow> put_behind p a (as @ p # bs) = as @ p # a # bs"
  by (induction as) auto

lemma plist_exec_refines:
  assumes ok: "plists_ok C I D L h" and al: "plist_allowed I D L x"
  shows "\<exists>h'. plist_exec C I x h = Some (fst (lists_exec x L), h') \<and> plists_ok C I D (snd (lists_exec x L)) h'"
proof (cases x)
  case (Push_front l a)
  then show ?thesis using al plists_push_front [OF ok] by simp
next
  case (Push_back l a)
  then obtain h' where "plist_push_back C I l a h = Some h'" "plist_ok C I l (L l @ [a]) h'" "plist_frame l (insert a (set (L l))) h h'"
    using al ok plist_push_back_ok [of C l "L l" h a] by (auto simp: plists_ok_def in_none_def)
  then show ?thesis using Push_back al plists_one [OF ok, of l _ h' _ "{a}"] by auto
next
  case (Insert_after l pos a)
  show ?thesis
  proof (cases pos)
    case None
    then show ?thesis using Insert_after al plists_push_front [OF ok] by (simp add: plist_insert_after_def)
  next
    case (Some p)
    then have "p \<in> set (L l)" using Insert_after al by simp
    then obtain as bs where L: "L l = as @ p # bs" "p \<notin> set as" by (metis split_list_first)
    have "plist_ok C I l (as @ p # bs) h" "a \<notin> set (as @ p # bs)" "l \<in> D" "in_none D L a"
      using Insert_after al ok L by (auto simp: plists_ok_def in_none_def)
    then have "plists_ok C I D (L(l := as @ p # a # bs)) (plist_insert_after C I l (Some p) a h)"
      using plist_insert_after_ok [of C I l as p bs h a] L
      by (intro plists_one [OF ok, where A = "insert a (set (L l))" and B = "{a}"]) auto
    then show ?thesis using Insert_after Some L by (simp add: put_behind_split)
  qed
next
  case (Remove l a)
  then obtain as bs where L: "L l = as @ a # bs" "a \<notin> set as" using al by (metis plist_allowed.simps(4) split_list_first)
  have "l \<in> D" using Remove al by simp
  then have "plist_ok C I l (as @ a # bs) h" using ok L(1) by (metis plists_ok_def)
  then obtain h' where "plist_remove C I l a h = Some h'" "plist_ok C I l (as @ bs) h'" "plist_frame l (set (L l)) h h'"
    unfolding L using plist_remove_ok by blast
  moreover have "set (as @ bs) \<subseteq> set (L l)" using L by auto
  ultimately show ?thesis
    using Remove \<open>l \<in> D\<close> plists_one [OF ok, of l "as @ bs" h' "set (L l)" "{}"] L by (simp add: remove1_append)
next
  case (Pop_front l)
  then have lok: "plist_ok C I l (L l) h" "l \<in> D" using ok al by (auto simp: plists_ok_def)
  show ?thesis
  proof (cases "L l")
    case Nil
    then show ?thesis using Pop_front lok ok plist_next [of C I l "[]" "[]" h] by (simp add: plist_pop_front_def plist_front_def)
  next
    case (Cons y ys)
    then obtain h' where "plist_remove C I l y h = Some h'" "plist_ok C I l ys h'" "plist_frame l (set (L l)) h h'"
      using lok plist_remove_ok [of C I l "[]" y ys h] by auto
    then show ?thesis using Pop_front Cons lok plists_one [OF ok, of l _ h' _ "{}"] plist_next [of C I l "[]" "L l" h]
      by (auto simp: plist_pop_front_def plist_front_def)
  qed
next
  case (Empty l)
  then show ?thesis using al plists_one [OF ok, of l "[]" _ "{}" "{}"] plist_empty_ok [of C I l h] by auto
next
  case (Swap l r)
  then have s: "l \<in> D" "r \<in> D" "l \<noteq> r" "I = No_push_back" "set (L l) \<inter> set (L r) = {}" using al ok by (auto simp: plists_ok_def)
  note sw = plist_swap_ok [of C l "L l" h r "L r"]
  have "plist_ok C No_push_back k ((L(l := L r, r := L l)) k) (plist_swap C No_push_back l r h)" if "k \<in> D" for k
    using that s ok sw(1,2) sw(3) [of k "L k"] by (auto simp: plists_ok_def)
  then show ?thesis using Swap s ok by (auto simp: plists_ok_def)
next
  case (Purge l A)
  then have lok: "plist_ok C I l (L l) h" "l \<in> D" using ok al by (auto simp: plists_ok_def)
  obtain h' where "plist_purge C I (\<lambda>x. x \<in> A) (plist_iterator_new l h) h = Some h'"
      "plist_ok C I l (filter (\<lambda>x. x \<notin> A) (L l)) h'" "plist_frame l (set (L l)) h h'"
    using plist_purge_from [of C I l "[]" "L l" h "\<lambda>x. x \<in> A"] lok by (auto simp: plist_iterator_new_def)
  then show ?thesis using Purge lok plists_one [OF ok, of l _ h' _ "{}"] by auto
qed

lemma plist_run_refines:
  "plists_ok C I D L h \<Longrightarrow> plists_allowed I D L xs \<Longrightarrow>
    \<exists>h'. plist_run C I xs h = Some (fst (lists_run xs L), h') \<and> plists_ok C I D (snd (lists_run xs L)) h'"
proof (induction xs arbitrary: L h)
  case (Cons x xs)
  then obtain h1 where "plist_exec C I x h = Some (fst (lists_exec x L), h1)" "plists_ok C I D (snd (lists_exec x L)) h1"
    using plist_exec_refines [of C I D L h x] by auto
  then show ?case using Cons.IH [of "snd (lists_exec x L)" h1] Cons.prems by (auto split: prod.splits)
qed simp

lemma plists_new: "plists_ok C I (set ls) (\<lambda>l. []) (fold (plist_new C I) ls h)"
proof (induction ls rule: rev_induct)
  case (snoc l ls)
  have "plist_ok C I r [] (plist_new C I l (fold (plist_new C I) ls h))" if "r \<in> set ls \<or> r = l" for r
    using that snoc plist_new_ok [of C I l] plist_frame_ok [of l "{}" _ _ C I r "[]"] by (cases "r = l") (auto simp: plists_ok_def)
  then show ?case by (simp add: plists_ok_def)
qed (simp add: plists_ok_def)

text \<open>C30. Any sequence of operations on some lists, in which only elements of no list are put in and only elements
  of a list are removed from it, returns what the same operations on plain lists return; afterwards each list
  has those elements, in that order and counted, and a loop over it gives them. A loop that removes the current
  element is one of the operations.\<close>

theorem plist_ops_refine:
  assumes "plists_allowed I (set ls) (\<lambda>l. []) ops"
  shows "\<exists>h'. plist_run C I ops (fold (plist_new C I) ls h) = Some (fst (lists_run ops (\<lambda>l. [])), h') \<and>
    (\<forall>l\<in>set ls. let xs = snd (lists_run ops (\<lambda>l. [])) l in
       plist_walk (plist_iterator_new l h') h' = Some xs \<and> distinct xs \<and>
       (plist_is_empty l h' \<longleftrightarrow> xs = []) \<and>
       (C = List_counter \<longrightarrow> plist_elements l h' = of_nat (length xs)))"
proof -
  let ?L = "snd (lists_run ops (\<lambda>l. []))"
  obtain h' where h': "plist_run C I ops (fold (plist_new C I) ls h) = Some (fst (lists_run ops (\<lambda>l. [])), h')"
      "plists_ok C I (set ls) ?L h'"
    using plist_run_refines [OF plists_new assms, of C h] by blast
  have "plist_walk (plist_iterator_new l h') h' = Some (?L l) \<and> distinct (?L l) \<and> (plist_is_empty l h' \<longleftrightarrow> ?L l = []) \<and>
      (C = List_counter \<longrightarrow> plist_elements l h' = of_nat (length (?L l)))" if "l \<in> set ls" for l
  proof -
    have ok: "plist_ok C I l (?L l) h'" using h'(2) that by (simp add: plists_ok_def)
    then show ?thesis using plist_walk_all [OF ok] plist_next [of C I l "[]" "?L l" h']
      by (auto simp: plist_ok_def plist_is_empty_def plist_elements_def split: list.splits)
  qed
  then show ?thesis using h'(1) by (auto simp: Let_def)
qed

lemma plist_ops_refine_witness:
  "\<exists>h'. plist_run List_counter Fast_push_back
      [Push_back 0 5, Push_front 0 4, Insert_after 0 (Some 5) 6, Push_back 0 7, Purge 0 {4, 7}, Push_back 0 8, Remove 0 5, Push_front 1 5, Pop_front 0]
      (fold (plist_new List_counter Fast_push_back) [0, 1] \<lparr>cell = Map.empty, prev_ptr = Map.empty, m_last = PNext, m_counter = (\<lambda>l. 9)\<rparr>) =
      Some ([None, None, None, None, None, None, None, None, Some 6], h') \<and>
    plist_walk (plist_iterator_new 0 h') h' = Some [8] \<and> plist_elements 0 h' = 1"
  using plist_ops_refine [of Fast_push_back "[0, 1]"
      "[Push_back 0 5, Push_front 0 4, Insert_after 0 (Some 5) 6, Push_back 0 7, Purge 0 {4, 7}, Push_back 0 8, Remove 0 5, Push_front 1 5, Pop_front 0]"
      List_counter "\<lparr>cell = Map.empty, prev_ptr = Map.empty, m_last = PNext, m_counter = (\<lambda>l. 9)\<rparr>"]
  by (auto simp: in_none_def simp del: plist_run.simps fold.simps)

end
