(* ===== verification/Filesort_Buffer.thy ===== *)
theory Filesort_Buffer
  imports Prelude "HOL-Library.Word"
begin

text \<open>
  \<open>Filesort_buffer\<close> of \<open>private/filesort_utils.h\<close>: a chunk of memory with records from the left and pointers to
  them from the right. Addresses and sizes are 64-bit words and wrap; \<open>slots\<close> is the pointer stored at an address.
  \<open>m_idx\<close>, a longlong, is an int: it counts slots of eight bytes. \<open>alloc_sort_buffer\<close> is only declared; what it has to
  provide is \<open>fs_alloced\<close>.
\<close>

record filesort_buffer =
  m_next_rec_ptr :: "64 word"
  m_rawmem :: "64 word"
  m_record_pointers :: "64 word"
  m_sort_keys :: "64 word"
  m_num_records :: "32 word"
  m_record_length :: "32 word"
  m_sort_length :: "32 word"
  m_size_in_bytes :: "64 word"
  m_idx :: int
  slots :: "64 word \<Rightarrow> 64 word"

text \<open>The address of \<open>p[i]\<close> for an array \<open>p\<close> of pointers.\<close>

definition slot :: "64 word \<Rightarrow> int \<Rightarrow> 64 word" where
  "slot p i = p + 8 * word_of_int i"

definition Filesort_buffer_new :: "(64 word \<Rightarrow> 64 word) \<Rightarrow> filesort_buffer" where
  "Filesort_buffer_new mem = \<lparr>m_next_rec_ptr = 0, m_rawmem = 0, m_record_pointers = 0, m_sort_keys = 0, m_num_records = 0,
     m_record_length = 0, m_sort_length = 0, m_size_in_bytes = 0, m_idx = 0, slots = mem\<rparr>"

definition get_sort_keys :: "filesort_buffer \<Rightarrow> 64 word" where
  "get_sort_keys b = (if m_idx b = 0 then 0 else slot (m_record_pointers b) (1 - m_idx b))"

text \<open>The loop of \<open>reverse_record_pointers\<close>; the division truncates, as \<open>count\<close> is not negative.\<close>

function reverse_loop :: "int \<Rightarrow> int \<Rightarrow> 64 word \<Rightarrow> (64 word \<Rightarrow> 64 word) \<Rightarrow> 64 word \<Rightarrow> 64 word" where
  "reverse_loop ix count keys mem =
     (if ix \<le> count div 2 then
        let tmp = mem (slot keys (count - ix));
            mem = mem(slot keys (count - ix) := mem (slot keys ix));
            mem = mem(slot keys ix := tmp)
        in reverse_loop (ix + 1) count keys mem
      else mem)"
  by pat_completeness auto
termination by (relation "measure (\<lambda>(ix, count, keys, mem). nat (count div 2 + 1 - ix))") auto

declare reverse_loop.simps [simp del]

definition reverse_record_pointers :: "filesort_buffer \<Rightarrow> filesort_buffer" where
  "reverse_record_pointers b =
     (if m_idx b < 2 then b
      else let keys = get_sort_keys b; count = m_idx b - 1
           in b\<lparr>slots := reverse_loop 0 count keys (slots b)\<rparr>)"

definition init_next_record_pointer :: "filesort_buffer \<Rightarrow> filesort_buffer" where
  "init_next_record_pointer b = b\<lparr>m_idx := 0, m_next_rec_ptr := m_rawmem b, m_sort_keys := 0\<rparr>"

definition get_next_record_pointer :: "filesort_buffer \<Rightarrow> 64 word \<times> filesort_buffer" where
  "get_next_record_pointer b =
     (let retval = m_next_rec_ptr b;
          b = b\<lparr>slots := (slots b)(slot (m_record_pointers b) (- m_idx b) := m_next_rec_ptr b)\<rparr>;
          b = b\<lparr>m_idx := m_idx b + 1\<rparr>;
          b = b\<lparr>m_next_rec_ptr := m_next_rec_ptr b + ucast (m_record_length b)\<rparr>
      in (retval, b))"

text \<open>The difference of the two uints is a uint.\<close>

definition adjust_next_record_pointer :: "32 word \<Rightarrow> filesort_buffer \<Rightarrow> filesort_buffer" where
  "adjust_next_record_pointer val b = b\<lparr>m_next_rec_ptr := m_next_rec_ptr b - ucast (m_record_length b - val)\<rparr>"

function init_pointers_loop :: "filesort_buffer \<Rightarrow> filesort_buffer" where
  "init_pointers_loop b =
     (if m_idx b < uint (m_num_records b) then init_pointers_loop (snd (get_next_record_pointer b)) else b)"
  by pat_completeness auto
termination
  by (relation "measure (\<lambda>b. nat (uint (m_num_records b) - m_idx b))") (auto simp: get_next_record_pointer_def Let_def)

declare init_pointers_loop.simps [simp del]

definition init_record_pointers :: "filesort_buffer \<Rightarrow> filesort_buffer" where
  "init_record_pointers b = reverse_record_pointers (init_pointers_loop (init_next_record_pointer b))"

definition space_used_for_data :: "filesort_buffer \<Rightarrow> 64 word" where
  "space_used_for_data b = (if m_next_rec_ptr b \<noteq> 0 then m_next_rec_ptr b - m_rawmem b else 0)"

definition spaceleft :: "bool \<Rightarrow> filesort_buffer \<Rightarrow> 64 word option" where
  "spaceleft debug b =
     (if debug \<and> \<not> m_next_rec_ptr b \<ge> m_rawmem b then None
      else let spaceused = (m_next_rec_ptr b - m_rawmem b) + word_of_int (m_idx b) * 8
           in Some (m_size_in_bytes b - spaceused))"

definition isfull :: "bool \<Rightarrow> filesort_buffer \<Rightarrow> bool option" where
  "isfull debug b =
     (if m_idx b < uint (m_num_records b) then Some False
      else map_option (\<lambda>left. left < ucast (m_record_length b) + 8) (spaceleft debug b))"

definition sort_buffer_size :: "filesort_buffer \<Rightarrow> 64 word" where
  "sort_buffer_size b = m_size_in_bytes b"

definition fs_is_allocated :: "filesort_buffer \<Rightarrow> bool" where
  "fs_is_allocated b \<longleftrightarrow> m_rawmem b \<noteq> 0"

definition fs_reset :: "filesort_buffer \<Rightarrow> filesort_buffer" where
  "fs_reset b = b\<lparr>m_rawmem := 0\<rparr>"

definition get_sorted_record :: "32 word \<Rightarrow> filesort_buffer \<Rightarrow> 64 word" where
  "get_sorted_record ix b = slots b (slot (m_sort_keys b) (uint ix))"

definition get_raw_buf :: "filesort_buffer \<Rightarrow> 64 word \<times> 64 word" where
  "get_raw_buf b = (m_rawmem b, m_size_in_bytes b)"

definition get_sort_length :: "filesort_buffer \<Rightarrow> 32 word" where
  "get_sort_length b = m_sort_length b"

definition set_sort_length :: "32 word \<Rightarrow> filesort_buffer \<Rightarrow> filesort_buffer" where
  "set_sort_length val b = b\<lparr>m_sort_length := val\<rparr>"

section \<open>The layout\<close>

text \<open>
  What \<open>alloc_sort_buffer\<close> provides: a buffer that does not wrap, with room for the records asked for and their
  pointers, whose last eight bytes are the first slot.
\<close>

definition fs_alloced :: "filesort_buffer \<Rightarrow> bool" where
  "fs_alloced b \<longleftrightarrow> 0 < unat (m_rawmem b) \<and> unat (m_rawmem b) + unat (m_size_in_bytes b) < 2 ^ 64 \<and>
     unat (m_num_records b) * (unat (m_record_length b) + 8) \<le> unat (m_size_in_bytes b) \<and>
     m_record_pointers b = m_rawmem b + m_size_in_bytes b - 8"

text \<open>Records of the given lengths lie in the buffer, and their pointers at the end of it.\<close>

definition fs_ok :: "nat list \<Rightarrow> filesort_buffer \<Rightarrow> bool" where
  "fs_ok lens b \<longleftrightarrow> fs_alloced b \<and> (\<forall>l\<in>set lens. l \<le> unat (m_record_length b)) \<and>
     m_idx b = int (length lens) \<and> m_next_rec_ptr b = m_rawmem b + of_nat (sum_list lens) \<and>
     sum_list lens + 8 * length lens \<le> unat (m_size_in_bytes b) \<and>
     (\<forall>i < length lens. slots b (slot (m_record_pointers b) (- int i)) = m_rawmem b + of_nat (sum_list (take i lens)))"

lemma fs_init: "fs_alloced b \<Longrightarrow> fs_ok [] (init_next_record_pointer b)"
  by (simp add: fs_ok_def fs_alloced_def init_next_record_pointer_def)

lemma slot_eq: "\<bar>i - j\<bar> < 2 ^ 61 \<Longrightarrow> slot p i = slot p j \<longleftrightarrow> i = j"
proof
  assume b: "\<bar>i - j\<bar> < 2 ^ 61" and s: "slot p i = slot p j"
  have "(word_of_int (8 * i) :: 64 word) = word_of_int (8 * j)" using s by (simp add: slot_def)
  then have "uint (word_of_int (8 * i) :: 64 word) = uint (word_of_int (8 * j) :: 64 word)" by (rule arg_cong)
  then have "(8 * i) mod 2 ^ 64 = (8 * j) mod 2 ^ 64" by (simp only: uint_word_of_int) simp
  then have "2 ^ 64 dvd 8 * i - 8 * j" by (simp add: mod_eq_dvd_iff)
  then obtain k where "8 * i - 8 * j = 2 ^ 64 * k" by (auto elim!: dvdE)
  then have k: "i - j = 2305843009213693952 * k" by simp
  have "i - j < 2305843009213693952" "- 2305843009213693952 < i - j" using b by (simp_all add: abs_less_iff)
  then have "k = 0" unfolding k by simp
  then show "i = j" using k by simp
qed simp


section \<open>Filling the buffer\<close>

lemma unat_bound32: "unat (w :: 32 word) < 2 ^ 32"
  by (rule order_less_le_trans [OF unsigned_less]) simp

lemma int_less_uint: "int k < uint (w :: 32 word) \<longleftrightarrow> k < unat w"
  unfolding uint_nat by (simp only: of_nat_less_iff)

lemma unat_offset:
  fixes p :: "64 word"
  assumes "unat p + n < 2 ^ 64"
  shows "unat (p + of_nat n) = unat p + n"
  using assms by (simp add: unat_word_ariths unat_of_nat take_bit_eq_mod)

text \<open>A buffer that is not full has room for one more record and its pointer.\<close>

lemma isfull_ok:
  assumes ok: "fs_ok lens b"
  shows "\<exists>full. isfull debug b = Some full \<and> (full \<longrightarrow> unat (m_num_records b) \<le> length lens) \<and>
    (\<not> full \<longrightarrow> sum_list lens + unat (m_record_length b) + 8 * length lens + 8 \<le> unat (m_size_in_bytes b))"
proof -
  let ?n = "unat (m_num_records b)" and ?l = "unat (m_record_length b)" and ?k = "length lens" and ?s = "sum_list lens"
  let ?size = "unat (m_size_in_bytes b)"
  have a: "m_idx b = int ?k" "m_next_rec_ptr b = m_rawmem b + of_nat ?s" "?s + 8 * ?k \<le> ?size"
      "unat (m_rawmem b) + ?size < 2 ^ 64" "?n * (?l + 8) \<le> ?size" "\<forall>l\<in>set lens. l \<le> ?l"
    using ok by (simp_all add: fs_ok_def fs_alloced_def)
  have idx: "m_idx b < uint (m_num_records b) \<longleftrightarrow> ?k < ?n" unfolding a(1) by (rule int_less_uint)
  show ?thesis
  proof (cases "?k < ?n")
    case True
    have "?s \<le> ?k * ?l" using a(6) by (induction lens) auto
    then have "?s + ?l + 8 * ?k + 8 \<le> Suc ?k * (?l + 8)" by (simp add: algebra_simps)
    also have "\<dots> \<le> ?n * (?l + 8)" using True by (intro mult_le_mono1) simp
    also have "\<dots> \<le> ?size" by (rule a(5))
    finally have "?s + ?l + 8 * ?k + 8 \<le> ?size" .
    moreover have "isfull debug b = Some False" using idx True by (simp add: isfull_def)
    ultimately show ?thesis by blast
  next
    case False
    have "unat (m_next_rec_ptr b) = unat (m_rawmem b) + ?s" unfolding a(2) using a(3,4) by (intro unat_offset) simp
    then have le: "m_rawmem b \<le> m_next_rec_ptr b" by (simp add: word_le_nat_alt)
    have "(m_next_rec_ptr b - m_rawmem b) + word_of_int (m_idx b) * 8 = (of_nat (?s + 8 * ?k) :: 64 word)" by (simp add: a(1,2))
    moreover have "unat (m_size_in_bytes b - of_nat (?s + 8 * ?k)) = ?size - (?s + 8 * ?k)"
    proof -
      have "unat (of_nat (?s + 8 * ?k) :: 64 word) = ?s + 8 * ?k" using a(3,4) unat_offset [of 0 "?s + 8 * ?k"] by simp
      then show ?thesis using a(3) by (subst unat_sub) (auto simp: word_le_nat_alt)
    qed
    moreover have "unat (ucast (m_record_length b) + 8 :: 64 word) = ?l + 8"
    proof -
      have "?l < 2 ^ 32" by (rule unat_bound32)
      then show ?thesis using unat_offset [of 0 "?l + 8"] by (simp add: algebra_simps)
    qed
    ultimately show ?thesis
      using False idx a(3) le by (auto simp: isfull_def spaceleft_def Let_def word_less_nat_alt)
  qed
qed

lemma adjust_length:
  assumes "val \<le> len"
  shows "p + ucast (len :: 32 word) - ucast (len - val) = (p + of_nat (unat val) :: 64 word)"
proof -
  have "unat (len - val) + unat val = unat len" using assms by (simp add: unat_sub word_le_nat_alt)
  then have "(of_nat (unat (len - val)) + of_nat (unat val) :: 64 word) = of_nat (unat len)" by (metis of_nat_add)
  then show ?thesis by (simp add: algebra_simps)
qed

lemma next_record_ok:
  assumes ok: "fs_ok lens b" and len: "len \<le> m_record_length b"
    and room: "sum_list lens + unat (m_record_length b) + 8 * length lens + 8 \<le> unat (m_size_in_bytes b)"
    and g: "get_next_record_pointer b = (p, b1)"
  shows "fs_ok (lens @ [unat len]) (adjust_next_record_pointer len b1)" "p = m_rawmem b + of_nat (sum_list lens)"
    "m_rawmem b1 = m_rawmem b" "m_size_in_bytes b1 = m_size_in_bytes b" "m_record_length b1 = m_record_length b"
    "m_num_records b1 = m_num_records b" "m_record_pointers b1 = m_record_pointers b"
proof -
  have a: "m_idx b = int (length lens)" "m_next_rec_ptr b = m_rawmem b + of_nat (sum_list lens)" "fs_alloced b" "unat len \<le> unat (m_record_length b)"
      "\<forall>i < length lens. slots b (slot (m_record_pointers b) (- int i)) = m_rawmem b + of_nat (sum_list (take i lens))"
    using ok len by (simp_all add: fs_ok_def word_le_nat_alt)
  have "8 * length lens < 2 ^ 64" using room a(3) by (simp add: fs_alloced_def)
  then have sl: "slot q (- int i) = slot q (- int (length lens)) \<longleftrightarrow> i = length lens" if "i \<le> length lens" for i q
    using that slot_eq [of "- int i" "- int (length lens)" q] by auto
  have b1: "b1 = b\<lparr>slots := (slots b)(slot (m_record_pointers b) (- int (length lens)) := m_next_rec_ptr b),
      m_idx := int (length lens) + 1, m_next_rec_ptr := m_next_rec_ptr b + ucast (m_record_length b)\<rparr>"
    using g a(1) by (auto simp: get_next_record_pointer_def Let_def)
  then show "m_rawmem b1 = m_rawmem b" "m_size_in_bytes b1 = m_size_in_bytes b" "m_record_length b1 = m_record_length b"
      "m_num_records b1 = m_num_records b" "m_record_pointers b1 = m_record_pointers b" by simp_all
  show "p = m_rawmem b + of_nat (sum_list lens)" using g a(2) by (simp add: get_next_record_pointer_def Let_def)
  have "slots b1 (slot (m_record_pointers b) (- int i)) = m_rawmem b + of_nat (sum_list (take i (lens @ [unat len])))"
    if "i < Suc (length lens)" for i
    using that sl [of i "m_record_pointers b"] a(2,5) b1 by (cases "i = length lens") auto
  then have slots: "\<forall>i < length (lens @ [unat len]). slots b1 (slot (m_record_pointers b) (- int i)) =
      m_rawmem b + of_nat (sum_list (take i (lens @ [unat len])))" by simp
  have next_rec: "m_next_rec_ptr (adjust_next_record_pointer len b1) = m_rawmem b + of_nat (sum_list (lens @ [unat len]))"
    using adjust_length [OF len, of "m_next_rec_ptr b"] a(2) b1 by (simp add: adjust_next_record_pointer_def)
  have f: "m_rawmem (adjust_next_record_pointer len b1) = m_rawmem b" "m_size_in_bytes (adjust_next_record_pointer len b1) = m_size_in_bytes b"
      "m_record_length (adjust_next_record_pointer len b1) = m_record_length b" "m_num_records (adjust_next_record_pointer len b1) = m_num_records b"
      "m_record_pointers (adjust_next_record_pointer len b1) = m_record_pointers b" "slots (adjust_next_record_pointer len b1) = slots b1"
      "m_idx (adjust_next_record_pointer len b1) = int (length (lens @ [unat len]))"
    using b1 by (simp_all add: adjust_next_record_pointer_def)
  show "fs_ok (lens @ [unat len]) (adjust_next_record_pointer len b1)"
    unfolding fs_ok_def fs_alloced_def f next_rec
  proof (intro conjI slots refl)
    show "sum_list (lens @ [unat len]) + 8 * length (lens @ [unat len]) \<le> unat (m_size_in_bytes b)" using room a(4) by simp
  qed (use ok a(4) in \<open>auto simp: fs_ok_def fs_alloced_def\<close>)
qed

text \<open>What the client does: records of the given lengths are put into the buffer until it is full.\<close>

fun fill_buffer :: "bool \<Rightarrow> 32 word list \<Rightarrow> filesort_buffer \<Rightarrow> (64 word list \<times> filesort_buffer) option" where
  "fill_buffer debug [] b = Some ([], b)"
| "fill_buffer debug (len # lens) b = do {
     full \<leftarrow> isfull debug b;
     if full then Some ([], b)
     else case get_next_record_pointer b of (p, b) \<Rightarrow> do {
       (ps, b) \<leftarrow> fill_buffer debug lens (adjust_next_record_pointer len b);
       Some (p # ps, b) } }"

lemma fs_address:
  assumes "fs_ok lens b" "i \<le> length lens"
  shows "unat (m_rawmem b + of_nat (sum_list (take i lens))) = unat (m_rawmem b) + sum_list (take i lens)"
proof -
  have "sum_list lens = sum_list (take i lens) + sum_list (drop i lens)" by (metis append_take_drop_id sum_list_append)
  then show ?thesis using assms(1) by (intro unat_offset) (simp add: fs_ok_def fs_alloced_def)
qed

lemma fill_buffer_ok:
  assumes "fs_ok done b" "\<forall>l\<in>set lens. l \<le> m_record_length b"
  shows "\<exists>ps b'. fill_buffer debug lens b = Some (ps, b') \<and> length ps \<le> length lens \<and>
    fs_ok (done @ map unat (take (length ps) lens)) b' \<and>
    min (unat (m_num_records b)) (length done + length lens) \<le> length done + length ps \<and>
    m_rawmem b' = m_rawmem b \<and> m_size_in_bytes b' = m_size_in_bytes b \<and> m_record_length b' = m_record_length b \<and> m_record_pointers b' = m_record_pointers b \<and>
    (\<forall>i < length ps. ps ! i = m_rawmem b + of_nat (sum_list (done @ map unat (take i lens))) \<and>
       unat (ps ! i) + unat (m_record_length b) + 8 * (length done + i + 1) \<le> unat (m_rawmem b) + unat (m_size_in_bytes b))"
  using assms
proof (induction lens arbitrary: "done" b)
  case (Cons len lens)
  obtain full where full: "isfull debug b = Some full" "full \<longrightarrow> unat (m_num_records b) \<le> length done"
      "\<not> full \<longrightarrow> sum_list done + unat (m_record_length b) + 8 * length done + 8 \<le> unat (m_size_in_bytes b)"
    using isfull_ok [OF Cons.prems(1), of debug] by blast
  show ?case
  proof (cases full)
    case True
    then show ?thesis using full Cons.prems by auto
  next
    case False
    obtain p b1 where g: "get_next_record_pointer b = (p, b1)" by fastforce
    have len: "len \<le> m_record_length b" using Cons.prems by simp
    note n = next_record_ok [OF Cons.prems(1) len full(3) [rule_format, OF False] g]
    let ?b = "adjust_next_record_pointer len b1"
    have b: "m_rawmem ?b = m_rawmem b" "m_size_in_bytes ?b = m_size_in_bytes b" "m_record_length ?b = m_record_length b"
        "m_num_records ?b = m_num_records b" "m_record_pointers ?b = m_record_pointers b"
      using n by (simp_all add: adjust_next_record_pointer_def)
    obtain ps b' where r: "fill_buffer debug lens ?b = Some (ps, b')" "length ps \<le> length lens"
        "fs_ok ((done @ [unat len]) @ map unat (take (length ps) lens)) b'"
        "min (unat (m_num_records b)) (length (done @ [unat len]) + length lens) \<le> length (done @ [unat len]) + length ps"
        "m_rawmem b' = m_rawmem b" "m_size_in_bytes b' = m_size_in_bytes b" "m_record_length b' = m_record_length b" "m_record_pointers b' = m_record_pointers b"
        "\<And>i. i < length ps \<Longrightarrow> ps ! i = m_rawmem b + of_nat (sum_list ((done @ [unat len]) @ map unat (take i lens))) \<and>
          unat (ps ! i) + unat (m_record_length b) + 8 * (length (done @ [unat len]) + i + 1) \<le> unat (m_rawmem b) + unat (m_size_in_bytes b)"
      using Cons.IH [OF n(1)] Cons.prems(2) unfolding b by auto
    have "unat p = unat (m_rawmem b) + sum_list done" unfolding n(2) using fs_address [OF Cons.prems(1), of "length done"] by simp
    then have nth: "(p # ps) ! i = m_rawmem b + of_nat (sum_list (done @ map unat (take i (len # lens)))) \<and>
        unat ((p # ps) ! i) + unat (m_record_length b) + 8 * (length done + i + 1) \<le> unat (m_rawmem b) + unat (m_size_in_bytes b)"
      if "i < length (p # ps)" for i
      using that r(9) [of "i - 1"] n(2) full(3) False by (cases i) (auto simp: algebra_simps)
    show ?thesis
    proof (intro exI [of _ "p # ps"] exI [of _ b'] conjI)
      show "fill_buffer debug (len # lens) b = Some (p # ps, b')" using r(1) full(1) False g by simp
      show "fs_ok (done @ map unat (take (length (p # ps)) (len # lens))) b'" using r(3) by simp
      show "min (unat (m_num_records b)) (length done + length (len # lens)) \<le> length done + length (p # ps)" using r(4) by simp
    qed (use r(2,5-8) nth in \<open>simp_all only: length_Cons Suc_le_mono\<close>, blast)
  qed
qed simp

text \<open>C31. Records of at most the record length that are put into an allocated buffer until \<open>isfull\<close> lie in the
  buffer one behind the other, never reach the pointers at its end, not even before they are shortened, and each pointer points
  to its record; at least as many fit as were asked for.\<close>

theorem filling_never_overlaps:
  assumes "fs_alloced b" "\<forall>l\<in>set lens. l \<le> m_record_length b"
  shows "\<exists>ps b'. fill_buffer debug lens (init_next_record_pointer b) = Some (ps, b') \<and>
    min (unat (m_num_records b)) (length lens) \<le> length ps \<and> length ps \<le> length lens \<and> m_idx b' = int (length ps) \<and>
    (\<forall>i < length ps. unat (ps ! i) = unat (m_rawmem b) + sum_list (map unat (take i lens)) \<and>
       unat (ps ! i) + unat (m_record_length b) + 8 * (i + 1) \<le> unat (m_rawmem b) + unat (m_size_in_bytes b) \<and>
       unat (ps ! i) + unat (lens ! i) + 8 * length ps \<le> unat (m_rawmem b) + unat (m_size_in_bytes b) \<and>
       slots b' (slot (m_record_pointers b) (- int i)) = ps ! i)"
proof -
  have i: "m_rawmem (init_next_record_pointer b) = m_rawmem b" "m_size_in_bytes (init_next_record_pointer b) = m_size_in_bytes b"
      "m_record_length (init_next_record_pointer b) = m_record_length b" "m_num_records (init_next_record_pointer b) = m_num_records b"
      "m_record_pointers (init_next_record_pointer b) = m_record_pointers b" by (simp_all add: init_next_record_pointer_def)
  obtain ps b' where r: "fill_buffer debug lens (init_next_record_pointer b) = Some (ps, b')" "length ps \<le> length lens"
      "fs_ok (map unat (take (length ps) lens)) b'" "min (unat (m_num_records b)) (length lens) \<le> length ps"
      "m_rawmem b' = m_rawmem b" "m_size_in_bytes b' = m_size_in_bytes b" "m_record_pointers b' = m_record_pointers b"
      "\<And>i. i < length ps \<Longrightarrow> ps ! i = m_rawmem b + of_nat (sum_list (map unat (take i lens))) \<and>
         unat (ps ! i) + unat (m_record_length b) + 8 * (i + 1) \<le> unat (m_rawmem b) + unat (m_size_in_bytes b)"
    using fill_buffer_ok [OF fs_init [OF assms(1)], of lens debug] assms(2) unfolding i by auto
  have "unat (ps ! i) = unat (m_rawmem b) + sum_list (map unat (take i lens)) \<and>
      unat (ps ! i) + unat (lens ! i) + 8 * length ps \<le> unat (m_rawmem b) + unat (m_size_in_bytes b) \<and>
      slots b' (slot (m_record_pointers b) (- int i)) = ps ! i" if k: "i < length ps" for i
  proof -
    let ?ls = "map unat (take (length ps) lens)"
    have t: "take i ?ls = map unat (take i lens)" "take (Suc i) ?ls = map unat (take i lens) @ [unat (lens ! i)]"
      using k r(2) by (simp_all add: take_map min_def take_Suc_conv_app_nth)
    have "sum_list ?ls = sum_list (take (Suc i) ?ls) + sum_list (drop (Suc i) ?ls)" by (metis append_take_drop_id sum_list_append)
    then have "sum_list (map unat (take i lens)) + unat (lens ! i) + 8 * length ps \<le> unat (m_size_in_bytes b)"
      using r(2,3,6) unfolding t by (simp add: fs_ok_def)
    moreover have "unat (ps ! i) = unat (m_rawmem b) + sum_list (map unat (take i lens))"
      using fs_address [OF r(3), of i] r(2,5,8) k t(1) by simp
    moreover have "slots b' (slot (m_record_pointers b) (- int i)) = ps ! i"
      using r(2,3,5,7,8) k t(1) by (simp add: fs_ok_def)
    ultimately show ?thesis by simp
  qed
  moreover have "m_idx b' = int (length ps)" using r(2,3) by (simp add: fs_ok_def)
  moreover have "\<And>i. i < length ps \<Longrightarrow> unat (ps ! i) + unat (m_record_length b) + 8 * (i + 1) \<le> unat (m_rawmem b) + unat (m_size_in_bytes b)"
    using r(8) by blast
  ultimately show ?thesis using r(1,2,4) by blast
qed


lemma filling_never_overlaps_witness:
  "\<exists>ps b'. fill_buffer True [3, 8, 2]
      (init_next_record_pointer \<lparr>m_next_rec_ptr = 0, m_rawmem = 4096, m_record_pointers = 4128, m_sort_keys = 0,
         m_num_records = 2, m_record_length = 8, m_sort_length = 8, m_size_in_bytes = 40, m_idx = 0, slots = (\<lambda>a. 0)\<rparr>) = Some (ps, b') \<and>
    2 \<le> length ps \<and> unat (ps ! 1) = 4099"
  using filling_never_overlaps [of "\<lparr>m_next_rec_ptr = 0, m_rawmem = 4096, m_record_pointers = 4128, m_sort_keys = 0,
         m_num_records = 2, m_record_length = 8, m_sort_length = 8, m_size_in_bytes = 40, m_idx = 0, slots = (\<lambda>a. 0)\<rparr>" "[3, 8, 2]" True]
  by (auto simp: fs_alloced_def simp del: fill_buffer.simps)

section \<open>The pointers as an ordinary array\<close>

definition key_array :: "filesort_buffer \<Rightarrow> 64 word list" where
  "key_array b = map (\<lambda>i. slots b (slot (get_sort_keys b) (int i))) [0 ..< nat (m_idx b)]"

lemma reverse_loop_ok:
  assumes "0 \<le> ix" "count < 2 ^ 60" "\<bar>j\<bar> < 2 ^ 60"
  shows "reverse_loop ix count keys mem (slot keys j) = mem (slot keys (if ix \<le> j \<and> j \<le> count - ix then count - j else j))"
  using assms
proof (induction ix count keys mem rule: reverse_loop.induct)
  case (1 ix count keys mem)
  show ?case
  proof (cases "ix \<le> count div 2")
    case False
    then have "\<not> (ix \<le> j \<and> j \<le> count - ix)" by linarith
    then show ?thesis using False by (auto simp: reverse_loop.simps [of ix])
  next
    case True
    let ?mem = "mem(slot keys (count - ix) := mem (slot keys ix), slot keys ix := mem (slot keys (count - ix)))"
    have ne: "slot keys i = slot keys k \<longleftrightarrow> i = k" if "\<bar>i\<bar> < 2 ^ 60" "\<bar>k\<bar> < 2 ^ 60" for i k
      using that by (intro slot_eq) (simp add: abs_less_iff)
    have b: "\<bar>ix\<bar> < 2 ^ 60" "\<bar>count - ix\<bar> < 2 ^ 60" "\<bar>j\<bar> < 2 ^ 60" using True "1.prems" by (auto simp: abs_less_iff)
    have r: "reverse_loop ix count keys mem = reverse_loop (ix + 1) count keys ?mem"
      using True by (simp add: reverse_loop.simps [of ix] Let_def)
    have i: "reverse_loop (ix + 1) count keys ?mem (slot keys j) =
        ?mem (slot keys (if ix + 1 \<le> j \<and> j \<le> count - (ix + 1) then count - j else j))"
      by (rule "1.IH" [OF True refl refl refl]) (use 1(2-) in simp_all)
    have c: "\<bar>count - j\<bar> < 2 ^ 60" if "ix \<le> j" "j \<le> count - ix" using that "1.prems" by (simp add: abs_less_iff)
    consider "\<not> (ix \<le> j \<and> j \<le> count - ix)" | "j = ix" | "j = count - ix" "j \<noteq> ix" | "ix + 1 \<le> j" "j \<le> count - (ix + 1)" by linarith
    then show ?thesis
    proof cases
      case 1
      then have "j \<noteq> ix" "j \<noteq> count - ix" "\<not> (ix + 1 \<le> j \<and> j \<le> count - (ix + 1))" using True by linarith+
      then show ?thesis using r i 1 ne [OF b(3) b(1)] ne [OF b(3) b(2)] by auto
    next
      case 2
      moreover have "2 * ix \<le> count" using True by linarith
      ultimately show ?thesis using r i by simp
    next
      case 3
      moreover have "2 * ix \<le> count" using True by linarith
      ultimately show ?thesis using r i ne [OF b(2) b(1)] by simp
    next
      case 4
      then have "ix \<le> j" "j \<le> count - ix" "count - j \<noteq> ix" "count - j \<noteq> count - ix" by linarith+
      then show ?thesis using r i 4 ne [OF c b(1)] ne [OF c b(2)] by simp
    qed
  qed
qed


lemma key_array_reverse:
  assumes "0 \<le> m_idx b" "m_idx b < 2 ^ 60"
  shows "key_array (reverse_record_pointers b) = rev (key_array b)"
proof (cases "m_idx b < 2")
  case True
  then have "m_idx b = 0 \<or> m_idx b = 1" using assms by linarith
  then show ?thesis using True by (auto simp: key_array_def reverse_record_pointers_def)
next
  case False
  let ?n = "nat (m_idx b)" and ?k = "get_sort_keys b"
  have f: "get_sort_keys (reverse_record_pointers b) = ?k" "m_idx (reverse_record_pointers b) = m_idx b"
      "slots (reverse_record_pointers b) = reverse_loop 0 (m_idx b - 1) ?k (slots b)"
    using False by (simp_all add: reverse_record_pointers_def get_sort_keys_def Let_def)
  have "reverse_loop 0 (m_idx b - 1) ?k (slots b) (slot ?k (int i)) = slots b (slot ?k (int (?n - Suc i)))" if "i < ?n" for i
  proof -
    have "m_idx b - 1 - int i = int (?n - Suc i)" "int i \<le> m_idx b - 1" using that assms by linarith+
    then show ?thesis using reverse_loop_ok [of 0 "m_idx b - 1" "int i" ?k "slots b"] that assms by (simp add: diff_diff_eq)
  qed
  then show ?thesis unfolding key_array_def f by (intro nth_equalityI) (simp_all add: rev_nth)
qed

lemma slot_slot: "slot (slot p i) j = slot p (i + j)"
  by (simp add: slot_def algebra_simps)

text \<open>The array in front of the first slot lists the records from the last one to the first.\<close>

lemma key_array_ok:
  assumes "fs_ok lens b"
  shows "rev (key_array b) = map (\<lambda>i. m_rawmem b + of_nat (sum_list (take i lens))) [0 ..< length lens]"
proof (intro nth_equalityI)
  have n: "m_idx b = int (length lens)" using assms by (simp add: fs_ok_def)
  then show "length (rev (key_array b)) = length (map (\<lambda>i. m_rawmem b + of_nat (sum_list (take i lens))) [0 ..< length lens])"
    by (simp add: key_array_def)
  fix i
  assume "i < length (rev (key_array b))"
  then have i: "i < length lens" using n by (simp add: key_array_def)
  then have "slot (get_sort_keys b) (int (length lens - Suc i)) = slot (m_record_pointers b) (- int i)"
    using n by (auto simp: get_sort_keys_def slot_slot)
  then show "rev (key_array b) ! i = map (\<lambda>i. m_rawmem b + of_nat (sum_list (take i lens))) [0 ..< length lens] ! i"
    using assms i n nth_upt [of 0 "length lens - Suc i" "length lens"] by (simp add: key_array_def rev_nth fs_ok_def)
qed

lemma init_pointers_loop_ok:
  assumes "fs_ok (replicate k (unat (m_record_length b))) b" "k \<le> unat (m_num_records b)"
  shows "fs_ok (replicate (unat (m_num_records b)) (unat (m_record_length b))) (init_pointers_loop b) \<and>
    m_rawmem (init_pointers_loop b) = m_rawmem b"
  using assms
proof (induction "unat (m_num_records b) - k" arbitrary: k b)
  case 0
  then have "\<not> m_idx b < uint (m_num_records b)" by (simp add: fs_ok_def int_less_uint)
  then show ?case using 0 by (simp add: init_pointers_loop.simps [of b])
next
  case (Suc d)
  let ?l = "unat (m_record_length b)"
  obtain p b1 where g: "get_next_record_pointer b = (p, b1)" by fastforce
  have "Suc k * (?l + 8) \<le> unat (m_num_records b) * (?l + 8)" using Suc(2) by (intro mult_le_mono1) simp
  also have "\<dots> \<le> unat (m_size_in_bytes b)" using Suc.prems(1) by (simp add: fs_ok_def fs_alloced_def)
  finally have "sum_list (replicate k ?l) + ?l + 8 * length (replicate k ?l) + 8 \<le> unat (m_size_in_bytes b)"
    by (simp add: sum_list_replicate algebra_simps)
  note n = next_record_ok [OF Suc.prems(1) order_refl this g]
  have "adjust_next_record_pointer (m_record_length b) b1 = b1" using n(5) by (simp add: adjust_next_record_pointer_def)
  then have "fs_ok (replicate (Suc k) (unat (m_record_length b1))) b1" using n(1,5) by (simp add: replicate_append_same)
  moreover have "m_idx b < uint (m_num_records b)"
    using Suc.prems(1) Suc(2) by (simp add: fs_ok_def int_less_uint)
  ultimately show ?case using Suc.hyps(1) [of b1 "Suc k"] Suc(2) n g by (simp add: init_pointers_loop.simps [of b])
qed

text \<open>After \<open>init_record_pointers\<close> the array of sort keys holds the addresses of as many records as were
  asked for, one record length apart, from the start of the buffer on.\<close>

theorem record_pointers_in_order:
  assumes "fs_alloced b"
  shows "key_array (init_record_pointers b) =
    map (\<lambda>i. m_rawmem b + of_nat (i * unat (m_record_length b))) [0 ..< unat (m_num_records b)]"
proof -
  let ?b = "init_next_record_pointer b" and ?n = "unat (m_num_records b)" and ?l = "unat (m_record_length b)"
  have f: "m_num_records ?b = m_num_records b" "m_record_length ?b = m_record_length b" "m_rawmem ?b = m_rawmem b"
    by (simp_all add: init_next_record_pointer_def)
  have "fs_ok (replicate 0 (unat (m_record_length ?b))) ?b" using fs_init [OF assms] by simp
  then have ok: "fs_ok (replicate ?n ?l) (init_pointers_loop ?b)" "m_rawmem (init_pointers_loop ?b) = m_rawmem b"
    using init_pointers_loop_ok [of 0 ?b] f by auto
  have "uint (m_num_records b) < 2 ^ 32" by (rule order_less_le_trans [OF unsigned_less]) simp
  then have "0 \<le> m_idx (init_pointers_loop ?b)" "m_idx (init_pointers_loop ?b) < 2 ^ 60" using ok(1) by (simp_all add: fs_ok_def)
  then have "key_array (init_record_pointers b) = rev (key_array (init_pointers_loop ?b))"
    unfolding init_record_pointers_def by (rule key_array_reverse)
  also have "\<dots> = map (\<lambda>i. m_rawmem b + of_nat (sum_list (take i (replicate ?n ?l)))) [0 ..< ?n]"
    using key_array_ok [OF ok(1)] ok(2) by simp
  also have "\<dots> = map (\<lambda>i. m_rawmem b + of_nat (i * ?l)) [0 ..< ?n]" by (simp add: sum_list_replicate min_def)
  finally show ?thesis .
qed

lemma record_pointers_in_order_witness:
  "key_array (init_record_pointers \<lparr>m_next_rec_ptr = 0, m_rawmem = 4096, m_record_pointers = 4144, m_sort_keys = 0,
         m_num_records = 3, m_record_length = 8, m_sort_length = 8, m_size_in_bytes = 56, m_idx = 0, slots = (\<lambda>a. 0)\<rparr>) = [4096, 4104, 4112]"
  using record_pointers_in_order [of "\<lparr>m_next_rec_ptr = 0, m_rawmem = 4096, m_record_pointers = 4144, m_sort_keys = 0,
         m_num_records = 3, m_record_length = 8, m_sort_length = 8, m_size_in_bytes = 56, m_idx = 0, slots = (\<lambda>a. 0)\<rparr>"]
  by (simp add: fs_alloced_def upt_rec)

end
