(* ===== verification/Mem_Root_Array.thy ===== *)
theory Mem_Root_Array
  imports Prelude "HOL-Library.Word" "HOL-Library.Multiset"
begin

text \<open>
  \<open>Mem_root_array\<close> of \<open>private/mem_root_array.h\<close>. The memory is a list of blocks, a pointer the number of its block;
  a slot of a block holds an element or is raw memory. What \<open>alloc_root\<close>, which the header does not define, answers is
  the argument \<open>grants\<close>, by the number of the call and the bytes asked for. \<open>esize\<close> is \<open>sizeof(Element_type)\<close>, \<open>triv\<close> is
  \<open>has_trivial_destructor\<close>. None: an access outside a block, to raw memory, or through a null pointer, or
  a failed assertion.
\<close>

section \<open>Memory\<close>

record 'a mra_mem =
  blocks :: "'a option list list"
  answers :: "bool list"
  constructed :: "'a list"
  destroyed :: "'a list"

datatype 'a element_ref = Temporary 'a | Slot nat nat

definition read_slot :: "nat \<Rightarrow> nat \<Rightarrow> 'a mra_mem \<Rightarrow> 'a option" where
  "read_slot b i m = (if b < length (blocks m) \<and> i < length (blocks m ! b) then blocks m ! b ! i else None)"

fun read_ref :: "'a element_ref \<Rightarrow> 'a mra_mem \<Rightarrow> 'a option" where
  "read_ref (Temporary v) m = Some v"
| "read_ref (Slot b i) m = read_slot b i m"

text \<open>\<open>new (p) Element_type(v)\<close> and \<open>p->~Element_type()\<close>.\<close>

definition construct_at :: "nat \<Rightarrow> nat \<Rightarrow> 'a \<Rightarrow> 'a mra_mem \<Rightarrow> 'a mra_mem option" where
  "construct_at b i v m =
     (if b < length (blocks m) \<and> i < length (blocks m ! b)
      then Some (m\<lparr>blocks := (blocks m)[b := (blocks m ! b)[i := Some v]], constructed := constructed m @ [v]\<rparr>) else None)"

definition destroy_at :: "nat \<Rightarrow> nat \<Rightarrow> 'a mra_mem \<Rightarrow> 'a mra_mem option" where
  "destroy_at b i m =
     (case read_slot b i m of None \<Rightarrow> None
      | Some v \<Rightarrow> Some (m\<lparr>blocks := (blocks m)[b := (blocks m ! b)[i := None]], destroyed := destroyed m @ [v]\<rparr>))"

definition alloc_root :: "(nat \<Rightarrow> 64 word \<Rightarrow> bool) \<Rightarrow> 64 word \<Rightarrow> 64 word \<Rightarrow> 'a mra_mem \<Rightarrow> nat option \<times> 'a mra_mem" where
  "alloc_root grants esize bytes m =
     (if grants (length (answers m)) bytes
      then (Some (length (blocks m)), m\<lparr>blocks := blocks m @ [replicate (unat bytes div unat esize) None], answers := answers m @ [True]\<rparr>)
      else (None, m\<lparr>answers := answers m @ [False]\<rparr>))"

text \<open>The loop \<open>for (ix= a; ix < b; ++ix)\<close>.\<close>

fun for_range :: "(nat \<Rightarrow> 's \<Rightarrow> 's option) \<Rightarrow> nat list \<Rightarrow> 's \<Rightarrow> 's option" where
  "for_range f [] s = Some s"
| "for_range f (i # is) s = do { s \<leftarrow> f i s; for_range f is s }"

section \<open>Mem\_root\_array\<close>

record mem_root_array =
  m_array :: "nat option"
  m_size :: "64 word"
  m_capacity :: "64 word"

definition mra_new :: mem_root_array where
  "mra_new = \<lparr>m_array = None, m_size = 0, m_capacity = 0\<rparr>"

definition mra_size :: "mem_root_array \<Rightarrow> 64 word" where "mra_size a = m_size a"

definition mra_capacity :: "mem_root_array \<Rightarrow> 64 word" where "mra_capacity a = m_capacity a"

definition mra_empty :: "mem_root_array \<Rightarrow> bool" where "mra_empty a \<longleftrightarrow> mra_size a = 0"

text \<open>\<open>at\<close> gives a reference, here the slot; \<open>back\<close> is the slot of the last element.\<close>

definition mra_at :: "bool \<Rightarrow> 64 word \<Rightarrow> mem_root_array \<Rightarrow> (nat \<times> nat) option" where
  "mra_at debug n a = (if debug \<and> \<not> n < mra_size a then None else map_option (\<lambda>b. (b, unat n)) (m_array a))"

definition mra_back :: "bool \<Rightarrow> mem_root_array \<Rightarrow> (nat \<times> nat) option" where
  "mra_back debug a = mra_at debug (mra_size a - 1) a"

definition mra_begin :: "mem_root_array \<Rightarrow> (nat \<times> nat) option" where
  "mra_begin a = map_option (\<lambda>b. (b, 0)) (m_array a)"

definition mra_end :: "mem_root_array \<Rightarrow> (nat \<times> nat) option" where
  "mra_end a = map_option (\<lambda>b. (b, unat (mra_size a))) (m_array a)"

definition mra_chop :: "bool \<Rightarrow> bool \<Rightarrow> 64 word \<Rightarrow> mem_root_array \<Rightarrow> 'a mra_mem \<Rightarrow> (mem_root_array \<times> 'a mra_mem) option" where
  "mra_chop debug triv pos a m =
     (if debug \<and> \<not> pos < m_size a then None
      else do {
        m \<leftarrow> (if triv then Some m
          else for_range (\<lambda>ix m. do { b \<leftarrow> m_array a; destroy_at b ix m }) [unat pos ..< unat (m_size a)] m);
        Some (a\<lparr>m_size := pos\<rparr>, m) })"

definition mra_clear :: "bool \<Rightarrow> bool \<Rightarrow> mem_root_array \<Rightarrow> 'a mra_mem \<Rightarrow> (mem_root_array \<times> 'a mra_mem) option" where
  "mra_clear debug triv a m = (if \<not> mra_empty a then mra_chop debug triv 0 a m else Some (a, m))"

text \<open>The copy loop of \<open>reserve\<close>.\<close>

definition move_element :: "bool \<Rightarrow> nat \<Rightarrow> mem_root_array \<Rightarrow> nat \<Rightarrow> 'a mra_mem \<Rightarrow> 'a mra_mem option" where
  "move_element triv array a ix m = do {
     old \<leftarrow> m_array a;
     v \<leftarrow> read_slot old ix m;
     m \<leftarrow> construct_at array ix v m;
     if triv then Some m else destroy_at old ix m }"

definition mra_reserve ::
  "(nat \<Rightarrow> 64 word \<Rightarrow> bool) \<Rightarrow> bool \<Rightarrow> 64 word \<Rightarrow> 64 word \<Rightarrow> mem_root_array \<Rightarrow> 'a mra_mem \<Rightarrow> (bool \<times> mem_root_array \<times> 'a mra_mem) option" where
  "mra_reserve grants triv esize n a m =
     (if n \<le> m_capacity a then Some (False, a, m)
      else case alloc_root grants esize (n * esize) m of
        (None, m) \<Rightarrow> Some (True, a, m)
      | (Some array, m) \<Rightarrow> do {
          m \<leftarrow> for_range (move_element triv array a) [0 ..< unat (m_size a)] m;
          Some (False, a\<lparr>m_array := Some array, m_capacity := n\<rparr>, m) })"

definition mra_push_back ::
  "(nat \<Rightarrow> 64 word \<Rightarrow> bool) \<Rightarrow> bool \<Rightarrow> 64 word \<Rightarrow> 'a element_ref \<Rightarrow> mem_root_array \<Rightarrow> 'a mra_mem \<Rightarrow> (bool \<times> mem_root_array \<times> 'a mra_mem) option" where
  "mra_push_back grants triv esize element a m = do {
     let min_capacity = 20;
     let expansion_factor = 2;
     (failed, a, m) \<leftarrow> (if m_capacity a = 0 then mra_reserve grants triv esize min_capacity a m else Some (False, a, m));
     if failed then Some (True, a, m)
     else do {
       (failed, a, m) \<leftarrow> (if m_size a = m_capacity a
         then mra_reserve grants triv esize (m_capacity a * expansion_factor) a m else Some (False, a, m));
       if failed then Some (True, a, m)
       else do {
         p \<leftarrow> m_array a;
         let i = unat (m_size a);
         let a = a\<lparr>m_size := m_size a + 1\<rparr>;
         v \<leftarrow> read_ref element m;
         m \<leftarrow> construct_at p i v m;
         Some (False, a, m) } } }"

definition mra_pop_back :: "bool \<Rightarrow> bool \<Rightarrow> mem_root_array \<Rightarrow> 'a mra_mem \<Rightarrow> (mem_root_array \<times> 'a mra_mem) option" where
  "mra_pop_back debug triv a m =
     (if debug \<and> mra_empty a then None
      else do {
        m \<leftarrow> (if triv then Some m else do { (b, i) \<leftarrow> mra_back debug a; destroy_at b i m });
        Some (a\<lparr>m_size := m_size a - 1\<rparr>, m) })"

text \<open>The loops of \<open>resize\<close>; the first ignores what \<open>push_back\<close> returns.\<close>

partial_function (option) push_until ::
  "(nat \<Rightarrow> 64 word \<Rightarrow> bool) \<Rightarrow> bool \<Rightarrow> 64 word \<Rightarrow> 64 word \<Rightarrow> 'a element_ref \<Rightarrow> mem_root_array \<Rightarrow> 'a mra_mem \<Rightarrow> (mem_root_array \<times> 'a mra_mem) option" where
  "push_until grants triv esize n val a m =
     (if n = m_size a then Some (a, m)
      else Option.bind (mra_push_back grants triv esize val a m)
        (\<lambda>(failed, a, m). push_until grants triv esize n val a m))"

partial_function (option) pop_until ::
  "bool \<Rightarrow> bool \<Rightarrow> 64 word \<Rightarrow> mem_root_array \<Rightarrow> 'a mra_mem \<Rightarrow> (mem_root_array \<times> 'a mra_mem) option" where
  "pop_until debug triv n a m =
     (if n = m_size a then Some (a, m)
      else Option.bind (mra_pop_back debug triv a m) (\<lambda>(a, m). pop_until debug triv n a m))"

definition mra_resize ::
  "(nat \<Rightarrow> 64 word \<Rightarrow> bool) \<Rightarrow> bool \<Rightarrow> bool \<Rightarrow> 64 word \<Rightarrow> 64 word \<Rightarrow> 'a element_ref \<Rightarrow> mem_root_array \<Rightarrow> 'a mra_mem \<Rightarrow> (mem_root_array \<times> 'a mra_mem) option" where
  "mra_resize grants debug triv esize n val a m =
     (if n = m_size a then Some (a, m)
      else if n > m_size a then do {
        (failed, a, m) \<leftarrow> mra_reserve grants triv esize n a m;
        if \<not> failed then push_until grants triv esize n val a m else Some (a, m)
      } else do {
        (a, m) \<leftarrow> (if \<not> triv then pop_until debug triv n a m else Some (a, m));
        Some (a\<lparr>m_size := n\<rparr>, m) })"

definition mra_new_sized ::
  "(nat \<Rightarrow> 64 word \<Rightarrow> bool) \<Rightarrow> bool \<Rightarrow> bool \<Rightarrow> 64 word \<Rightarrow> 64 word \<Rightarrow> 'a element_ref \<Rightarrow> 'a mra_mem \<Rightarrow> (mem_root_array \<times> 'a mra_mem) option" where
  "mra_new_sized grants debug triv esize n val m = mra_resize grants debug triv esize n val mra_new m"

definition mra_destroy :: "bool \<Rightarrow> bool \<Rightarrow> mem_root_array \<Rightarrow> 'a mra_mem \<Rightarrow> (mem_root_array \<times> 'a mra_mem) option" where
  "mra_destroy debug triv a m = mra_clear debug triv a m"

section \<open>What the array holds\<close>

definition mra_ok :: "bool \<Rightarrow> 64 word \<Rightarrow> 'a list \<Rightarrow> mem_root_array \<Rightarrow> 'a mra_mem \<Rightarrow> bool" where
  "mra_ok triv esize xs a m \<longleftrightarrow>
     unat (m_size a) = length xs \<and> length xs \<le> unat (m_capacity a) \<and> unat (m_capacity a) * unat esize < 2 ^ 63 \<and>
     (m_capacity a \<noteq> 0 \<longrightarrow> (\<exists>b. m_array a = Some b \<and> b < length (blocks m) \<and> unat (m_capacity a) \<le> length (blocks m ! b) \<and>
        take (length xs) (blocks m ! b) = map Some xs)) \<and>
     (\<not> triv \<longrightarrow> mset (constructed m) = mset (destroyed m) + mset xs)"

text \<open>\<open>alloc_root\<close> gives no block of half the address space or more, and elements are not huge.\<close>

definition grants_ok :: "(nat \<Rightarrow> 64 word \<Rightarrow> bool) \<Rightarrow> 64 word \<Rightarrow> bool" where
  "grants_ok grants esize \<longleftrightarrow> (\<forall>k bytes. grants k bytes \<longrightarrow> unat bytes < 2 ^ 63) \<and> 0 < unat esize \<and> 20 * unat esize < 2 ^ 63"

lemma for_range_append: "for_range f (is @ js) s = do { s \<leftarrow> for_range f is s; for_range f js s }"
  by (induction "is" arbitrary: s) (auto split: bind_splits)

text \<open>A block that holds the elements from \<open>i\<close> on.\<close>

definition holds :: "'a mra_mem \<Rightarrow> nat \<Rightarrow> nat \<Rightarrow> 'a list \<Rightarrow> bool" where
  "holds m b i xs \<longleftrightarrow> b < length (blocks m) \<and> length xs \<le> length (blocks m ! b) \<and> (\<forall>j < length xs. i \<le> j \<longrightarrow> blocks m ! b ! j = Some (xs ! j))"

lemma holds_take: "holds m b 0 xs \<longleftrightarrow> b < length (blocks m) \<and> length xs \<le> length (blocks m ! b) \<and> take (length xs) (blocks m ! b) = map Some xs"
  by (auto simp: holds_def list_eq_iff_nth_eq)

definition balanced :: "bool \<Rightarrow> 'a list \<Rightarrow> 'a mra_mem \<Rightarrow> bool" where
  "balanced triv xs m \<longleftrightarrow> (\<not> triv \<longrightarrow> mset (constructed m) = mset (destroyed m) + mset xs)"

lemma mra_ok_iff: "mra_ok triv esize xs a m \<longleftrightarrow>
     unat (m_size a) = length xs \<and> length xs \<le> unat (m_capacity a) \<and> unat (m_capacity a) * unat esize < 2 ^ 63 \<and>
     (m_capacity a \<noteq> 0 \<longrightarrow> (\<exists>b. m_array a = Some b \<and> unat (m_capacity a) \<le> length (blocks m ! b) \<and> holds m b 0 xs)) \<and>
     balanced triv xs m"
  by (auto simp: mra_ok_def holds_take balanced_def)

lemma move_loop:
  assumes "m_array a = Some old" "old \<noteq> array" "holds m old 0 xs" "array < length (blocks m)" "length xs \<le> length (blocks m ! array)"
    and "balanced triv xs m" "k \<le> length xs"
  shows "\<exists>m'. for_range (move_element triv array a) [0 ..< k] m = Some m' \<and> holds m' old k xs \<and> holds m' array 0 (take k xs) \<and>
    length (blocks m' ! array) = length (blocks m ! array) \<and> length (blocks m') = length (blocks m) \<and> balanced triv xs m' \<and> answers m' = answers m \<and>
    (\<not> triv \<longrightarrow> (\<forall>j < k. read_slot old j m' = None))"
  using assms(7)
proof (induction k)
  case 0
  then show ?case using assms by (auto simp: holds_def)
next
  case (Suc k)
  then obtain m1 where m1: "for_range (move_element triv array a) [0 ..< k] m = Some m1" "holds m1 old k xs" "holds m1 array 0 (take k xs)"
      "length (blocks m1 ! array) = length (blocks m ! array)" "length (blocks m1) = length (blocks m)" "balanced triv xs m1" "answers m1 = answers m"
      "\<not> triv \<longrightarrow> (\<forall>j < k. read_slot old j m1 = None)" by auto
  have k: "k < length xs" using Suc.prems by simp
  let ?m2 = "m1\<lparr>blocks := (blocks m1)[array := (blocks m1 ! array)[k := Some (xs ! k)]], constructed := constructed m1 @ [xs ! k]\<rparr>"
  let ?m3 = "if triv then ?m2 else ?m2\<lparr>blocks := (blocks ?m2)[old := (blocks ?m2 ! old)[k := None]], destroyed := destroyed ?m2 @ [xs ! k]\<rparr>"
  have "move_element triv array a k m1 = Some ?m3"
    using m1 k assms by (auto simp: move_element_def read_slot_def construct_at_def destroy_at_def holds_def)
  moreover have "holds ?m3 old (Suc k) xs" "holds ?m3 array 0 (take (Suc k) xs)"
    using m1 k assms by (auto simp: holds_def nth_list_update nth_Cons less_Suc_eq)
  moreover have "length (blocks ?m3 ! array) = length (blocks m ! array)" "length (blocks ?m3) = length (blocks m)" "balanced triv xs ?m3" "answers ?m3 = answers m"
    using m1 assms by (auto simp: balanced_def)
  moreover have "\<not> triv \<longrightarrow> (\<forall>j < Suc k. read_slot old j ?m3 = None)"
    using m1 assms by (auto simp: read_slot_def less_Suc_eq nth_list_update)
  ultimately show ?case using m1(1) by (simp add: for_range_append)
qed

text \<open>The number of refused requests.\<close>

abbreviation refused :: "'a mra_mem \<Rightarrow> nat" where
  "refused m \<equiv> count_list (answers m) False"

lemma mra_reserve_ok:
  assumes g: "grants_ok grants esize" and ok: "mra_ok triv esize xs a m" and n: "unat n * unat esize < 2 ^ 64"
  shows "\<exists>failed a' m'. mra_reserve grants triv esize n a m = Some (failed, a', m') \<and> mra_ok triv esize xs a' m' \<and>
    (\<not> failed \<longrightarrow> n \<le> m_capacity a') \<and> refused m' = refused m + of_bool failed"
proof (cases "n \<le> m_capacity a")
  case True
  then show ?thesis using ok by (intro exI [of _ False]) (simp add: mra_reserve_def)
next
  case False
  have size: "unat (n * esize) = unat n * unat esize" using n by (simp add: unat_word_ariths)
  show ?thesis
  proof (cases "grants (length (answers m)) (n * esize)")
    case refuse: False
    then have "mra_reserve grants triv esize n a m = Some (True, a, m\<lparr>answers := answers m @ [False]\<rparr>)"
      using False by (simp add: mra_reserve_def alloc_root_def)
    then show ?thesis using ok by (auto simp: mra_ok_def)
  next
    case True
    let ?m = "m\<lparr>blocks := blocks m @ [replicate (unat n) None], answers := answers m @ [True]\<rparr>" and ?b = "length (blocks m)"
    have esize: "0 < unat esize" using g by (simp add: grants_ok_def)
    have al: "alloc_root grants esize (n * esize) m = (Some ?b, ?m)" using True esize by (simp add: alloc_root_def size)
    have small: "unat n * unat esize < 2 ^ 63" using g True size unfolding grants_ok_def by metis
    have len: "length xs \<le> unat n" using ok False by (simp add: mra_ok_def word_le_nat_alt)
    obtain m' where m': "for_range (move_element triv ?b a) [0 ..< unat (m_size a)] ?m = Some m'" "holds m' ?b 0 xs"
        "length (blocks m' ! ?b) = unat n" "balanced triv xs m'" "answers m' = answers ?m"
    proof (cases "m_capacity a = 0")
      case True
      then have "xs = []" "m_size a = 0" using ok by (simp_all add: mra_ok_def) (metis list.size(3) unat_eq_zero)
      then show ?thesis using that [of ?m] ok by (simp add: holds_def mra_ok_iff balanced_def)
    next
      case False
      then obtain old where old: "m_array a = Some old" "holds m old 0 xs" using ok by (auto simp: mra_ok_iff)
      then have o: "old \<noteq> ?b" "holds ?m old 0 xs" by (auto simp: holds_def nth_append)
      have "\<exists>m'. for_range (move_element triv ?b a) [0 ..< length xs] ?m = Some m' \<and> holds m' old (length xs) xs \<and> holds m' ?b 0 (take (length xs) xs) \<and>
          length (blocks m' ! ?b) = length (blocks ?m ! ?b) \<and> length (blocks m') = length (blocks ?m) \<and> balanced triv xs m' \<and> answers m' = answers ?m \<and>
          (\<not> triv \<longrightarrow> (\<forall>j < length xs. read_slot old j m' = None))"
        by (rule move_loop [OF old(1) o]) (use ok len in \<open>auto simp: mra_ok_iff balanced_def\<close>)
      then show ?thesis using that ok by (auto simp: mra_ok_iff)
    qed
    have "mra_ok triv esize xs (a\<lparr>m_array := Some ?b, m_capacity := n\<rparr>) m'"
      using m' small len ok by (simp add: mra_ok_iff)
    then show ?thesis using False al m' by (intro exI [of _ False]) (simp add: mra_reserve_def)
  qed
qed


text \<open>With room in the array, nothing is allocated.\<close>

lemma push_room:
  assumes ok: "mra_ok triv esize xs a m" and room: "m_size a < m_capacity a" and v: "read_ref e m = Some v"
  shows "\<exists>a' m'. mra_push_back grants triv esize e a m = Some (False, a', m') \<and> mra_ok triv esize (xs @ [v]) a' m' \<and>
    m_capacity a' = m_capacity a \<and> answers m' = answers m"
proof -
  obtain b where b: "m_array a = Some b" "unat (m_capacity a) \<le> length (blocks m ! b)" "holds m b 0 xs" "m_capacity a \<noteq> 0" "m_size a \<noteq> m_capacity a"
  proof -
    have "m_capacity a \<noteq> 0" "m_size a \<noteq> m_capacity a" using room by auto
    then show ?thesis using that ok by (auto simp: mra_ok_iff)
  qed
  have len: "unat (m_size a) = length xs" "length xs < unat (m_capacity a)" using ok room by (simp_all add: mra_ok_def word_less_nat_alt)
  let ?m = "m\<lparr>blocks := (blocks m)[b := (blocks m ! b)[length xs := Some v]], constructed := constructed m @ [v]\<rparr>"
  have c: "construct_at b (length xs) v m = Some ?m" using b len by (simp add: construct_at_def holds_def)
  have "unat (m_capacity a) < 2 ^ 64" by (rule order_less_le_trans [OF unsigned_less]) simp
  then have "unat (m_size a + 1) = Suc (length xs)" using len by (simp add: unat_word_ariths)
  moreover have "holds ?m b 0 (xs @ [v])" using b len by (auto simp: holds_def nth_append nth_list_update)
  ultimately have "mra_ok triv esize (xs @ [v]) (a\<lparr>m_size := m_size a + 1\<rparr>) ?m"
    using ok b len by (auto simp: mra_ok_iff balanced_def holds_def)
  moreover have "mra_push_back grants triv esize e a m = Some (False, a\<lparr>m_size := m_size a + 1\<rparr>, ?m)"
    using b len c v by (simp add: mra_push_back_def Let_def)
  ultimately show ?thesis by simp
qed

lemma mra_push_back_ok:
  assumes g: "grants_ok grants esize" and ok: "mra_ok triv esize xs a m"
  shows "\<exists>failed a' m'. mra_push_back grants triv esize (Temporary v) a m = Some (failed, a', m') \<and>
    mra_ok triv esize (if failed then xs else xs @ [v]) a' m' \<and> refused m' = refused m + of_bool failed"
proof -
  let ?n = "if m_capacity a = 0 then 20 else m_capacity a * 2"
  have e: "20 * unat esize < 2 ^ 63" "0 < unat esize" using g by (simp_all add: grants_ok_def)
  have c: "unat (m_capacity a) * unat esize < 2 ^ 63" "unat (m_size a) = length xs" "length xs \<le> unat (m_capacity a)"
    using ok by (simp_all add: mra_ok_def)
  have "unat (m_capacity a) * 1 \<le> unat (m_capacity a) * unat esize" using e(2) by (intro mult_le_mono2) simp
  then have "unat (m_capacity a) * 1 < 2 ^ 63" using c(1) by (rule order_le_less_trans)
  then have "unat (m_capacity a) * 2 < 2 ^ 64" by simp
  then have d: "unat (m_capacity a * 2) = unat (m_capacity a) * 2" by (simp add: unat_word_ariths)
  have n: "unat ?n * unat esize < 2 ^ 64" using e(1) c(1) d by (simp add: mult.commute)
  show ?thesis
  proof (cases "m_size a < m_capacity a")
    case True
    show ?thesis using push_room [OF ok True, of "Temporary v" v grants] by (auto intro!: exI [of _ False])
  next
    case False
    then have full: "m_size a = m_capacity a" using c by (simp add: word_less_nat_alt word_unat_eq_iff)
    obtain failed a1 m1 where r: "mra_reserve grants triv esize ?n a m = Some (failed, a1, m1)" "mra_ok triv esize xs a1 m1"
        "\<not> failed \<longrightarrow> ?n \<le> m_capacity a1" "refused m1 = refused m + of_bool failed"
      using mra_reserve_ok [OF g ok n] by blast
    have push: "mra_push_back grants triv esize (Temporary v) a m =
        (if failed then Some (True, a1, m1) else mra_push_back grants triv esize (Temporary v) a1 m1)"
    proof (cases failed)
      case True
      then show ?thesis using r(1) full by (cases "m_capacity a = 0") (simp_all add: mra_push_back_def)
    next
      case False
      then have gt: "?n \<le> m_capacity a1" using r(3) by simp
      have "unat (m_size a1) = length xs" using r(2) by (simp add: mra_ok_def)
      moreover have "length xs < unat ?n" using c d full by (cases "m_capacity a = 0") (auto simp: unat_eq_zero simp flip: word_unat_eq_iff)
      ultimately have "m_size a1 < m_capacity a1" using gt by (simp add: word_less_nat_alt word_le_nat_alt)
      then have "m_size a1 \<noteq> m_capacity a1" "m_capacity a1 \<noteq> 0" by auto
      then show ?thesis using r(1) full False by (cases "m_capacity a = 0") (simp_all add: mra_push_back_def)
    qed
    show ?thesis
    proof (cases failed)
      case True
      then show ?thesis using r push by auto
    next
      case nf: False
      have "unat (m_size a1) = length xs" using r(2) by (simp add: mra_ok_def)
      moreover have "length xs < unat ?n" using c d full by (cases "m_capacity a = 0") (auto simp: unat_eq_zero simp flip: word_unat_eq_iff)
      ultimately have "m_size a1 < m_capacity a1" using r(3) nf by (simp add: word_less_nat_alt word_le_nat_alt)
      then show ?thesis using push_room [OF r(2), of "Temporary v" v grants] push nf r(4) by auto
    qed
  qed
qed

lemma destroy_range_ok:
  assumes "m_array a = Some b" "holds m b 0 xs" "balanced False xs m" "p \<le> k" "k \<le> length xs"
  shows "\<exists>m'. for_range (\<lambda>ix m. do { b \<leftarrow> m_array a; destroy_at b ix m }) [p ..< k] m = Some m' \<and> holds m' b 0 (take p xs) \<and> holds m' b k xs \<and>
    balanced False (take p xs @ drop k xs) m' \<and> length (blocks m' ! b) = length (blocks m ! b) \<and> answers m' = answers m"
  using assms(4,5)
proof (induction k rule: dec_induct)
  case base
  then show ?case using assms by (auto simp: holds_def)
next
  case (step k)
  then obtain m1 where m1: "for_range (\<lambda>ix m. do { b \<leftarrow> m_array a; destroy_at b ix m }) [p ..< k] m = Some m1" "holds m1 b 0 (take p xs)"
      "holds m1 b k xs" "balanced False (take p xs @ drop k xs) m1" "length (blocks m1 ! b) = length (blocks m ! b)" "answers m1 = answers m" by auto
  have k: "k < length xs" using step by simp
  let ?m2 = "m1\<lparr>blocks := (blocks m1)[b := (blocks m1 ! b)[k := None]], destroyed := destroyed m1 @ [xs ! k]\<rparr>"
  have "destroy_at b k m1 = Some ?m2" using m1 k by (auto simp: destroy_at_def read_slot_def holds_def)
  moreover have "holds ?m2 b 0 (take p xs)" "holds ?m2 b (Suc k) xs" using m1 k step.hyps by (auto simp: holds_def nth_list_update)
  moreover have "drop k xs = xs ! k # drop (Suc k) xs" using k by (rule Cons_nth_drop_Suc [symmetric])
  then have "balanced False (take p xs @ drop (Suc k) xs) ?m2" using m1(4) by (simp add: balanced_def)
  moreover have "length (blocks ?m2 ! b) = length (blocks m ! b)" using m1 by (simp add: holds_def)
  ultimately show ?case using m1(1,6) assms(1) step.hyps by (simp add: for_range_append)
qed

lemma holds_prefix: "holds m b i xs \<Longrightarrow> holds m b i (take n xs)"
  by (auto simp: holds_def)

lemma mra_chop_ok:
  assumes ok: "mra_ok triv esize xs a m" and pos: "unat pos < length xs"
  shows "\<exists>a' m'. mra_chop debug triv pos a m = Some (a', m') \<and> mra_ok triv esize (take (unat pos) xs) a' m' \<and> answers m' = answers m"
proof -
  have lt: "pos < m_size a" using ok pos by (simp add: mra_ok_def word_less_nat_alt)
  then have "m_capacity a \<noteq> 0" using ok pos by (auto simp: mra_ok_def)
  then obtain b where b: "m_array a = Some b" "unat (m_capacity a) \<le> length (blocks m ! b)" "holds m b 0 xs" "unat (m_size a) = length xs"
    using ok by (auto simp: mra_ok_iff)
  show ?thesis
  proof (cases triv)
    case True
    then show ?thesis using ok lt pos b holds_prefix [OF b(3)] by (auto simp: mra_chop_def mra_ok_iff balanced_def)
  next
    case False
    then obtain m' where "for_range (\<lambda>ix m. do { b \<leftarrow> m_array a; destroy_at b ix m }) [unat pos ..< length xs] m = Some m'" "holds m' b 0 (take (unat pos) xs)"
        "balanced False (take (unat pos) xs) m'" "length (blocks m' ! b) = length (blocks m ! b)" "answers m' = answers m"
      using destroy_range_ok [OF b(1,3), of "unat pos" "length xs"] ok pos by (auto simp: mra_ok_iff)
    then show ?thesis using ok lt pos b False by (auto simp: mra_chop_def mra_ok_iff)
  qed
qed

lemma mra_pop_back_ok:
  assumes ok: "mra_ok triv esize xs a m" and ne: "xs \<noteq> []"
  shows "\<exists>a' m'. mra_pop_back debug triv a m = Some (a', m') \<and> mra_ok triv esize (butlast xs) a' m' \<and> answers m' = answers m"
proof -
  have sz: "unat (m_size a) = length xs" using ok by (simp add: mra_ok_def)
  then have "m_size a \<noteq> 0" using ne by auto
  then have pred: "unat (m_size a - 1) = length xs - 1" using sz by (simp add: unat_minus_one)
  have "m_capacity a \<noteq> 0" using ok ne by (auto simp: mra_ok_def)
  then obtain b where b: "m_array a = Some b" "unat (m_capacity a) \<le> length (blocks m ! b)" "holds m b 0 xs"
    using ok by (auto simp: mra_ok_iff)
  have lt: "m_size a - 1 < m_size a" using pred sz ne by (simp add: word_less_nat_alt)
  have bl: "butlast xs = take (length xs - 1) xs" by (simp add: butlast_conv_take)
  let ?m = "if triv then m else m\<lparr>blocks := (blocks m)[b := (blocks m ! b)[length xs - 1 := None]], destroyed := destroyed m @ [last xs]\<rparr>"
  have "mset xs = add_mset (last xs) (mset (butlast xs))" using ne by (metis append_butlast_last_id mset.simps(2) mset_append add_mset_add_single mset_single_iff_right)
  then have "balanced triv (butlast xs) ?m" using ok by (auto simp: mra_ok_iff balanced_def)
  moreover have "holds ?m b 0 (butlast xs)" using b(3) by (auto simp: holds_def nth_list_update nth_butlast)
  moreover have "length (blocks ?m ! b) = length (blocks m ! b)" using b(3) by (auto simp: holds_def)
  ultimately have r: "mra_ok triv esize (butlast xs) (a\<lparr>m_size := m_size a - 1\<rparr>) ?m" using ok b pred by (auto simp: mra_ok_iff)
  have "blocks m ! b ! (length xs - 1) = Some (last xs)" using b(3) ne by (simp add: holds_def last_conv_nth)
  moreover have "length xs - 1 < length (blocks m ! b)" using b(3) ne by (cases xs) (auto simp: holds_def)
  ultimately have "mra_pop_back debug triv a m = Some (a\<lparr>m_size := m_size a - 1\<rparr>, ?m)"
    using b ne pred lt \<open>m_size a \<noteq> 0\<close> by (auto simp: mra_pop_back_def mra_back_def mra_at_def mra_empty_def mra_size_def destroy_at_def read_slot_def holds_def)
  then show ?thesis using r by auto
qed


section \<open>Resizing\<close>

lemma push_until_ok:
  "mra_ok triv esize xs a m \<Longrightarrow> length xs \<le> unat n \<Longrightarrow> n \<le> m_capacity a \<Longrightarrow>
    \<exists>a' m'. push_until grants triv esize n (Temporary v) a m = Some (a', m') \<and>
      mra_ok triv esize (xs @ replicate (unat n - length xs) v) a' m' \<and> answers m' = answers m"
proof (induction "unat n - length xs" arbitrary: xs a m)
  case 0
  then have "n = m_size a" by (simp add: mra_ok_def word_unat_eq_iff)
  then show ?case using 0 by (subst push_until.simps) (simp add: mra_ok_def)
next
  case (Suc d)
  have sz: "unat (m_size a) = length xs" using Suc.prems by (simp add: mra_ok_def)
  then have lt: "m_size a < m_capacity a" "n \<noteq> m_size a" using Suc.hyps(2) Suc.prems(3) by (auto simp: word_less_nat_alt word_le_nat_alt)
  obtain a1 m1 where r: "mra_push_back grants triv esize (Temporary v) a m = Some (False, a1, m1)" "mra_ok triv esize (xs @ [v]) a1 m1"
      "m_capacity a1 = m_capacity a" "answers m1 = answers m"
    using push_room [OF Suc.prems(1) lt(1), of "Temporary v" v grants] by auto
  have h: "d = unat n - length (xs @ [v])" "length (xs @ [v]) \<le> unat n" using Suc.hyps(2) by simp_all
  obtain a' m' where "push_until grants triv esize n (Temporary v) a1 m1 = Some (a', m')"
      "mra_ok triv esize ((xs @ [v]) @ replicate (unat n - length (xs @ [v])) v) a' m'" "answers m' = answers m1"
    using Suc.hyps(1) [OF h(1) r(2) h(2)] r(3) Suc.prems(3) by auto
  moreover have "replicate (unat n - length xs) v = v # replicate (unat n - length (xs @ [v])) v" using Suc.hyps(2)
    by (simp flip: replicate_Suc add: Suc_diff_Suc)
  ultimately show ?case using r lt by (subst push_until.simps) simp
qed

lemma pop_until_ok:
  "mra_ok triv esize xs a m \<Longrightarrow> unat n \<le> length xs \<Longrightarrow>
    \<exists>a' m'. pop_until debug triv n a m = Some (a', m') \<and> mra_ok triv esize (take (unat n) xs) a' m' \<and> answers m' = answers m"
proof (induction "length xs - unat n" arbitrary: xs a m)
  case 0
  then have "n = m_size a" by (simp add: mra_ok_def word_unat_eq_iff)
  then show ?case using 0 by (subst pop_until.simps) (simp add: mra_ok_def)
next
  case (Suc d)
  have "unat (m_size a) = length xs" using Suc.prems by (simp add: mra_ok_def)
  then have ne: "n \<noteq> m_size a" "xs \<noteq> []" using Suc.hyps(2) by auto
  obtain a1 m1 where r: "mra_pop_back debug triv a m = Some (a1, m1)" "mra_ok triv esize (butlast xs) a1 m1" "answers m1 = answers m"
    using mra_pop_back_ok [OF Suc.prems(1) ne(2)] by blast
  have "take (unat n) (butlast xs) = take (unat n) xs" using Suc.hyps(2) by (simp add: take_butlast)
  moreover have h: "d = length (butlast xs) - unat n" "unat n \<le> length (butlast xs)" using Suc.hyps(2) by simp_all
  ultimately obtain a' m' where "pop_until debug triv n a1 m1 = Some (a', m')" "mra_ok triv esize (take (unat n) xs) a' m'" "answers m' = answers m1"
    using Suc.hyps(1) [OF h(1) r(2) h(2)] by auto
  then show ?case using r ne by (subst pop_until.simps) simp
qed

definition resized :: "bool \<Rightarrow> nat \<Rightarrow> 'a \<Rightarrow> 'a list \<Rightarrow> 'a list" where
  "resized failed n v xs = (if failed then xs else take n xs @ replicate (n - length xs) v)"

lemma mra_resize_ok:
  assumes g: "grants_ok grants esize" and ok: "mra_ok triv esize xs a m" and n: "unat n * unat esize < 2 ^ 64"
  shows "\<exists>failed a' m'. mra_resize grants debug triv esize n (Temporary v) a m = Some (a', m') \<and>
    mra_ok triv esize (resized failed (unat n) v xs) a' m' \<and> (failed \<longrightarrow> length xs < unat n) \<and> refused m' = refused m + of_bool failed"
proof -
  have sz: "unat (m_size a) = length xs" using ok by (simp add: mra_ok_def)
  consider "n = m_size a" | "m_size a < n" | "n < m_size a" by (metis linorder_less_linear)
  then show ?thesis
  proof cases
    case 1
    then show ?thesis using ok sz by (intro exI [of _ False] exI [of _ a] exI [of _ m]) (simp add: mra_resize_def resized_def)
  next
    case 2
    obtain failed a1 m1 where r: "mra_reserve grants triv esize n a m = Some (failed, a1, m1)" "mra_ok triv esize xs a1 m1"
        "\<not> failed \<longrightarrow> n \<le> m_capacity a1" "refused m1 = refused m + of_bool failed"
      using mra_reserve_ok [OF g ok n] by blast
    have lt: "length xs < unat n" using 2 sz by (simp add: word_less_nat_alt)
    show ?thesis
    proof (cases failed)
      case True
      then show ?thesis using 2 r lt by (intro exI [of _ True] exI [of _ a1] exI [of _ m1]) (auto simp: mra_resize_def resized_def)
    next
      case False
      then obtain a' m' where "push_until grants triv esize n (Temporary v) a1 m1 = Some (a', m')"
          "mra_ok triv esize (xs @ replicate (unat n - length xs) v) a' m'" "answers m' = answers m1"
        using push_until_ok [OF r(2), of n] r(3) lt by (metis less_imp_le)
      then show ?thesis using 2 r False lt
        by (intro exI [of _ False] exI [of _ a'] exI [of _ m']) (auto simp: mra_resize_def resized_def)
    qed
  next
    case 3
    have lt: "unat n < length xs" using 3 sz by (simp add: word_less_nat_alt)
    show ?thesis
    proof (cases triv)
      case True
      have cap: "m_capacity a \<noteq> 0" using ok lt by (auto simp: mra_ok_def)
      then have "mra_ok triv esize (take (unat n) xs) (a\<lparr>m_size := n\<rparr>) m"
        using ok lt True holds_prefix by (fastforce simp: mra_ok_iff balanced_def)
      then show ?thesis using 3 True lt
        by (intro exI [of _ False] exI [of _ "a\<lparr>m_size := n\<rparr>"] exI [of _ m]) (auto simp: mra_resize_def resized_def)
    next
      case False
      obtain a' m' where "pop_until debug triv n a m = Some (a', m')" "mra_ok triv esize (take (unat n) xs) a' m'" "answers m' = answers m"
        using pop_until_ok [OF ok] lt by (metis less_imp_le)
      then show ?thesis using 3 False lt
        by (intro exI [of _ False] exI [of _ "a'\<lparr>m_size := n\<rparr>"] exI [of _ m']) (auto simp: mra_resize_def resized_def mra_ok_def)
    qed
  qed
qed


section \<open>Sequences of operations\<close>

text \<open>A client that asks for the size before it removes or reads elements.\<close>

datatype 'a mra_op = Reserve "64 word" | Push 'a | Pop | Chop "64 word" | Clear | Resize "64 word" 'a | Get "64 word"

fun mra_exec ::
  "(nat \<Rightarrow> 64 word \<Rightarrow> bool) \<Rightarrow> bool \<Rightarrow> bool \<Rightarrow> 64 word \<Rightarrow> 'a mra_op \<Rightarrow> mem_root_array \<Rightarrow> 'a mra_mem \<Rightarrow>
    ((bool \<times> 'a option) \<times> mem_root_array \<times> 'a mra_mem) option" where
  "mra_exec grants debug triv esize (Reserve n) a m = do { (failed, a, m) \<leftarrow> mra_reserve grants triv esize n a m; Some ((failed, None), a, m) }"
| "mra_exec grants debug triv esize (Push v) a m =
     do { (failed, a, m) \<leftarrow> mra_push_back grants triv esize (Temporary v) a m; Some ((failed, None), a, m) }"
| "mra_exec grants debug triv esize Pop a m =
     (if mra_empty a then Some ((False, None), a, m) else map_option (Pair (False, None)) (mra_pop_back debug triv a m))"
| "mra_exec grants debug triv esize (Chop pos) a m =
     (if pos < mra_size a then map_option (Pair (False, None)) (mra_chop debug triv pos a m) else Some ((False, None), a, m))"
| "mra_exec grants debug triv esize Clear a m = map_option (Pair (False, None)) (mra_clear debug triv a m)"
| "mra_exec grants debug triv esize (Resize n v) a m =
     map_option (Pair (False, None)) (mra_resize grants debug triv esize n (Temporary v) a m)"
| "mra_exec grants debug triv esize (Get n) a m =
     (if n < mra_size a then do { (b, i) \<leftarrow> mra_at debug n a; v \<leftarrow> read_slot b i m; Some ((False, Some v), a, m) }
      else Some ((False, None), a, m))"

fun mra_run where
  "mra_run grants debug triv esize [] a m = Some ([], a, m)"
| "mra_run grants debug triv esize (x # xs) a m = do {
     (r, a, m) \<leftarrow> mra_exec grants debug triv esize x a m;
     (rs, a, m) \<leftarrow> mra_run grants debug triv esize xs a m;
     Some (r # rs, a, m) }"

text \<open>The same on a list, given whether the operation got the memory it needs.\<close>

fun seq_exec :: "'a mra_op \<Rightarrow> bool \<Rightarrow> 'a list \<Rightarrow> (bool \<times> 'a option) \<times> 'a list" where
  "seq_exec (Reserve n) failed xs = ((failed, None), xs)"
| "seq_exec (Push v) failed xs = ((failed, None), if failed then xs else xs @ [v])"
| "seq_exec Pop failed xs = ((False, None), butlast xs)"
| "seq_exec (Chop pos) failed xs = ((False, None), take (unat pos) xs)"
| "seq_exec Clear failed xs = ((False, None), [])"
| "seq_exec (Resize n v) failed xs = ((False, None), resized failed (unat n) v xs)"
| "seq_exec (Get n) failed xs = ((False, if unat n < length xs then Some (xs ! unat n) else None), xs)"

fun seq_run :: "('a mra_op \<times> bool) list \<Rightarrow> 'a list \<Rightarrow> (bool \<times> 'a option) list \<times> 'a list" where
  "seq_run [] xs = ([], xs)"
| "seq_run ((x, failed) # ys) xs = (case seq_exec x failed xs of (r, xs) \<Rightarrow> case seq_run ys xs of (rs, xs) \<Rightarrow> (r # rs, xs))"

text \<open>The bytes asked for fit into a word.\<close>

fun fits :: "64 word \<Rightarrow> 'a mra_op \<Rightarrow> bool" where
  "fits esize (Reserve n) \<longleftrightarrow> unat n * unat esize < 2 ^ 64"
| "fits esize (Resize n v) \<longleftrightarrow> unat n * unat esize < 2 ^ 64"
| "fits esize x \<longleftrightarrow> True"

lemma mra_clear_ok:
  assumes "mra_ok triv esize xs a m"
  shows "\<exists>a' m'. mra_clear debug triv a m = Some (a', m') \<and> mra_ok triv esize [] a' m' \<and> answers m' = answers m"
proof (cases "xs = []")
  case True
  then have "mra_empty a" using assms by (simp add: mra_ok_def mra_empty_def mra_size_def unat_eq_zero)
  then show ?thesis using True assms by (simp add: mra_clear_def)
next
  case False
  then have "\<not> mra_empty a" using assms by (auto simp: mra_ok_def mra_empty_def mra_size_def)
  then show ?thesis using mra_chop_ok [OF assms, of 0 debug] False by (simp add: mra_clear_def)
qed

lemma mra_exec_ok:
  assumes g: "grants_ok grants esize" and ok: "mra_ok triv esize xs a m" and f: "fits esize x"
  shows "\<exists>failed a' m'. mra_exec grants debug triv esize x a m = Some (fst (seq_exec x failed xs), a', m') \<and>
    mra_ok triv esize (snd (seq_exec x failed xs)) a' m' \<and> refused m' = refused m + of_bool failed"
proof -
  have sz: "unat (m_size a) = length xs" using ok by (simp add: mra_ok_def)
  then have e: "m_size a = 0 \<longleftrightarrow> xs = []" and lt: "pos < m_size a \<longleftrightarrow> unat pos < length xs" for pos
    by (metis length_0_conv unat_eq_zero, simp add: word_less_nat_alt)
  show ?thesis
  proof (cases x)
    case (Reserve n)
    then show ?thesis using mra_reserve_ok [OF g ok, of n] f by auto
  next
    case (Push v)
    obtain failed a' m' where "mra_push_back grants triv esize (Temporary v) a m = Some (failed, a', m')"
        "mra_ok triv esize (if failed then xs else xs @ [v]) a' m'" "refused m' = refused m + of_bool failed"
      using mra_push_back_ok [OF g ok] by blast
    then show ?thesis using Push by (intro exI [of _ failed]) auto
  next
    case Pop
    then show ?thesis using mra_pop_back_ok [OF ok, of debug] ok e
      by (intro exI [of _ False]) (cases "xs = []"; auto simp: mra_empty_def mra_size_def)
  next
    case (Chop pos)
    then show ?thesis using mra_chop_ok [OF ok, of pos debug] ok lt [of pos]
      by (intro exI [of _ False]) (cases "unat pos < length xs"; auto simp: mra_size_def)
  next
    case Clear
    then show ?thesis using mra_clear_ok [OF ok, of debug] by (intro exI [of _ False]) auto
  next
    case (Resize n v)
    obtain failed a' m' where "mra_resize grants debug triv esize n (Temporary v) a m = Some (a', m')"
        "mra_ok triv esize (resized failed (unat n) v xs) a' m'" "refused m' = refused m + of_bool failed"
      using mra_resize_ok [OF g ok, of n debug v] f Resize by auto
    then show ?thesis using Resize by (intro exI [of _ failed]) simp
  next
    case (Get n)
    show ?thesis
    proof (cases "unat n < length xs")
      case True
      then have "m_capacity a \<noteq> 0" using ok by (auto simp: mra_ok_def)
      then obtain b where "m_array a = Some b" "holds m b 0 xs" using ok by (auto simp: mra_ok_iff)
      then show ?thesis using True Get ok lt [of n]
        by (intro exI [of _ False]) (auto simp: mra_size_def mra_at_def read_slot_def holds_def)
    next
      case False
      then show ?thesis using Get ok lt [of n] by (intro exI [of _ False]) (auto simp: mra_size_def)
    qed
  qed
qed

lemma mra_run_ok:
  "grants_ok grants esize \<Longrightarrow> mra_ok triv esize xs a m \<Longrightarrow> \<forall>x\<in>set ops. fits esize x \<Longrightarrow>
    \<exists>fails a' m'. length fails = length ops \<and>
      mra_run grants debug triv esize ops a m = Some (fst (seq_run (zip ops fails) xs), a', m') \<and>
      mra_ok triv esize (snd (seq_run (zip ops fails) xs)) a' m' \<and> refused m' = refused m + count_list fails True"
proof (induction ops arbitrary: xs a m)
  case (Cons x ops)
  obtain failed a1 m1 where r: "mra_exec grants debug triv esize x a m = Some (fst (seq_exec x failed xs), a1, m1)"
      "mra_ok triv esize (snd (seq_exec x failed xs)) a1 m1" "refused m1 = refused m + of_bool failed"
    using mra_exec_ok [OF Cons.prems(1,2), of x debug] Cons.prems(3) by auto
  obtain fails a' m' where s: "length fails = length ops" "mra_run grants debug triv esize ops a1 m1 = Some (fst (seq_run (zip ops fails) (snd (seq_exec x failed xs))), a', m')"
      "mra_ok triv esize (snd (seq_run (zip ops fails) (snd (seq_exec x failed xs)))) a' m'" "refused m' = refused m1 + count_list fails True"
    using Cons.IH [OF Cons.prems(1) r(2)] Cons.prems(3) by auto
  then show ?case using r by (intro exI [of _ "failed # fails"] exI [of _ a'] exI [of _ m']) (auto split: prod.splits)
qed (auto intro!: exI [of _ "[]"])



section \<open>Where it fails\<close>

lemma full_reserve:
  assumes ok: "mra_ok False esize xs a m" and full: "m_size a = m_capacity a" "m_capacity a \<noteq> 0" and b: "m_array a = Some b"
    and g: "grants_ok grants esize" "grants (length (answers m)) (m_capacity a * 2 * esize)"
  shows "\<exists>a' m'. mra_reserve grants False esize (m_capacity a * 2) a m = Some (False, a', m') \<and> m_size a' = m_size a \<and> m_capacity a' = m_capacity a * 2 \<and>
    m_size a' \<noteq> m_capacity a' \<and> m_array a' \<noteq> None \<and> (\<forall>j < length xs. read_slot b j m' = None)"
proof -
  have c: "unat (m_capacity a) * unat esize < 2 ^ 63" "unat (m_size a) = length xs" "0 < unat esize" "holds m b 0 xs"
    using ok g(1) full(2) b by (auto simp: mra_ok_iff grants_ok_def)
  have "unat (m_capacity a) * 1 \<le> unat (m_capacity a) * unat esize" using c(3) by (intro mult_le_mono2) simp
  then have "unat (m_capacity a) * 1 < 2 ^ 63" using c(1) by (rule order_le_less_trans)
  then have d: "unat (m_capacity a * 2) = unat (m_capacity a) * 2" by (simp add: unat_word_ariths)
  have z: "0 < unat (m_capacity a)" using full(2) by (simp add: unat_gt_0)
  have "\<not> unat (m_capacity a * 2) \<le> unat (m_capacity a)" "unat (m_capacity a) \<noteq> unat (m_capacity a * 2)" using d z by simp_all
  then have gt: "\<not> m_capacity a * 2 \<le> m_capacity a" "m_size a \<noteq> m_capacity a * 2" using full(1) by (simp add: word_le_nat_alt, metis)
  have n: "unat (m_capacity a * 2 * esize) = unat (m_capacity a) * 2 * unat esize"
  proof -
    have "unat (m_capacity a * 2) * unat esize < 2 ^ 64" using c(1) d by (simp add: mult.commute)
    then show ?thesis using unat_mult_lem [of "m_capacity a * 2" esize] d by simp
  qed
  let ?m = "m\<lparr>blocks := blocks m @ [replicate (unat (m_capacity a) * 2) None], answers := answers m @ [True]\<rparr>" and ?b = "length (blocks m)"
  have al: "alloc_root grants esize (m_capacity a * 2 * esize) m = (Some ?b, ?m)" using g(2) c(3) by (simp add: alloc_root_def n)
  have o: "b \<noteq> ?b" "holds ?m b 0 xs" using c(4) by (auto simp: holds_def nth_append)
  have "\<exists>m'. for_range (move_element False ?b a) [0 ..< length xs] ?m = Some m' \<and> holds m' b (length xs) xs \<and> holds m' ?b 0 (take (length xs) xs) \<and>
      length (blocks m' ! ?b) = length (blocks ?m ! ?b) \<and> length (blocks m') = length (blocks ?m) \<and> balanced False xs m' \<and> answers m' = answers ?m \<and>
      (\<not> False \<longrightarrow> (\<forall>j < length xs. read_slot b j m' = None))"
    by (rule move_loop [OF b o]) (use ok full c in \<open>auto simp: mra_ok_iff balanced_def\<close>)
  then show ?thesis using gt al c(2) full by (auto simp: mra_reserve_def)
qed

text \<open>C40. \<open>push_back\<close> of an element of the array itself, when the array is full and has destructors, moves the
  elements first and then copies from the destroyed original; a copy of the element is pushed without
  trouble.\<close>

theorem push_own_element_destroyed:
  assumes "mra_ok False esize xs a m" "m_size a = m_capacity a" "i < length xs" "m_array a = Some b"
    and "grants_ok grants esize" "grants (length (answers m)) (m_capacity a * 2 * esize)"
  shows "read_slot b i m = Some (xs ! i) \<and> mra_push_back grants False esize (Slot b i) a m = None \<and>
    (\<exists>failed a' m'. mra_push_back grants False esize (Temporary (xs ! i)) a m = Some (failed, a', m'))"
proof -
  have c: "m_capacity a \<noteq> 0" using assms(1-3) by (auto simp: mra_ok_def)
  then have "holds m b 0 xs" using assms(1,4) by (auto simp: mra_ok_iff)
  then have "read_slot b i m = Some (xs ! i)" using assms(3) by (simp add: read_slot_def holds_def)
  moreover obtain a' m' where "mra_reserve grants False esize (m_capacity a * 2) a m = Some (False, a', m')" "read_slot b i m' = None" "m_array a' \<noteq> None"
    using full_reserve [OF assms(1,2) c assms(4-6)] assms(3) by blast
  then have "mra_push_back grants False esize (Slot b i) a m = None" using c assms(2) by (simp add: mra_push_back_def Let_def)
  moreover have "\<exists>failed a' m'. mra_push_back grants False esize (Temporary (xs ! i)) a m = Some (failed, a', m')"
    using mra_push_back_ok [OF assms(5,1)] by blast
  ultimately show ?thesis by blast
qed

lemma push_own_element_destroyed_witness:
  "mra_push_back (\<lambda>k bytes. bytes < 1024) False 8 (Slot 0 0) \<lparr>m_array = Some 0, m_size = 1, m_capacity = 1\<rparr>
     \<lparr>blocks = [[Some (5::nat)]], answers = [True], constructed = [5], destroyed = []\<rparr> = None"
proof -
  have "mra_ok False 8 [5::nat] \<lparr>m_array = Some 0, m_size = 1, m_capacity = 1\<rparr> \<lparr>blocks = [[Some 5]], answers = [True], constructed = [5], destroyed = []\<rparr>"
    by (simp add: mra_ok_def)
  moreover have "grants_ok (\<lambda>k bytes. bytes < 1024) 8" by (auto simp: grants_ok_def word_less_nat_alt)
  ultimately show ?thesis using push_own_element_destroyed [of 8 "[5::nat]" "\<lparr>m_array = Some 0, m_size = 1, m_capacity = 1\<rparr>" _ 0 0 "\<lambda>k bytes. bytes < 1024"]
    by simp
qed

text \<open>When the bytes of the elements asked for do not fit into a word, \<open>reserve\<close> reports success with a block that
  has fewer slots than the capacity it then gives.\<close>

theorem reserve_wraps:
  assumes "2 ^ 64 \<le> unat n * unat esize" "m_capacity a < n" "m_size a = 0" "grants (length (answers m)) (n * esize)"
  shows "\<exists>a' m' b. mra_reserve grants triv esize n a m = Some (False, a', m') \<and> mra_capacity a' = n \<and> m_array a' = Some b \<and>
    length (blocks m' ! b) < unat n"
proof -
  have "unat (n * esize) = (unat n * unat esize) mod 2 ^ 64" by (simp add: unat_word_ariths)
  then have "unat (n * esize) < unat n * unat esize" using assms(1) by (metis mod_less_divisor order_less_le_trans zero_less_numeral zero_less_power)
  then have "unat (n * esize) div unat esize < unat n" by (metis less_mult_imp_div_less)
  moreover have "\<not> n \<le> m_capacity a" using assms(2) by simp
  ultimately show ?thesis using assms(3,4) by (simp add: mra_reserve_def alloc_root_def mra_capacity_def)
qed

lemma reserve_wraps_witness:
  "\<exists>a' m' b. mra_reserve (\<lambda>k bytes. True) True 16 (2 ^ 60 + 1) mra_new \<lparr>blocks = [], answers = [], constructed = [], destroyed = [] :: nat list\<rparr> = Some (False, a', m') \<and>
     mra_capacity a' = 2 ^ 60 + 1 \<and> m_array a' = Some b \<and> length (blocks m' ! b) < 2 ^ 60 + 1"
  using reserve_wraps [of "2 ^ 60 + 1" 16 mra_new "\<lambda>k bytes. True" "\<lparr>blocks = [], answers = [], constructed = [], destroyed = []\<rparr>" True]
  by (simp add: mra_new_def word_less_nat_alt)

end
