(* ===== verification/Span.thy ===== *)
theory Span
  imports Prelude "HOL-Library.Word"
begin

text \<open>
  Views of arrays: \<open>st_::span\<close> of \<open>private/span.h\<close> and \<open>Bounds_checked_array\<close> of \<open>private/sql_array.h\<close>. A pointer is
  the index of an element in the memory \<open>mem\<close>, or a null pointer; \<open>debug\<close> says whether assertions are
  checked, and a failed one is None, as is the use of a null pointer. (\<open>span\<close> uses \<open>assert\<close>, \<open>Bounds_checked_array\<close>
  \<open>DBUG_ASSERT\<close>.)
\<close>

section \<open>span\<close>

record span =
  sp_data :: "nat option"
  sp_size :: "64 word"

definition span_new :: span where "span_new = \<lparr>sp_data = None, sp_size = 0\<rparr>"

definition span_of :: "nat option \<Rightarrow> 64 word \<Rightarrow> span" where
  "span_of ptr count = \<lparr>sp_data = ptr, sp_size = count\<rparr>"

definition span_between :: "nat \<Rightarrow> nat \<Rightarrow> span" where
  "span_between first_ptr last_ptr = \<lparr>sp_data = Some first_ptr, sp_size = of_int (int last_ptr - int first_ptr)\<rparr>"

definition span_assign :: "span \<Rightarrow> span \<Rightarrow> span" where
  "span_assign other s = s\<lparr>sp_data := sp_data other, sp_size := sp_size other\<rparr>"

definition span_size :: "span \<Rightarrow> 64 word" where "span_size s = sp_size s"

definition span_size_bytes :: "64 word \<Rightarrow> span \<Rightarrow> 64 word" where "span_size_bytes element s = span_size s * element"

definition span_empty :: "span \<Rightarrow> bool" where "span_empty s \<longleftrightarrow> span_size s = 0"

definition plus_ptr :: "nat option \<Rightarrow> nat \<Rightarrow> nat option" where
  "plus_ptr p n = map_option (\<lambda>a. a + n) p"

definition span_first :: "bool \<Rightarrow> 64 word \<Rightarrow> span \<Rightarrow> span option" where
  "span_first debug count s = (if debug \<and> span_empty s then None else Some (span_of (sp_data s) 1))"

definition span_last :: "bool \<Rightarrow> 64 word \<Rightarrow> span \<Rightarrow> span option" where
  "span_last debug count s =
     (if debug \<and> span_empty s then None else Some (span_of (plus_ptr (sp_data s) (unat (span_size s - 1))) 1))"

definition span_subspan :: "bool \<Rightarrow> 64 word \<Rightarrow> 64 word \<Rightarrow> span \<Rightarrow> span option" where
  "span_subspan debug offset count s =
     (if debug \<and> span_empty s then None
      else if debug \<and> \<not> span_size s \<ge> offset + count then None
      else Some (span_of (plus_ptr (sp_data s) (unat offset)) count))"

definition span_at :: "bool \<Rightarrow> 64 word \<Rightarrow> (nat \<Rightarrow> 'a) \<Rightarrow> span \<Rightarrow> 'a option" where
  "span_at debug idx mem s = (if debug \<and> \<not> span_size s > idx then None else map_option mem (plus_ptr (sp_data s) (unat idx)))"

definition span_front :: "bool \<Rightarrow> (nat \<Rightarrow> 'a) \<Rightarrow> span \<Rightarrow> 'a option" where
  "span_front debug mem s = (if debug \<and> span_empty s then None else map_option mem (sp_data s))"

definition span_back :: "bool \<Rightarrow> (nat \<Rightarrow> 'a) \<Rightarrow> span \<Rightarrow> 'a option" where
  "span_back debug mem s = (if debug \<and> span_empty s then None else map_option mem (plus_ptr (sp_data s) (unat (span_size s - 1))))"

definition span_begin :: "span \<Rightarrow> nat option" where "span_begin s = sp_data s"

definition span_end :: "span \<Rightarrow> nat option" where "span_end s = plus_ptr (sp_data s) (unat (sp_size s))"

section \<open>Bounds\_checked\_array\<close>

record bounds_checked_array =
  m_array :: "nat option"
  m_size :: "64 word"

definition bca_new :: bounds_checked_array where "bca_new = \<lparr>m_array = None, m_size = 0\<rparr>"

definition bca_of :: "nat option \<Rightarrow> 64 word \<Rightarrow> bounds_checked_array" where
  "bca_of el size_arg = \<lparr>m_array = el, m_size = size_arg\<rparr>"

definition bca_reset :: "bounds_checked_array \<Rightarrow> bounds_checked_array" where
  "bca_reset b = b\<lparr>m_array := None, m_size := 0\<rparr>"

definition bca_reset_to :: "nat option \<Rightarrow> 64 word \<Rightarrow> bounds_checked_array \<Rightarrow> bounds_checked_array" where
  "bca_reset_to array_arg size_arg b = b\<lparr>m_array := array_arg, m_size := size_arg\<rparr>"

definition bca_resize :: "bool \<Rightarrow> 64 word \<Rightarrow> bounds_checked_array \<Rightarrow> bounds_checked_array option" where
  "bca_resize debug new_size b = (if debug \<and> \<not> new_size \<le> m_size b then None else Some (b\<lparr>m_size := new_size\<rparr>))"

definition bca_at :: "bool \<Rightarrow> 64 word \<Rightarrow> (nat \<Rightarrow> 'a) \<Rightarrow> bounds_checked_array \<Rightarrow> 'a option" where
  "bca_at debug n mem b = (if debug \<and> \<not> n < m_size b then None else map_option mem (plus_ptr (m_array b) (unat n)))"

definition bca_size :: "bounds_checked_array \<Rightarrow> 64 word" where "bca_size b = m_size b"

definition bca_is_null :: "bounds_checked_array \<Rightarrow> bool" where "bca_is_null b \<longleftrightarrow> m_array b = None"

definition bca_pop_front :: "bool \<Rightarrow> bounds_checked_array \<Rightarrow> bounds_checked_array option" where
  "bca_pop_front debug b =
     (if debug \<and> \<not> m_size b > 0 then None else Some (b\<lparr>m_array := plus_ptr (m_array b) 1, m_size := m_size b - 1\<rparr>))"

definition bca_begin :: "bounds_checked_array \<Rightarrow> nat option" where "bca_begin b = m_array b"

definition bca_end :: "bounds_checked_array \<Rightarrow> nat option" where "bca_end b = plus_ptr (m_array b) (unat (m_size b))"

definition bca_eq :: "bounds_checked_array \<Rightarrow> bounds_checked_array \<Rightarrow> bool" where
  "bca_eq b rhs \<longleftrightarrow> m_array b = m_array rhs \<and> m_size b = m_size rhs"

definition bca_ne :: "bounds_checked_array \<Rightarrow> bounds_checked_array \<Rightarrow> bool" where
  "bca_ne b rhs \<longleftrightarrow> m_array b \<noteq> m_array rhs \<or> m_size b \<noteq> m_size rhs"

section \<open>The elements in view\<close>

definition view :: "(nat \<Rightarrow> 'a) \<Rightarrow> nat option \<Rightarrow> 64 word \<Rightarrow> 'a list" where
  "view mem p n = (case p of None \<Rightarrow> [] | Some a \<Rightarrow> map mem [a ..< a + unat n])"

lemma view_Some [simp]: "view mem (Some a) n = map mem [a ..< a + unat n]"
  by (simp add: view_def)

lemma take_map_upt: "take m (map f [a ..< b]) = map f [a ..< min (a + m) b]"
  by (simp add: take_map min_def)

lemma slice_upt: "i + c \<le> n \<Longrightarrow> take c (drop i (map f [a ..< a + n])) = map f [a + i ..< a + i + c]"
  by (simp add: drop_map take_map)

lemma word_pred: "0 < unat (n :: 64 word) \<Longrightarrow> unat (n - 1) = unat n - 1"
  by (metis less_irrefl unat_0 unat_minus_one)

text \<open>On a span of at least one element: a subspan that lies in it shows that part of its elements, an index in it
  its element, and the ends the first and the last one; but \<open>first\<close> and \<open>last\<close> show one element whatever
  count they are given.\<close>

theorem span_views:
  assumes "sp_data s = Some a" "0 < unat (sp_size s)"
  shows "(\<forall>offset count. unat offset + unat count \<le> unat (sp_size s) \<longrightarrow>
      (\<exists>t. span_subspan debug offset count s = Some t \<and>
        view mem (sp_data t) (sp_size t) = take (unat count) (drop (unat offset) (view mem (sp_data s) (sp_size s))))) \<and>
    (\<forall>idx. idx < sp_size s \<longrightarrow> span_at debug idx mem s = Some (view mem (sp_data s) (sp_size s) ! unat idx)) \<and>
    span_front debug mem s = Some (hd (view mem (sp_data s) (sp_size s))) \<and>
    span_back debug mem s = Some (last (view mem (sp_data s) (sp_size s))) \<and>
    (\<forall>count. \<exists>t u. span_first debug count s = Some t \<and> view mem (sp_data t) (sp_size t) = [hd (view mem (sp_data s) (sp_size s))] \<and>
      span_last debug count s = Some u \<and> view mem (sp_data u) (sp_size u) = [last (view mem (sp_data s) (sp_size s))])"
proof -
  let ?n = "unat (sp_size s)"
  have n: "\<not> span_empty s" "unat (sp_size s - 1) = ?n - 1" using assms(2) by (auto simp: span_empty_def span_size_def word_pred)
  have v: "view mem (sp_data s) (sp_size s) = map mem [a ..< a + ?n]" using assms(1) by simp
  have hd: "hd (map mem [a ..< a + ?n]) = mem a" "last (map mem [a ..< a + ?n]) = mem (a + (?n - 1))"
    using assms(2) by (simp_all add: hd_map last_map)
  obtain k where "?n = Suc k" using assms(2) by (cases ?n) auto
  then have one: "[a + ?n - Suc 0 ..< a + ?n] = [a + ?n - Suc 0]" by simp
  have "\<exists>t. span_subspan debug offset count s = Some t \<and>
      view mem (sp_data t) (sp_size t) = take (unat count) (drop (unat offset) (view mem (sp_data s) (sp_size s)))"
    if "unat offset + unat count \<le> ?n" for offset count
  proof -
    have "?n < 2 ^ 64" by (rule order_less_le_trans [OF unsigned_less]) simp
    then have "unat (offset + count) = unat offset + unat count" using that by (simp add: unat_word_ariths)
    then have "offset + count \<le> sp_size s" using that by (simp add: word_le_nat_alt)
    then show ?thesis using n assms(1) v that slice_upt [of "unat offset" "unat count" ?n mem a]
      by (simp add: span_subspan_def span_size_def span_of_def plus_ptr_def)
  qed
  moreover have "span_at debug idx mem s = Some (view mem (sp_data s) (sp_size s) ! unat idx)" if "idx < sp_size s" for idx
    using that assms(1) by (simp add: span_at_def span_size_def plus_ptr_def v word_less_nat_alt)
  ultimately show ?thesis using n assms v hd one
    by (simp add: span_front_def span_back_def span_first_def span_last_def span_size_def span_of_def plus_ptr_def)
qed

lemma span_views_witness:
  "\<exists>t. span_first True 3 \<lparr>sp_data = Some 2, sp_size = 4\<rparr> = Some t \<and> view (\<lambda>i. 10 * i) (sp_data t) (sp_size t) = [20]"
  using span_views [of "\<lparr>sp_data = Some 2, sp_size = 4\<rparr>" 2 True "\<lambda>i. 10 * i"] by (auto simp: upt_rec)

text \<open>The loop \<open>for (; a.size(); a.pop_front()) use(a[0])\<close>.\<close>

partial_function (option) bca_consume :: "bool \<Rightarrow> (nat \<Rightarrow> 'a) \<Rightarrow> bounds_checked_array \<Rightarrow> 'a list option" where
  "bca_consume debug mem b =
     (if bca_size b = 0 then Some []
      else Option.bind (bca_at debug 0 mem b) (\<lambda>x. Option.bind (bca_pop_front debug b) (\<lambda>b.
        Option.bind (bca_consume debug mem b) (\<lambda>xs. Some (x # xs)))))"

text \<open>Taking the elements from the front of a \<open>Bounds_checked_array\<close> that was cut to a smaller size ends, never
  fails an assertion, and gives the elements that are left in view.\<close>

theorem bca_consume_all:
  assumes "m_array b = Some a" "n \<le> m_size b"
  shows "Option.bind (bca_resize debug n b) (bca_consume debug mem) = Some (take (unat n) (view mem (m_array b) (m_size b)))"
proof -
  have "m_array c = Some k \<Longrightarrow> bca_consume debug mem c = Some (map mem [k ..< k + unat (m_size c)])" for c k
  proof (induction "unat (m_size c)" arbitrary: c k)
    case 0
    then have "m_size c = 0" by (simp add: unat_eq_zero)
    then show ?case by (subst bca_consume.simps) (simp add: bca_size_def)
  next
    case (Suc d)
    have nz: "m_size c \<noteq> 0" "0 < m_size c" using Suc.hyps(2) by (auto simp: word_gt_0)
    have d: "unat (m_size c - 1) = d" using Suc.hyps(2) by (simp add: word_pred)
    let ?c = "c\<lparr>m_array := Some (k + 1), m_size := m_size c - 1\<rparr>"
    have "bca_consume debug mem ?c = Some (map mem [k + 1 ..< k + 1 + d])" using Suc.hyps(1) [of ?c "k + 1"] d by simp
    moreover have "[k ..< k + unat (m_size c)] = k # [k + 1 ..< k + 1 + d]" using Suc.hyps(2) by (simp add: upt_conv_Cons flip: Suc.hyps(2))
    ultimately show ?case using Suc.prems nz
      by (subst bca_consume.simps) (simp add: bca_size_def bca_at_def bca_pop_front_def plus_ptr_def)
  qed
  from this [of "b\<lparr>m_size := n\<rparr>" a] show ?thesis using assms
    by (simp add: bca_resize_def take_map word_le_nat_alt min_def)
qed

lemma bca_consume_all_witness:
  "Option.bind (bca_resize True 2 \<lparr>m_array = Some 5, m_size = 3\<rparr>) (bca_consume True (\<lambda>i. i * i)) = Some [25, 36 :: nat]"
  using bca_consume_all [of "\<lparr>m_array = Some 5, m_size = 3\<rparr>" 5 2 True "\<lambda>i. i * i"] by (simp add: upt_rec)

end
