(* ===== verification/Sql_Limit.thy ===== *)
theory Sql_Limit
  imports Prelude "HOL-Library.Word"
begin

unbundle bit_operations_syntax

text \<open>
  \<open>Select_limit_counters\<close> of \<open>private/sql_limit.h\<close>: the limit and the offset of a query. \<open>ha_rows\<close> is a 64-bit word
  (\<open>BIG_TABLES\<close> in \<open>private/my_base.h\<close>).
\<close>

definition HA_POS_ERROR :: "64 word" where "HA_POS_ERROR = NOT 0"

record select_limit_counters =
  select_limit_cnt :: "64 word"
  offset_limit_cnt :: "64 word"
  with_ties :: bool

definition Select_limit_counters_new :: select_limit_counters where
  "Select_limit_counters_new = \<lparr>select_limit_cnt = 0, offset_limit_cnt = 0, with_ties = False\<rparr>"

definition Select_limit_counters_copy :: "select_limit_counters \<Rightarrow> select_limit_counters" where
  "Select_limit_counters_copy orig =
     \<lparr>select_limit_cnt = select_limit_cnt orig, offset_limit_cnt = offset_limit_cnt orig, with_ties = with_ties orig\<rparr>"

definition set_limit :: "64 word \<Rightarrow> 64 word \<Rightarrow> bool \<Rightarrow> select_limit_counters \<Rightarrow> select_limit_counters" where
  "set_limit limit offset with_ties_arg c =
     (let offset = (if limit = 0 then 0 else offset);
          c = c\<lparr>offset_limit_cnt := offset, select_limit_cnt := limit, with_ties := with_ties_arg\<rparr>
      in if select_limit_cnt c + offset_limit_cnt c \<ge> select_limit_cnt c
         then c\<lparr>select_limit_cnt := select_limit_cnt c + offset_limit_cnt c\<rparr>
         else c\<lparr>select_limit_cnt := HA_POS_ERROR\<rparr>)"

definition set_single_row :: "select_limit_counters \<Rightarrow> select_limit_counters" where
  "set_single_row c = c\<lparr>offset_limit_cnt := 0, select_limit_cnt := 1, with_ties := False\<rparr>"

definition send_first_row :: "select_limit_counters \<Rightarrow> select_limit_counters" where
  "send_first_row c =
     (let c = c\<lparr>select_limit_cnt := offset_limit_cnt c + 1\<rparr>
      in if select_limit_cnt c = 0 then c\<lparr>select_limit_cnt := offset_limit_cnt c\<rparr> else c)"

definition is_unlimited :: "select_limit_counters \<Rightarrow> bool" where
  "is_unlimited c \<longleftrightarrow> select_limit_cnt c = HA_POS_ERROR"

definition set_unlimited :: "select_limit_counters \<Rightarrow> select_limit_counters" where
  "set_unlimited c = c\<lparr>select_limit_cnt := HA_POS_ERROR\<rparr>"

definition limit_clear :: "select_limit_counters \<Rightarrow> select_limit_counters" where
  "limit_clear c = c\<lparr>select_limit_cnt := HA_POS_ERROR, offset_limit_cnt := 0, with_ties := False\<rparr>"

definition check_offset :: "64 word \<Rightarrow> select_limit_counters \<Rightarrow> bool" where
  "check_offset sent c \<longleftrightarrow> sent < offset_limit_cnt c"

definition remove_offset :: "select_limit_counters \<Rightarrow> select_limit_counters" where
  "remove_offset c = c\<lparr>offset_limit_cnt := 0\<rparr>"

definition get_select_limit :: "select_limit_counters \<Rightarrow> 64 word" where
  "get_select_limit c = select_limit_cnt c"

definition get_offset_limit :: "select_limit_counters \<Rightarrow> 64 word" where
  "get_offset_limit c = offset_limit_cnt c"

definition is_with_ties :: "select_limit_counters \<Rightarrow> bool" where
  "is_with_ties c \<longleftrightarrow> with_ties c"

section \<open>The rows sent\<close>

text \<open>The row with this number, from 0, is sent: it is not skipped and the limit is not yet reached.\<close>

definition row_sent :: "select_limit_counters \<Rightarrow> 64 word \<Rightarrow> bool" where
  "row_sent c i \<longleftrightarrow> \<not> check_offset i c \<and> i < get_select_limit c"

lemma HA_POS_ERROR_unat: "unat HA_POS_ERROR = 2 ^ 64 - 1"
  by (simp add: HA_POS_ERROR_def unsigned_minus_1_eq_mask mask_eq_exp_minus_1)

lemma unat_bound: "unat (w :: 64 word) < 2 ^ 64"
  by (rule order_less_le_trans [OF unsigned_less]) simp

text \<open>After \<open>set_limit\<close> exactly \<open>limit\<close> rows behind the first \<open>offset\<close> ones are sent, also when the sum of the
  two does not fit into 64 bits; the other settings send the first row behind the offset, the first row of
  all, all rows behind the offset, and all rows. (The row with the greatest number, which stands for an error, is never sent.)\<close>

theorem limit_sends:
  assumes "i \<noteq> HA_POS_ERROR"
  shows "(row_sent (set_limit limit offset ties c) i \<longleftrightarrow> unat offset \<le> unat i \<and> unat i < unat offset + unat limit) \<and>
    (row_sent (send_first_row c) i \<longleftrightarrow> i = get_offset_limit c) \<and>
    (row_sent (set_single_row c) i \<longleftrightarrow> i = 0) \<and>
    (row_sent (set_unlimited c) i \<longleftrightarrow> unat (get_offset_limit c) \<le> unat i) \<and>
    row_sent (limit_clear c) i"
proof -
  have i: "unat i < 2 ^ 64 - 1"
    using assms unat_bound [of i] HA_POS_ERROR_unat by (metis Suc_diff_1 less_Suc_eq word_unat_eq_iff zero_less_numeral zero_less_power)
  have max: "i < HA_POS_ERROR" using i by (simp add: word_less_nat_alt HA_POS_ERROR_unat)
  have "row_sent (set_limit limit offset ties c) i \<longleftrightarrow> unat offset \<le> unat i \<and> unat i < unat offset + unat limit"
  proof (cases "limit = 0")
    case True
    then show ?thesis by (simp add: row_sent_def set_limit_def Let_def get_select_limit_def)
  next
    case False
    show ?thesis
    proof (cases "unat limit + unat offset < 2 ^ 64")
      case True
      then have "unat (limit + offset) = unat limit + unat offset" by (simp add: unat_word_ariths)
      then show ?thesis using False
        by (auto simp: row_sent_def set_limit_def Let_def get_select_limit_def check_offset_def word_less_nat_alt word_le_nat_alt)
    next
      case wrap: False
      then have "unat (limit + offset) = unat limit + unat offset - 2 ^ 64"
        using unat_bound [of limit] unat_bound [of offset] by (simp add: unat_word_ariths le_mod_geq)
      then have "\<not> limit \<le> limit + offset" using unat_bound [of offset] wrap by (simp add: word_le_nat_alt)
      then show ?thesis using False wrap max i
        by (auto simp: row_sent_def set_limit_def Let_def get_select_limit_def check_offset_def word_less_nat_alt)
    qed
  qed
  moreover have "row_sent (send_first_row c) i \<longleftrightarrow> i = get_offset_limit c"
  proof (cases "offset_limit_cnt c + 1 = 0")
    case True
    then have "offset_limit_cnt c = HA_POS_ERROR" by (simp add: HA_POS_ERROR_def add_eq_0_iff2)
    then show ?thesis using assms by (auto simp: row_sent_def send_first_row_def Let_def HA_POS_ERROR_def get_select_limit_def get_offset_limit_def check_offset_def)
  next
    case False
    then have "unat (offset_limit_cnt c + 1) = unat (offset_limit_cnt c) + 1" using unatSuc [of "offset_limit_cnt c"] by (simp add: add.commute)
    then show ?thesis using False
      by (auto simp: row_sent_def send_first_row_def Let_def get_select_limit_def get_offset_limit_def check_offset_def word_less_nat_alt word_unat_eq_iff)
  qed
  moreover have "row_sent (set_single_row c) i \<longleftrightarrow> i = 0"
    by (auto simp: row_sent_def set_single_row_def get_select_limit_def check_offset_def word_less_nat_alt unat_eq_zero)
  ultimately show ?thesis using max
    by (auto simp: row_sent_def set_unlimited_def limit_clear_def get_select_limit_def get_offset_limit_def check_offset_def word_less_nat_alt)
qed

lemma limit_sends_witness:
  "row_sent (set_limit 5 (2 ^ 64 - 3) False Select_limit_counters_new) (2 ^ 64 - 2) \<and>
   \<not> row_sent (set_limit 5 (2 ^ 64 - 3) False Select_limit_counters_new) (2 ^ 64 - 4)"
  using limit_sends [of "2 ^ 64 - 2" 5 "2 ^ 64 - 3" False Select_limit_counters_new]
    limit_sends [of "2 ^ 64 - 4" 5 "2 ^ 64 - 3" False Select_limit_counters_new]
  by (simp add: HA_POS_ERROR_def)

end
