(* ===== verification/Thread_Cache.thy ===== *)
theory Thread_Cache
  imports Prelude "HOL-Library.Word"
begin

text \<open>
  \<open>Thread_cache\<close> of \<open>private/thread_cache.h\<close>: threads that have served a connection park in the cache until they
  are given a new one, the cache is flushed, or a timeout. What a thread does while it holds the mutex is one
  step; in between it is at one of the points \<open>tc_pc\<close>. A signal wakes one thread that waits on the condition
  variable, if there is one, a broadcast all; a thread may also wake without a signal. \<open>ulong\<close> has 32 bits on
  Windows. The queue of connections is an \<open>I_List\<close>, used with \<open>push_back\<close> and \<open>get\<close> only: first in, first out
  (\<open>Intrusive_List\<close>). The performance schema and debug calls are left out.
\<close>

section \<open>State\<close>

text \<open>
  \<open>Parked\<close>: waits on \<open>COND_thread_cache\<close>; \<open>Awake e\<close>: woken, \<open>e\<close> after a timeout, and about to take the mutex again;
  \<open>Leaving\<close>: about to signal \<open>COND_flush_thread_cache\<close>; \<open>Signal\<close>: has enqueued a connection and is about to signal
  \<open>COND_thread_cache\<close>; \<open>Flush_begin\<close>: in \<open>final_flush\<close> before \<open>flush\<close>; \<open>Flush_wait\<close>: waits on
  \<open>COND_flush_thread_cache\<close>; \<open>Flush_awake\<close>: woken.
\<close>

datatype tc_pc = Idle | Parked | Awake bool | Leaving | Signal | Flush_begin | Flush_wait | Flush_awake

text \<open>\<open>accepted\<close>, \<open>served\<close> and \<open>finals\<close> record the connections enqueued and handed out and the calls of \<open>final_flush\<close>.\<close>

record thread_cache =
  conns :: "nat list"
  cached_thread_count :: "32 word"
  kill_cached_threads :: "32 word"
  threads :: "tc_pc list"
  accepted :: "nat list"
  served :: "nat list"
  finals :: nat

definition Thread_cache_init :: "nat \<Rightarrow> thread_cache" where
  "Thread_cache_init n = \<lparr>conns = [], cached_thread_count = 0, kill_cached_threads = 0, threads = replicate n Idle,
     accepted = [], served = [], finals = 0\<rparr>"

definition Thread_cache_destroy :: "thread_cache \<Rightarrow> bool" where
  "Thread_cache_destroy s \<longleftrightarrow> cached_thread_count s = 0 \<and> conns s = []"

definition Thread_cache_size :: "thread_cache \<Rightarrow> 32 word" where
  "Thread_cache_size s = cached_thread_count s"

definition goto :: "nat \<Rightarrow> tc_pc \<Rightarrow> thread_cache \<Rightarrow> thread_cache" where
  "goto t p s = s\<lparr>threads := (threads s)[t := p]\<rparr>"

definition wake :: "tc_pc \<Rightarrow> tc_pc" where
  "wake p = (if p = Parked then Awake False else p)"

section \<open>Critical sections\<close>

text \<open>\<open>park\<close> up to its end or to \<open>mysql_cond_timedwait\<close>.\<close>

definition park_enter :: "32 word \<Rightarrow> nat \<Rightarrow> thread_cache \<Rightarrow> thread_cache" where
  "park_enter thread_cache_size t s =
     (case conns s of
        connect # rest \<Rightarrow> s\<lparr>conns := rest, served := served s @ [connect], cached_thread_count := cached_thread_count s + 1\<rparr>
      | [] \<Rightarrow>
          if cached_thread_count s < thread_cache_size \<and> kill_cached_threads s = 0
          then goto t Parked (s\<lparr>cached_thread_count := cached_thread_count s + 1\<rparr>)
          else s)"

text \<open>\<open>park\<close> from the return of \<open>mysql_cond_timedwait\<close> on; \<open>error\<close> says that it timed out.\<close>

definition park_resume :: "bool \<Rightarrow> nat \<Rightarrow> thread_cache \<Rightarrow> thread_cache" where
  "park_resume error t s =
     (let flushed = (kill_cached_threads s \<noteq> 0);
          out = (if flushed then Leaving else Idle)
      in case conns s of
           connect # rest \<Rightarrow> goto t out (s\<lparr>conns := rest, served := served s @ [connect]\<rparr>)
         | [] \<Rightarrow>
             if flushed \<or> error then goto t out (s\<lparr>cached_thread_count := cached_thread_count s - 1\<rparr>)
             else goto t Parked s)"

definition enqueue :: "nat \<Rightarrow> nat \<Rightarrow> thread_cache \<Rightarrow> bool \<times> thread_cache" where
  "enqueue t connect s =
     (if cached_thread_count s \<noteq> 0
      then (True, goto t Signal (s\<lparr>conns := conns s @ [connect], accepted := accepted s @ [connect],
        cached_thread_count := cached_thread_count s - 1\<rparr>))
      else (False, s))"

text \<open>The loop of \<open>flush\<close> up to its end or to \<open>mysql_cond_wait\<close>.\<close>

definition flush_loop :: "nat \<Rightarrow> thread_cache \<Rightarrow> thread_cache" where
  "flush_loop t s =
     (if cached_thread_count s \<noteq> 0 then goto t Flush_wait (s\<lparr>threads := map wake (threads s)\<rparr>)
      else goto t Idle (s\<lparr>kill_cached_threads := kill_cached_threads s - 1\<rparr>))"

definition flush_enter :: "nat \<Rightarrow> thread_cache \<Rightarrow> thread_cache" where
  "flush_enter t s = flush_loop t (s\<lparr>kill_cached_threads := kill_cached_threads s + 1\<rparr>)"

definition final_flush :: "nat \<Rightarrow> thread_cache \<Rightarrow> thread_cache" where
  "final_flush t s = goto t Flush_begin (s\<lparr>kill_cached_threads := kill_cached_threads s + 1, finals := finals s + 1\<rparr>)"

section \<open>Steps\<close>

text \<open>The second argument of a signal is the thread it wakes.\<close>

datatype tc_event =
    Park nat | Timeout nat | Spurious nat | Resume nat | Signal_flush nat "nat option"
  | Enqueue nat nat | Signal_park nat "nat option"
  | Flush nat | Flush_resume nat | Spurious_flush nat | Final_flush nat | Final_flush_lock nat

definition at_pc :: "thread_cache \<Rightarrow> nat \<Rightarrow> tc_pc \<Rightarrow> bool" where
  "at_pc s t p \<longleftrightarrow> t < length (threads s) \<and> threads s ! t = p"

definition signal :: "tc_pc \<Rightarrow> tc_pc \<Rightarrow> nat option \<Rightarrow> thread_cache \<Rightarrow> thread_cache option" where
  "signal sleeping woken target s =
     (case target of
        None \<Rightarrow> if sleeping \<in> set (threads s) then None else Some s
      | Some u \<Rightarrow> if at_pc s u sleeping then Some (goto u woken s) else None)"

fun tc_exec :: "32 word \<Rightarrow> tc_event \<Rightarrow> thread_cache \<Rightarrow> thread_cache option" where
  "tc_exec sz (Park t) s = (if at_pc s t Idle then Some (park_enter sz t s) else None)"
| "tc_exec sz (Timeout t) s = (if at_pc s t Parked then Some (goto t (Awake True) s) else None)"
| "tc_exec sz (Spurious t) s = (if at_pc s t Parked then Some (goto t (Awake False) s) else None)"
| "tc_exec sz (Resume t) s =
     (if at_pc s t (Awake True) then Some (park_resume True t s)
      else if at_pc s t (Awake False) then Some (park_resume False t s) else None)"
| "tc_exec sz (Signal_flush t target) s =
     (if at_pc s t Leaving then signal Flush_wait Flush_awake target (goto t Idle s) else None)"
| "tc_exec sz (Enqueue t connect) s = (if at_pc s t Idle then Some (snd (enqueue t connect s)) else None)"
| "tc_exec sz (Signal_park t target) s =
     (if at_pc s t Signal then signal Parked (Awake False) target (goto t Idle s) else None)"
| "tc_exec sz (Flush t) s = (if at_pc s t Idle then Some (flush_enter t s) else None)"
| "tc_exec sz (Flush_resume t) s = (if at_pc s t Flush_awake then Some (flush_loop t s) else None)"
| "tc_exec sz (Spurious_flush t) s = (if at_pc s t Flush_wait then Some (goto t Flush_awake s) else None)"
| "tc_exec sz (Final_flush t) s = (if at_pc s t Idle then Some (final_flush t s) else None)"
| "tc_exec sz (Final_flush_lock t) s = (if at_pc s t Flush_begin then Some (flush_enter t s) else None)"

fun tc_run :: "32 word \<Rightarrow> tc_event list \<Rightarrow> thread_cache \<Rightarrow> thread_cache option" where
  "tc_run sz [] s = Some s"
| "tc_run sz (e # es) s = do { s \<leftarrow> tc_exec sz e s; tc_run sz es s }"

section \<open>Counting threads\<close>

definition num :: "(tc_pc \<Rightarrow> bool) \<Rightarrow> thread_cache \<Rightarrow> nat" where
  "num P s = length (filter P (threads s))"

fun waiting :: "tc_pc \<Rightarrow> bool" where
  "waiting Parked = True" | "waiting (Awake e) = True" | "waiting p = False"

fun awake :: "tc_pc \<Rightarrow> bool" where
  "awake (Awake e) = True" | "awake p = False"

fun flushing :: "tc_pc \<Rightarrow> bool" where
  "flushing Flush_wait = True" | "flushing Flush_awake = True" | "flushing p = False"

lemma filter_update:
  assumes "t < length xs"
  shows "length (filter P (xs[t := v])) + of_bool (P (xs ! t)) = length (filter P xs) + of_bool (P v)"
proof -
  have "length (filter P xs) = length (filter P (take t xs @ xs ! t # drop (Suc t) xs))" using id_take_nth_drop [OF assms] by simp
  then show ?thesis using assms by (simp add: upd_conv_take_nth_drop)
qed

lemma num_goto: "at_pc s t q \<Longrightarrow> num P (goto t p s) + of_bool (P q) = num P s + of_bool (P p)"
  using filter_update [of t "threads s" P p] by (auto simp: num_def goto_def at_pc_def)

lemma num_cong: "threads s = threads s' \<Longrightarrow> num P s = num P s'"
  by (simp add: num_def)

lemma at_pc_num: "at_pc s t p \<Longrightarrow> P p \<Longrightarrow> 0 < num P s"
  by (auto simp: at_pc_def num_def filter_empty_conv)


section \<open>No connection is lost\<close>

text \<open>
  The connections handed out and those in the queue are the accepted ones in order; every thread in the cache is
  counted or has a connection waiting for it; and for every connection in the queue some thread is awake
  or about to be woken.
\<close>

definition tc_inv :: "32 word \<Rightarrow> thread_cache \<Rightarrow> bool" where
  "tc_inv sz s \<longleftrightarrow> served s @ conns s = accepted s \<and>
     num waiting s = unat (cached_thread_count s) + length (conns s) \<and> num waiting s \<le> unat sz \<and>
     length (conns s) \<le> num awake s + num (\<lambda>p. p = Signal) s"

lemma count_up:
  assumes "unat (c :: 32 word) + n \<le> unat (sz :: 32 word)" "0 < n"
  shows "unat (c + 1) = unat c + 1"
proof -
  have "unat sz < 2 ^ 32" by (rule order_less_le_trans [OF unsigned_less]) simp
  then show ?thesis using assms by (simp add: unat_word_ariths)
qed

lemma count_down: "c \<noteq> 0 \<Longrightarrow> unat (c - 1 :: 32 word) + 1 = unat c"
  using unat_minus_one [of c] unat_gt_0 [of c] by simp

lemma num_replicate: "\<not> P Idle \<Longrightarrow> num P (Thread_cache_init n) = 0"
  by (simp add: num_def Thread_cache_init_def)

lemma tc_init_inv: "tc_inv sz (Thread_cache_init n)"
  using num_replicate [of waiting n] by (simp add: tc_inv_def) (simp add: Thread_cache_init_def)

lemma goto_simps [simp]:
  "conns (goto t p s) = conns s" "cached_thread_count (goto t p s) = cached_thread_count s" "served (goto t p s) = served s"
  "accepted (goto t p s) = accepted s" "kill_cached_threads (goto t p s) = kill_cached_threads s" "finals (goto t p s) = finals s"
  "length (threads (goto t p s)) = length (threads s)"
  by (simp_all add: goto_def)

text \<open>A step of one thread from one point to another.\<close>

lemma tc_inv_goto:
  assumes "at_pc s t q" "tc_inv sz s" "waiting q = waiting p" "awake q \<or> q = Signal \<longrightarrow> awake p \<or> p = Signal"
  shows "tc_inv sz (goto t p s)"
  using assms(2) num_goto [OF assms(1), of waiting p] num_goto [OF assms(1), of awake p] num_goto [OF assms(1), of "\<lambda>p. p = Signal" p] assms(3,4)
  by (cases p; cases q; simp add: tc_inv_def)

lemma num_waiting_awake: "Parked \<notin> set (threads s) \<Longrightarrow> num waiting s = num awake s"
proof -
  assume "Parked \<notin> set (threads s)"
  then have "filter waiting (threads s) = filter awake (threads s)"
    by (induction "threads s" arbitrary: s) (auto intro!: filter_cong elim: waiting.elims awake.elims)
  then show ?thesis by (simp add: num_def)
qed

lemma num_goto_same: "at_pc s t q \<Longrightarrow> P q = P p \<Longrightarrow> num P (goto t p s) = num P s"
  using num_goto [of s t q P p] by simp

lemma num_wake:
  assumes "\<And>b. P Parked = P (Awake b)"
  shows "num P (s\<lparr>threads := map wake (threads s)\<rparr>) = num P s"
proof -
  have "P \<circ> wake = P" using assms by (simp add: fun_eq_iff wake_def)
  then show ?thesis by (simp add: num_def filter_map)
qed


lemma field_simps [simp]:
  "num P (conns_update f s) = num P s" "num P (cached_thread_count_update g s) = num P s" "num P (kill_cached_threads_update g s) = num P s"
  "num P (accepted_update f s) = num P s" "num P (served_update f s) = num P s" "num P (finals_update k s) = num P s"
  "at_pc (conns_update f s) t p = at_pc s t p" "at_pc (cached_thread_count_update g s) t p = at_pc s t p"
  "at_pc (kill_cached_threads_update g s) t p = at_pc s t p" "at_pc (accepted_update f s) t p = at_pc s t p"
  "at_pc (served_update f s) t p = at_pc s t p" "at_pc (finals_update k s) t p = at_pc s t p"
  by (simp_all add: num_def at_pc_def)

lemma park_enter_inv:
  assumes inv: "tc_inv sz s" and t: "at_pc s t Idle"
  shows "tc_inv sz (park_enter sz t s)"
proof (cases "conns s")
  case (Cons c rest)
  then have "unat (cached_thread_count s + 1) = unat (cached_thread_count s) + 1"
    using inv count_up [of "cached_thread_count s" "length (conns s)" sz] by (simp add: tc_inv_def)
  then show ?thesis using inv Cons by (simp add: park_enter_def tc_inv_def)
next
  case Nil
  show ?thesis
  proof (cases "cached_thread_count s < sz \<and> kill_cached_threads s = 0")
    case True
    then have "unat (cached_thread_count s) + 1 \<le> unat sz" by (simp add: word_less_nat_alt)
    then have "unat (cached_thread_count s + 1) = unat (cached_thread_count s) + 1" "unat (cached_thread_count s) + 1 \<le> unat sz"
      using count_up [of _ 1 sz] by simp_all
    then show ?thesis using inv Nil True num_goto [of "cached_thread_count_update (\<lambda>_. cached_thread_count s + 1) s" t Idle waiting Parked] t
      by (simp add: park_enter_def tc_inv_def)
  next
    case False
    then show ?thesis using inv Nil by (auto simp: park_enter_def)
  qed
qed

lemma park_resume_inv:
  assumes inv: "tc_inv sz s" and t: "at_pc s t (Awake error)"
  shows "tc_inv sz (park_resume error t s)"
proof -
  let ?out = "if kill_cached_threads s \<noteq> 0 then Leaving else Idle"
  have n: "num waiting (goto t ?out s) + 1 = num waiting s" "num awake (goto t ?out s) + 1 = num awake s"
      "num (\<lambda>p. p = Signal) (goto t ?out s) = num (\<lambda>p. p = Signal) s"
    using num_goto [OF t, of waiting ?out] num_goto [OF t, of awake ?out] num_goto [OF t, of "\<lambda>p. p = Signal" ?out] by simp_all
  have g: "num P (goto t ?out (f s)) = num P (goto t ?out s)" if "threads (f s) = threads s" for P f
    using that by (simp add: num_def goto_def)
  show ?thesis
  proof (cases "conns s")
    case (Cons c rest)
    let ?s = "s\<lparr>conns := rest, served := served s @ [c]\<rparr>"
    have "num P (goto t ?out ?s) = num P (goto t ?out s)" for P by (simp add: num_def goto_def)
    then show ?thesis using inv Cons n by (simp add: park_resume_def Let_def tc_inv_def)
  next
    case Nil
    show ?thesis
    proof (cases "kill_cached_threads s \<noteq> 0 \<or> error")
      case True
      let ?s = "s\<lparr>cached_thread_count := cached_thread_count s - 1\<rparr>"
      have "num P (goto t ?out ?s) = num P (goto t ?out s)" for P by (simp add: num_def goto_def)
      moreover have "0 < num waiting s" using at_pc_num [OF t, of waiting] by simp
      then have "cached_thread_count s \<noteq> 0" using inv Nil by (auto simp: tc_inv_def)
      then have "unat (cached_thread_count s - 1) + 1 = unat (cached_thread_count s)" by (rule count_down)
      ultimately show ?thesis using inv Nil True n by (simp add: park_resume_def Let_def tc_inv_def)
    next
      case False
      then show ?thesis using inv Nil num_goto [OF t, of waiting Parked] by (simp add: park_resume_def Let_def tc_inv_def)
    qed
  qed
qed

lemma enqueue_inv:
  assumes inv: "tc_inv sz s" and t: "at_pc s t Idle"
  shows "tc_inv sz (snd (enqueue t c s))"
proof (cases "cached_thread_count s = 0")
  case False
  let ?s = "s\<lparr>conns := conns s @ [c], accepted := accepted s @ [c], cached_thread_count := cached_thread_count s - 1\<rparr>"
  have "num P (goto t Signal ?s) = num P (goto t Signal s)" for P by (simp add: num_def goto_def)
  moreover note num_goto [OF t, of waiting Signal] num_goto [OF t, of awake Signal] num_goto [OF t, of "\<lambda>p. p = Signal" Signal] count_down [OF False]
  ultimately show ?thesis using inv False by (auto simp: enqueue_def tc_inv_def)
qed (use inv in \<open>simp add: enqueue_def\<close>)

lemma flush_loop_inv:
  assumes inv: "tc_inv sz s" and t: "at_pc s t q" "\<not> waiting q" "q \<noteq> Signal"
  shows "tc_inv sz (flush_loop t s)"
proof (cases "cached_thread_count s = 0")
  case True
  have "\<not> awake q" using t by (cases q) auto
  then show ?thesis using True inv t(2,3) tc_inv_goto [of "s\<lparr>kill_cached_threads := kill_cached_threads s - 1\<rparr>" t q sz Idle] t(1)
    by (simp add: flush_loop_def tc_inv_def)
next
  case False
  let ?s = "s\<lparr>threads := map wake (threads s)\<rparr>"
  have "length (filter awake xs) \<le> length (filter awake (map wake xs))" for xs
    by (induction xs) (auto simp: wake_def)
  then have "num awake s \<le> num awake ?s" by (simp add: num_def)
  then have "tc_inv sz ?s" using inv num_wake [of waiting s] num_wake [of "\<lambda>p. p = Signal" s] by (simp add: tc_inv_def)
  moreover have "at_pc ?s t q" using t by (auto simp: at_pc_def wake_def)
  moreover have "\<not> awake q" using t by (cases q) auto
  ultimately show ?thesis using t(2,3) tc_inv_goto [of ?s t q sz Flush_wait] False by (simp add: flush_loop_def)
qed


lemma signal_park_inv:
  assumes inv: "tc_inv sz s" and t: "at_pc s t Signal" and sig: "signal Parked (Awake False) target (goto t Idle s) = Some s'"
  shows "tc_inv sz s'"
proof -
  let ?s = "goto t Idle s"
  note n = num_goto [OF t, of waiting Idle] num_goto [OF t, of awake Idle] num_goto [OF t, of "\<lambda>p. p = Signal" Idle]
  show ?thesis
  proof (cases target)
    case None
    then have "Parked \<notin> set (threads ?s)" "s' = ?s" using sig by (auto simp: signal_def split: if_splits)
    then show ?thesis using inv n num_waiting_awake [of ?s] by (auto simp: tc_inv_def)
  next
    case (Some u)
    then have u: "at_pc ?s u Parked" "s' = goto u (Awake False) ?s" using sig by (auto simp: signal_def split: if_splits)
    then show ?thesis using inv n num_goto [OF u(1), of waiting "Awake False"] num_goto [OF u(1), of awake "Awake False"]
        num_goto [OF u(1), of "\<lambda>p. p = Signal" "Awake False"] by (simp add: tc_inv_def)
  qed
qed

lemma signal_flush_inv:
  assumes inv: "tc_inv sz s" and t: "at_pc s t Leaving" and sig: "signal Flush_wait Flush_awake target (goto t Idle s) = Some s'"
  shows "tc_inv sz s'"
proof -
  have i: "tc_inv sz (goto t Idle s)" using tc_inv_goto [OF t inv] by simp
  show ?thesis
  proof (cases target)
    case (Some u)
    then show ?thesis using sig i tc_inv_goto [of "goto t Idle s" u Flush_wait sz Flush_awake] by (auto simp: signal_def split: if_splits)
  qed (use sig i in \<open>auto simp: signal_def split: if_splits\<close>)
qed

lemma tc_inv_fields: "tc_inv sz s \<Longrightarrow> tc_inv sz (s\<lparr>kill_cached_threads := k\<rparr>)" "tc_inv sz s \<Longrightarrow> tc_inv sz (s\<lparr>kill_cached_threads := k, finals := n\<rparr>)"
  by (simp_all add: tc_inv_def)

lemma tc_exec_inv: "tc_inv sz s \<Longrightarrow> tc_exec sz e s = Some s' \<Longrightarrow> tc_inv sz s'"
proof (cases e)
  case (Resume t)
  then show "tc_inv sz s \<Longrightarrow> tc_exec sz e s = Some s' \<Longrightarrow> tc_inv sz s'"
    by (auto split: if_splits intro: park_resume_inv)
next
  case (Signal_flush t target)
  then show "tc_inv sz s \<Longrightarrow> tc_exec sz e s = Some s' \<Longrightarrow> tc_inv sz s'"
    by (auto split: if_splits intro: signal_flush_inv)
next
  case (Signal_park t target)
  then show "tc_inv sz s \<Longrightarrow> tc_exec sz e s = Some s' \<Longrightarrow> tc_inv sz s'"
    by (auto split: if_splits intro: signal_park_inv)
next
  case (Final_flush t)
  then show "tc_inv sz s \<Longrightarrow> tc_exec sz e s = Some s' \<Longrightarrow> tc_inv sz s'"
    by (auto split: if_splits simp: final_flush_def intro!: tc_inv_goto [where q = Idle] tc_inv_fields)
qed (auto split: if_splits simp: flush_enter_def
  intro: park_enter_inv enqueue_inv flush_loop_inv tc_inv_goto flush_loop_inv [OF tc_inv_fields(1)])

definition tc_init :: "nat \<Rightarrow> thread_cache \<Rightarrow> bool" where
  "tc_init n s \<longleftrightarrow> s = Thread_cache_init n"

definition tc_step :: "32 word \<Rightarrow> thread_cache \<Rightarrow> thread_cache \<Rightarrow> bool" where
  "tc_step sz s s' \<longleftrightarrow> (\<exists>e. tc_exec sz e s = Some s')"

interpretation thread_pool: transition_system "tc_init n" "tc_step sz" "tc_inv sz"
  by unfold_locales (auto simp: tc_init_def tc_step_def tc_init_inv intro: tc_exec_inv)

text \<open>C33. In every state the cache can reach, with any interleaving of parking, enqueueing, flushes, timeouts and
  wake-ups: the connections handed out and those still queued are the accepted ones, each once and in order; for every
  queued one some thread is awake or about to be woken; the threads in the cache are counted and do not exceed its
  size; and once no thread is in the cache it can be destroyed.\<close>

theorem no_connection_lost:
  assumes "reach (tc_init n) (tc_step sz) s"
  shows "served s @ conns s = accepted s \<and>
    length (conns s) \<le> num awake s + num (\<lambda>p. p = Signal) s \<and>
    num waiting s = unat (Thread_cache_size s) + length (conns s) \<and> num waiting s \<le> unat sz \<and>
    (num waiting s = 0 \<longrightarrow> Thread_cache_destroy s)"
  using thread_pool.reach_inv [OF assms]
  by (auto simp: tc_inv_def Thread_cache_size_def Thread_cache_destroy_def unat_eq_zero)

lemma run_reach: "reach I (tc_step sz) s \<Longrightarrow> tc_run sz es s = Some s' \<Longrightarrow> reach I (tc_step sz) s'"
proof (induction es arbitrary: s)
  case (Cons e es)
  then obtain u where u: "tc_exec sz e s = Some u" "tc_run sz es u = Some s'" by (auto split: bind_splits)
  then have "tc_step sz s u" unfolding tc_step_def by blast
  then have "reach I (tc_step sz) u" using reach_step [OF "Cons.prems"(1)] by blast
  then show ?case using Cons.IH u(2) by blast
qed simp

lemma no_connection_lost_witness:
  "\<exists>s. tc_run 8 [Park 0, Enqueue 1 7, Signal_park 1 (Some 0), Resume 0] (Thread_cache_init (Suc (Suc 0))) = Some s \<and> served s @ conns s = accepted s"
proof -
  obtain s where s: "tc_run 8 [Park 0, Enqueue 1 7, Signal_park 1 (Some 0), Resume 0] (Thread_cache_init (Suc (Suc 0))) = Some s"
    by (simp add: Thread_cache_init_def park_enter_def enqueue_def signal_def at_pc_def goto_def park_resume_def Let_def)
  have "reach (tc_init (Suc (Suc 0))) (tc_step 8) s" by (rule run_reach [OF _ s]) (rule reach_init, simp add: tc_init_def)
  from no_connection_lost [OF this] show ?thesis using s by blast
qed

section \<open>Requests to flush\<close>

text \<open>\<open>kill_cached_threads\<close> counts the flushes in progress and the final flushes begun.\<close>

definition kill_inv :: "thread_cache \<Rightarrow> bool" where
  "kill_inv s \<longleftrightarrow> kill_cached_threads s = of_nat (num flushing s + finals s)"

lemma kill_inv_goto: "kill_inv s \<Longrightarrow> at_pc s t q \<Longrightarrow> flushing q = flushing p \<Longrightarrow> kill_inv (goto t p s)"
  by (simp add: kill_inv_def num_goto_same)

lemma kill_inv_fields:
  "kill_inv (conns_update f s) = kill_inv s" "kill_inv (cached_thread_count_update g s) = kill_inv s"
  "kill_inv (accepted_update f s) = kill_inv s" "kill_inv (served_update f s) = kill_inv s"
  by (simp_all add: kill_inv_def)

lemma flush_loop_kill:
  assumes "at_pc s t q" "q \<noteq> Parked" "kill_cached_threads s = of_nat (num flushing s + of_bool (\<not> flushing q) + finals s)"
  shows "kill_inv (flush_loop t s)"
proof (cases "cached_thread_count s = 0")
  case True
  have "num flushing s + of_bool (\<not> flushing q) = num flushing (goto t Idle s) + 1"
    using num_goto [OF assms(1), of flushing Idle] by (cases "flushing q") simp_all
  moreover have "num flushing (goto t Idle (kill_cached_threads_update k s)) = num flushing (goto t Idle s)" for k
    by (simp add: num_def goto_def)
  ultimately show ?thesis using True assms(3) by (simp add: flush_loop_def kill_inv_def)
next
  case False
  let ?s = "s\<lparr>threads := map wake (threads s)\<rparr>"
  have "at_pc ?s t q" using assms by (auto simp: at_pc_def wake_def)
  then have "num flushing ?s + of_bool (\<not> flushing q) = num flushing (goto t Flush_wait ?s)"
    using num_goto [of ?s t q flushing Flush_wait] by (cases "flushing q") simp_all
  then show ?thesis using False assms(3) num_wake [of flushing s] by (simp add: flush_loop_def kill_inv_def)
qed

lemma flush_enter_kill: "kill_inv s \<Longrightarrow> at_pc s t q \<Longrightarrow> q \<noteq> Parked \<Longrightarrow> \<not> flushing q \<Longrightarrow> kill_inv (flush_enter t s)"
  unfolding flush_enter_def by (rule flush_loop_kill) (auto simp: kill_inv_def)

lemma final_flush_kill: "kill_inv s \<Longrightarrow> at_pc s t Idle \<Longrightarrow> kill_inv (final_flush t s)"
  unfolding final_flush_def kill_inv_def by (subst num_goto_same) auto

lemma signal_kill:
  "kill_inv s \<Longrightarrow> flushing p = flushing q \<Longrightarrow> signal p q target s = Some s' \<Longrightarrow> kill_inv s'"
  by (auto simp: signal_def split: option.splits if_splits intro: kill_inv_goto)

lemma park_kill:
  "kill_inv s \<Longrightarrow> at_pc s t Idle \<Longrightarrow> kill_inv (park_enter sz t s)"
  "kill_inv s \<Longrightarrow> at_pc s t (Awake e) \<Longrightarrow> kill_inv (park_resume e t s)"
  by (auto simp: park_enter_def park_resume_def Let_def kill_inv_fields split: list.split intro!: kill_inv_goto)

lemma enqueue_kill: "kill_inv s \<Longrightarrow> at_pc s t Idle \<Longrightarrow> kill_inv (snd (enqueue t c s))"
  by (auto simp: enqueue_def kill_inv_fields intro!: kill_inv_goto)

lemma flush_resume_kill: "kill_inv s \<Longrightarrow> at_pc s t Flush_awake \<Longrightarrow> kill_inv (flush_loop t s)"
  by (rule flush_loop_kill) (auto simp: kill_inv_def)

lemma tc_exec_kill:
  assumes "kill_inv s" "tc_exec sz e s = Some s'"
  shows "kill_inv s'"
proof (cases e)
  case (Signal_flush t target)
  then have "at_pc s t Leaving" "signal Flush_wait Flush_awake target (goto t Idle s) = Some s'"
    using assms(2) by (auto split: if_splits)
  then show ?thesis using signal_kill [OF kill_inv_goto [OF assms(1), of t Leaving Idle], of Flush_wait Flush_awake] by simp
next
  case (Signal_park t target)
  then have "at_pc s t Signal" "signal Parked (Awake False) target (goto t Idle s) = Some s'"
    using assms(2) by (auto split: if_splits)
  then show ?thesis using signal_kill [OF kill_inv_goto [OF assms(1), of t Signal Idle], of Parked "Awake False"] by simp
qed (use assms in \<open>auto split: if_splits intro!: park_kill enqueue_kill flush_enter_kill [of s] final_flush_kill flush_resume_kill
    intro: kill_inv_goto [of s]\<close>)

lemma kill_init_inv: "kill_inv (Thread_cache_init n)"
  using num_replicate [of flushing n] by (simp add: kill_inv_def) (simp add: Thread_cache_init_def)

interpretation thread_kill: transition_system "tc_init n" "tc_step sz" kill_inv
  by unfold_locales (auto simp: tc_init_def tc_step_def kill_init_inv intro: tc_exec_kill)

lemma killing: "kill_inv s \<Longrightarrow> 0 < num flushing s + finals s \<Longrightarrow> num flushing s + finals s < 2 ^ 32 \<Longrightarrow> kill_cached_threads s \<noteq> 0"
  by (simp add: kill_inv_def word_of_nat_eq_0_iff nat_dvd_not_less del: of_nat_add)

section \<open>A cache that is being flushed only shrinks\<close>

lemma signal_waiting: "waiting p = waiting q \<Longrightarrow> signal p q target s = Some s' \<Longrightarrow> num waiting s' = num waiting s"
  by (auto simp: signal_def num_goto_same split: option.splits if_splits)

lemma flush_loop_waiting:
  assumes "at_pc s t q" "\<not> waiting q"
  shows "num waiting (flush_loop t s) = num waiting s"
proof -
  have "at_pc (s\<lparr>threads := map wake (threads s)\<rparr>) t q" using assms by (auto simp: at_pc_def wake_def)
  then show ?thesis using assms num_wake [of waiting s] by (simp add: flush_loop_def num_goto_same)
qed

lemma park_waiting:
  "kill_cached_threads s \<noteq> 0 \<Longrightarrow> num waiting (park_enter sz t s) = num waiting s"
  "kill_cached_threads s \<noteq> 0 \<Longrightarrow> at_pc s t (Awake e) \<Longrightarrow> num waiting (park_resume e t s) + 1 = num waiting s"
proof -
  show "kill_cached_threads s \<noteq> 0 \<Longrightarrow> num waiting (park_enter sz t s) = num waiting s"
    by (auto simp: park_enter_def split: list.split)
  assume "kill_cached_threads s \<noteq> 0" "at_pc s t (Awake e)"
  moreover have "num waiting (goto t Leaving (conns_update f (served_update f s))) = num waiting (goto t Leaving s)"
    "num waiting (goto t Leaving (served_update f' (conns_update f s))) = num waiting (goto t Leaving s)"
    "num waiting (goto t Leaving (cached_thread_count_update g s)) = num waiting (goto t Leaving s)" for f f' g by (simp_all add: num_def goto_def)
  ultimately show "num waiting (park_resume e t s) + 1 = num waiting s"
    using num_goto [of s t "Awake e" waiting Leaving] by (auto simp: park_resume_def Let_def split: list.split)
qed

lemma enqueue_waiting: "at_pc s t Idle \<Longrightarrow> num waiting (snd (enqueue t c s)) = num waiting s"
  by (auto simp: enqueue_def num_goto_same)

lemma exec_killing:
  assumes "kill_cached_threads s \<noteq> 0" "tc_exec sz e s = Some s'"
  shows "num waiting s' \<le> num waiting s"
  using assms park_waiting(2) [of s _ True] park_waiting(2) [of s _ False]
  by (cases e) (fastforce split: if_splits simp: park_waiting(1) enqueue_waiting num_goto_same flush_enter_def flush_loop_waiting final_flush_def
    dest: signal_waiting [rotated])+

text \<open>While a flush is in progress, and for good once the final flush has begun, no thread joins the cache: the
  threads in it never become more, and every thread of it that takes the mutex again leaves.\<close>

theorem flushed_cache_shrinks:
  assumes "reach (tc_init n) (tc_step sz) s" "0 < num flushing s + finals s" "num flushing s + finals s < 2 ^ 32"
    and "tc_exec sz e s = Some s'"
  shows "num waiting s' \<le> num waiting s \<and> (\<forall>t. e = Resume t \<longrightarrow> num waiting s' < num waiting s)"
proof -
  have k: "kill_cached_threads s \<noteq> 0" by (rule killing [OF thread_kill.reach_inv [OF assms(1)] assms(2,3)])
  then have "num waiting s' < num waiting s" if "e = Resume t" for t
    using that assms(4) park_waiting(2) [OF k, of t] by (fastforce split: if_splits)
  then show ?thesis using exec_killing [OF k assms(4)] by blast
qed

lemma flushed_cache_shrinks_witness:
  "\<exists>s s'. tc_run 8 [Park 0, Flush 1] (Thread_cache_init (Suc (Suc 0))) = Some s \<and> tc_exec 8 (Resume 0) s = Some s' \<and> num waiting s' < num waiting s"
proof -
  obtain s s' where s: "tc_run 8 [Park 0, Flush 1] (Thread_cache_init (Suc (Suc 0))) = Some s" "tc_exec 8 (Resume 0) s = Some s'"
      "num flushing s = 1" "finals s = 0"
    by (simp add: Thread_cache_init_def park_enter_def at_pc_def goto_def park_resume_def Let_def flush_enter_def flush_loop_def wake_def num_def)
  have "reach (tc_init (Suc (Suc 0))) (tc_step 8) s" by (rule run_reach [OF _ s(1)]) (rule reach_init, simp add: tc_init_def)
  from flushed_cache_shrinks [OF this _ _ s(2)] have "num waiting s' < num waiting s" using s(3,4) by simp
  then show ?thesis using s(1,2) by blast
qed

section \<open>Overlapping flushes\<close>

text \<open>The last thread of the cache has gone and signalled, and some flush still sleeps.\<close>

definition stuck :: "nat \<Rightarrow> nat \<Rightarrow> thread_cache \<Rightarrow> bool" where
  "stuck t k s \<longleftrightarrow> at_pc s t Flush_wait \<and> conns s = [] \<and> cached_thread_count s = 0 \<and>
     list_all (\<lambda>p. \<not> waiting p \<and> p \<noteq> Leaving \<and> p \<noteq> Signal) (threads s) \<and> kill_inv s \<and> num flushing s + finals s \<le> k"

fun spurious_flush :: "tc_event \<Rightarrow> bool" where
  "spurious_flush (Spurious_flush t) = True" | "spurious_flush e = False"

lemma stuck_nobody:
  assumes "stuck t k s" "waiting p \<or> p = Leaving \<or> p = Signal"
  shows "\<not> at_pc s u p"
  using assms by (auto simp: stuck_def at_pc_def list_all_length)

lemma stuck_goto:
  assumes "stuck t k s" "at_pc s u q" "\<not> flushing p" "\<not> waiting p" "p \<noteq> Leaving" "p \<noteq> Signal" "q \<noteq> Flush_wait"
    "kill_inv (goto u p s')" "threads s' = threads s" "conns s' = []" "cached_thread_count s' = 0" "finals s' \<le> finals s + n"
  shows "stuck t (k + n) (goto u p s')"
proof -
  have "num flushing (goto u p s') = num flushing (goto u p s)" using assms(9) by (simp add: num_def goto_def)
  also have "\<dots> \<le> num flushing s" using num_goto [OF assms(2), of flushing p] assms(3) by simp
  finally have "num flushing (goto u p s') \<le> num flushing s" .
  moreover have "u \<noteq> t" using assms(1,2,7) by (auto simp: stuck_def at_pc_def)
  ultimately show ?thesis using assms by (auto simp: stuck_def at_pc_def goto_def list_all_length nth_list_update)
qed

lemma stuck_step:
  assumes "stuck t k s" "k < 2 ^ 32" "tc_exec sz e s = Some s'" "\<not> spurious_flush e"
  shows "stuck t (Suc k) s'"
proof -
  have "at_pc s t Flush_wait" using assms(1) by (simp add: stuck_def)
  then have "0 < num flushing s" using at_pc_num [of s t Flush_wait flushing] by simp
  then have k: "kill_cached_threads s \<noteq> 0" using killing [of s] assms(1,2) by (simp add: stuck_def)
  have more: "stuck t (Suc k) s" using assms(1) by (simp add: stuck_def)
  note nobody = stuck_nobody [OF assms(1)]
  note kill = tc_exec_kill [OF _ assms(3)]
  have i: "kill_inv s" "conns s = []" "cached_thread_count s = 0" using assms(1) by (simp_all add: stuck_def)
  show ?thesis
  proof (cases e)
    case (Flush u)
    then show ?thesis using assms(3) i kill [OF i(1)] stuck_goto [OF assms(1), of u Idle Idle _ 1]
      by (auto simp: flush_enter_def flush_loop_def split: if_splits)
  next
    case (Flush_resume u)
    then show ?thesis using assms(3) i kill [OF i(1)] stuck_goto [OF assms(1), of u Flush_awake Idle _ 1]
      by (auto simp: flush_loop_def split: if_splits)
  next
    case (Final_flush u)
    then show ?thesis using assms(3) i kill [OF i(1)] stuck_goto [OF assms(1), of u Idle Flush_begin _ 1]
      by (auto simp: final_flush_def split: if_splits)
  next
    case (Final_flush_lock u)
    then show ?thesis using assms(3) i kill [OF i(1)] stuck_goto [OF assms(1), of u Flush_begin Idle _ 1]
      by (auto simp: flush_enter_def flush_loop_def split: if_splits)
  qed (use assms(3,4) nobody more i k in \<open>auto simp: park_enter_def enqueue_def split: if_splits\<close>)
qed

lemma stuck_run:
  "stuck t k s \<Longrightarrow> k + length es < 2 ^ 32 \<Longrightarrow> tc_run sz es s = Some s' \<Longrightarrow> \<not> list_ex spurious_flush es \<Longrightarrow>
     stuck t (k + length es) s'"
proof (induction es arbitrary: s k)
  case (Cons e es)
  then obtain u where u: "tc_exec sz e s = Some u" "tc_run sz es u = Some s'" by (auto split: bind_splits)
  then have "stuck t (Suc k) u" using stuck_step [OF "Cons.prems"(1) _ u(1)] "Cons.prems"(2,4) by simp
  then show ?case using Cons.IH [OF _ _ u(2)] "Cons.prems"(2,4) by fastforce
qed simp

text \<open>C35. One parked thread and two flushes that overlap: the thread leaves and signals the flushes once, one of
  them is woken and returns, and the other sleeps for good unless it wakes without a signal. Whatever the other
  threads do from there on, no thread can park and none is ever in the cache, and so none will signal it.\<close>

theorem overlapping_flush_never_returns:
  "\<exists>s. tc_run 8 [Park 0, Flush 1, Flush 2, Resume 0, Signal_flush 0 (Some 1), Flush_resume 1] (Thread_cache_init 3) = Some s \<and>
     (\<forall>es s'. tc_run 8 es s = Some s' \<longrightarrow> length es < 2 ^ 31 \<longrightarrow> \<not> list_ex spurious_flush es \<longrightarrow>
        at_pc s' 2 Flush_wait \<and> num waiting s' = 0 \<and> Thread_cache_destroy s')"
proof -
  have three: "replicate 3 Idle = [Idle, Idle, Idle]" by (simp add: numeral_3_eq_3)
  obtain s where s: "tc_run 8 [Park 0, Flush 1, Flush 2, Resume 0, Signal_flush 0 (Some 1), Flush_resume 1] (Thread_cache_init 3) = Some s"
      and f: "threads s = [Idle, Idle, Flush_wait]" "conns s = []" "cached_thread_count s = 0" "finals s = 0"
    by (simp add: Thread_cache_init_def three park_enter_def signal_def at_pc_def goto_def park_resume_def Let_def
      flush_enter_def flush_loop_def wake_def)
  have "reach (tc_init 3) (tc_step 8) s" by (rule run_reach [OF _ s]) (rule reach_init, simp add: tc_init_def)
  then have "kill_inv s" by (rule thread_kill.reach_inv)
  then have st: "stuck 2 1 s" using f by (simp add: stuck_def at_pc_def num_def)
  have "at_pc s' 2 Flush_wait \<and> num waiting s' = 0 \<and> Thread_cache_destroy s'"
    if "tc_run 8 es s = Some s'" "length es < 2 ^ 31" "\<not> list_ex spurious_flush es" for es s'
  proof -
    have "stuck 2 (1 + length es) s'" using stuck_run [OF st _ that(1)] that(2,3) by simp
    then show ?thesis by (auto simp: stuck_def num_def Thread_cache_destroy_def filter_empty_conv list_all_iff)
  qed
  then show ?thesis using s by blast
qed

lemma overlapping_flush_never_returns_witness:
  "\<exists>s s'. tc_run 8 [Park 0, Flush 0] s = Some s' \<and> at_pc s' 2 Flush_wait \<and> num waiting s' = 0"
  (is "\<exists>s s'. ?P s s'")
proof -
  obtain s where s: "tc_run 8 [Park 0, Flush 1, Flush 2, Resume 0, Signal_flush 0 (Some 1), Flush_resume 1] (Thread_cache_init 3) = Some s"
      and never: "\<And>es s'. tc_run 8 es s = Some s' \<Longrightarrow> length es < 2 ^ 31 \<Longrightarrow> \<not> list_ex spurious_flush es \<Longrightarrow>
        at_pc s' 2 Flush_wait \<and> num waiting s' = 0 \<and> Thread_cache_destroy s'"
    using overlapping_flush_never_returns by blast
  have three: "replicate 3 Idle = [Idle, Idle, Idle]" by (simp add: numeral_3_eq_3)
  obtain s' where s': "tc_run 8 [Park 0, Flush 0] s = Some s'"
    using s by (auto simp: Thread_cache_init_def three park_enter_def signal_def at_pc_def goto_def park_resume_def Let_def
      flush_enter_def flush_loop_def wake_def)
  have "at_pc s' 2 Flush_wait \<and> num waiting s' = 0 \<and> Thread_cache_destroy s'" using never [OF s'] by simp
  then have "?P s s'" using s' by blast
  then show ?thesis by blast
qed

section \<open>One flush at a time\<close>

text \<open>When no flush starts while another is in progress, a flush that sleeps always has a thread that will wake it.\<close>

definition tc_step_single :: "32 word \<Rightarrow> thread_cache \<Rightarrow> thread_cache \<Rightarrow> bool" where
  "tc_step_single sz s s' \<longleftrightarrow> tc_step sz s s' \<and> num flushing s' \<le> 1 \<and> finals s' \<le> 1"

definition wakers :: "thread_cache \<Rightarrow> nat" where
  "wakers s = num (\<lambda>p. awake p \<or> p = Leaving) s"

definition woken_inv :: "thread_cache \<Rightarrow> bool" where
  "woken_inv s \<longleftrightarrow> (Flush_wait \<in> set (threads s) \<longrightarrow> Parked \<notin> set (threads s) \<and> 0 < wakers s)"

definition single_inv :: "32 word \<Rightarrow> thread_cache \<Rightarrow> bool" where
  "single_inv sz s \<longleftrightarrow> tc_inv sz s \<and> kill_inv s \<and> num flushing s \<le> 1 \<and> finals s \<le> 1 \<and> woken_inv s"

lemma Flush_wait_at: "Flush_wait \<in> set (threads s) \<longleftrightarrow> (\<exists>t. at_pc s t Flush_wait)"
  by (auto simp: at_pc_def in_set_conv_nth)

lemma single_kill:
  assumes "kill_inv s" "num flushing s \<le> 1" "finals s \<le> 1" "Flush_wait \<in> set (threads s)"
  shows "kill_cached_threads s \<noteq> 0"
proof -
  obtain t where "at_pc s t Flush_wait" using assms(4) by (auto simp: at_pc_def in_set_conv_nth)
  then have "0 < num flushing s" by (rule at_pc_num) simp
  then show ?thesis using killing [OF assms(1)] assms(2,3) by simp
qed

lemma num_two:
  assumes "at_pc s t p" "at_pc s u q" "t \<noteq> u" "P p" "P q" "\<not> P Idle"
  shows "2 \<le> num P s"
proof -
  have "num P (goto t Idle s) + 1 = num P s" using num_goto [OF assms(1), of P Idle] assms(4,6) by simp
  moreover have "at_pc (goto t Idle s) u q" using assms by (auto simp: at_pc_def goto_def)
  then have "0 < num P (goto t Idle s)" using assms(5) by (rule at_pc_num)
  ultimately show ?thesis by simp
qed

lemma woken_inv_cong: "threads s = threads s' \<Longrightarrow> woken_inv s = woken_inv s'"
  by (simp add: woken_inv_def wakers_def num_def)

lemma woken_goto:
  assumes "woken_inv s" "at_pc s t q" "p \<noteq> Parked" "p \<noteq> Flush_wait" "awake q \<or> q = Leaving \<longrightarrow> awake p \<or> p = Leaving"
  shows "woken_inv (goto t p s)"
proof (cases "Flush_wait \<in> set (threads s)")
  case True
  then have "Parked \<notin> set (threads s)" "0 < wakers s" using assms(1) by (simp_all add: woken_inv_def)
  moreover have "wakers s \<le> wakers (goto t p s)"
    using num_goto [OF assms(2), of "\<lambda>p. awake p \<or> p = Leaving" p] assms(5) by (auto simp: wakers_def of_bool_def split: if_splits)
  moreover have "set (threads (goto t p s)) \<subseteq> insert p (set (threads s))" unfolding goto_def by (simp add: set_update_subset_insert)
  ultimately show ?thesis using assms(3) by (auto simp: woken_inv_def)
next
  case False
  have "set (threads (goto t p s)) \<subseteq> insert p (set (threads s))" unfolding goto_def by (simp add: set_update_subset_insert)
  then show ?thesis using False assms(4) by (auto simp: woken_inv_def)
qed

lemma nobody_waits_goto: "Flush_wait \<notin> set (threads s) \<Longrightarrow> p \<noteq> Flush_wait \<Longrightarrow> woken_inv (goto t p s)"
  using set_update_subset_insert [of "threads s" t p] by (auto simp: woken_inv_def goto_def)

lemma flush_woken:
  assumes "tc_inv sz s" "woken_inv s" "at_pc s t q" "\<not> waiting q" "q \<noteq> Leaving"
  shows "woken_inv (flush_loop t s)"
proof (cases "cached_thread_count s = 0")
  case True
  have "\<not> awake q" using assms(4) by (cases q) auto
  then have "woken_inv (goto t Idle s)" using woken_goto [OF assms(2,3), of Idle] assms(5) by simp
  then show ?thesis using True woken_inv_cong [of "goto t Idle s" "goto t Idle (s\<lparr>kill_cached_threads := k\<rparr>)" for k]
    by (simp add: flush_loop_def goto_def)
next
  case False
  let ?s = "s\<lparr>threads := map wake (threads s)\<rparr>" let ?g = "goto t Flush_wait ?s"
  have no: "Parked \<notin> set (threads ?s)" by (auto simp: wake_def)
  then have "Parked \<notin> set (threads ?g)" using set_update_subset_insert [of "threads ?s" t Flush_wait] by (auto simp: goto_def)
  moreover have "at_pc ?s t q" using assms(3,4) by (auto simp: at_pc_def wake_def)
  then have "num waiting ?g = num waiting s" using assms(4) num_wake [of waiting s] by (simp add: num_goto_same)
  then have "0 < num waiting ?g" using assms(1) False by (auto simp: tc_inv_def unat_gt_0)
  then have "0 < num awake ?g" using num_waiting_awake [of ?g] \<open>Parked \<notin> set (threads ?g)\<close> by simp
  then have "0 < wakers ?g" by (auto simp: wakers_def num_def filter_empty_conv)
  ultimately show ?thesis using False by (simp add: flush_loop_def woken_inv_def)
qed

lemma flush_enter_woken:
  assumes "tc_inv sz s" "woken_inv s" "at_pc s t q" "\<not> waiting q" "q \<noteq> Leaving"
  shows "woken_inv (flush_enter t s)"
proof -
  let ?s = "s\<lparr>kill_cached_threads := kill_cached_threads s + 1\<rparr>"
  have "woken_inv ?s" using assms(2) by (simp add: woken_inv_def wakers_def)
  then show ?thesis using flush_woken [OF tc_inv_fields(1) [OF assms(1)], of "kill_cached_threads s + 1" t q] assms(3-5)
    by (simp add: flush_enter_def)
qed

lemma last_flush_woken:
  assumes "at_pc s t Flush_awake" "num flushing s \<le> 1"
  shows "woken_inv s"
proof -
  have False if "at_pc s u Flush_wait" for u
  proof -
    have "t \<noteq> u" using assms(1) that by (auto simp: at_pc_def)
    then show False using num_two [OF assms(1) that, of flushing] assms(2) by simp
  qed
  then show ?thesis using Flush_wait_at [of s] by (auto simp: woken_inv_def)
qed

lemma awake_resume_woken:
  assumes "kill_inv s" "num flushing s \<le> 1" "finals s \<le> 1" "woken_inv s" "at_pc s t (Awake e)"
  shows "woken_inv (park_resume e t s)"
proof (cases "Flush_wait \<in> set (threads s)")
  case True
  then have "threads (park_resume e t s) = threads (goto t Leaving s)"
    using single_kill [OF assms(1-3)] by (auto simp: park_resume_def Let_def goto_def split: list.split)
  moreover have "woken_inv (goto t Leaving s)" using woken_goto [OF assms(4,5)] by simp
  ultimately show ?thesis using woken_inv_cong by blast
next
  case False
  then have "Flush_wait \<notin> set (threads (goto t p s'))" if "threads s' = threads s" "p \<noteq> Flush_wait" for p s'
    using set_update_subset_insert [of "threads s" t p] that by (auto simp: goto_def)
  then show ?thesis by (auto simp: park_resume_def Let_def woken_inv_def split: list.split)
qed

lemma park_enter_woken:
  assumes "kill_inv s" "num flushing s \<le> 1" "finals s \<le> 1" "woken_inv s"
  shows "woken_inv (park_enter sz t s)"
proof (cases "Flush_wait \<in> set (threads s)")
  case True
  then have "threads (park_enter sz t s) = threads s" using single_kill [OF assms(1-3)] by (auto simp: park_enter_def split: list.split)
  then show ?thesis using assms(4) woken_inv_cong by blast
next
  case False
  then show ?thesis using assms(4) nobody_waits_goto
    by (auto simp: park_enter_def woken_inv_def goto_def dest: set_update_subset_insert [THEN subsetD] split: list.split)
qed

lemma signal_flush_woken:
  assumes "woken_inv s" "at_pc s t Leaving" "num flushing s' \<le> 1" "signal Flush_wait Flush_awake target (goto t Idle s) = Some s'"
  shows "woken_inv s'"
proof (cases target)
  case None
  then show ?thesis using assms(4) by (auto simp: signal_def woken_inv_def split: if_splits)
next
  case (Some u)
  then have "at_pc s' u Flush_awake" using assms(4) by (auto simp: signal_def at_pc_def goto_def split: if_splits)
  then show ?thesis using last_flush_woken assms(3) by blast
qed

lemma signal_park_woken:
  assumes "woken_inv s" "at_pc s t Signal" "signal Parked (Awake False) target (goto t Idle s) = Some s'"
  shows "woken_inv s'"
proof -
  have "woken_inv (goto t Idle s)" using woken_goto [OF assms(1,2)] by simp
  then show ?thesis using assms(3) by (auto simp: signal_def split: option.splits if_splits intro: woken_goto)
qed

lemma single_step_woken:
  assumes inv: "single_inv sz s" and e: "tc_exec sz e s = Some s'" and one: "num flushing s' \<le> 1"
  shows "woken_inv s'"
proof -
  have i: "tc_inv sz s" "kill_inv s" "num flushing s \<le> 1" "finals s \<le> 1" "woken_inv s" using inv by (simp_all add: single_inv_def)
  note k = i(2-5)
  show ?thesis
  proof (cases e)
    case (Park t)
    then show ?thesis using e park_enter_woken [OF k] by (auto split: if_splits)
  next
    case (Resume t)
    then show ?thesis using e awake_resume_woken [OF k] by (auto split: if_splits)
  next
    case (Signal_flush t target)
    then show ?thesis using e signal_flush_woken [OF i(5) _ one] by (auto split: if_splits)
  next
    case (Signal_park t target)
    then show ?thesis using e signal_park_woken [OF i(5)] by (auto split: if_splits)
  next
    case (Enqueue t c)
    have "threads (snd (enqueue t c s)) = threads s \<or> threads (snd (enqueue t c s)) = threads (goto t Signal s)"
      by (simp add: enqueue_def goto_def)
    moreover have "at_pc s t Idle" "s' = snd (enqueue t c s)" using Enqueue e by (simp_all split: if_splits)
    moreover have "woken_inv (goto t Signal s)" using woken_goto [OF i(5) \<open>at_pc s t Idle\<close>] by simp
    ultimately show ?thesis using i(5) woken_inv_cong by metis
  next
    case (Spurious_flush t)
    then have "at_pc s' t Flush_awake" using e by (auto simp: at_pc_def goto_def split: if_splits)
    then show ?thesis using last_flush_woken one by blast
  next
    case (Final_flush t)
    have "threads (final_flush t s) = threads (goto t Flush_begin s)" by (simp add: final_flush_def goto_def)
    moreover have "at_pc s t Idle" "s' = final_flush t s" using Final_flush e by (simp_all split: if_splits)
    moreover have "woken_inv (goto t Flush_begin s)" using woken_goto [OF i(5) \<open>at_pc s t Idle\<close>] by simp
    ultimately show ?thesis using woken_inv_cong by metis
  next
    case (Flush t)
    then have "at_pc s t Idle" "s' = flush_enter t s" using e by (simp_all split: if_splits)
    then show ?thesis using flush_enter_woken [OF i(1,5)] by simp
  next
    case (Final_flush_lock t)
    then have "at_pc s t Flush_begin" "s' = flush_enter t s" using e by (simp_all split: if_splits)
    then show ?thesis using flush_enter_woken [OF i(1,5)] by simp
  next
    case (Flush_resume t)
    then show ?thesis using e i by (auto split: if_splits intro!: flush_woken [of sz _ t Flush_awake])
  qed (use e i in \<open>auto split: if_splits intro: woken_goto\<close>)
qed

lemma tc_step_singleI: "tc_exec sz e s = Some s' \<Longrightarrow> num flushing s' \<le> 1 \<Longrightarrow> finals s' \<le> 1 \<Longrightarrow> tc_step_single sz s s'"
  unfolding tc_step_single_def tc_step_def by blast

lemma single_step_inv: "single_inv sz s \<Longrightarrow> tc_step_single sz s s' \<Longrightarrow> single_inv sz s'"
  unfolding tc_step_single_def tc_step_def
  by (auto simp: single_inv_def [of sz s'] intro: single_step_woken) (auto simp: single_inv_def intro: tc_exec_inv tc_exec_kill)

lemma single_init: "single_inv sz (Thread_cache_init n)"
  using num_replicate [of flushing n] tc_init_inv kill_init_inv
  by (simp add: single_inv_def woken_inv_def) (simp add: Thread_cache_init_def)

interpretation single_flush: transition_system "tc_init n" "tc_step_single sz" "single_inv sz"
  by unfold_locales (auto simp: tc_init_def single_init intro: single_step_inv)

definition remaining :: "thread_cache \<Rightarrow> nat" where
  "remaining s = num (\<lambda>p. waiting p \<or> p = Leaving) s"

lemma at_pc_goto: "at_pc (goto u p s) t q \<longleftrightarrow> (if t = u then t < length (threads s) \<and> p = q else at_pc s t q)"
  by (auto simp: at_pc_def goto_def)

text \<open>A thread that leaves wakes the flush, and the flush looks at the cache again.\<close>

lemma leave_wakes:
  assumes inv: "single_inv sz s" and t: "at_pc s t Flush_wait" and u: "at_pc s u Leaving"
  shows "\<exists>s'. tc_run sz [Signal_flush u (Some t), Flush_resume t] s = Some s' \<and> single_inv sz s' \<and> remaining s' < remaining s \<and>
    (at_pc s' t Idle \<or> at_pc s' t Flush_wait)"
proof -
  let ?i = "goto u Idle s" let ?a = "goto t Flush_awake ?i" let ?f = "flush_loop t ?a"
  have ne: "t \<noteq> u" using t u by (auto simp: at_pc_def)
  then have ti: "at_pc ?i t Flush_wait" and ta: "at_pc ?a t Flush_awake" using t by (simp_all add: at_pc_goto) (simp_all add: at_pc_def)
  have e1: "tc_exec sz (Signal_flush u (Some t)) s = Some ?a" using u ti by (simp add: signal_def)
  have "num flushing ?a = num flushing s" using u ti by (simp add: num_goto_same)
  then have "tc_step_single sz s ?a" using tc_step_singleI [OF e1] inv by (simp add: single_inv_def)
  then have inva: "single_inv sz ?a" by (rule single_step_inv [OF inv])
  have ra: "remaining ?a < remaining s" using num_goto [OF u, of "\<lambda>p. waiting p \<or> p = Leaving" Idle] ti
    by (simp add: remaining_def num_goto_same)
  have e2: "tc_exec sz (Flush_resume t) ?a = Some ?f" using ta by simp
  let ?w = "?a\<lparr>threads := map wake (threads ?a)\<rparr>"
  have tw: "at_pc ?w t Flush_awake" using ta by (auto simp: at_pc_def wake_def)
  have "num flushing ?f \<le> num flushing ?a" using num_goto [OF ta, of flushing Idle] tw num_wake [of flushing ?a]
    by (simp add: flush_loop_def num_goto_same) (simp add: num_def goto_def)
  moreover have "finals ?f = finals ?a" by (simp add: flush_loop_def)
  ultimately have "tc_step_single sz ?a ?f" using tc_step_singleI [OF e2] inva by (simp add: single_inv_def)
  then have invf: "single_inv sz ?f" by (rule single_step_inv [OF inva])
  have "num (\<lambda>p. waiting p \<or> p = Leaving) ?w = num (\<lambda>p. waiting p \<or> p = Leaving) ?a" by (rule num_wake) simp
  then have "remaining ?f = remaining ?a" using ta tw by (simp add: flush_loop_def remaining_def num_goto_same)
  moreover have "at_pc ?f t Idle \<or> at_pc ?f t Flush_wait" using t by (auto simp: flush_loop_def at_pc_goto at_pc_def [of s])
  ultimately show ?thesis using e1 e2 invf ra by auto
qed

lemma awake_leaves:
  assumes inv: "single_inv sz s" and t: "at_pc s t Flush_wait" and u: "at_pc s u (Awake e)"
  shows "\<exists>s'. tc_exec sz (Resume u) s = Some s' \<and> single_inv sz s' \<and> remaining s' = remaining s \<and> at_pc s' t Flush_wait \<and> at_pc s' u Leaving"
proof -
  let ?r = "park_resume e u s"
  have "kill_cached_threads s \<noteq> 0" using inv t single_kill Flush_wait_at unfolding single_inv_def by blast
  then have th: "threads ?r = threads (goto u Leaving s)" "finals ?r = finals s"
    by (auto simp: park_resume_def Let_def goto_def split: list.split)
  have ne: "t \<noteq> u" using t u by (auto simp: at_pc_def)
  have "\<not> at_pc s u (Awake True)" if "\<not> e" using u that by (auto simp: at_pc_def)
  then have e: "tc_exec sz (Resume u) s = Some ?r" using u by (cases e) auto
  have n: "num P ?r = num P (goto u Leaving s)" for P using th(1) by (rule num_cong)
  have "num flushing ?r = num flushing s" using n u by (simp add: num_goto_same)
  then have "tc_step_single sz s ?r" using tc_step_singleI [OF e] inv th by (simp add: single_inv_def)
  then have "single_inv sz ?r" by (rule single_step_inv [OF inv])
  moreover have "remaining ?r = remaining s" using n u by (simp add: remaining_def num_goto_same)
  moreover have "at_pc ?r t Flush_wait \<and> at_pc ?r u Leaving" using th(1) t u ne by (simp add: at_pc_def goto_def)
  ultimately show ?thesis using e by blast
qed

lemma tc_run_append: "tc_run sz (es @ es') s = Option.bind (tc_run sz es s) (tc_run sz es')"
  by (induction es arbitrary: s) (auto split: bind_splits)

lemma flush_progress:
  assumes inv: "single_inv sz s" and t: "at_pc s t Flush_wait"
  shows "\<exists>es s'. tc_run sz es s = Some s' \<and> single_inv sz s' \<and> remaining s' < remaining s \<and>
    (at_pc s' t Idle \<or> at_pc s' t Flush_wait)"
proof -
  have "0 < wakers s" using inv t Flush_wait_at by (auto simp: single_inv_def woken_inv_def)
  then obtain u p where u: "at_pc s u p" "awake p \<or> p = Leaving"
    by (auto simp: wakers_def num_def filter_empty_conv at_pc_def in_set_conv_nth)
  show ?thesis
  proof (cases "p = Leaving")
    case True
    then show ?thesis using leave_wakes [OF inv t] u by blast
  next
    case False
    then obtain e where "p = Awake e" using u(2) by (auto elim: awake.elims)
    then obtain r where r: "tc_exec sz (Resume u) s = Some r" "single_inv sz r" "remaining r = remaining s" "at_pc r t Flush_wait" "at_pc r u Leaving"
      using awake_leaves [OF inv t] u(1) by blast
    obtain s' where "tc_run sz [Signal_flush u (Some t), Flush_resume t] r = Some s'" "single_inv sz s'" "remaining s' < remaining r"
        "at_pc s' t Idle \<or> at_pc s' t Flush_wait" using leave_wakes [OF r(2,4,5)] by blast
    moreover have "tc_run sz (Resume u # [Signal_flush u (Some t), Flush_resume t]) s = tc_run sz [Signal_flush u (Some t), Flush_resume t] r"
      using r(1) by (simp del: tc_exec.simps)
    ultimately show ?thesis using r(3) by metis
  qed
qed

lemma flush_finishes:
  "single_inv sz s \<Longrightarrow> at_pc s t Flush_wait \<Longrightarrow> \<exists>es s'. tc_run sz es s = Some s' \<and> at_pc s' t Idle"
proof (induction "remaining s" arbitrary: s rule: less_induct)
  case less
  obtain es u where u: "tc_run sz es s = Some u" "single_inv sz u" "remaining u < remaining s" "at_pc u t Idle \<or> at_pc u t Flush_wait"
    using flush_progress [OF less.prems] by blast
  show ?case
  proof (cases "at_pc u t Idle")
    case False
    then obtain es' s' where "tc_run sz es' u = Some s'" "at_pc s' t Idle" using less.hyps [OF u(3,2)] u(4) by blast
    then show ?thesis using u(1) tc_run_append [of sz es es' s] by auto
  qed (use u(1) in blast)
qed

text \<open>C34. When flushes do not overlap and the final flush runs once, a flush that sleeps has a thread that will wake
  it: one that has left the cache and is about to signal, or one that has been woken and will leave. So in every
  reachable state it can still return.\<close>

theorem single_flush_returns:
  assumes "reach (tc_init n) (tc_step_single sz) s" "at_pc s t Flush_wait"
  shows "(\<exists>u p. at_pc s u p \<and> (awake p \<or> p = Leaving)) \<and> (\<exists>es s'. tc_run sz es s = Some s' \<and> at_pc s' t Idle)"
proof -
  have inv: "single_inv sz s" by (rule single_flush.reach_inv [OF assms(1)])
  then have "0 < wakers s" using assms(2) Flush_wait_at by (auto simp: single_inv_def woken_inv_def)
  then have "\<exists>u p. at_pc s u p \<and> (awake p \<or> p = Leaving)"
    by (auto simp: wakers_def num_def filter_empty_conv at_pc_def in_set_conv_nth)
  then show ?thesis using flush_finishes [OF inv assms(2)] by blast
qed

lemma single_flush_returns_witness:
  "\<exists>s. tc_run 8 [Park 0, Flush 1] (Thread_cache_init (Suc (Suc 0))) = Some s \<and> at_pc s 1 Flush_wait \<and>
     (\<exists>es s'. tc_run 8 es s = Some s' \<and> at_pc s' 1 Idle)"
proof -
  let ?i = "Thread_cache_init (Suc (Suc 0))"
  obtain p s where p: "tc_exec 8 (Park 0) ?i = Some p" "num flushing p = 0" "finals p = 0"
      and s: "tc_exec 8 (Flush 1) p = Some s" "num flushing s = 1" "finals s = 0" "at_pc s 1 Flush_wait"
    by (simp add: Thread_cache_init_def park_enter_def at_pc_def goto_def flush_enter_def flush_loop_def wake_def num_def)
  have "reach (tc_init (Suc (Suc 0))) (tc_step_single 8) ?i" by (rule reach_init) (simp add: tc_init_def)
  moreover have "tc_step_single 8 ?i p" "tc_step_single 8 p s" using p s by (simp_all add: tc_step_singleI del: tc_exec.simps)
  ultimately have "reach (tc_init (Suc (Suc 0))) (tc_step_single 8) s" using reach_step by metis
  from single_flush_returns [OF this s(4)] show ?thesis using p(1) s(1,4) by (auto simp del: tc_exec.simps)
qed

end
