(* ===== verification/Hash_Filo.thy ===== *)
theory Hash_Filo
  imports Prelude "HOL-Library.Word" "HOL-Library.Multiset"
begin

text \<open>
  \<open>hash_filo\<close> of \<open>private/hash_filo.h\<close>: a hash table of bounded size that drops the element used longest ago. The
  elements are linked both ways in the order of their use. The functions of \<open>HASH\<close> are only declared: they are
  parameters, with the contract \<open>hash_ok\<close>. Elements have addresses; reading or writing one that was freed is a
  fault (None), as are a null pointer, a failed assertion and a mutex used in the wrong state. \<open>debug\<close> says
  whether the build has assertions.
\<close>

section \<open>HASH\<close>

text \<open>\<open>h_delete\<close> and \<open>h_free\<close> also give the elements they pass to \<open>free_element\<close>; \<open>h_insert\<close> says whether it failed.\<close>

record ('h, 'k) hash_lib =
  h_zero :: 'h
  h_init :: "32 word \<Rightarrow> bool \<Rightarrow> 'h"
  h_search :: "'h \<Rightarrow> 'k \<Rightarrow> nat option"
  h_insert :: "'h \<Rightarrow> nat \<Rightarrow> bool \<times> 'h"
  h_delete :: "'h \<Rightarrow> nat \<Rightarrow> 'h \<times> nat list"
  h_free :: "'h \<Rightarrow> 'h \<times> nat list"
  h_records :: "'h \<Rightarrow> 32 word"
  h_buffer :: "'h \<Rightarrow> bool"

text \<open>\<open>holds h S f\<close>: the table holds the elements \<open>S\<close>, and frees them when \<open>f\<close>.\<close>

definition hash_ok :: "('h, 'k) hash_lib \<Rightarrow> (nat \<Rightarrow> 'k) \<Rightarrow> ('h \<Rightarrow> nat set \<Rightarrow> bool \<Rightarrow> bool) \<Rightarrow> bool" where
  "hash_ok H key holds \<longleftrightarrow>
     (\<forall>n f. holds (h_init H n f) {} f) \<and> holds (h_zero H) {} False \<and>
     (\<forall>h S f. holds h S f \<longrightarrow>
        finite S \<and> h_records H h = of_nat (card S) \<and> (\<not> h_buffer H h \<longrightarrow> S = {}) \<and>
        (\<forall>k. case h_search H h k of None \<Rightarrow> \<forall>e \<in> S. key e \<noteq> k | Some e \<Rightarrow> e \<in> S \<and> key e = k) \<and>
        (\<forall>e. e \<notin> S \<longrightarrow> (case h_insert H h e of (refused, h') \<Rightarrow> holds h' (if refused then S else insert e S) f)) \<and>
        (\<forall>e \<in> S. case h_delete H h e of (h', fs) \<Rightarrow> holds h' (S - {e}) f \<and> fs = (if f then [e] else [])) \<and>
        distinct (snd (h_free H h)) \<and> set (snd (h_free H h)) = (if f then S else {}))"

section \<open>hash\_filo\<close>

text \<open>
  \<open>has_free\<close>: \<open>free_element\<close> is not null; \<open>inited\<close> is \<open>init\<close>, \<open>locked\<close> the state of \<open>lock\<close>. \<open>live\<close> are the elements
  that exist, \<open>freed\<close> those that \<open>free_element\<close> was given.
\<close>

record 'h hash_filo =
  m_size :: "32 word"
  has_free :: bool
  inited :: bool
  locked :: bool
  first_link :: "nat option"
  last_link :: "nat option"
  cache :: 'h
  next_used :: "nat \<Rightarrow> nat option"
  prev_used :: "nat \<Rightarrow> nat option"
  live :: "nat set"
  freed :: "nat list"

definition hash_filo_new :: "('h, 'k) hash_lib \<Rightarrow> 32 word \<Rightarrow> bool \<Rightarrow> nat set \<Rightarrow> 'h hash_filo" where
  "hash_filo_new H size_arg free_element_arg others =
     \<lparr>m_size = size_arg, has_free = free_element_arg, inited = False, locked = False, first_link = None, last_link = None,
      cache = h_zero H, next_used = (\<lambda>_. None), prev_used = (\<lambda>_. None), live = others, freed = []\<rparr>"

definition get_next :: "nat \<Rightarrow> 'h hash_filo \<Rightarrow> nat option option" where
  "get_next e s = (if e \<in> live s then Some (next_used s e) else None)"

definition get_prev :: "nat \<Rightarrow> 'h hash_filo \<Rightarrow> nat option option" where
  "get_prev e s = (if e \<in> live s then Some (prev_used s e) else None)"

definition set_next :: "nat \<Rightarrow> nat option \<Rightarrow> 'h hash_filo \<Rightarrow> 'h hash_filo option" where
  "set_next e v s = (if e \<in> live s then Some (s\<lparr>next_used := (next_used s)(e := v)\<rparr>) else None)"

definition set_prev :: "nat \<Rightarrow> nat option \<Rightarrow> 'h hash_filo \<Rightarrow> 'h hash_filo option" where
  "set_prev e v s = (if e \<in> live s then Some (s\<lparr>prev_used := (prev_used s)(e := v)\<rparr>) else None)"

definition free_elements :: "nat list \<Rightarrow> 'h hash_filo \<Rightarrow> 'h hash_filo option" where
  "free_elements es s =
     (if distinct es \<and> set es \<subseteq> live s then Some (s\<lparr>live := live s - set es, freed := freed s @ es\<rparr>) else None)"

definition filo_lock :: "'h hash_filo \<Rightarrow> 'h hash_filo option" where
  "filo_lock s = (if inited s \<and> \<not> locked s then Some (s\<lparr>locked := True\<rparr>) else None)"

definition filo_unlock :: "'h hash_filo \<Rightarrow> 'h hash_filo option" where
  "filo_unlock s = (if inited s \<and> locked s then Some (s\<lparr>locked := False\<rparr>) else None)"

definition filo_destroy :: "('h, 'k) hash_lib \<Rightarrow> 'h hash_filo \<Rightarrow> 'h hash_filo option" where
  "filo_destroy H s =
     (if inited s then do {
        s \<leftarrow> (if h_buffer H (cache s)
          then (case h_free H (cache s) of (h, fs) \<Rightarrow> free_elements fs (s\<lparr>cache := h\<rparr>)) else Some s);
        if locked s then None else Some (s\<lparr>inited := False\<rparr>)
      } else Some s)"

definition filo_clear :: "('h, 'k) hash_lib \<Rightarrow> bool \<Rightarrow> 'h hash_filo \<Rightarrow> 'h hash_filo option" where
  "filo_clear H already_locked s = do {
     let s = (if \<not> inited s then s\<lparr>inited := True, locked := False\<rparr> else s);
     s \<leftarrow> (if \<not> already_locked then filo_lock s else Some s);
     let s = s\<lparr>first_link := None, last_link := None\<rparr>;
     s \<leftarrow> (case h_free H (cache s) of (h, fs) \<Rightarrow> free_elements fs (s\<lparr>cache := h\<rparr>));
     let s = s\<lparr>cache := h_init H (m_size s) (has_free s)\<rparr>;
     if \<not> already_locked then filo_unlock s else Some s }"

definition filo_first :: "bool \<Rightarrow> 'h hash_filo \<Rightarrow> nat option option" where
  "filo_first debug s = (if debug \<and> \<not> locked s then None else Some (first_link s))"

definition filo_last :: "bool \<Rightarrow> 'h hash_filo \<Rightarrow> nat option option" where
  "filo_last debug s = (if debug \<and> \<not> locked s then None else Some (last_link s))"

text \<open>The part of \<open>search\<close> that takes \<open>entry\<close>, which is not the first, out of the chain.\<close>

definition filo_unchain :: "nat \<Rightarrow> 'h hash_filo \<Rightarrow> 'h hash_filo option" where
  "filo_unchain entry s =
     (if Some entry = last_link s then do {
        p \<leftarrow> get_prev entry s;
        let s = s\<lparr>last_link := p\<rparr>;
        l \<leftarrow> p;
        set_next l None s
      } else do {
        n \<leftarrow> get_next entry s;
        p \<leftarrow> get_prev entry s;
        n' \<leftarrow> n;
        s \<leftarrow> set_prev n' p s;
        p' \<leftarrow> p;
        set_next p' n s })"

definition filo_search :: "bool \<Rightarrow> ('h, 'k) hash_lib \<Rightarrow> 'k \<Rightarrow> 'h hash_filo \<Rightarrow> (nat option \<times> 'h hash_filo) option" where
  "filo_search debug H key s =
     (if debug \<and> \<not> locked s then None
      else case h_search H (cache s) key of
        None \<Rightarrow> Some (None, s)
      | Some entry \<Rightarrow>
          if debug \<and> (first_link s = None \<or> last_link s = None) then None
          else if Some entry = first_link s then Some (Some entry, s)
          else do {
            s \<leftarrow> filo_unchain entry s;
            s \<leftarrow> set_prev entry None s;
            s \<leftarrow> set_next entry (first_link s) s;
            f \<leftarrow> first_link s;
            s \<leftarrow> set_prev f (Some entry) s;
            Some (Some entry, s\<lparr>first_link := Some entry\<rparr>) })"

text \<open>The part of \<open>add\<close> that drops the last element.\<close>

definition filo_evict :: "('h, 'k) hash_lib \<Rightarrow> 'h hash_filo \<Rightarrow> 'h hash_filo option" where
  "filo_evict H s = do {
     tmp \<leftarrow> last_link s;
     p \<leftarrow> get_prev tmp s;
     let s = s\<lparr>last_link := p\<rparr>;
     s \<leftarrow> (case p of Some l \<Rightarrow> set_next l None s | None \<Rightarrow> Some (s\<lparr>first_link := None\<rparr>));
     case h_delete H (cache s) tmp of (h, fs) \<Rightarrow> free_elements fs (s\<lparr>cache := h\<rparr>) }"

text \<open>The rest of \<open>add\<close>.\<close>

definition filo_insert :: "('h, 'k) hash_lib \<Rightarrow> nat \<Rightarrow> 'h hash_filo \<Rightarrow> (bool \<times> 'h hash_filo) option" where
  "filo_insert H entry s =
     (case h_insert H (cache s) entry of (refused, h) \<Rightarrow>
        if refused then do {
          s \<leftarrow> (if has_free s then free_elements [entry] (s\<lparr>cache := h\<rparr>) else Some (s\<lparr>cache := h\<rparr>));
          Some (True, s)
        } else do {
          let s = s\<lparr>cache := h\<rparr>;
          s \<leftarrow> set_prev entry None s;
          s \<leftarrow> set_next entry (first_link s) s;
          s \<leftarrow> (case first_link s of Some f \<Rightarrow> set_prev f (Some entry) s | None \<Rightarrow> Some (s\<lparr>last_link := Some entry\<rparr>));
          Some (False, s\<lparr>first_link := Some entry\<rparr>) })"

definition filo_add :: "('h, 'k) hash_lib \<Rightarrow> nat \<Rightarrow> 'h hash_filo \<Rightarrow> (bool \<times> 'h hash_filo) option" where
  "filo_add H entry s =
     (if m_size s = 0 then Some (True, s)
      else do {
        s \<leftarrow> (if h_records H (cache s) = m_size s then filo_evict H s else Some s);
        filo_insert H entry s })"

definition filo_size :: "'h hash_filo \<Rightarrow> 32 word" where
  "filo_size s = m_size s"

definition filo_resize :: "('h, 'k) hash_lib \<Rightarrow> 32 word \<Rightarrow> 'h hash_filo \<Rightarrow> 'h hash_filo option" where
  "filo_resize H new_size s = do {
     s \<leftarrow> filo_lock s;
     s \<leftarrow> filo_clear H True (s\<lparr>m_size := new_size\<rparr>);
     filo_unlock s }"

section \<open>The chain of elements\<close>

definition head_link :: "nat list \<Rightarrow> nat option \<Rightarrow> nat option" where
  "head_link xs n = (case xs of [] \<Rightarrow> n | x # _ \<Rightarrow> Some x)"

definition tail_link :: "nat option \<Rightarrow> nat list \<Rightarrow> nat option" where
  "tail_link p xs = (if xs = [] then p else Some (last xs))"

fun dseg :: "(nat \<Rightarrow> nat option) \<Rightarrow> (nat \<Rightarrow> nat option) \<Rightarrow> nat option \<Rightarrow> nat list \<Rightarrow> nat option \<Rightarrow> bool" where
  "dseg nx pv p [] n \<longleftrightarrow> True"
| "dseg nx pv p (x # xs) n \<longleftrightarrow> pv x = p \<and> nx x = head_link xs n \<and> dseg nx pv (Some x) xs n"

lemma link_simps [simp]: "head_link [] n = n" "head_link (x # xs) n = Some x" "head_link (xs @ ys) n = head_link xs (head_link ys n)"
  by (simp_all add: head_link_def split: list.split)

lemma tail_link_simps [simp]: "tail_link p [] = p" "tail_link p (xs @ ys) = tail_link (tail_link p xs) ys" "tail_link p [x] = Some x"
    "tail_link p (x # xs) = tail_link (Some x) xs"
  by (simp_all add: tail_link_def)

lemma dseg_append: "dseg nx pv p (xs @ ys) n \<longleftrightarrow> dseg nx pv p xs (head_link ys n) \<and> dseg nx pv (tail_link p xs) ys n"
  by (induction xs arbitrary: p) auto

lemma dseg_other [simp]:
  "x \<notin> set xs \<Longrightarrow> dseg (nx(x := v)) pv p xs n = dseg nx pv p xs n"
  "x \<notin> set xs \<Longrightarrow> dseg nx (pv(x := v)) p xs n = dseg nx pv p xs n"
  by (induction xs arbitrary: p) auto

text \<open>What the table must be in: the elements \<open>xs\<close>, the one used last in front.\<close>

definition filo_inv ::
  "(nat \<Rightarrow> 'k) \<Rightarrow> ('h \<Rightarrow> nat set \<Rightarrow> bool \<Rightarrow> bool) \<Rightarrow> nat list \<Rightarrow> 'h hash_filo \<Rightarrow> bool" where
  "filo_inv key holds xs s \<longleftrightarrow> inited s \<and> distinct xs \<and> distinct (map key xs) \<and> set xs \<subseteq> live s \<and>
     holds (cache s) (set xs) (has_free s) \<and> length xs \<le> unat (m_size s) \<and>
     first_link s = head_link xs None \<and> last_link s = tail_link None xs \<and> dseg (next_used s) (prev_used s) None xs None"

lemma hash_okD:
  assumes "hash_ok H key holds" "holds h S f"
  shows "finite S" "h_records H h = of_nat (card S)" "\<not> h_buffer H h \<Longrightarrow> S = {}"
    "h_search H h k = None \<Longrightarrow> e \<in> S \<Longrightarrow> key e \<noteq> k" "h_search H h k = Some e \<Longrightarrow> e \<in> S \<and> key e = k"
    "e \<notin> S \<Longrightarrow> h_insert H h e = (r, h') \<Longrightarrow> holds h' (if r then S else insert e S) f"
    "e \<in> S \<Longrightarrow> h_delete H h e = (h', fs) \<Longrightarrow> holds h' (S - {e}) f \<and> fs = (if f then [e] else [])"
    "h_free H h = (h', fs) \<Longrightarrow> distinct fs \<and> set fs = (if f then S else {})"
proof -
  note a = assms(1) [unfolded hash_ok_def, THEN conjunct2, THEN conjunct2, THEN spec, THEN spec, THEN spec, THEN mp, OF assms(2)]
  note rest = a [THEN conjunct2, THEN conjunct2, THEN conjunct2]
  show "finite S" "h_records H h = of_nat (card S)" "\<not> h_buffer H h \<Longrightarrow> S = {}" using a by blast+
  show "h_search H h k = None \<Longrightarrow> e \<in> S \<Longrightarrow> key e \<noteq> k" "h_search H h k = Some e \<Longrightarrow> e \<in> S \<and> key e = k"
    using rest [THEN conjunct1, THEN spec, of k] by auto
  show "e \<notin> S \<Longrightarrow> h_insert H h e = (r, h') \<Longrightarrow> holds h' (if r then S else insert e S) f"
    using rest [THEN conjunct2, THEN conjunct1, THEN spec, of e] by simp
  show "e \<in> S \<Longrightarrow> h_delete H h e = (h', fs) \<Longrightarrow> holds h' (S - {e}) f \<and> fs = (if f then [e] else [])"
    using rest [THEN conjunct2, THEN conjunct2, THEN conjunct1, THEN bspec, of e] by simp
  show "h_free H h = (h', fs) \<Longrightarrow> distinct fs \<and> set fs = (if f then S else {})"
    using rest [THEN conjunct2, THEN conjunct2, THEN conjunct2] by simp
qed

lemma hash_ok_init: "hash_ok H key holds \<Longrightarrow> holds (h_init H n f) {} f" "hash_ok H key holds \<Longrightarrow> holds (h_zero H) {} False"
  by (simp_all add: hash_ok_def)

section \<open>The operations keep the chain\<close>

text \<open>An element found is taken out of the chain and put in front.\<close>

lemma unchain_ok:
  assumes inv: "filo_inv key holds (a @ e # b) s" and a: "a \<noteq> []"
  shows "\<exists>s'. filo_unchain e s = Some s' \<and> dseg (next_used s') (prev_used s') None (a @ b) None \<and>
    first_link s' = head_link (a @ b) None \<and> last_link s' = tail_link None (a @ b) \<and>
    m_size s' = m_size s \<and> has_free s' = has_free s \<and> inited s' = inited s \<and> locked s' = locked s \<and> cache s' = cache s \<and>
    live s' = live s \<and> freed s' = freed s"
proof -
  obtain a' l where a': "a = a' @ [l]" using a by (metis rev_exhaust)
  have i: "distinct (a @ e # b)" "set (a @ e # b) \<subseteq> live s" "first_link s = head_link (a @ e # b) None"
      "last_link s = tail_link None (a @ e # b)" "dseg (next_used s) (prev_used s) None (a @ e # b) None"
    using inv by (simp_all add: filo_inv_def)
  have d: "dseg (next_used s) (prev_used s) None a' (Some l)" "prev_used s l = tail_link None a'" "prev_used s e = Some l"
      "next_used s e = head_link b None" "dseg (next_used s) (prev_used s) (Some e) b None"
    using i(5) by (simp_all add: a' dseg_append)
  have ne: "l \<notin> set a'" "l \<notin> set b" "l \<noteq> e" "e \<notin> set b" "l \<in> live s" "e \<in> live s" using i(1,2) by (auto simp: a')
  have first: "first_link s = head_link (a @ b) None" using i(3) by (cases a') (simp_all add: a')
  show ?thesis
  proof (cases b)
    case Nil
    then have "Some e = last_link s" using i(4) by simp
    then show ?thesis using d ne first Nil
      by (simp add: filo_unchain_def get_prev_def set_next_def a' dseg_append)
  next
    case (Cons c b')
    have "last b \<noteq> e" using ne(4) Cons by (metis last_in_set list.distinct(1))
    then have last: "last_link s = tail_link None (a @ b)" "Some e \<noteq> last_link s" using i(4) Cons by (auto simp: tail_link_def)
    have c: "c \<notin> set b'" "c \<notin> set a'" "c \<noteq> l" "c \<noteq> e" "c \<in> live s" using i(1,2) by (auto simp: Cons a')
    have f: "first_link s = head_link (a' @ l # c # b') None" "last_link s = tail_link None (a' @ l # c # b')"
      using first last(1) by (simp_all add: a' Cons)
    show ?thesis using d ne c last(2) f Cons
      by (simp add: filo_unchain_def get_prev_def get_next_def set_next_def set_prev_def a' dseg_append)
  qed
qed

definition move_to_front :: "nat \<Rightarrow> nat list \<Rightarrow> nat list" where
  "move_to_front e xs = e # remove1 e xs"

lemma search_found:
  assumes ok: "hash_ok H key holds" and inv: "filo_inv key holds xs s" and lock: "locked s"
    and found: "h_search H (cache s) k = Some e"
  shows "e \<in> set xs \<and> key e = k \<and> (\<exists>s'. filo_search debug H k s = Some (Some e, s') \<and> filo_inv key holds (move_to_front e xs) s' \<and>
    locked s' \<and> m_size s' = m_size s \<and> has_free s' = has_free s \<and> live s' = live s \<and> freed s' = freed s)"
proof -
  have i: "holds (cache s) (set xs) (has_free s)" "distinct xs" using inv by (simp_all add: filo_inv_def)
  have e: "e \<in> set xs" "key e = k" using hash_okD(5) [OF ok i(1) found] by auto
  then obtain a b where xs: "xs = a @ e # b" "e \<notin> set a" "e \<notin> set b" using i(2) by (metis split_list distinct.simps(2) distinct_append not_distinct_conv_prefix)
  have links: "first_link s \<noteq> None" "last_link s \<noteq> None" using inv xs(1) by (auto simp: filo_inv_def head_link_def tail_link_def split: list.split)
  have "\<exists>s'. filo_search debug H k s = Some (Some e, s') \<and> filo_inv key holds (move_to_front e xs) s' \<and>
    locked s' \<and> m_size s' = m_size s \<and> has_free s' = has_free s \<and> live s' = live s \<and> freed s' = freed s"
  proof (cases a)
    case Nil
    then have "first_link s = Some e" using inv xs by (simp add: filo_inv_def)
    then show ?thesis using Nil xs found lock links inv by (simp add: filo_search_def move_to_front_def)
  next
    case (Cons f a')
    then obtain u where u: "filo_unchain e s = Some u" "dseg (next_used u) (prev_used u) None (a @ b) None"
        "first_link u = Some f" "last_link u = tail_link None (a @ b)"
        "m_size u = m_size s \<and> has_free u = has_free s \<and> inited u = inited s \<and> locked u = locked s \<and> cache u = cache s \<and> live u = live s \<and> freed u = freed s"
      using unchain_ok [of key holds a e b s] inv by (auto simp: xs(1))
    have ne: "f \<noteq> e" "f \<in> live s" "e \<in> live s" "f \<notin> set a'" "f \<notin> set b" "e \<notin> set a'"
      using inv Cons xs by (auto simp: filo_inv_def)
    have first: "first_link s = Some f" using inv Cons by (simp add: filo_inv_def xs(1))
    let ?s = "u\<lparr>prev_used := ((prev_used u)(e := None))(f := Some e), next_used := (next_used u)(e := Some f), first_link := Some e\<rparr>"
    have "filo_search debug H k s = Some (Some e, ?s)"
      using u ne first links lock found by (simp add: filo_search_def set_prev_def set_next_def)
    moreover have "filo_inv key holds (e # a @ b) ?s"
      using inv u ne xs(2,3) unfolding filo_inv_def xs(1) Cons by (auto simp: insert_commute)
    moreover have "move_to_front e xs = e # a @ b" using xs by (simp add: move_to_front_def remove1_append)
    ultimately show ?thesis using u lock by simp
  qed
  then show ?thesis using e by simp
qed

lemma search_none:
  assumes "hash_ok H key holds" "filo_inv key holds xs s" "locked s" "h_search H (cache s) k = None"
  shows "filo_search debug H k s = Some (None, s) \<and> (\<forall>e \<in> set xs. key e \<noteq> k)"
  using assms hash_okD(4) [OF assms(1), of "cache s" "set xs" "has_free s" k] by (auto simp: filo_search_def filo_inv_def)

lemma evict_ok:
  assumes ok: "hash_ok H key holds" and inv: "filo_inv key holds (xs @ [l]) s"
  shows "\<exists>s'. filo_evict H s = Some s' \<and> filo_inv key holds xs s' \<and> locked s' = locked s \<and> m_size s' = m_size s \<and>
    has_free s' = has_free s \<and> live s' = live s - (if has_free s then {l} else {}) \<and>
    freed s' = freed s @ (if has_free s then [l] else [])"
proof -
  obtain h fs where h: "h_delete H (cache s) l = (h, fs)" by fastforce
  have "holds (cache s) (set (xs @ [l])) (has_free s)" "l \<in> set (xs @ [l])" using inv by (simp_all add: filo_inv_def)
  from hash_okD(7) [OF ok this h] have h': "holds h (set (xs @ [l]) - {l}) (has_free s)" "fs = (if has_free s then [l] else [])" by auto
  have i: "l \<notin> set xs" "l \<in> live s" using inv by (auto simp: filo_inv_def)
  then have S: "set (xs @ [l]) - {l} = set xs" by auto
  show ?thesis
  proof (cases xs rule: rev_cases)
    case Nil
    then show ?thesis using inv h h' i S
      by (auto simp: filo_evict_def filo_inv_def get_prev_def free_elements_def)
  next
    case (snoc ys y)
    then have y: "y \<noteq> l" "y \<in> live s" "y \<notin> set ys" using inv by (auto simp: filo_inv_def)
    have "prev_used s l = Some y" "last_link s = Some l" using inv snoc by (simp_all add: filo_inv_def dseg_append)
    then show ?thesis using inv h h' i S y snoc
      by (auto simp: filo_evict_def filo_inv_def get_prev_def set_next_def free_elements_def dseg_append)
  qed
qed

text \<open>\<open>kept\<close>: what is left of the elements when room is made for one more; \<open>dropped\<close>: what is not.\<close>

definition kept :: "32 word \<Rightarrow> nat list \<Rightarrow> nat list" where
  "kept n xs = (if length xs = unat n then butlast xs else xs)"

definition dropped :: "32 word \<Rightarrow> nat list \<Rightarrow> nat list" where
  "dropped n xs = (if length xs = unat n then [last xs] else [])"

lemma make_room:
  assumes ok: "hash_ok H key holds" and inv: "filo_inv key holds xs s" and n: "m_size s \<noteq> 0"
  shows "\<exists>s'. (if h_records H (cache s) = m_size s then filo_evict H s else Some s) = Some s' \<and>
    filo_inv key holds (kept (m_size s) xs) s' \<and> length (kept (m_size s) xs) < unat (m_size s) \<and> locked s' = locked s \<and> m_size s' = m_size s \<and>
    has_free s' = has_free s \<and> live s' = live s - (if has_free s then set (dropped (m_size s) xs) else {}) \<and>
    freed s' = freed s @ (if has_free s then dropped (m_size s) xs else [])"
proof -
  have i: "holds (cache s) (set xs) (has_free s)" "distinct xs" "length xs \<le> unat (m_size s)" using inv by (simp_all add: filo_inv_def)
  have "unat (m_size s) < 2 ^ 32" by (rule order_less_le_trans [OF unsigned_less]) simp
  then have "unat (of_nat (length xs) :: 32 word) = length xs" using i(3) by (simp add: unat_of_nat take_bit_nat_eq_self)
  then have full: "h_records H (cache s) = m_size s \<longleftrightarrow> length xs = unat (m_size s)"
    using hash_okD(2) [OF ok i(1)] i(2) by (auto simp: distinct_card word_unat_eq_iff)
  show ?thesis
  proof (cases "length xs = unat (m_size s)")
    case True
    then have "xs \<noteq> []" using n by (auto simp: unat_eq_0 [symmetric])
    then have xs: "xs = butlast xs @ [last xs]" by simp
    have "0 < unat (m_size s)" using n by (simp add: unat_gt_0)
    with xs show ?thesis using evict_ok [OF ok, of "butlast xs" "last xs" s] inv True full \<open>xs \<noteq> []\<close> by (auto simp: kept_def dropped_def)
  next
    case False
    then show ?thesis using inv full i(3) by (simp add: kept_def dropped_def)
  qed
qed

lemma insert_ok:
  assumes ok: "hash_ok H key holds" and inv: "filo_inv key holds xs u" and el: "e \<in> live u" "e \<notin> set xs" "key e \<notin> key ` set xs"
    and room: "length xs < unat (m_size u)"
  shows "\<exists>refused s'. filo_insert H e u = Some (refused, s') \<and> m_size s' = m_size u \<and> has_free s' = has_free u \<and> locked s' = locked u \<and>
    filo_inv key holds (if refused then xs else e # xs) s' \<and> freed s' = freed u @ (if has_free u \<and> refused then [e] else [])"
proof -
  obtain r h where h: "h_insert H (cache u) e = (r, h)" by fastforce
  have holds: "holds h (if r then set xs else insert e (set xs)) (has_free u)"
    using hash_okD(6) [OF ok _ el(2) h] inv by (simp add: filo_inv_def)
  have d: "dseg (next_used u) (prev_used u) None xs None" "first_link u = head_link xs None" "last_link u = tail_link None xs"
      "distinct xs" "set xs \<subseteq> live u" "inited u" "distinct (map key xs)" "length xs \<le> unat (m_size u)"
    using inv by (simp_all add: filo_inv_def)
  show ?thesis
  proof (cases r)
    case True
    then have "set xs \<subseteq> live u - {e}" using d el by auto
    then show ?thesis using True h el holds d
      by (intro exI [of _ True], cases "has_free u") (simp_all add: filo_insert_def filo_inv_def free_elements_def)
  next
    case False
    show ?thesis
    proof (cases xs)
      case Nil
      then show ?thesis using False h el holds d room by (intro exI [of _ False]) (simp add: filo_insert_def filo_inv_def set_prev_def set_next_def)
    next
      case (Cons f ys)
      then have "f \<noteq> e" "f \<in> live u" "f \<notin> set ys" "e \<notin> set ys" "first_link u = Some f" using el d by auto
      then show ?thesis using False h el holds d Cons room by (intro exI [of _ False]) (simp add: filo_insert_def filo_inv_def set_prev_def set_next_def)
    qed
  qed
qed

lemma add_ok:
  assumes ok: "hash_ok H key holds" and inv: "filo_inv key holds xs s" and e: "e \<in> live s" "e \<notin> set xs" "key e \<notin> key ` set xs"
    and n: "m_size s \<noteq> 0"
  shows "\<exists>refused s'. filo_add H e s = Some (refused, s') \<and> m_size s' = m_size s \<and> has_free s' = has_free s \<and> locked s' = locked s \<and>
    filo_inv key holds (if refused then kept (m_size s) xs else e # kept (m_size s) xs) s' \<and>
    freed s' = freed s @ (if has_free s then dropped (m_size s) xs @ (if refused then [e] else []) else [])"
proof -
  let ?xs = "kept (m_size s) xs"
  have sub: "set ?xs \<subseteq> set xs" by (auto simp: kept_def dest: in_set_butlastD)
  obtain u where u: "(if h_records H (cache s) = m_size s then filo_evict H s else Some s) = Some u"
      "filo_inv key holds ?xs u" "length ?xs < unat (m_size s)" "locked u = locked s" "m_size u = m_size s" "has_free u = has_free s"
      "live u = live s - (if has_free s then set (dropped (m_size s) xs) else {})"
      "freed u = freed s @ (if has_free s then dropped (m_size s) xs else [])"
    using make_room [OF ok inv n] by blast
  have "set (dropped (m_size s) xs) \<subseteq> set xs"
    using inv n by (auto simp: dropped_def unat_eq_0 [symmetric] intro!: last_in_set)
  then have el: "e \<in> live u" "e \<notin> set ?xs" "key e \<notin> key ` set ?xs" using e u(7) sub by auto
  have add: "filo_add H e s = filo_insert H e u" using n u(1) by (simp add: filo_add_def)
  obtain r s' where r: "filo_insert H e u = Some (r, s')" "m_size s' = m_size u" "has_free s' = has_free u" "locked s' = locked u"
      "filo_inv key holds (if r then ?xs else e # ?xs) s'" "freed s' = freed u @ (if has_free u \<and> r then [e] else [])"
    using insert_ok [OF ok u(2) el] u(3,5) by auto
  show ?thesis by (intro exI [of _ r] exI [of _ s']) (use r u(4-8) add in \<open>cases r; cases "has_free s"; simp\<close>)
qed

lemma clear_ok:
  assumes ok: "hash_ok H key holds" and inv: "filo_inv key holds xs (s\<lparr>m_size := n\<rparr>)" and l: "locked s = b"
  shows "\<exists>s'. filo_clear H b s = Some s' \<and> filo_inv key holds [] s' \<and> m_size s' = m_size s \<and> has_free s' = has_free s \<and> locked s' = b \<and>
    mset (freed s') = mset (freed s) + (if has_free s then mset xs else {#})"
proof -
  obtain h fs where h: "h_free H (cache s) = (h, fs)" by fastforce
  have i: "holds (cache s) (set xs) (has_free s)" "inited s" "distinct xs" "set xs \<subseteq> live s" using inv by (simp_all add: filo_inv_def)
  have fs: "distinct fs" "set fs = (if has_free s then set xs else {})" using hash_okD(8) [OF ok i(1) h] by auto
  then have "mset fs = (if has_free s then mset xs else {#})" using i(3) set_eq_iff_mset_eq_distinct by fastforce
  then show ?thesis using h fs i l hash_ok_init(1) [OF ok, of "m_size s" "has_free s"]
    by (cases b) (auto simp: filo_clear_def filo_lock_def filo_unlock_def free_elements_def filo_inv_def)
qed

section \<open>A cache of the elements used last\<close>

datatype 'k filo_op = Filo_search 'k | Filo_add nat | Filo_clear | Filo_resize "32 word" | Filo_ends

datatype filo_reply = Found "nat option" | Added bool | Ends "nat option" "nat option" | Emptied

text \<open>The client locks the table around \<open>search\<close>, \<open>add\<close>, \<open>first\<close> and \<open>last\<close>; what it adds it has created.\<close>

fun filo_exec :: "bool \<Rightarrow> ('h, 'k) hash_lib \<Rightarrow> 'k filo_op \<Rightarrow> 'h hash_filo \<Rightarrow> (filo_reply \<times> 'h hash_filo) option" where
  "filo_exec debug H (Filo_search k) s = do {
     s \<leftarrow> filo_lock s; (r, s) \<leftarrow> filo_search debug H k s; s \<leftarrow> filo_unlock s; Some (Found r, s) }"
| "filo_exec debug H (Filo_add e) s = do {
     s \<leftarrow> filo_lock (s\<lparr>live := insert e (live s)\<rparr>); (r, s) \<leftarrow> filo_add H e s; s \<leftarrow> filo_unlock s; Some (Added r, s) }"
| "filo_exec debug H Filo_clear s = do { s \<leftarrow> filo_clear H False s; Some (Emptied, s) }"
| "filo_exec debug H (Filo_resize n) s = do { s \<leftarrow> filo_resize H n s; Some (Emptied, s) }"
| "filo_exec debug H Filo_ends s = do {
     s \<leftarrow> filo_lock s; a \<leftarrow> filo_first debug s; b \<leftarrow> filo_last debug s; s \<leftarrow> filo_unlock s; Some (Ends a b, s) }"

fun filo_run :: "bool \<Rightarrow> ('h, 'k) hash_lib \<Rightarrow> 'k filo_op list \<Rightarrow> 'h hash_filo \<Rightarrow> (filo_reply list \<times> 'h hash_filo) option" where
  "filo_run debug H [] s = Some ([], s)"
| "filo_run debug H (op # ops) s = do { (r, s) \<leftarrow> filo_exec debug H op s; (rs, s) \<leftarrow> filo_run debug H ops s; Some (r # rs, s) }"

text \<open>Only new elements are added, and only when a search finds none with their key.\<close>

fun filo_fresh :: "bool \<Rightarrow> ('h, 'k) hash_lib \<Rightarrow> (nat \<Rightarrow> 'k) \<Rightarrow> 'k filo_op list \<Rightarrow> 'h hash_filo \<Rightarrow> bool" where
  "filo_fresh debug H key [] s = True"
| "filo_fresh debug H key (op # ops) s =
     ((case op of Filo_add e \<Rightarrow> e \<notin> live s \<and> h_search H (cache s) (key e) = None | _ \<Rightarrow> True) \<and>
      (case filo_exec debug H op s of None \<Rightarrow> True | Some (r, s) \<Rightarrow> filo_fresh debug H key ops s))"

text \<open>The same on a list of at most \<open>n\<close> elements; \<open>refused\<close> says that an insertion fails. Also the elements given up.\<close>

fun lru_exec :: "(nat \<Rightarrow> 'k) \<Rightarrow> bool \<Rightarrow> 'k filo_op \<Rightarrow> 32 word \<times> nat list \<Rightarrow> filo_reply \<times> nat list \<times> 32 word \<times> nat list" where
  "lru_exec key refused (Filo_search k) (n, xs) =
     (case filter (\<lambda>e. key e = k) xs of [] \<Rightarrow> (Found None, [], n, xs) | e # _ \<Rightarrow> (Found (Some e), [], n, move_to_front e xs))"
| "lru_exec key refused (Filo_add e) (n, xs) =
     (if n = 0 then (Added True, [], n, xs)
      else if refused then (Added True, dropped n xs @ [e], n, kept n xs)
      else (Added False, dropped n xs, n, e # kept n xs))"
| "lru_exec key refused Filo_clear (n, xs) = (Emptied, xs, n, [])"
| "lru_exec key refused (Filo_resize m) (n, xs) = (Emptied, xs, m, [])"
| "lru_exec key refused Filo_ends (n, xs) = (Ends (head_link xs None) (tail_link None xs), [], n, xs)"

fun lru_run :: "(nat \<Rightarrow> 'k) \<Rightarrow> bool list \<Rightarrow> 'k filo_op list \<Rightarrow> 32 word \<times> nat list \<Rightarrow> filo_reply list \<times> nat list \<times> 32 word \<times> nat list" where
  "lru_run key (refused # refs) (op # ops) c =
     (case lru_exec key refused op c of (r, gone, c) \<Rightarrow>
        case lru_run key refs ops c of (rs, gone', c) \<Rightarrow> (r # rs, gone @ gone', c))"
| "lru_run key refs ops c = ([], [], c)"

definition filo_ok :: "(nat \<Rightarrow> 'k) \<Rightarrow> ('h \<Rightarrow> nat set \<Rightarrow> bool \<Rightarrow> bool) \<Rightarrow> nat list \<Rightarrow> 'h hash_filo \<Rightarrow> bool" where
  "filo_ok key holds xs s \<longleftrightarrow> filo_inv key holds xs s \<and> \<not> locked s"

lemma filo_inv_update [simp]:
  "filo_inv key holds xs (locked_update f s) = filo_inv key holds xs s" "filo_inv key holds xs (freed_update g s) = filo_inv key holds xs s"
  by (simp_all add: filo_inv_def)

lemma filo_inv_live: "filo_inv key holds xs s \<Longrightarrow> filo_inv key holds xs (s\<lparr>live := insert e (live s)\<rparr>)"
  by (auto simp: filo_inv_def)

lemma filo_locks:
  "filo_ok key holds xs s \<Longrightarrow> filo_lock s = Some (s\<lparr>locked := True\<rparr>) \<and> filo_inv key holds xs (s\<lparr>locked := True\<rparr>)"
  "filo_inv key holds xs s \<Longrightarrow> locked s \<Longrightarrow> filo_unlock s = Some (s\<lparr>locked := False\<rparr>) \<and> filo_ok key holds xs (s\<lparr>locked := False\<rparr>)"
  by (auto simp: filo_ok_def filo_lock_def filo_unlock_def filo_inv_def)

lemma filter_key:
  "distinct (map key xs) \<Longrightarrow> e \<in> set xs \<Longrightarrow> filter (\<lambda>x. key x = key e) xs = [e]"
  by (induction xs) (auto simp: filter_empty_conv image_iff dest: sym)

definition simulates ::
  "(nat \<Rightarrow> 'k) \<Rightarrow> ('h \<Rightarrow> nat set \<Rightarrow> bool \<Rightarrow> bool) \<Rightarrow> bool \<Rightarrow> 'k filo_op \<Rightarrow> nat list \<Rightarrow> 'h hash_filo \<Rightarrow> filo_reply \<Rightarrow> 'h hash_filo \<Rightarrow> bool" where
  "simulates key holds refused op xs s r s' \<longleftrightarrow>
     (\<exists>gone ys. lru_exec key refused op (m_size s, xs) = (r, gone, m_size s', ys) \<and> filo_ok key holds ys s' \<and> has_free s' = has_free s \<and>
       mset (freed s') = mset (freed s) + (if has_free s then mset gone else {#}))"

lemma search_simulates:
  assumes ok: "hash_ok H key holds" and inv: "filo_ok key holds xs s"
  shows "\<exists>r s'. filo_exec debug H (Filo_search k) s = Some (r, s') \<and> simulates key holds refused (Filo_search k) xs s r s'"
proof -
  let ?s = "s\<lparr>locked := True\<rparr>"
  have l: "filo_lock s = Some ?s" "filo_inv key holds xs ?s" "locked ?s" using filo_locks(1) [OF inv] by auto
  show ?thesis
  proof (cases "h_search H (cache ?s) k")
    case None
    note n = search_none [OF ok l(2,3) None, of debug]
    then have "filter (\<lambda>e. key e = k) xs = []" by (simp add: filter_empty_conv)
    then show ?thesis using l n inv filo_locks(2) [OF l(2,3)] by (simp add: simulates_def filo_ok_def)
  next
    case (Some e)
    obtain s' where s': "e \<in> set xs" "key e = k" "filo_search debug H k ?s = Some (Some e, s')" "filo_inv key holds (move_to_front e xs) s'" "locked s'"
        "m_size s' = m_size s" "has_free s' = has_free s" "freed s' = freed s"
      using search_found [OF ok l(2,3) Some, of debug] by auto
    have "filter (\<lambda>x. key x = k) xs = [e]" using filter_key [of key xs e] s'(1,2) inv by (simp add: filo_ok_def filo_inv_def)
    then show ?thesis using l s' filo_locks(2) [OF s'(4,5)] by (simp add: simulates_def)
  qed
qed

lemma add_simulates:
  assumes ok: "hash_ok H key holds" and inv: "filo_ok key holds xs s"
    and e: "e \<notin> live s" "h_search H (cache s) (key e) = None"
  shows "\<exists>refused r s'. filo_exec debug H (Filo_add e) s = Some (r, s') \<and> simulates key holds refused (Filo_add e) xs s r s'"
proof -
  let ?s = "s\<lparr>live := insert e (live s), locked := True\<rparr>"
  have i: "filo_inv key holds xs s" "\<not> locked s" "inited s" "set xs \<subseteq> live s" "holds (cache s) (set xs) (has_free s)"
    using inv by (simp_all add: filo_ok_def filo_inv_def)
  have lock: "filo_lock (s\<lparr>live := insert e (live s)\<rparr>) = Some ?s" using i by (simp add: filo_lock_def)
  have l: "filo_inv key holds xs ?s" using filo_inv_live [OF i(1), of e] by simp
  have same: "m_size ?s = m_size s" "has_free ?s = has_free s" "freed ?s = freed s" by simp_all
  show ?thesis
  proof (cases "m_size s = 0")
    case True
    then show ?thesis using lock filo_locks(2) [OF l] l by (simp add: simulates_def filo_add_def)
  next
    case False
    have "e \<in> live ?s" "e \<notin> set xs" "m_size ?s \<noteq> 0" using e i(4) False by auto
    moreover have "key e \<notin> key ` set xs" using hash_okD(4) [OF ok i(5) e(2)] by (metis imageE)
    ultimately obtain r s' where r: "filo_add H e ?s = Some (r, s')" "m_size s' = m_size s" "has_free s' = has_free s" "locked s'"
        "filo_inv key holds (if r then kept (m_size s) xs else e # kept (m_size s) xs) s'"
        "freed s' = freed s @ (if has_free s then dropped (m_size s) xs @ (if r then [e] else []) else [])"
      using add_ok [OF ok l, of e, unfolded same] by auto
    show ?thesis
      by (intro exI [of _ r] exI [of _ "Added r"] exI [of _ "s'\<lparr>locked := False\<rparr>"])
        (use r lock False filo_locks(2) [OF r(5,4)] in \<open>cases r; simp add: simulates_def\<close>)
  qed
qed

lemma clear_simulates:
  assumes ok: "hash_ok H key holds" and inv: "filo_ok key holds xs s"
  shows "\<exists>r s'. filo_exec debug H Filo_clear s = Some (r, s') \<and> simulates key holds refused Filo_clear xs s r s'"
    "\<exists>r s'. filo_exec debug H (Filo_resize n) s = Some (r, s') \<and> simulates key holds refused (Filo_resize n) xs s r s'"
proof -
  have i: "filo_inv key holds xs s" "\<not> locked s" using inv by (simp_all add: filo_ok_def)
  obtain s' where "filo_clear H False s = Some s'" "filo_inv key holds [] s'" "m_size s' = m_size s" "has_free s' = has_free s" "\<not> locked s'"
      "mset (freed s') = mset (freed s) + (if has_free s then mset xs else {#})"
    using clear_ok [OF ok, where xs = xs and s = s and n = "m_size s" and b = False] i by auto
  then show "\<exists>r s'. filo_exec debug H Filo_clear s = Some (r, s') \<and> simulates key holds refused Filo_clear xs s r s'"
    by (simp add: simulates_def filo_ok_def)
  let ?s = "s\<lparr>locked := True, m_size := n\<rparr>"
  have "filo_inv key holds xs (?s\<lparr>m_size := m_size s\<rparr>)" using i(1) by (simp add: filo_inv_def)
  then obtain s' where s': "filo_clear H True ?s = Some s'" "filo_inv key holds [] s'" "m_size s' = n" "has_free s' = has_free s" "locked s'"
      "mset (freed s') = mset (freed s) + (if has_free s then mset xs else {#})"
    using clear_ok [OF ok, where xs = xs and s = ?s and n = "m_size s" and b = True] by auto
  show "\<exists>r s'. filo_exec debug H (Filo_resize n) s = Some (r, s') \<and> simulates key holds refused (Filo_resize n) xs s r s'"
    using s' filo_locks(1) [OF inv] filo_locks(2) [OF s'(2,5)] by (simp add: simulates_def filo_resize_def)
qed

lemma exec_simulates:
  assumes ok: "hash_ok H key holds" and inv: "filo_ok key holds xs s" and fresh: "filo_fresh debug H key (op # ops) s"
  shows "\<exists>refused r s'. filo_exec debug H op s = Some (r, s') \<and> simulates key holds refused op xs s r s'"
proof (cases op)
  case (Filo_add e)
  then show ?thesis using add_simulates [OF ok inv] fresh by simp
next
  case Filo_ends
  then show ?thesis using filo_locks(1) [OF inv] filo_locks(2) [of key holds xs "s\<lparr>locked := True\<rparr>"] inv
    by (simp add: simulates_def filo_first_def filo_last_def) (simp add: filo_inv_def filo_ok_def)
qed (use search_simulates [OF ok inv] clear_simulates [OF ok inv] in blast)+

lemma run_simulates:
  assumes ok: "hash_ok H key holds"
  shows "filo_ok key holds xs s \<Longrightarrow> filo_fresh debug H key ops s \<Longrightarrow>
    \<exists>replies s' refs gone ys. filo_run debug H ops s = Some (replies, s') \<and> length refs = length ops \<and>
      lru_run key refs ops (m_size s, xs) = (replies, gone, m_size s', ys) \<and> filo_ok key holds ys s' \<and> has_free s' = has_free s \<and>
      mset (freed s') = mset (freed s) + (if has_free s then mset gone else {#})"
proof (induction ops arbitrary: xs s)
  case Nil
  then show ?case by simp
next
  case (Cons op ops)
  obtain b r u where u: "filo_exec debug H op s = Some (r, u)" "simulates key holds b op xs s r u"
    using exec_simulates [OF ok Cons.prems] by blast
  from u(2) obtain gone ys where ys: "lru_exec key b op (m_size s, xs) = (r, gone, m_size u, ys)" "filo_ok key holds ys u"
      "has_free u = has_free s" "mset (freed u) = mset (freed s) + (if has_free s then mset gone else {#})"
    unfolding simulates_def by blast
  have "filo_fresh debug H key ops u" using Cons.prems(2) u(1) by simp
  from Cons.IH [OF ys(2) this] obtain replies s' refs gone' zs where
    r: "filo_run debug H ops u = Some (replies, s')" "length refs = length ops" "lru_run key refs ops (m_size u, ys) = (replies, gone', m_size s', zs)"
      "filo_ok key holds zs s'" "has_free s' = has_free u" "mset (freed s') = mset (freed u) + (if has_free u then mset gone' else {#})"
    by blast
  show ?case
    by (intro exI [of _ "r # replies"] exI [of _ s'] exI [of _ "b # refs"] exI [of _ "gone @ gone'"] exI [of _ zs])
      (use u(1) ys r in \<open>simp del: filo_exec.simps lru_exec.simps\<close>)
qed

lemma first_clear:
  assumes "hash_ok H key holds"
  shows "\<exists>s. filo_clear H False (hash_filo_new H n f others) = Some s \<and> filo_ok key holds [] s \<and> m_size s = n \<and> has_free s = f \<and> freed s = []"
proof -
  obtain h fs where h: "h_free H (h_zero H) = (h, fs)" by fastforce
  then have "fs = []" using hash_okD(8) [OF assms hash_ok_init(2) [OF assms] h] by simp
  then show ?thesis using h hash_ok_init(1) [OF assms, of n f]
    by (simp add: filo_clear_def hash_filo_new_def filo_lock_def filo_unlock_def free_elements_def filo_ok_def filo_inv_def)
qed

lemma destroy_ok:
  assumes ok: "hash_ok H key holds" and inv: "filo_ok key holds xs s"
  shows "\<exists>s'. filo_destroy H s = Some s' \<and> mset (freed s') = mset (freed s) + (if has_free s then mset xs else {#})"
proof -
  obtain h fs where h: "h_free H (cache s) = (h, fs)" by fastforce
  have i: "holds (cache s) (set xs) (has_free s)" "inited s" "distinct xs" "set xs \<subseteq> live s" "\<not> locked s"
    using inv by (simp_all add: filo_ok_def filo_inv_def)
  have fs: "distinct fs" "set fs = (if has_free s then set xs else {})" using hash_okD(8) [OF ok i(1) h] by auto
  then have "mset fs = (if has_free s then mset xs else {#})" using i(3) set_eq_iff_mset_eq_distinct by fastforce
  then show ?thesis using h fs i hash_okD(3) [OF ok i(1)]
    by (cases "h_buffer H (cache s)") (auto simp: filo_destroy_def free_elements_def)
qed

text \<open>C36. Over every hash table that meets its contract, any sequence of operations after the first \<open>clear\<close> stays inside
  the elements that exist, fails no assertion, and answers as a list of at most \<open>size\<close> elements does in which an
  element found or added comes to the front and the last one makes room: the element used longest ago. The
  elements dropped, refused or cleared are freed, each once, and the destructor frees the others.\<close>

theorem filo_refines_lru:
  assumes "hash_ok H key holds" "filo_clear H False (hash_filo_new H n f others) = Some s0" "filo_fresh debug H key ops s0"
  shows "\<exists>replies s refused gone xs s'. filo_run debug H ops s0 = Some (replies, s) \<and>
    length refused = length ops \<and> lru_run key refused ops (n, []) = (replies, gone, filo_size s, xs) \<and>
    first_link s = head_link xs None \<and> last_link s = tail_link None xs \<and> distinct xs \<and> length xs \<le> unat (filo_size s) \<and>
    mset (freed s) = (if f then mset gone else {#}) \<and>
    filo_destroy H s = Some s' \<and> mset (freed s') = (if f then mset gone + mset xs else {#})"
proof -
  have s0: "filo_ok key holds [] s0" "m_size s0 = n" "has_free s0 = f" "freed s0 = []"
    using first_clear [OF assms(1), of n f others] assms(2) by auto
  obtain replies s refs gone xs where r: "filo_run debug H ops s0 = Some (replies, s)" "length refs = length ops"
      "lru_run key refs ops (m_size s0, []) = (replies, gone, m_size s, xs)" "filo_ok key holds xs s" "has_free s = has_free s0"
      "mset (freed s) = mset (freed s0) + (if has_free s0 then mset gone else {#})"
    using run_simulates [OF assms(1) s0(1) assms(3)] by blast
  obtain s' where s': "filo_destroy H s = Some s'" "mset (freed s') = mset (freed s) + (if has_free s then mset xs else {#})"
    using destroy_ok [OF assms(1) r(4)] by blast
  have x: "first_link s = head_link xs None" "last_link s = tail_link None xs" "distinct xs" "length xs \<le> unat (m_size s)"
    using r(4) by (simp_all add: filo_ok_def filo_inv_def)
  show ?thesis
    by (intro exI [of _ replies] exI [of _ s] exI [of _ refs] exI [of _ gone] exI [of _ xs] exI [of _ s'])
      (use r s' s0 x in \<open>simp add: filo_size_def\<close>)
qed

section \<open>A table that meets the contract\<close>

definition list_hash :: "(nat \<Rightarrow> 'k) \<Rightarrow> (nat list \<times> bool, 'k) hash_lib" where
  "list_hash key =
     \<lparr>h_zero = ([], False), h_init = (\<lambda>_ f. ([], f)), h_search = (\<lambda>(es, f) k. List.find (\<lambda>e. key e = k) es),
      h_insert = (\<lambda>(es, f) e. (False, (e # es, f))), h_delete = (\<lambda>(es, f) e. ((remove1 e es, f), if f then [e] else [])),
      h_free = (\<lambda>(es, f). (([], f), if f then es else [])), h_records = (\<lambda>(es, f). of_nat (length es)),
      h_buffer = (\<lambda>(es, f). es \<noteq> [])\<rparr>"

fun list_holds :: "nat list \<times> bool \<Rightarrow> nat set \<Rightarrow> bool \<Rightarrow> bool" where
  "list_holds (es, f) S g \<longleftrightarrow> distinct es \<and> set es = S \<and> f = g"

lemma find_key: "case List.find (\<lambda>e. key e = k) es of None \<Rightarrow> \<forall>e \<in> set es. key e \<noteq> k | Some e \<Rightarrow> e \<in> set es \<and> key e = k"
  by (induction es) (auto split: option.splits)

lemma list_hash_ok: "hash_ok (list_hash key) key list_holds"
  unfolding hash_ok_def
proof (intro conjI allI impI)
  fix h S f assume "list_holds h S f"
  then obtain es where h: "h = (es, f)" "distinct es" "set es = S" by (cases h) auto
  show "case h_search (list_hash key) h k of None \<Rightarrow> \<forall>e \<in> S. key e \<noteq> k | Some e \<Rightarrow> e \<in> S \<and> key e = k" for k
    using find_key [where key = key and k = k and es = es] h by (auto simp: list_hash_def split: option.splits)
qed (auto simp: list_hash_def distinct_card)

text \<open>A cache of two: the first element is used again, so the third one drops the second.\<close>

lemma filo_refines_lru_witness:
  "\<exists>replies s refused gone xs. filo_run True (list_hash id) [Filo_add 1, Filo_add 2, Filo_search 1, Filo_add 3, Filo_search 2, Filo_ends]
      (the (filo_clear (list_hash id) False (hash_filo_new (list_hash id) 2 True {}))) = Some (replies, s) \<and>
    replies = [Added False, Added False, Found (Some 1), Added False, Found None, Ends (Some 3) (Some 1)] \<and>
    lru_run id refused [Filo_add 1, Filo_add 2, Filo_search 1, Filo_add 3, Filo_search 2, Filo_ends] (2, []) = (replies, gone, filo_size s, xs) \<and>
    mset gone = {#2#}"
proof -
  let ?H = "list_hash (id :: nat \<Rightarrow> nat)"
  let ?ops = "[Filo_add 1, Filo_add 2, Filo_search 1, Filo_add 3, Filo_search 2, Filo_ends]"
  obtain s0 where s0: "filo_clear ?H False (hash_filo_new ?H 2 True {}) = Some s0"
    using first_clear [OF list_hash_ok] by blast
  note defs = filo_clear_def hash_filo_new_def filo_lock_def filo_unlock_def free_elements_def list_hash_def filo_search_def filo_add_def
    filo_insert_def filo_evict_def filo_unchain_def get_prev_def get_next_def set_prev_def set_next_def filo_first_def filo_last_def
  have s0': "s0 = the (filo_clear ?H False (hash_filo_new ?H 2 True {}))" using s0 by simp
  have fresh: "filo_fresh True ?H id ?ops s0" unfolding s0' by (simp add: defs)
  have run: "\<exists>s. filo_run True ?H ?ops s0 =
      Some ([Added False, Added False, Found (Some 1), Added False, Found None, Ends (Some 3) (Some 1)], s) \<and> freed s = [2]"
    unfolding s0' by (simp add: defs)
  obtain replies s refused gone xs where "filo_run True ?H ?ops s0 = Some (replies, s)" "mset (freed s) = mset gone"
      "lru_run id refused ?ops (2, []) = (replies, gone, filo_size s, xs)"
    using filo_refines_lru [OF list_hash_ok s0 fresh] by auto
  then show ?thesis using run unfolding s0' by (metis mset_single_iff_right option.inject prod.inject)
qed

section \<open>Two gaps\<close>

text \<open>\<open>resize\<close> takes a mutex that only the first \<open>clear\<close> initialises.\<close>

lemma resize_before_clear: "filo_resize H m (hash_filo_new H n f others) = None"
  by (simp add: filo_resize_def filo_lock_def hash_filo_new_def)

text \<open>\<open>add\<close> answers 1 with the entry freed when the insertion fails, and with the entry kept when the size is 0.\<close>

lemma add_refused:
  "m_size s = 0 \<Longrightarrow> filo_add H e s = Some (True, s)"
  "h_insert H (cache s) e = (True, h) \<Longrightarrow> has_free s \<Longrightarrow> e \<in> live s \<Longrightarrow>
     filo_insert H e s = Some (True, s\<lparr>cache := h, live := live s - {e}, freed := freed s @ [e]\<rparr>)"
  by (simp_all add: filo_add_def filo_insert_def free_elements_def)

end
