(* ===== verification/Charset_Map.thy ===== *)
theory Charset_Map
  imports Byte_Order "HOL-Library.Multiset"
begin

text \<open>
  \<open>Charset_collation_map_st\<close> of \<open>private/charset_collations.h\<close>: at most eight pairs of a character set and the
  collation it stands for, sorted by the number of the character set. Elements are slots of an array, those from
  \<open>m_count\<close> on with any contents. None is a failed assertion (\<open>debug\<close> says whether there are assertions) or an access
  outside a buffer. \<open>qsort\<close> sorts stably here: no two elements compare equal. \<open>get_charset\<close> is a parameter.
\<close>

section \<open>Elements\<close>

definition MY_CS_CHARACTER_SET_NAME_SIZE :: nat where "MY_CS_CHARACTER_SET_NAME_SIZE = 32"
definition MY_CS_COLLATION_NAME_SIZE :: nat where "MY_CS_COLLATION_NAME_SIZE = 64"
definition MY_CS_PRIMARY :: "32 word" where "MY_CS_PRIMARY = 32"
definition CHARACTER_SET_COLLATIONS_USED :: "32 word" where "CHARACTER_SET_COLLATIONS_USED = 16"

record charset_info =
  cs_number :: "32 word"
  cs_state :: "32 word"
  cs_name :: string
  coll_name :: string

record elem_st =
  m_from :: charset_info
  m_to :: charset_info

definition elem_new :: "charset_info \<Rightarrow> charset_info \<Rightarrow> elem_st" where
  "elem_new from to = \<lparr>m_from = from, m_to = to\<rparr>"

definition elem_set_to :: "charset_info \<Rightarrow> elem_st \<Rightarrow> elem_st" where
  "elem_set_to cl e = e\<lparr>m_to := cl\<rparr>"

definition text_size_max :: nat where
  "text_size_max = MY_CS_CHARACTER_SET_NAME_SIZE + 1 + MY_CS_COLLATION_NAME_SIZE"

text \<open>A write of some characters into a buffer; gives the position behind them.\<close>

definition put_text :: "string \<Rightarrow> nat \<times> string \<Rightarrow> (nat \<times> string) option" where
  "put_text str w =
     (case w of (dst, buf) \<Rightarrow>
        if dst + length str \<le> length buf then Some (dst + length str, take dst buf @ str @ drop (dst + length str) buf) else None)"

definition elem_print :: "elem_st \<Rightarrow> nat \<times> string \<Rightarrow> (nat \<times> string) option" where
  "elem_print e w = do { w \<leftarrow> put_text (cs_name (m_from e)) w; w \<leftarrow> put_text ''='' w; put_text (coll_name (m_to e)) w }"

definition elem_cmp_by_charset_id :: "elem_st \<Rightarrow> elem_st \<Rightarrow> int" where
  "elem_cmp_by_charset_id e rhs =
     (if cs_number (m_from e) < cs_number (m_from rhs) then -1
      else if cs_number (m_from e) > cs_number (m_from rhs) then 1 else 0)"

section \<open>The map\<close>

record charset_map =
  m_element :: "elem_st list"
  m_count :: "32 word"
  m_version :: "32 word"

definition map_init :: "charset_map \<Rightarrow> charset_map" where
  "map_init m = m\<lparr>m_count := 0, m_version := 0\<rparr>"

definition map_count :: "charset_map \<Rightarrow> 32 word" where "map_count m = m_count m"

definition map_version :: "charset_map \<Rightarrow> 32 word" where "map_version m = m_version m"

definition map_set :: "charset_map \<Rightarrow> 32 word \<Rightarrow> charset_map \<Rightarrow> charset_map" where
  "map_set rhs version_increment m = rhs\<lparr>m_version := m_version m + version_increment\<rparr>"

definition map_at :: "bool \<Rightarrow> 32 word \<Rightarrow> charset_map \<Rightarrow> elem_st option" where
  "map_at debug pos m =
     (if debug \<and> \<not> pos < m_count m then None
      else if unat pos < length (m_element m) then Some (m_element m ! unat pos) else None)"

text \<open>\<open>qsort\<close> with \<open>cmp_by_charset_id\<close>: insertion by comparisons.\<close>

fun insert_by_cmp :: "(elem_st \<Rightarrow> elem_st \<Rightarrow> int) \<Rightarrow> elem_st \<Rightarrow> elem_st list \<Rightarrow> elem_st list" where
  "insert_by_cmp cmp e [] = [e]"
| "insert_by_cmp cmp e (x # xs) = (if cmp e x \<le> 0 then e # x # xs else x # insert_by_cmp cmp e xs)"

definition qsort_by_cmp :: "(elem_st \<Rightarrow> elem_st \<Rightarrow> int) \<Rightarrow> elem_st list \<Rightarrow> elem_st list" where
  "qsort_by_cmp cmp xs = foldr (insert_by_cmp cmp) xs []"

definition map_sort :: "charset_map \<Rightarrow> charset_map" where
  "map_sort m =
     (let n = unat (m_count m) in m\<lparr>m_element := qsort_by_cmp elem_cmp_by_charset_id (take n (m_element m)) @ drop n (m_element m)\<rparr>)"

text \<open>The loop of \<open>find_elem_by_charset_id\<close> from \<open>first = lo\<close>, \<open>last = hi\<close> on, for \<open>0 \<le> lo\<close>; gives the index of the element.\<close>

function find_loop :: "bool \<Rightarrow> 32 word \<Rightarrow> charset_map \<Rightarrow> int \<Rightarrow> int \<Rightarrow> nat option option" where
  "find_loop debug i m lo hi =
     (if lo \<le> hi then
        let middle = (lo + hi) div 2 in
        if debug \<and> (middle < 0 \<or> \<not> middle < sint (m_count m)) then None
        else if middle < 0 \<or> int (length (m_element m)) \<le> middle then None
        else
          let middle_id = cs_number (m_from (m_element m ! nat middle)) in
          if middle_id = i then Some (Some (nat middle))
          else if middle_id < i then find_loop debug i m (middle + 1) hi
          else find_loop debug i m lo (middle - 1)
      else Some None)"
  by pat_completeness auto

termination
  by (relation "measure (\<lambda>(debug, i, m, lo, hi). nat (hi - lo + 1))") auto

declare find_loop.simps [simp del]

definition find_elem_by_charset_id :: "bool \<Rightarrow> 32 word \<Rightarrow> charset_map \<Rightarrow> nat option option" where
  "find_elem_by_charset_id debug i m =
     (if m_count m = 0 then Some None else find_loop debug i m 0 (sint (m_count m) - 1))"

definition is_primary :: "charset_info \<Rightarrow> bool" where
  "is_primary cs \<longleftrightarrow> cs_state cs AND MY_CS_PRIMARY \<noteq> 0"

definition map_insert :: "bool \<Rightarrow> elem_st \<Rightarrow> charset_map \<Rightarrow> (bool \<times> charset_map) option" where
  "map_insert debug e m =
     (if debug \<and> \<not> is_primary (m_from e) then None
      else if m_count m \<ge> of_nat (length (m_element m)) then Some (True, m)
      else
        let m = m\<lparr>m_element := (m_element m)[unat (m_count m) := e]\<rparr>;
            m = m\<lparr>m_count := m_count m + 1\<rparr>
        in Some (False, map_sort m))"

definition insert_or_replace :: "bool \<Rightarrow> elem_st \<Rightarrow> charset_map \<Rightarrow> (bool \<times> charset_map) option" where
  "insert_or_replace debug e m =
     (if debug \<and> \<not> is_primary (m_from e) then None
      else do {
        found \<leftarrow> find_elem_by_charset_id debug (cs_number (m_from e)) m;
        case found of
          Some i \<Rightarrow> Some (False, m\<lparr>m_element := (m_element m)[i := elem_set_to (m_to e) (m_element m ! i)]\<rparr>)
        | None \<Rightarrow> map_insert debug e m })"

text \<open>Also the flags of \<open>used\<close>.\<close>

definition get_collation_for_charset :: "bool \<Rightarrow> charset_info \<Rightarrow> charset_map \<Rightarrow> 32 word \<Rightarrow> (charset_info \<times> 32 word) option" where
  "get_collation_for_charset debug cs m used =
     (if debug \<and> \<not> is_primary cs then None
      else do {
        elem \<leftarrow> find_elem_by_charset_id debug (cs_number cs) m;
        let used = used OR CHARACTER_SET_COLLATIONS_USED;
        case elem of Some i \<Rightarrow> Some (m_to (m_element m ! i), used) | None \<Rightarrow> Some (cs, used) })"

section \<open>Text and binary form\<close>

definition text_format_nbytes_needed :: "charset_map \<Rightarrow> nat" where
  "text_format_nbytes_needed m = (text_size_max + 1) * unat (m_count m)"

text \<open>The loop of \<open>print\<close>; \<open>dst\<close> is at most \<open>end\<close>.\<close>

fun print_loop :: "nat \<Rightarrow> bool \<Rightarrow> elem_st list \<Rightarrow> nat \<times> string \<Rightarrow> (nat \<times> string) option" where
  "print_loop nbytes first [] w = Some w"
| "print_loop nbytes first (e # es) w =
     (if fst w \<le> nbytes \<and> text_size_max + 1 > nbytes - fst w then Some w
      else do {
        w \<leftarrow> (if \<not> first then put_text '','' w else Some w);
        w \<leftarrow> elem_print e w;
        print_loop nbytes False es w })"

definition map_print :: "nat \<Rightarrow> string \<Rightarrow> charset_map \<Rightarrow> (nat \<times> string) option" where
  "map_print nbytes_available dst m = print_loop nbytes_available True (take (unat (m_count m)) (m_element m)) (0, dst)"

definition binary_size_max :: "charset_map \<Rightarrow> nat" where
  "binary_size_max m = 1 + 4 * length (m_element m)"

definition store2 :: "nat \<Rightarrow> 32 word \<Rightarrow> byte list \<Rightarrow> byte list option" where
  "store2 dst v buf =
     (if dst + 2 \<le> length buf
      then let T = x64_int2store (\<lambda>i. buf ! (dst + i)) (ucast (ucast v :: 16 word)) in Some (buf[dst := T 0, dst + 1 := T 1]) else None)"

definition load2 :: "nat \<Rightarrow> byte list \<Rightarrow> 32 word option" where
  "load2 src buf = (if src + 2 \<le> length buf then Some (ucast (x64_uint2korr (\<lambda>i. buf ! (src + i)))) else None)"

fun to_binary_loop :: "elem_st list \<Rightarrow> nat \<Rightarrow> byte list \<Rightarrow> (nat \<times> byte list) option" where
  "to_binary_loop [] dst buf = Some (dst, buf)"
| "to_binary_loop (e # es) dst buf = do {
     buf \<leftarrow> store2 dst (cs_number (m_from e)) buf;
     buf \<leftarrow> store2 (dst + 2) (cs_number (m_to e)) buf;
     to_binary_loop es (dst + 4) buf }"

definition to_binary :: "byte list \<Rightarrow> charset_map \<Rightarrow> (nat \<times> byte list) option" where
  "to_binary buf m =
     (if buf = [] then None
      else to_binary_loop (take (unat (m_count m)) (m_element m)) 1 (buf[0 := ucast (m_count m)]))"

fun from_binary_loop :: "bool \<Rightarrow> (32 word \<Rightarrow> charset_info option) \<Rightarrow> nat \<Rightarrow> nat \<Rightarrow> byte list \<Rightarrow> charset_map \<Rightarrow> (nat \<times> charset_map) option" where
  "from_binary_loop debug get_charset 0 src buf m = Some (src, m)"
| "from_binary_loop debug get_charset (Suc n) src buf m = do {
     a \<leftarrow> load2 src buf;
     b \<leftarrow> load2 (src + 2) buf;
     m \<leftarrow> (case (get_charset a, get_charset b) of
        (Some cs, Some cl) \<Rightarrow> map_option snd (insert_or_replace debug (elem_new cs cl) m)
      | _ \<Rightarrow> Some m);
     from_binary_loop debug get_charset n (src + 4) buf m }"

definition from_binary :: "bool \<Rightarrow> (32 word \<Rightarrow> charset_info option) \<Rightarrow> byte list \<Rightarrow> nat \<Rightarrow> charset_map \<Rightarrow> (nat \<times> charset_map) option" where
  "from_binary debug get_charset src srclen m =
     (let m = map_init m in
      if srclen = 0 then Some (0, m)
      else case src of
        [] \<Rightarrow> None
      | c # _ \<Rightarrow> if srclen < 1 + 4 * unat c then Some (0, m) else from_binary_loop debug get_charset (unat c) 1 src m)"

section \<open>A finite map\<close>

abbreviation from_id :: "elem_st \<Rightarrow> 32 word" where "from_id e \<equiv> cs_number (m_from e)"

definition elems :: "charset_map \<Rightarrow> elem_st list" where
  "elems m = take (unat (m_count m)) (m_element m)"

definition map_ok :: "charset_map \<Rightarrow> bool" where
  "map_ok m \<longleftrightarrow> length (m_element m) = 8 \<and> unat (m_count m) \<le> 8 \<and> sorted_wrt (<) (List.map from_id (elems m))"

definition map_abs :: "charset_map \<Rightarrow> 32 word \<rightharpoonup> charset_info" where
  "map_abs m = map_of (List.map (\<lambda>e. (from_id e, m_to e)) (elems m))"

lemma elems_nth: "map_ok m \<Longrightarrow> k < length (elems m) \<Longrightarrow> elems m ! k = m_element m ! k"
  by (simp add: elems_def)

lemma length_elems: "map_ok m \<Longrightarrow> length (elems m) = unat (m_count m)"
  by (simp add: map_ok_def elems_def)

lemma count_sint:
  assumes "map_ok m"
  shows "sint (m_count m) = int (length (elems m))"
proof -
  have "m_count m \<le> 8" using assms by (simp add: map_ok_def word_le_nat_alt)
  then have "uint (m_count m) \<le> 8" by (simp add: word_le_def)
  then have "uint (m_count m) < 2 ^ 31" by simp
  moreover have "- (2 ^ 31) \<le> uint (m_count m)" by (rule order_trans [of _ 0]) simp_all
  ultimately have "signed_take_bit 31 (uint (m_count m)) = uint (m_count m)" by (intro signed_take_bit_int_eq_self)
  then have "sint (m_count m) = uint (m_count m)" by (simp add: sint_uint)
  then show ?thesis using assms by (simp add: length_elems)
qed

lemma find_loop_correct:
  assumes ok: "map_ok m" and "0 \<le> lo" "hi < int (length (elems m))"
    and "\<forall>k < length (elems m). int k < lo \<longrightarrow> from_id (elems m ! k) < i"
    and "\<forall>k < length (elems m). hi < int k \<longrightarrow> i < from_id (elems m ! k)"
  shows "\<exists>r. find_loop debug i m lo hi = Some r \<and>
    (case r of Some k \<Rightarrow> k < length (elems m) \<and> from_id (elems m ! k) = i | None \<Rightarrow> \<forall>e \<in> set (elems m). from_id e \<noteq> i)"
  using assms
proof (induction debug i m lo hi rule: find_loop.induct)
  case (1 debug i m lo hi)
  let ?n = "length (elems m)" let ?mid = "(lo + hi) div 2" let ?k = "nat ?mid"
  note ok = "1.prems"(1)
  show ?case
  proof (cases "lo \<le> hi")
    case False
    have "\<forall>k < ?n. from_id (elems m ! k) \<noteq> i"
    proof (intro allI impI)
      fix k assume "k < ?n"
      then have "int k < lo \<or> hi < int k" using False by linarith
      then show "from_id (elems m ! k) \<noteq> i" using "1.prems"(4,5) \<open>k < ?n\<close> by (metis order_less_irrefl)
    qed
    then show ?thesis using False by (subst find_loop.simps) (auto simp: in_set_conv_nth)
  next
    case True
    have mid: "lo \<le> ?mid" "?mid \<le> hi" using True by linarith+
    then have k: "?k < ?n" "0 \<le> ?mid" "int ?k = ?mid" using "1.prems"(2,3) by linarith+
    have bound: "\<not> (debug \<and> (?mid < 0 \<or> \<not> ?mid < sint (m_count m)))" "\<not> (?mid < 0 \<or> int (length (m_element m)) \<le> ?mid)"
    proof -
      have "?n \<le> length (m_element m)" by (simp add: elems_def)
      then have "0 \<le> ?mid" "?mid < sint (m_count m)" "?mid < int (length (m_element m))"
        using mid "1.prems"(2,3) count_sint [OF ok] by linarith+
      then show "\<not> (debug \<and> (?mid < 0 \<or> \<not> ?mid < sint (m_count m)))" "\<not> (?mid < 0 \<or> int (length (m_element m)) \<le> ?mid)" by simp_all
    qed
    let ?id = "from_id (m_element m ! ?k)"
    have id: "?id = from_id (elems m ! ?k)" using elems_nth [OF ok k(1)] by simp
    have sorted: "from_id (elems m ! a) < from_id (elems m ! b)" if "a < b" "b < ?n" for a b
      using ok that by (auto simp: map_ok_def sorted_wrt_iff_nth_less)
    have step: "find_loop debug i m lo hi =
        (if ?id = i then Some (Some ?k) else if ?id < i then find_loop debug i m (?mid + 1) hi else find_loop debug i m lo (?mid - 1))"
      unfolding find_loop.simps [of debug i m lo hi] Let_def if_P [OF True] if_not_P [OF bound(1)] if_not_P [OF bound(2)] by (rule refl)
    consider "?id = i" | "?id < i" | "i < ?id" by force
    then show ?thesis
    proof cases
      case 1
      then show ?thesis using step k id by simp
    next
      case 2
      have "\<forall>a < ?n. int a < ?mid + 1 \<longrightarrow> from_id (elems m ! a) < i"
      proof (intro allI impI)
        fix a assume "a < ?n" "int a < ?mid + 1"
        then have "a < ?k \<or> a = ?k" using k(3) by linarith
        then show "from_id (elems m ! a) < i" using sorted [of a ?k] k(1) 2 id by force
      qed
      moreover have ne: "?id \<noteq> i" using 2 by simp
      ultimately have "\<exists>r. find_loop debug i m (?mid + 1) hi = Some r \<and>
          (case r of Some k \<Rightarrow> k < ?n \<and> from_id (elems m ! k) = i | None \<Rightarrow> \<forall>e \<in> set (elems m). from_id e \<noteq> i)"
        using "1.IH"(1) [OF True refl bound refl ne 2 ok] "1.prems"(2,3,5) mid by simp
      then show ?thesis unfolding step if_not_P [OF ne] if_P [OF 2] .
    next
      case 3
      have "\<forall>a < ?n. ?mid - 1 < int a \<longrightarrow> i < from_id (elems m ! a)"
      proof (intro allI impI)
        fix a assume "a < ?n" "?mid - 1 < int a"
        then have "?k < a \<or> a = ?k" using k(3) by linarith
        then show "i < from_id (elems m ! a)" using sorted [of ?k a] \<open>a < ?n\<close> 3 id by force
      qed
      moreover have ne: "?id \<noteq> i" "\<not> ?id < i" using 3 by simp_all
      ultimately have "\<exists>r. find_loop debug i m lo (?mid - 1) = Some r \<and>
          (case r of Some k \<Rightarrow> k < ?n \<and> from_id (elems m ! k) = i | None \<Rightarrow> \<forall>e \<in> set (elems m). from_id e \<noteq> i)"
        using "1.IH"(2) [OF True refl bound refl ne ok] "1.prems"(2,3,4) mid by simp
      then show ?thesis unfolding step if_not_P [OF ne(1)] if_not_P [OF ne(2)] .
    qed
  qed
qed

lemma find_correct:
  assumes ok: "map_ok m"
  shows "\<exists>r. find_elem_by_charset_id debug i m = Some r \<and>
    (case r of Some k \<Rightarrow> k < length (elems m) \<and> from_id (elems m ! k) = i | None \<Rightarrow> \<forall>e \<in> set (elems m). from_id e \<noteq> i)"
proof (cases "m_count m = 0")
  case True
  then show ?thesis by (simp add: find_elem_by_charset_id_def elems_def)
next
  case False
  then show ?thesis using find_loop_correct [OF ok, of 0 "int (length (elems m)) - 1" i debug] count_sint [OF ok]
    by (simp add: find_elem_by_charset_id_def)
qed

lemma elem_cmp_le: "elem_cmp_by_charset_id e x \<le> 0 \<longleftrightarrow> from_id e \<le> from_id x"
  by (auto simp: elem_cmp_by_charset_id_def)

lemma insert_by_cmp_sorted:
  "mset (insert_by_cmp elem_cmp_by_charset_id e xs) = add_mset e (mset xs)"
  "sorted (List.map from_id xs) \<Longrightarrow> sorted (List.map from_id (insert_by_cmp elem_cmp_by_charset_id e xs))"
proof -
  show m: "mset (insert_by_cmp elem_cmp_by_charset_id e xs) = add_mset e (mset xs)" for xs
    by (induction xs) auto
  show "sorted (List.map from_id xs) \<Longrightarrow> sorted (List.map from_id (insert_by_cmp elem_cmp_by_charset_id e xs))"
  proof (induction xs)
    case (Cons x xs)
    have "set (insert_by_cmp elem_cmp_by_charset_id e xs) = insert e (set xs)" using arg_cong [OF m, of set_mset] by simp
    then show ?case using Cons by (auto simp: elem_cmp_le)
  qed simp
qed

lemma qsort_sorted:
  "mset (qsort_by_cmp elem_cmp_by_charset_id xs) = mset xs" "sorted (List.map from_id (qsort_by_cmp elem_cmp_by_charset_id xs))"
  by (induction xs) (simp_all add: qsort_by_cmp_def insert_by_cmp_sorted)

lemma map_of_same_set:
  assumes "set xs = set ys" "distinct (List.map fst xs)" "distinct (List.map fst ys)"
  shows "map_of xs = map_of ys"
  using assms map_of_inject_set by blast

lemma map_ok_distinct: "map_ok m \<Longrightarrow> distinct (List.map from_id (elems m))"
  by (simp add: map_ok_def strict_sorted_iff)

lemma dom_map_abs: "dom (map_abs m) = from_id ` set (elems m)"
  by (force simp: map_abs_def dom_map_of_conv_image_fst)

lemma map_abs_elem:
  assumes "map_ok m" "k < length (elems m)"
  shows "map_abs m (from_id (elems m ! k)) = Some (m_to (elems m ! k))"
  using map_ok_distinct [OF assms(1)] assms(2) unfolding map_abs_def
  by (intro map_of_is_SomeI) (simp_all add: comp_def)

lemma count_card: "map_ok m \<Longrightarrow> card (dom (map_abs m)) = unat (m_count m)"
  using map_ok_distinct [of m] distinct_card [of "List.map from_id (elems m)"] by (simp add: dom_map_abs length_elems)

lemma map_insert_ok:
  assumes ok: "map_ok m" and new: "from_id e \<notin> dom (map_abs m)" and prim: "is_primary (m_from e)"
  shows "if unat (m_count m) = 8 then map_insert debug e m = Some (True, m)
    else \<exists>m'. map_insert debug e m = Some (False, m') \<and> map_ok m' \<and> map_abs m' = (map_abs m)(from_id e \<mapsto> m_to e) \<and> m_version m' = m_version m"
proof (cases "unat (m_count m) = 8")
  case True
  then have "m_count m = 8" by (simp add: word_unat_eq_iff)
  then show ?thesis using ok True prim by (simp add: map_insert_def map_ok_def)
next
  case False
  have l: "length (m_element m) = 8" "unat (m_count m) < 8" using ok False by (simp_all add: map_ok_def)
  then have lt: "\<not> of_nat (length (m_element m)) \<le> m_count m" by (simp add: word_le_nat_alt)
  have "unat (m_count m + 1) = unat (m_count m) + 1" using l(2) by (simp add: unat_word_ariths)
  then have u: "take (unat (m_count m + 1)) ((m_element m)[unat (m_count m) := e]) = elems m @ [e]"
    using l by (simp add: elems_def take_Suc_conv_app_nth)
  let ?q = "qsort_by_cmp elem_cmp_by_charset_id (elems m @ [e])"
  let ?m = "m\<lparr>m_element := ?q @ drop (unat (m_count m + 1)) ((m_element m)[unat (m_count m) := e]), m_count := m_count m + 1\<rparr>"
  have run: "map_insert debug e m = Some (False, ?m)" using lt prim u by (simp add: map_insert_def map_sort_def Let_def)
  have mq: "mset ?q = mset (elems m @ [e])" by (rule qsort_sorted(1))
  then have len: "length ?q = unat (m_count m) + 1" using ok by (metis length_append_singleton length_elems mset_eq_length Suc_eq_plus1)
  have el: "elems ?m = ?q" using len \<open>unat (m_count m + 1) = _\<close> by (simp add: elems_def)
  have "mset (List.map from_id ?q) = mset (List.map from_id (elems m @ [e]))" using mq by (simp only: mset_map)
  then have "distinct (List.map from_id ?q) = distinct (List.map from_id (elems m @ [e]))" by (rule mset_eq_imp_distinct_iff)
  then have d: "distinct (List.map from_id ?q)" using map_ok_distinct [OF ok] new by (simp add: dom_map_abs)
  then have "map_ok ?m" using l len el qsort_sorted(2) [of "elems m @ [e]"] \<open>unat (m_count m + 1) = _\<close> by (simp add: map_ok_def strict_sorted_iff)
  moreover have "map_abs ?m = map_of (List.map (\<lambda>e. (from_id e, m_to e)) (e # elems m))"
    unfolding map_abs_def el
    using d mset_eq_setD [OF mq] map_ok_distinct [OF ok] new by (intro map_of_same_set) (auto simp: dom_map_abs comp_def)
  then have "map_abs ?m = (map_abs m)(from_id e \<mapsto> m_to e)" by (simp add: map_abs_def)
  ultimately show ?thesis using run False by auto
qed

lemma elem_set_to_simps [simp]: "m_from (elem_set_to cl e) = m_from e" "m_to (elem_set_to cl e) = cl"
  by (simp_all add: elem_set_to_def)

lemma replace_ok:
  assumes ok: "map_ok m" and k: "k < length (elems m)" "from_id (elems m ! k) = i"
  shows "map_ok (m\<lparr>m_element := (m_element m)[k := elem_set_to cl (m_element m ! k)]\<rparr>) \<and>
    map_abs (m\<lparr>m_element := (m_element m)[k := elem_set_to cl (m_element m ! k)]\<rparr>) = (map_abs m)(i \<mapsto> cl)"
proof -
  let ?m = "m\<lparr>m_element := (m_element m)[k := elem_set_to cl (m_element m ! k)]\<rparr>"
  have el: "elems ?m = (elems m)[k := elem_set_to cl (elems m ! k)]"
    using k elems_nth [OF ok k(1)] by (simp add: elems_def take_update_swap)
  have ids: "List.map from_id (elems ?m) = List.map from_id (elems m)" using k
    unfolding el by (simp add: map_update list_update_same_conv)
  then have ok': "map_ok ?m" using ok by (simp add: map_ok_def)
  have "map_abs ?m j = ((map_abs m)(i \<mapsto> cl)) j" for j
  proof (cases "j \<in> dom (map_abs m)")
    case True
    then obtain a where a: "a < length (elems m)" "j = from_id (elems m ! a)" by (auto simp: dom_map_abs in_set_conv_nth)
    have "from_id (elems ?m ! a) = j" using arg_cong [OF ids, of "\<lambda>xs. xs ! a"] a by (simp add: el)
    then have "map_abs ?m j = Some (m_to ((elems m)[k := elem_set_to cl (elems m ! k)] ! a))"
      using map_abs_elem [OF ok', of a] a unfolding el by simp
    moreover have "a = k \<longleftrightarrow> j = i" using map_ok_distinct [OF ok] a k by (auto simp: distinct_conv_nth)
    ultimately show ?thesis using map_abs_elem [OF ok a(1)] a k by (auto simp: nth_list_update)
  next
    case False
    then have "j \<notin> dom (map_abs ?m)" using arg_cong [OF ids, of set] by (simp add: dom_map_abs)
    moreover have "i \<in> dom (map_abs m)" using k by (auto simp: dom_map_abs)
    ultimately show ?thesis using False by auto
  qed
  then show ?thesis using ok' by auto
qed

fun insert_spec :: "32 word \<Rightarrow> charset_info \<Rightarrow> (32 word \<rightharpoonup> charset_info) \<Rightarrow> bool \<times> (32 word \<rightharpoonup> charset_info)" where
  "insert_spec i cl f = (if i \<notin> dom f \<and> card (dom f) = 8 then (True, f) else (False, f(i \<mapsto> cl)))"

lemma insert_or_replace_ok:
  assumes ok: "map_ok m" and prim: "is_primary (m_from e)"
  shows "\<exists>r m'. insert_or_replace debug e m = Some (r, m') \<and> map_ok m' \<and> (r, map_abs m') = insert_spec (from_id e) (m_to e) (map_abs m) \<and>
    m_version m' = m_version m"
proof -
  obtain r where r: "find_elem_by_charset_id debug (from_id e) m = Some r"
      "case r of Some k \<Rightarrow> k < length (elems m) \<and> from_id (elems m ! k) = from_id e | None \<Rightarrow> \<forall>x \<in> set (elems m). from_id x \<noteq> from_id e"
    using find_correct [OF ok] by blast
  show ?thesis
  proof (cases r)
    case None
    then have new: "from_id e \<notin> dom (map_abs m)" using r(2) by (auto simp: dom_map_abs)
    show ?thesis using map_insert_ok [OF ok new prim, of debug] None r(1) new count_card [OF ok] ok prim
      by (auto simp: insert_or_replace_def split: if_splits)
  next
    case (Some k)
    then have k: "k < length (elems m)" "from_id (elems m ! k) = from_id e" using r(2) by simp_all
    then have "from_id e \<in> dom (map_abs m)" by (metis dom_map_abs image_eqI nth_mem)
    then show ?thesis using replace_ok [OF ok k, of "m_to e"] Some r(1) prim
      by (intro exI [of _ False]) (simp add: insert_or_replace_def)
  qed
qed

lemma get_collation_ok:
  assumes ok: "map_ok m" and prim: "is_primary cs"
  shows "get_collation_for_charset debug cs m used =
    Some (case map_abs m (cs_number cs) of Some cl \<Rightarrow> cl | None \<Rightarrow> cs, used OR CHARACTER_SET_COLLATIONS_USED)"
proof -
  obtain r where r: "find_elem_by_charset_id debug (cs_number cs) m = Some r"
      "case r of Some k \<Rightarrow> k < length (elems m) \<and> from_id (elems m ! k) = cs_number cs | None \<Rightarrow> \<forall>x \<in> set (elems m). from_id x \<noteq> cs_number cs"
    using find_correct [OF ok] by blast
  show ?thesis
  proof (cases r)
    case None
    then have "cs_number cs \<notin> dom (map_abs m)" using r(2) by (auto simp: dom_map_abs)
    then show ?thesis using None r(1) prim by (simp add: get_collation_for_charset_def domIff)
  next
    case (Some k)
    then show ?thesis using r map_abs_elem [OF ok, of k] elems_nth [OF ok, of k] prim by (simp add: get_collation_for_charset_def)
  qed
qed

lemma map_init_ok: "length (m_element m) = 8 \<Longrightarrow> map_ok (map_init m) \<and> map_abs (map_init m) = Map.empty"
  by (simp add: map_ok_def map_init_def elems_def map_abs_def)

lemma map_set_ok: "map_ok rhs \<Longrightarrow> map_ok (map_set rhs v m) \<and> map_abs (map_set rhs v m) = map_abs rhs"
  by (simp add: map_ok_def map_set_def elems_def map_abs_def)

datatype map_op = Map_insert charset_info charset_info | Map_collation charset_info | Map_init | Map_set charset_map "32 word"

datatype map_reply = Inserted bool | Collation charset_info | Nothing

fun map_exec :: "bool \<Rightarrow> map_op \<Rightarrow> charset_map \<Rightarrow> (map_reply \<times> charset_map) option" where
  "map_exec debug (Map_insert cs cl) m = do { (r, m) \<leftarrow> insert_or_replace debug (elem_new cs cl) m; Some (Inserted r, m) }"
| "map_exec debug (Map_collation cs) m = do { (cl, used) \<leftarrow> get_collation_for_charset debug cs m 0; Some (Collation cl, m) }"
| "map_exec debug Map_init m = Some (Nothing, map_init m)"
| "map_exec debug (Map_set rhs v) m = Some (Nothing, map_set rhs v m)"

fun map_run :: "bool \<Rightarrow> map_op list \<Rightarrow> charset_map \<Rightarrow> (map_reply list \<times> charset_map) option" where
  "map_run debug [] m = Some ([], m)"
| "map_run debug (op # ops) m = do { (r, m) \<leftarrow> map_exec debug op m; (rs, m) \<leftarrow> map_run debug ops m; Some (r # rs, m) }"

text \<open>The assertions: character sets are given by their primary collation.\<close>

fun map_allowed :: "map_op \<Rightarrow> bool" where
  "map_allowed (Map_insert cs cl) = is_primary cs"
| "map_allowed (Map_collation cs) = is_primary cs"
| "map_allowed Map_init = True"
| "map_allowed (Map_set rhs v) = map_ok rhs"

fun map_spec :: "map_op \<Rightarrow> (32 word \<rightharpoonup> charset_info) \<Rightarrow> map_reply \<times> (32 word \<rightharpoonup> charset_info)" where
  "map_spec (Map_insert cs cl) f = (case insert_spec (cs_number cs) cl f of (r, f) \<Rightarrow> (Inserted r, f))"
| "map_spec (Map_collation cs) f = (Collation (case f (cs_number cs) of Some cl \<Rightarrow> cl | None \<Rightarrow> cs), f)"
| "map_spec Map_init f = (Nothing, Map.empty)"
| "map_spec (Map_set rhs v) f = (Nothing, map_abs rhs)"

fun map_specs :: "map_op list \<Rightarrow> (32 word \<rightharpoonup> charset_info) \<Rightarrow> map_reply list \<times> (32 word \<rightharpoonup> charset_info)" where
  "map_specs [] f = ([], f)"
| "map_specs (op # ops) f = (case map_spec op f of (r, f) \<Rightarrow> case map_specs ops f of (rs, f) \<Rightarrow> (r # rs, f))"

lemma map_exec_ok:
  assumes ok: "map_ok m" and allowed: "map_allowed op"
  shows "\<exists>r m'. map_exec debug op m = Some (r, m') \<and> map_ok m' \<and> map_spec op (map_abs m) = (r, map_abs m')"
proof (cases op)
  case (Map_insert cs cl)
  then obtain r m' where "insert_or_replace debug (elem_new cs cl) m = Some (r, m')" "map_ok m'"
      "(r, map_abs m') = insert_spec (cs_number cs) cl (map_abs m)"
    using insert_or_replace_ok [OF ok, of "elem_new cs cl" debug] allowed by (auto simp: elem_new_def)
  then show ?thesis using Map_insert by (simp del: insert_spec.simps add: \<open>(r, map_abs m') = _\<close> [symmetric])
next
  case Map_init
  then show ?thesis using map_init_ok [of m] ok by (simp add: map_ok_def)
qed (use get_collation_ok [OF ok] map_set_ok ok allowed in auto)

lemma map_run_ok:
  "map_ok m \<Longrightarrow> list_all map_allowed ops \<Longrightarrow>
    \<exists>rs m'. map_run debug ops m = Some (rs, m') \<and> map_ok m' \<and> map_specs ops (map_abs m) = (rs, map_abs m')"
proof (induction ops arbitrary: m)
  case (Cons op ops)
  obtain r u where u: "map_exec debug op m = Some (r, u)" "map_ok u" "map_spec op (map_abs m) = (r, map_abs u)"
    using map_exec_ok [OF Cons.prems(1), of op debug] Cons.prems(2) by auto
  obtain rs m' where "map_run debug ops u = Some (rs, m')" "map_ok m'" "map_specs ops (map_abs u) = (rs, map_abs m')"
    using Cons.IH [OF u(2)] Cons.prems(2) by auto
  then show ?case using u by (simp del: map_exec.simps map_spec.simps)
qed simp

text \<open>C37. Whatever the array held before, any sequence of operations after \<open>init\<close> stays inside the array, fails no
  assertion, and answers as a finite map of at most eight character sets does: an insertion replaces the
  collation of a known character set, adds a new one, or is refused when there are eight others; the search finds the
  collation or gives the character set itself. The elements stay sorted.\<close>

theorem map_ops_refine:
  assumes "length (m_element m) = 8" "list_all map_allowed ops"
  shows "\<exists>rs m'. map_run debug (Map_init # ops) m = Some (Nothing # rs, m') \<and> map_specs ops Map.empty = (rs, map_abs m') \<and>
    unat (map_count m') = card (dom (map_abs m')) \<and> card (dom (map_abs m')) \<le> 8 \<and> sorted_wrt (<) (List.map from_id (elems m'))"
proof -
  obtain rs m' where "map_run debug ops (map_init m) = Some (rs, m')" "map_ok m'" "map_specs ops (map_abs (map_init m)) = (rs, map_abs m')"
    using map_run_ok map_init_ok [OF assms(1)] assms(2) by blast
  then show ?thesis using map_init_ok [OF assms(1)] count_card [of m'] by (simp add: map_count_def map_ok_def)
qed

definition demo_charset :: "32 word \<Rightarrow> string \<Rightarrow> string \<Rightarrow> charset_info" where
  "demo_charset n a b = \<lparr>cs_number = n, cs_state = 32, cs_name = a, coll_name = b\<rparr>"

definition demo_map :: charset_map where
  "demo_map = (let c = demo_charset 8 ''latin1'' ''latin1_swedish_ci'' in
     \<lparr>m_element = replicate 8 (elem_new c c), m_count = 3, m_version = 7\<rparr>)"

lemma map_ops_refine_witness:
  "\<exists>rs m'. map_run True [Map_init, Map_insert (demo_charset 45 ''utf8mb4'' ''g'') (demo_charset 224 ''utf8mb4'' ''u''),
       Map_insert (demo_charset 8 ''latin1'' ''s'') (demo_charset 47 ''latin1'' ''b''), Map_collation (demo_charset 45 ''utf8mb4'' ''g'')] demo_map =
     Some (Nothing # rs, m') \<and> rs = [Inserted False, Inserted False, Collation (demo_charset 224 ''utf8mb4'' ''u'')]"
proof -
  let ?ops = "[Map_insert (demo_charset 45 ''utf8mb4'' ''g'') (demo_charset 224 ''utf8mb4'' ''u''),
       Map_insert (demo_charset 8 ''latin1'' ''s'') (demo_charset 47 ''latin1'' ''b''), Map_collation (demo_charset 45 ''utf8mb4'' ''g'')]"
  have l: "length (m_element demo_map) = 8" "list_all map_allowed ?ops"
    by (simp_all add: demo_map_def Let_def demo_charset_def is_primary_def MY_CS_PRIMARY_def)
  obtain rs m' where r: "map_run True (Map_init # ?ops) demo_map = Some (Nothing # rs, m')" "map_specs ?ops Map.empty = (rs, map_abs m')"
    using map_ops_refine [OF l] by blast
  have "rs = [Inserted False, Inserted False, Collation (demo_charset 224 ''utf8mb4'' ''u'')]" using r(2) by (auto simp: demo_charset_def)
  then show ?thesis using r(1) by blast
qed

section \<open>Binary form\<close>

definition bytes2 :: "32 word \<Rightarrow> byte list" where
  "bytes2 v = [ucast v, ucast (drop_bit 8 v)]"

definition elem_bytes :: "elem_st \<Rightarrow> byte list" where
  "elem_bytes e = bytes2 (from_id e) @ bytes2 (cs_number (m_to e))"

definition binary_form :: "charset_map \<Rightarrow> byte list" where
  "binary_form m = ucast (m_count m) # concat (List.map elem_bytes (elems m))"

lemma length_elem_bytes [simp]: "length (elem_bytes e) = 4" "length (bytes2 v) = 2"
  by (simp_all add: elem_bytes_def bytes2_def)

lemma length_concat_elems: "length (concat (List.map elem_bytes es)) = 4 * length es"
  by (induction es) simp_all

lemma store2_ok: "store2 (length a) v (a @ [x, y] @ b) = Some (a @ bytes2 v @ b)"
proof -
  have "ucast (ucast (ucast v :: 16 word) :: 64 word) = (ucast v :: 16 word)" by (rule bit_word_eqI) (auto simp: bit_simps)
  moreover have "ucast (ucast v :: 16 word) = (ucast v :: byte)" "ucast (drop_bit 8 (ucast v :: 16 word)) = (ucast (drop_bit 8 v) :: byte)"
    by (rule bit_word_eqI, auto simp: bit_simps)+
  ultimately show ?thesis by (simp add: store2_def x64_int2store_def le_store_def Let_def bytes2_def list_update_append)
qed

lemma load2_ok: "unat v < 2 ^ 16 \<Longrightarrow> load2 (length a) (a @ bytes2 v @ b) = Some v"
proof -
  assume "unat v < 2 ^ 16"
  then have "take_bit 16 v = v" by (simp add: word_unat_eq_iff unsigned_take_bit_eq take_bit_nat_eq_self)
  then have b: "bit v n \<Longrightarrow> n < 16" for n by (metis bit_take_bit_iff)
  then have "ucast (ucast (ucast v :: byte) OR push_bit 8 (ucast (ucast (drop_bit 8 v) :: byte)) :: 16 word) = v"
    by (intro bit_word_eqI) (auto simp: bit_simps dest: b)
  then show ?thesis by (simp add: load2_def x64_uint2korr_def numeral_2_eq_2 bytes2_def nth_append)
qed

lemma to_binary_loop_ok:
  "length r = 4 * length es \<Longrightarrow>
     to_binary_loop es (length a) (a @ r @ b) = Some (length a + 4 * length es, a @ concat (List.map elem_bytes es) @ b)"
proof (induction es arbitrary: a r)
  case (Cons e es)
  then obtain w x y z r' where r: "r = w # x # y # z # r'" "length r' = 4 * length es"
    by (auto simp: length_Suc_conv numeral_eq_Suc)
  let ?f = "bytes2 (from_id e)" let ?t = "bytes2 (cs_number (m_to e))"
  have 1: "store2 (length a) (from_id e) (a @ r @ b) = Some (a @ ?f @ y # z # r' @ b)"
    using store2_ok [of a "from_id e" w x "y # z # r' @ b"] r(1) by simp
  have 2: "store2 (length a + 2) (cs_number (m_to e)) (a @ ?f @ y # z # r' @ b) = Some (a @ ?f @ ?t @ r' @ b)"
    using store2_ok [of "a @ ?f" "cs_number (m_to e)" y z "r' @ b"] by simp
  have 3: "to_binary_loop es (length a + 4) (a @ ?f @ ?t @ r' @ b) =
      Some (length a + 4 + 4 * length es, a @ ?f @ ?t @ concat (List.map elem_bytes es) @ b)"
    using Cons.IH [OF r(2), of "a @ ?f @ ?t"] by simp
  show ?case using 1 2 3 by (simp add: elem_bytes_def [of e])
qed simp

lemma to_binary_ok:
  assumes ok: "map_ok m" and room: "1 + 4 * length (elems m) \<le> length buf"
  shows "to_binary buf m = Some (1 + 4 * length (elems m), binary_form m @ drop (1 + 4 * length (elems m)) buf)"
proof -
  let ?n = "4 * length (elems m)"
  obtain c rest where b: "buf = c # rest" "?n \<le> length rest" using room by (cases buf) simp_all
  then show ?thesis using to_binary_loop_ok [of "take ?n rest" "elems m" "[ucast (m_count m)]" "drop ?n rest"]
    by (simp add: to_binary_def elems_def binary_form_def)
qed

definition known :: "(32 word \<Rightarrow> charset_info option) \<Rightarrow> elem_st \<Rightarrow> bool" where
  "known get_charset e \<longleftrightarrow> get_charset (from_id e) = Some (m_from e) \<and> get_charset (cs_number (m_to e)) = Some (m_to e) \<and>
     is_primary (m_from e) \<and> unat (from_id e) < 2 ^ 16 \<and> unat (cs_number (m_to e)) < 2 ^ 16"

lemma from_binary_loop_ok:
  assumes "map_ok m" "list_all (known get_charset) es" "distinct (List.map from_id es)" "\<forall>e \<in> set es. from_id e \<notin> dom (map_abs m)"
    "card (dom (map_abs m)) + length es \<le> 8"
  shows "\<exists>m'. from_binary_loop debug get_charset (length es) (length a) (a @ concat (List.map elem_bytes es) @ b) m = Some (length a + 4 * length es, m') \<and>
    map_ok m' \<and> m_version m' = m_version m \<and> map_abs m' = map_abs m ++ map_of (List.map (\<lambda>e. (from_id e, m_to e)) es)"
  using assms
proof (induction es arbitrary: a m)
  case (Cons e es)
  let ?f = "bytes2 (from_id e)" let ?t = "bytes2 (cs_number (m_to e))" let ?rest = "concat (List.map elem_bytes es) @ b"
  have k: "known get_charset e" using Cons.prems(2) by simp
  then have 1: "load2 (length a) (a @ ?f @ ?t @ ?rest) = Some (from_id e)" "load2 (length a + 2) (a @ ?f @ ?t @ ?rest) = Some (cs_number (m_to e))"
    using load2_ok [of "from_id e" a "?t @ ?rest"] load2_ok [of "cs_number (m_to e)" "a @ ?f" ?rest] by (simp_all add: known_def)
  have e: "elem_new (m_from e) (m_to e) = e" by (simp add: elem_new_def)
  obtain r u where u: "insert_or_replace debug e m = Some (r, u)" "map_ok u" "(r, map_abs u) = insert_spec (from_id e) (m_to e) (map_abs m)"
      "m_version u = m_version m"
    using insert_or_replace_ok [OF Cons.prems(1), of e debug] k by (auto simp: known_def)
  have new: "from_id e \<notin> dom (map_abs m)" "card (dom (map_abs m)) < 8" using Cons.prems(4,5) by auto
  then have au: "map_abs u = (map_abs m)(from_id e \<mapsto> m_to e)" using u(3) by (simp split: if_splits)
  have fin: "finite (dom (map_abs m))" by (simp add: map_abs_def)
  have "\<exists>m'. from_binary_loop debug get_charset (length es) (length (a @ ?f @ ?t)) ((a @ ?f @ ?t) @ concat (List.map elem_bytes es) @ b) u =
        Some (length (a @ ?f @ ?t) + 4 * length es, m') \<and>
      map_ok m' \<and> m_version m' = m_version u \<and> map_abs m' = map_abs u ++ map_of (List.map (\<lambda>e. (from_id e, m_to e)) es)"
  proof (rule Cons.IH [OF u(2)])
    have d: "dom (map_abs u) = insert (from_id e) (dom (map_abs m))" by (simp add: au)
    have "from_id x \<noteq> from_id e" if "x \<in> set es" for x 
    proof
      assume "from_id x = from_id e"
      then have "from_id e \<in> set (List.map from_id es)" using that by (auto simp: image_iff intro!: bexI [of _ x])
      then show False using Cons.prems(3) by simp
    qed
    then show "\<forall>x \<in> set es. from_id x \<notin> dom (map_abs u)" using Cons.prems(4) d by simp
    from d show "card (dom (map_abs u)) + length es \<le> 8" using Cons.prems(5) new(1) fin by simp
  qed (use Cons.prems in simp_all)
  then obtain m' where m': "from_binary_loop debug get_charset (length es) (length a + 4) (a @ ?f @ ?t @ ?rest) u = Some (length a + 4 + 4 * length es, m')"
      "map_ok m'" "m_version m' = m_version u" "map_abs m' = map_abs u ++ map_of (List.map (\<lambda>e. (from_id e, m_to e)) es)" by auto
  have "from_id e \<notin> dom (map_of (List.map (\<lambda>e. (from_id e, m_to e)) es))" using Cons.prems(3) by (auto simp: dom_map_of_conv_image_fst image_iff)
  then have am: "map_abs m' = map_abs m ++ map_of (List.map (\<lambda>e. (from_id e, m_to e)) (e # es))"
    using m'(4) by (auto simp: au map_add_def fun_eq_iff domIff split: option.split)
  have run: "from_binary_loop debug get_charset (length (e # es)) (length a) (a @ concat (List.map elem_bytes (e # es)) @ b) m =
      Some (length a + 4 * length (e # es), m')"
    using 1 k e u(1) m'(1) by (simp add: elem_bytes_def [of e] known_def)
  have v: "m_version m' = m_version m" using m'(3) u(4) by simp
  show ?case by (intro exI [of _ m'] conjI) (fact run, fact m'(2), fact v, fact am)
qed simp

text \<open>C38. Every map whose collations \<open>get_charset\<close> knows by their numbers, which have 16 bits, is read back from its
  binary form, whatever map it is read into and whatever follows; both sides agree on the length of the form,
  which never exceeds \<open>binary_size_max\<close>.\<close>

theorem binary_roundtrip:
  assumes "map_ok m" "list_all (known get_charset) (elems m)" "length buf = binary_size_max m" "length (m_element old) = 8"
  shows "\<exists>n buf' m'. to_binary buf m = Some (n, buf') \<and> n \<le> binary_size_max m \<and> length buf' = length buf \<and>
    from_binary debug get_charset (take n buf' @ rest) (n + length rest) old = Some (n, m') \<and> map_abs m' = map_abs m \<and>
    map_count m' = map_count m \<and> map_version m' = 0"
proof -
  let ?n = "1 + 4 * length (elems m)"
  have le: "length (elems m) \<le> 8" "length (m_element m) = 8" using assms(1) by (simp_all add: map_ok_def elems_def)
  then have "?n \<le> length buf" using assms(3) by (simp add: binary_size_max_def)
  note to = to_binary_ok [OF assms(1) this]
  have len: "length (binary_form m) = ?n" by (simp add: binary_form_def length_concat_elems)
  let ?c = "ucast (m_count m) :: byte"
  have i: "map_ok (map_init old)" "map_abs (map_init old) = Map.empty" using map_init_ok [OF assms(4)] by simp_all
  have c: "unat ?c = length (elems m)" using length_elems [OF assms(1)] le(1)
    by (simp add: unsigned_ucast_eq take_bit_nat_eq_self)
  obtain m' where m': "from_binary_loop debug get_charset (length (elems m)) 1 (?c # concat (List.map elem_bytes (elems m)) @ rest) (map_init old) = Some (?n, m')"
      "map_ok m'" "m_version m' = m_version (map_init old)" "map_abs m' = map_of (List.map (\<lambda>e. (from_id e, m_to e)) (elems m))"
    using from_binary_loop_ok [OF i(1) assms(2) map_ok_distinct [OF assms(1)], of debug "[?c]" rest] i(2) le(1) by auto
  have "from_binary debug get_charset (binary_form m @ rest) (?n + length rest) old = Some (?n, m')"
    using m'(1) c by (simp add: from_binary_def Let_def binary_form_def)
  moreover have "map_abs m' = map_abs m" using m'(4) by (simp add: map_abs_def)
  moreover have "map_count m' = map_count m" using count_card [OF m'(2)] count_card [OF assms(1)] \<open>map_abs m' = map_abs m\<close>
    by (simp add: map_count_def word_unat_eq_iff)
  moreover have "map_version m' = 0" using m'(3) by (simp add: map_version_def map_init_def)
  ultimately show ?thesis using to len \<open>?n \<le> length buf\<close> assms(3)
    by (intro exI [of _ ?n] exI [of _ "binary_form m @ drop ?n buf"] exI [of _ m']) simp
qed

definition demo_pair :: charset_map where
  "demo_pair = (let c = demo_charset 45 ''utf8mb4'' ''g''; d = demo_charset 224 ''utf8mb4'' ''u'' in
     \<lparr>m_element = replicate 8 (elem_new c d), m_count = 1, m_version = 7\<rparr>)"

definition demo_get_charset :: "32 word \<Rightarrow> charset_info option" where
  "demo_get_charset n =
     (if n = 45 then Some (demo_charset 45 ''utf8mb4'' ''g'') else if n = 224 then Some (demo_charset 224 ''utf8mb4'' ''u'') else None)"

lemma binary_roundtrip_witness:
  "\<exists>n buf' m'. to_binary (replicate 33 0) demo_pair = Some (n, buf') \<and> n \<le> 33 \<and>
     from_binary True demo_get_charset (take n buf' @ [255]) (n + 1) demo_map = Some (n, m') \<and> map_count m' = 1 \<and> map_version m' = 0"
proof -
  have e: "elems demo_pair = [elem_new (demo_charset 45 ''utf8mb4'' ''g'') (demo_charset 224 ''utf8mb4'' ''u'')]"
    by (simp add: elems_def demo_pair_def Let_def)
  then have m: "map_ok demo_pair" by (simp add: map_ok_def) (simp add: demo_pair_def Let_def)
  have k: "list_all (known demo_get_charset) (elems demo_pair)"
    unfolding e by (simp add: known_def elem_new_def demo_get_charset_def demo_charset_def is_primary_def MY_CS_PRIMARY_def)
  have b: "length (replicate 33 (0 :: byte)) = binary_size_max demo_pair" "binary_size_max demo_pair = 33" "map_count demo_pair = 1"
    by (simp_all add: binary_size_max_def demo_pair_def Let_def map_count_def)
  have o: "length (m_element demo_map) = 8" by (simp add: demo_map_def Let_def)
  from binary_roundtrip [OF m k b(1) o, of True "[255]"] show ?thesis unfolding b(2,3) by auto
qed

section \<open>Text form\<close>

definition elem_text :: "elem_st \<Rightarrow> string" where
  "elem_text e = cs_name (m_from e) @ ''='' @ coll_name (m_to e)"

fun text_form :: "bool \<Rightarrow> elem_st list \<Rightarrow> string" where
  "text_form first [] = ''''"
| "text_form first (e # es) = (if first then '''' else '','') @ elem_text e @ text_form False es"

definition short_names :: "elem_st \<Rightarrow> bool" where
  "short_names e \<longleftrightarrow> length (cs_name (m_from e)) \<le> MY_CS_CHARACTER_SET_NAME_SIZE \<and> length (coll_name (m_to e)) \<le> MY_CS_COLLATION_NAME_SIZE"

lemma put_text_ok: "length str \<le> length r \<Longrightarrow> put_text str (length a, a @ r) = Some (length (a @ str), (a @ str) @ drop (length str) r)"
  by (simp add: put_text_def)

lemma elem_print_ok:
  assumes "length (elem_text e) \<le> length r"
  shows "elem_print e (length a, a @ r) = Some (length (a @ elem_text e), (a @ elem_text e) @ drop (length (elem_text e)) r)"
proof -
  let ?c = "cs_name (m_from e)" let ?l = "coll_name (m_to e)" let ?n = "length ?c"
  have "put_text ?c (length a, a @ r) = Some (length (a @ ?c), (a @ ?c) @ drop ?n r)"
    using assms by (intro put_text_ok) (simp add: elem_text_def)
  moreover have "put_text ''='' (length (a @ ?c), (a @ ?c) @ drop ?n r) = Some (length ((a @ ?c) @ ''=''), ((a @ ?c) @ ''='') @ drop (length ''='') (drop ?n r))"
    using assms by (intro put_text_ok) (simp add: elem_text_def)
  moreover have "put_text ?l (length ((a @ ?c) @ ''=''), ((a @ ?c) @ ''='') @ drop (length ''='') (drop ?n r)) =
      Some (length (((a @ ?c) @ ''='') @ ?l), (((a @ ?c) @ ''='') @ ?l) @ drop (length ?l) (drop (length ''='') (drop ?n r)))"
    using assms by (intro put_text_ok) (simp add: elem_text_def)
  ultimately show ?thesis by (simp add: elem_print_def elem_text_def add_ac)
qed

lemma print_loop_ok:
  "list_all short_names es \<Longrightarrow> length a \<le> nbytes \<Longrightarrow> nbytes \<le> length a + length r \<Longrightarrow>
    \<exists>k str. k \<le> length es \<and> str = text_form first (take k es) \<and> length a + length str \<le> nbytes \<and>
      print_loop nbytes first es (length a, a @ r) = Some (length (a @ str), (a @ str) @ drop (length str) r) \<and>
      (98 * length es \<le> nbytes - length a \<longrightarrow> k = length es)"
proof (induction es arbitrary: a r first)
  case Nil
  then show ?case by (intro exI [of _ 0]) simp
next
  case (Cons e es)
  note sizes = text_size_max_def MY_CS_CHARACTER_SET_NAME_SIZE_def MY_CS_COLLATION_NAME_SIZE_def
  show ?case
  proof (cases "text_size_max + 1 > nbytes - length a")
    case True
    then show ?thesis using Cons.prems by (intro exI [of _ 0]) (simp add: sizes)
  next
    case False
    let ?c = "if first then '''' else '',''" let ?t = "elem_text e" let ?s = "?c @ ?t"
    have t: "length ?c \<le> 1" "length ?t \<le> 97" using Cons.prems(1) by (simp_all add: elem_text_def short_names_def sizes)
    then have room: "length ?s \<le> 98" "98 \<le> length r" "length a + length ?s \<le> nbytes" "98 + length a \<le> nbytes"
      using False Cons.prems(2,3) by (auto simp: sizes)
    have 1: "(if \<not> first then put_text '','' (length a, a @ r) else Some (length a, a @ r)) = Some (length (a @ ?c), (a @ ?c) @ drop (length ?c) r)"
      using put_text_ok [of "'',''" r a] room(2) by simp
    have 2: "elem_print e (length (a @ ?c), (a @ ?c) @ drop (length ?c) r) =
        Some (length ((a @ ?c) @ ?t), ((a @ ?c) @ ?t) @ drop (length ?t) (drop (length ?c) r))"
      using t room(2) by (intro elem_print_ok) simp
    have d: "drop (length ?t) (drop (length ?c) r) = drop (length ?s) r" by (simp add: add_ac)
    obtain k str where k: "k \<le> length es" "str = text_form False (take k es)" "length (a @ ?s) + length str \<le> nbytes"
        "print_loop nbytes False es (length (a @ ?s), (a @ ?s) @ drop (length ?s) r) =
          Some (length ((a @ ?s) @ str), ((a @ ?s) @ str) @ drop (length str) (drop (length ?s) r))"
        "98 * length es \<le> nbytes - length (a @ ?s) \<longrightarrow> k = length es"
      using Cons.IH [of "a @ ?s" "drop (length ?s) r" False] Cons.prems room by auto
    have "print_loop nbytes first (e # es) (length a, a @ r) = print_loop nbytes False es (length (a @ ?s), (a @ ?s) @ drop (length ?s) r)"
      using False 1 2 d by simp
    then show ?thesis using k room(1)
      by (intro exI [of _ "Suc k"] exI [of _ "?s @ str"]) (auto simp: add_ac)
  qed
qed

text \<open>Printing into a buffer writes only the given number of bytes: the pairs joined with commas, as many of the
  first ones as are sure to fit, and all of them in \<open>text_format_nbytes_needed\<close> bytes; the rest of the buffer stays.\<close>

theorem print_bounded:
  assumes "map_ok m" "list_all short_names (elems m)" "nbytes \<le> length dst"
  shows "\<exists>k str. map_print nbytes dst m = Some (length str, str @ drop (length str) dst) \<and> str = text_form True (take k (elems m)) \<and>
    length str \<le> nbytes \<and> (text_format_nbytes_needed m \<le> nbytes \<longrightarrow> k = length (elems m))"
proof -
  have n: "text_format_nbytes_needed m = 98 * length (elems m)" using length_elems [OF assms(1)]
    by (simp add: text_format_nbytes_needed_def text_size_max_def MY_CS_CHARACTER_SET_NAME_SIZE_def MY_CS_COLLATION_NAME_SIZE_def)
  show ?thesis using print_loop_ok [OF assms(2), of "[]" nbytes dst True] assms(3) unfolding n by (auto simp: map_print_def elems_def)
qed

lemma print_fits:
  assumes "map_ok m" "list_all short_names (elems m)" "text_format_nbytes_needed m \<le> nbytes" "nbytes \<le> length dst"
  shows "map_print nbytes dst m = Some (length (text_form True (elems m)), text_form True (elems m) @ drop (length (text_form True (elems m))) dst)"
  using print_bounded [OF assms(1,2,4)] assms(3) by auto

lemma print_bounded_witness:
  "\<exists>str. map_print 98 (replicate 100 CHR '' '') demo_pair = Some (length str, str @ drop (length str) (replicate 100 CHR '' '')) \<and> str = ''utf8mb4=u''"
proof -
  have e: "elems demo_pair = [elem_new (demo_charset 45 ''utf8mb4'' ''g'') (demo_charset 224 ''utf8mb4'' ''u'')]"
    by (simp add: elems_def demo_pair_def Let_def)
  then have m: "map_ok demo_pair" by (simp add: map_ok_def) (simp add: demo_pair_def Let_def)
  have s: "list_all short_names (elems demo_pair)"
    unfolding e by (simp add: short_names_def elem_new_def demo_charset_def MY_CS_CHARACTER_SET_NAME_SIZE_def MY_CS_COLLATION_NAME_SIZE_def)
  have n: "text_format_nbytes_needed demo_pair \<le> 98"
    by (simp add: text_format_nbytes_needed_def demo_pair_def Let_def text_size_max_def MY_CS_CHARACTER_SET_NAME_SIZE_def MY_CS_COLLATION_NAME_SIZE_def)
  have l: "(98 :: nat) \<le> length (replicate 100 CHR '' '')" by simp
  obtain k str where "map_print 98 (replicate 100 CHR '' '') demo_pair = Some (length str, str @ drop (length str) (replicate 100 CHR '' ''))"
      "str = text_form True (take k (elems demo_pair))" "k = length (elems demo_pair)"
    using print_bounded [OF m s l] n by blast
  then show ?thesis by (simp add: e elem_text_def elem_new_def demo_charset_def)
qed

end
