(* ===== verification/Simple_Tokenizer.thy ===== *)
theory Simple_Tokenizer
  imports Charset_Map "HOL-Library.Char_ord"
begin

text \<open>
  \<open>Simple_tokenizer\<close> of \<open>private/simple_tokenizer.h\<close>: identifiers and single characters, with spaces between them.
  \<open>m_ptr\<close> is an offset into the text between \<open>str\<close> and \<open>m_end\<close>; a read behind it is a fault (None). Characters are
  compared by their codes; those above 127 belong to no identifier, be \<open>char\<close> signed or not.
\<close>

section \<open>Operations\<close>

record simple_tokenizer =
  tk_text :: string
  m_ptr :: nat

definition Simple_tokenizer_new :: "string \<Rightarrow> simple_tokenizer" where
  "Simple_tokenizer_new str = \<lparr>tk_text = str, m_ptr = 0\<rparr>"

definition tk_eof :: "simple_tokenizer \<Rightarrow> bool" where
  "tk_eof t \<longleftrightarrow> m_ptr t \<ge> length (tk_text t)"

definition tk_char :: "simple_tokenizer \<Rightarrow> char option" where
  "tk_char t = (if m_ptr t < length (tk_text t) then Some (tk_text t ! m_ptr t) else None)"

definition is_ident_start :: "char \<Rightarrow> bool" where
  "is_ident_start ch \<longleftrightarrow> CHR ''a'' \<le> ch \<and> ch \<le> CHR ''z'' \<or> CHR ''A'' \<le> ch \<and> ch \<le> CHR ''Z'' \<or> ch = CHR ''_''"

definition is_ident_body :: "char \<Rightarrow> bool" where
  "is_ident_body ch \<longleftrightarrow> is_ident_start ch \<or> CHR ''0'' \<le> ch \<and> ch \<le> CHR ''9''"

definition at_ident_start :: "simple_tokenizer \<Rightarrow> bool option" where
  "at_ident_start t = (if tk_eof t then Some False else map_option is_ident_start (tk_char t))"

definition at_ident_body :: "simple_tokenizer \<Rightarrow> bool option" where
  "at_ident_body t = (if tk_eof t then Some False else map_option is_ident_body (tk_char t))"

definition advance :: "simple_tokenizer \<Rightarrow> simple_tokenizer" where
  "advance t = t\<lparr>m_ptr := m_ptr t + 1\<rparr>"

function get_spaces :: "simple_tokenizer \<Rightarrow> simple_tokenizer option" where
  "get_spaces t =
     (if tk_eof t then Some t
      else Option.bind (tk_char t) (\<lambda>c. if c \<noteq> CHR '' '' then Some t else get_spaces (advance t)))"
  by pat_completeness auto

termination
  by (relation "measure (\<lambda>t. length (tk_text t) - m_ptr t)") (auto simp: tk_eof_def advance_def)

text \<open>The loop of \<open>get_ident\<close>.\<close>

function ident_loop :: "simple_tokenizer \<Rightarrow> simple_tokenizer option" where
  "ident_loop t = Option.bind (at_ident_body t) (\<lambda>b. if b then ident_loop (advance t) else Some t)"
  by pat_completeness auto

termination
  by (relation "measure (\<lambda>t. length (tk_text t) - m_ptr t)")
    (auto simp: at_ident_body_def tk_eof_def advance_def split: if_splits)

declare get_spaces.simps [simp del] ident_loop.simps [simp del]

text \<open>The result is a position and a length.\<close>

definition get_ident :: "simple_tokenizer \<Rightarrow> ((nat \<times> nat) \<times> simple_tokenizer) option" where
  "get_ident t = do {
     t \<leftarrow> get_spaces t;
     b \<leftarrow> at_ident_start t;
     if \<not> b then Some ((m_ptr t, 0), t)
     else do {
       let start = m_ptr t;
       t \<leftarrow> ident_loop (advance t);
       Some ((start, m_ptr t - start), t) } }"

definition get_char :: "char \<Rightarrow> simple_tokenizer \<Rightarrow> (bool \<times> simple_tokenizer) option" where
  "get_char ch t = do {
     t \<leftarrow> get_spaces t;
     if tk_eof t then Some (True, t)
     else do {
       c \<leftarrow> tk_char t;
       if c \<noteq> ch then Some (True, t) else Some (False, advance t) } }"

section \<open>What they read\<close>

definition tk_rest :: "simple_tokenizer \<Rightarrow> string" where
  "tk_rest t = drop (m_ptr t) (tk_text t)"

definition tk_ok :: "simple_tokenizer \<Rightarrow> bool" where
  "tk_ok t \<longleftrightarrow> m_ptr t \<le> length (tk_text t)"

text \<open>\<open>tk_past\<close>: only the position moves, over \<open>s\<close>.\<close>

definition tk_past :: "string \<Rightarrow> simple_tokenizer \<Rightarrow> simple_tokenizer" where
  "tk_past s t = t\<lparr>m_ptr := m_ptr t + length s\<rparr>"

lemma tk_rest_simps:
  "tk_eof t \<longleftrightarrow> tk_rest t = []" "tk_char t = (case tk_rest t of [] \<Rightarrow> None | c # _ \<Rightarrow> Some c)" "tk_rest (advance t) = tl (tk_rest t)"
  "tk_rest (tk_past s t) = drop (length s) (tk_rest t)"
proof -
  show "tk_char t = (case tk_rest t of [] \<Rightarrow> None | c # _ \<Rightarrow> Some c)"
    by (cases "m_ptr t < length (tk_text t)") (simp_all add: tk_char_def tk_rest_def flip: Cons_nth_drop_Suc)
qed (simp_all add: tk_eof_def tk_rest_def advance_def tk_past_def drop_Suc tl_drop add.commute)

lemma tk_past_simps: "tk_past [] t = t" "advance t = tk_past [c] t" "tk_past s (tk_past r t) = tk_past (r @ s) t"
  by (simp_all add: tk_past_def advance_def)

abbreviation spaces :: "string \<Rightarrow> string" where "spaces s \<equiv> takeWhile (\<lambda>c. c = CHR '' '') s"

abbreviation skip_spaces :: "string \<Rightarrow> string" where "skip_spaces s \<equiv> dropWhile (\<lambda>c. c = CHR '' '') s"

lemma get_spaces_ok: "get_spaces t = Some (tk_past (spaces (tk_rest t)) t)"
proof (induction t rule: get_spaces.induct)
  case (1 t)
  show ?case
  proof (cases "tk_rest t")
    case Nil
    then show ?thesis by (subst get_spaces.simps) (simp add: tk_rest_simps tk_past_simps)
  next
    case (Cons c cs)
    have "get_spaces (advance t) = Some (tk_past (c # spaces cs) t)" if "c = CHR '' ''"
      using "1.IH" [of c] Cons that unfolding tk_past_simps(2) [of t c] by (simp add: tk_rest_simps tk_past_simps)
    then show ?thesis using Cons by (subst get_spaces.simps) (simp add: tk_rest_simps tk_past_simps)
  qed
qed

lemma ident_loop_ok: "ident_loop t = Some (tk_past (takeWhile is_ident_body (tk_rest t)) t)"
proof (induction t rule: ident_loop.induct)
  case (1 t)
  show ?case
  proof (cases "tk_rest t")
    case Nil
    then show ?thesis by (subst ident_loop.simps) (simp add: at_ident_body_def tk_rest_simps tk_past_simps)
  next
    case (Cons c cs)
    then have b: "at_ident_body t = Some (is_ident_body c)" by (simp add: at_ident_body_def tk_rest_simps)
    have "ident_loop (advance t) = Some (tk_past (c # takeWhile is_ident_body cs) t)" if "is_ident_body c"
      using "1.IH" [of "is_ident_body c"] b Cons that unfolding tk_past_simps(2) [of t c] by (simp add: tk_rest_simps tk_past_simps)
    then show ?thesis using Cons b by (subst ident_loop.simps) (simp add: tk_past_simps)
  qed
qed

text \<open>The identifier at the start of a text, as long as it can be.\<close>

definition first_ident :: "string \<Rightarrow> string" where
  "first_ident s = (if s \<noteq> [] \<and> is_ident_start (hd s) then takeWhile is_ident_body s else [])"

lemma rest_after_spaces: "tk_rest (tk_past (spaces (tk_rest t)) t) = skip_spaces (tk_rest t)"
  by (simp add: tk_rest_simps dropWhile_eq_drop)

lemma get_ident_ok:
  fixes t :: simple_tokenizer
  defines "u \<equiv> tk_past (spaces (tk_rest t)) t" and "w \<equiv> first_ident (skip_spaces (tk_rest t))"
  shows "get_ident t = Some ((m_ptr u, length w), tk_past w u)"
proof (cases "tk_rest u")
  case Nil
  then have "at_ident_start u = Some False" "w = []"
    using rest_after_spaces [of t] by (simp_all add: at_ident_start_def tk_rest_simps u_def w_def first_ident_def)
  then show ?thesis by (simp add: get_ident_def get_spaces_ok u_def [symmetric] tk_past_simps)
next
  case (Cons c cs)
  then have r: "skip_spaces (tk_rest t) = c # cs" using rest_after_spaces [of t] by (simp add: u_def)
  have a: "at_ident_start u = Some (is_ident_start c)" using Cons by (simp add: at_ident_start_def tk_rest_simps)
  have w: "w = (if is_ident_start c then c # takeWhile is_ident_body cs else [])"
    unfolding w_def first_ident_def r by (simp add: is_ident_body_def)
  have "ident_loop (advance u) = Some (tk_past (c # takeWhile is_ident_body cs) u)"
    unfolding ident_loop_ok tk_past_simps(2) [of u c] using Cons by (simp add: tk_rest_simps tk_past_simps)
  then show ?thesis using a w by (simp add: get_ident_def get_spaces_ok u_def [symmetric] tk_past_simps(1) Let_def) (simp add: tk_past_def)
qed

lemma get_char_ok:
  fixes t :: simple_tokenizer
  defines "u \<equiv> tk_past (spaces (tk_rest t)) t" and "r \<equiv> skip_spaces (tk_rest t)"
  shows "get_char ch t = Some (if r \<noteq> [] \<and> hd r = ch then (False, advance u) else (True, u))"
  using rest_after_spaces [of t] unfolding u_def r_def
  by (cases "skip_spaces (tk_rest t)") (simp_all add: get_char_def get_spaces_ok tk_rest_simps)

section \<open>Tokens of a text\<close>

datatype tk_op = Get_ident | Get_char char

datatype tk_reply = Ident string | Missing bool

fun tk_exec :: "tk_op \<Rightarrow> simple_tokenizer \<Rightarrow> (tk_reply \<times> simple_tokenizer) option" where
  "tk_exec Get_ident t = do { ((p, n), t) \<leftarrow> get_ident t; Some (Ident (take n (drop p (tk_text t))), t) }"
| "tk_exec (Get_char ch) t = do { (b, t) \<leftarrow> get_char ch t; Some (Missing b, t) }"

fun tk_run :: "tk_op list \<Rightarrow> simple_tokenizer \<Rightarrow> (tk_reply list \<times> simple_tokenizer) option" where
  "tk_run [] t = Some ([], t)"
| "tk_run (op # ops) t = do { (r, t) \<leftarrow> tk_exec op t; (rs, t) \<leftarrow> tk_run ops t; Some (r # rs, t) }"

text \<open>The same on the text that is left.\<close>

fun tk_spec :: "tk_op \<Rightarrow> string \<Rightarrow> tk_reply \<times> string" where
  "tk_spec Get_ident s = (let r = skip_spaces s in (Ident (first_ident r), drop (length (first_ident r)) r))"
| "tk_spec (Get_char ch) s = (let r = skip_spaces s in if r \<noteq> [] \<and> hd r = ch then (Missing False, tl r) else (Missing True, r))"

fun tk_specs :: "tk_op list \<Rightarrow> string \<Rightarrow> tk_reply list \<times> string" where
  "tk_specs [] s = ([], s)"
| "tk_specs (op # ops) s = (case tk_spec op s of (r, s) \<Rightarrow> case tk_specs ops s of (rs, s) \<Rightarrow> (r # rs, s))"

lemma first_ident_prefix: "take (length (first_ident s)) s = first_ident s"
  by (simp add: first_ident_def takeWhile_eq_take [symmetric])

lemma tk_exec_ok: "\<exists>t'. tk_exec op t = Some (fst (tk_spec op (tk_rest t)), t') \<and> tk_rest t' = snd (tk_spec op (tk_rest t))"
proof (cases op)
  case Get_ident
  let ?u = "tk_past (spaces (tk_rest t)) t"
  have "drop (m_ptr ?u) (tk_text ?u) = skip_spaces (tk_rest t)" using rest_after_spaces [of t] by (simp add: tk_rest_def)
  then have "drop (m_ptr ?u) (tk_text t) = skip_spaces (tk_rest t)" by (simp add: tk_past_def)
  then show ?thesis using Get_ident get_ident_ok [of t] rest_after_spaces [of t]
    by (simp add: first_ident_prefix Let_def tk_rest_simps) (simp add: tk_past_def first_ident_prefix)
next
  case (Get_char ch)
  then show ?thesis using get_char_ok [of ch t] rest_after_spaces [of t] by (simp add: Let_def tk_rest_simps)
qed

lemma tk_run_ok: "\<exists>t'. tk_run ops t = Some (fst (tk_specs ops (tk_rest t)), t') \<and> tk_rest t' = snd (tk_specs ops (tk_rest t))"
proof (induction ops arbitrary: t)
  case (Cons op ops)
  obtain u where u: "tk_exec op t = Some (fst (tk_spec op (tk_rest t)), u)" "tk_rest u = snd (tk_spec op (tk_rest t))"
    using tk_exec_ok by blast
  obtain t' where "tk_run ops u = Some (fst (tk_specs ops (tk_rest u)), t')" "tk_rest t' = snd (tk_specs ops (tk_rest u))"
    using Cons.IH by blast
  then show ?case using u by (simp del: tk_exec.simps tk_spec.simps add: case_prod_beta)
qed simp

section \<open>Reading a printed map\<close>

definition ident_name :: "string \<Rightarrow> bool" where
  "ident_name w \<longleftrightarrow> w \<noteq> [] \<and> is_ident_start (hd w) \<and> list_all is_ident_body w"

fun pair_ops :: "bool \<Rightarrow> elem_st list \<Rightarrow> tk_op list" where
  "pair_ops first [] = []"
| "pair_ops first (e # es) = (if first then [] else [Get_char CHR '','']) @ [Get_ident, Get_char CHR ''='', Get_ident] @ pair_ops False es"

fun pair_replies :: "bool \<Rightarrow> elem_st list \<Rightarrow> tk_reply list" where
  "pair_replies first [] = []"
| "pair_replies first (e # es) =
     (if first then [] else [Missing False]) @ [Ident (cs_name (m_from e)), Missing False, Ident (coll_name (m_to e))] @ pair_replies False es"

lemma not_ident_chars: "\<not> is_ident_body CHR ''=''" "\<not> is_ident_body CHR '',''" "\<not> is_ident_start CHR '' ''"
  by (simp_all add: is_ident_body_def is_ident_start_def)

lemma read_ident:
  assumes "ident_name w" "s = [] \<or> \<not> is_ident_body (hd s)"
  shows "tk_spec Get_ident (w @ s) = (Ident w, s)"
proof -
  obtain c cs where w: "w = c # cs" "is_ident_start c" using assms(1) by (cases w) (auto simp: ident_name_def)
  then have "c \<noteq> CHR '' ''" using not_ident_chars(3) by auto
  then have sp: "skip_spaces (w @ s) = w @ s" using w by simp
  have "takeWhile is_ident_body s = []" using assms(2) by (cases s) auto
  then have "takeWhile is_ident_body (w @ s) = w" using assms(1) by (simp add: ident_name_def list_all_iff takeWhile_append2)
  then have f: "first_ident (w @ s) = w" using w by (simp add: first_ident_def)
  show ?thesis unfolding tk_spec.simps sp Let_def f by simp
qed

lemma read_char: "c \<noteq> CHR '' '' \<Longrightarrow> tk_spec (Get_char c) (c # s) = (Missing False, s)"
  by (simp add: Let_def)

lemma read_pairs:
  "list_all (\<lambda>e. ident_name (cs_name (m_from e)) \<and> ident_name (coll_name (m_to e))) es \<Longrightarrow>
    tk_specs (pair_ops first es) (text_form first es) = (pair_replies first es, [])"
proof (induction es arbitrary: first)
  case (Cons e es)
  let ?c = "cs_name (m_from e)" and ?l = "coll_name (m_to e)"
  have "text_form False es = [] \<or> \<not> is_ident_body (hd (text_form False es))" using not_ident_chars by (cases es) simp_all
  then have l: "tk_spec Get_ident (?l @ text_form False es) = (Ident ?l, text_form False es)" using Cons.prems by (intro read_ident) simp_all
  have c: "tk_spec Get_ident (?c @ CHR ''='' # ?l @ text_form False es) = (Ident ?c, CHR ''='' # ?l @ text_form False es)"
    using Cons.prems not_ident_chars by (intro read_ident) simp_all
  have three: "tk_specs ([Get_ident, Get_char CHR ''='', Get_ident] @ pair_ops False es) (?c @ CHR ''='' # ?l @ text_form False es) =
      ([Ident ?c, Missing False, Ident ?l] @ pair_replies False es, [])"
    using l c read_char [of "CHR ''=''"] Cons.IH [of False] Cons.prems by (simp del: tk_spec.simps)
  show ?case using three read_char [of "CHR '',''"] by (cases first) (simp_all del: tk_spec.simps add: elem_text_def)
qed simp

text \<open>C39. A map of character set collations whose names are short identifiers, printed into enough bytes, is read
  back by the tokenizer: asked for a name, an equals sign and a name for every pair and a comma between two, it gives
  the names of the map in order, and then the end.\<close>

theorem printed_map_tokens:
  assumes "map_ok m" "list_all short_names (elems m)" "text_format_nbytes_needed m \<le> nbytes" "nbytes \<le> length dst"
    and "list_all (\<lambda>e. ident_name (cs_name (m_from e)) \<and> ident_name (coll_name (m_to e))) (elems m)"
  shows "\<exists>n buf t. map_print nbytes dst m = Some (n, buf) \<and>
    tk_run (pair_ops True (elems m)) (Simple_tokenizer_new (take n buf)) = Some (pair_replies True (elems m), t) \<and> tk_eof t"
proof -
  let ?t = "Simple_tokenizer_new (text_form True (elems m))"
  have p: "map_print nbytes dst m = Some (length (text_form True (elems m)), text_form True (elems m) @ drop (length (text_form True (elems m))) dst)"
    using print_fits [OF assms(1-4)] .
  have "tk_rest ?t = text_form True (elems m)" by (simp add: tk_rest_def Simple_tokenizer_new_def)
  then obtain t where "tk_run (pair_ops True (elems m)) ?t = Some (pair_replies True (elems m), t)" "tk_rest t = []"
    using tk_run_ok [of "pair_ops True (elems m)" ?t] read_pairs [OF assms(5), of True] by auto
  then show ?thesis using p by (intro exI [of _ "length (text_form True (elems m))"] exI conjI) (assumption | simp add: tk_rest_simps)+
qed

lemma printed_map_tokens_witness:
  "\<exists>n buf t. map_print 98 (replicate 100 CHR '' '') demo_pair = Some (n, buf) \<and>
    tk_run [Get_ident, Get_char CHR ''='', Get_ident] (Simple_tokenizer_new (take n buf)) =
      Some ([Ident ''utf8mb4'', Missing False, Ident ''u''], t) \<and> tk_eof t"
proof -
  have e: "elems demo_pair = [elem_new (demo_charset 45 ''utf8mb4'' ''g'') (demo_charset 224 ''utf8mb4'' ''u'')]"
    by (simp add: elems_def demo_pair_def Let_def)
  then have m: "map_ok demo_pair" by (simp add: map_ok_def) (simp add: demo_pair_def Let_def)
  have s: "list_all short_names (elems demo_pair)"
    unfolding e by (simp add: short_names_def elem_new_def demo_charset_def MY_CS_CHARACTER_SET_NAME_SIZE_def MY_CS_COLLATION_NAME_SIZE_def)
  have n: "text_format_nbytes_needed demo_pair \<le> 98"
    by (simp add: text_format_nbytes_needed_def demo_pair_def Let_def text_size_max_def MY_CS_CHARACTER_SET_NAME_SIZE_def MY_CS_COLLATION_NAME_SIZE_def)
  have l: "(98 :: nat) \<le> length (replicate 100 CHR '' '')" by simp
  have i: "list_all (\<lambda>e. ident_name (cs_name (m_from e)) \<and> ident_name (coll_name (m_to e))) (elems demo_pair)"
    unfolding e by (simp add: ident_name_def elem_new_def demo_charset_def is_ident_body_def is_ident_start_def)
  show ?thesis using printed_map_tokens [OF m s n l i] unfolding e by (simp add: elem_new_def demo_charset_def)
qed

end
