(* ===== verification/Spec2Isabelle.thy ===== *)
theory Spec2Isabelle
  imports Zip_Life Zip_Module Zip_Props Zip_Extract Zip_Add Zip_Read Zip_Procedural Zip_Stream My_Bits Lifo_Buffer Sql_Bitmap
    Sql_Type_Int Privilege Sql_Sort Sql_I_List Intrusive_List Ilist Byte_Order Tranx_Alloc Binary_String Bounded_Queue Plist
    Filesort_Buffer Mem_Root_Array Span Sql_Limit Thread_Cache Hash_Filo Charset_Map Simple_Tokenizer
begin

text \<open>
  \<^bold>\<open>What the repository is.\<close> The repository is a distribution of Wamp.NET: the binaries, the
  configuration and the headers of PHP 8.1, Apache 2.4 and MariaDB 11.4. Its C code with a body is
  the zip extension of PHP (\<open>bin/5-php_8.1.2_x64/ext/php_zip.c\<close>, \<open>zip_stream.c\<close>, \<open>php_zip.h\<close>)
  and the inline functions of the server headers of MariaDB
  (\<open>bin/13-mariadb_11.4.2_x64/include/mysql/server\<close>). This development models the zip extension
  whole and the algorithmic kernels of those headers. Names of definitions are those of the
  code, with \<open>ZipArchive_m\<close> for the method \<open>m\<close> and \<open>PHP_f\<close> for the function \<open>f\<close>.

  \<^bold>\<open>The zip extension.\<close> Everything the extension calls (libzip, Zend, the stream layer, the
  platform) is a request of one of the types of \<open>Zip_Env\<close>, answered by an environment \<open>E\<close>, a
  parameter of every operation. An operation is a state transformer (HOL-Library.State_Monad)
  over a record with the environment's world, the trace of the requests made so far, the exception
  pending and \<open>self\<close>, the state of the component: an archive object, the resource list, or a
  stream. Properties are stated with \<open>wp\<close>, the weakest precondition of an operation, for every
  answer the environment can give, or with \<open>run_state\<close> for given answers. C's conversions
  are written out (\<open>as_int\<close>, \<open>as_u32\<close>, ...); strings passed to C functions are cut at the
  first NUL (\<open>cstr\<close>). The build is the one the code's feature macros select with libzip 1.x:
  encryption, progress and cancel callbacks, mtime and attributes present, glob available;
  \<open>ZTS\<close> and \<open>PHP_WIN32\<close> are fields of the environment.

  \<^item> \<open>Prelude\<close>: conversions, C strings, \<open>wp\<close> and its rules (\<open>wp_simps\<close>), preservation, and the
    locale \<open>transition_system\<close> with the induction rule for reachable states.
  \<^item> \<open>Zip_Env\<close>: values, requests, environments, the trace. \<open>Zip_Trace\<close>: what a trace says of
    handles: \<open>live\<close>, \<open>disciplined\<close> (no request on a closed handle), balances of entries and
    streams, and the calculus \<open>logs\<close> for what an operation appends to it.
  \<^item> \<open>Zip_Path\<close>: \<open>php_zip_make_relative_path\<close>, its two loops and a reference definition.
  \<^item> \<open>Zip_Object\<close>: the object: open, close, status, password, callbacks, destruction.
  \<^item> \<open>Zip_Extract\<close>: \<open>php_zip_extract_file\<close> and \<open>extractTo\<close>. The copy loop has fuel, one unit per
    read; \<open>extract_contents_copies\<close> proves that one unit for every read that gives data and one
    more is enough, so a fuel that is too small is never hidden in a result.
  \<^item> \<open>Zip_Add\<close>: options, listing by pattern, adding files, buffers and directories.
  \<^item> \<open>Zip_Entry\<close>: methods on one entry. The locale \<open>name_index_pair\<close> is the contract between a method
    by name and its twin by index; it is interpreted for compression, encryption, mtime, renaming
    and reverting.
  \<^item> \<open>Zip_Read\<close>: reading entries. \<open>Zip_Props\<close>: the virtual properties, over the locale
    \<open>handler_table\<close>. \<open>Zip_Module\<close>: module start and phpinfo.
  \<^item> \<open>Zip_Procedural\<close>: the zip_* functions over the resource list. \<open>Zip_Stream\<close>: zip:// streams.
  \<^item> \<open>Zip_Machine\<close>: the transition system of an archive object, whose steps are all its operations
    with any arguments and answers, and its invariant. \<open>Zip_Life\<close>: what follows for the life
    of an object: no use of a closed handle, references to callbacks, closing, destruction.

  \<^bold>\<open>The MariaDB headers.\<close> Each theory translates one header's inline code.

  \<^item> \<open>My_Bits\<close>: \<open>private/my_bit.h\<close>. Every function is proved to compute what its comment says, for
    every value: highest and lowest bit (with the end of the loop), next power of two, masks,
    reversal (for any table that reverses bytes) and population count.
  \<^item> \<open>Lifo_Buffer\<close>: \<open>private/sql_lifo_buffer.h\<close>, with \<open>TRASH_ALLOC\<close> of \<open>my_valgrind.h\<close>. A buffer is a
    record of integer addresses into a shared memory; a failing \<open>DBUG_ASSERT\<close> is None; the
    virtual functions are chosen by the direction. The locale \<open>bounded_stack\<close> is what a user relies on; it
    is interpreted for both buffers. \<open>my_qsort2\<close> is a parameter of \<open>Lifo_sort\<close>.
  \<^item> \<open>Sql_Bitmap\<close>: \<open>private/sql_bitmap.h\<close>. A bitmap is its array of words; the width and whether the build
    has assertions are arguments; None is a failing assertion, an undefined shift or an access
    outside the array. The locale \<open>data_refinement\<close> of \<open>Prelude\<close> is interpreted for its operations, which
    are proved to act on sets of numbers below the width.
  \<^item> \<open>Sql_Type_Int\<close>: \<open>private/sql_type_int.h\<close>. Signed and unsigned 64-bit integers are words; each
    operation is proved exact, or null where the result does not fit.
  \<^item> \<open>Privilege\<close>: \<open>private/privilege.h\<close>. The packing functions commute with \<open>OR\<close>, so their properties are
    decided on the 64 single bits (\<open>or_linear_eqI\<close>). The constants \<open>PRIV_...\<close> are tables of names and values.
  \<^item> \<open>Sql_List\<close>, \<open>Sql_Sort\<close>, \<open>Sql_I_List\<close>: the singly linked lists of \<open>private/sql_list.h\<close>. Nodes and lists live in
    one heap of cells, so that shared and damaged lists have a meaning. \<open>list_ok l xs h\<close> says that \<open>l\<close>
    holds the nodes \<open>xs\<close>; the operations refine those on plain lists (\<open>data_refinement\<close> again). Loops over a heap
    are partial functions, so that a cyclic heap is None; on well-formed lists they are proved to return.
  \<^item> \<open>Intrusive_List\<close>: \<open>ilink\<close> and \<open>base_ilist\<close> of \<open>private/sql_list.h\<close>; \<open>Ilist\<close>: \<open>private/ilist.h\<close>. Elements are nodes
    of one heap, linked both ways through a sentinel in the list. Both interpret \<open>data_refinement\<close> for
    sequences of operations; two operations are proved to break the list (\<open>move_elements_to\<close>, \<open>pop_back\<close>).
  \<^item> \<open>Byte_Order\<close>: \<open>my_byteorder.h\<close>, \<open>byte_order_generic.h\<close> and its x86 variants, \<open>little_endian.h\<close>, \<open>big_endian.h\<close>,
    \<open>private/myisampack.h\<close>. Each macro is proved to be a load or a store of one of the two byte orders,
    from which agreement, round trips and the order of stored keys follow.
  \<^item> \<open>Tranx_Alloc\<close>: \<open>Tranx_node_allocator\<close> of \<open>private/semisync_master.h\<close>. Blocks lie in a heap at addresses that
    do not overlap; \<open>tranx_ok us fs a\<close> says which blocks are in use and which are free. Every state the
    constructor and the events reach is of this form (\<open>transition_system\<close>), and the events are those of a queue.
  \<^item> \<open>Binary_String\<close>: \<open>Binary_string\<close> of \<open>private/sql_string.h\<close>, over a memory of blocks in which every access is
    checked. \<open>realloc_ok\<close> is the contract of \<open>realloc_raw\<close>, which the header only declares, \<open>demo_realloc\<close> a function that
    meets it; \<open>added\<close> says what an append does, and \<open>owners_ok\<close> that every block has one owner.
  \<^item> \<open>Bounded_Queue\<close>: \<open>Bounded_queue\<close> of \<open>private/bounded_queue.h\<close> on the macros of \<open>private/queues.h\<close>. \<open>queue_ok\<close> is
    the contract of the queue functions the header only declares, \<open>sorted_queue\<close> functions that meet it; \<open>bq_ok\<close> says
    that the queue keeps the best keys seen.
  \<^item> \<open>Plist\<close>: \<open>I_P_List\<close> of \<open>private/sql_plist.h\<close> with its policies and its iterator. \<open>plist_ok\<close> says what one list
    holds, \<open>plist_frame\<close> what an operation leaves to the other lists, \<open>lists_run\<close> is the same on plain lists.
  \<^item> \<open>Filesort_Buffer\<close>: \<open>Filesort_buffer\<close> of \<open>private/filesort_utils.h\<close>, its addresses and sizes as words. \<open>fs_alloced\<close> is what
    \<open>alloc_sort_buffer\<close> provides, \<open>fs_ok\<close> the layout of records and pointers, \<open>key_array\<close> the pointers as an array.
  \<^item> \<open>Mem_Root_Array\<close>: \<open>Mem_root_array\<close> of \<open>private/mem_root_array.h\<close> over blocks whose slots hold an element or are raw.
    \<open>mra_ok\<close> says which elements an array holds and that every other one constructed was destroyed; \<open>seq_run\<close> is the
    same on a list. The loops of \<open>resize\<close> end whenever the array is well formed (\<open>push_until_ok\<close>, \<open>pop_until_ok\<close>).
  \<^item> \<open>Span\<close>: \<open>st_::span\<close> of \<open>private/span.h\<close> and \<open>Bounds_checked_array\<close> of \<open>private/sql_array.h\<close>; \<open>view\<close> is the elements they show.
  \<^item> \<open>Sql_Limit\<close>: \<open>Select_limit_counters\<close> of \<open>private/sql_limit.h\<close>; \<open>row_sent\<close> says which rows of a query are sent.
  \<^item> \<open>Thread_Cache\<close>: \<open>Thread_cache\<close> of \<open>private/thread_cache.h\<close> as a state machine: a step is what one thread does while it
    holds the mutex, or a signal, timeout or wake-up. \<open>tc_inv\<close>, \<open>kill_inv\<close> and \<open>single_inv\<close> are its invariants, each by an
    interpretation of \<open>transition_system\<close>; two flushes that overlap are proved to be able to wait for good.
  \<^item> \<open>Hash_Filo\<close>: \<open>hash_filo\<close> of \<open>private/hash_filo.h\<close>. \<open>hash_ok\<close> is the contract of the functions of \<open>HASH\<close>, \<open>list_hash\<close> a table
    that meets it; \<open>filo_inv\<close> says which elements are chained in which order, \<open>lru_run\<close> is the same on a list.
  \<^item> \<open>Charset_Map\<close>: \<open>Charset_collation_map_st\<close> of \<open>private/charset_collations.h\<close>. \<open>map_ok\<close> says that the elements are sorted,
    \<open>map_abs\<close> is the finite map they stand for; the binary search ends by a measure. \<open>binary_form\<close> and \<open>text_form\<close> are
    what is written, over the stores of \<open>Byte_Order\<close>; printing keeps to its buffer (\<open>print_bounded\<close>).
  \<^item> \<open>Simple_Tokenizer\<close>: \<open>private/simple_tokenizer.h\<close>. \<open>tk_spec\<close> says what each operation does to the text that is left; the
    tokens of a printed map are its names.

  \<^bold>\<open>Not modelled.\<close> The generated argument tables of the extension (\<open>php_zip_arginfo.h\<close>) hold no
  behaviour. The answers of libzip, Zend, PCRE and the platform are parameters, because their
  code is not in the repository. Argument parsing is Zend's: an operation is given the parsed
  arguments, or none when parsing failed. \<open>php_zip_get_gc\<close> only exposes the property table to the
  collector. Reads of uninitialised memory are not modelled: the options of
  \<open>php_zip_add_from_pattern\<close> are an argument where the code leaves them unset. The other MariaDB
  and Apache headers declare functions whose code is in the shipped binaries, or classes
  that only make sense with that code; a few small classes with bodies, such as the date modes of
  \<open>private/sql_basic_types.h\<close> and the parser classes of \<open>private/lex_charset.h\<close>, are left out because their
  operations are single bit operations or call code that is not in the repository.
\<close>

end
